(* ===== verification/Prelude.thy ===== *)
theory Prelude imports Main "HOL-Library.Word" begin

text \<open>
  Shared vocabulary of the development: the names of the model's types, the C result codes
  (\<^verbatim>\<open>include/hybbx/types.h\<close>), the parts of the C string library the sources call, and the
  generic byte loop with its framing interface.

  Conventions.  A C buffer together with its length is a list.  A C string is a \<^typ>\<open>string\<close>
  without its terminating NUL.  A \<^verbatim>\<open>size_t\<close> is a \<^typ>\<open>nat\<close>; where a narrower or
  wrapping integer matters it is a word or the reduction is written out.  Pointers are non-NULL
  unless the model's argument is an \<^verbatim>\<open>option\<close>.
\<close>

unbundle bit_operations_syntax

type_synonym u8 = "8 word"
type_synonym u16 = "16 word"
type_synonym u32 = "32 word"
type_synonym bytes = "u8 list"


section \<open>Result codes\<close>

datatype hybbx_result =
    HYBBX_OK | HYBBX_LOCAL_CMD | HYBBX_SESSION_END | HYBBX_ERR_INVALID | HYBBX_ERR_NOMEM
  | HYBBX_ERR_NOT_FOUND | HYBBX_ERR_IO | HYBBX_ERR_UNSUPPORTED | HYBBX_ERR_BUSY
  | HYBBX_ERR_DENIED

section \<open>The C string library\<close>

definition c_isspace :: "char \<Rightarrow> bool" where
  "c_isspace c \<longleftrightarrow> c = CHR 0x20 \<or> c = CHR 0x09 \<or> c = CHR 0x0A \<or> c = CHR 0x0B \<or> c = CHR 0x0C
     \<or> c = CHR 0x0D"

definition c_isdigit :: "char \<Rightarrow> bool" where
  "c_isdigit c \<longleftrightarrow> 48 \<le> (of_char c :: nat) \<and> (of_char c :: nat) \<le> 57"

definition c_isupper :: "char \<Rightarrow> bool" where
  "c_isupper c \<longleftrightarrow> 65 \<le> (of_char c :: nat) \<and> (of_char c :: nat) \<le> 90"

definition c_islower :: "char \<Rightarrow> bool" where
  "c_islower c \<longleftrightarrow> 97 \<le> (of_char c :: nat) \<and> (of_char c :: nat) \<le> 122"

definition c_tolower :: "char \<Rightarrow> char" where
  "c_tolower c = (if c_isupper c then char_of (of_char c + 32 :: nat) else c)"

definition c_toupper :: "char \<Rightarrow> char" where
  "c_toupper c = (if c_islower c then char_of (of_char c - 32 :: nat) else c)"

text \<open>The case-insensitive comparison loop that several files repeat.\<close>

fun str_ieq :: "string \<Rightarrow> string \<Rightarrow> bool" where
  "str_ieq (a # as) (b # bs) = (if c_tolower a \<noteq> c_tolower b then False else str_ieq as bs)"
| "str_ieq [] [] = True"
| "str_ieq (a # as) [] = False"
| "str_ieq [] (b # bs) = False"

definition c_digit :: "char \<Rightarrow> nat" where
  "c_digit c = of_char c - 48"

definition digits_val :: "string \<Rightarrow> nat" where
  "digits_val ds = foldl (\<lambda>n c. 10 * n + c_digit c) 0 ds"

definition c_ulong_max :: nat where "c_ulong_max = 2 ^ 64 - 1"

text \<open>
  \<^verbatim>\<open>strtoul(s, &end, 10)\<close>: leading white space, an optional sign, the digits; the value
  saturates at \<^verbatim>\<open>ULONG_MAX\<close>, a minus sign negates modulo \<open>2 ^ 64\<close>, and without a
  digit the value is 0 and \<^verbatim>\<open>end\<close> is the start.
\<close>

definition c_strtoul :: "string \<Rightarrow> nat \<times> string" where
  "c_strtoul s =
     (let t = dropWhile c_isspace s;
          neg = (t \<noteq> [] \<and> hd t = CHR ''-'');
          u = (if t \<noteq> [] \<and> (hd t = CHR ''-'' \<or> hd t = CHR ''+'') then tl t else t);
          ds = takeWhile c_isdigit u;
          v = digits_val ds
      in if ds = [] then (0, s)
         else (if v > c_ulong_max then c_ulong_max
               else if neg then (2 ^ 64 - v) mod 2 ^ 64 else v,
               dropWhile c_isdigit u))"

text \<open>\<^verbatim>\<open>%u\<close> and \<^verbatim>\<open>%d\<close> of a non-negative number.\<close>

fun dec_of_nat :: "nat \<Rightarrow> string" where
  "dec_of_nat n = (if n < 10 then [char_of (48 + n)]
                   else dec_of_nat (n div 10) @ [char_of (48 + n mod 10)])"

declare dec_of_nat.simps [simp del]

text \<open>\<^verbatim>\<open>snprintf\<close> into a buffer of \<open>cap\<close> bytes: what the buffer then holds.\<close>

definition c_snprintf :: "nat \<Rightarrow> string \<Rightarrow> string" where
  "c_snprintf cap text = take (cap - 1) text"

text \<open>\<^verbatim>\<open>strlcpy\<close> into an array of \<open>cap\<close> characters, seen as a string.\<close>

definition str_store :: "nat \<Rightarrow> string \<Rightarrow> string" where
  "str_store cap s = take (cap - 1) s"

section \<open>Character and string lemmas\<close>

lemma str_store_fits [simp]: "length s < cap \<Longrightarrow> str_store cap s = s"
  by (simp add: str_store_def)

lemma of_char_char_of_nat: "n < 256 \<Longrightarrow> of_char (char_of n :: char) = (n :: nat)"
  by (simp add: of_char_of)

lemma unat_of_char_u8 [simp]: "unat (of_char c :: u8) = of_char c"
proof -
  have "(of_char c :: u8) = of_nat (of_char c)" by (simp add: of_nat_of_char)
  then show ?thesis by (simp add: unat_of_nat)
qed

lemma u8_of_char_of_nat [simp]: "(of_char (char_of (n :: nat)) :: u8) = of_nat (n mod 256)"
proof -
  have "(of_char (char_of n :: char) :: u8) = of_nat (of_char (char_of n :: char))"
    by (simp only: of_nat_of_char)
  then show ?thesis by simp
qed

text \<open>A C string seen as the bytes of a buffer, and back.\<close>

definition bytes_of_string :: "string \<Rightarrow> bytes" where
  "bytes_of_string s = map of_char s"

definition string_of_bytes :: "bytes \<Rightarrow> string" where
  "string_of_bytes bs = map (\<lambda>b. char_of (unat b)) bs"

lemma string_of_bytes_of_string [simp]: "string_of_bytes (bytes_of_string s) = s"
  by (simp add: string_of_bytes_def bytes_of_string_def comp_def)

lemma length_bytes_of_string [simp]: "length (bytes_of_string s) = length s"
  by (simp add: bytes_of_string_def)

lemma c_tolower_idem [simp]: "c_tolower (c_tolower c) = c_tolower c"
  by (auto simp: c_tolower_def c_isupper_def of_char_char_of_nat)

lemma c_toupper_idem [simp]: "c_toupper (c_toupper c) = c_toupper c"
  by (auto simp: c_toupper_def c_islower_def of_char_char_of_nat)

lemma c_toupper_not_lower: "\<not> c_islower (c_toupper c)"
  by (auto simp: c_toupper_def c_islower_def of_char_char_of_nat)

lemma c_toupper_upper_of_lower: "c_islower c \<Longrightarrow> c_isupper (c_toupper c)"
  by (auto simp: c_toupper_def c_islower_def c_isupper_def of_char_char_of_nat)

lemma c_toupper_graph:
  "33 \<le> (of_char c :: nat) \<Longrightarrow> (of_char c :: nat) < 127 \<Longrightarrow>
   33 \<le> (of_char (c_toupper c) :: nat) \<and> (of_char (c_toupper c) :: nat) < 127"
  by (simp add: c_toupper_def c_islower_def of_char_char_of_nat) arith

lemma c_toupper_other: "\<not> c_islower c \<Longrightarrow> c_toupper c = c"
  by (simp add: c_toupper_def)

lemma str_ieq_iff: "str_ieq a b \<longleftrightarrow> map c_tolower a = map c_tolower b"
  by (induction a b rule: str_ieq.induct) auto

lemma c_isdigit_char_of: "n < 10 \<Longrightarrow> c_isdigit (char_of (48 + n :: nat))"
  by (simp add: c_isdigit_def of_char_char_of_nat)

lemma c_digit_char_of: "n < 10 \<Longrightarrow> c_digit (char_of (48 + n :: nat)) = n"
  by (simp add: c_digit_def of_char_char_of_nat)

lemma digits_val_snoc: "digits_val (ds @ [c]) = 10 * digits_val ds + c_digit c"
  by (simp add: digits_val_def)

lemma dec_of_nat_digits: "\<forall>c \<in> set (dec_of_nat n). c_isdigit c"
proof (induction n rule: dec_of_nat.induct)
  case (1 n)
  show ?case
    by (subst dec_of_nat.simps) (use 1 in \<open>auto intro: c_isdigit_char_of\<close>)
qed

lemma dec_of_nat_val [simp]: "digits_val (dec_of_nat n) = n"
proof (induction n rule: dec_of_nat.induct)
  case (1 n)
  show ?case
  proof (cases "n < 10")
    case True
    then show ?thesis
      by (subst dec_of_nat.simps) (simp add: digits_val_def c_digit_char_of)
  next
    case False
    then have "digits_val (dec_of_nat n) = 10 * digits_val (dec_of_nat (n div 10)) + n mod 10"
      by (subst dec_of_nat.simps) (simp add: digits_val_snoc c_digit_char_of)
    with 1 False show ?thesis by simp
  qed
qed

lemma dec_of_nat_not_Nil [simp]: "dec_of_nat n \<noteq> []"
  by (subst dec_of_nat.simps) simp

lemma Nil_not_dec_of_nat [simp]: "[] \<noteq> dec_of_nat n"
  using dec_of_nat_not_Nil [of n] by metis

lemma dec_of_nat_length: "0 < k \<Longrightarrow> n < 10 ^ k \<Longrightarrow> length (dec_of_nat n) \<le> k"
proof (induction k arbitrary: n)
  case 0
  then show ?case by simp
next
  case (Suc k)
  show ?case
  proof (cases "n < 10")
    case True
    then show ?thesis by (subst dec_of_nat.simps) simp
  next
    case False
    with Suc.prems have "0 < k" "n div 10 < 10 ^ k" by (cases k; simp)+
    with Suc.IH [of "n div 10"] False show ?thesis by (subst dec_of_nat.simps) simp
  qed
qed

lemma c_isdigit_not_space: "c_isdigit c \<Longrightarrow> \<not> c_isspace c"
  by (auto simp: c_isdigit_def c_isspace_def)

lemma c_isdigit_not_sign: "c_isdigit c \<Longrightarrow> c \<noteq> CHR ''-'' \<and> c \<noteq> CHR ''+''"
  by (auto simp: c_isdigit_def)

lemma c_strtoul_digits:
  assumes "ds \<noteq> []" and "\<forall>c \<in> set ds. c_isdigit c" and "digits_val ds \<le> c_ulong_max"
  shows "c_strtoul ds = (digits_val ds, [])"
proof -
  obtain d ds' where ds: "ds = d # ds'" using assms(1) by (cases ds) auto
  with assms(2) have d: "c_isdigit d" by simp
  have sp: "dropWhile c_isspace ds = ds"
    using ds c_isdigit_not_space [OF d] by simp
  have tk: "takeWhile c_isdigit ds = ds" using assms(2) by simp
  have dr: "dropWhile c_isdigit ds = []" using assms(2) by simp
  have hd: "hd ds \<noteq> CHR ''-''" "hd ds \<noteq> CHR ''+''"
    using ds c_isdigit_not_sign [OF d] by auto
  show ?thesis
    using assms(1,3) by (simp add: c_strtoul_def Let_def sp tk dr hd)
qed

lemma c_strtoul_dec_of_nat:
  "n \<le> c_ulong_max \<Longrightarrow> c_strtoul (dec_of_nat n) = (n, [])"
  using c_strtoul_digits [of "dec_of_nat n"] dec_of_nat_digits by simp

lemma low_nibble_mask: "(0x0F :: u8) = mask 4"
  by (simp add: mask_eq_exp_minus_1)

lemma word_xor_right_cancel [simp]: "(a XOR k = b XOR k) = (a = (b :: 'a :: len word))"
  by (auto simp: bit_eq_iff bit_simps)

lemma word_xor_left_cancel [simp]: "(k XOR a = k XOR b) = (a = (b :: 'a :: len word))"
  by (auto simp: bit_eq_iff bit_simps)

lemma take_drop_append: "j + n \<le> length xs \<Longrightarrow> take n (drop j (xs @ ys)) = take n (drop j xs)"
  by simp

lemma takeWhile_until: "c \<notin> set xs \<Longrightarrow> takeWhile (\<lambda>x. x \<noteq> c) (xs @ c # ys) = xs"
  by (induction xs) auto

lemma dropWhile_until: "c \<notin> set xs \<Longrightarrow> dropWhile (\<lambda>x. x \<noteq> c) (xs @ c # ys) = c # ys"
  by (induction xs) auto

lemma takeWhile_all: "c \<notin> set xs \<Longrightarrow> takeWhile (\<lambda>x. x \<noteq> c) xs = xs"
  by (induction xs) auto

section \<open>Splitting at a separator\<close>

fun split_on :: "'a \<Rightarrow> 'a list \<Rightarrow> 'a list list" where
  "split_on c [] = [[]]"
| "split_on c (x # xs) =
     (if x = c then [] # split_on c xs
      else case split_on c xs of [] \<Rightarrow> [[x]] | w # ws \<Rightarrow> (x # w) # ws)"

lemma split_on_not_Nil [simp]: "split_on c xs \<noteq> []"
  by (induction xs) (auto split: list.splits)

lemma split_on_length: "w \<in> set (split_on c xs) \<Longrightarrow> length w \<le> length xs"
proof (induction xs arbitrary: w)
  case Nil
  then show ?case by simp
next
  case (Cons x xs)
  obtain v vs where v: "split_on c xs = v # vs" by (cases "split_on c xs") auto
  show ?case
  proof (cases "x = c")
    case True
    with Cons show ?thesis by (auto intro: le_SucI)
  next
    case False
    with Cons.prems v have "w = x # v \<or> w \<in> set vs" by auto
    with Cons.IH v show ?thesis by (auto intro: le_SucI)
  qed
qed

lemma split_on_none: "c \<notin> set xs \<Longrightarrow> split_on c xs = [xs]"
  by (induction xs) auto

lemma split_on_append: "split_on c (xs @ c # ys) = split_on c xs @ split_on c ys"
  by (induction xs) (auto split: list.splits)

section \<open>The first slot of a table that satisfies a condition\<close>

fun find_slot :: "('a \<Rightarrow> bool) \<Rightarrow> 'a list \<Rightarrow> nat option" where
  "find_slot P [] = None"
| "find_slot P (x # xs) = (if P x then Some 0 else map_option Suc (find_slot P xs))"

lemma find_slot_None_iff: "find_slot P xs = None \<longleftrightarrow> (\<forall>x \<in> set xs. \<not> P x)"
  by (induction xs) auto

lemma find_slot_Some:
  "find_slot P xs = Some i \<Longrightarrow> i < length xs \<and> P (xs ! i) \<and> (\<forall>j < i. \<not> P (xs ! j))"
proof (induction xs arbitrary: i)
  case Nil
  then show ?case by simp
next
  case (Cons x xs)
  show ?case
  proof (cases "P x")
    case True
    with Cons.prems show ?thesis by simp
  next
    case False
    with Cons.prems obtain k where k: "find_slot P xs = Some k" "i = Suc k" by auto
    from Cons.IH [OF k(1)] k(2) False show ?thesis by (auto simp: less_Suc_eq_0_disj)
  qed
qed

lemmas find_slot_SomeD = find_slot_Some [THEN conjunct1]
  find_slot_Some [THEN conjunct2, THEN conjunct1]

lemma find_slot_replicate:
  "find_slot P (replicate n x) = (if P x \<and> 0 < n then Some 0 else None)"
  by (induction n) auto

section \<open>The byte loop\<close>

text \<open>
  Every protocol decoder of the program is a loop \<^verbatim>\<open>for (i = 0; i < len; i++)\<close> over the
  received bytes whose body updates the decoder and may call back with a finished unit.
  \<open>run_stream\<close> is that loop; what is called back is collected in order.
\<close>

fun run_stream :: "('s \<Rightarrow> 'b \<Rightarrow> 's \<times> 'e list) \<Rightarrow> 's \<Rightarrow> 'b list \<Rightarrow> 's \<times> 'e list" where
  "run_stream step s [] = (s, [])"
| "run_stream step s (b # bs) =
     (let (s', es) = step s b; (s'', es') = run_stream step s' bs in (s'', es @ es'))"

text \<open>Successive calls of the decoder with the data of successive reads.\<close>

fun run_reads :: "('s \<Rightarrow> 'b \<Rightarrow> 's \<times> 'e list) \<Rightarrow> 's \<Rightarrow> 'b list list \<Rightarrow> 's \<times> 'e list" where
  "run_reads step s [] = (s, [])"
| "run_reads step s (c # cs) =
     (let (s', es) = run_stream step s c; (s'', es') = run_reads step s' cs in (s'', es @ es'))"

declare run_stream.simps(2) [simp del]

lemma run_stream_step [simp]:
  "run_stream step s (b # bs) =
     (fst (run_stream step (fst (step s b)) bs),
      snd (step s b) @ snd (run_stream step (fst (step s b)) bs))"
  by (simp add: run_stream.simps(2) case_prod_beta Let_def)

lemma run_stream_append:
  "run_stream step s (xs @ ys) =
     (fst (run_stream step (fst (run_stream step s xs)) ys),
      snd (run_stream step s xs) @ snd (run_stream step (fst (run_stream step s xs)) ys))"
  by (induction xs arbitrary: s) auto

lemma run_reads_concat: "run_reads step s cs = run_stream step s (concat cs)"
  by (induction cs arbitrary: s) (auto simp: run_stream_append case_prod_beta Let_def)

lemma run_stream_inv:
  assumes "\<And>s b. P s \<Longrightarrow> P (fst (step s b))" and "P s"
  shows "P (fst (run_stream step s bs))"
  using assms(2)
  by (induction bs arbitrary: s) (auto simp: assms(1))

lemma run_stream_silent:
  assumes "\<And>b. b \<in> set bs \<Longrightarrow> step s b = (s, [])"
  shows "run_stream step s bs = (s, [])"
  using assms by (induction bs) auto

section \<open>The framing interface\<close>

text \<open>
  What a decoder and an encoder of the same frames owe each other: from an idle decoder, one
  encoded frame is called back exactly once, as sent, and the decoder is idle again.  The clients
  are the links, which see a byte stream cut into reads at arbitrary places.
\<close>

locale framed_codec =
  fixes step :: "'s \<Rightarrow> u8 \<Rightarrow> 's \<times> 'e list"
    and idle :: "'s \<Rightarrow> bool"
    and enc :: "'f \<Rightarrow> bytes"
    and sendable :: "'f \<Rightarrow> bool"
    and delivered :: "'f \<Rightarrow> 'e"
  assumes decode_one:
    "idle s \<Longrightarrow> sendable f \<Longrightarrow>
     snd (run_stream step s (enc f)) = [delivered f] \<and> idle (fst (run_stream step s (enc f)))"
begin

lemma decode_many:
  "idle s \<Longrightarrow> (\<forall>f \<in> set fs. sendable f) \<Longrightarrow>
   snd (run_stream step s (concat (map enc fs))) = map delivered fs
   \<and> idle (fst (run_stream step s (concat (map enc fs))))"
proof (induction fs arbitrary: s)
  case Nil
  then show ?case by simp
next
  case (Cons f fs)
  from Cons.prems have one: "snd (run_stream step s (enc f)) = [delivered f]"
    "idle (fst (run_stream step s (enc f)))"
    using decode_one by auto
  with Cons.IH [OF one(2)] Cons.prems show ?case by (simp add: run_stream_append)
qed

lemma decode_reads:
  assumes "idle s" and "\<forall>f \<in> set fs. sendable f" and "concat reads = concat (map enc fs)"
  shows "snd (run_reads step s reads) = map delivered fs"
  using decode_many [OF assms(1,2)] assms(3) by (simp add: run_reads_concat)

end

section \<open>The bounded queue interface\<close>

text \<open>
  What a queue of at most \<open>cap\<close> elements owes its user: an element put goes to the end of the
  contents while there is room, and what is taken is the front, in order.
\<close>

locale bounded_fifo =
  fixes ok :: "'q \<Rightarrow> bool"
    and contents :: "'q \<Rightarrow> 'a list"
    and put :: "'q \<Rightarrow> 'a \<Rightarrow> 'q"
    and front :: "'q \<Rightarrow> 'a"
    and discard :: "'q \<Rightarrow> 'q"
    and cap :: nat
  assumes put_contents:
    "ok q \<Longrightarrow> length (contents q) < cap \<Longrightarrow> ok (put q x) \<and> contents (put q x) = contents q @ [x]"
    and take_contents:
    "ok q \<Longrightarrow> contents q \<noteq> [] \<Longrightarrow>
     front q = hd (contents q) \<and> ok (discard q) \<and> contents (discard q) = tl (contents q)"
begin

lemma discard_many:
  "ok q \<Longrightarrow> n \<le> length (contents q) \<Longrightarrow>
   ok ((discard ^^ n) q) \<and> contents ((discard ^^ n) q) = drop n (contents q)"
proof (induction n)
  case 0
  then show ?case by simp
next
  case (Suc n)
  then have IH: "ok ((discard ^^ n) q)" "contents ((discard ^^ n) q) = drop n (contents q)" by auto
  with Suc.prems have "contents ((discard ^^ n) q) \<noteq> []" by simp
  from take_contents [OF IH(1) this] IH(2) show ?case by (simp add: drop_Suc drop_tl)
qed

lemma put_many:
  "ok q \<Longrightarrow> length (contents q) + length xs \<le> cap \<Longrightarrow>
   ok (foldl put q xs) \<and> contents (foldl put q xs) = contents q @ xs"
proof (induction xs arbitrary: q)
  case Nil
  then show ?case by simp
next
  case (Cons x xs)
  then have p: "ok (put q x)" "contents (put q x) = contents q @ [x]" using put_contents by auto
  with Cons.IH [OF p(1)] Cons.prems show ?case by simp
qed

text \<open>First in, first out: what is put into an empty queue and taken from it is in order.\<close>

lemma fifo:
  "ok q \<Longrightarrow> contents q = [] \<Longrightarrow> length xs \<le> cap \<Longrightarrow> n < length xs \<Longrightarrow>
   front ((discard ^^ n) (foldl put q xs)) = xs ! n"
  using put_many [of q xs] discard_many [of "foldl put q xs" n] take_contents [of "(discard ^^ n) (foldl put q xs)"]
  by (simp add: hd_drop_conv_nth)

end

end
