(* ===== verification/Kiss.thy ===== *)
theory Kiss imports Prelude begin

text \<open>
  KISS framing of TNC traffic: \<^verbatim>\<open>plugins/packet_radio/kiss.c\<close> and
  \<^verbatim>\<open>include/hybbx/kiss.h\<close>.  The decoder's buffer and its length are one list; a call of the
  frame callback is an event (port, payload).  The section on the abstract view splits a byte
  stream at its FEND bytes and shows that the decoder computes exactly that.
\<close>

section \<open>Constants and state\<close>

definition KISS_FEND :: u8 where "KISS_FEND = 0xC0"
definition KISS_FESC :: u8 where "KISS_FESC = 0xDB"
definition KISS_TFEND :: u8 where "KISS_TFEND = 0xDC"
definition KISS_TFESC :: u8 where "KISS_TFESC = 0xDD"
definition KISS_MAX_FRAME :: nat where "KISS_MAX_FRAME = 2048"

lemmas kiss_consts = KISS_FEND_def KISS_FESC_def KISS_TFEND_def KISS_TFESC_def

datatype kiss_command =
    KISS_CMD_DATA | KISS_CMD_TXDELAY | KISS_CMD_PERSIST | KISS_CMD_SLOTTIME | KISS_CMD_TXTAIL
  | KISS_CMD_FULLDUPLEX | KISS_CMD_SETHARDWARE

fun kiss_command_code :: "kiss_command \<Rightarrow> u8" where
  "kiss_command_code KISS_CMD_DATA = 0x00"
| "kiss_command_code KISS_CMD_TXDELAY = 0x01"
| "kiss_command_code KISS_CMD_PERSIST = 0x02"
| "kiss_command_code KISS_CMD_SLOTTIME = 0x03"
| "kiss_command_code KISS_CMD_TXTAIL = 0x04"
| "kiss_command_code KISS_CMD_FULLDUPLEX = 0x05"
| "kiss_command_code KISS_CMD_SETHARDWARE = 0x06"

record kiss_decoder =
  kd_buf :: bytes
  kd_in_frame :: bool
  kd_escape :: bool

definition kiss_decoder_init :: kiss_decoder where
  "kiss_decoder_init = \<lparr>kd_buf = [], kd_in_frame = False, kd_escape = False\<rparr>"

section \<open>The decoder\<close>

definition kiss_deliver_frame :: "kiss_decoder \<Rightarrow> (u8 \<times> bytes) list" where
  "kiss_deliver_frame d =
     (case kd_buf d of [] \<Rightarrow> [] | c # payload \<Rightarrow> [(drop_bit 4 c AND 0x0F, payload)])"

definition kiss_step :: "kiss_decoder \<Rightarrow> u8 \<Rightarrow> kiss_decoder \<times> (u8 \<times> bytes) list" where
  "kiss_step d byte =
     (if byte = KISS_FEND then
        (d\<lparr>kd_in_frame := True, kd_escape := False, kd_buf := []\<rparr>,
         if kd_in_frame d \<and> length (kd_buf d) > 0 then kiss_deliver_frame d else [])
      else if \<not> kd_in_frame d then (d, [])
      else if \<not> kd_escape d \<and> byte = KISS_FESC then (d\<lparr>kd_escape := True\<rparr>, [])
      else
        let byte' = (if kd_escape d
                     then if byte = KISS_TFEND then KISS_FEND
                          else if byte = KISS_TFESC then KISS_FESC else byte
                     else byte);
            d' = d\<lparr>kd_escape := False\<rparr>
        in if length (kd_buf d') \<ge> KISS_MAX_FRAME
           then (d'\<lparr>kd_buf := [], kd_in_frame := False\<rparr>, [])
           else (d'\<lparr>kd_buf := kd_buf d' @ [byte']\<rparr>, []))"

definition kiss_decoder_feed :: "kiss_decoder \<Rightarrow> bytes \<Rightarrow> kiss_decoder \<times> (u8 \<times> bytes) list" where
  "kiss_decoder_feed d data = run_stream kiss_step d data"

section \<open>The encoder\<close>

text \<open>\<open>out\<close> is what has been written so far; \<^verbatim>\<open>None\<close> is the returned position 0.\<close>

definition kiss_write_byte :: "u8 \<Rightarrow> nat \<Rightarrow> bytes \<Rightarrow> bytes option" where
  "kiss_write_byte byte out_cap out =
     (if length out + 1 > out_cap then None
      else if byte = KISS_FEND then
        (if length out + 2 > out_cap then None else Some (out @ [KISS_FESC, KISS_TFEND]))
      else if byte = KISS_FESC then
        (if length out + 2 > out_cap then None else Some (out @ [KISS_FESC, KISS_TFESC]))
      else Some (out @ [byte]))"

fun kiss_write_all :: "bytes \<Rightarrow> nat \<Rightarrow> bytes \<Rightarrow> bytes option" where
  "kiss_write_all [] out_cap out = Some out"
| "kiss_write_all (b # bs) out_cap out =
     (case kiss_write_byte b out_cap out of
        None \<Rightarrow> None
      | Some out' \<Rightarrow> kiss_write_all bs out_cap out')"

definition kiss_cmd_byte :: "u8 \<Rightarrow> kiss_command \<Rightarrow> u8" where
  "kiss_cmd_byte port cmd = push_bit 4 (port AND 0x0F) OR (kiss_command_code cmd AND 0x0F)"

text \<open>The empty list is the returned length 0.\<close>

definition kiss_encode :: "u8 \<Rightarrow> kiss_command \<Rightarrow> bytes \<Rightarrow> nat \<Rightarrow> bytes" where
  "kiss_encode port cmd payload out_cap =
     (if out_cap < 3 then []
      else if length payload + 4 > out_cap then []
      else case kiss_write_byte (kiss_cmd_byte port cmd) out_cap [KISS_FEND] of
             None \<Rightarrow> []
           | Some out \<Rightarrow>
               (case kiss_write_all payload out_cap out of
                  None \<Rightarrow> []
                | Some out' \<Rightarrow>
                    if length out' + 1 > out_cap then [] else out' @ [KISS_FEND]))"

section \<open>The abstract view: segments between frame ends\<close>

definition kiss_escape :: "u8 \<Rightarrow> bytes" where
  "kiss_escape b = (if b = KISS_FEND then [KISS_FESC, KISS_TFEND]
                    else if b = KISS_FESC then [KISS_FESC, KISS_TFESC] else [b])"

fun kiss_unescape :: "bool \<Rightarrow> bytes \<Rightarrow> bytes" where
  "kiss_unescape e [] = []"
| "kiss_unescape True (b # bs) =
     (if b = KISS_TFEND then KISS_FEND else if b = KISS_TFESC then KISS_FESC else b)
     # kiss_unescape False bs"
| "kiss_unescape False (b # bs) =
     (if b = KISS_FESC then kiss_unescape True bs else b # kiss_unescape False bs)"

fun kiss_segments :: "bytes \<Rightarrow> bytes list" where
  "kiss_segments [] = [[]]"
| "kiss_segments (b # bs) =
     (if b = KISS_FEND then [] # kiss_segments bs
      else (b # hd (kiss_segments bs)) # tl (kiss_segments bs))"

text \<open>What one complete segment means: too long or empty segments mean nothing.\<close>

definition kiss_segment_frames :: "bytes \<Rightarrow> (u8 \<times> bytes) list" where
  "kiss_segment_frames seg =
     (let u = kiss_unescape False seg
      in if u = [] \<or> length u > KISS_MAX_FRAME then [] else [(drop_bit 4 (hd u) AND 0x0F, tl u)])"

definition kiss_stream_frames :: "bytes \<Rightarrow> (u8 \<times> bytes) list" where
  "kiss_stream_frames bs = concat (map kiss_segment_frames (butlast (tl (kiss_segments bs))))"

section \<open>Lemmas on the decoder\<close>

definition kiss_fresh :: kiss_decoder where
  "kiss_fresh = \<lparr>kd_buf = [], kd_in_frame = True, kd_escape = False\<rparr>"

definition kiss_idle :: "kiss_decoder \<Rightarrow> bool" where
  "kiss_idle d \<longleftrightarrow> (kd_in_frame d \<longrightarrow> kd_buf d = [])"

definition kiss_bounded :: "kiss_decoder \<Rightarrow> bool" where
  "kiss_bounded d \<longleftrightarrow> length (kd_buf d) \<le> KISS_MAX_FRAME"

lemma kiss_fresh_idle [simp]: "kiss_idle kiss_fresh"
  by (simp add: kiss_idle_def kiss_fresh_def)

lemma kiss_step_fend [simp]:
  "kiss_step d KISS_FEND =
     (kiss_fresh, if kd_in_frame d \<and> kd_buf d \<noteq> [] then kiss_deliver_frame d else [])"
  by (cases d) (simp add: kiss_step_def kiss_fresh_def)

lemma kiss_step_outside:
  "\<not> kd_in_frame d \<Longrightarrow> b \<noteq> KISS_FEND \<Longrightarrow> kiss_step d b = (d, [])"
  by (simp add: kiss_step_def)

lemma kiss_step_bounded: "kiss_bounded d \<Longrightarrow> kiss_bounded (fst (kiss_step d b))"
  by (auto simp: kiss_bounded_def kiss_step_def Let_def)

lemma kiss_run_outside:
  "\<not> kd_in_frame d \<Longrightarrow> KISS_FEND \<notin> set bs \<Longrightarrow> run_stream kiss_step d bs = (d, [])"
  by (rule run_stream_silent) (auto intro: kiss_step_outside)

text \<open>A FEND-free body is unescaped into the buffer, or overruns it and loses the frame.\<close>

lemma kiss_run_body:
  assumes "kd_in_frame d" and "KISS_FEND \<notin> set bs" and "kiss_bounded d"
  shows "\<exists>d'. run_stream kiss_step d bs = (d', [])
     \<and> (if length (kd_buf d) + length (kiss_unescape (kd_escape d) bs) \<le> KISS_MAX_FRAME
        then kd_in_frame d' \<and> kd_buf d' = kd_buf d @ kiss_unescape (kd_escape d) bs
        else \<not> kd_in_frame d')"
  using assms
proof (induction bs arbitrary: d)
  case Nil
  then show ?case by (auto simp: kiss_bounded_def)
next
  case (Cons b bs)
  obtain d1 es where st: "kiss_step d b = (d1, es)" by (cases "kiss_step d b")
  have run: "run_stream kiss_step d (b # bs)
      = (fst (run_stream kiss_step d1 bs), es @ snd (run_stream kiss_step d1 bs))"
    using st by simp
  show ?case
  proof (cases "\<not> kd_escape d \<and> b = KISS_FESC")
    case True
    with Cons.prems st have d1: "d1 = d\<lparr>kd_escape := True\<rparr>" "es = []"
      by (auto simp: kiss_step_def)
    with Cons.prems have "kd_in_frame d1" "kiss_bounded d1" by (auto simp: kiss_bounded_def)
    from Cons.IH [OF this(1) _ this(2)] Cons.prems True d1 show ?thesis
      unfolding run by (auto split: if_splits)
  next
    case False
    let ?b = "if kd_escape d then if b = KISS_TFEND then KISS_FEND
              else if b = KISS_TFESC then KISS_FESC else b else b"
    have un: "kiss_unescape (kd_escape d) (b # bs) = ?b # kiss_unescape False bs"
      using False by (cases "kd_escape d") auto
    show ?thesis
    proof (cases "length (kd_buf d) \<ge> KISS_MAX_FRAME")
      case True
      with Cons.prems False st have "d1 = d\<lparr>kd_escape := False, kd_buf := [], kd_in_frame := False\<rparr>"
        and "es = []" by (auto simp: kiss_step_def Let_def)
      then show ?thesis
        using True Cons.prems kiss_run_outside [of d1 bs] unfolding run by (simp add: un)
    next
      case short: False
      with Cons.prems False st have d1: "d1 = d\<lparr>kd_escape := False, kd_buf := kd_buf d @ [?b]\<rparr>"
        and es: "es = []" by (auto simp: kiss_step_def Let_def)
      from d1 Cons.prems short have "kd_in_frame d1" "kiss_bounded d1"
        by (auto simp: kiss_bounded_def)
      moreover have "kd_buf d @ kiss_unescape (kd_escape d) (b # bs)
          = kd_buf d1 @ kiss_unescape (kd_escape d1) bs"
        unfolding un by (simp add: d1)
      ultimately show ?thesis
        using Cons.IH [of d1] Cons.prems(2) es unfolding run by (metis append.left_neutral
            fst_conv length_append list.set_intros(2) snd_conv)
    qed
  qed
qed

lemma kiss_run_segment:
  assumes "KISS_FEND \<notin> set seg"
  shows "run_stream kiss_step kiss_fresh (seg @ [KISS_FEND]) = (kiss_fresh, kiss_segment_frames seg)"
proof -
  have "kd_in_frame kiss_fresh" "kiss_bounded kiss_fresh" "kd_escape kiss_fresh = False"
    "kd_buf kiss_fresh = []"
    by (auto simp: kiss_fresh_def kiss_bounded_def)
  from kiss_run_body [OF this(1) assms this(2)] this(3,4) obtain d where
    d: "run_stream kiss_step kiss_fresh seg = (d, [])"
      "if length (kiss_unescape False seg) \<le> KISS_MAX_FRAME
       then kd_in_frame d \<and> kd_buf d = kiss_unescape False seg else \<not> kd_in_frame d"
    by auto
  then show ?thesis
    by (auto simp: run_stream_append kiss_segment_frames_def
        kiss_deliver_frame_def Let_def split: list.splits if_splits)
qed

lemma kiss_segments_not_Nil [simp]: "kiss_segments bs \<noteq> []"
  by (cases bs) auto

lemma kiss_segments_split:
  "KISS_FEND \<notin> set seg \<Longrightarrow> kiss_segments (seg @ KISS_FEND # bs) = seg # kiss_segments bs"
  by (induction seg) auto

lemma kiss_segments_single: "KISS_FEND \<notin> set seg \<Longrightarrow> kiss_segments seg = [seg]"
  by (induction seg) auto

lemma kiss_run_fresh:
  "snd (run_stream kiss_step kiss_fresh bs)
     = concat (map kiss_segment_frames (butlast (kiss_segments bs)))"
proof (induction bs rule: length_induct)
  case (1 bs)
  show ?case
  proof (cases "KISS_FEND \<in> set bs")
    case True
    then obtain seg rest where bs: "bs = seg @ KISS_FEND # rest" "KISS_FEND \<notin> set seg"
      by (metis split_list_first)
    then have "bs = (seg @ [KISS_FEND]) @ rest" by simp
    then have "snd (run_stream kiss_step kiss_fresh bs)
        = kiss_segment_frames seg @ snd (run_stream kiss_step kiss_fresh rest)"
      using kiss_run_segment [OF bs(2)] run_stream_append [of kiss_step kiss_fresh "seg @ [KISS_FEND]" rest]
      by (simp only: fst_conv snd_conv)
    with 1 bs show ?thesis by (simp add: kiss_segments_split)
  next
    case False
    have "kd_in_frame kiss_fresh" "kiss_bounded kiss_fresh"
      by (auto simp: kiss_fresh_def kiss_bounded_def)
    from kiss_run_body [OF this(1) False this(2)] False show ?thesis
      by (auto simp: kiss_segments_single)
  qed
qed

lemma kiss_run_idle:
  assumes "kiss_idle d" and "\<not> kd_in_frame d \<or> KISS_FEND \<notin> set pre" and "KISS_FEND \<notin> set pre"
    and "pre = [] \<or> \<not> kd_in_frame d"
  shows "snd (run_stream kiss_step d (pre @ KISS_FEND # bs)) = snd (run_stream kiss_step kiss_fresh bs)"
proof -
  have "run_stream kiss_step d pre = (d, [])"
    using assms(3,4) kiss_run_outside by (cases "pre = []") auto
  with assms(1) show ?thesis
    by (auto simp: run_stream_append kiss_idle_def)
qed

section \<open>Lemmas on the encoder\<close>

lemma kiss_write_byte_eq:
  "kiss_write_byte b cap out =
     (if length (out @ kiss_escape b) \<le> cap then Some (out @ kiss_escape b) else None)"
  by (auto simp: kiss_write_byte_def kiss_escape_def)

lemma kiss_write_all_eq:
  "length out \<le> cap \<Longrightarrow> kiss_write_all bs cap out =
     (if length (out @ concat (map kiss_escape bs)) \<le> cap
      then Some (out @ concat (map kiss_escape bs)) else None)"
  by (induction bs arbitrary: out) (auto simp: kiss_write_byte_eq)

lemma kiss_escape_len: "1 \<le> length (kiss_escape b)"
  by (simp add: kiss_escape_def)

lemma kiss_escape_no_fend: "KISS_FEND \<notin> set (kiss_escape b)"
  by (simp add: kiss_escape_def kiss_consts)

lemma kiss_unescape_escape: "kiss_unescape False (kiss_escape b @ bs) = b # kiss_unescape False bs"
  by (simp add: kiss_escape_def kiss_consts)

lemma kiss_unescape_escapes: "kiss_unescape False (concat (map kiss_escape bs)) = bs"
  by (induction bs) (auto simp: kiss_unescape_escape)

definition kiss_wire :: "u8 \<Rightarrow> kiss_command \<Rightarrow> bytes \<Rightarrow> bytes" where
  "kiss_wire port cmd payload = concat (map kiss_escape (kiss_cmd_byte port cmd # payload))"

lemma kiss_encode_eq:
  "kiss_encode port cmd payload cap =
     (if length payload + 4 \<le> cap \<and> length (kiss_wire port cmd payload) + 2 \<le> cap
      then KISS_FEND # kiss_wire port cmd payload @ [KISS_FEND] else [])"
  using kiss_escape_len [of "kiss_cmd_byte port cmd"]
  by (auto simp: kiss_encode_def kiss_write_byte_eq kiss_write_all_eq kiss_wire_def)

lemma kiss_wire_no_fend: "KISS_FEND \<notin> set (kiss_wire port cmd payload)"
  by (simp add: kiss_wire_def kiss_escape_no_fend)

lemma kiss_unescape_wire:
  "kiss_unescape False (kiss_wire port cmd payload) = kiss_cmd_byte port cmd # payload"
  unfolding kiss_wire_def by (rule kiss_unescape_escapes)

lemma kiss_cmd_byte_port: "drop_bit 4 (kiss_cmd_byte port cmd) AND 0x0F = port AND 0x0F"
proof -
  have "drop_bit 4 (kiss_command_code cmd AND 0x0F) = 0" by (cases cmd) simp_all
  moreover have "drop_bit 4 (push_bit 4 (port AND 0x0F)) = port AND 0x0F"
    by (rule bit_eqI) (auto simp: bit_simps low_nibble_mask)
  ultimately show ?thesis by (simp add: kiss_cmd_byte_def drop_bit_or)
qed

section \<open>The framing contract\<close>

text \<open>A frame to send is (port, command, payload, capacity of the output buffer).\<close>

definition kiss_send :: "u8 \<times> kiss_command \<times> bytes \<times> nat \<Rightarrow> bytes" where
  "kiss_send = (\<lambda>(port, cmd, payload, cap). kiss_encode port cmd payload cap)"

definition kiss_sendable :: "u8 \<times> kiss_command \<times> bytes \<times> nat \<Rightarrow> bool" where
  "kiss_sendable = (\<lambda>(port, cmd, payload, cap).
     kiss_encode port cmd payload cap \<noteq> [] \<and> length payload < KISS_MAX_FRAME)"

definition kiss_received :: "u8 \<times> kiss_command \<times> bytes \<times> nat \<Rightarrow> u8 \<times> bytes" where
  "kiss_received = (\<lambda>(port, cmd, payload, cap). (port AND 0x0F, payload))"

lemmas kiss_send_defs = kiss_send_def kiss_sendable_def kiss_received_def

lemma kiss_decode_one:
  assumes "kiss_idle d" and "kiss_sendable f"
  shows "run_stream kiss_step d (kiss_send f) = (kiss_fresh, [kiss_received f])"
proof -
  obtain port cmd payload cap where f: "f = (port, cmd, payload, cap)" by (cases f) auto
  from assms(2) have wire: "kiss_send f = KISS_FEND # kiss_wire port cmd payload @ [KISS_FEND]"
    and len: "length payload < KISS_MAX_FRAME"
    by (auto simp: f kiss_send_defs kiss_encode_eq split: if_splits)
  have "kiss_step d KISS_FEND = (kiss_fresh, [])" using assms(1) by (auto simp: kiss_idle_def)
  with kiss_run_segment [OF kiss_wire_no_fend, of port cmd payload] len show ?thesis
    unfolding wire by (simp add: f kiss_received_def kiss_segment_frames_def kiss_unescape_wire
        kiss_cmd_byte_port)
qed

interpretation kiss_link: framed_codec kiss_step kiss_idle kiss_send kiss_sendable kiss_received
  by unfold_locales (simp add: kiss_decode_one)

section \<open>Properties\<close>

text \<open>
  C3. The KISS decoder computes exactly the abstract reading of a byte stream, for every input,
  well-formed or not: what it calls back with are the unescaped contents of the segments between
  consecutive FEND bytes, each split into the port nibble and the payload, where empty segments
  and segments that unescape to more than 2048 bytes are dropped.
\<close>

theorem kiss_decoder_refines_stream:
  "snd (kiss_decoder_feed kiss_decoder_init bs) = kiss_stream_frames bs"
proof (cases "KISS_FEND \<in> set bs")
  case True
  then obtain pre rest where bs: "bs = pre @ KISS_FEND # rest" "KISS_FEND \<notin> set pre"
    by (metis split_list_first)
  then show ?thesis
    using kiss_run_idle [of kiss_decoder_init pre rest]
    by (simp add: kiss_decoder_feed_def kiss_stream_frames_def kiss_run_fresh kiss_idle_def
        kiss_decoder_init_def kiss_segments_split)
next
  case False
  then show ?thesis
    by (simp add: kiss_decoder_feed_def kiss_stream_frames_def kiss_run_outside
        kiss_decoder_init_def kiss_segments_single)
qed

text \<open>
  C11. KISS round trip: frames encoded one after the other and received in reads cut at arbitrary
  places are called back in order, each with its port nibble and its payload unchanged; every
  frame the encoder accepts with at most 2047 payload bytes qualifies, whatever bytes it holds.
\<close>

theorem kiss_roundtrip:
  assumes "kiss_idle d"
    and "\<forall>(port, cmd, payload, cap) \<in> set fs.
           kiss_encode port cmd payload cap \<noteq> [] \<and> length payload < KISS_MAX_FRAME"
    and "concat reads = concat (map (\<lambda>(port, cmd, payload, cap). kiss_encode port cmd payload cap) fs)"
  shows "snd (run_reads kiss_step d reads)
           = map (\<lambda>(port, cmd, payload, cap). (port AND 0x0F, payload)) fs"
  using kiss_link.decode_reads [of d fs reads] assms unfolding kiss_send_defs by blast

theorem kiss_roundtrip_witness:
  "snd (run_reads kiss_step kiss_decoder_init
          [[0xC0, 0xDB], [0xDC, 0x41], [0xDB, 0xDD, 0xC0]]) = [(0x0C, [0x41, 0xDB])]"
proof -
  have idle: "kiss_idle kiss_decoder_init" by (simp add: kiss_idle_def kiss_decoder_init_def)
  have enc: "kiss_encode 0x0C KISS_CMD_DATA [0x41, 0xDB] 16
      = [0xC0, 0xDB, 0xDC, 0x41, 0xDB, 0xDD, 0xC0]"
    by (simp add: kiss_encode_eq kiss_wire_def kiss_escape_def kiss_consts kiss_cmd_byte_def)
  show ?thesis
    using kiss_roundtrip [of kiss_decoder_init "[(0x0C, KISS_CMD_DATA, [0x41, 0xDB], 16)]"
        "[[0xC0, 0xDB], [0xDC, 0x41], [0xDB, 0xDD, 0xC0]]"] idle enc
    by (simp add: KISS_MAX_FRAME_def)
qed

text \<open>
  The encoder's result, on every branch: when the payload and its escapes fit the output
  buffer the result is FEND, the escaped command byte and payload, FEND, and no FEND occurs
  inside; otherwise nothing is returned.  In particular the per-byte position checks never refuse
  a frame that fits, and never let one through that does not.
\<close>

theorem kiss_encode_exact:
  "kiss_encode port cmd payload cap =
     (if length payload + 4 \<le> cap
         \<and> length (concat (map kiss_escape (kiss_cmd_byte port cmd # payload))) + 2 \<le> cap
      then KISS_FEND # concat (map kiss_escape (kiss_cmd_byte port cmd # payload)) @ [KISS_FEND]
      else [])
   \<and> KISS_FEND \<notin> set (concat (map kiss_escape (kiss_cmd_byte port cmd # payload)))
   \<and> length (kiss_encode port cmd payload cap) \<le> cap"
  using kiss_encode_eq [of port cmd payload cap] kiss_wire_no_fend [of port cmd payload]
  unfolding kiss_wire_def by auto

text \<open>
  The decoder's buffer never overflows: after any input from any decoder whose buffer holds
  at most 2048 bytes, it still holds at most 2048 bytes.
\<close>

theorem kiss_decoder_bounded:
  "length (kd_buf d) \<le> KISS_MAX_FRAME \<Longrightarrow>
   length (kd_buf (fst (kiss_decoder_feed d bs))) \<le> KISS_MAX_FRAME"
  unfolding kiss_decoder_feed_def
  using run_stream_inv [of kiss_bounded kiss_step d bs, OF kiss_step_bounded]
  by (simp add: kiss_bounded_def)

theorem kiss_decoder_bounded_witness:
  "length (kd_buf (fst (kiss_decoder_feed kiss_decoder_init [0xC0, 0x00, 0x41]))) \<le> KISS_MAX_FRAME"
  by (rule kiss_decoder_bounded) (simp add: kiss_decoder_init_def)

end
