(* ===== verification/Ax25.thy ===== *)
theory Ax25 imports Prelude begin

text \<open>
  AX.25 UI frames: \<^verbatim>\<open>plugins/packet_radio/ax25.c\<close> and
  \<^verbatim>\<open>include/hybbx/ax25.h\<close>.  A call sign is the C array \<^verbatim>\<open>char call[7]\<close>, the
  digipeaters the array of eight addresses with its count.  A read beyond that array is the value
  None of \<open>append_addresses\<close> and \<open>ax25_build_ui\<close>.
\<close>

section \<open>Constants and data\<close>

definition AX25_CALL_MAX :: nat where "AX25_CALL_MAX = 6"
definition AX25_SSID_MAX :: nat where "AX25_SSID_MAX = 15"
definition AX25_ADDR_ENCODED :: nat where "AX25_ADDR_ENCODED = 7"
definition AX25_MAX_DIGI :: nat where "AX25_MAX_DIGI = 8"
definition AX25_FRAME_MAX :: nat where "AX25_FRAME_MAX = 330"
definition AX25_PID_NOL3 :: u8 where "AX25_PID_NOL3 = 0xF0"
definition AX25_CTRL_UI :: u8 where "AX25_CTRL_UI = 0x03"

lemmas ax25_consts = AX25_CALL_MAX_def AX25_SSID_MAX_def AX25_ADDR_ENCODED_def AX25_MAX_DIGI_def
  AX25_FRAME_MAX_def AX25_PID_NOL3_def AX25_CTRL_UI_def

record ax25_address =
  ax_call :: bytes
  ax_ssid :: u32

record ax25_path =
  px_dest :: ax25_address
  px_source :: ax25_address
  px_digi :: "ax25_address list"
  px_digi_count :: nat

definition ax25_address_zero :: ax25_address where
  "ax25_address_zero = \<lparr>ax_call = replicate (AX25_CALL_MAX + 1) 0, ax_ssid = 0\<rparr>"

definition ax25_path_zero :: ax25_path where
  "ax25_path_zero = \<lparr>px_dest = ax25_address_zero, px_source = ax25_address_zero,
     px_digi = replicate AX25_MAX_DIGI ax25_address_zero, px_digi_count = 0\<rparr>"

section \<open>Addresses\<close>

definition address_upper :: "string \<Rightarrow> string" where
  "address_upper call = map c_toupper call"

definition ax25_address_parse :: "string \<Rightarrow> hybbx_result \<times> ax25_address" where
  "ax25_address_parse text =
     (let call = takeWhile (\<lambda>c. c \<noteq> CHR ''-'') text;
          call_len = length call;
          store = (\<lambda>ssid. if call_len = 0 \<or> call_len > AX25_CALL_MAX
                     then (HYBBX_ERR_INVALID, ax25_address_zero\<lparr>ax_ssid := ssid\<rparr>)
                     else (HYBBX_OK,
                           \<lparr>ax_call = map of_char (address_upper call)
                                        @ replicate (AX25_CALL_MAX + 1 - call_len) 0,
                            ax_ssid = ssid\<rparr>))
      in if call_len < length text then
           (let after = drop (call_len + 1) text; (ssid, rest) = c_strtoul after
            in if rest = after \<or> ssid > AX25_SSID_MAX
               then (HYBBX_ERR_INVALID, ax25_address_zero)
               else store (of_nat ssid))
         else store 0)"

definition ax25_encode_address :: "ax25_address \<Rightarrow> bool \<Rightarrow> bytes" where
  "ax25_encode_address addr is_last =
     (let name = takeWhile (\<lambda>c. c \<noteq> 0) (take AX25_CALL_MAX (ax_call addr));
          padded = name @ replicate (AX25_CALL_MAX - length name) 0x20;
          out6 = ucast (push_bit 1 (ax_ssid addr AND 0x0F) OR 0x60) :: u8
      in map (push_bit 1) padded @ [if is_last then out6 OR 0x01 else out6])"

definition ax25_decode_address :: "bytes \<Rightarrow> ax25_address" where
  "ax25_decode_address in7 =
     (let chars = map (\<lambda>b. let ch = drop_bit 1 b AND 0x7F in if ch = 0x20 then 0 else ch)
                      (take AX25_CALL_MAX in7);
          call = chars @ [0];
          i = length (dropWhile (\<lambda>c. c = 0) (rev chars))
      in \<lparr>ax_call = call[i := 0], ax_ssid = ucast (drop_bit 1 (in7 ! 6) AND 0x0F)\<rparr>)"

section \<open>The frame check sequence\<close>

definition ax25_crc_bit :: "u16 \<Rightarrow> u16" where
  "ax25_crc_bit crc =
     (if crc AND 0x8000 \<noteq> 0 then push_bit 1 crc XOR 0x1021 else push_bit 1 crc)"

definition ax25_crc_byte :: "u16 \<Rightarrow> u8 \<Rightarrow> u16" where
  "ax25_crc_byte crc b = (ax25_crc_bit ^^ 8) (crc XOR push_bit 8 (ucast b))"

definition ax25_crc :: "bytes \<Rightarrow> u16" where
  "ax25_crc data = foldl ax25_crc_byte 0xFFFF data"

section \<open>Building a UI frame\<close>

text \<open>\<open>Some []\<close> is the returned length 0; None is a read past the digipeater array.\<close>

definition append_addresses :: "ax25_path \<Rightarrow> nat \<Rightarrow> bytes option" where
  "append_addresses path out_cap =
     (if out_cap < (2 + px_digi_count path) * AX25_ADDR_ENCODED then Some []
      else if px_digi_count path > length (px_digi path) then None
      else Some (ax25_encode_address (px_dest path) False
                 @ concat (map (\<lambda>a. ax25_encode_address a False)
                             (take (px_digi_count path) (px_digi path)))
                 @ ax25_encode_address (px_source path) True))"

definition ax25_fcs_bytes :: "u16 \<Rightarrow> bytes" where
  "ax25_fcs_bytes crc = [ucast (crc AND 0xFF), ucast (drop_bit 8 crc AND 0xFF)]"

definition ax25_build_ui :: "ax25_path \<Rightarrow> bytes \<Rightarrow> nat \<Rightarrow> bytes option" where
  "ax25_build_ui path payload out_cap =
     (if length payload + 32 > out_cap \<or> length payload > AX25_FRAME_MAX then Some []
      else case append_addresses path out_cap of
             None \<Rightarrow> None
           | Some addrs \<Rightarrow>
               if length addrs + 4 + length payload > out_cap then Some []
               else let body = addrs @ [AX25_CTRL_UI, AX25_PID_NOL3] @ payload
                    in Some (body @ ax25_fcs_bytes (ax25_crc body)))"

section \<open>Parsing a UI frame\<close>

text \<open>
  The address loop: the flag is False when the loop returned 0 from the function.
\<close>

function ax25_addr_loop :: "bytes \<Rightarrow> nat \<Rightarrow> nat \<Rightarrow> ax25_path \<Rightarrow> bool \<times> nat \<times> ax25_path" where
  "ax25_addr_loop frame pos digi path =
     (if pos + AX25_ADDR_ENCODED \<le> length frame then
        let is_last = (frame ! (pos + 6) AND 0x01 \<noteq> 0);
            tmp = ax25_decode_address (take AX25_ADDR_ENCODED (drop pos frame));
            path' = (if digi = 0 then path\<lparr>px_dest := tmp\<rparr>
                     else if \<not> is_last then
                       (if digi - 1 < AX25_MAX_DIGI
                        then path\<lparr>px_digi := (px_digi path)[digi - 1 := tmp], px_digi_count := digi\<rparr>
                        else path)
                     else path\<lparr>px_source := tmp\<rparr>)
        in if is_last then (True, pos + AX25_ADDR_ENCODED, path')
           else if digi + 1 > AX25_MAX_DIGI + 1 then (False, pos + AX25_ADDR_ENCODED, path')
           else ax25_addr_loop frame (pos + AX25_ADDR_ENCODED) (digi + 1) path'
      else (True, pos, path))"
  by pat_completeness auto
termination
  by (relation "measure (\<lambda>(frame, pos, digi, path). length frame - pos)")
    (auto simp: AX25_ADDR_ENCODED_def)

declare ax25_addr_loop.simps [simp del]

definition ax25_fcs_rx :: "bytes \<Rightarrow> u16" where
  "ax25_fcs_rx frame = ucast (frame ! (length frame - 2)) OR push_bit 8 (ucast (frame ! (length frame - 1)))"

text \<open>
  The result is the returned length, the path structure and the bytes copied to the payload
  buffer.
\<close>

definition ax25_parse_ui :: "bytes \<Rightarrow> ax25_path \<Rightarrow> nat \<Rightarrow> nat \<times> ax25_path \<times> bytes" where
  "ax25_parse_ui frame path payload_cap =
     (if length frame < 16 then (0, path, [])
      else case ax25_addr_loop frame 0 0 ax25_path_zero of (ok, pos, path') \<Rightarrow>
        if \<not> ok then (0, path', [])
        else if pos + 4 > length frame then (0, path', [])
        else if frame ! pos \<noteq> AX25_CTRL_UI then (0, path', [])
        else let pos' = pos + 2 in
          if length frame < pos' + 2 then (0, path', [])
          else if ax25_fcs_rx frame \<noteq> ax25_crc (take (length frame - 2) frame) then (0, path', [])
          else let payload_len = length frame - pos' - 2 in
            if payload_len > payload_cap then (0, path', [])
            else (payload_len, path', take payload_len (drop pos' frame)))"

section \<open>Lemmas on the check sequence\<close>

lemma ax25_crc_msb: "(c AND 0x8000 \<noteq> 0) = bit (c :: u16) 15"
  using and_exp_eq_0_iff_not_bit [of c 15] by simp

lemma ax25_crc_bit_low: "bit (ax25_crc_bit c) 0 \<longleftrightarrow> bit c 15"
  unfolding ax25_crc_bit_def ax25_crc_msb by (simp add: bit_0 even_xor_iff)

lemma push_bit_1_inj_msb:
  fixes c d :: u16
  assumes "push_bit 1 c = push_bit 1 d" and "bit c 15 = bit d 15"
  shows "c = d"
proof (rule bit_eqI)
  fix n assume "possible_bit TYPE(u16) n"
  then have n: "n < 16" by simp
  show "bit c n = bit d n"
  proof (cases "n = 15")
    case True with assms(2) show ?thesis by simp
  next
    case False
    with n have "bit (push_bit 1 c) (Suc n) = bit c n" "bit (push_bit 1 d) (Suc n) = bit d n"
      unfolding bit_push_bit_iff by auto
    with assms(1) show ?thesis by simp
  qed
qed

lemma ax25_crc_bit_inj: "ax25_crc_bit c = ax25_crc_bit d \<Longrightarrow> c = d"
proof -
  assume eq: "ax25_crc_bit c = ax25_crc_bit d"
  then have msb: "bit c 15 = bit d 15" by (metis ax25_crc_bit_low)
  with eq have "push_bit 1 c = push_bit 1 d"
    unfolding ax25_crc_bit_def ax25_crc_msb by (simp split: if_splits)
  then show "c = d" using msb by (rule push_bit_1_inj_msb)
qed

lemma ax25_crc_bits_inj: "(ax25_crc_bit ^^ n) c = (ax25_crc_bit ^^ n) d \<Longrightarrow> c = d"
  by (induction n) (auto dest: ax25_crc_bit_inj)

lemma ax25_crc_byte_inj_state: "ax25_crc_byte c b = ax25_crc_byte d b \<Longrightarrow> c = d"
  unfolding ax25_crc_byte_def by (drule ax25_crc_bits_inj) simp

lemma push_ucast_inj: "push_bit 8 (ucast a :: u16) = push_bit 8 (ucast b) \<Longrightarrow> a = (b :: u8)"
proof (rule bit_eqI)
  fix n assume "possible_bit TYPE(u8) n" and eq: "push_bit 8 (ucast a :: u16) = push_bit 8 (ucast b)"
  then have "n < 8" by simp
  moreover have "bit (push_bit 8 (ucast a :: u16)) (n + 8) = bit (push_bit 8 (ucast b :: u16)) (n + 8)"
    using eq by simp
  ultimately show "bit a n = bit b n" by (simp add: bit_simps)
qed

lemma ax25_crc_byte_inj_data: "ax25_crc_byte c a = ax25_crc_byte c b \<Longrightarrow> a = b"
  unfolding ax25_crc_byte_def by (drule ax25_crc_bits_inj) (simp add: push_ucast_inj)

lemma ax25_crc_foldl_inj: "foldl ax25_crc_byte c ys = foldl ax25_crc_byte d ys \<Longrightarrow> c = d"
  by (induction ys arbitrary: c d) (auto dest: ax25_crc_byte_inj_state)

lemma ax25_crc_one_byte:
  "i < length data \<Longrightarrow> ax25_crc (data[i := b]) = ax25_crc data \<Longrightarrow> b = data ! i"
  unfolding ax25_crc_def
  by (subst (asm) (3) id_take_nth_drop [of i data], assumption)
    (auto simp: upd_conv_take_nth_drop dest!: ax25_crc_foldl_inj ax25_crc_byte_inj_data)

section \<open>Lemmas on addresses\<close>

text \<open>A call sign the seven-bit, space-padded encoding can carry, and a four-bit SSID.\<close>

definition ax25_address_ok :: "ax25_address \<Rightarrow> bool" where
  "ax25_address_ok a \<longleftrightarrow>
     (let name = takeWhile (\<lambda>c. c \<noteq> 0) (ax_call a)
      in length name \<le> AX25_CALL_MAX
         \<and> ax_call a = name @ replicate (AX25_CALL_MAX + 1 - length name) 0
         \<and> (\<forall>c \<in> set name. c \<noteq> 0x20 \<and> unat c < 128))
     \<and> unat (ax_ssid a) \<le> AX25_SSID_MAX"

definition ax25_path_ok :: "ax25_path \<Rightarrow> bool" where
  "ax25_path_ok p \<longleftrightarrow>
     ax25_address_ok (px_dest p) \<and> ax25_address_ok (px_source p)
     \<and> px_digi_count p \<le> AX25_MAX_DIGI
     \<and> length (px_digi p) = AX25_MAX_DIGI
     \<and> (\<forall>a \<in> set (take (px_digi_count p) (px_digi p)). ax25_address_ok a)
     \<and> drop (px_digi_count p) (px_digi p)
         = replicate (AX25_MAX_DIGI - px_digi_count p) ax25_address_zero"

lemma ax25_char_shift: "unat c < 128 \<Longrightarrow> drop_bit 1 (push_bit 1 c) AND 0x7F = (c :: u8)"
proof (rule bit_eqI)
  fix n assume c: "unat c < 128" and "possible_bit TYPE(u8) n"
  then have n: "n < 8" by simp
  have "\<not> bit (unat c) 7" using c by (simp add: bit_iff_odd)
  then have 7: "\<not> bit c 7" by (simp add: bit_unsigned_iff)
  have m: "(0x7F :: u8) = mask 7" by (simp add: mask_eq_exp_minus_1)
  have "n < 7 \<or> n = 7" using n by auto
  with n 7 show "bit (drop_bit 1 (push_bit 1 c) AND 0x7F) n = bit c n"
    unfolding m bit_and_iff bit_drop_bit_eq comp_apply bit_push_bit_iff bit_mask_iff by auto
qed

lemma ax25_space_shift: "drop_bit 1 (push_bit 1 (0x20 :: u8)) AND 0x7F = 0x20"
  by (rule ax25_char_shift) simp

lemma ax25_ssid_shift:
  assumes "unat s \<le> 15"
  shows "ucast (drop_bit 1 (ucast (push_bit 1 (s AND 0x0F) OR 0x60) :: u8) AND 0x0F) = (s :: u32)"
    and "ucast (drop_bit 1 ((ucast (push_bit 1 (s AND 0x0F) OR 0x60) :: u8) OR 0x01) AND 0x0F) = s"
    and "(ucast (push_bit 1 (s AND 0x0F) OR 0x60) :: u8) AND 0x01 = 0"
    and "((ucast (push_bit 1 (s AND 0x0F) OR 0x60) :: u8) OR 0x01) AND 0x01 \<noteq> 0"
proof -
  have "unat s < 16" using assms by simp
  then have "s = word_of_nat (unat s)" and "unat s \<in> {..<16}" by simp_all
  then have "s \<in> word_of_nat ` {..<16}" by blast
  then have all: "s \<in> set (map word_of_nat [0..<16])" by (simp add: atLeast_upt)
  have "\<forall>s \<in> set (map word_of_nat [0..<16] :: u32 list).
     ucast (drop_bit 1 (ucast (push_bit 1 (s AND 0x0F) OR 0x60) :: u8) AND 0x0F) = s
     \<and> ucast (drop_bit 1 ((ucast (push_bit 1 (s AND 0x0F) OR 0x60) :: u8) OR 0x01) AND 0x0F) = s
     \<and> (ucast (push_bit 1 (s AND 0x0F) OR 0x60) :: u8) AND 0x01 = 0
     \<and> ((ucast (push_bit 1 (s AND 0x0F) OR 0x60) :: u8) OR 0x01) AND 0x01 \<noteq> 0"
    by code_simp
  with all show
    "ucast (drop_bit 1 (ucast (push_bit 1 (s AND 0x0F) OR 0x60) :: u8) AND 0x0F) = s"
    "ucast (drop_bit 1 ((ucast (push_bit 1 (s AND 0x0F) OR 0x60) :: u8) OR 0x01) AND 0x0F) = s"
    "(ucast (push_bit 1 (s AND 0x0F) OR 0x60) :: u8) AND 0x01 = 0"
    "((ucast (push_bit 1 (s AND 0x0F) OR 0x60) :: u8) OR 0x01) AND 0x01 \<noteq> 0"
    by blast+
qed

lemma ax25_encode_length [simp]: "length (ax25_encode_address a l) = 7"
proof -
  have "length (takeWhile (\<lambda>c. c \<noteq> 0) (take 6 (ax_call a))) \<le> 6"
    by (rule le_trans [OF length_takeWhile_le]) simp
  then show ?thesis by (simp add: ax25_encode_address_def AX25_CALL_MAX_def Let_def)
qed

lemma ax25_encode_nth6:
  "ax25_encode_address a l ! 6 =
     (let out6 = ucast (push_bit 1 (ax_ssid a AND 0x0F) OR 0x60) :: u8
      in if l then out6 OR 0x01 else out6)"
proof -
  have "length (takeWhile (\<lambda>c. c \<noteq> 0) (take 6 (ax_call a))) \<le> 6"
    by (rule le_trans [OF length_takeWhile_le]) simp
  then show ?thesis
    by (simp add: ax25_encode_address_def AX25_CALL_MAX_def Let_def nth_append)
qed

lemma ax25_encode_last_bit:
  "unat (ax_ssid a) \<le> 15 \<Longrightarrow> (ax25_encode_address a l ! 6 AND 0x01 \<noteq> 0) = l"
  using ax25_ssid_shift(3,4) [of "ax_ssid a"] by (auto simp: ax25_encode_nth6 Let_def)

lemma ax25_decode_trailing:
  "length chars = 6 \<Longrightarrow>
   (chars @ [0])[length (dropWhile (\<lambda>c. c = 0) (rev chars)) := 0 :: u8] = chars @ [0]"
proof -
  assume len: "length chars = 6"
  define i where "i = length (dropWhile (\<lambda>c. c = 0) (rev chars))"
  have i: "i \<le> 6" unfolding i_def by (rule le_trans [OF length_dropWhile_le]) (simp add: len)
  have "(chars @ [0]) ! i = 0"
  proof (cases "i = 6")
    case True then show ?thesis by (simp add: nth_append len)
  next
    case False
    let ?k = "length (takeWhile (\<lambda>c. c = 0) (rev chars))"
    have split: "?k + i = 6"
      using takeWhile_dropWhile_id [of "\<lambda>c. c = 0" "rev chars"] len
      unfolding i_def by (metis length_append length_rev)
    with False i have "5 - i < ?k" "i < 6" by auto
    then have "takeWhile (\<lambda>c. c = 0) (rev chars) ! (5 - i) = 0"
      using nth_mem set_takeWhileD by fastforce
    then have "rev chars ! (5 - i) = 0"
      using takeWhile_nth [OF \<open>5 - i < ?k\<close>] by simp
    moreover have "rev chars ! (5 - i) = chars ! i" using \<open>i < 6\<close> len by (simp add: rev_nth)
    ultimately show ?thesis using \<open>i < 6\<close> len by (simp add: nth_append)
  qed
  then show ?thesis unfolding i_def [symmetric] by (metis list_update_id)
qed

lemma ax25_decode_encode:
  assumes "ax25_address_ok a"
  shows "ax25_decode_address (ax25_encode_address a l) = a"
proof -
  define name where "name = takeWhile (\<lambda>c. c \<noteq> 0) (ax_call a)"
  have len: "length name \<le> 6" and call: "ax_call a = name @ replicate (7 - length name) 0"
    and chars: "\<forall>c \<in> set name. c \<noteq> 0x20 \<and> unat c < 128" and ssid: "unat (ax_ssid a) \<le> 15"
    using assms by (auto simp: ax25_address_ok_def name_def Let_def ax25_consts)
  have nz: "\<forall>c \<in> set name. c \<noteq> 0" unfolding name_def by (auto dest: set_takeWhileD)
  have "take 6 (ax_call a) = name @ replicate (6 - length name) 0"
    using len by (simp add: call min_def)
  then have tw: "takeWhile (\<lambda>c. c \<noteq> 0) (take 6 (ax_call a)) = name"
    using nz by (simp add: takeWhile_append2 takeWhile_replicate)
  have enc: "take 6 (ax25_encode_address a l)
      = map (push_bit 1) (name @ replicate (6 - length name) 0x20)"
    using len by (simp add: ax25_encode_address_def tw AX25_CALL_MAX_def Let_def)
  have "map (\<lambda>b. let ch = drop_bit 1 b AND 0x7F in if ch = 0x20 then 0 else ch)
      (take 6 (ax25_encode_address a l)) = name @ replicate (6 - length name) 0"
    unfolding enc map_map comp_def map_append map_replicate
    using chars by (auto simp: Let_def ax25_char_shift ax25_space_shift simp del: One_nat_def
        intro!: map_idI)
  moreover have "name @ replicate (6 - length name) 0 @ [0] = ax_call a"
    using len unfolding call by (metis Suc_diff_le append_assoc numeral_eq_Suc pred_numeral_simps(3)
        replicate_append_same replicate_Suc)
  moreover have "ucast (drop_bit 1 (ax25_encode_address a l ! 6) AND 0x0F) = ax_ssid a"
    using ax25_ssid_shift(1,2) [OF ssid] by (auto simp: ax25_encode_nth6 Let_def)
  ultimately show ?thesis
    using len ax25_decode_trailing [of "name @ replicate (6 - length name) 0"]
    by (simp add: ax25_decode_address_def AX25_CALL_MAX_def Let_def)
qed

section \<open>Lemmas on frames\<close>

text \<open>What the address loop has stored after reading the digipeaters \<open>ds\<close> from position \<open>k\<close> on.\<close>

fun ax25_put_digis :: "ax25_path \<Rightarrow> nat \<Rightarrow> ax25_address list \<Rightarrow> ax25_path" where
  "ax25_put_digis path k [] = path"
| "ax25_put_digis path k (d # ds) =
     ax25_put_digis (path\<lparr>px_digi := (px_digi path)[k - 1 := d], px_digi_count := k\<rparr>) (k + 1) ds"

lemma ax25_put_digis_fields:
  "1 \<le> k \<Longrightarrow> k - 1 + length ds \<le> length (px_digi path) \<Longrightarrow>
   px_digi (ax25_put_digis path k ds)
     = take (k - 1) (px_digi path) @ ds @ drop (k - 1 + length ds) (px_digi path)
   \<and> px_digi_count (ax25_put_digis path k ds)
     = (if ds = [] then px_digi_count path else k - 1 + length ds)
   \<and> px_dest (ax25_put_digis path k ds) = px_dest path
   \<and> px_source (ax25_put_digis path k ds) = px_source path"
proof (induction ds arbitrary: path k)
  case Nil
  then show ?case by simp
next
  case (Cons d ds)
  obtain j where k: "k = Suc j" using Cons.prems by (cases k) auto
  let ?path = "path\<lparr>px_digi := (px_digi path)[j := d], px_digi_count := k\<rparr>"
  have j: "j < length (px_digi path)" using Cons.prems k by simp
  then have "take (Suc j) ((px_digi path)[j := d]) = take j (px_digi path) @ [d]"
    by (simp add: take_Suc_conv_app_nth)
  moreover have "drop (Suc j + length ds) ((px_digi path)[j := d]) = drop (Suc j + length ds) (px_digi path)"
    by simp
  ultimately show ?case
    using Cons.IH [of "k + 1" ?path] Cons.prems k by auto
qed

lemma ax25_slice: "length pre = pos \<Longrightarrow> length x = n \<Longrightarrow> take n (drop pos (pre @ x @ post)) = x"
  by simp

lemma ax25_loop_digis:
  assumes "1 \<le> k" and "k + length ds \<le> AX25_MAX_DIGI + 1"
    and "\<forall>a \<in> set ds. ax25_address_ok a" and "ax25_address_ok src"
  shows "ax25_addr_loop
           (pre @ concat (map (\<lambda>a. ax25_encode_address a False) ds) @ ax25_encode_address src True @ post)
           (length pre) k path
         = (True, length pre + 7 * (length ds + 1), (ax25_put_digis path k ds)\<lparr>px_source := src\<rparr>)"
  using assms
proof (induction ds arbitrary: pre k path)
  case Nil
  have "unat (ax_ssid src) \<le> 15" using Nil by (simp add: ax25_address_ok_def AX25_SSID_MAX_def)
  then have "(ax25_encode_address src True ! 6 AND 0x01 \<noteq> 0)" by (simp add: ax25_encode_last_bit)
  with Nil show ?case
    by (subst ax25_addr_loop.simps)
      (simp add: nth_append ax25_decode_encode AX25_ADDR_ENCODED_def Let_def)
next
  case (Cons d ds)
  let ?rest = "concat (map (\<lambda>a. ax25_encode_address a False) ds) @ ax25_encode_address src True @ post"
  have "unat (ax_ssid d) \<le> 15" using Cons by (simp add: ax25_address_ok_def AX25_SSID_MAX_def)
  then have low: "ax25_encode_address d False ! 6 AND 0x01 = 0"
    using ax25_encode_last_bit [of d False] by simp
  have ok: "ax25_address_ok d" using Cons by simp
  let ?pre = "pre @ ax25_encode_address d False"
  have "ax25_addr_loop (?pre @ ?rest) (length ?pre) (k + 1)
      (path\<lparr>px_digi := (px_digi path)[k - 1 := d], px_digi_count := k\<rparr>)
    = (True, length ?pre + 7 * (length ds + 1),
       (ax25_put_digis (path\<lparr>px_digi := (px_digi path)[k - 1 := d], px_digi_count := k\<rparr>) (k + 1) ds)
         \<lparr>px_source := src\<rparr>)"
    using Cons by (intro Cons.IH) auto
  moreover have "k - 1 < 8" "\<not> k + 1 > 9" using Cons.prems by (auto simp: AX25_MAX_DIGI_def)
  ultimately show ?case
    using Cons.prems low
    by (subst ax25_addr_loop.simps)
      (simp add: nth_append ax25_decode_encode [OF ok] AX25_ADDR_ENCODED_def AX25_MAX_DIGI_def Let_def)
qed

lemma ax25_loop_path:
  assumes "ax25_path_ok p"
  shows "ax25_addr_loop
     (ax25_encode_address (px_dest p) False
      @ concat (map (\<lambda>a. ax25_encode_address a False) (take (px_digi_count p) (px_digi p)))
      @ ax25_encode_address (px_source p) True @ post) 0 0 ax25_path_zero
   = (True, 7 * (px_digi_count p + 2), p)"
proof -
  let ?ds = "take (px_digi_count p) (px_digi p)"
  let ?z = "ax25_path_zero\<lparr>px_dest := px_dest p\<rparr>"
  have ok: "ax25_address_ok (px_dest p)" "ax25_address_ok (px_source p)"
    "\<forall>a \<in> set ?ds. ax25_address_ok a" "length ?ds = px_digi_count p" "px_digi_count p \<le> 8"
    using assms by (auto simp: ax25_path_ok_def AX25_MAX_DIGI_def)
  have "unat (ax_ssid (px_dest p)) \<le> 15" using ok(1) by (simp add: ax25_address_ok_def AX25_SSID_MAX_def)
  then have low: "ax25_encode_address (px_dest p) False ! 6 AND 0x01 = 0"
    using ax25_encode_last_bit [of "px_dest p" False] by simp
  have put: "(ax25_put_digis ?z 1 ?ds)\<lparr>px_source := px_source p\<rparr> = p"
  proof -
    have "1 - 1 + length ?ds \<le> length (px_digi ?z)"
      using ok(4,5) by (simp add: ax25_path_zero_def AX25_MAX_DIGI_def)
    from ax25_put_digis_fields [OF _ this]
    have "px_digi (ax25_put_digis ?z 1 ?ds) = ?ds @ drop (px_digi_count p) (px_digi p)"
      and "px_digi_count (ax25_put_digis ?z 1 ?ds) = px_digi_count p"
      and "px_dest (ax25_put_digis ?z 1 ?ds) = px_dest p"
      using assms ok(4,5)
      by (auto simp: ax25_path_ok_def ax25_path_zero_def AX25_MAX_DIGI_def split: if_splits)
    then show ?thesis by (cases p, cases "ax25_put_digis ?z 1 ?ds") auto
  qed
  from ax25_loop_digis [of 1 ?ds "px_source p" "ax25_encode_address (px_dest p) False" post ?z]
  show ?thesis
    using ok low put
    by (subst ax25_addr_loop.simps)
      (simp add: nth_append ax25_decode_encode AX25_ADDR_ENCODED_def AX25_MAX_DIGI_def Let_def)
qed

lemma ax25_fcs_split: "ucast (ucast (crc AND 0xFF) :: u8) OR push_bit 8 (ucast (ucast (drop_bit 8 crc AND 0xFF) :: u8)) = (crc :: u16)"
proof (rule bit_eqI)
  fix n assume "possible_bit TYPE(u16) n"
  then have "n < 16" by simp
  have m: "(0xFF :: u16) = mask 8" by (simp add: mask_eq_exp_minus_1)
  show "bit ((ucast (ucast (crc AND 0xFF) :: u8) :: u16)
        OR push_bit 8 (ucast (ucast (drop_bit 8 crc AND 0xFF) :: u8))) n = bit crc n"
    using \<open>n < 16\<close> unfolding m by (auto simp: bit_simps)
qed

lemma ax25_fcs_rx_built: "ax25_fcs_rx (body @ ax25_fcs_bytes crc) = crc"
  using ax25_fcs_split [of crc] by (simp add: ax25_fcs_rx_def ax25_fcs_bytes_def nth_append)

lemma ax25_fcs_pair_inj:
  fixes a b c d :: u8
  assumes "(ucast a :: u16) OR push_bit 8 (ucast b) = ucast c OR push_bit 8 (ucast d)"
  shows "a = c \<and> b = d"
proof -
  have "bit ((ucast a :: u16) OR push_bit 8 (ucast b)) n
      = bit ((ucast c :: u16) OR push_bit 8 (ucast d)) n" for n
    using assms by simp
  note eq = this
  have "bit a n = bit c n" if "n < 8" for n
    using eq [of n] that by (simp add: bit_simps)
  moreover have "bit b n = bit d n" if "n < 8" for n
    using eq [of "n + 8"] that by (auto simp: bit_simps dest: bit_imp_le_length)
  ultimately show ?thesis by (auto intro: bit_word_eqI)
qed

lemma ax25_append_addresses_ok:
  assumes "ax25_path_ok p" and "7 * (px_digi_count p + 2) \<le> cap"
  shows "append_addresses p cap = Some (ax25_encode_address (px_dest p) False
     @ concat (map (\<lambda>a. ax25_encode_address a False) (take (px_digi_count p) (px_digi p)))
     @ ax25_encode_address (px_source p) True)"
  using assms
  by (auto simp: append_addresses_def ax25_path_ok_def AX25_ADDR_ENCODED_def AX25_MAX_DIGI_def)

lemma ax25_addresses_length:
  "ax25_path_ok p \<Longrightarrow>
   length (concat (map (\<lambda>a. ax25_encode_address a False) (take (px_digi_count p) (px_digi p))))
     = 7 * px_digi_count p"
proof -
  have "length (concat (map (\<lambda>a. ax25_encode_address a False) ds)) = 7 * length ds" for ds
    by (induction ds) auto
  then show "ax25_path_ok p \<Longrightarrow> ?thesis"
    by (simp add: ax25_path_ok_def AX25_MAX_DIGI_def)
qed

lemma ax25_parse_laid_out:
  assumes "frame = addrs @ AX25_CTRL_UI # pid # payload @ ax25_fcs_bytes (ax25_crc (addrs @ AX25_CTRL_UI # pid # payload))"
    and "ax25_addr_loop frame 0 0 ax25_path_zero = (True, length addrs, p)"
    and "12 \<le> length addrs" and "length payload \<le> payload_cap"
  shows "ax25_parse_ui frame path0 payload_cap = (length payload, p, payload)"
proof -
  let ?body = "addrs @ AX25_CTRL_UI # pid # payload"
  have frame: "frame = ?body @ ax25_fcs_bytes (ax25_crc ?body)" using assms(1) by simp
  have len: "length frame = length addrs + 4 + length payload"
    unfolding frame by (simp add: ax25_fcs_bytes_def)
  have ctrl: "frame ! length addrs = AX25_CTRL_UI" by (simp add: assms(1))
  have pay: "take (length payload) (drop (length addrs + 2) frame) = payload"
    by (simp add: assms(1))
  have "take (length frame - 2) frame = ?body"
    unfolding frame by (simp add: ax25_fcs_bytes_def)
  then have crc: "ax25_fcs_rx frame = ax25_crc (take (length frame - 2) frame)"
    using ax25_fcs_rx_built [of ?body "ax25_crc ?body"] frame by simp
  show ?thesis
    using assms(3,4) len ctrl pay crc by (simp add: ax25_parse_ui_def assms(2))
qed

lemma ax25_build_parse:
  assumes "ax25_path_ok p" and "length payload \<le> AX25_FRAME_MAX"
    and "length payload + 32 \<le> cap" and "7 * (px_digi_count p + 2) + 4 + length payload \<le> cap"
    and "length payload \<le> payload_cap"
  shows "\<exists>frame. ax25_build_ui p payload cap = Some frame
     \<and> length frame = 7 * (px_digi_count p + 2) + 4 + length payload
     \<and> ax25_parse_ui frame path0 payload_cap = (length payload, p, payload)"
proof -
  let ?dig = "concat (map (\<lambda>a. ax25_encode_address a False) (take (px_digi_count p) (px_digi p)))"
  let ?addrs = "ax25_encode_address (px_dest p) False @ ?dig @ ax25_encode_address (px_source p) True"
  let ?body = "?addrs @ AX25_CTRL_UI # AX25_PID_NOL3 # payload"
  let ?frame = "?body @ ax25_fcs_bytes (ax25_crc ?body)"
  have al: "length ?addrs = 7 * (px_digi_count p + 2)"
    using ax25_addresses_length [OF assms(1)] by simp
  have "ax25_build_ui p payload cap = Some ?frame"
    using assms al ax25_append_addresses_ok [OF assms(1), of cap]
    by (simp add: ax25_build_ui_def Let_def)
  moreover have "length ?frame = 7 * (px_digi_count p + 2) + 4 + length payload"
    using al by (simp add: ax25_fcs_bytes_def)
  moreover have "ax25_parse_ui ?frame path0 payload_cap = (length payload, p, payload)"
  proof (rule ax25_parse_laid_out [of _ ?addrs AX25_PID_NOL3])
    show "ax25_addr_loop ?frame 0 0 ax25_path_zero = (True, length ?addrs, p)"
      unfolding al by (simp only: append.assoc ax25_loop_path [OF assms(1)])
  qed (use al assms(5) in simp_all)
  ultimately show ?thesis by blast
qed

lemma ax25_address_okI:
  assumes "\<forall>c \<in> set name. 33 \<le> (of_char c :: nat) \<and> (of_char c :: nat) < 127"
    and "length name \<le> 6" and "ax_call a = map of_char name @ replicate (7 - length name) 0"
    and "ax_ssid a = of_nat n" and "n \<le> 15"
  shows "ax25_address_ok a"
proof -
  have char: "unat (of_char c :: u8) = of_char c" for c
    by (simp add: unat_of_char_u8)
  have nz: "\<forall>c \<in> set name. (of_char c :: u8) \<noteq> 0 \<and> (of_char c :: u8) \<noteq> 0x20
      \<and> unat (of_char c :: u8) < 128"
    using assms(1) by (auto simp: char dest!: arg_cong [of _ _ unat])
  then have "takeWhile (\<lambda>c. c \<noteq> 0) (ax_call a) = map of_char name"
    unfolding assms(3) by (subst takeWhile_append2) (auto simp: takeWhile_replicate)
  moreover have "unat (of_nat n :: u32) = n" using assms(5) by (simp add: unat_of_nat)
  ultimately show ?thesis
    using nz assms by (simp add: ax25_address_ok_def ax25_consts)
qed

section \<open>Properties\<close>

text \<open>
  C12. AX.25 UI round trip: for every path of up to eight digipeaters with encodable call signs and
  SSIDs, and every payload of at most 330 bytes, a large enough buffer receives a frame of the
  documented length, and parsing that frame returns the payload length, the same path and the
  same payload.
\<close>

theorem ax25_ui_roundtrip:
  assumes "ax25_path_ok p" and "length payload \<le> AX25_FRAME_MAX"
    and "length payload + 32 \<le> cap" and "7 * (px_digi_count p + 2) + 4 + length payload \<le> cap"
    and "length payload \<le> payload_cap"
  shows "\<exists>frame. ax25_build_ui p payload cap = Some frame
     \<and> length frame = 7 * (px_digi_count p + 2) + 4 + length payload
     \<and> ax25_parse_ui frame path0 payload_cap = (length payload, p, payload)"
  using ax25_build_parse [OF assms, of path0] by blast

definition ax25_example_path :: ax25_path where
  "ax25_example_path = ax25_path_zero
     \<lparr>px_dest := \<lparr>ax_call = [0x43, 0x51, 0, 0, 0, 0, 0], ax_ssid = 0\<rparr>,
      px_source := \<lparr>ax_call = [0x55, 0x4E, 0x31, 0x54, 0x4D, 0x45, 0], ax_ssid = 7\<rparr>,
      px_digi := \<lparr>ax_call = [0x52, 0x31, 0, 0, 0, 0, 0], ax_ssid = 15\<rparr> # replicate 7 ax25_address_zero,
      px_digi_count := 1\<rparr>"

lemma ax25_example_path_ok: "ax25_path_ok ax25_example_path"
  by code_simp

theorem ax25_ui_roundtrip_witness:
  "\<exists>frame. ax25_build_ui ax25_example_path [0x48, 0x69] 128 = Some frame
     \<and> length frame = 27 \<and> ax25_parse_ui frame ax25_path_zero 64 = (2, ax25_example_path, [0x48, 0x69])"
proof -
  have "px_digi_count ax25_example_path = 1" by (simp add: ax25_example_path_def)
  then show ?thesis
    using ax25_ui_roundtrip [OF ax25_example_path_ok, of "[0x48, 0x69]" 128 64 ax25_path_zero]
    by (simp add: AX25_FRAME_MAX_def numeral_2_eq_2)
qed

text \<open>
  C13. The frame check sequence detects every error confined to one byte: if the parser accepts a
  frame, it returns 0 for the frame with any single byte changed, wherever it is, the check
  sequence itself included.
\<close>

theorem ax25_single_byte_error_detected:
  assumes "fst (ax25_parse_ui frame path payload_cap) \<noteq> 0"
    and "i < length frame" and "b \<noteq> frame ! i"
  shows "fst (ax25_parse_ui (frame[i := b]) path payload_cap) = 0"
proof -
  let ?n = "length frame"
  let ?f = "frame[i := b]"
  from assms(1) have n: "16 \<le> ?n" and ok: "ax25_fcs_rx frame = ax25_crc (take (?n - 2) frame)"
    by (auto simp: ax25_parse_ui_def Let_def split: prod.splits if_splits)
  have bad: "ax25_fcs_rx ?f \<noteq> ax25_crc (take (?n - 2) ?f)"
  proof (cases "i < ?n - 2")
    case True
    then have "ax25_fcs_rx ?f = ax25_fcs_rx frame" by (simp add: ax25_fcs_rx_def)
    moreover have "ax25_crc ((take (?n - 2) frame)[i := b]) \<noteq> ax25_crc (take (?n - 2) frame)"
      using ax25_crc_one_byte [of i "take (?n - 2) frame" b] True assms(3) by auto
    ultimately show ?thesis using ok by (simp add: take_update_swap)
  next
    case False
    then have "take (?n - 2) ?f = take (?n - 2) frame" by simp
    moreover have "ax25_fcs_rx ?f \<noteq> ax25_fcs_rx frame"
    proof
      assume eq: "ax25_fcs_rx ?f = ax25_fcs_rx frame"
      have "?f ! (?n - 2) = frame ! (?n - 2) \<and> ?f ! (?n - 1) = frame ! (?n - 1)"
        using eq by (auto simp: ax25_fcs_rx_def dest: ax25_fcs_pair_inj)
      moreover have "i = ?n - 2 \<or> i = ?n - 1" using False assms(2) by auto
      ultimately show False using assms(2,3) by auto
    qed
    ultimately show ?thesis using ok by simp
  qed
  then show ?thesis
    using n by (auto simp: ax25_parse_ui_def Let_def split: prod.splits)
qed

theorem ax25_single_byte_error_detected_witness:
  "\<exists>frame. ax25_build_ui ax25_example_path [0x48, 0x69] 128 = Some frame
     \<and> fst (ax25_parse_ui frame ax25_path_zero 64) = 2
     \<and> fst (ax25_parse_ui (frame[20 := frame ! 20 + 1]) ax25_path_zero 64) = 0"
proof -
  have "px_digi_count ax25_example_path = 1" by (simp add: ax25_example_path_def)
  then obtain frame where f: "ax25_build_ui ax25_example_path [0x48, 0x69] 128 = Some frame"
    "length frame = 27" "fst (ax25_parse_ui frame ax25_path_zero 64) = 2"
    using ax25_build_parse [OF ax25_example_path_ok, of "[0x48, 0x69]" 128 64 ax25_path_zero]
    by (auto simp: AX25_FRAME_MAX_def)
  then show ?thesis
    using ax25_single_byte_error_detected [of frame ax25_path_zero 64 20 "frame ! 20 + 1"] by simp
qed

text \<open>
  When the output buffer is large enough for the 32-byte estimate but not for the addresses,
  the builder does not return 0: it writes control byte, PID, payload and check sequence at the
  start of the buffer and returns a frame without any address.
\<close>

theorem ax25_build_ui_drops_addresses:
  assumes "length payload \<le> AX25_FRAME_MAX" and "length payload + 32 \<le> cap"
    and "cap < 7 * (px_digi_count p + 2)"
  shows "ax25_build_ui p payload cap
     = Some ([AX25_CTRL_UI, AX25_PID_NOL3] @ payload
             @ ax25_fcs_bytes (ax25_crc ([AX25_CTRL_UI, AX25_PID_NOL3] @ payload)))"
  using assms by (simp add: ax25_build_ui_def append_addresses_def AX25_ADDR_ENCODED_def Let_def)

theorem ax25_build_ui_drops_addresses_witness:
  "ax25_build_ui (ax25_path_zero\<lparr>px_digi_count := 8\<rparr>) [0x48] 64
     = Some ([0x03, 0xF0, 0x48] @ ax25_fcs_bytes (ax25_crc [0x03, 0xF0, 0x48]))"
  using ax25_build_ui_drops_addresses [of "[0x48]" 64 "ax25_path_zero\<lparr>px_digi_count := 8\<rparr>"]
  by (simp add: AX25_FRAME_MAX_def AX25_CTRL_UI_def AX25_PID_NOL3_def)

text \<open>
  Parsing a printed address \<open>CALL-SSID\<close>: a call sign of one to six printable ASCII
  characters (no blank, no dash) with an SSID up to 15 is accepted, upper-cased and zero-padded,
  and is then an address the frame encoding carries exactly; a longer call sign or a larger SSID
  is refused.
\<close>

theorem ax25_address_parse_printed:
  assumes "\<forall>c \<in> set call. c \<noteq> CHR ''-'' \<and> 33 \<le> (of_char c :: nat) \<and> (of_char c :: nat) < 127"
    and "n \<le> c_ulong_max"
  shows "if call \<noteq> [] \<and> length call \<le> 6 \<and> n \<le> 15
    then ax25_address_parse (call @ ''-'' @ dec_of_nat n)
           = (HYBBX_OK, \<lparr>ax_call = map of_char (map c_toupper call) @ replicate (7 - length call) 0,
                        ax_ssid = of_nat n\<rparr>)
         \<and> ax25_address_ok (snd (ax25_address_parse (call @ ''-'' @ dec_of_nat n)))
    else fst (ax25_address_parse (call @ ''-'' @ dec_of_nat n)) = HYBBX_ERR_INVALID"
proof -
  have "takeWhile (\<lambda>c. c \<noteq> CHR ''-'') (call @ CHR ''-'' # dec_of_nat n) = call"
    using assms(1) by (simp add: takeWhile_append2)
  note parse = ax25_address_parse_def [of "call @ CHR ''-'' # dec_of_nat n", unfolded this]
  show ?thesis
  proof (cases "call \<noteq> [] \<and> length call \<le> 6 \<and> n \<le> 15")
    case True
    let ?a = "\<lparr>ax_call = map of_char (map c_toupper call) @ replicate (7 - length call) 0,
               ax_ssid = of_nat n :: u32\<rparr> :: ax25_address"
    have res: "ax25_address_parse (call @ ''-'' @ dec_of_nat n) = (HYBBX_OK, ?a)"
      using True assms(2)
      by (simp add: parse c_strtoul_dec_of_nat ax25_consts address_upper_def Let_def)
    have "ax25_address_ok ?a"
    proof (rule ax25_address_okI [of "map c_toupper call"])
      show "\<forall>c \<in> set (map c_toupper call). 33 \<le> (of_char c :: nat) \<and> (of_char c :: nat) < 127"
        using assms(1) c_toupper_graph by simp
    qed (use True in auto)
    with res True show ?thesis by simp
  next
    case False
    then show ?thesis
      using assms(2) by (auto simp: parse c_strtoul_dec_of_nat ax25_consts Let_def)
  qed
qed

theorem ax25_address_parse_printed_witness:
  "ax25_address_parse ''un1tme-7''
     = (HYBBX_OK, \<lparr>ax_call = map of_char ''UN1TME'' @ [0], ax_ssid = 7\<rparr>)"
proof -
  have "dec_of_nat 7 = ''7''" by code_simp
  then show ?thesis
    using ax25_address_parse_printed [of "''un1tme''" 7]
    by (simp add: c_ulong_max_def c_toupper_def c_islower_def)
qed

end
