(* ===== verification/Sixpack.thy ===== *)
theory Sixpack imports Kiss begin

text \<open>
  6PACK framing: \<^verbatim>\<open>plugins/packet_radio/sixpack.c\<close> and its header.  The byte-sized
  counter and checksum are words, so their wrap-around is the C one.  The encoder and the decoder
  both add 0x40 to small bytes, so a frame comes back as \<open>sixpack_image\<close> of what was sent.
\<close>

section \<open>State\<close>

definition SIXPACK_LEAD :: u8 where "SIXPACK_LEAD = 0x53"

record sixpack_decoder =
  sp_buf :: bytes
  sp_in_frame :: bool
  sp_count :: u8
  sp_checksum :: u8

definition sixpack_decoder_init :: sixpack_decoder where
  "sixpack_decoder_init =
     \<lparr>sp_buf = [], sp_in_frame = False, sp_count = 0, sp_checksum = 0\<rparr>"

definition sixpack_reset :: "sixpack_decoder \<Rightarrow> sixpack_decoder" where
  "sixpack_reset d =
     d\<lparr>sp_buf := [], sp_count := 0, sp_checksum := 0, sp_in_frame := False\<rparr>"

definition sixpack_deliver :: "sixpack_decoder \<Rightarrow> sixpack_decoder \<times> bytes list" where
  "sixpack_deliver d =
     (sixpack_reset d, if length (sp_buf d) > 0 then [sp_buf d] else [])"

section \<open>The decoder\<close>

definition sixpack_step :: "sixpack_decoder \<Rightarrow> u8 \<Rightarrow> sixpack_decoder \<times> bytes list" where
  "sixpack_step d raw =
     (if \<not> sp_in_frame d then
        (if raw = SIXPACK_LEAD
         then (d\<lparr>sp_in_frame := True, sp_buf := [], sp_count := 0, sp_checksum := 0\<rparr>, [])
         else (d, []))
      else if sp_count d = 0 then (d\<lparr>sp_count := raw, sp_checksum := raw\<rparr>, [])
      else
        let d' = d\<lparr>sp_count := sp_count d - 1, sp_checksum := sp_checksum d + raw\<rparr>;
            byte = (if raw < 0x30 then raw + 0x40 else raw)
        in if sp_count d' > 0 then
             (if length (sp_buf d') \<ge> KISS_MAX_FRAME then (sixpack_reset d', [])
              else (d'\<lparr>sp_buf := sp_buf d' @ [byte]\<rparr>, []))
           else if sp_checksum d' = 0 then sixpack_deliver d'
           else (sixpack_reset d', []))"

definition sixpack_decoder_feed ::
    "sixpack_decoder \<Rightarrow> bytes \<Rightarrow> sixpack_decoder \<times> bytes list" where
  "sixpack_decoder_feed d data = run_stream sixpack_step d data"

section \<open>The encoder\<close>

definition sixpack_write_encoded :: "u8 \<Rightarrow> nat \<Rightarrow> bytes \<Rightarrow> bytes option" where
  "sixpack_write_encoded byte out_cap out =
     (if byte < 0x30 then
        (if length out + 1 > out_cap then None else Some (out @ [byte + 0x40]))
      else if length out + 1 > out_cap then None else Some (out @ [byte]))"

fun sixpack_write_all :: "bytes \<Rightarrow> nat \<Rightarrow> bytes \<Rightarrow> bytes option" where
  "sixpack_write_all [] out_cap out = Some out"
| "sixpack_write_all (b # bs) out_cap out =
     (case sixpack_write_encoded b out_cap out of
        None \<Rightarrow> None
      | Some out' \<Rightarrow> sixpack_write_all bs out_cap out')"

definition sixpack_encode :: "bytes \<Rightarrow> nat \<Rightarrow> bytes" where
  "sixpack_encode frame out_cap =
     (if length frame = 0 \<or> length frame > KISS_MAX_FRAME then []
      else case sixpack_write_all frame (KISS_MAX_FRAME + 4) [] of
             None \<Rightarrow> []
           | Some scratch \<Rightarrow>
               let enc_len = length scratch in
               if enc_len + 4 > out_cap \<or> enc_len + 1 > 255 then []
               else let count = of_nat (enc_len + 1) :: u8;
                        sum = foldl (+) count scratch
                    in [SIXPACK_LEAD, count] @ scratch @ [0x100 - sum])"

section \<open>Lemmas\<close>

definition sixpack_image :: "u8 \<Rightarrow> u8" where
  "sixpack_image b = (if b < 0x30 then b + 0x40 else b)"

definition sixpack_bounded :: "sixpack_decoder \<Rightarrow> bool" where
  "sixpack_bounded d \<longleftrightarrow> length (sp_buf d) \<le> KISS_MAX_FRAME"

lemma sixpack_step_bounded: "sixpack_bounded d \<Longrightarrow> sixpack_bounded (fst (sixpack_step d b))"
  by (auto simp: sixpack_bounded_def sixpack_step_def sixpack_reset_def sixpack_deliver_def Let_def)

lemma sixpack_image_ge: "\<not> sixpack_image b < 0x30"
proof (cases "b < 0x30")
  case True
  then have "unat (b + 0x40) = unat b + 0x40"
    by (simp add: unat_word_ariths word_less_nat_alt)
  with True show ?thesis by (simp add: sixpack_image_def word_less_nat_alt)
next
  case False
  then show ?thesis by (simp add: sixpack_image_def)
qed

lemma sixpack_write_all_eq:
  "length out + length bs \<le> cap \<Longrightarrow>
   sixpack_write_all bs cap out = Some (out @ map sixpack_image bs)"
  by (induction bs arbitrary: out) (auto simp: sixpack_write_encoded_def sixpack_image_def)

lemma sixpack_encode_eq:
  "sixpack_encode frame cap =
     (if frame = [] \<or> length frame > 254 \<or> length frame + 4 > cap then []
      else let count = of_nat (length frame + 1) :: u8; enc = map sixpack_image frame
           in [SIXPACK_LEAD, count] @ enc @ [- foldl (+) count enc])"
proof -
  have "(0x100 :: u8) = 0" by simp
  then show ?thesis
    by (auto simp: sixpack_encode_def sixpack_write_all_eq KISS_MAX_FRAME_def Let_def)
qed

text \<open>The decoder inside a frame that still announces the bytes \<open>bs\<close> and a checksum byte.\<close>

lemma sixpack_run_body:
  assumes "sp_in_frame d" and "sp_count d = of_nat (length bs + 1)"
    and "length (sp_buf d) + length bs \<le> 254"
  shows "run_stream sixpack_step d bs =
     (d\<lparr>sp_buf := sp_buf d @ map sixpack_image bs, sp_count := 1,
        sp_checksum := foldl (+) (sp_checksum d) bs\<rparr>, [])"
  using assms
proof (induction bs arbitrary: d)
  case Nil
  then show ?case by simp
next
  case (Cons b bs)
  have len: "length bs + 1 < 255" using Cons.prems(3) by simp
  have c0: "sp_count d \<noteq> 0"
    using Cons.prems(2,3) by (simp del: of_nat_Suc of_nat_add add: word_of_nat_eq_0_iff dvd_eq_mod_eq_0)
  have c1: "sp_count d - 1 = of_nat (length bs + 1)" using Cons.prems(2) by simp
  then have c1': "sp_count d - 1 \<noteq> 0"
    using len by (simp del: of_nat_Suc of_nat_add add: word_of_nat_eq_0_iff dvd_eq_mod_eq_0)
  have st: "sixpack_step d b = (d\<lparr>sp_count := sp_count d - 1, sp_checksum := sp_checksum d + b,
      sp_buf := sp_buf d @ [sixpack_image b]\<rparr>, [])"
    using Cons.prems c0 c1'
    by (simp add: sixpack_step_def sixpack_image_def KISS_MAX_FRAME_def Let_def word_gt_0)
  have ih: "run_stream sixpack_step (d\<lparr>sp_count := sp_count d - 1, sp_checksum := sp_checksum d + b,
      sp_buf := sp_buf d @ [sixpack_image b]\<rparr>) bs
    = (d\<lparr>sp_buf := (sp_buf d @ [sixpack_image b]) @ map sixpack_image bs, sp_count := 1,
        sp_checksum := foldl (+) (sp_checksum d + b) bs\<rparr>, [])"
    using Cons.IH [of "d\<lparr>sp_count := sp_count d - 1, sp_checksum := sp_checksum d + b,
      sp_buf := sp_buf d @ [sixpack_image b]\<rparr>"] Cons.prems c1 by simp
  show ?case by (simp add: st ih)
qed

definition sixpack_idle :: "sixpack_decoder \<Rightarrow> bool" where
  "sixpack_idle d \<longleftrightarrow> \<not> sp_in_frame d"

text \<open>A complete packet with any data and any checksum byte.\<close>

lemma sixpack_run_packet:
  assumes "sixpack_idle d" and "data \<noteq> []" and "length data \<le> 254"
  shows "snd (run_stream sixpack_step d
            (SIXPACK_LEAD # of_nat (length data + 1) # data @ [chk]))
       = (if foldl (+) (of_nat (length data + 1)) data + chk = 0 then [map sixpack_image data] else [])
     \<and> sixpack_idle (fst (run_stream sixpack_step d
            (SIXPACK_LEAD # of_nat (length data + 1) # data @ [chk])))"
proof -
  let ?c = "of_nat (length data + 1) :: u8"
  let ?d1 = "d\<lparr>sp_in_frame := True, sp_buf := [], sp_count := 0, sp_checksum := 0\<rparr>"
  let ?d2 = "?d1\<lparr>sp_count := ?c, sp_checksum := ?c\<rparr>"
  let ?d3 = "?d2\<lparr>sp_buf := map sixpack_image data, sp_count := 1, sp_checksum := foldl (+) ?c data\<rparr>"
  have s1: "sixpack_step d SIXPACK_LEAD = (?d1, [])"
    using assms(1) by (simp add: sixpack_idle_def sixpack_step_def)
  have s2: "sixpack_step ?d1 ?c = (?d2, [])" by (simp add: sixpack_step_def)
  have body: "run_stream sixpack_step ?d2 data = (?d3, [])"
    using sixpack_run_body [of ?d2 data] assms(3) by simp
  have "sixpack_step ?d3 chk
      = (sixpack_reset (?d3\<lparr>sp_count := 0, sp_checksum := foldl (+) ?c data + chk\<rparr>),
         if foldl (+) ?c data + chk = 0 then [map sixpack_image data] else [])"
    using assms(2) by (simp add: sixpack_step_def sixpack_deliver_def Let_def)
  then show ?thesis
    unfolding run_stream_step s1 fst_conv snd_conv s2 run_stream_append body
    by (simp add: sixpack_idle_def sixpack_reset_def)
qed

lemma sixpack_image_image [simp]: "sixpack_image (sixpack_image b) = sixpack_image b"
  using sixpack_image_ge [of b] by (simp add: sixpack_image_def [of "sixpack_image b"])

lemma sixpack_decode_frame:
  assumes "sixpack_idle d" and "sixpack_encode frame cap \<noteq> []"
  shows "snd (run_stream sixpack_step d (sixpack_encode frame cap)) = [map sixpack_image frame]
     \<and> sixpack_idle (fst (run_stream sixpack_step d (sixpack_encode frame cap)))"
proof -
  let ?enc = "map sixpack_image frame"
  have "?enc \<noteq> []" "length ?enc \<le> 254" and enc: "sixpack_encode frame cap
      = SIXPACK_LEAD # of_nat (length ?enc + 1) # ?enc @ [- foldl (+) (of_nat (length ?enc + 1)) ?enc]"
    using assms(2) by (auto simp: sixpack_encode_eq Let_def split: if_splits)
  from sixpack_run_packet [OF assms(1) this(1,2)] show ?thesis unfolding enc by (simp add: comp_def)
qed

interpretation sixpack_link: framed_codec sixpack_step sixpack_idle
    "\<lambda>(frame, cap). sixpack_encode frame cap" "\<lambda>(frame, cap). sixpack_encode frame cap \<noteq> []"
    "\<lambda>(frame, cap). map sixpack_image frame"
  by unfold_locales (auto simp: sixpack_decode_frame)

lemma foldl_plus_word: "foldl (+) c bs = c + sum_list (bs :: bytes)"
  by (induction bs arbitrary: c) (auto simp: add.assoc)

section \<open>Properties\<close>

text \<open>
  The 6PACK decoder on one complete packet, whatever its data and checksum byte: the data are
  called back (small bytes raised by 0x40) exactly when count, data and checksum byte add up to
  zero modulo 256, otherwise nothing is; either way the decoder waits for the next lead byte.
  Hence a packet with one data byte or the checksum byte changed is never called back.
\<close>

theorem sixpack_packet_checked:
  assumes "\<not> sp_in_frame d" and "data \<noteq> []" and "length data \<le> 254"
  shows "snd (sixpack_decoder_feed d (SIXPACK_LEAD # of_nat (length data + 1) # data @ [chk]))
       = (if of_nat (length data + 1) + sum_list data + chk = 0 then [map sixpack_image data] else [])
     \<and> \<not> sp_in_frame (fst (sixpack_decoder_feed d
             (SIXPACK_LEAD # of_nat (length data + 1) # data @ [chk])))"
  using sixpack_run_packet [of d data chk] assms
  unfolding sixpack_idle_def sixpack_decoder_feed_def foldl_plus_word by blast

theorem sixpack_packet_checked_witness:
  "snd (sixpack_decoder_feed sixpack_decoder_init [0x53, 0x03, 0x41, 0x42, 0x7A]) = [[0x41, 0x42]]
   \<and> snd (sixpack_decoder_feed sixpack_decoder_init [0x53, 0x03, 0x41, 0x43, 0x7A]) = []"
  using sixpack_packet_checked [of sixpack_decoder_init "[0x41, 0x42]" "0x7A"]
    sixpack_packet_checked [of sixpack_decoder_init "[0x41, 0x43]" "0x7A"]
  by (simp add: sixpack_decoder_init_def SIXPACK_LEAD_def sixpack_image_def)

text \<open>
  6PACK over a byte stream: frames the encoder accepts, sent one after the other and received
  in reads cut anywhere, are called back in order and in number, but each byte below 0x30 arrives
  raised by 0x40, so a frame arrives unchanged exactly when it has no such byte: encoder and
  decoder both add 0x40 and the decoder never takes it back.
\<close>

theorem sixpack_transfer:
  assumes "\<not> sp_in_frame d" and "\<forall>(frame, cap) \<in> set fs. sixpack_encode frame cap \<noteq> []"
    and "concat reads = concat (map (\<lambda>(frame, cap). sixpack_encode frame cap) fs)"
  shows "snd (run_reads sixpack_step d reads) = map (\<lambda>(frame, cap). map sixpack_image frame) fs
     \<and> (snd (run_reads sixpack_step d reads) = map fst fs
          \<longleftrightarrow> (\<forall>(frame, cap) \<in> set fs. \<forall>b \<in> set frame. \<not> b < 0x30))"
proof -
  have run: "snd (run_reads sixpack_step d reads) = map (\<lambda>(frame, cap). map sixpack_image frame) fs"
    using sixpack_link.decode_reads [of d fs reads] assms by (simp add: sixpack_idle_def)
  have "sixpack_image b = b \<longleftrightarrow> \<not> b < 0x30" for b
    using sixpack_image_ge [of b] by (auto simp: sixpack_image_def split: if_splits)
  then have "map sixpack_image frame = frame \<longleftrightarrow> (\<forall>b \<in> set frame. \<not> b < 0x30)" for frame
    by (auto simp: map_idI map_eq_conv [of _ _ "\<lambda>b. b", simplified])
  then have "map (\<lambda>(frame, cap). map sixpack_image frame) fs = map fst fs
      \<longleftrightarrow> (\<forall>(frame, cap) \<in> set fs. \<forall>b \<in> set frame. \<not> b < 0x30)"
    by (auto simp: case_prod_beta)
  with run show ?thesis by simp
qed

theorem sixpack_transfer_witness:
  "snd (run_reads sixpack_step sixpack_decoder_init [sixpack_encode [0x0D, 0x41] 16]) = [[0x4D, 0x41]]"
  using sixpack_transfer [of sixpack_decoder_init "[([0x0D, 0x41], 16)]"
      "[sixpack_encode [0x0D, 0x41] 16]"]
  by (simp add: sixpack_decoder_init_def sixpack_encode_eq sixpack_image_def Let_def)

end
