(* ===== verification/Telnet_Proto.thy ===== *)
theory Telnet_Proto imports Prelude begin

text \<open>
  The telnet protocol filter of the telnet transport: \<^verbatim>\<open>plugins/telnet/telnet_proto.c\<close>.
  The socket is a script of the outcomes of the coming \<^verbatim>\<open>send\<close> calls (once it is used up
  every call sends everything) and the bytes put on the wire so far.  Bytes handed to the session
  are collected in order.
\<close>

section \<open>The socket\<close>

datatype send_outcome = Sent nat | SendEintr | SendFailed

record tel_io =
  io_script :: "send_outcome list"
  io_wire :: bytes

fun telnet_send_loop :: "send_outcome list \<Rightarrow> bytes \<Rightarrow> bytes \<Rightarrow> hybbx_result \<times> tel_io" where
  "telnet_send_loop script wire [] = (HYBBX_OK, \<lparr>io_script = script, io_wire = wire\<rparr>)"
| "telnet_send_loop [] wire (b # bs) = (HYBBX_OK, \<lparr>io_script = [], io_wire = wire @ b # bs\<rparr>)"
| "telnet_send_loop (SendEintr # script) wire (b # bs) = telnet_send_loop script wire (b # bs)"
| "telnet_send_loop (SendFailed # script) wire (b # bs) =
     (HYBBX_ERR_IO, \<lparr>io_script = script, io_wire = wire\<rparr>)"
| "telnet_send_loop (Sent n # script) wire (b # bs) =
     (if n = 0 then (HYBBX_ERR_IO, \<lparr>io_script = script, io_wire = wire\<rparr>)
      else telnet_send_loop script (wire @ take n (b # bs)) (drop n (b # bs)))"

definition telnet_send_raw :: "tel_io \<Rightarrow> bytes \<Rightarrow> hybbx_result \<times> tel_io" where
  "telnet_send_raw io data = telnet_send_loop (io_script io) (io_wire io) data"

section \<open>Commands and options\<close>

definition TELNET_IAC :: u8 where "TELNET_IAC = 255"
definition TELNET_DONT :: u8 where "TELNET_DONT = 254"
definition TELNET_DO :: u8 where "TELNET_DO = 253"
definition TELNET_WONT :: u8 where "TELNET_WONT = 252"
definition TELNET_WILL :: u8 where "TELNET_WILL = 251"
definition TELNET_SB :: u8 where "TELNET_SB = 250"
definition TELNET_SE :: u8 where "TELNET_SE = 240"
definition TELNET_OPT_ECHO :: u8 where "TELNET_OPT_ECHO = 1"
definition TELNET_OPT_SGA :: u8 where "TELNET_OPT_SGA = 3"
definition TELNET_OPT_LINEMODE :: u8 where "TELNET_OPT_LINEMODE = 34"

lemmas telnet_consts = TELNET_IAC_def TELNET_DONT_def TELNET_DO_def TELNET_WONT_def
  TELNET_WILL_def TELNET_SB_def TELNET_SE_def TELNET_OPT_ECHO_def TELNET_OPT_SGA_def
  TELNET_OPT_LINEMODE_def

definition telnet_send_option :: "tel_io \<Rightarrow> u8 \<Rightarrow> u8 \<Rightarrow> hybbx_result \<times> tel_io" where
  "telnet_send_option io cmd option = telnet_send_raw io [TELNET_IAC, cmd, option]"

definition telnet_reply_do :: "tel_io \<Rightarrow> u8 \<Rightarrow> hybbx_result \<times> tel_io" where
  "telnet_reply_do io option =
     (if option = TELNET_OPT_ECHO then telnet_send_option io TELNET_WONT option
      else if option = TELNET_OPT_SGA then telnet_send_option io TELNET_WILL option
      else telnet_send_option io TELNET_WONT option)"

definition telnet_reply_will :: "tel_io \<Rightarrow> u8 \<Rightarrow> hybbx_result \<times> tel_io" where
  "telnet_reply_will io option =
     (if option = TELNET_OPT_SGA then telnet_send_option io TELNET_DO option
      else if option = TELNET_OPT_ECHO then telnet_send_option io TELNET_DONT option
      else telnet_send_option io TELNET_DONT option)"

section \<open>The parser\<close>

datatype telnet_parse_state = TS_DATA | TS_IAC | TS_CMD | TS_SUBNEG | TS_SUBNEG_IAC

record telnet_parser =
  tp_state :: telnet_parse_state
  tp_command :: u8

definition telnet_parser_init :: telnet_parser where
  "telnet_parser_init = \<lparr>tp_state = TS_DATA, tp_command = 0\<rparr>"

definition telnet_send_greeting :: "bool \<Rightarrow> tel_io \<Rightarrow> hybbx_result \<times> tel_io" where
  "telnet_send_greeting fd_open io =
     (if \<not> fd_open then (HYBBX_ERR_INVALID, io)
      else telnet_send_raw io
        [TELNET_IAC, TELNET_WONT, TELNET_OPT_ECHO,
         TELNET_IAC, TELNET_WILL, TELNET_OPT_SGA,
         TELNET_IAC, TELNET_DONT, TELNET_OPT_LINEMODE])"

text \<open>One byte: the result, the parser, the socket and the bytes handed to the session.\<close>

definition telnet_step ::
    "bool \<Rightarrow> telnet_parser \<Rightarrow> tel_io \<Rightarrow> u8 \<Rightarrow> hybbx_result \<times> telnet_parser \<times> tel_io \<times> bytes" where
  "telnet_step fd_open p io byte =
     (case tp_state p of
        TS_DATA \<Rightarrow>
          if byte = TELNET_IAC then (HYBBX_OK, p\<lparr>tp_state := TS_IAC\<rparr>, io, [])
          else (HYBBX_OK, p, io, [byte])
      | TS_IAC \<Rightarrow>
          if byte = TELNET_IAC then (HYBBX_OK, p\<lparr>tp_state := TS_DATA\<rparr>, io, [TELNET_IAC])
          else if byte = TELNET_WILL \<or> byte = TELNET_WONT \<or> byte = TELNET_DO \<or> byte = TELNET_DONT
          then (HYBBX_OK, p\<lparr>tp_command := byte, tp_state := TS_CMD\<rparr>, io, [])
          else if byte = TELNET_SB then (HYBBX_OK, p\<lparr>tp_state := TS_SUBNEG\<rparr>, io, [])
          else (HYBBX_OK, p\<lparr>tp_state := TS_DATA\<rparr>, io, [])
      | TS_CMD \<Rightarrow>
          (let (rc, io') =
             (if fd_open then
                if tp_command p = TELNET_DO then telnet_reply_do io byte
                else if tp_command p = TELNET_WILL then telnet_reply_will io byte
                else (HYBBX_OK, io)
              else (HYBBX_OK, io))
           in if rc \<noteq> HYBBX_OK then (rc, p, io', [])
              else (HYBBX_OK, p\<lparr>tp_state := TS_DATA\<rparr>, io', []))
      | TS_SUBNEG \<Rightarrow>
          if byte = TELNET_IAC then (HYBBX_OK, p\<lparr>tp_state := TS_SUBNEG_IAC\<rparr>, io, [])
          else (HYBBX_OK, p, io, [])
      | TS_SUBNEG_IAC \<Rightarrow>
          if byte = TELNET_SE then (HYBBX_OK, p\<lparr>tp_state := TS_DATA\<rparr>, io, [])
          else (HYBBX_OK, p\<lparr>tp_state := TS_SUBNEG\<rparr>, io, []))"

fun telnet_parser_feed ::
    "bool \<Rightarrow> telnet_parser \<Rightarrow> tel_io \<Rightarrow> bytes \<Rightarrow> hybbx_result \<times> telnet_parser \<times> tel_io \<times> bytes" where
  "telnet_parser_feed fd_open p io [] = (HYBBX_OK, p, io, [])"
| "telnet_parser_feed fd_open p io (b # bs) =
     (case telnet_step fd_open p io b of (rc, p', io', out) \<Rightarrow>
        if rc \<noteq> HYBBX_OK then (rc, p', io', out)
        else case telnet_parser_feed fd_open p' io' bs of (rc', p'', io'', out') \<Rightarrow>
               (rc', p'', io'', out @ out'))"

section \<open>The abstract view: telnet items\<close>

text \<open>What a peer that speaks telnet sends, one item after the other.\<close>

datatype telnet_item =
    User u8             \<comment> \<open>one byte of user data\<close>
  | Negotiate u8 u8     \<comment> \<open>WILL, WONT, DO or DONT with an option\<close>
  | Subnegotiate bytes  \<comment> \<open>an option's parameters\<close>
  | Command u8          \<comment> \<open>any other command\<close>

definition telnet_double :: "u8 \<Rightarrow> bytes" where
  "telnet_double b = (if b = TELNET_IAC then [TELNET_IAC, TELNET_IAC] else [b])"

fun telnet_item_wire :: "telnet_item \<Rightarrow> bytes" where
  "telnet_item_wire (User b) = telnet_double b"
| "telnet_item_wire (Negotiate c opt) = [TELNET_IAC, c, opt]"
| "telnet_item_wire (Subnegotiate bs) =
     [TELNET_IAC, TELNET_SB] @ concat (map telnet_double bs) @ [TELNET_IAC, TELNET_SE]"
| "telnet_item_wire (Command c) = [TELNET_IAC, c]"

fun telnet_item_ok :: "telnet_item \<Rightarrow> bool" where
  "telnet_item_ok (User b) = True"
| "telnet_item_ok (Negotiate c opt) = (c \<in> {TELNET_WILL, TELNET_WONT, TELNET_DO, TELNET_DONT})"
| "telnet_item_ok (Subnegotiate bs) = True"
| "telnet_item_ok (Command c) =
     (c \<notin> {TELNET_IAC, TELNET_WILL, TELNET_WONT, TELNET_DO, TELNET_DONT, TELNET_SB})"

fun telnet_item_data :: "telnet_item \<Rightarrow> bytes" where
  "telnet_item_data (User b) = [b]"
| "telnet_item_data _ = []"

text \<open>The policy: only suppress-go-ahead is agreed to; WONT and DONT are never answered.\<close>

fun telnet_item_reply :: "telnet_item \<Rightarrow> bytes" where
  "telnet_item_reply (Negotiate c opt) =
     (if c = TELNET_DO then
        [TELNET_IAC, if opt = TELNET_OPT_SGA then TELNET_WILL else TELNET_WONT, opt]
      else if c = TELNET_WILL then
        [TELNET_IAC, if opt = TELNET_OPT_SGA then TELNET_DO else TELNET_DONT, opt]
      else [])"
| "telnet_item_reply _ = []"

section \<open>Lemmas\<close>

lemma telnet_send_loop_result:
  "(fst (telnet_send_loop script wire data) = HYBBX_OK
     \<and> io_wire (snd (telnet_send_loop script wire data)) = wire @ data)
   \<or> (fst (telnet_send_loop script wire data) = HYBBX_ERR_IO
     \<and> (\<exists>k < length data. io_wire (snd (telnet_send_loop script wire data)) = wire @ take k data))"
proof (induction script wire data rule: telnet_send_loop.induct)
  case (5 n script wire b bs)
  show ?case
  proof (cases "n = 0")
    case True
    then show ?thesis by auto
  next
    case False
    let ?r = "telnet_send_loop script (wire @ take n (b # bs)) (drop n (b # bs))"
    have split: "take n (b # bs) @ drop n (b # bs) = b # bs" by (rule append_take_drop_id)
    have rest: "telnet_send_loop (Sent n # script) wire (b # bs) = ?r" using False by simp
    from "5.IH" [OF False] show ?thesis
    proof (elim disjE conjE exE)
      assume "fst ?r = HYBBX_OK" and "io_wire (snd ?r) = (wire @ take n (b # bs)) @ drop n (b # bs)"
      then show ?thesis unfolding rest append_assoc split by blast
    next
      fix k assume "fst ?r = HYBBX_ERR_IO" and "k < length (drop n (b # bs))"
        and "io_wire (snd ?r) = (wire @ take n (b # bs)) @ take k (drop n (b # bs))"
      moreover have "take n (b # bs) @ take k (drop n (b # bs)) = take (n + k) (b # bs)"
        by (simp add: take_add)
      moreover have "n + k < length (b # bs)"
        using \<open>k < length (drop n (b # bs))\<close> by simp
      ultimately show ?thesis unfolding rest append_assoc by metis
    qed
  qed
qed auto

lemma telnet_feed_append:
  "telnet_parser_feed f p io xs = (HYBBX_OK, p', io', out) \<Longrightarrow>
   telnet_parser_feed f p io (xs @ ys) =
     (case telnet_parser_feed f p' io' ys of (rc, p'', io'', out') \<Rightarrow> (rc, p'', io'', out @ out'))"
proof (induction xs arbitrary: p io out)
  case Nil
  then show ?case by (simp split: prod.splits)
next
  case (Cons x xs)
  obtain rc1 p1 io1 o1 where st: "telnet_step f p io x = (rc1, p1, io1, o1)"
    by (cases "telnet_step f p io x")
  obtain rc2 p2 io2 o2 where fd: "telnet_parser_feed f p1 io1 xs = (rc2, p2, io2, o2)"
    by (cases "telnet_parser_feed f p1 io1 xs")
  from Cons.prems st fd have "rc1 = HYBBX_OK" "rc2 = HYBBX_OK" "p2 = p'" "io2 = io'" "out = o1 @ o2"
    by (auto split: if_splits)
  with st Cons.IH [of p1 io1 o2] fd show ?case by (simp split: prod.splits)
qed

lemma telnet_send_open [simp]:
  "telnet_send_raw \<lparr>io_script = [], io_wire = w\<rparr> data
     = (HYBBX_OK, \<lparr>io_script = [], io_wire = w @ data\<rparr>)"
  by (cases data) (auto simp: telnet_send_raw_def)

lemma telnet_feed_subneg:
  "tp_state p = TS_SUBNEG \<Longrightarrow>
   telnet_parser_feed f p io (concat (map telnet_double bs)) = (HYBBX_OK, p, io, [])"
proof (induction bs)
  case Nil
  then show ?case by simp
next
  case (Cons b bs)
  have "p\<lparr>tp_state := TS_SUBNEG\<rparr> = p" using Cons.prems by (cases p) simp
  then have "telnet_parser_feed f p io (telnet_double b) = (HYBBX_OK, p, io, [])"
    using Cons.prems by (auto simp: telnet_double_def telnet_step_def telnet_consts)
  from telnet_feed_append [OF this] Cons show ?case by simp
qed

lemma telnet_feed_item:
  assumes "telnet_item_ok it" and "tp_state p = TS_DATA"
  shows "\<exists>p'. tp_state p' = TS_DATA
     \<and> telnet_parser_feed True p \<lparr>io_script = [], io_wire = w\<rparr> (telnet_item_wire it)
       = (HYBBX_OK, p', \<lparr>io_script = [], io_wire = w @ telnet_item_reply it\<rparr>, telnet_item_data it)"
proof (cases it)
  case (User b)
  then show ?thesis using assms
    by (auto simp: telnet_double_def telnet_step_def intro: exI [of _ p])
next
  case (Negotiate c opt)
  then show ?thesis using assms
    by (auto simp: telnet_step_def telnet_reply_do_def telnet_reply_will_def telnet_send_option_def
        telnet_consts)
next
  case (Subnegotiate bs)
  let ?p = "p\<lparr>tp_state := TS_SUBNEG\<rparr>"
  let ?io = "\<lparr>io_script = [], io_wire = w\<rparr>"
  have open': "telnet_parser_feed True p ?io [TELNET_IAC, TELNET_SB] = (HYBBX_OK, ?p, ?io, [])"
    using assms(2) by (simp add: telnet_step_def telnet_consts)
  have close: "telnet_parser_feed True ?p ?io [TELNET_IAC, TELNET_SE]
      = (HYBBX_OK, p\<lparr>tp_state := TS_DATA\<rparr>, ?io, [])"
    by (simp add: telnet_step_def telnet_consts)
  show ?thesis
    unfolding Subnegotiate telnet_item_wire.simps telnet_feed_append [OF open']
      telnet_feed_append [OF telnet_feed_subneg, where p = ?p, simplified]
    using close by simp
next
  case (Command c)
  then show ?thesis using assms by (auto simp: telnet_step_def)
qed

lemma telnet_feed_items:
  "\<forall>it \<in> set items. telnet_item_ok it \<Longrightarrow> tp_state p = TS_DATA \<Longrightarrow>
   \<exists>p'. tp_state p' = TS_DATA
     \<and> telnet_parser_feed True p \<lparr>io_script = [], io_wire = w\<rparr> (concat (map telnet_item_wire items))
       = (HYBBX_OK, p', \<lparr>io_script = [], io_wire = w @ concat (map telnet_item_reply items)\<rparr>,
          concat (map telnet_item_data items))"
proof (induction items arbitrary: p w)
  case Nil
  then show ?case by auto
next
  case (Cons it items)
  then obtain p1 where p1: "tp_state p1 = TS_DATA" and
    one: "telnet_parser_feed True p \<lparr>io_script = [], io_wire = w\<rparr> (telnet_item_wire it)
      = (HYBBX_OK, p1, \<lparr>io_script = [], io_wire = w @ telnet_item_reply it\<rparr>, telnet_item_data it)"
    using telnet_feed_item [of it p w] by auto
  from Cons.IH [OF _ p1, of "w @ telnet_item_reply it"] Cons.prems show ?case
    by (auto simp: telnet_feed_append [OF one])
qed

section \<open>Properties\<close>

text \<open>
  C5. The telnet filter implements the telnet item grammar: fed with any sequence of items (user
  bytes with IAC doubled, negotiations, subnegotiations, other commands), it hands exactly the
  user bytes to the session, answers each DO and WILL once and by the fixed policy (agree to
  suppress-go-ahead, refuse everything else, never answer WONT or DONT), and ends ready for data.
\<close>

theorem telnet_filter_correct:
  assumes "\<forall>it \<in> set items. telnet_item_ok it"
  shows "\<exists>p'. tp_state p' = TS_DATA
     \<and> telnet_parser_feed True telnet_parser_init \<lparr>io_script = [], io_wire = []\<rparr>
         (concat (map telnet_item_wire items))
       = (HYBBX_OK, p', \<lparr>io_script = [], io_wire = concat (map telnet_item_reply items)\<rparr>,
          concat (map telnet_item_data items))"
  using telnet_feed_items [OF assms, of telnet_parser_init "[]"]
  by (simp add: telnet_parser_init_def)

theorem telnet_filter_correct_witness:
  "\<exists>p'. telnet_parser_feed True telnet_parser_init \<lparr>io_script = [], io_wire = []\<rparr>
      [0x68, 255, 255, 255, 253, 3, 255, 250, 24, 255, 240, 0x69]
     = (HYBBX_OK, p', \<lparr>io_script = [], io_wire = [255, 251, 3]\<rparr>, [0x68, 255, 0x69])"
  using telnet_filter_correct [of "[User 0x68, User 255, Negotiate 253 3, Subnegotiate [24], User 0x69]"]
  by (auto simp: telnet_double_def telnet_consts)

text \<open>
  Sending: when \<open>telnet_send_raw\<close> reports success the whole of the data is on the wire,
  whatever partial and interrupted sends happened on the way; when it reports an error a strict
  prefix of the data is; no other result is possible.
\<close>

theorem telnet_send_all_or_error:
  "(fst (telnet_send_raw io data) = HYBBX_OK
     \<and> io_wire (snd (telnet_send_raw io data)) = io_wire io @ data)
   \<or> (fst (telnet_send_raw io data) = HYBBX_ERR_IO
     \<and> (\<exists>k < length data. io_wire (snd (telnet_send_raw io data)) = io_wire io @ take k data))"
  using telnet_send_loop_result [of "io_script io" "io_wire io" data]
  by (simp add: telnet_send_raw_def)

end
