(* ===== verification/Circuit.thy ===== *)
theory Circuit imports Ax25 begin

text \<open>
  HBX, the framing of the internal circuit links: \<^verbatim>\<open>src/core/circuit.c\<close> and
  \<^verbatim>\<open>include/hybbx/circuit.h\<close>.  The decoder's buffer and its length are one list; the
  encoders take the caller's output buffer and return the length with the buffer after the call,
  because one header byte is never written and keeps what the buffer held.
\<close>

section \<open>Constants\<close>

definition CIRCUIT_MAGIC_0 :: u8 where "CIRCUIT_MAGIC_0 = 0x48"
definition CIRCUIT_MAGIC_1 :: u8 where "CIRCUIT_MAGIC_1 = 0x42"
definition CIRCUIT_MAGIC_2 :: u8 where "CIRCUIT_MAGIC_2 = 0x58"
definition CIRCUIT_VERSION :: u8 where "CIRCUIT_VERSION = 0x01"
definition CIRCUIT_HEADER_SIZE :: nat where "CIRCUIT_HEADER_SIZE = 12"
definition CIRCUIT_MAX_PAYLOAD :: nat where "CIRCUIT_MAX_PAYLOAD = 4096"
definition CIRCUIT_MAX_FRAME :: nat where
  "CIRCUIT_MAX_FRAME = CIRCUIT_HEADER_SIZE + CIRCUIT_MAX_PAYLOAD"

text \<open>A protocol identifier is the byte on the wire: the decoder casts any byte to the enum.\<close>

definition PROTO_AX25 :: u8 where "PROTO_AX25 = 0x01"
definition PROTO_AX25_UI :: u8 where "PROTO_AX25_UI = 0x02"
definition PROTO_LINK_AUTH :: u8 where "PROTO_LINK_AUTH = 0x03"
definition PROTO_LINK_AUTH_ACK :: u8 where "PROTO_LINK_AUTH_ACK = 0x04"
definition PROTO_FLOW_CTRL :: u8 where "PROTO_FLOW_CTRL = 0x05"
definition PROTO_TERMINAL :: u8 where "PROTO_TERMINAL = 0x10"
definition PROTO_PROXY_MAIL :: u8 where "PROTO_PROXY_MAIL = 0x80"
definition PROTO_PROXY_CHAT :: u8 where "PROTO_PROXY_CHAT = 0x81"
definition PROTO_RESERVED_APRS :: u8 where "PROTO_RESERVED_APRS = 0x20"
definition PROTO_RESERVED_NETROM :: u8 where "PROTO_RESERVED_NETROM = 0x21"

definition FLAG_NONE :: u16 where "FLAG_NONE = 0x0000"
definition FLAG_RX :: u16 where "FLAG_RX = 0x0001"
definition FLAG_TX :: u16 where "FLAG_TX = 0x0002"
definition FLAG_PATH :: u16 where "FLAG_PATH = 0x0004"

lemmas circuit_consts = CIRCUIT_MAGIC_0_def CIRCUIT_MAGIC_1_def CIRCUIT_MAGIC_2_def
  CIRCUIT_VERSION_def CIRCUIT_HEADER_SIZE_def CIRCUIT_MAX_PAYLOAD_def CIRCUIT_MAX_FRAME_def
lemmas proto_consts = PROTO_AX25_def PROTO_AX25_UI_def PROTO_LINK_AUTH_def PROTO_LINK_AUTH_ACK_def
  PROTO_FLOW_CTRL_def PROTO_TERMINAL_def PROTO_PROXY_MAIL_def PROTO_PROXY_CHAT_def
  PROTO_RESERVED_APRS_def PROTO_RESERVED_NETROM_def

definition circuit_proto_name :: "u8 \<Rightarrow> string" where
  "circuit_proto_name proto =
     (if proto = PROTO_AX25 then ''ax25''
      else if proto = PROTO_AX25_UI then ''ax25_ui''
      else if proto = PROTO_LINK_AUTH then ''link_auth''
      else if proto = PROTO_LINK_AUTH_ACK then ''link_auth_ack''
      else if proto = PROTO_FLOW_CTRL then ''flow_ctrl''
      else if proto = PROTO_TERMINAL then ''terminal''
      else if proto = PROTO_PROXY_MAIL then ''proxy_mail''
      else if proto = PROTO_PROXY_CHAT then ''proxy_chat''
      else if proto = PROTO_RESERVED_APRS then ''aprs''
      else if proto = PROTO_RESERVED_NETROM then ''netrom''
      else ''unknown'')"

section \<open>Big-endian integers\<close>

definition read_be32 :: "bytes \<Rightarrow> u32" where
  "read_be32 p = push_bit 24 (ucast (p ! 0)) OR push_bit 16 (ucast (p ! 1))
                 OR push_bit 8 (ucast (p ! 2)) OR ucast (p ! 3)"

definition read_be16 :: "bytes \<Rightarrow> u16" where
  "read_be16 p = push_bit 8 (ucast (p ! 0)) OR ucast (p ! 1)"

definition write_be32 :: "u32 \<Rightarrow> bytes" where
  "write_be32 v = [ucast (drop_bit 24 v AND 0xFF), ucast (drop_bit 16 v AND 0xFF),
                   ucast (drop_bit 8 v AND 0xFF), ucast (v AND 0xFF)]"

definition write_be16 :: "u16 \<Rightarrow> bytes" where
  "write_be16 v = [ucast (drop_bit 8 v AND 0xFF), ucast (v AND 0xFF)]"

section \<open>The decoder\<close>

type_synonym circuit_frame = "u8 \<times> u16 \<times> bytes"

record circuit_decoder =
  cd_buf :: bytes
  cd_need :: nat
  cd_have_header :: bool
  cd_proto :: u8
  cd_flags :: u16

definition circuit_decoder_init :: circuit_decoder where
  "circuit_decoder_init =
     \<lparr>cd_buf = [], cd_need = 0, cd_have_header = False, cd_proto = 0, cd_flags = 0\<rparr>"

definition circuit_deliver :: "circuit_decoder \<Rightarrow> circuit_decoder \<times> circuit_frame list" where
  "circuit_deliver d =
     (d\<lparr>cd_buf := [], cd_need := 0, cd_have_header := False\<rparr>,
      if length (cd_buf d) < CIRCUIT_HEADER_SIZE then []
      else [(cd_proto d, cd_flags d, drop CIRCUIT_HEADER_SIZE (cd_buf d))])"

definition circuit_parse_header :: "circuit_decoder \<Rightarrow> bool \<times> circuit_decoder" where
  "circuit_parse_header d =
     (let h = cd_buf d in
      if h ! 0 \<noteq> CIRCUIT_MAGIC_0 \<or> h ! 1 \<noteq> CIRCUIT_MAGIC_1 \<or> h ! 2 \<noteq> CIRCUIT_MAGIC_2
         \<or> h ! 3 \<noteq> CIRCUIT_VERSION
      then (False, d)
      else let d' = d\<lparr>cd_proto := h ! 4, cd_flags := read_be16 (drop 5 h),
                      cd_need := unat (read_be32 (drop 7 h))\<rparr>
           in (cd_need d' \<le> CIRCUIT_MAX_PAYLOAD, d'))"

definition circuit_finish :: "circuit_decoder \<Rightarrow> circuit_decoder \<times> circuit_frame list" where
  "circuit_finish d =
     (if length (cd_buf d) < CIRCUIT_HEADER_SIZE + cd_need d then (d, []) else circuit_deliver d)"

definition circuit_step ::
    "circuit_decoder \<Rightarrow> u8 \<Rightarrow> circuit_decoder \<times> circuit_frame list" where
  "circuit_step d byte =
     (let d0 = (if length (cd_buf d) \<ge> CIRCUIT_MAX_FRAME then circuit_decoder_init else d);
          d1 = d0\<lparr>cd_buf := cd_buf d0 @ [byte]\<rparr>
      in if \<not> cd_have_header d1 then
           (if length (cd_buf d1) < CIRCUIT_HEADER_SIZE then (d1, [])
            else case circuit_parse_header d1 of (ok, d2) \<Rightarrow>
              if \<not> ok then (d2\<lparr>cd_buf := tl (cd_buf d2)\<rparr>, [])
              else circuit_finish (d2\<lparr>cd_have_header := True\<rparr>))
         else circuit_finish d1)"

definition circuit_decoder_feed ::
    "circuit_decoder \<Rightarrow> bytes \<Rightarrow> circuit_decoder \<times> circuit_frame list" where
  "circuit_decoder_feed d data = run_stream circuit_step d data"

section \<open>The encoders\<close>

text \<open>The returned length and the output buffer after the call.\<close>

definition circuit_encode :: "u8 \<Rightarrow> u16 \<Rightarrow> bytes \<Rightarrow> bytes \<Rightarrow> nat \<times> bytes" where
  "circuit_encode proto flags payload out =
     (if length out < CIRCUIT_HEADER_SIZE then (0, out)
      else if length payload > CIRCUIT_MAX_PAYLOAD then (0, out)
      else if CIRCUIT_HEADER_SIZE + length payload > length out then (0, out)
      else (CIRCUIT_HEADER_SIZE + length payload,
            [CIRCUIT_MAGIC_0, CIRCUIT_MAGIC_1, CIRCUIT_MAGIC_2, CIRCUIT_VERSION, proto]
            @ write_be16 flags @ write_be32 (of_nat (length payload))
            @ [out ! 11] @ payload @ drop (CIRCUIT_HEADER_SIZE + length payload) out))"

definition circuit_encode_ax25 :: "bytes \<Rightarrow> u16 \<Rightarrow> bytes \<Rightarrow> nat \<times> bytes" where
  "circuit_encode_ax25 frame flags out = circuit_encode PROTO_AX25 (flags OR FLAG_RX) frame out"

text \<open>\<open>Some []\<close> is the returned length 0; None is a read past the digipeater array.\<close>

definition pack_path_payload :: "ax25_path \<Rightarrow> bytes \<Rightarrow> nat \<Rightarrow> bytes option" where
  "pack_path_payload path payload out_cap =
     (if 1 + length payload > out_cap then Some []
      else if 1 + AX25_ADDR_ENCODED * (2 + px_digi_count path) > out_cap then Some []
      else if px_digi_count path > length (px_digi path) then None
      else let body = of_nat (px_digi_count path)
                      # ax25_encode_address (px_dest path) False
                      @ concat (map (\<lambda>a. ax25_encode_address a False)
                                    (take (px_digi_count path) (px_digi path)))
                      @ ax25_encode_address (px_source path) True
           in if length payload > 0 then
                (if length body + length payload > out_cap then Some [] else Some (body @ payload))
              else Some body)"

definition circuit_encode_ax25_ui ::
    "ax25_path \<Rightarrow> bytes \<Rightarrow> u16 \<Rightarrow> bytes \<Rightarrow> (nat \<times> bytes) option" where
  "circuit_encode_ax25_ui path payload flags out =
     (case pack_path_payload path payload CIRCUIT_MAX_PAYLOAD of
        None \<Rightarrow> None
      | Some body \<Rightarrow>
          if body = [] \<and> length payload > 0 then Some (0, out)
          else Some (circuit_encode PROTO_AX25_UI (flags OR FLAG_PATH) body out))"

definition circuit_encode_terminal :: "bytes \<Rightarrow> bytes \<Rightarrow> nat \<times> bytes" where
  "circuit_encode_terminal data out = circuit_encode PROTO_TERMINAL FLAG_TX data out"

definition circuit_encode_link_msg :: "u8 \<Rightarrow> bytes \<Rightarrow> bytes \<Rightarrow> nat \<times> bytes" where
  "circuit_encode_link_msg proto payload out =
     (if proto \<noteq> PROTO_LINK_AUTH \<and> proto \<noteq> PROTO_LINK_AUTH_ACK then (0, out)
      else circuit_encode proto FLAG_NONE payload out)"

section \<open>Unpacking a masked UI payload\<close>

definition decode_address_field :: "bytes \<Rightarrow> ax25_address" where
  "decode_address_field in7 =
     \<lparr>ax_call = map (\<lambda>b. let ch = drop_bit 1 b AND 0x7F in if ch = 0x20 then 0 else ch)
                    (take AX25_CALL_MAX in7) @ [0],
      ax_ssid = ucast (drop_bit 1 (in7 ! 6) AND 0x0F)\<rparr>"

text \<open>
  The caller may pass a NULL path; \<^verbatim>\<open>payload_len - pos\<close> is a \<^verbatim>\<open>size_t\<close>
  and wraps.  The result is the returned length, the path after the call and the bytes copied out.
\<close>

definition size_t_minus :: "nat \<Rightarrow> nat \<Rightarrow> nat" where
  "size_t_minus a b = (if b \<le> a then a - b else a + 2 ^ 64 - b)"

definition circuit_unpack_ax25_ui ::
    "bytes \<Rightarrow> ax25_path option \<Rightarrow> nat \<Rightarrow> nat \<times> ax25_path option \<times> bytes" where
  "circuit_unpack_ax25_ui payload path ui_cap =
     (if length payload < 1 then (0, path, [])
      else let zeroed = map_option (\<lambda>_. ax25_path_zero) path; n = unat (payload ! 0) in
        if n > AX25_MAX_DIGI then (0, zeroed, [])
        else if 1 + AX25_ADDR_ENCODED * (2 + n) > length payload then (0, zeroed, [])
        else let field = (\<lambda>i. decode_address_field (take AX25_ADDR_ENCODED
                                 (drop (1 + AX25_ADDR_ENCODED * i) payload)));
                 path' = map_option (\<lambda>_. ax25_path_zero
                   \<lparr>px_dest := field 0,
                    px_digi := map (\<lambda>i. field (i + 1)) [0..<n]
                               @ drop n (px_digi ax25_path_zero),
                    px_digi_count := n,
                    px_source := field (n + 1)\<rparr>) path;
                 pos = (if path \<noteq> None then 1 + AX25_ADDR_ENCODED * (1 + n)
                        else 1 + AX25_ADDR_ENCODED * (2 + n)) + AX25_ADDR_ENCODED;
                 ui_len = size_t_minus (length payload) pos
             in if ui_len > ui_cap then (0, path', [])
                else (ui_len, path', take ui_len (drop pos payload)))"

section \<open>Lemmas on integers and headers\<close>

lemma read_write_be16: "read_be16 (write_be16 v @ rest) = v"
proof (rule bit_eqI)
  fix n assume "possible_bit TYPE(u16) n"
  then have "n < 16" by simp
  have m: "(0xFF :: u16) = mask 8" by (simp add: mask_eq_exp_minus_1)
  show "bit (read_be16 (write_be16 v @ rest)) n = bit v n"
    using \<open>n < 16\<close> by (auto simp: read_be16_def write_be16_def m bit_simps)
qed

lemma bit_u8_of_u32: "bit (ucast (ucast (x AND 0xFF) :: u8) :: u32) m \<longleftrightarrow> m < 8 \<and> bit (x :: u32) m"
proof -
  have m: "(0xFF :: u32) = mask 8" by (simp add: mask_eq_exp_minus_1)
  show ?thesis unfolding m by (auto simp: bit_simps)
qed

lemma read_write_be32: "read_be32 (write_be32 v @ rest) = v"
proof (rule bit_eqI)
  fix n assume "possible_bit TYPE(u32) n"
  then have n: "n < 32" by simp
  have eq: "read_be32 (write_be32 v @ rest)
      = push_bit 24 (ucast (ucast (drop_bit 24 v AND 0xFF) :: u8))
        OR push_bit 16 (ucast (ucast (drop_bit 16 v AND 0xFF) :: u8))
        OR push_bit 8 (ucast (ucast (drop_bit 8 v AND 0xFF) :: u8))
        OR ucast (ucast (v AND 0xFF) :: u8)"
    by (simp add: read_be32_def write_be32_def numeral_3_eq_3 numeral_2_eq_2)
  have "bit (read_be32 (write_be32 v @ rest)) n \<longleftrightarrow>
      (24 \<le> n \<and> n - 24 < 8 \<and> bit v (24 + (n - 24))) \<or> (16 \<le> n \<and> n - 16 < 8 \<and> bit v (16 + (n - 16)))
      \<or> (8 \<le> n \<and> n - 8 < 8 \<and> bit v (8 + (n - 8))) \<or> (n < 8 \<and> bit v n)"
    unfolding eq bit_or_iff bit_push_bit_iff bit_u8_of_u32 bit_drop_bit_eq comp_apply
    using n by simp
  also have "\<dots> = bit v n"
    using n by (cases "24 \<le> n"; cases "16 \<le> n"; cases "8 \<le> n") auto
  finally show "bit (read_be32 (write_be32 v @ rest)) n = bit v n" .
qed

definition circuit_header_ok :: "bytes \<Rightarrow> bool" where
  "circuit_header_ok h \<longleftrightarrow>
     h ! 0 = CIRCUIT_MAGIC_0 \<and> h ! 1 = CIRCUIT_MAGIC_1 \<and> h ! 2 = CIRCUIT_MAGIC_2
     \<and> h ! 3 = CIRCUIT_VERSION \<and> unat (read_be32 (drop 7 h)) \<le> CIRCUIT_MAX_PAYLOAD"

lemma circuit_parse_header_ok: "fst (circuit_parse_header d) = circuit_header_ok (cd_buf d)"
  by (auto simp: circuit_parse_header_def circuit_header_ok_def Let_def)

lemma circuit_parse_header_keeps:
  "cd_buf (snd (circuit_parse_header d)) = cd_buf d
   \<and> cd_have_header (snd (circuit_parse_header d)) = cd_have_header d"
  by (simp add: circuit_parse_header_def Let_def)

section \<open>Lemmas on the decoder\<close>

definition circuit_idle :: "circuit_decoder \<Rightarrow> bool" where
  "circuit_idle d \<longleftrightarrow> cd_buf d = [] \<and> \<not> cd_have_header d"

definition circuit_inv :: "circuit_decoder \<Rightarrow> bool" where
  "circuit_inv d \<longleftrightarrow>
     (if cd_have_header d
      then CIRCUIT_HEADER_SIZE \<le> length (cd_buf d)
           \<and> length (cd_buf d) < CIRCUIT_HEADER_SIZE + cd_need d \<and> cd_need d \<le> CIRCUIT_MAX_PAYLOAD
      else length (cd_buf d) < CIRCUIT_HEADER_SIZE)"

lemma circuit_inv_bound: "circuit_inv d \<Longrightarrow> length (cd_buf d) < CIRCUIT_MAX_FRAME"
  by (auto simp: circuit_inv_def circuit_consts split: if_splits)

lemma circuit_step_collect:
  "\<not> cd_have_header d \<Longrightarrow> length (cd_buf d) + 1 < CIRCUIT_HEADER_SIZE \<Longrightarrow>
   circuit_step d b = (d\<lparr>cd_buf := cd_buf d @ [b]\<rparr>, [])"
  by (simp add: circuit_step_def circuit_consts Let_def)

lemma circuit_step_bad_header:
  assumes "\<not> cd_have_header d" and "length (cd_buf d) = 11"
    and "\<not> circuit_header_ok (cd_buf d @ [b])"
  shows "\<exists>d'. circuit_step d b = (d', []) \<and> cd_buf d' = tl (cd_buf d @ [b]) \<and> \<not> cd_have_header d'"
proof -
  let ?d1 = "d\<lparr>cd_buf := cd_buf d @ [b]\<rparr>"
  obtain ok d2 where p: "circuit_parse_header ?d1 = (ok, d2)" by (cases "circuit_parse_header ?d1")
  with circuit_parse_header_ok [of ?d1] assms(3) have "\<not> ok" by simp
  with assms(1,2) p circuit_parse_header_keeps [of ?d1] show ?thesis
    by (simp add: circuit_step_def circuit_consts Let_def)
qed

lemma circuit_step_good_header:
  assumes "\<not> cd_have_header d" and "length (cd_buf d) = 11" and "circuit_header_ok (cd_buf d @ [b])"
  shows "circuit_step d b = circuit_finish
    (d\<lparr>cd_buf := cd_buf d @ [b], cd_proto := (cd_buf d @ [b]) ! 4,
       cd_flags := read_be16 (drop 5 (cd_buf d @ [b])),
       cd_need := unat (read_be32 (drop 7 (cd_buf d @ [b]))), cd_have_header := True\<rparr>)"
  using assms
  by (simp add: circuit_step_def circuit_consts circuit_parse_header_def circuit_header_ok_def Let_def)

lemma circuit_step_payload:
  "cd_have_header d \<Longrightarrow> length (cd_buf d) < CIRCUIT_MAX_FRAME \<Longrightarrow>
   circuit_step d b = circuit_finish (d\<lparr>cd_buf := cd_buf d @ [b]\<rparr>)"
  by (simp add: circuit_step_def Let_def)

lemma circuit_step_inv:
  assumes "circuit_inv d"
  shows "circuit_inv (fst (circuit_step d b))"
proof (cases "cd_have_header d")
  case True
  with circuit_inv_bound [OF assms] assms show ?thesis
    by (auto simp: circuit_step_payload circuit_finish_def circuit_deliver_def circuit_inv_def circuit_consts)
next
  case False
  show ?thesis
  proof (cases "length (cd_buf d) + 1 < CIRCUIT_HEADER_SIZE")
    case True
    with False show ?thesis by (simp add: circuit_step_collect circuit_inv_def)
  next
    case full: False
    with False assms have len: "length (cd_buf d) = 11" by (simp add: circuit_inv_def circuit_consts)
    show ?thesis
    proof (cases "circuit_header_ok (cd_buf d @ [b])")
      case True
      then show ?thesis
        using False len circuit_step_good_header [of d b]
        by (auto simp: circuit_header_ok_def circuit_finish_def circuit_deliver_def circuit_inv_def
            circuit_consts)
    next
      case bad: False
      then show ?thesis
        using circuit_step_bad_header [OF False len bad] len by (auto simp: circuit_inv_def circuit_consts)
    qed
  qed
qed

text \<open>Collecting bytes before the header is complete.\<close>

lemma circuit_run_collect:
  "\<not> cd_have_header d \<Longrightarrow> length (cd_buf d) + length bs < CIRCUIT_HEADER_SIZE \<Longrightarrow>
   run_stream circuit_step d bs = (d\<lparr>cd_buf := cd_buf d @ bs\<rparr>, [])"
  by (induction bs arbitrary: d) (auto simp: circuit_step_collect)

text \<open>Collecting the payload announced by the header.\<close>

lemma circuit_run_payload:
  "cd_have_header d \<Longrightarrow> CIRCUIT_HEADER_SIZE \<le> length (cd_buf d) \<Longrightarrow> cd_need d \<le> CIRCUIT_MAX_PAYLOAD \<Longrightarrow>
   bs \<noteq> [] \<Longrightarrow> length (cd_buf d) + length bs = CIRCUIT_HEADER_SIZE + cd_need d \<Longrightarrow>
   run_stream circuit_step d bs = circuit_deliver (d\<lparr>cd_buf := cd_buf d @ bs\<rparr>)"
proof (induction bs arbitrary: d)
  case Nil
  then show ?case by simp
next
  case (Cons b bs)
  then have max: "length (cd_buf d) < CIRCUIT_MAX_FRAME" by (simp add: circuit_consts)
  show ?case
  proof (cases "bs = []")
    case True
    with Cons.prems show ?thesis
      by (simp add: circuit_step_payload [OF Cons.prems(1) max] circuit_finish_def)
  next
    case False
    then have "length bs > 0" by simp
    with Cons.prems have st: "circuit_step d b = (d\<lparr>cd_buf := cd_buf d @ [b]\<rparr>, [])"
      by (simp add: circuit_step_payload [OF Cons.prems(1) max] circuit_finish_def del: length_greater_0_conv)
    with Cons.IH [of "d\<lparr>cd_buf := cd_buf d @ [b]\<rparr>"] Cons.prems False show ?thesis by simp
  qed
qed

text \<open>From the first eleven bytes of a frame on, in whatever state they were reached.\<close>

lemma circuit_run_frame_tail:
  assumes "\<not> cd_have_header d" and "hdr = cd_buf d @ [b]" and "length hdr = 12"
    and "circuit_header_ok hdr" and "unat (read_be32 (drop 7 hdr)) = length payload"
  shows "snd (run_stream circuit_step d (b # payload))
           = [(hdr ! 4, read_be16 (drop 5 hdr), payload)]
     \<and> circuit_idle (fst (run_stream circuit_step d (b # payload)))"
proof -
  let ?d = "d\<lparr>cd_buf := hdr, cd_proto := hdr ! 4, cd_flags := read_be16 (drop 5 hdr),
              cd_need := length payload, cd_have_header := True\<rparr>"
  have max: "length payload \<le> CIRCUIT_MAX_PAYLOAD"
    using assms(4,5) by (simp add: circuit_header_ok_def)
  have st: "circuit_step d b = circuit_finish ?d"
    using circuit_step_good_header [of d b] assms by simp
  show ?thesis
  proof (cases "payload = []")
    case True
    with st assms(3) show ?thesis
      by (simp add: circuit_finish_def circuit_deliver_def circuit_consts circuit_idle_def)
  next
    case False
    then have fin: "circuit_finish ?d = (?d, [])"
      using assms(3) by (simp add: circuit_finish_def circuit_consts)
    have "run_stream circuit_step ?d payload = circuit_deliver (?d\<lparr>cd_buf := hdr @ payload\<rparr>)"
      using circuit_run_payload [of ?d payload] False max assms(3) by (simp add: circuit_consts)
    with st fin assms(3) show ?thesis
      by (simp add: circuit_deliver_def circuit_consts circuit_idle_def)
  qed
qed

text \<open>What \<open>circuit_encode\<close> puts on the wire when it accepts the payload.\<close>

definition circuit_wire :: "u8 \<Rightarrow> u16 \<Rightarrow> bytes \<Rightarrow> u8 \<Rightarrow> bytes" where
  "circuit_wire proto flags payload stale =
     [CIRCUIT_MAGIC_0, CIRCUIT_MAGIC_1, CIRCUIT_MAGIC_2, CIRCUIT_VERSION, proto]
     @ write_be16 flags @ write_be32 (of_nat (length payload)) @ [stale] @ payload"

definition circuit_sent :: "nat \<times> bytes \<Rightarrow> bytes" where
  "circuit_sent r = take (fst r) (snd r)"

lemma circuit_wire_length [simp]: "length (circuit_wire proto flags payload stale) = 12 + length payload"
  by (simp add: circuit_wire_def write_be16_def write_be32_def)

lemma circuit_encode_sent:
  "circuit_sent (circuit_encode proto flags payload out) =
     (if length payload \<le> CIRCUIT_MAX_PAYLOAD \<and> CIRCUIT_HEADER_SIZE + length payload \<le> length out
      then circuit_wire proto flags payload (out ! 11) else [])"
proof (cases "length payload \<le> CIRCUIT_MAX_PAYLOAD
    \<and> CIRCUIT_HEADER_SIZE + length payload \<le> length out")
  case True
  then have "circuit_encode proto flags payload out
      = (12 + length payload, circuit_wire proto flags payload (out ! 11) @ drop (12 + length payload) out)"
    by (simp add: circuit_encode_def circuit_wire_def circuit_consts)
  then show ?thesis using True by (simp add: circuit_sent_def)
qed (auto simp: circuit_sent_def circuit_encode_def)

lemma circuit_wire_header:
  assumes "length payload \<le> CIRCUIT_MAX_PAYLOAD"
  shows "\<exists>pre b. circuit_wire proto flags payload stale = pre @ b # payload \<and> length pre = 11
     \<and> circuit_header_ok (pre @ [b]) \<and> unat (read_be32 (drop 7 (pre @ [b]))) = length payload
     \<and> (pre @ [b]) ! 4 = proto \<and> read_be16 (drop 5 (pre @ [b])) = flags"
proof -
  let ?pre = "[CIRCUIT_MAGIC_0, CIRCUIT_MAGIC_1, CIRCUIT_MAGIC_2, CIRCUIT_VERSION, proto]
     @ write_be16 flags @ write_be32 (of_nat (length payload))"
  have len: "length (write_be16 flags) = 2" "length (write_be32 (of_nat (length payload))) = 4"
    by (auto simp: write_be16_def write_be32_def)
  have d5: "drop 5 (?pre @ [stale]) = write_be16 flags @ write_be32 (of_nat (length payload)) @ [stale]"
    by simp
  have d7: "drop 7 (?pre @ [stale]) = write_be32 (of_nat (length payload)) @ [stale]"
    using len by simp
  have n: "unat (read_be32 (drop 7 (?pre @ [stale]))) = length payload"
    unfolding d7 read_write_be32 using assms by (simp add: unat_of_nat circuit_consts)
  have "circuit_header_ok (?pre @ [stale])"
    using n assms by (simp add: circuit_header_ok_def nth_append)
  moreover have "read_be16 (drop 5 (?pre @ [stale])) = flags"
    unfolding d5 by (rule read_write_be16)
  moreover have "(?pre @ [stale]) ! 4 = proto" by (simp add: nth_append)
  moreover have "circuit_wire proto flags payload stale = ?pre @ stale # payload"
    by (simp add: circuit_wire_def)
  moreover have "length ?pre = 11" using len by simp
  ultimately show ?thesis using n by blast
qed

lemma circuit_run_wire:
  assumes "circuit_idle d" and "length payload \<le> CIRCUIT_MAX_PAYLOAD"
  shows "snd (run_stream circuit_step d (circuit_wire proto flags payload stale))
           = [(proto, flags, payload)]
     \<and> circuit_idle (fst (run_stream circuit_step d (circuit_wire proto flags payload stale)))"
proof -
  from circuit_wire_header [OF assms(2), of proto flags stale] obtain pre b where
    w: "circuit_wire proto flags payload stale = pre @ b # payload" "length pre = 11"
    "circuit_header_ok (pre @ [b])" "unat (read_be32 (drop 7 (pre @ [b]))) = length payload"
    "(pre @ [b]) ! 4 = proto" "read_be16 (drop 5 (pre @ [b])) = flags" by blast
  let ?d = "d\<lparr>cd_buf := pre\<rparr>"
  have "run_stream circuit_step d pre = (?d, [])"
    using circuit_run_collect [of d pre] assms(1) w(2) by (simp add: circuit_idle_def circuit_consts)
  moreover have "snd (run_stream circuit_step ?d (b # payload)) = [(proto, flags, payload)]
      \<and> circuit_idle (fst (run_stream circuit_step ?d (b # payload)))"
    using circuit_run_frame_tail [of ?d "pre @ [b]" b payload] assms(1) w(2-6)
    by (simp add: circuit_idle_def del: run_stream_step)
  ultimately show ?thesis unfolding w(1) run_stream_append by simp
qed

text \<open>Hunting for a header: the decoder keeps the last eleven bytes.\<close>

lemma circuit_run_hunt:
  assumes "\<not> cd_have_header d" and "length (cd_buf d) \<le> 11"
    and "\<And>j. j + 12 \<le> length (cd_buf d @ w) \<Longrightarrow> \<not> circuit_header_ok (take 12 (drop j (cd_buf d @ w)))"
  shows "\<exists>d'. run_stream circuit_step d w = (d', []) \<and> \<not> cd_have_header d'
     \<and> cd_buf d' = drop (length (cd_buf d @ w) - 11) (cd_buf d @ w)"
  using assms
proof (induction w arbitrary: d)
  case Nil
  then show ?case by simp
next
  case (Cons b w)
  show ?case
  proof (cases "length (cd_buf d) = 11")
    case False
    then have st: "circuit_step d b = (d\<lparr>cd_buf := cd_buf d @ [b]\<rparr>, [])"
      using Cons.prems(1,2) by (simp add: circuit_step_collect circuit_consts)
    show ?thesis
      using Cons.IH [of "d\<lparr>cd_buf := cd_buf d @ [b]\<rparr>"] Cons.prems False
      by (auto simp: st)
  next
    case True
    have "\<not> circuit_header_ok (cd_buf d @ [b])"
      using Cons.prems(3) [of 0] True by simp
    from circuit_step_bad_header [OF Cons.prems(1) True this] obtain d1 where
      d1: "circuit_step d b = (d1, [])" "cd_buf d1 = tl (cd_buf d @ [b])" "\<not> cd_have_header d1" by blast
    have shift: "cd_buf d1 @ w = drop 1 (cd_buf d @ b # w)"
      using True by (cases "cd_buf d") (auto simp: d1(2))
    have len: "length (cd_buf d1 @ w) = length (cd_buf d @ b # w) - 1"
      unfolding shift by simp
    have win: "\<not> circuit_header_ok (take 12 (drop j (cd_buf d1 @ w)))"
      if "j + 12 \<le> length (cd_buf d1 @ w)" for j
      using Cons.prems(3) [of "1 + j"] that len unfolding shift drop_drop
      by (simp only: add.commute) (use True in simp)
    have "length (cd_buf d1) \<le> 11" using d1(2) True by simp
    from Cons.IH [OF d1(3) this win] obtain d' where
      d': "run_stream circuit_step d1 w = (d', [])" "\<not> cd_have_header d'"
      "cd_buf d' = drop (length (cd_buf d1 @ w) - 11) (cd_buf d1 @ w)" by blast
    have "drop (length (cd_buf d1 @ w) - 11) (cd_buf d1 @ w)
        = drop (length (cd_buf d @ b # w) - 11) (cd_buf d @ b # w)"
      unfolding len shift drop_drop using True by (simp add: add.commute)
    with d' d1(1) show ?thesis by simp
  qed
qed

lemma circuit_resync:
  assumes "\<not> cd_have_header d" and "cd_buf d = []" and "length payload \<le> CIRCUIT_MAX_PAYLOAD"
    and "\<And>j. j < length g \<Longrightarrow>
           \<not> circuit_header_ok (take 12 (drop j (g @ circuit_wire proto flags payload stale)))"
  shows "snd (run_stream circuit_step d (g @ circuit_wire proto flags payload stale))
           = [(proto, flags, payload)]
     \<and> circuit_idle (fst (run_stream circuit_step d (g @ circuit_wire proto flags payload stale)))"
proof -
  from circuit_wire_header [OF assms(3), of proto flags stale] obtain pre b where
    w: "circuit_wire proto flags payload stale = pre @ b # payload" "length pre = 11"
    "circuit_header_ok (pre @ [b])" "unat (read_be32 (drop 7 (pre @ [b]))) = length payload"
    "(pre @ [b]) ! 4 = proto" "read_be16 (drop 5 (pre @ [b])) = flags" by blast
  have win: "\<not> circuit_header_ok (take 12 (drop j (cd_buf d @ g @ pre)))"
    if "j + 12 \<le> length (cd_buf d @ g @ pre)" for j
  proof -
    have j: "j < length g" using that w(2) assms(2) by simp
    have "take 12 (drop j (g @ pre @ b # payload)) = take 12 (drop j (g @ pre))"
      using take_drop_append [of j 12 "g @ pre" "b # payload"] that assms(2) by simp
    with assms(4) [OF j] show ?thesis unfolding w(1) assms(2) by (simp only: append_Nil not_False_eq_True)
  qed
  from circuit_run_hunt [OF assms(1) _ win] assms(2) obtain d' where
    d': "run_stream circuit_step d (g @ pre) = (d', [])" "\<not> cd_have_header d'" "cd_buf d' = pre"
    using w(2) by auto
  have "g @ circuit_wire proto flags payload stale = (g @ pre) @ b # payload" by (simp add: w(1))
  moreover have "snd (run_stream circuit_step d' (b # payload)) = [(proto, flags, payload)]
      \<and> circuit_idle (fst (run_stream circuit_step d' (b # payload)))"
    using circuit_run_frame_tail [of d' "pre @ [b]" b payload] d' w(2-6)
    by (simp del: run_stream_step)
  ultimately show ?thesis
    by (simp only: run_stream_append [of _ _ "g @ pre"] d'(1) fst_conv snd_conv append_Nil simp_thms)
qed

section \<open>The framing contract\<close>

text \<open>A frame to send is (protocol, flags, payload, the output buffer it is encoded into).\<close>

definition circuit_send :: "u8 \<times> u16 \<times> bytes \<times> bytes \<Rightarrow> bytes" where
  "circuit_send = (\<lambda>(proto, flags, payload, out). circuit_sent (circuit_encode proto flags payload out))"

lemma circuit_send_some:
  "circuit_send (proto, flags, payload, out) \<noteq> [] \<Longrightarrow>
   circuit_send (proto, flags, payload, out) = circuit_wire proto flags payload (out ! 11)
   \<and> length payload \<le> CIRCUIT_MAX_PAYLOAD"
  by (auto simp: circuit_send_def circuit_encode_sent split: if_splits)

interpretation circuit_link: framed_codec circuit_step circuit_idle circuit_send
    "\<lambda>f. circuit_send f \<noteq> []" "\<lambda>(proto, flags, payload, out). (proto, flags, payload)"
proof unfold_locales
  fix d f assume "circuit_idle d" and "circuit_send f \<noteq> []"
  then show "snd (run_stream circuit_step d (circuit_send f))
        = [case f of (proto, flags, payload, out) \<Rightarrow> (proto, flags, payload)]
      \<and> circuit_idle (fst (run_stream circuit_step d (circuit_send f)))"
    using circuit_run_wire circuit_send_some by (cases f) fastforce
qed

section \<open>Lemmas on the masked UI payload\<close>

lemma decode_address_field_eq:
  "length in7 = 7 \<Longrightarrow> decode_address_field in7 = ax25_decode_address in7"
  using ax25_decode_trailing
    [of "map (\<lambda>b. let ch = drop_bit 1 b AND 0x7F in if ch = 0x20 then 0 else ch) (take AX25_CALL_MAX in7)"]
  by (simp add: decode_address_field_def ax25_decode_address_def Let_def AX25_CALL_MAX_def)

lemma take_drop_concat:
  "(\<And>x. length (f x) = n) \<Longrightarrow> i < length xs \<Longrightarrow>
   take n (drop (n * i) (concat (map f xs) @ post)) = f (xs ! i)"
proof (induction xs arbitrary: i)
  case Nil
  then show ?case by simp
next
  case (Cons x xs)
  then show ?case by (cases i) auto
qed

definition circuit_path_fields :: "ax25_path \<Rightarrow> (ax25_address \<times> bool) list" where
  "circuit_path_fields p =
     (px_dest p, False) # map (\<lambda>a. (a, False)) (take (px_digi_count p) (px_digi p)) @ [(px_source p, True)]"

lemma pack_path_payload_ok:
  assumes "ax25_path_ok p" and "1 + 7 * (2 + px_digi_count p) + length payload \<le> cap"
  shows "pack_path_payload p payload cap =
     Some (of_nat (px_digi_count p)
           # concat (map (\<lambda>(a, l). ax25_encode_address a l) (circuit_path_fields p)) @ payload)"
  using assms ax25_addresses_length [OF assms(1)]
  by (auto simp: pack_path_payload_def circuit_path_fields_def ax25_path_ok_def AX25_ADDR_ENCODED_def
      AX25_MAX_DIGI_def Let_def comp_def)

lemma circuit_unpack_packed:
  assumes ok: "ax25_path_ok p" and cap: "length payload \<le> ui_cap"
  shows "circuit_unpack_ax25_ui
       (of_nat (px_digi_count p)
        # concat (map (\<lambda>(a, l). ax25_encode_address a l) (circuit_path_fields p)) @ payload)
       (Some q) ui_cap = (length payload, Some p, payload)"
proof -
  let ?n = "px_digi_count p"
  let ?enc = "\<lambda>(a, l). ax25_encode_address a l"
  let ?fs = "circuit_path_fields p"
  let ?fields = "concat (map ?enc ?fs)"
  let ?in = "of_nat ?n # ?fields @ payload"
  have n: "?n \<le> 8" and dl: "length (px_digi p) = 8" and fl: "length ?fs = 2 + ?n"
    using ok by (auto simp: ax25_path_ok_def AX25_MAX_DIGI_def circuit_path_fields_def)
  have len: "length ?fields = 7 * (2 + ?n)"
    using ax25_addresses_length [OF ok] by (simp add: circuit_path_fields_def comp_def)
  have un: "unat (of_nat ?n :: u8) = ?n" using n by (simp add: unat_of_nat)
  have okf: "ax25_address_ok (fst (?fs ! i))" if "i < 2 + ?n" for i
  proof -
    have "\<forall>f \<in> set ?fs. ax25_address_ok (fst f)"
      using ok by (auto simp: circuit_path_fields_def ax25_path_ok_def)
    with that fl show ?thesis by simp
  qed
  have enc7: "length (?enc x) = 7" for x by (cases x) simp
  have field: "decode_address_field (take 7 (drop (1 + 7 * i) ?in)) = fst (?fs ! i)"
    if "i < 2 + ?n" for i
  proof -
    have "take 7 (drop (1 + 7 * i) ?in) = ?enc (?fs ! i)"
      using take_drop_concat [where f = ?enc and xs = ?fs and n = 7 and i = i and post = payload, OF enc7]
        that fl by simp
    then show ?thesis
      using enc7 [of "?fs ! i"] ax25_decode_encode [OF okf [OF that]]
      by (simp add: decode_address_field_eq case_prod_beta)
  qed
  have f0: "decode_address_field (take 7 (drop 1 ?in)) = px_dest p"
    using field [of 0] by (simp add: circuit_path_fields_def)
  have fsrc: "decode_address_field (take 7 (drop (1 + 7 * (?n + 1)) ?in)) = px_source p"
    using field [of "?n + 1"] n dl by (simp add: circuit_path_fields_def nth_append)
  have fdig: "map (\<lambda>i. decode_address_field (take 7 (drop (1 + 7 * (i + 1)) ?in))) [0..<?n] = take ?n (px_digi p)"
  proof (rule nth_equalityI)
    fix i assume "i < length (map (\<lambda>i. decode_address_field (take 7 (drop (1 + 7 * (i + 1)) ?in))) [0..<?n])"
    then have i: "i < ?n" by simp
    then show "map (\<lambda>i. decode_address_field (take 7 (drop (1 + 7 * (i + 1)) ?in))) [0..<?n] ! i
        = take ?n (px_digi p) ! i"
      using field [of "i + 1"] n dl by (simp add: circuit_path_fields_def nth_append)
  qed (use n dl in simp)
  have tail: "drop ?n (px_digi ax25_path_zero) = drop ?n (px_digi p)"
    using ok n by (simp add: ax25_path_ok_def ax25_path_zero_def AX25_MAX_DIGI_def)
  have "drop (Suc (length ?fields)) ?in = payload" by simp
  then have rest: "drop (1 + 7 * (1 + ?n) + 7) ?in = payload"
    unfolding len by (simp del: drop_Suc_Cons)
  have pl: "length ?in = 1 + 7 * (2 + ?n) + length payload" using len by simp
  have p: "ax25_path_zero\<lparr>px_dest := px_dest p, px_digi := take ?n (px_digi p) @ drop ?n (px_digi p),
      px_digi_count := ?n, px_source := px_source p\<rparr> = p"
    by simp
  show ?thesis
    unfolding circuit_unpack_ax25_ui_def Let_def nth_Cons_0 un pl AX25_ADDR_ENCODED_def
      AX25_MAX_DIGI_def
    using n cap f0 fsrc fdig tail rest p by (simp add: size_t_minus_def del: drop_Suc_Cons)
qed

section \<open>Properties\<close>

text \<open>
  C1. HBX round trip over a link: frames of any protocol, flags and payload that the encoder
  accepts, received in reads cut at arbitrary places, are called back in order and unchanged,
  whatever the encoder's output buffers held before.
\<close>

theorem circuit_roundtrip:
  assumes "circuit_idle d"
    and "\<forall>(proto, flags, payload, out) \<in> set fs.
           length payload \<le> CIRCUIT_MAX_PAYLOAD \<and> CIRCUIT_HEADER_SIZE + length payload \<le> length out"
    and "concat reads
           = concat (map (\<lambda>(proto, flags, payload, out). circuit_sent (circuit_encode proto flags payload out)) fs)"
  shows "snd (run_reads circuit_step d reads) = map (\<lambda>(proto, flags, payload, out). (proto, flags, payload)) fs"
proof -
  have "\<forall>f \<in> set fs. circuit_send f \<noteq> []"
    using assms(2) by (auto simp: circuit_send_def circuit_encode_sent circuit_wire_def)
  then show ?thesis
    using circuit_link.decode_reads [of d fs reads] assms(1,3) unfolding circuit_send_def by blast
qed

theorem circuit_roundtrip_witness:
  "snd (run_reads circuit_step circuit_decoder_init
      [[0x48, 0x42, 0x58, 0x01, 0x10], [0x00, 0x02, 0, 0, 0, 2], [0xAA, 0x68, 0x69]])
     = [(0x10, 2, [0x68, 0x69])]"
  using circuit_roundtrip [of circuit_decoder_init "[(0x10, 2, [0x68, 0x69], replicate 14 0xAA)]"
      "[[0x48, 0x42, 0x58, 0x01, 0x10], [0x00, 0x02, 0, 0, 0, 2], [0xAA, 0x68, 0x69]]"]
  by (simp add: circuit_idle_def circuit_decoder_init_def circuit_encode_sent circuit_wire_def
      circuit_consts write_be16_def write_be32_def)

text \<open>
  C7. Resynchronisation: whatever bytes a fresh decoder reads first, the next frame is called back
  with its payload intact and nothing else is, provided no header (magic, version and a length of
  at most 4096) starts inside the garbage; the decoder is idle again afterwards.
\<close>

theorem circuit_resynchronises:
  assumes "length payload \<le> CIRCUIT_MAX_PAYLOAD" and "CIRCUIT_HEADER_SIZE + length payload \<le> length out"
    and "\<forall>j < length g. \<not> circuit_header_ok
           (take 12 (drop j (g @ circuit_sent (circuit_encode proto flags payload out))))"
  shows "snd (circuit_decoder_feed circuit_decoder_init
           (g @ circuit_sent (circuit_encode proto flags payload out))) = [(proto, flags, payload)]
     \<and> circuit_idle (fst (circuit_decoder_feed circuit_decoder_init
           (g @ circuit_sent (circuit_encode proto flags payload out))))"
  unfolding circuit_decoder_feed_def
  using circuit_resync [of circuit_decoder_init payload g proto flags "out ! 11"] assms
  by (simp add: circuit_encode_sent circuit_decoder_init_def)

theorem circuit_resynchronises_witness:
  "snd (circuit_decoder_feed circuit_decoder_init
     ([0x48, 0x42, 0x48] @ circuit_sent (circuit_encode 0x10 2 [0x68, 0x69] (replicate 14 0))))
     = [(0x10, 2, [0x68, 0x69])]"
proof -
  have "\<forall>j < length [0x48, 0x42, 0x48 :: u8]. \<not> circuit_header_ok
      (take 12 (drop j ([0x48, 0x42, 0x48]
         @ circuit_sent (circuit_encode 0x10 2 [0x68, 0x69] (replicate 14 0)))))"
    by (auto simp: less_Suc_eq circuit_header_ok_def circuit_encode_sent circuit_wire_def circuit_consts)
  then show ?thesis
    using circuit_resynchronises [of "[0x68, 0x69]" "replicate 14 0" "[0x48, 0x42, 0x48]" "0x10" 2]
    by (simp add: circuit_consts del: append_Cons)
qed

text \<open>
  The encoder writes only what fits and leaves header byte 11 as it was: two calls with the
  same arguments and the same buffer size send frames that can differ in that byte alone, which is
  the buffer's previous content; a payload over 4096 bytes or a short buffer sends nothing and
  leaves the buffer unchanged.
\<close>

theorem circuit_encode_exact:
  "length out = length out' \<Longrightarrow>
   (length payload > CIRCUIT_MAX_PAYLOAD \<or> CIRCUIT_HEADER_SIZE + length payload > length out \<longrightarrow>
      circuit_encode proto flags payload out = (0, out))
   \<and> length (snd (circuit_encode proto flags payload out)) = length out
   \<and> circuit_sent (circuit_encode proto flags payload out)
       = (circuit_sent (circuit_encode proto flags payload out')) [11 := out ! 11]"
proof -
  assume len: "length out = length out'"
  have w: "circuit_wire proto flags payload a = (circuit_wire proto flags payload b)[11 := a]" for a b
    by (simp add: circuit_wire_def write_be16_def write_be32_def numeral_eq_Suc)
  show ?thesis
    using len w [of "out ! 11" "out' ! 11"]
    by (auto simp: circuit_encode_sent) (auto simp: circuit_encode_def circuit_consts write_be16_def write_be32_def)
qed

theorem circuit_encode_exact_witness:
  "circuit_sent (circuit_encode 0x10 2 [0x68] (replicate 13 0xEE))
     = (circuit_sent (circuit_encode 0x10 2 [0x68] (replicate 13 0)))[11 := 0xEE]"
  using circuit_encode_exact [of "replicate 13 0xEE" "replicate 13 0" "[0x68]" "0x10" 2]
  by (simp add: nth_Cons' del: list_update.simps)

text \<open>
  The decoder's buffer never fills: from a fresh decoder, after any input, it holds fewer than
  4108 bytes, so the reset at the top of the loop is never taken and no byte is written past the
  buffer; once a header is accepted, the announced payload is at most 4096 bytes and still missing.
\<close>

theorem circuit_decoder_bounded:
  "length (cd_buf (fst (circuit_decoder_feed circuit_decoder_init bs))) < CIRCUIT_MAX_FRAME
   \<and> circuit_inv (fst (circuit_decoder_feed circuit_decoder_init bs))"
proof -
  have "circuit_inv circuit_decoder_init"
    by (simp add: circuit_inv_def circuit_decoder_init_def circuit_consts)
  then have "circuit_inv (fst (circuit_decoder_feed circuit_decoder_init bs))"
    unfolding circuit_decoder_feed_def
    by (intro run_stream_inv [where P = circuit_inv] circuit_step_inv)
  then show ?thesis using circuit_inv_bound by blast
qed

text \<open>
  C14. Masked UI frames end to end: a path of up to eight digipeaters and a payload packed by
  \<open>circuit_encode_ax25_ui\<close>, sent and received in reads cut anywhere, arrives as one frame
  that carries the path flag and that \<open>circuit_unpack_ax25_ui\<close> opens to the same path and the
  same payload.
\<close>

theorem circuit_ax25_ui_end_to_end:
  assumes "ax25_path_ok p" and "1 + 7 * (2 + px_digi_count p) + length payload \<le> CIRCUIT_MAX_PAYLOAD"
    and "CIRCUIT_HEADER_SIZE + CIRCUIT_MAX_PAYLOAD \<le> length out"
    and "circuit_idle d" and "length payload \<le> ui_cap"
  shows "\<exists>r body. circuit_encode_ax25_ui p payload flags out = Some r
     \<and> (\<forall>reads. concat reads = circuit_sent r \<longrightarrow>
           snd (run_reads circuit_step d reads) = [(PROTO_AX25_UI, flags OR FLAG_PATH, body)])
     \<and> circuit_unpack_ax25_ui body (Some q) ui_cap = (length payload, Some p, payload)"
proof -
  let ?body = "of_nat (px_digi_count p)
     # concat (map (\<lambda>(a, l). ax25_encode_address a l) (circuit_path_fields p)) @ payload"
  let ?f = "(PROTO_AX25_UI, flags OR FLAG_PATH, ?body, out)"
  have pack: "pack_path_payload p payload CIRCUIT_MAX_PAYLOAD = Some ?body"
    by (rule pack_path_payload_ok [OF assms(1,2)])
  have "length ?body = 1 + 7 * (2 + px_digi_count p) + length payload"
    using ax25_addresses_length [OF assms(1)] by (simp add: circuit_path_fields_def comp_def)
  with assms(2,3) have some: "circuit_send ?f \<noteq> []"
    by (auto simp: circuit_send_def circuit_encode_sent circuit_wire_def)
  have "snd (run_reads circuit_step d reads) = [(PROTO_AX25_UI, flags OR FLAG_PATH, ?body)]"
    if "concat reads = circuit_sent (circuit_encode PROTO_AX25_UI (flags OR FLAG_PATH) ?body out)" for reads
    using circuit_link.decode_reads [OF assms(4), of "[?f]" reads] some that
    by (simp add: circuit_send_def)
  moreover have "circuit_encode_ax25_ui p payload flags out
      = Some (circuit_encode PROTO_AX25_UI (flags OR FLAG_PATH) ?body out)"
    using pack by (simp add: circuit_encode_ax25_ui_def)
  ultimately show ?thesis
    using circuit_unpack_packed [OF assms(1,5), of q] by blast
qed

theorem circuit_ax25_ui_end_to_end_witness:
  "\<exists>r body. circuit_encode_ax25_ui ax25_example_path [0x48, 0x69] 1 (replicate 4108 0) = Some r
     \<and> circuit_unpack_ax25_ui body (Some ax25_path_zero) 8 = (2, Some ax25_example_path, [0x48, 0x69])"
proof -
  have "px_digi_count ax25_example_path = 1" by (simp add: ax25_example_path_def)
  then show ?thesis
    using circuit_ax25_ui_end_to_end [OF ax25_example_path_ok, of "[0x48, 0x69]" "replicate 4108 0"
        circuit_decoder_init 8 1 ax25_path_zero]
    by (auto simp: circuit_consts circuit_idle_def circuit_decoder_init_def numeral_2_eq_2)
qed

text \<open>
  Without a path argument the unpacker skips one address too many: on a payload it would open
  with a path, it loses the first seven bytes of the UI data, and returns 0 when there are fewer
  than seven and the wrapped length exceeds the caller's buffer.
\<close>

theorem circuit_unpack_null_path_skips:
  assumes "circuit_unpack_ax25_ui payload (Some q) ui_cap = (n, Some p, ui)" and "0 < n"
    and "ui_cap < 2 ^ 32"
  shows "circuit_unpack_ax25_ui payload None ui_cap
     = (if 7 \<le> n then (n - 7, None, drop 7 ui) else (0, None, []))"
proof -
  let ?pos = "1 + 7 * (2 + unat (payload ! 0))"
  have len: "?pos \<le> length payload" and n: "n = length payload - ?pos" and cap: "n \<le> ui_cap"
    and ui: "ui = drop ?pos payload"
    using assms(1,2)
    by (auto simp: circuit_unpack_ax25_ui_def Let_def ax25_consts size_t_minus_def split: if_splits)
  have small: "\<not> unat (payload ! 0) > AX25_MAX_DIGI"
    using assms(1,2) by (auto simp: circuit_unpack_ax25_ui_def Let_def split: if_splits)
  have dr: "drop 7 ui = drop (?pos + 7) payload" unfolding ui drop_drop by (simp add: add.commute)
  have ne: "\<not> length payload < 1" using len by linarith
  show ?thesis
  proof (cases "7 \<le> n")
    case True
    then have "size_t_minus (length payload) (?pos + 7) = n - 7"
      using n len by (simp add: size_t_minus_def)
    with True small len cap ne dr n show ?thesis
      by (simp add: circuit_unpack_ax25_ui_def Let_def AX25_ADDR_ENCODED_def)
  next
    case False
    then have "size_t_minus (length payload) (?pos + 7) > ui_cap"
      using n len assms(3) small by (simp add: size_t_minus_def AX25_MAX_DIGI_def) arith
    with False small len ne show ?thesis
      by (simp add: circuit_unpack_ax25_ui_def Let_def AX25_ADDR_ENCODED_def)
  qed
qed

theorem circuit_unpack_null_path_skips_witness:
  "\<exists>body. circuit_unpack_ax25_ui body (Some ax25_path_zero) 16 = (2, Some ax25_example_path, [0x48, 0x69])
     \<and> circuit_unpack_ax25_ui body None 16 = (0, None, [])"
proof -
  have r: "circuit_unpack_ax25_ui
      (of_nat (px_digi_count ax25_example_path)
       # concat (map (\<lambda>(a, l). ax25_encode_address a l) (circuit_path_fields ax25_example_path)) @ [0x48, 0x69])
      (Some ax25_path_zero) 16 = (2, Some ax25_example_path, [0x48, 0x69])"
    using circuit_unpack_packed [OF ax25_example_path_ok, of "[0x48, 0x69]" 16 ax25_path_zero]
    by (simp add: numeral_2_eq_2)
  show ?thesis
    by (intro exI conjI, rule r) (use circuit_unpack_null_path_skips [OF r] in simp)
qed

end
