(* ===== verification/Util.thy ===== *)
theory Util imports Prelude begin

text \<open>
  Strings, boolean tokens and paths: \<^verbatim>\<open>src/core/util.c\<close> (the time formats are in
  \<^verbatim>\<open>Time_Format\<close>).  An output buffer is the string it holds; a function that fills one
  takes the old content and returns the new.  The environment's \<^verbatim>\<open>HOME\<close> and the install
  root are arguments.
\<close>

section \<open>Boolean tokens\<close>

text \<open>The two tokens compared by the C loop over \<^verbatim>\<open>tolower\<close>.\<close>

definition bool_token_ieq :: "string \<Rightarrow> string \<Rightarrow> bool" where
  "bool_token_ieq value token = str_ieq value token"

definition bool_match_any :: "string option \<Rightarrow> string list \<Rightarrow> bool" where
  "bool_match_any value tokens =
     (case value of None \<Rightarrow> False
      | Some v \<Rightarrow> if v = [] then False else list_ex (bool_token_ieq v) tokens)"

definition hybbx_bool_true_tokens :: "string list" where
  "hybbx_bool_true_tokens = [''yes'', ''true'', ''enable'', ''enabled'', ''on'', ''1'']"

definition hybbx_bool_false_tokens :: "string list" where
  "hybbx_bool_false_tokens = [''no'', ''false'', ''disable'', ''disabled'', ''off'', ''0'']"

definition hybbx_bool_is_true :: "string option \<Rightarrow> bool" where
  "hybbx_bool_is_true value = bool_match_any value hybbx_bool_true_tokens"

definition hybbx_bool_is_false :: "string option \<Rightarrow> bool" where
  "hybbx_bool_is_false value = bool_match_any value hybbx_bool_false_tokens"

definition hybbx_parse_bool :: "string option \<Rightarrow> int \<Rightarrow> int" where
  "hybbx_parse_bool value default_value =
     (if value = None \<or> value = Some [] then default_value
      else if hybbx_bool_is_true value then 1
      else if hybbx_bool_is_false value then 0
      else default_value)"

definition hybbx_bool_to_string :: "int \<Rightarrow> string" where
  "hybbx_bool_to_string value = (if value \<noteq> 0 then ''yes'' else ''no'')"

fun hybbx_result_name :: "hybbx_result \<Rightarrow> string" where
  "hybbx_result_name HYBBX_OK = ''ok''"
| "hybbx_result_name HYBBX_LOCAL_CMD = ''local_cmd''"
| "hybbx_result_name HYBBX_SESSION_END = ''session_end''"
| "hybbx_result_name HYBBX_ERR_INVALID = ''invalid''"
| "hybbx_result_name HYBBX_ERR_NOMEM = ''nomem''"
| "hybbx_result_name HYBBX_ERR_NOT_FOUND = ''not_found''"
| "hybbx_result_name HYBBX_ERR_IO = ''io''"
| "hybbx_result_name HYBBX_ERR_UNSUPPORTED = ''unsupported''"
| "hybbx_result_name HYBBX_ERR_BUSY = ''busy''"
| "hybbx_result_name HYBBX_ERR_DENIED = ''denied''"

section \<open>Strings and paths\<close>

definition HYBBX_PATH_MAX :: nat where "HYBBX_PATH_MAX = 512"
definition HYBBX_ALLOC_MAX :: nat where "HYBBX_ALLOC_MAX = 256 * 1024"
definition HYBBX_DIR_DATA :: string where "HYBBX_DIR_DATA = ''data''"

text \<open>The returned count and the destination after the call; the destination is not NULL.\<close>

definition hybbx_strlcpy :: "string \<Rightarrow> string option \<Rightarrow> nat \<Rightarrow> nat \<times> string" where
  "hybbx_strlcpy dst src dst_size =
     (if dst_size = 0 then ((case src of None \<Rightarrow> 0 | Some s \<Rightarrow> length s), dst)
      else case src of
             None \<Rightarrow> (0, [])
           | Some s \<Rightarrow> if length s \<ge> dst_size then (dst_size - 1, take (dst_size - 1) s)
                       else (length s, s))"

text \<open>
  The callers' idiom \<^verbatim>\<open>if (hybbx_strlcpy(out, s, out_len) >= out_len) return ERR_INVALID;
  return OK;\<close>.
\<close>

definition strlcpy_checked :: "string \<Rightarrow> nat \<Rightarrow> string \<Rightarrow> hybbx_result \<times> string" where
  "strlcpy_checked out out_len s =
     (let (n, out') = hybbx_strlcpy out (Some s) out_len
      in (if n \<ge> out_len then HYBBX_ERR_INVALID else HYBBX_OK, out'))"

definition hybbx_default_user_data_path :: "string \<Rightarrow> nat \<Rightarrow> hybbx_result \<times> string" where
  "hybbx_default_user_data_path out out_len =
     (if out_len = 0 then (HYBBX_ERR_INVALID, out) else strlcpy_checked out out_len HYBBX_DIR_DATA)"

definition hybbx_install_root_set :: "string option \<Rightarrow> string" where
  "hybbx_install_root_set root =
     (if root = None \<or> root = Some [] then [] else snd (hybbx_strlcpy [] root HYBBX_PATH_MAX))"

definition hybbx_install_root_get :: "string \<Rightarrow> string option" where
  "hybbx_install_root_get g_install_root = (if g_install_root \<noteq> [] then Some g_install_root else None)"

definition path_is_absolute :: "string \<Rightarrow> bool" where
  "path_is_absolute path \<longleftrightarrow> path \<noteq> [] \<and> hd path = CHR ''/''"

definition hybbx_size_ok :: "nat \<Rightarrow> bool" where
  "hybbx_size_ok len \<longleftrightarrow> len > 0 \<and> len \<le> HYBBX_ALLOC_MAX"

definition path_component_valid :: "string \<Rightarrow> bool" where
  "path_component_valid name \<longleftrightarrow>
     \<not> (name = [] \<or> name = ''.'' \<or> name = ''..''
        \<or> CHR ''/'' \<in> set name \<or> CHR 0x5C \<in> set name)"

definition hybbx_path_join :: "string \<Rightarrow> nat \<Rightarrow> string option \<Rightarrow> string option \<Rightarrow> hybbx_result \<times> string" where
  "hybbx_path_join out out_len base name =
     (case (base, name) of
        (Some b, Some n) \<Rightarrow>
          if out_len = 0 \<or> \<not> path_component_valid n then (HYBBX_ERR_INVALID, out)
          else if \<not> hybbx_size_ok (length b + 1) \<or> \<not> hybbx_size_ok (length n + 1)
          then (HYBBX_ERR_INVALID, out)
          else let need_slash = length b > 0 \<and> b ! (length b - 1) \<noteq> CHR ''/'';
                   text = b @ (if need_slash then ''/'' else '''') @ n
               in (if length text \<ge> out_len then HYBBX_ERR_INVALID else HYBBX_OK,
                   c_snprintf out_len text)
      | _ \<Rightarrow> (HYBBX_ERR_INVALID, out))"

definition hybbx_path_expand :: "string option \<Rightarrow> string \<Rightarrow> nat \<Rightarrow> string option \<Rightarrow> hybbx_result \<times> string" where
  "hybbx_path_expand home out out_len path =
     (if out_len = 0 then (HYBBX_ERR_INVALID, out)
      else case path of None \<Rightarrow> hybbx_default_user_data_path out out_len
      | Some p \<Rightarrow>
          if p = [] then hybbx_default_user_data_path out out_len
          else if hd p \<noteq> CHR ''~'' then strlcpy_checked out out_len p
          else if length p > 1 \<and> p ! 1 \<noteq> CHR ''/'' then (HYBBX_ERR_INVALID, out)
          else if home = None \<or> home = Some [] then
            (if length p = 1 then hybbx_default_user_data_path out out_len
             else strlcpy_checked out out_len (drop 2 p))
          else if length p = 1 then strlcpy_checked out out_len (the home)
          else (if length (the home @ drop 1 p) \<ge> out_len then HYBBX_ERR_INVALID else HYBBX_OK,
                c_snprintf out_len (the home @ drop 1 p)))"

definition hybbx_path_resolve ::
    "string option \<Rightarrow> string \<Rightarrow> string \<Rightarrow> nat \<Rightarrow> string option \<Rightarrow> hybbx_result \<times> string" where
  "hybbx_path_resolve home g_install_root out out_len path =
     (if out_len = 0 then (HYBBX_ERR_INVALID, out)
      else case hybbx_path_expand home [] HYBBX_PATH_MAX path of
        (rc, expanded) \<Rightarrow>
          if rc \<noteq> HYBBX_OK then (rc, out)
          else if path_is_absolute expanded then strlcpy_checked out out_len expanded
          else case hybbx_install_root_get g_install_root of
                 Some root \<Rightarrow> hybbx_path_join out out_len (Some root) (Some expanded)
               | None \<Rightarrow> strlcpy_checked out out_len expanded)"

text \<open>What precedes the last slash, when there is one (\<^verbatim>\<open>strrchr\<close>).\<close>

definition before_last_slash :: "string \<Rightarrow> string option" where
  "before_last_slash path =
     (case dropWhile (\<lambda>c. c \<noteq> CHR ''/'') (rev path) of [] \<Rightarrow> None | c # cs \<Rightarrow> Some (rev cs))"

definition hybbx_path_dirname :: "string option \<Rightarrow> string \<Rightarrow> nat \<Rightarrow> hybbx_result \<times> string" where
  "hybbx_path_dirname path out out_len =
     (if path = None \<or> out_len = 0 then (HYBBX_ERR_INVALID, out)
      else case hybbx_strlcpy [] path HYBBX_PATH_MAX of
        (n, copy) \<Rightarrow>
          if n \<ge> HYBBX_PATH_MAX then (HYBBX_ERR_INVALID, out)
          else case before_last_slash copy of
                 None \<Rightarrow> strlcpy_checked out out_len ''.''
               | Some dir \<Rightarrow> if dir = [] then strlcpy_checked out out_len ''/''
                             else strlcpy_checked out out_len dir)"

text \<open>\<^verbatim>\<open>uname\<close> is a parameter: the reported system name, or None on failure.\<close>

definition hybbx_platform_os_name :: "string option \<Rightarrow> string \<Rightarrow> nat \<Rightarrow> hybbx_result \<times> string" where
  "hybbx_platform_os_name sysname out out_len =
     (if out_len = 0 then (HYBBX_ERR_INVALID, out)
      else case sysname of
             None \<Rightarrow> (HYBBX_ERR_IO, out)
           | Some name \<Rightarrow>
               if name = [] then (HYBBX_ERR_IO, out)
               else strlcpy_checked out out_len (if name = ''Darwin'' then ''MacOS'' else name))"

section \<open>Lemmas\<close>

lemma str_ieq_refl [simp]: "str_ieq s s"
  by (simp add: str_ieq_iff)

lemma str_ieq_Nil [simp]: "str_ieq s [] = (s = [])" "str_ieq [] s = (s = [])"
  by (auto simp: str_ieq_iff)

lemma hybbx_strlcpy_value:
  "0 < n \<Longrightarrow> hybbx_strlcpy dst (Some s) n = (min (n - 1) (length s), take (n - 1) s)"
  by (auto simp: hybbx_strlcpy_def)

lemma strlcpy_checked_OK: "0 < n \<Longrightarrow> strlcpy_checked out n s = (HYBBX_OK, take (n - 1) s)"
  by (auto simp: strlcpy_checked_def hybbx_strlcpy_value)

lemma strlcpy_fits: "length s < n \<Longrightarrow> snd (hybbx_strlcpy dst (Some s) n) = s"
  by (simp add: hybbx_strlcpy_def)

lemma bool_tokens_lower:
  "\<forall>t \<in> set hybbx_bool_true_tokens. map c_tolower t = t"
  "\<forall>t \<in> set hybbx_bool_false_tokens. map c_tolower t = t"
  "set hybbx_bool_true_tokens \<inter> set hybbx_bool_false_tokens = {}"
  "[] \<notin> set hybbx_bool_true_tokens" "[] \<notin> set hybbx_bool_false_tokens"
  by (simp_all add: hybbx_bool_true_tokens_def hybbx_bool_false_tokens_def c_tolower_def c_isupper_def)

lemma bool_match_any_iff:
  assumes "\<forall>t \<in> set ts. map c_tolower t = t" and "[] \<notin> set ts"
  shows "bool_match_any (Some v) ts \<longleftrightarrow> map c_tolower v \<in> set ts"
  using assms
  by (auto simp: bool_match_any_def bool_token_ieq_def list_ex_iff str_ieq_iff)

lemmas hybbx_bool_iff =
  bool_match_any_iff [OF bool_tokens_lower(1,4), folded hybbx_bool_is_true_def]
  bool_match_any_iff [OF bool_tokens_lower(2,5), folded hybbx_bool_is_false_def]

lemma before_last_slash_None: "before_last_slash p = None \<longleftrightarrow> CHR ''/'' \<notin> set p"
proof -
  have "dropWhile (\<lambda>c. c \<noteq> CHR ''/'') (rev p) = [] \<longleftrightarrow> CHR ''/'' \<notin> set p"
    by (auto simp: dropWhile_eq_Nil_conv)
  then show ?thesis
    unfolding before_last_slash_def
    by (cases "dropWhile (\<lambda>c. c \<noteq> CHR ''/'') (rev p)") (simp_all del: dropWhile_eq_Nil_conv)
qed

lemma before_last_slash_append:
  "CHR ''/'' \<notin> set name \<Longrightarrow> before_last_slash (dir @ CHR ''/'' # name) = Some dir"
  by (simp add: before_last_slash_def dropWhile_append)

text \<open>The non-empty components between slashes.\<close>

definition path_components :: "string \<Rightarrow> string list" where
  "path_components p = List.filter (\<lambda>w. w \<noteq> []) (split_on (CHR ''/'') p)"

lemma path_components_slash:
  "path_components (a @ CHR ''/'' # b) = path_components a @ path_components b"
  by (simp add: path_components_def split_on_append)

lemma path_components_name: "CHR ''/'' \<notin> set n \<Longrightarrow> n \<noteq> [] \<Longrightarrow> path_components n = [n]"
  by (simp add: path_components_def split_on_none)

lemma path_components_Nil [simp]: "path_components [] = []"
  by (simp add: path_components_def)

lemma path_components_ends_slash:
  "base \<noteq> [] \<Longrightarrow> base ! (length base - 1) = CHR ''/'' \<Longrightarrow>
   \<exists>b. base = b @ ''/'' \<and> path_components base = path_components b"
proof (intro exI conjI)
  assume "base \<noteq> []" "base ! (length base - 1) = CHR ''/''"
  then have "List.last base = CHR ''/''" by (simp add: last_conv_nth)
  with \<open>base \<noteq> []\<close> show b: "base = butlast base @ ''/''"
    using append_butlast_last_id [of base] by simp
  show "path_components base = path_components (butlast base)"
    by (subst b) (simp add: path_components_slash)
qed

lemma path_join_OK:
  assumes "hybbx_path_join out out_len (Some base) (Some name) = (HYBBX_OK, p)"
  shows "\<exists>dir. (p = dir @ CHR ''/'' # name \<or> base = [] \<and> p = name) \<and> (dir = base \<or> dir @ ''/'' = base)
     \<and> path_components p = path_components base @ [name] \<and> length p < out_len
     \<and> path_component_valid name \<and> path_components dir = path_components base"
proof -
  have name: "CHR ''/'' \<notin> set name" "name \<noteq> []" and v: "path_component_valid name"
    using assms by (auto simp: hybbx_path_join_def path_component_valid_def split: if_splits)
  have p: "p = base @ (if base \<noteq> [] \<and> base ! (length base - 1) \<noteq> CHR ''/'' then ''/'' else []) @ name"
    and len: "length p < out_len"
    using assms by (auto simp: hybbx_path_join_def c_snprintf_def Let_def split: if_splits)
  consider "base = []" | "base \<noteq> []" "base ! (length base - 1) \<noteq> CHR ''/''"
    | "base \<noteq> []" "base ! (length base - 1) = CHR ''/''" by blast
  then show ?thesis
  proof cases
    case 1 with p len v name show ?thesis by (intro exI [of _ "[]"]) (simp add: path_components_name)
  next
    case 2 with p len v name show ?thesis
      by (intro exI [of _ base]) (simp add: path_components_slash path_components_name)
  next
    case 3
    from path_components_ends_slash [OF 3] obtain b where
      "base = b @ ''/''" "path_components base = path_components b" by blast
    with 3 p len v name show ?thesis
      by (intro exI [of _ b]) (simp add: path_components_slash path_components_name)
  qed
qed

section \<open>Properties\<close>

text \<open>
  Joining paths stays inside the base: when the call succeeds, the result's components are the
  base's followed by the name, the name is neither dot nor dot-dot nor contains a slash or a
  backslash, the result fits the buffer, and the parent directory that \<open>hybbx_path_dirname\<close>
  computes from it is a path with the base's components.
\<close>

theorem hybbx_path_join_confined:
  assumes "hybbx_path_join out out_len (Some base) (Some name) = (HYBBX_OK, p)"
    and "base \<noteq> []" and "length p < HYBBX_PATH_MAX" and "length p < cap"
  shows "path_components p = path_components base @ [name] \<and> length p < out_len
     \<and> name \<noteq> ''.'' \<and> name \<noteq> ''..'' \<and> CHR ''/'' \<notin> set name \<and> CHR 0x5C \<notin> set name
     \<and> (\<exists>dir. hybbx_path_dirname (Some p) out' cap = (HYBBX_OK, dir)
              \<and> path_components dir = path_components base)"
proof -
  from path_join_OK [OF assms(1)] assms(2) obtain dir where
    dir: "p = dir @ CHR ''/'' # name" "path_components p = path_components base @ [name]"
      "length p < out_len" "path_component_valid name" "path_components dir = path_components base"
    by blast
  have name: "CHR ''/'' \<notin> set name" using dir(4) by (simp add: path_component_valid_def)
  have "1 < cap" using assms(4) dir(1,4) by (cases name) (auto simp: path_component_valid_def)
  have "hybbx_strlcpy [] (Some p) HYBBX_PATH_MAX = (length p, p)"
    using assms(3) by (simp add: hybbx_strlcpy_def)
  then have "hybbx_path_dirname (Some p) out' cap = (HYBBX_OK, if dir = [] then ''/'' else dir)"
    using assms(3,4) before_last_slash_append [OF name, of dir] dir(1) \<open>1 < cap\<close>
    by (simp add: hybbx_path_dirname_def strlcpy_checked_OK)
  moreover have "path_components ''/'' = []" by code_simp
  ultimately show ?thesis using dir name by (auto simp: path_component_valid_def)
qed

theorem hybbx_path_join_confined_witness:
  "path_components ''/srv/bbx/log'' = [''srv'', ''bbx'', ''log'']"
proof -
  have "hybbx_path_join [] 64 (Some ''/srv/bbx'') (Some ''log'') = (HYBBX_OK, ''/srv/bbx/log'')"
    by (simp add: hybbx_path_join_def path_component_valid_def hybbx_size_ok_def
        HYBBX_ALLOC_MAX_def c_snprintf_def Let_def)
  moreover have "path_components ''/srv/bbx'' = [''srv'', ''bbx'']" by code_simp
  ultimately show ?thesis
    using hybbx_path_join_confined [of "[]" 64 "''/srv/bbx''" "''log''" "''/srv/bbx/log''" 64 "[]"]
    by (simp add: HYBBX_PATH_MAX_def)
qed

text \<open>
  A path that does not fit is cut, not refused: \<open>hybbx_strlcpy\<close> returns what it copied, so
  the callers' test for truncation never holds; expanding or resolving an absolute path of any
  length succeeds with its first bytes.
\<close>

theorem hybbx_path_expand_truncates:
  assumes "0 < out_len" and "out_len \<le> HYBBX_PATH_MAX" and "path_is_absolute path"
  shows "hybbx_path_expand home out out_len (Some path) = (HYBBX_OK, take (out_len - 1) path)
     \<and> (1 < out_len \<longrightarrow>
         hybbx_path_resolve home root out out_len (Some path) = (HYBBX_OK, take (out_len - 1) path))"
proof -
  have p: "path \<noteq> []" "hd path = CHR ''/''" using assms(3) by (auto simp: path_is_absolute_def)
  have e: "hybbx_path_expand home out n (Some path) = (HYBBX_OK, take (n - 1) path)" if "0 < n" for out n
    using that p by (simp add: hybbx_path_expand_def strlcpy_checked_OK)
  have "path_is_absolute (take (HYBBX_PATH_MAX - 1) path)"
    using p by (simp add: path_is_absolute_def HYBBX_PATH_MAX_def hd_take)
  moreover have "take (out_len - 1) (take (HYBBX_PATH_MAX - 1) path) = take (out_len - 1) path"
    using assms(2) by (simp add: min_def)
  ultimately have "hybbx_path_resolve home root out out_len (Some path) = (HYBBX_OK, take (out_len - 1) path)"
    using assms(1,2) e [of HYBBX_PATH_MAX "[]"] by (simp add: hybbx_path_resolve_def strlcpy_checked_OK)
  with e assms(1) show ?thesis by blast
qed

theorem hybbx_path_expand_truncates_witness:
  "hybbx_path_resolve None [] [] 8 (Some ''/srv/bbx/data'') = (HYBBX_OK, ''/srv/bb'')"
  using hybbx_path_expand_truncates [of 8 "''/srv/bbx/data''" None "[]" "[]"]
  by (simp add: HYBBX_PATH_MAX_def path_is_absolute_def)

text \<open>
  A relative path of several components resolves when no install root is set and is refused
  when one is, because the whole path is then joined as one component.
\<close>

theorem hybbx_path_resolve_relative:
  assumes "path = dir @ CHR ''/'' # name" and "dir \<noteq> []" and "hd dir \<noteq> CHR ''/''" and "hd dir \<noteq> CHR ''~''"
    and "length path < out_len" and "out_len \<le> HYBBX_PATH_MAX" and "root \<noteq> []"
  shows "hybbx_path_resolve home [] out out_len (Some path) = (HYBBX_OK, path)
     \<and> hybbx_path_resolve home root out out_len (Some path) = (HYBBX_ERR_INVALID, out)"
proof -
  have p: "path \<noteq> []" "hd path \<noteq> CHR ''/''" "hd path \<noteq> CHR ''~''"
    and sl: "CHR ''/'' \<in> set path" using assms(1-4) by auto
  have "hybbx_path_expand home [] HYBBX_PATH_MAX (Some path) = (HYBBX_OK, path)"
    using p assms(5,6) by (simp add: hybbx_path_expand_def strlcpy_checked_OK)
  moreover have "\<not> path_is_absolute path" using p by (simp add: path_is_absolute_def)
  moreover have "\<not> path_component_valid path" using sl by (simp add: path_component_valid_def)
  ultimately show ?thesis
    using assms(5,7)
    by (simp add: hybbx_path_resolve_def hybbx_install_root_get_def hybbx_path_join_def strlcpy_checked_OK)
qed

theorem hybbx_path_resolve_relative_witness:
  "hybbx_path_resolve None ''/srv/bbx'' [] 64 (Some ''data/users'') = (HYBBX_ERR_INVALID, [])"
  using hybbx_path_resolve_relative [of "''data/users''" "''data''" "''users''" 64 "''/srv/bbx''" None "[]"]
  by (simp add: HYBBX_PATH_MAX_def)

text \<open>
  Boolean values: a value is read as 1 exactly when its lower-case form is one of the six true
  tokens, as 0 exactly when it is one of the six false tokens, and otherwise as the default.
\<close>

theorem hybbx_parse_bool_exact:
  "hybbx_parse_bool (Some v) d =
     (if map c_tolower v \<in> {''yes'', ''true'', ''enable'', ''enabled'', ''on'', ''1''} then 1
      else if map c_tolower v \<in> {''no'', ''false'', ''disable'', ''disabled'', ''off'', ''0''} then 0
      else d)
   \<and> hybbx_parse_bool None d = d
   \<and> hybbx_parse_bool (Some (hybbx_bool_to_string b)) d = (if b \<noteq> 0 then 1 else 0)"
proof -
  have t: "set hybbx_bool_true_tokens = {''yes'', ''true'', ''enable'', ''enabled'', ''on'', ''1''}"
    and f: "set hybbx_bool_false_tokens = {''no'', ''false'', ''disable'', ''disabled'', ''off'', ''0''}"
    by (auto simp: hybbx_bool_true_tokens_def hybbx_bool_false_tokens_def)
  have exact: "hybbx_parse_bool (Some v) d =
      (if map c_tolower v \<in> set hybbx_bool_true_tokens then 1
       else if map c_tolower v \<in> set hybbx_bool_false_tokens then 0 else d)" for v
    using bool_tokens_lower(4,5) by (auto simp: hybbx_parse_bool_def hybbx_bool_iff)
  have "map c_tolower ''yes'' = ''yes''" "map c_tolower ''no'' = ''no''"
    by (simp_all add: c_tolower_def c_isupper_def)
  then show ?thesis
    unfolding exact t f by (simp add: hybbx_parse_bool_def hybbx_bool_to_string_def)
qed

end
