(* ===== verification/Config.thy ===== *)
theory Config imports Util begin

text \<open>
  The INI store: \<^verbatim>\<open>src/core/config.c\<close> and \<^verbatim>\<open>include/hybbx/config.h\<close>.  A
  configuration is the list of its entries with the number of entry slots the array has on the
  heap.  Memory requests are answered by an oracle \<open>mal\<close>, the answer to the k-th request, and the
  functions that allocate thread the number of requests made.  A file is its text.
\<close>

section \<open>Data\<close>

definition CONFIG_LINE_MAX :: nat where "CONFIG_LINE_MAX = 512"
definition CONFIG_SECTION_MAX :: nat where "CONFIG_SECTION_MAX = 128"
definition CONFIG_KEY_MAX :: nat where "CONFIG_KEY_MAX = 128"
definition CONFIG_VALUE_MAX :: nat where "CONFIG_VALUE_MAX = 256"
definition CONFIG_INITIAL_CAP :: nat where "CONFIG_INITIAL_CAP = 32"
definition INSTANCE_SEP :: char where "INSTANCE_SEP = CHR 0x1E"

lemmas config_consts = CONFIG_LINE_MAX_def CONFIG_SECTION_MAX_def CONFIG_KEY_MAX_def
  CONFIG_VALUE_MAX_def CONFIG_INITIAL_CAP_def

record config_entry =
  ce_section :: string
  ce_key :: string
  ce_value :: string

record config =
  cf_entries :: "config_entry list"
  cf_slots :: nat

definition config_empty :: config where "config_empty = \<lparr>cf_entries = [], cf_slots = 0\<rparr>"

type_synonym mal = "nat \<Rightarrow> bool"

section \<open>Text helpers\<close>

definition trim_inplace :: "string \<Rightarrow> string" where
  "trim_inplace s = rev (dropWhile c_isspace (rev (dropWhile c_isspace s)))"

text \<open>The buffer after \<^verbatim>\<open>trim_inplace(buf)\<close>, as seen from its first byte.\<close>

definition trim_buffer :: "string \<Rightarrow> string" where
  "trim_buffer s =
     (if dropWhile c_isspace s = [] then s else takeWhile c_isspace s @ trim_inplace s)"

fun strip_comment_scan :: "bool \<Rightarrow> bool \<Rightarrow> string \<Rightarrow> string" where
  "strip_comment_scan in_single in_double [] = []"
| "strip_comment_scan in_single in_double (c # cs) =
     (if \<not> in_single \<and> \<not> in_double \<and> (c = CHR '';'' \<or> c = CHR ''#'') then []
      else c # (if \<not> in_double \<and> c = CHR 0x27 then strip_comment_scan (\<not> in_single) in_double cs
                else if \<not> in_single \<and> c = CHR 0x22 then strip_comment_scan in_single (\<not> in_double) cs
                else strip_comment_scan in_single in_double cs))"

definition strip_inline_comment_inplace :: "string \<Rightarrow> string" where
  "strip_inline_comment_inplace value =
     rev (dropWhile c_isspace (rev (strip_comment_scan False False value)))"

definition is_comment_line :: "string \<Rightarrow> bool" where
  "is_comment_line line \<longleftrightarrow>
     (case dropWhile c_isspace line of [] \<Rightarrow> False | c # cs \<Rightarrow> c = CHR '';'' \<or> c = CHR ''#'')"

definition strip_quotes :: "string \<Rightarrow> string" where
  "strip_quotes value =
     (if length value \<ge> 2
         \<and> (hd value = CHR 0x22 \<and> value ! (length value - 1) = CHR 0x22
            \<or> hd value = CHR 0x27 \<and> value ! (length value - 1) = CHR 0x27)
      then tl (butlast value) else value)"

section \<open>Entries\<close>

definition append_entry ::
    "mal \<Rightarrow> nat \<Rightarrow> config \<Rightarrow> string \<Rightarrow> string \<Rightarrow> string \<Rightarrow> hybbx_result \<times> config \<times> nat" where
  "append_entry mal k config section key value =
     (if length section \<ge> CONFIG_SECTION_MAX \<or> length key \<ge> CONFIG_KEY_MAX
         \<or> length value \<ge> CONFIG_VALUE_MAX
      then (HYBBX_ERR_INVALID, config, k)
      else let count = length (cf_entries config);
               grow = (count mod CONFIG_INITIAL_CAP = 0)
      in if grow \<and> \<not> mal k then (HYBBX_ERR_NOMEM, config, k + 1)
         else let k1 = (if grow then k + 1 else k);
                  config1 = (if grow then config\<lparr>cf_slots := count + CONFIG_INITIAL_CAP\<rparr> else config)
         in if mal k1 \<and> mal (k1 + 1) \<and> mal (k1 + 2)
            then (HYBBX_OK,
                  config1\<lparr>cf_entries := cf_entries config1
                     @ [\<lparr>ce_section = section, ce_key = key, ce_value = value\<rparr>]\<rparr>, k1 + 3)
            else (HYBBX_ERR_NOMEM, config1, k1 + 3))"

definition config_matches :: "string \<Rightarrow> string \<Rightarrow> config_entry \<Rightarrow> bool" where
  "config_matches section key e \<longleftrightarrow> ce_section e = section \<and> ce_key e = key"

definition hybbx_config_get :: "config \<Rightarrow> string \<Rightarrow> string \<Rightarrow> string option \<Rightarrow> string option" where
  "hybbx_config_get config section key default_value =
     (case find_slot (config_matches section key) (cf_entries config) of
        Some i \<Rightarrow> Some (ce_value (cf_entries config ! i)) | None \<Rightarrow> default_value)"

definition hybbx_config_get_bool :: "config \<Rightarrow> string \<Rightarrow> string \<Rightarrow> int \<Rightarrow> int" where
  "hybbx_config_get_bool config section key default_value =
     (case hybbx_config_get config section key None of
        None \<Rightarrow> default_value | Some v \<Rightarrow> hybbx_parse_bool (Some v) default_value)"

definition hybbx_config_get_uint ::
    "config \<Rightarrow> string \<Rightarrow> string \<Rightarrow> nat \<Rightarrow> nat \<Rightarrow> nat \<Rightarrow> nat" where
  "hybbx_config_get_uint config section key default_value min_value max_value =
     (case hybbx_config_get config section key None of
        None \<Rightarrow> default_value
      | Some value \<Rightarrow>
          if value = [] then default_value
          else case c_strtoul value of (parsed, rest) \<Rightarrow>
            if rest = value \<or> rest \<noteq> [] then default_value
            else if parsed < min_value then min_value
            else if parsed > max_value then max_value
            else parsed)"

definition hybbx_config_set ::
    "mal \<Rightarrow> nat \<Rightarrow> config \<Rightarrow> string \<Rightarrow> string \<Rightarrow> string \<Rightarrow> hybbx_result \<times> config \<times> nat" where
  "hybbx_config_set mal k config section key value =
     (case find_slot (config_matches section key) (cf_entries config) of
        Some i \<Rightarrow>
          if mal k
          then (HYBBX_OK,
                config\<lparr>cf_entries := (cf_entries config)[i := (cf_entries config ! i)\<lparr>ce_value := value\<rparr>]\<rparr>,
                k + 1)
          else (HYBBX_ERR_NOMEM, config, k + 1)
      | None \<Rightarrow> append_entry mal k config section key value)"

definition hybbx_config_remove_section :: "config \<Rightarrow> string \<Rightarrow> config" where
  "hybbx_config_remove_section config section =
     config\<lparr>cf_entries := List.filter (\<lambda>e. ce_section e \<noteq> section) (cf_entries config)\<rparr>"

section \<open>Loading\<close>

definition c_fgets :: "nat \<Rightarrow> string \<Rightarrow> string \<times> string" where
  "c_fgets cap text =
     (let n = length (takeWhile (\<lambda>c. c \<noteq> CHR 0x0A) text);
          m = min (cap - 1) (n + 1)
      in (take m text, drop m text))"

type_synonym load_state = "string \<times> config \<times> nat"

definition config_line :: "mal \<Rightarrow> load_state \<Rightarrow> string \<Rightarrow> hybbx_result + load_state" where
  "config_line mal st line =
     (case st of (current_section, config, k) \<Rightarrow>
      let content = trim_inplace line in
      if content = [] \<or> is_comment_line content then Inr st
      else if hd content = CHR ''['' then
        (if CHR '']'' \<notin> set content then Inl HYBBX_ERR_INVALID
         else Inr (trim_buffer (take (CONFIG_SECTION_MAX - 1)
                      (tl (takeWhile (\<lambda>c. c \<noteq> CHR '']'') content))), config, k))
      else if current_section = [] then Inl HYBBX_ERR_INVALID
      else if CHR ''='' \<notin> set content then Inl HYBBX_ERR_INVALID
      else let key = trim_inplace (takeWhile (\<lambda>c. c \<noteq> CHR ''='') content);
               value = strip_quotes (strip_inline_comment_inplace
                         (trim_inplace (tl (dropWhile (\<lambda>c. c \<noteq> CHR ''='') content))))
           in case append_entry mal k config current_section key value of (rc, config', k') \<Rightarrow>
                if rc \<noteq> HYBBX_OK then Inl HYBBX_ERR_NOMEM else Inr (current_section, config', k'))"

function config_load_loop :: "mal \<Rightarrow> load_state \<Rightarrow> string \<Rightarrow> hybbx_result + load_state" where
  "config_load_loop mal st text =
     (if text = [] then Inr st
      else case c_fgets CONFIG_LINE_MAX text of (chunk, rest) \<Rightarrow>
        let line = takeWhile (\<lambda>c. c \<noteq> CHR 0x00) chunk in
        if line \<noteq> [] \<and> List.last line \<noteq> CHR 0x0A \<and> length line \<ge> CONFIG_LINE_MAX - 1
        then Inl HYBBX_ERR_INVALID
        else case config_line mal st line of
               Inl rc \<Rightarrow> Inl rc | Inr st' \<Rightarrow> config_load_loop mal st' rest)"
  by pat_completeness auto
termination
  by (relation "measure (\<lambda>(mal, st, text). length text)")
    (auto simp: c_fgets_def CONFIG_LINE_MAX_def Let_def)

declare config_load_loop.simps [simp del]

lemma config_load_loop_Nil: "config_load_loop mal st [] = Inr st"
  by (simp add: config_load_loop.simps)

text \<open>The file's text, or None when it cannot be opened.\<close>

definition hybbx_config_load :: "mal \<Rightarrow> string option \<Rightarrow> hybbx_result \<times> config" where
  "hybbx_config_load mal file =
     (case file of None \<Rightarrow> (HYBBX_ERR_IO, config_empty)
      | Some text \<Rightarrow>
          (case config_load_loop mal ([], config_empty, 0) text of
             Inl rc \<Rightarrow> (rc, config_empty)
           | Inr (current_section, config, k) \<Rightarrow> (HYBBX_OK, config)))"

section \<open>Saving\<close>

fun config_save_from :: "string option \<Rightarrow> config_entry list \<Rightarrow> string" where
  "config_save_from current [] = []"
| "config_save_from current (e # es) =
     (if current = None \<or> the current \<noteq> ce_section e
      then (if current \<noteq> None then [CHR 0x0A] else [])
           @ ''['' @ ce_section e @ '']'' @ [CHR 0x0A]
      else [])
     @ ce_key e @ '' = '' @ ce_value e @ [CHR 0x0A]
     @ config_save_from (Some (ce_section e)) es"

text \<open>The result and, when the file could be opened for writing, its text.\<close>

definition hybbx_config_save :: "bool \<Rightarrow> config \<Rightarrow> hybbx_result \<times> string option" where
  "hybbx_config_save opened config =
     (if opened then (HYBBX_OK, Some (config_save_from None (cf_entries config)))
      else (HYBBX_ERR_IO, None))"

section \<open>Sections of a transport plugin\<close>

definition config_section_has_keys :: "config \<Rightarrow> string \<Rightarrow> bool" where
  "config_section_has_keys config section \<longleftrightarrow>
     list_ex (\<lambda>e. ce_section e = section \<and> ce_key e \<noteq> ''enabled'') (cf_entries config)"

definition config_suffix_is_digits :: "string \<Rightarrow> bool" where
  "config_suffix_is_digits suffix \<longleftrightarrow> suffix \<noteq> [] \<and> list_all c_isdigit suffix"

definition transport_prefix :: "string \<Rightarrow> string" where
  "transport_prefix plugin_name = c_snprintf 128 (''transport.'' @ plugin_name)"

text \<open>The test both section loops make: the prefix, digits and at least one key.\<close>

definition numbered_section :: "config \<Rightarrow> string \<Rightarrow> string \<Rightarrow> bool" where
  "numbered_section config prefix sec \<longleftrightarrow>
     take (length prefix) sec = prefix \<and> config_suffix_is_digits (drop (length prefix) sec)
     \<and> config_section_has_keys config sec"

definition hybbx_config_resolve_transport_section ::
    "config \<Rightarrow> string \<Rightarrow> nat \<Rightarrow> string \<Rightarrow> bool \<times> string" where
  "hybbx_config_resolve_transport_section config plugin_name out_size out =
     (if out_size = 0 then (False, out)
      else let prefix = transport_prefix plugin_name in
        if config_section_has_keys config prefix
        then (True, snd (hybbx_strlcpy out (Some prefix) out_size))
        else case find_slot (\<lambda>e. numbered_section config prefix (ce_section e)) (cf_entries config) of
               Some i \<Rightarrow> (True, snd (hybbx_strlcpy out (Some (ce_section (cf_entries config ! i))) out_size))
             | None \<Rightarrow> (False, snd (hybbx_strlcpy out (Some prefix) out_size)))"

text \<open>The doubling loops of the string builders.\<close>

function grow_cap :: "nat \<Rightarrow> nat \<Rightarrow> nat" where
  "grow_cap cap need = (if need \<le> cap \<or> cap = 0 then cap else grow_cap (cap * 2) need)"
  by pat_completeness auto
termination by (relation "measure (\<lambda>(cap, need). need - cap)") auto

declare grow_cap.simps [simp del]

text \<open>
  One entry of \<open>hybbx_config_format_section\<close>: the text so far, its buffer's size and the requests
  made; None after a failed \<^verbatim>\<open>realloc\<close>.  \<^verbatim>\<open>snprintf\<close> writes what the buffer
  has room for, and the returned length is added.
\<close>

type_synonym build_state = "(string \<times> nat \<times> bool \<times> nat) option"

definition format_entry :: "mal \<Rightarrow> string \<Rightarrow> build_state \<Rightarrow> config_entry \<Rightarrow> build_state" where
  "format_entry mal section st e =
     (case st of None \<Rightarrow> None
      | Some (out, cap, first, k) \<Rightarrow>
          if ce_section e \<noteq> section \<or> ce_key e = ''enabled'' then st
          else let need = length (ce_key e) + length (ce_value e) + 2 + (if first then 0 else 1);
                   grows = (length out + need + 1 > cap);
                   cap' = (if grows then grow_cap cap (length out + need + 1) else cap)
               in if grows \<and> \<not> mal k then None
                  else let out' = (if first then out else out @ '';'')
                       in Some (out' @ c_snprintf (cap' - length out') (ce_key e @ ''='' @ ce_value e),
                                cap', False, if grows then k + 1 else k))"

definition hybbx_config_format_section ::
    "mal \<Rightarrow> nat \<Rightarrow> config \<Rightarrow> string \<Rightarrow> (string \<times> nat) option" where
  "hybbx_config_format_section mal k config section =
     (if \<not> mal k then None
      else case foldl (format_entry mal section) (Some ([], 64, True, k + 1)) (cf_entries config) of
             None \<Rightarrow> None | Some (out, cap, first, k') \<Rightarrow> Some (out, k'))"

text \<open>The list of section names, with the capacity of its array and the requests made.\<close>

type_synonym section_list = "(string list \<times> nat \<times> nat) option"

definition format_transport_section_add :: "mal \<Rightarrow> string \<Rightarrow> section_list \<Rightarrow> section_list" where
  "format_transport_section_add mal section st =
     (case st of None \<Rightarrow> None
      | Some (secs, cap, k) \<Rightarrow>
          if section \<in> set secs then st
          else let grows = (length secs \<ge> cap);
                   cap' = (if grows then (if cap = 0 then 4 else cap * 2) else cap);
                   k1 = (if grows then k + 1 else k)
               in if grows \<and> \<not> mal k then None
                  else if \<not> mal k1 then None
                  else Some (secs @ [section], cap', k1 + 1))"

definition transport_sections :: "mal \<Rightarrow> config \<Rightarrow> string \<Rightarrow> section_list" where
  "transport_sections mal config prefix =
     foldl (\<lambda>st e. if numbered_section config prefix (ce_section e)
                   then format_transport_section_add mal (ce_section e) st else st)
       (if config_section_has_keys config prefix
        then format_transport_section_add mal prefix (Some ([], 0, 0)) else Some ([], 0, 0))
       (cf_entries config)"

definition join_section :: "mal \<Rightarrow> config \<Rightarrow> (string \<times> nat \<times> nat) option \<Rightarrow> string
    \<Rightarrow> (string \<times> nat \<times> nat) option" where
  "join_section mal config st section =
     (case st of None \<Rightarrow> None
      | Some (out, cap, k) \<Rightarrow>
          (case hybbx_config_format_section mal k config section of None \<Rightarrow> None
           | Some (part, k1) \<Rightarrow>
               let sep = (length out > 0);
                   g1 = (sep \<and> length out + 1 + length part + 1 > cap);
                   cap1 = (if g1 then grow_cap cap (length out + 1 + length part + 1) else cap);
                   out1 = (if sep then out @ [INSTANCE_SEP] else out);
                   k2 = (if g1 then k1 + 1 else k1);
                   g2 = (length out1 + length part + 1 > cap1);
                   cap2 = (if g2 then grow_cap cap1 (length out1 + length part + 1) else cap1)
               in if g1 \<and> \<not> mal k1 \<or> g2 \<and> \<not> mal k2 then None
                  else Some (out1 @ part, cap2, if g2 then k2 + 1 else k2)))"

definition hybbx_config_format_transport_sections :: "mal \<Rightarrow> config \<Rightarrow> string \<Rightarrow> string option" where
  "hybbx_config_format_transport_sections mal config plugin_name =
     (let prefix = transport_prefix plugin_name in
      case transport_sections mal config prefix of None \<Rightarrow> None
      | Some (secs, cap, k) \<Rightarrow>
          if secs = [] then map_option fst (hybbx_config_format_section mal k config prefix)
          else if \<not> mal k then None
          else map_option fst (foldl (join_section mal config) (Some ([], 64, k + 1)) secs))"

section \<open>Lemmas on trimming\<close>

text \<open>No white space at either end.\<close>

definition trimmed :: "string \<Rightarrow> bool" where
  "trimmed s \<longleftrightarrow> s = [] \<or> \<not> c_isspace (hd s) \<and> \<not> c_isspace (List.last s)"

lemma rstrip_id: "s = [] \<or> \<not> c_isspace (List.last s) \<Longrightarrow> rev (dropWhile c_isspace (rev s)) = s"
  by (cases s rule: rev_cases) auto

lemma rstrip_space: "rev (dropWhile c_isspace (rev (s @ [c]))) = rev (dropWhile c_isspace (rev s))"
  if "c_isspace c"
  using that by simp

lemma lstrip_id: "s = [] \<or> \<not> c_isspace (hd s) \<Longrightarrow> dropWhile c_isspace s = s"
  by (cases s) auto

lemma trim_trimmed: "trimmed s \<Longrightarrow> trim_inplace s = s"
  by (auto simp: trimmed_def trim_inplace_def lstrip_id rstrip_id)

lemma trim_snoc_space: "c_isspace c \<Longrightarrow> trim_inplace (s @ [c]) = trim_inplace s"
proof -
  assume c: "c_isspace c"
  show ?thesis
  proof (cases "\<forall>x \<in> set s. c_isspace x")
    case True
    then have d: "dropWhile c_isspace s = []" by simp
    then have "dropWhile c_isspace (s @ [c]) = []" using c by (simp add: dropWhile_append)
    with d show ?thesis by (simp add: trim_inplace_def del: dropWhile_eq_Nil_conv)
  next
    case False
    then have "dropWhile c_isspace (s @ [c]) = dropWhile c_isspace s @ [c]"
      by (simp add: dropWhile_append)
    with c show ?thesis by (simp add: trim_inplace_def)
  qed
qed

lemma trim_cons_space: "c_isspace c \<Longrightarrow> trim_inplace (c # s) = trim_inplace s"
  by (simp add: trim_inplace_def)

lemma c_isspace_values [simp]:
  "c_isspace (CHR '' '')" "c_isspace (CHR 0x0A)" "\<not> c_isspace (CHR ''['')" "\<not> c_isspace (CHR '']'')"
  "\<not> c_isspace (CHR ''='')"
  by (simp_all add: c_isspace_def)

lemma trim_buffer_trimmed: "trimmed s \<Longrightarrow> trim_buffer s = s"
proof (cases s)
  case Nil then show ?thesis by (simp add: trim_buffer_def)
next
  case (Cons c cs)
  assume t: "trimmed s"
  then have "\<not> c_isspace c" using Cons by (simp add: trimmed_def)
  with trim_trimmed [OF t] Cons show ?thesis by (simp add: trim_buffer_def)
qed

section \<open>Lemmas on loading and saving\<close>

text \<open>
  What the file format carries: one-line names without the format's own characters, and values of
  one line that fit it.  Reading a value back cuts a comment and strips quotes.
\<close>

definition clean_text :: "string \<Rightarrow> bool" where
  "clean_text s \<longleftrightarrow> trimmed s \<and> CHR 0x0A \<notin> set s \<and> CHR 0x00 \<notin> set s"

definition reload_value :: "string \<Rightarrow> string" where
  "reload_value v = strip_quotes (strip_inline_comment_inplace v)"

definition clean_entry :: "config_entry \<Rightarrow> bool" where
  "clean_entry e \<longleftrightarrow>
     clean_text (ce_section e) \<and> ce_section e \<noteq> [] \<and> CHR '']'' \<notin> set (ce_section e)
     \<and> length (ce_section e) < CONFIG_SECTION_MAX
     \<and> clean_text (ce_key e) \<and> ce_key e \<noteq> [] \<and> CHR ''='' \<notin> set (ce_key e)
     \<and> hd (ce_key e) \<noteq> CHR ''['' \<and> hd (ce_key e) \<noteq> CHR '';'' \<and> hd (ce_key e) \<noteq> CHR ''#''
     \<and> length (ce_key e) < CONFIG_KEY_MAX
     \<and> clean_text (ce_value e) \<and> length (ce_key e) + length (ce_value e) < CONFIG_LINE_MAX - 4"

lemma c_fgets_line:
  "CHR 0x0A \<notin> set l \<Longrightarrow> length l < 511 \<Longrightarrow> c_fgets 512 (l @ CHR 0x0A # rest) = (l @ [CHR 0x0A], rest)"
  by (simp add: c_fgets_def takeWhile_until Let_def)

lemma config_load_line:
  assumes "CHR 0x0A \<notin> set l" and "CHR 0x00 \<notin> set l" and "length l < 511"
  shows "config_load_loop mal st (l @ CHR 0x0A # rest) =
     (case config_line mal st (l @ [CHR 0x0A]) of Inl rc \<Rightarrow> Inl rc
      | Inr st' \<Rightarrow> config_load_loop mal st' rest)"
proof -
  have "takeWhile (\<lambda>c. c \<noteq> CHR 0x00) (l @ [CHR 0x0A]) = l @ [CHR 0x0A]"
    using assms(2) by (auto simp: takeWhile_eq_all_conv)
  then show ?thesis
    by (subst config_load_loop.simps) (simp add: CONFIG_LINE_MAX_def c_fgets_line [OF assms(1,3)])
qed

lemma config_load_blank: "config_load_loop mal st (CHR 0x0A # rest) = config_load_loop mal st rest"
  using config_load_line [of "[]" mal st rest]
  by (cases st) (simp add: config_line_def trim_inplace_def)

lemma trim_line: "trimmed l \<Longrightarrow> trim_inplace (l @ [CHR 0x0A]) = l"
  by (simp add: trim_snoc_space trim_trimmed)

lemma config_line_section:
  assumes "clean_text sec" and "CHR '']'' \<notin> set sec" and "length sec < CONFIG_SECTION_MAX"
  shows "config_line mal (cur, config, k) (''['' @ sec @ '']'' @ [CHR 0x0A]) = Inr (sec, config, k)"
proof -
  have "trimmed (''['' @ sec @ '']'')" by (simp add: trimmed_def)
  then have "trim_inplace ((''['' @ sec @ '']'') @ [CHR 0x0A]) = ''['' @ sec @ '']''" by (rule trim_line)
  then have content: "trim_inplace (''['' @ sec @ '']'' @ [CHR 0x0A]) = CHR ''['' # sec @ '']''" by simp
  have "takeWhile (\<lambda>c. c \<noteq> CHR '']'') (CHR ''['' # sec @ '']'') = CHR ''['' # sec"
    using assms(2) takeWhile_until [of "CHR '']''" sec "[]"] by simp
  moreover have "trim_buffer sec = sec" using assms(1) by (simp add: clean_text_def trim_buffer_trimmed)
  ultimately show ?thesis
    using assms(3) unfolding config_line_def prod.case Let_def content
    by (simp add: is_comment_line_def)
qed

lemma strip_comment_scan_id:
  "CHR '';'' \<notin> set v \<Longrightarrow> CHR ''#'' \<notin> set v \<Longrightarrow> strip_comment_scan q d v = v"
  by (induction v arbitrary: q d) auto

lemma config_line_entry:
  assumes "clean_entry e" and "ce_section e = sec"
  shows "config_line mal (sec, config, k) (ce_key e @ '' = '' @ ce_value e @ [CHR 0x0A])
     = (case append_entry mal k config sec (ce_key e) (reload_value (ce_value e)) of (rc, config', k') \<Rightarrow>
          if rc \<noteq> HYBBX_OK then Inl HYBBX_ERR_NOMEM else Inr (sec, config', k'))"
proof -
  let ?key = "ce_key e" and ?vl = "ce_value e"
  have key: "trimmed ?key" "?key \<noteq> []" "CHR ''='' \<notin> set ?key"
      "hd ?key \<noteq> CHR ''[''" "hd ?key \<noteq> CHR '';''" "hd ?key \<noteq> CHR ''#''"
    and val: "trimmed ?vl" and sec: "sec \<noteq> []"
    using assms by (auto simp: clean_entry_def clean_text_def)
  let ?content = "?key @ '' ='' @ (if ?vl = [] then [] else CHR '' '' # ?vl)"
  have hdk: "\<not> c_isspace (hd ?key)" using key(1,2) by (simp add: trimmed_def)
  have tc: "trimmed ?content"
    using key(1,2) val hdk by (auto simp: trimmed_def)
  have content: "trim_inplace (?key @ '' = '' @ ?vl @ [CHR 0x0A]) = ?content"
  proof (cases "?vl = []")
    case True
    have "trim_inplace ((?key @ '' ='') @ [CHR '' ''] @ [CHR 0x0A]) = ?key @ '' =''"
      using tc True by (simp only: append_assoc [symmetric] trim_snoc_space c_isspace_values)
        (simp add: trim_trimmed)
    with True show ?thesis by simp
  next
    case False
    with trim_line [OF tc] show ?thesis by simp
  qed
  have hd: "hd ?content = hd ?key" using key(2) by simp
  have nc: "\<not> is_comment_line ?content"
    using key(2,5,6) hdk by (cases ?key) (auto simp: is_comment_line_def)
  have tk: "takeWhile (\<lambda>c. c \<noteq> CHR ''='') ?content = ?key @ '' ''"
    using key(3) takeWhile_until [of "CHR ''=''" "?key @ '' ''"] by simp
  have dk: "tl (dropWhile (\<lambda>c. c \<noteq> CHR ''='') ?content) = (if ?vl = [] then [] else CHR '' '' # ?vl)"
    using key(3) dropWhile_until [of "CHR ''=''" "?key @ '' ''"] by simp
  have k: "trim_inplace (?key @ '' '') = ?key"
    using key(1) by (simp add: trim_snoc_space trim_trimmed)
  have v: "trim_inplace (if ?vl = [] then [] else CHR '' '' # ?vl) = ?vl"
    using val by (auto simp: trim_cons_space trim_trimmed)
  have ne: "?content \<noteq> []" and eq: "CHR ''='' \<in> set ?content" by auto
  show ?thesis
    unfolding config_line_def prod.case Let_def content hd tk dk k v reload_value_def [symmetric]
    using ne nc eq key(4) sec by (simp split: prod.splits)
qed

lemma append_entry_ok:
  assumes "length section < CONFIG_SECTION_MAX" and "length key < CONFIG_KEY_MAX"
    and "length value < CONFIG_VALUE_MAX"
  shows "\<exists>config' k'. append_entry (\<lambda>_. True) k config section key value = (HYBBX_OK, config', k')
     \<and> cf_entries config' = cf_entries config
          @ [\<lparr>ce_section = section, ce_key = key, ce_value = value\<rparr>]"
  using assms by (simp add: append_entry_def Let_def)

lemma config_load_entry_line:
  assumes "clean_entry e"
  shows "config_load_loop mal (ce_section e, config, k)
        (ce_key e @ '' = '' @ ce_value e @ CHR 0x0A # rest)
      = (case append_entry mal k config (ce_section e) (ce_key e) (reload_value (ce_value e)) of
           (rc, config', k') \<Rightarrow> if rc \<noteq> HYBBX_OK then Inl HYBBX_ERR_NOMEM
             else config_load_loop mal (ce_section e, config', k') rest)"
proof -
  let ?l = "ce_key e @ '' = '' @ ce_value e"
  have c: "clean_text (ce_key e)" "clean_text (ce_value e)"
    "length (ce_key e) + length (ce_value e) < 508"
    using assms by (auto simp: clean_entry_def config_consts)
  then have "config_load_loop mal (ce_section e, config, k) (?l @ CHR 0x0A # rest)
      = (case config_line mal (ce_section e, config, k) (?l @ [CHR 0x0A]) of Inl rc \<Rightarrow> Inl rc
         | Inr st' \<Rightarrow> config_load_loop mal st' rest)"
    by (intro config_load_line) (auto simp: clean_text_def)
  with config_line_entry [OF assms refl, of mal config k] show ?thesis
    by (simp split: prod.splits)
qed

lemma config_load_entry:
  assumes "clean_entry e" and "length (reload_value (ce_value e)) < CONFIG_VALUE_MAX"
  shows "\<exists>config' k'. config_load_loop (\<lambda>_. True) (ce_section e, config, k)
        (ce_key e @ '' = '' @ ce_value e @ CHR 0x0A # rest)
      = config_load_loop (\<lambda>_. True) (ce_section e, config', k') rest
     \<and> cf_entries config' = cf_entries config @ [e\<lparr>ce_value := reload_value (ce_value e)\<rparr>]"
proof -
  have "length (ce_key e) < CONFIG_KEY_MAX" "length (ce_section e) < CONFIG_SECTION_MAX"
    using assms by (auto simp: clean_entry_def)
  from append_entry_ok [OF this(2,1) assms(2), of k config] obtain config' k' where
    "append_entry (\<lambda>_. True) k config (ce_section e) (ce_key e) (reload_value (ce_value e))
       = (HYBBX_OK, config', k')"
    "cf_entries config' = cf_entries config @ [e\<lparr>ce_value := reload_value (ce_value e)\<rparr>]" by auto
  then show ?thesis unfolding config_load_entry_line [OF assms(1)]
    by (intro exI [of _ config'] exI [of _ k']) simp
qed

lemma config_load_section:
  assumes "clean_entry e"
  shows "config_load_loop mal (cur, config, k) (''['' @ ce_section e @ '']'' @ CHR 0x0A # rest)
      = config_load_loop mal (ce_section e, config, k) rest"
proof -
  have c: "clean_text (ce_section e)" "CHR '']'' \<notin> set (ce_section e)" "length (ce_section e) < 128"
    using assms by (auto simp: clean_entry_def config_consts)
  then have "config_load_loop mal (cur, config, k) ((''['' @ ce_section e @ '']'') @ CHR 0x0A # rest)
      = (case config_line mal (cur, config, k) ((''['' @ ce_section e @ '']'') @ [CHR 0x0A]) of
           Inl rc \<Rightarrow> Inl rc | Inr st' \<Rightarrow> config_load_loop mal st' rest)"
    by (intro config_load_line) (auto simp: clean_text_def)
  with config_line_section [OF c(1,2), of mal cur config k] c(3) show ?thesis
    by (simp add: config_consts)
qed

lemma config_load_head:
  assumes "clean_entry e" and "current = None \<or> current = Some cur"
  shows "config_load_loop mal (cur, config, k) (config_save_from current (e # es))
      = config_load_loop mal (ce_section e, config, k)
          (ce_key e @ '' = '' @ ce_value e @ CHR 0x0A # config_save_from (Some (ce_section e)) es)"
  using assms(2) config_load_section [OF assms(1), of mal cur config k]
  by (cases "current = None \<or> the current \<noteq> ce_section e") (auto simp: config_load_blank)

lemma config_load_save_from:
  assumes "\<forall>e \<in> set es. clean_entry e \<and> length (reload_value (ce_value e)) < CONFIG_VALUE_MAX"
    and "current = None \<or> current = Some cur"
  shows "\<exists>current' cur' config' k'.
     config_load_loop (\<lambda>_. True) (cur, config, k) (config_save_from current (es @ fs))
       = config_load_loop (\<lambda>_. True) (cur', config', k') (config_save_from current' fs)
     \<and> (current' = None \<or> current' = Some cur')
     \<and> cf_entries config' = cf_entries config
          @ map (\<lambda>e. e\<lparr>ce_value := reload_value (ce_value e)\<rparr>) es"
  using assms
proof (induction es arbitrary: current cur config k)
  case Nil
  then show ?case by force
next
  case (Cons e es)
  let ?sec = "ce_section e"
  have e: "clean_entry e" "length (reload_value (ce_value e)) < CONFIG_VALUE_MAX"
    and es: "\<forall>e \<in> set es. clean_entry e \<and> length (reload_value (ce_value e)) < CONFIG_VALUE_MAX"
    using Cons.prems by auto
  from config_load_entry [OF e, of config k "config_save_from (Some ?sec) (es @ fs)"] obtain c1 k1 where
    1: "config_load_loop (\<lambda>_. True) (?sec, config, k)
          (ce_key e @ '' = '' @ ce_value e @ CHR 0x0A # config_save_from (Some ?sec) (es @ fs))
      = config_load_loop (\<lambda>_. True) (?sec, c1, k1) (config_save_from (Some ?sec) (es @ fs))"
    "cf_entries c1 = cf_entries config @ [e\<lparr>ce_value := reload_value (ce_value e)\<rparr>]" by blast
  from Cons.IH [OF es, of "Some ?sec" ?sec c1 k1] obtain current' cur' config' k' where
    "config_load_loop (\<lambda>_. True) (?sec, c1, k1) (config_save_from (Some ?sec) (es @ fs))
       = config_load_loop (\<lambda>_. True) (cur', config', k') (config_save_from current' fs)"
    "current' = None \<or> current' = Some cur'"
    "cf_entries config' = cf_entries c1 @ map (\<lambda>e. e\<lparr>ce_value := reload_value (ce_value e)\<rparr>) es"
    by blast
  moreover have "config_load_loop (\<lambda>_. True) (cur, config, k) (config_save_from current ((e # es) @ fs))
      = config_load_loop (\<lambda>_. True) (?sec, c1, k1) (config_save_from (Some ?sec) (es @ fs))"
    using config_load_head [OF e(1) Cons.prems(2), of "\<lambda>_. True" config k "es @ fs"] 1(1)
    by (simp only: append_Cons)
  ultimately show ?case
    using 1(2) by (intro exI [of _ current'] exI [of _ cur'] exI [of _ config'] exI [of _ k']) simp
qed

section \<open>The store interface\<close>

text \<open>
  What the rest of the program relies on: a lookup by section and key, and an update that succeeds
  or leaves the store alone.
\<close>

locale keyed_store =
  fixes look :: "'s \<Rightarrow> 'k \<Rightarrow> 'v option"
    and put :: "'s \<Rightarrow> 'k \<Rightarrow> 'v \<Rightarrow> 's"
    and accepts :: "'s \<Rightarrow> 'k \<Rightarrow> 'v \<Rightarrow> bool"
  assumes look_put_same: "accepts s k v \<Longrightarrow> look (put s k v) k = Some v"
    and look_put_other: "k' \<noteq> k \<Longrightarrow> look (put s k v) k' = look s k'"
begin

lemma look_foldl_other:
  "k \<notin> fst ` set kvs \<Longrightarrow> look (foldl (\<lambda>s (k, v). put s k v) s kvs) k = look s k"
  by (induction kvs arbitrary: s) (auto simp: look_put_other)

lemma look_foldl:
  "\<forall>s. \<forall>(k, v) \<in> set kvs. accepts s k v \<Longrightarrow> distinct (map fst kvs) \<Longrightarrow> (k, v) \<in> set kvs \<Longrightarrow>
   look (foldl (\<lambda>s (k, v). put s k v) s kvs) k = Some v"
proof (induction kvs arbitrary: s)
  case Nil
  then show ?case by simp
next
  case (Cons kv kvs)
  obtain k0 v0 where kv: "kv = (k0, v0)" by (cases kv)
  show ?case
  proof (cases "k = k0")
    case True
    with Cons.prems kv have "v = v0" "k \<notin> fst ` set kvs" by force+
    then show ?thesis using Cons.prems(1) True kv by (simp add: look_foldl_other look_put_same)
  next
    case False
    with Cons kv show ?thesis by auto
  qed
qed

end

definition config_look :: "config \<Rightarrow> string \<times> string \<Rightarrow> string option" where
  "config_look c sk = hybbx_config_get c (fst sk) (snd sk) None"

definition config_put :: "mal \<Rightarrow> config \<Rightarrow> string \<times> string \<Rightarrow> string \<Rightarrow> config" where
  "config_put mal c sk v = fst (snd (hybbx_config_set mal 0 c (fst sk) (snd sk) v))"

definition config_accepts :: "string \<times> string \<Rightarrow> string \<Rightarrow> bool" where
  "config_accepts sk v \<longleftrightarrow> length (fst sk) < CONFIG_SECTION_MAX \<and> length (snd sk) < CONFIG_KEY_MAX
     \<and> length v < CONFIG_VALUE_MAX"

lemma find_slot_append:
  "find_slot P (xs @ [y]) = (case find_slot P xs of Some i \<Rightarrow> Some i
     | None \<Rightarrow> if P y then Some (length xs) else None)"
  by (induction xs) (auto split: option.splits)

lemma find_slot_update_same:
  "find_slot P xs = Some i \<Longrightarrow> P y \<Longrightarrow> find_slot P (xs[i := y]) = Some i"
  by (induction xs arbitrary: i) (auto split: if_splits)

lemma find_slot_update_other:
  "i < length xs \<Longrightarrow> P y = P (xs ! i) \<Longrightarrow> find_slot P (xs[i := y]) = find_slot P xs"
proof (induction xs arbitrary: i)
  case (Cons x xs) then show ?case by (cases i) auto
qed simp

lemma config_get_set_same:
  assumes "hybbx_config_set mal k c section key v = (HYBBX_OK, c', k')"
  shows "hybbx_config_get c' section key d = Some v"
proof (cases "find_slot (config_matches section key) (cf_entries c)")
  case None
  with assms have ap: "append_entry mal k c section key v = (HYBBX_OK, c', k')"
    by (simp add: hybbx_config_set_def)
  then have "cf_entries c' = cf_entries c @ [\<lparr>ce_section = section, ce_key = key, ce_value = v\<rparr>]"
    by (auto simp: append_entry_def Let_def split: if_splits)
  with None show ?thesis by (simp add: hybbx_config_get_def find_slot_append config_matches_def)
next
  case (Some i)
  note s = find_slot_SomeD [OF Some]
  have "cf_entries c' = (cf_entries c)[i := (cf_entries c ! i)\<lparr>ce_value := v\<rparr>]"
    using assms Some by (auto simp: hybbx_config_set_def split: if_splits)
  moreover have "config_matches section key ((cf_entries c ! i)\<lparr>ce_value := v\<rparr>)"
    using s(2) by (simp add: config_matches_def)
  ultimately show ?thesis
    using s(1) find_slot_update_same [OF Some] by (simp add: hybbx_config_get_def)
qed

lemma config_get_set_other:
  assumes "(section', key') \<noteq> (section, key)"
  shows "hybbx_config_get (fst (snd (hybbx_config_set mal k c section key v))) section' key' d
       = hybbx_config_get c section' key' d"
proof (cases "find_slot (config_matches section key) (cf_entries c)")
  case None
  then show ?thesis
    using assms
    by (auto simp: hybbx_config_set_def append_entry_def hybbx_config_get_def Let_def
        find_slot_append config_matches_def nth_append dest!: find_slot_SomeD(1) split: option.splits)
next
  case (Some i)
  let ?es = "cf_entries c" and ?M = "config_matches section' key'"
  let ?e = "(?es ! i)\<lparr>ce_value := v\<rparr>"
  note s = find_slot_SomeD [OF Some]
  have ne: "\<not> ?M (?es ! i)" "\<not> ?M ?e" using s(2) assms by (auto simp: config_matches_def)
  then have f: "find_slot ?M (?es[i := ?e]) = find_slot ?M ?es"
    using find_slot_update_other [OF s(1), of ?M ?e] by simp
  have "?es[i := ?e] ! j = ?es ! j" if "find_slot ?M ?es = Some j" for j
    using find_slot_SomeD(2) [OF that] ne(1) by (cases "j = i") auto
  with f Some show ?thesis
    by (simp add: hybbx_config_set_def hybbx_config_get_def split: option.splits)
qed

interpretation config_store: keyed_store config_look "config_put (\<lambda>_. True)" "\<lambda>_. config_accepts"
proof unfold_locales
  fix s k v assume "config_accepts k v"
  then have "fst (hybbx_config_set (\<lambda>_. True) 0 s (fst k) (snd k) v) = HYBBX_OK"
    by (auto simp: hybbx_config_set_def append_entry_def config_accepts_def Let_def split: option.splits)
  then show "config_look (config_put (\<lambda>_. True) s k v) k = Some v"
    using config_get_set_same [of "\<lambda>_. True" 0 s "fst k" "snd k" v]
    by (cases "hybbx_config_set (\<lambda>_. True) 0 s (fst k) (snd k) v") (simp add: config_look_def config_put_def)
next
  fix s k' k v assume "k' \<noteq> (k :: string \<times> string)"
  then show "config_look (config_put (\<lambda>_. True) s k v) k' = config_look s k'"
    by (simp add: config_look_def config_put_def config_get_set_other prod_eq_iff)
qed

section \<open>Lemmas on the entry array and the string builders\<close>

definition config_slots_ok :: "config \<Rightarrow> bool" where
  "config_slots_ok c \<longleftrightarrow> CONFIG_INITIAL_CAP dvd cf_slots c \<and> length (cf_entries c) \<le> cf_slots c"

datatype config_op = ConfigSet string string string | ConfigRemove string

fun config_run :: "mal \<Rightarrow> config \<times> nat \<Rightarrow> config_op \<Rightarrow> config \<times> nat" where
  "config_run mal (c, k) (ConfigSet s key v) = snd (hybbx_config_set mal k c s key v)"
| "config_run mal (c, k) (ConfigRemove s) = (hybbx_config_remove_section c s, k)"

lemma append_entry_slots:
  "config_slots_ok c \<Longrightarrow> config_slots_ok (fst (snd (append_entry mal k c s key v)))"
proof -
  assume ok: "config_slots_ok c"
  have lt: "length (cf_entries c) < cf_slots c" if "length (cf_entries c) mod 32 \<noteq> 0"
    using ok that by (auto simp: config_slots_ok_def CONFIG_INITIAL_CAP_def dvd_def le_less)
  have "32 dvd length (cf_entries c) + 32" if "length (cf_entries c) mod 32 = 0"
    using that by (auto simp: dvd_eq_mod_eq_0)
  with ok lt show ?thesis
    by (auto simp: append_entry_def config_slots_ok_def CONFIG_INITIAL_CAP_def Let_def)
qed

lemma config_run_slots: "config_slots_ok c \<Longrightarrow> config_slots_ok (fst (config_run mal (c, k) op))"
proof (cases op)
  case (ConfigSet s key v)
  then show "config_slots_ok c \<Longrightarrow> ?thesis"
    using append_entry_slots [of c mal k s key v]
    by (auto simp: hybbx_config_set_def split: option.splits) (auto simp: config_slots_ok_def)
next
  case (ConfigRemove s)
  then show "config_slots_ok c \<Longrightarrow> ?thesis"
    by (auto simp: config_slots_ok_def hybbx_config_remove_section_def intro: le_trans [OF length_filter_le])
qed

lemma config_line_slots:
  assumes "config_line mal (cur, c, k) l = Inr (cur', c', k')" and "config_slots_ok c"
  shows "config_slots_ok c'"
proof -
  from assms(1) have "c' = c \<or> (\<exists>s key v rc. append_entry mal k c s key v = (rc, c', k'))"
    by (auto simp: config_line_def Let_def split: if_splits prod.splits)
  then show ?thesis using append_entry_slots [OF assms(2), of mal k] assms(2) by (metis fst_conv snd_conv)
qed

lemma config_load_slots:
  "config_load_loop mal st text = Inr (cur', c', k') \<Longrightarrow> config_slots_ok (fst (snd st)) \<Longrightarrow>
   config_slots_ok c'"
proof (induction mal st "text" rule: config_load_loop.induct)
  case (1 mal st src)
  obtain cur c k where st: "st = (cur, c, k)" by (cases st)
  show ?case
  proof (cases "src = []")
    case True
    with 1(2,3) st show ?thesis by (subst (asm) config_load_loop.simps) simp
  next
    case False
    obtain chunk rest where f: "c_fgets CONFIG_LINE_MAX src = (chunk, rest)"
      by (cases "c_fgets CONFIG_LINE_MAX src")
    let ?line = "takeWhile (\<lambda>c. c \<noteq> CHR 0x00) chunk"
    let ?long = "?line \<noteq> [] \<and> List.last ?line \<noteq> CHR 0x0A \<and> length ?line \<ge> CONFIG_LINE_MAX - 1"
    from 1(2) False f obtain st1 where l: "\<not> ?long" "config_line mal st ?line = Inr st1"
      "config_load_loop mal st1 rest = Inr (cur', c', k')"
      by (subst (asm) config_load_loop.simps) (auto simp: Let_def split: if_splits sum.splits)
    obtain cur1 c1 k1 where st1: "st1 = (cur1, c1, k1)" by (cases st1)
    from config_line_slots [of mal cur c k ?line cur1 c1 k1] l(2) 1(3) st st1
    have "config_slots_ok c1" by simp
    with 1(1) [OF False f [symmetric] refl l(1,2,3)] st1 show ?thesis by simp
  qed
qed

lemma grow_cap_enough: "0 < cap \<Longrightarrow> need \<le> grow_cap cap need \<and> cap \<le> grow_cap cap need"
  by (induction cap need rule: grow_cap.induct) (subst (1 2) grow_cap.simps, auto)

fun join_with :: "string \<Rightarrow> string list \<Rightarrow> string" where
  "join_with sep [] = []"
| "join_with sep [x] = x"
| "join_with sep (x # y # xs) = x @ sep @ join_with sep (y # xs)"

lemma join_with_snoc: "join_with sep (xs @ [y]) = (if xs = [] then y else join_with sep xs @ sep @ y)"
  by (induction sep xs rule: join_with.induct) auto

text \<open>The key=value texts of a section, without the key that only enables it.\<close>

definition section_pairs :: "config \<Rightarrow> string \<Rightarrow> string list" where
  "section_pairs c section =
     map (\<lambda>e. ce_key e @ ''='' @ ce_value e)
       (List.filter (\<lambda>e. ce_section e = section \<and> ce_key e \<noteq> ''enabled'') (cf_entries c))"

lemma format_entry_None: "format_entry mal section None e = None"
  by (simp add: format_entry_def)

lemma format_entry_skip:
  "ce_section e \<noteq> section \<or> ce_key e = ''enabled'' \<Longrightarrow> format_entry mal section st e = st"
  by (auto simp: format_entry_def split: option.splits)

lemma format_entries_text:
  assumes "foldl (format_entry mal section) (Some ([], 64, True, k)) es = Some (out, cap, first, k')"
  shows "out = join_with '';'' (map (\<lambda>e. ce_key e @ ''='' @ ce_value e)
           (List.filter (\<lambda>e. ce_section e = section \<and> ce_key e \<noteq> ''enabled'') es))
     \<and> length out < cap
     \<and> first = (List.filter (\<lambda>e. ce_section e = section \<and> ce_key e \<noteq> ''enabled'') es = [])"
  using assms
proof (induction es arbitrary: out cap first k' rule: rev_induct)
  case Nil
  then show ?case by simp
next
  case (snoc e es)
  let ?st = "foldl (format_entry mal section) (Some ([], 64, True, k)) es"
  from snoc.prems obtain out0 cap0 first0 k0 where st: "?st = Some (out0, cap0, first0, k0)"
    by (cases ?st) (simp add: format_entry_None, auto)
  note IH = snoc.IH [OF st]
  show ?case
  proof (cases "ce_section e \<noteq> section \<or> ce_key e = ''enabled''")
    case True
    with snoc.prems st have "Some (out0, cap0, first0, k0) = Some (out, cap, first, k')"
      by (auto simp: format_entry_skip)
    with True IH show ?thesis by auto
  next
    case False
    let ?need = "length (ce_key e) + length (ce_value e) + 2 + (if first0 then 0 else 1)"
    let ?cap = "if length out0 + ?need + 1 > cap0 then grow_cap cap0 (length out0 + ?need + 1) else cap0"
    let ?out = "if first0 then out0 else out0 @ '';''"
    have cap: "length out0 + ?need + 1 \<le> ?cap"
      using grow_cap_enough [of cap0 "length out0 + ?need + 1"] IH by auto
    then have fit: "c_snprintf (?cap - length ?out) (ce_key e @ ''='' @ ce_value e)
        = ce_key e @ ''='' @ ce_value e"
      by (auto simp: c_snprintf_def)
    have "Some (out, cap, first, k') = format_entry mal section (Some (out0, cap0, first0, k0)) e"
      using snoc.prems st by simp
    then have "out = ?out @ ce_key e @ ''='' @ ce_value e" "cap = ?cap" "\<not> first"
      using False fit by (simp_all only: format_entry_def option.case prod.case if_False Let_def)
        (simp_all split: if_splits)
    with IH False cap show ?thesis by (auto simp: join_with_snoc)
  qed
qed

lemma transport_fold:
  assumes "distinct s0" and "foldl (\<lambda>st sec. format_transport_section_add mal sec st) (Some (s0, c0, k0)) secs
     = Some (out, cap, k)"
  shows "out = rev (remdups (rev (s0 @ secs)))"
  using assms(2)
proof (induction secs arbitrary: out cap k rule: rev_induct)
  case Nil
  have "rev (remdups (rev s0)) = s0" using assms(1) by (simp add: distinct_remdups_id)
  with Nil show ?case by simp
next
  case (snoc sec secs)
  let ?st = "foldl (\<lambda>st sec. format_transport_section_add mal sec st) (Some (s0, c0, k0)) secs"
  from snoc.prems obtain out0 cap0 k1 where st: "?st = Some (out0, cap0, k1)"
    by (cases ?st) (auto simp: format_transport_section_add_def)
  note IH = snoc.IH [OF st]
  then have "set out0 = set (s0 @ secs)" by auto
  with snoc.prems st IH show ?case
    by (auto simp: format_transport_section_add_def Let_def split: if_splits)
qed

lemma foldl_filter_map:
  "foldl (\<lambda>st sec. g sec st) s (List.filter P (map f xs))
     = foldl (\<lambda>st x. if P (f x) then g (f x) st else st) s xs"
  by (induction xs arbitrary: s) auto

lemma section_pairs_nonempty: "config_section_has_keys c s \<Longrightarrow> section_pairs c s \<noteq> []"
  by (auto simp: config_section_has_keys_def section_pairs_def list_ex_iff filter_empty_conv)

lemma join_with_pairs_nonempty:
  assumes "section_pairs c s \<noteq> []"
  shows "join_with '';'' (section_pairs c s) \<noteq> []"
proof -
  have "[] \<notin> set (section_pairs c s)" by (auto simp: section_pairs_def)
  with assms show ?thesis
    by (cases "section_pairs c s" rule: rev_cases) (auto simp: join_with_snoc)
qed

lemma format_section_text:
  "hybbx_config_format_section mal k c s = Some (out, k') \<Longrightarrow> out = join_with '';'' (section_pairs c s)"
  using format_entries_text [of mal s "k + 1" "cf_entries c"]
  by (auto simp: hybbx_config_format_section_def section_pairs_def split: if_splits option.splits)

lemma join_section_None: "join_section mal c None s = None"
  by (simp add: join_section_def)

lemma join_section_Some:
  assumes "join_section mal c (Some (out0, cap0, k1)) s = Some (out, cap, k)"
  obtains part k2 where "hybbx_config_format_section mal k1 c s = Some (part, k2)"
    and "out = (if out0 = [] then [] else out0 @ [INSTANCE_SEP]) @ part"
  using assms by (auto simp: join_section_def Let_def split: option.splits if_splits)

lemma join_sections_text:
  assumes "foldl (join_section mal c) (Some ([], 64, k0)) secs = Some (out, cap, k)"
    and "\<forall>s \<in> set secs. section_pairs c s \<noteq> []"
  shows "out = join_with [INSTANCE_SEP] (map (\<lambda>s. join_with '';'' (section_pairs c s)) secs)
     \<and> (out = [] \<longleftrightarrow> secs = [])"
  using assms
proof (induction secs arbitrary: out cap k rule: rev_induct)
  case Nil
  then show ?case by simp
next
  case (snoc s secs)
  let ?st = "foldl (join_section mal c) (Some ([], 64, k0)) secs"
  from snoc.prems(1) obtain out0 cap0 k1 where st: "?st = Some (out0, cap0, k1)"
    by (cases ?st) (simp add: join_section_None, auto)
  have IH: "out0 = join_with [INSTANCE_SEP] (map (\<lambda>s. join_with '';'' (section_pairs c s)) secs)"
    "out0 = [] \<longleftrightarrow> secs = []"
    using snoc.IH [OF st] snoc.prems(2) by auto
  have "join_section mal c (Some (out0, cap0, k1)) s = Some (out, cap, k)"
    using snoc.prems(1) st by simp
  then obtain part k2 where p: "hybbx_config_format_section mal k1 c s = Some (part, k2)"
    "out = (if out0 = [] then [] else out0 @ [INSTANCE_SEP]) @ part"
    by (rule join_section_Some)
  have "part = join_with '';'' (section_pairs c s)" by (rule format_section_text [OF p(1)])
  moreover have "part \<noteq> []"
    using calculation join_with_pairs_nonempty snoc.prems(2) by simp
  ultimately show ?case using p(2) IH by (auto simp: join_with_snoc)
qed

section \<open>Properties\<close>

text \<open>
  C39. Saving and loading: a configuration of well-formed one-line entries, in any order of
  sections, is read back from the saved text with every section, key and position as it was and
  each value as \<open>reload_value\<close> reads it; with values free of comment characters and enclosing
  quotes, that is the same list of entries.
\<close>

theorem config_save_load:
  assumes "\<forall>e \<in> set (cf_entries c).
     clean_entry e \<and> length (reload_value (ce_value e)) < CONFIG_VALUE_MAX"
  shows "\<exists>file c'. hybbx_config_save True c = (HYBBX_OK, Some file)
     \<and> hybbx_config_load (\<lambda>_. True) (Some file) = (HYBBX_OK, c')
     \<and> cf_entries c' = map (\<lambda>e. e\<lparr>ce_value := reload_value (ce_value e)\<rparr>) (cf_entries c)
     \<and> ((\<forall>e \<in> set (cf_entries c). CHR '';'' \<notin> set (ce_value e) \<and> CHR ''#'' \<notin> set (ce_value e)
                                  \<and> strip_quotes (ce_value e) = ce_value e)
        \<longrightarrow> cf_entries c' = cf_entries c)"
proof -
  let ?es = "cf_entries c"
  from config_load_save_from [OF assms, of None "[]" config_empty 0 "[]"] obtain cur' c' k' where
    l: "config_load_loop (\<lambda>_. True) ([], config_empty, 0) (config_save_from None ?es) = Inr (cur', c', k')"
    "cf_entries c' = map (\<lambda>e. e\<lparr>ce_value := reload_value (ce_value e)\<rparr>) ?es"
    by (auto simp: config_empty_def config_load_loop_Nil)
  have "reload_value (ce_value e) = ce_value e"
    if "e \<in> set ?es" "CHR '';'' \<notin> set (ce_value e)" "CHR ''#'' \<notin> set (ce_value e)"
      "strip_quotes (ce_value e) = ce_value e" for e
    using that assms
    by (auto simp: reload_value_def strip_inline_comment_inplace_def strip_comment_scan_id
        clean_entry_def clean_text_def trimmed_def rstrip_id)
  then have "map (\<lambda>e. e\<lparr>ce_value := reload_value (ce_value e)\<rparr>) ?es = ?es"
    if "\<forall>e \<in> set ?es. CHR '';'' \<notin> set (ce_value e) \<and> CHR ''#'' \<notin> set (ce_value e)
          \<and> strip_quotes (ce_value e) = ce_value e"
    using that by (intro map_idI) simp
  with l show ?thesis by (auto simp: hybbx_config_save_def hybbx_config_load_def)
qed

definition config_example :: config where
  "config_example = \<lparr>cf_entries =
     [\<lparr>ce_section = ''core'', ce_key = ''name'', ce_value = ''My BBS''\<rparr>,
      \<lparr>ce_section = ''web'', ce_key = ''port'', ce_value = ''8080 ; http''\<rparr>,
      \<lparr>ce_section = ''core'', ce_key = ''motd'', ce_value = []\<rparr>], cf_slots = 32\<rparr>"

theorem config_save_load_witness:
  "\<exists>file c'. hybbx_config_save True config_example = (HYBBX_OK, Some file)
     \<and> hybbx_config_load (\<lambda>_. True) (Some file) = (HYBBX_OK, c')
     \<and> map ce_value (cf_entries c') = [''My BBS'', ''8080'', []]"
proof -
  have ok: "\<forall>e \<in> set (cf_entries config_example).
      clean_entry e \<and> length (reload_value (ce_value e)) < CONFIG_VALUE_MAX"
    by (simp add: config_example_def clean_entry_def clean_text_def trimmed_def config_consts
        c_isspace_def reload_value_def strip_quotes_def strip_inline_comment_inplace_def)
  have "map (\<lambda>e. reload_value (ce_value e)) (cf_entries config_example) = [''My BBS'', ''8080'', []]"
    by (simp add: config_example_def c_isspace_def reload_value_def strip_quotes_def
        strip_inline_comment_inplace_def)
  moreover from config_save_load [OF ok] obtain fl c' where
    l: "hybbx_config_save True config_example = (HYBBX_OK, Some fl)"
      "hybbx_config_load (\<lambda>_. True) (Some fl) = (HYBBX_OK, c')"
    and es: "cf_entries c' = map (\<lambda>e. e\<lparr>ce_value := reload_value (ce_value e)\<rparr>) (cf_entries config_example)"
    by blast
  ultimately have "map ce_value (cf_entries c') = [''My BBS'', ''8080'', []]"
    unfolding es by (simp add: comp_def)
  with l show ?thesis by auto
qed

text \<open>
  Replacing a value is not length-checked: \<open>hybbx_config_set\<close> accepts a value of 256 bytes or
  more for a key that exists, saving succeeds, and the saved file is then refused as a whole, so
  that every setting is lost.
\<close>

theorem config_long_value_unloadable:
  assumes "cf_entries c = es @ e # fs"
    and "\<forall>e \<in> set es. clean_entry e \<and> length (reload_value (ce_value e)) < CONFIG_VALUE_MAX
           \<and> (ce_section e, ce_key e) \<noteq> (section, key)"
    and "ce_section e = section" and "ce_key e = key" and "clean_entry (e\<lparr>ce_value := v\<rparr>)"
    and "CONFIG_VALUE_MAX \<le> length (reload_value v)"
  shows "\<exists>c' k file. hybbx_config_set (\<lambda>_. True) 0 c section key v = (HYBBX_OK, c', k)
     \<and> hybbx_config_save True c' = (HYBBX_OK, Some file)
     \<and> hybbx_config_load (\<lambda>_. True) (Some file) = (HYBBX_ERR_NOMEM, config_empty)"
proof -
  let ?e = "e\<lparr>ce_value := v\<rparr>"
  have "find_slot (config_matches section key) (es @ e # fs) = Some (length es)"
    using assms(2-4) by (induction es) (auto simp: config_matches_def)
  then have set: "hybbx_config_set (\<lambda>_. True) 0 c section key v
      = (HYBBX_OK, c\<lparr>cf_entries := es @ ?e # fs\<rparr>, 1)"
    by (simp add: hybbx_config_set_def assms(1))
  have es: "\<forall>e \<in> set es. clean_entry e \<and> length (reload_value (ce_value e)) < CONFIG_VALUE_MAX"
    using assms(2) by blast
  from config_load_save_from [OF es, of None "[]" config_empty 0 "?e # fs"] obtain current' cur' c1 k1 where
    l: "config_load_loop (\<lambda>_. True) ([], config_empty, 0) (config_save_from None (es @ ?e # fs))
      = config_load_loop (\<lambda>_. True) (cur', c1, k1) (config_save_from current' (?e # fs))"
    "current' = None \<or> current' = Some cur'" by blast
  have "config_load_loop (\<lambda>_. True) (cur', c1, k1) (config_save_from current' (?e # fs)) = Inl HYBBX_ERR_NOMEM"
    unfolding config_load_head [OF assms(5) l(2)] config_load_entry_line [OF assms(5)]
    using assms(6) by (simp add: append_entry_def)
  with l(1) set show ?thesis by (simp add: hybbx_config_save_def hybbx_config_load_def)
qed

theorem config_long_value_unloadable_witness:
  "\<exists>c' k file. hybbx_config_set (\<lambda>_. True) 0 config_example ''core'' ''name'' (replicate 256 CHR ''x'')
        = (HYBBX_OK, c', k)
     \<and> hybbx_config_save True c' = (HYBBX_OK, Some file)
     \<and> hybbx_config_load (\<lambda>_. True) (Some file) = (HYBBX_ERR_NOMEM, config_empty)"
proof -
  let ?v = "replicate 256 CHR ''x''"
  have sp: "\<not> c_isspace (CHR ''x'')" by (simp add: c_isspace_def)
  have q: "strip_inline_comment_inplace ?v = ?v"
    unfolding strip_inline_comment_inplace_def
    by (subst strip_comment_scan_id) (simp_all add: rstrip_id sp)
  have "hd ?v = CHR ''x''" by simp
  then have "reload_value ?v = ?v" unfolding reload_value_def q strip_quotes_def by simp
  then show ?thesis
    by (intro config_long_value_unloadable [where es = "[]" and e = "hd (cf_entries config_example)"
          and fs = "tl (cf_entries config_example)"])
      (simp_all add: config_example_def clean_entry_def clean_text_def trimmed_def config_consts sp
        c_isspace_def)
qed

text \<open>
  The store keeps what is set: after any sequence of settings of distinct keys whose lengths
  the parser accepts, each of them is read back with its last value, and every other key reads as
  before, whatever the configuration was.
\<close>

theorem config_set_all_get:
  assumes "distinct (map fst kvs)" and "\<forall>(sk, v) \<in> set kvs. config_accepts sk v"
    and "c' = foldl (\<lambda>c ((section, key), v). fst (snd (hybbx_config_set (\<lambda>_. True) 0 c section key v))) c kvs"
  shows "(\<forall>((section, key), v) \<in> set kvs. hybbx_config_get c' section key d = Some v)
     \<and> (\<forall>section key. (section, key) \<notin> fst ` set kvs \<longrightarrow>
           hybbx_config_get c' section key d = hybbx_config_get c section key d)"
proof -
  have c': "c' = foldl (\<lambda>c (sk, v). config_put (\<lambda>_. True) c sk v) c kvs"
    unfolding assms(3) config_put_def by (rule foldl_cong) auto
  have get: "hybbx_config_get c s k d = (case config_look c (s, k) of None \<Rightarrow> d | Some v \<Rightarrow> Some v)" for c s k
    by (simp add: config_look_def hybbx_config_get_def split: option.splits)
  have ok: "\<forall>s::config. \<forall>(k, v) \<in> set kvs. config_accepts k v" using assms(2) by simp
  show ?thesis
    unfolding get c'
    using config_store.look_foldl [OF ok assms(1)] config_store.look_foldl_other by fastforce
qed

theorem config_set_all_get_witness:
  "hybbx_config_get
     (foldl (\<lambda>c ((section, key), v). fst (snd (hybbx_config_set (\<lambda>_. True) 0 c section key v)))
        config_example [((''core'', ''name''), ''A''), ((''x'', ''y''), ''z'')]) ''web'' ''port'' None
   = Some ''8080 ; http''"
proof -
  let ?kvs = "[((''core'', ''name''), ''A''), ((''x'', ''y''), ''z'')]"
  have "\<forall>(sk, v) \<in> set ?kvs. config_accepts sk v" by (simp add: config_accepts_def config_consts)
  moreover have "(''web'', ''port'') \<notin> fst ` set ?kvs" by simp
  moreover have "hybbx_config_get config_example ''web'' ''port'' None = Some ''8080 ; http''"
    by (simp add: config_example_def hybbx_config_get_def config_matches_def)
  moreover have "distinct (map fst ?kvs)" by simp
  ultimately show ?thesis
    using config_set_all_get [of ?kvs _ config_example None, OF _ _ refl] by fastforce
qed

text \<open>
  The entry array is never overrun: from a loaded configuration, whichever memory requests
  fail, after any sequence of settings and section removals the entries fit the slots the array
  was given.
\<close>

theorem config_array_bounds:
  assumes "hybbx_config_load mal file = (HYBBX_OK, c)"
  shows "length (cf_entries (fst (foldl (config_run mal') (c, k) ops)))
         \<le> cf_slots (fst (foldl (config_run mal') (c, k) ops))"
proof -
  have "config_slots_ok c"
  proof (cases "config_load_loop mal ([], config_empty, 0) (the file)")
    case (Inr st)
    moreover have "config_slots_ok config_empty" by (simp add: config_slots_ok_def config_empty_def)
    ultimately show ?thesis
      using assms config_load_slots [of mal "([], config_empty, 0)" "the file"]
      by (cases st) (auto simp: hybbx_config_load_def split: option.splits)
  qed (use assms in \<open>auto simp: hybbx_config_load_def config_slots_ok_def config_empty_def split: option.splits\<close>)
  then have "config_slots_ok (fst (foldl (config_run mal') (c, k) ops))"
  proof (induction ops arbitrary: c k)
    case Nil
    then show ?case by simp
  next
    case (Cons op ops)
    from config_run_slots [OF Cons.prems, of mal' k op] Cons.IH show ?case
      by (cases "config_run mal' (c, k) op") simp
  qed
  then show ?thesis by (simp add: config_slots_ok_def)
qed

theorem config_array_bounds_witness:
  "length (cf_entries (fst (foldl (config_run (\<lambda>_. True)) (config_empty, 0) [ConfigSet ''a'' ''b'' ''c''])))
     \<le> cf_slots (fst (foldl (config_run (\<lambda>_. True)) (config_empty, 0) [ConfigSet ''a'' ''b'' ''c'']))"
  by (rule config_array_bounds [of "\<lambda>_. True" "Some []"])
    (simp add: hybbx_config_load_def config_load_loop.simps)

text \<open>
  Numbers read from the configuration stay in the caller's range: a key that is missing, empty
  or not a number gives the default, any other value is clamped, and a decimal in range is read
  exactly.
\<close>

theorem config_get_uint_clamped:
  assumes "lo \<le> d" and "d \<le> hi"
  shows "lo \<le> hybbx_config_get_uint c section key d lo hi \<and> hybbx_config_get_uint c section key d lo hi \<le> hi
     \<and> (\<forall>n. hybbx_config_get c section key None = Some (dec_of_nat n) \<and> n \<le> c_ulong_max \<longrightarrow>
            hybbx_config_get_uint c section key d lo hi = max lo (min n hi))"
  using assms
  by (auto simp: hybbx_config_get_uint_def c_strtoul_dec_of_nat split: option.splits prod.splits)

theorem config_get_uint_clamped_witness:
  "hybbx_config_get_uint config_example ''web'' ''port'' 80 1 65535 \<le> 65535"
  using config_get_uint_clamped [of 1 80 65535 config_example "''web''" "''port''"] by simp

text \<open>
  The start string of a plugin: when the builder returns, whatever requests for memory it made,
  its text is exactly the key=value texts of the plugin's section, or of its numbered sections in
  file order without repetition, joined by the instance separator; no text is cut by a buffer.
\<close>

theorem config_transport_start_string:
  assumes "hybbx_config_format_transport_sections mal c plugin = Some start"
  shows "\<exists>secs. secs = rev (remdups (rev ((if config_section_has_keys c (transport_prefix plugin)
                                         then [transport_prefix plugin] else [])
                  @ List.filter (numbered_section c (transport_prefix plugin)) (map ce_section (cf_entries c)))))
     \<and> start = (if secs = [] then join_with '';'' (section_pairs c (transport_prefix plugin))
                else join_with [INSTANCE_SEP] (map (\<lambda>s. join_with '';'' (section_pairs c s)) secs))"
proof -
  let ?p = "transport_prefix plugin"
  let ?names = "(if config_section_has_keys c ?p then [?p] else [])
     @ List.filter (numbered_section c ?p) (map ce_section (cf_entries c))"
  let ?secs = "rev (remdups (rev ?names))"
  from assms obtain secs cap k where ts: "transport_sections mal c ?p = Some (secs, cap, k)"
    by (auto simp: hybbx_config_format_transport_sections_def Let_def split: option.splits)
  then have "foldl (\<lambda>st sec. format_transport_section_add mal sec st) (Some ([], 0, 0)) ?names
      = Some (secs, cap, k)"
    unfolding transport_sections_def foldl_append foldl_filter_map by (simp split: if_splits)
  from transport_fold [OF _ this] have secs: "secs = ?secs" by simp
  then have keys: "\<forall>s \<in> set secs. section_pairs c s \<noteq> []"
    by (auto simp: numbered_section_def section_pairs_nonempty split: if_splits)
  show ?thesis
  proof (cases "secs = []")
    case True
    then have "map_option fst (hybbx_config_format_section mal k c ?p) = Some start"
      using assms ts by (simp add: hybbx_config_format_transport_sections_def)
    then have "start = join_with '';'' (section_pairs c ?p)" using format_section_text by auto
    with True have "start = (if secs = [] then join_with '';'' (section_pairs c ?p)
        else join_with [INSTANCE_SEP] (map (\<lambda>s. join_with '';'' (section_pairs c s)) secs))" by simp
    with secs show ?thesis by blast
  next
    case False
    then obtain cap' k' where "foldl (join_section mal c) (Some ([], 64, k + 1)) secs = Some (start, cap', k')"
      using assms ts by (auto simp: hybbx_config_format_transport_sections_def split: if_splits)
    from join_sections_text [OF this keys] False
    have "start = (if secs = [] then join_with '';'' (section_pairs c ?p)
        else join_with [INSTANCE_SEP] (map (\<lambda>s. join_with '';'' (section_pairs c s)) secs))" by simp
    with secs show ?thesis by blast
  qed
qed

theorem config_transport_start_string_witness:
  "\<exists>start. hybbx_config_format_transport_sections (\<lambda>_. True)
       \<lparr>cf_entries = [\<lparr>ce_section = ''transport.tcp2'', ce_key = ''p'', ce_value = ''1''\<rparr>], cf_slots = 32\<rparr> ''tcp''
       = Some start
     \<and> start = ''p=1''"
proof -
  let ?c = "\<lparr>cf_entries = [\<lparr>ce_section = ''transport.tcp2'', ce_key = ''p'', ce_value = ''1''\<rparr>], cf_slots = 32\<rparr>"
  have p: "transport_prefix ''tcp'' = ''transport.tcp''" by (simp add: transport_prefix_def c_snprintf_def)
  have k: "\<not> config_section_has_keys ?c ''transport.tcp''"
    "List.filter (numbered_section ?c ''transport.tcp'') (map ce_section (cf_entries ?c)) = [''transport.tcp2'']"
    by (simp_all add: config_section_has_keys_def numbered_section_def config_suffix_is_digits_def
        c_isdigit_def)
  have "hybbx_config_format_transport_sections (\<lambda>_. True) ?c ''tcp'' \<noteq> None"
    using k by (simp add: hybbx_config_format_transport_sections_def p transport_sections_def Let_def
        format_transport_section_add_def join_section_def hybbx_config_format_section_def
        format_entry_def numbered_section_def config_section_has_keys_def config_suffix_is_digits_def
        c_isdigit_def)
  then obtain start where s: "hybbx_config_format_transport_sections (\<lambda>_. True) ?c ''tcp'' = Some start"
    by blast
  from config_transport_start_string [OF s] have "start = ''p=1''"
    unfolding p using k by (simp add: section_pairs_def)
  with s show ?thesis by blast
qed

end
