(* ===== verification/Link_Auth.thy ===== *)
theory Link_Auth imports Util Circuit begin

text \<open>
  The LINK_AUTH message of a circuit: \<^verbatim>\<open>src/clients/link_auth.c\<close> and the structure in
  \<^verbatim>\<open>include/hybbx/link.h\<close>.  The text is a string, a returned length 0 the empty string;
  on the wire its characters are bytes.
\<close>

section \<open>Data\<close>

definition LINK_PASSWORD_SIZE :: nat where "LINK_PASSWORD_SIZE = 128"
definition LINK_ROLE_MAX :: nat where "LINK_ROLE_MAX = 32"
definition LINK_ID_MAX :: nat where "LINK_ID_MAX = 64"
definition LINK_CODE_MAX :: nat where "LINK_CODE_MAX = 16"
definition LINK_SCRATCH_SIZE :: nat where "LINK_SCRATCH_SIZE = 128"

lemmas link_consts = LINK_PASSWORD_SIZE_def LINK_ROLE_MAX_def LINK_ID_MAX_def LINK_CODE_MAX_def
  LINK_SCRATCH_SIZE_def

record link_auth =
  la_password :: string
  la_role :: string
  la_id :: string
  la_baud :: u32
  la_duplex :: int
  la_bandwidth :: string
  la_frequency_mhz :: string

definition hybbx_link_auth_clear :: link_auth where
  "hybbx_link_auth_clear = \<lparr>la_password = [], la_role = [], la_id = [], la_baud = 0,
     la_duplex = 0, la_bandwidth = [], la_frequency_mhz = []\<rparr>"

section \<open>Reading a line\<close>

text \<open>The scratch buffer read as a C string.\<close>

definition c_string :: "string \<Rightarrow> string" where
  "c_string s = takeWhile (\<lambda>c. c \<noteq> CHR 0x00) s"

definition kv_value :: "string \<Rightarrow> nat \<Rightarrow> string" where
  "kv_value value scratch_len =
     c_string (take (scratch_len - 1)
       (rev (dropWhile (\<lambda>c. c = CHR 0x0D \<or> c = CHR 0x0A \<or> c = CHR '' '') (rev value))))"

function find_kv_line :: "string \<Rightarrow> string \<Rightarrow> nat \<Rightarrow> string option" where
  "find_kv_line payload key scratch_len =
     (if payload = [] then None
      else let line = takeWhile (\<lambda>c. c \<noteq> CHR 0x0A) payload;
               rest = dropWhile (\<lambda>c. c \<noteq> CHR 0x0A) payload
           in if CHR ''='' \<in> set line \<and> takeWhile (\<lambda>c. c \<noteq> CHR ''='') line = key
              then Some (kv_value (tl (dropWhile (\<lambda>c. c \<noteq> CHR ''='') line)) scratch_len)
              else if rest = [] then None
              else find_kv_line (tl rest) key scratch_len)"
  by pat_completeness auto
termination
proof (relation "measure (\<lambda>(payload, key, n). length payload)")
  fix payload key :: string and n :: nat and line rest :: string
  assume "rest = dropWhile (\<lambda>c. c \<noteq> CHR 0x0A) payload" and "rest \<noteq> []"
  then have "length (tl rest) < length rest" "length rest \<le> length payload"
    by (auto simp: length_dropWhile_le simp del: dropWhile_eq_Nil_conv)
  then show "((tl rest, key, n), payload, key, n) \<in> measure (\<lambda>(payload, key, n). length payload)"
    by simp
qed simp

declare find_kv_line.simps [simp del]

section \<open>Formatting and parsing\<close>

text \<open>One \<^verbatim>\<open>snprintf\<close> behind what is there, refused when the total does not fit.\<close>

definition format_line :: "nat \<Rightarrow> string option \<Rightarrow> string \<Rightarrow> string option" where
  "format_line out_cap acc line =
     (case acc of None \<Rightarrow> None
      | Some out \<Rightarrow> if length out + length line \<ge> out_cap then None else Some (out @ line))"

definition kv_line :: "string \<Rightarrow> string \<Rightarrow> string" where
  "kv_line key value = key @ ''='' @ value @ [CHR 0x0A]"

definition link_auth_text :: "link_auth \<Rightarrow> nat \<Rightarrow> string option" where
  "link_auth_text auth out_cap =
     (let s0 = format_line out_cap (Some [])
                 (kv_line ''password'' (la_password auth)
                  @ kv_line ''role'' (if la_role auth \<noteq> [] then la_role auth else ''link'')
                  @ kv_line ''id'' (la_id auth));
          s1 = (if la_baud auth > 0
                then format_line out_cap s0 (kv_line ''baud'' (dec_of_nat (unat (la_baud auth)))) else s0);
          s2 = (if la_duplex auth = 1 then format_line out_cap s1 (kv_line ''duplex'' ''half'')
                else if la_duplex auth = 2 then format_line out_cap s1 (kv_line ''duplex'' ''full'')
                else s1);
          s3 = (if la_bandwidth auth \<noteq> []
                then format_line out_cap s2 (kv_line ''bandwidth'' (la_bandwidth auth)) else s2)
      in if la_frequency_mhz auth \<noteq> []
         then format_line out_cap s3 (kv_line ''frequency_mhz'' (la_frequency_mhz auth)) else s3)"

definition hybbx_link_auth_format :: "link_auth \<Rightarrow> nat \<Rightarrow> string" where
  "hybbx_link_auth_format auth out_cap =
     (if out_cap = 0 \<or> la_password auth = [] \<or> la_id auth = [] then []
      else case link_auth_text auth out_cap of None \<Rightarrow> [] | Some out \<Rightarrow> out)"

definition link_copy :: "string \<Rightarrow> nat \<Rightarrow> string" where
  "link_copy src cap = snd (hybbx_strlcpy [] (Some src) cap)"

text \<open>The optional lines, each with the value found, if any.\<close>

definition parse_baud :: "string option \<Rightarrow> link_auth \<Rightarrow> link_auth" where
  "parse_baud v auth =
     (case v of None \<Rightarrow> auth
      | Some s \<Rightarrow> let baud = fst (c_strtoul s) in
          if baud > 0 then auth\<lparr>la_baud := of_nat baud\<rparr> else auth)"

definition parse_duplex :: "string option \<Rightarrow> link_auth \<Rightarrow> link_auth" where
  "parse_duplex v auth =
     (case v of None \<Rightarrow> auth
      | Some d \<Rightarrow>
          if d = ''full'' \<or> d = ''full-duplex'' then auth\<lparr>la_duplex := 2\<rparr>
          else if d = ''half'' \<or> d = ''half-duplex'' \<or> d = ''simplex'' then auth\<lparr>la_duplex := 1\<rparr>
          else auth)"

definition parse_bandwidth :: "string option \<Rightarrow> link_auth \<Rightarrow> link_auth" where
  "parse_bandwidth v auth =
     (case v of None \<Rightarrow> auth | Some w \<Rightarrow> auth\<lparr>la_bandwidth := link_copy w LINK_CODE_MAX\<rparr>)"

definition parse_frequency :: "string option \<Rightarrow> string option \<Rightarrow> link_auth \<Rightarrow> link_auth" where
  "parse_frequency mhz plain auth =
     (case mhz of Some f \<Rightarrow> auth\<lparr>la_frequency_mhz := link_copy f LINK_CODE_MAX\<rparr>
      | None \<Rightarrow> (case plain of Some f \<Rightarrow> auth\<lparr>la_frequency_mhz := link_copy f LINK_CODE_MAX\<rparr>
                 | None \<Rightarrow> auth))"

definition hybbx_link_auth_parse :: "string \<Rightarrow> hybbx_result \<times> link_auth" where
  "hybbx_link_auth_parse payload =
     (case find_kv_line payload ''password'' LINK_SCRATCH_SIZE of
        None \<Rightarrow> (HYBBX_ERR_INVALID, hybbx_link_auth_clear)
      | Some pw \<Rightarrow>
         (case find_kv_line payload ''id'' LINK_SCRATCH_SIZE of
            None \<Rightarrow> (HYBBX_ERR_INVALID,
                     hybbx_link_auth_clear\<lparr>la_password := link_copy pw LINK_PASSWORD_SIZE\<rparr>)
          | Some ident \<Rightarrow>
              (HYBBX_OK,
               parse_frequency (find_kv_line payload ''frequency_mhz'' LINK_SCRATCH_SIZE)
                               (find_kv_line payload ''frequency'' LINK_SCRATCH_SIZE)
                (parse_bandwidth (find_kv_line payload ''bandwidth'' LINK_SCRATCH_SIZE)
                 (parse_duplex (find_kv_line payload ''duplex'' LINK_SCRATCH_SIZE)
                  (parse_baud (find_kv_line payload ''baud'' LINK_SCRATCH_SIZE)
                   (hybbx_link_auth_clear
                      \<lparr>la_password := link_copy pw LINK_PASSWORD_SIZE,
                       la_id := link_copy ident LINK_ID_MAX,
                       la_role := link_copy
                         (case find_kv_line payload ''role'' LINK_SCRATCH_SIZE of
                            Some r \<Rightarrow> r | None \<Rightarrow> ''link'') LINK_ROLE_MAX\<rparr>)))))))"

section \<open>Lemmas\<close>

text \<open>A value that one line carries unchanged into a buffer of \<open>cap\<close> bytes.\<close>

definition line_value :: "nat \<Rightarrow> string \<Rightarrow> bool" where
  "line_value cap v \<longleftrightarrow> length v < cap \<and> CHR 0x0A \<notin> set v \<and> CHR 0x00 \<notin> set v
     \<and> (v = [] \<or> List.last v \<noteq> CHR '' '' \<and> List.last v \<noteq> CHR 0x0D)"

lemma kv_value_id: "line_value cap v \<Longrightarrow> cap \<le> 128 \<Longrightarrow> kv_value v LINK_SCRATCH_SIZE = v"
proof -
  assume v: "line_value cap v" and "cap \<le> 128"
  have "rev (dropWhile (\<lambda>c. c = CHR 0x0D \<or> c = CHR 0x0A \<or> c = CHR '' '') (rev v)) = v"
  proof (cases v rule: rev_cases)
    case (snoc ys y)
    with v show ?thesis by (auto simp: line_value_def)
  qed simp
  then show ?thesis
    using v \<open>cap \<le> 128\<close> by (simp add: kv_value_def c_string_def line_value_def link_consts takeWhile_all)
qed

lemma link_copy_id: "line_value cap v \<Longrightarrow> link_copy v cap = v"
  by (simp add: link_copy_def line_value_def strlcpy_fits)

lemma link_copy_length: "0 < cap \<Longrightarrow> length (link_copy s cap) < cap"
  by (auto simp: link_copy_def hybbx_strlcpy_value)

lemma find_kv_line_cons:
  assumes "CHR ''='' \<notin> set k" and "CHR 0x0A \<notin> set k" and "CHR 0x0A \<notin> set v"
  shows "find_kv_line (kv_line k v @ rest) key n
     = (if k = key then Some (kv_value v n) else find_kv_line rest key n)"
proof -
  let ?line = "k @ CHR ''='' # v"
  define p where "p = kv_line k v @ rest"
  have nl: "CHR 0x0A \<notin> set ?line" using assms(2,3) by simp
  have p: "p = ?line @ CHR 0x0A # rest" by (simp add: kv_line_def p_def)
  have tw: "takeWhile (\<lambda>c. c \<noteq> CHR 0x0A) p = ?line"
    "dropWhile (\<lambda>c. c \<noteq> CHR 0x0A) p = CHR 0x0A # rest"
    unfolding p using takeWhile_until [OF nl] dropWhile_until [OF nl] by auto
  have "p \<noteq> []" by (simp add: p)
  then have "find_kv_line p key n = (if k = key then Some (kv_value v n) else find_kv_line rest key n)"
    unfolding find_kv_line.simps [of p key n] Let_def tw
    using takeWhile_until [OF assms(1), of v] dropWhile_until [OF assms(1), of v]
    by (cases "k = key") auto
  then show ?thesis by (simp add: p_def)
qed

lemma find_kv_line_Nil: "find_kv_line [] key n = None"
  by (simp add: find_kv_line.simps)

lemma find_kv_lines:
  "\<forall>(k, v) \<in> set kvs. CHR ''='' \<notin> set k \<and> CHR 0x0A \<notin> set k \<and> CHR 0x0A \<notin> set v \<Longrightarrow>
   find_kv_line (concat (map (\<lambda>(k, v). kv_line k v) kvs)) key n
     = map_option (\<lambda>v. kv_value v n) (map_of kvs key)"
  by (induction kvs) (auto simp: find_kv_line_Nil find_kv_line_cons)

definition link_auth_fields :: "link_auth \<Rightarrow> (string \<times> string) list" where
  "link_auth_fields a =
     [(''password'', la_password a), (''role'', if la_role a \<noteq> [] then la_role a else ''link''),
      (''id'', la_id a)]
     @ (if la_baud a > 0 then [(''baud'', dec_of_nat (unat (la_baud a)))] else [])
     @ (if la_duplex a = 1 then [(''duplex'', ''half'')]
        else if la_duplex a = 2 then [(''duplex'', ''full'')] else [])
     @ (if la_bandwidth a \<noteq> [] then [(''bandwidth'', la_bandwidth a)] else [])
     @ (if la_frequency_mhz a \<noteq> [] then [(''frequency_mhz'', la_frequency_mhz a)] else [])"

text \<open>Text that fits, or nothing.\<close>

definition fitting :: "nat \<Rightarrow> string \<Rightarrow> string option" where
  "fitting cap t = (if length t < cap then Some t else None)"

lemma format_line_fitting: "format_line cap (fitting cap t) line = fitting cap (t @ line)"
  by (auto simp: format_line_def fitting_def)

lemma format_line_optional:
  "(if b then format_line cap (fitting cap t) l else fitting cap t) = fitting cap (t @ (if b then l else []))"
  "(if b then format_line cap (fitting cap t) l else fitting cap (t @ m)) = fitting cap (t @ (if b then l else m))"
  by (simp_all add: format_line_fitting)

lemma concat_lines_optional:
  "concat (map f (if b then [x] else [])) = (if b then f x else [])"
  "concat (map f (if b then [x] else if c then [y] else [])) = (if b then f x else if c then f y else [])"
  by simp_all

lemma link_auth_text_fields:
  "0 < cap \<Longrightarrow> link_auth_text a cap = fitting cap (concat (map (\<lambda>(k, v). kv_line k v) (link_auth_fields a)))"
proof -
  assume "0 < cap"
  then have start: "format_line cap (Some []) l = fitting cap l" for l
    using format_line_fitting [of cap "[]" l] by (simp add: fitting_def)
  show ?thesis
    unfolding link_auth_text_def Let_def start format_line_optional link_auth_fields_def map_append
      concat_append concat_lines_optional prod.case
    by simp
qed

text \<open>An announcement whose values one line each can carry.\<close>

definition link_auth_ok :: "link_auth \<Rightarrow> bool" where
  "link_auth_ok a \<longleftrightarrow> la_password a \<noteq> [] \<and> la_id a \<noteq> []
     \<and> line_value LINK_PASSWORD_SIZE (la_password a) \<and> line_value LINK_ROLE_MAX (la_role a)
     \<and> line_value LINK_ID_MAX (la_id a) \<and> line_value LINK_CODE_MAX (la_bandwidth a)
     \<and> line_value LINK_CODE_MAX (la_frequency_mhz a) \<and> la_duplex a \<in> {0, 1, 2}"

definition link_auth_read :: "link_auth \<Rightarrow> link_auth" where
  "link_auth_read a = (if la_role a = [] then a\<lparr>la_role := ''link''\<rparr> else a)"

lemma dec_of_nat_no_newline: "CHR 0x0A \<notin> set (dec_of_nat n)" "CHR 0x00 \<notin> set (dec_of_nat n)"
  using dec_of_nat_digits [of n] by (auto simp: c_isdigit_def)

lemma dec_of_nat_line_value: "line_value 128 (dec_of_nat (unat (b :: u32)))"
proof -
  have "unat b < 2 ^ LENGTH(32)" by (rule unsigned_less)
  then have "unat b < 10 ^ 10" by simp
  from dec_of_nat_length [OF _ this] have "length (dec_of_nat (unat b)) < 128" by simp
  moreover have "List.last (dec_of_nat (unat b)) \<in> set (dec_of_nat (unat b))" by simp
  with dec_of_nat_digits [of "unat b"] have "c_isdigit (List.last (dec_of_nat (unat b)))" by blast
  ultimately show ?thesis
    using dec_of_nat_no_newline by (auto simp: line_value_def c_isdigit_def)
qed

lemma link_auth_fields_lines:
  "link_auth_ok a \<Longrightarrow>
   \<forall>(k, v) \<in> set (link_auth_fields a). CHR ''='' \<notin> set k \<and> CHR 0x0A \<notin> set k \<and> CHR 0x0A \<notin> set v"
proof -
  assume ok: "link_auth_ok a"
  let ?P = "\<lambda>(k, v). CHR ''='' \<notin> set k \<and> CHR 0x0A \<notin> set k \<and> CHR 0x0A \<notin> set v"
  have one: "\<forall>p \<in> set (if b then [x] else []). ?P p" if "?P x" for b x
    using that by simp
  have two: "\<forall>p \<in> set (if b then [x] else if c then [y] else []). ?P p" if "?P x" "?P y" for b c x y
    using that by simp
  have nl: "CHR 0x0A \<notin> set (la_password a)" "CHR 0x0A \<notin> set (la_role a)" "CHR 0x0A \<notin> set (la_id a)"
    "CHR 0x0A \<notin> set (la_bandwidth a)" "CHR 0x0A \<notin> set (la_frequency_mhz a)"
    using ok by (auto simp: link_auth_ok_def line_value_def)
  have "\<forall>p \<in> set [(''password'', la_password a),
      (''role'', if la_role a \<noteq> [] then la_role a else ''link''), (''id'', la_id a)]. ?P p"
    using nl by simp
  then show ?thesis
    unfolding link_auth_fields_def set_append ball_Un
    by (intro conjI one two) (simp_all add: nl dec_of_nat_no_newline)
qed

lemma map_of_optional:
  "map_of (if b then [(k, v)] else []) key = (if b \<and> key = k then Some v else None)"
  "map_of ((if b then [(k, v)] else []) @ rest) key = (if b \<and> key = k then Some v else map_of rest key)"
  by auto

lemma map_of_optional2:
  "map_of ((if b then [(k, v)] else if c then [(k', v')] else []) @ rest) key
     = (if b then (if key = k then Some v else map_of rest key)
        else if c \<and> key = k' then Some v' else map_of rest key)"
  by auto

lemma link_auth_parse_fields:
  assumes "link_auth_ok a"
  shows "hybbx_link_auth_parse (concat (map (\<lambda>(k, v). kv_line k v) (link_auth_fields a)))
     = (HYBBX_OK, link_auth_read a)"
proof -
  note find = find_kv_lines [OF link_auth_fields_lines [OF assms]]
  have val: "kv_value (la_password a) LINK_SCRATCH_SIZE = la_password a"
    "kv_value (la_role a) LINK_SCRATCH_SIZE = la_role a" "kv_value (la_id a) LINK_SCRATCH_SIZE = la_id a"
    "kv_value (la_bandwidth a) LINK_SCRATCH_SIZE = la_bandwidth a"
    "kv_value (la_frequency_mhz a) LINK_SCRATCH_SIZE = la_frequency_mhz a"
    "kv_value (dec_of_nat (unat (la_baud a))) LINK_SCRATCH_SIZE = dec_of_nat (unat (la_baud a))"
    using assms kv_value_id dec_of_nat_line_value [of "la_baud a"]
    by (auto simp: link_auth_ok_def link_consts)
  have "line_value 128 ''link''" "line_value 128 ''half''" "line_value 128 ''full''"
    by (simp_all add: line_value_def)
  then have lit: "kv_value ''link'' LINK_SCRATCH_SIZE = ''link''" "kv_value ''half'' LINK_SCRATCH_SIZE = ''half''"
    "kv_value ''full'' LINK_SCRATCH_SIZE = ''full''" using kv_value_id by blast+
  have copy: "link_copy (la_password a) LINK_PASSWORD_SIZE = la_password a"
    "link_copy (la_role a) LINK_ROLE_MAX = la_role a" "link_copy (la_id a) LINK_ID_MAX = la_id a"
    "link_copy (la_bandwidth a) LINK_CODE_MAX = la_bandwidth a"
    "link_copy (la_frequency_mhz a) LINK_CODE_MAX = la_frequency_mhz a" "link_copy ''link'' LINK_ROLE_MAX = ''link''"
    using assms by (simp_all add: link_auth_ok_def link_copy_id)
      (simp add: link_copy_def strlcpy_fits link_consts)
  have "unat (la_baud a) < 2 ^ LENGTH(32)" by (rule unsigned_less)
  then have baud: "c_strtoul (dec_of_nat (unat (la_baud a))) = (unat (la_baud a), [])"
    by (intro c_strtoul_dec_of_nat) (simp add: c_ulong_max_def)
  have pos: "0 < unat (la_baud a) \<longleftrightarrow> 0 < la_baud a" by (simp add: word_less_nat_alt)
  have dup: "la_duplex a = 0 \<or> la_duplex a = 1 \<or> la_duplex a = 2" using assms by (auto simp: link_auth_ok_def)
  have get: "map_of (link_auth_fields a) ''password'' = Some (la_password a)"
    "map_of (link_auth_fields a) ''role'' = Some (if la_role a \<noteq> [] then la_role a else ''link'')"
    "map_of (link_auth_fields a) ''id'' = Some (la_id a)"
    "map_of (link_auth_fields a) ''baud'' = (if la_baud a > 0 then Some (dec_of_nat (unat (la_baud a))) else None)"
    "map_of (link_auth_fields a) ''duplex'' = (if la_duplex a = 1 then Some ''half''
       else if la_duplex a = 2 then Some ''full'' else None)"
    "map_of (link_auth_fields a) ''bandwidth'' = (if la_bandwidth a \<noteq> [] then Some (la_bandwidth a) else None)"
    "map_of (link_auth_fields a) ''frequency_mhz'' = (if la_frequency_mhz a \<noteq> [] then Some (la_frequency_mhz a) else None)"
    "map_of (link_auth_fields a) ''frequency'' = None"
    by (simp_all add: link_auth_fields_def map_of_optional map_of_optional2)
  have role: "kv_value (if la_role a \<noteq> [] then la_role a else ''link'') LINK_SCRATCH_SIZE
      = (if la_role a \<noteq> [] then la_role a else ''link'')" using val(2) lit(1) by simp
  have b4: "parse_baud (map_option (\<lambda>v. kv_value v LINK_SCRATCH_SIZE)
        (if la_baud a > 0 then Some (dec_of_nat (unat (la_baud a))) else None)) x
      = x\<lparr>la_baud := la_baud a\<rparr>" if "la_baud x = 0" for x :: link_auth
    using that by (cases x) (simp add: parse_baud_def val baud pos word_gt_0)
  have b5: "parse_duplex (map_option (\<lambda>v. kv_value v LINK_SCRATCH_SIZE)
        (if la_duplex a = 1 then Some ''half'' else if la_duplex a = 2 then Some ''full'' else None)) x
      = x\<lparr>la_duplex := la_duplex a\<rparr>" if "la_duplex x = 0" for x :: link_auth
    using that dup by (cases x) (auto simp: parse_duplex_def lit)
  have b6: "parse_bandwidth (map_option (\<lambda>v. kv_value v LINK_SCRATCH_SIZE)
        (if la_bandwidth a \<noteq> [] then Some (la_bandwidth a) else None)) x
      = x\<lparr>la_bandwidth := la_bandwidth a\<rparr>" if "la_bandwidth x = []" for x :: link_auth
    using that by (cases x) (simp add: parse_bandwidth_def val copy)
  have b7: "parse_frequency (map_option (\<lambda>v. kv_value v LINK_SCRATCH_SIZE)
        (if la_frequency_mhz a \<noteq> [] then Some (la_frequency_mhz a) else None)) None x
      = x\<lparr>la_frequency_mhz := la_frequency_mhz a\<rparr>" if "la_frequency_mhz x = []" for x :: link_auth
    using that by (cases x) (simp add: parse_frequency_def val copy)
  have x: "link_auth_read a = \<lparr>la_password = la_password a,
      la_role = if la_role a \<noteq> [] then la_role a else ''link'', la_id = la_id a, la_baud = la_baud a,
      la_duplex = la_duplex a, la_bandwidth = la_bandwidth a, la_frequency_mhz = la_frequency_mhz a\<rparr>"
    by (cases a) (simp add: link_auth_read_def)
  have cr: "link_copy (if la_role a \<noteq> [] then la_role a else ''link'') LINK_ROLE_MAX
      = (if la_role a \<noteq> [] then la_role a else ''link'')" using copy(2,6) by simp
  show ?thesis
    unfolding hybbx_link_auth_parse_def find get
    by (simp add: hybbx_link_auth_clear_def b4 b5 b6 b7 x val role copy cr)
qed

section \<open>Properties\<close>

text \<open>
  LINK_AUTH round trip: an announcement whose values fit their fields and hold no line ends is
  formatted exactly when its text fits the buffer, and the peer parses that text to the same
  announcement, with the role link where none was given.
\<close>

theorem link_auth_roundtrip:
  assumes "link_auth_ok a"
    and "t = concat (map (\<lambda>(k, v). kv_line k v) (link_auth_fields a))"
  shows "hybbx_link_auth_format a cap = (if length t < cap then t else [])
     \<and> hybbx_link_auth_parse t = (HYBBX_OK, if la_role a = [] then a\<lparr>la_role := ''link''\<rparr> else a)"
  using link_auth_parse_fields [OF assms(1)] link_auth_text_fields [of cap a] assms
  by (cases "cap = 0")
    (auto simp: hybbx_link_auth_format_def fitting_def link_auth_read_def link_auth_ok_def)

definition link_auth_example :: link_auth where
  "link_auth_example = \<lparr>la_password = ''s3cret'', la_role = [], la_id = ''UN1TME-7'', la_baud = 1200,
     la_duplex = 1, la_bandwidth = ''12.5'', la_frequency_mhz = []\<rparr>"

lemma link_auth_example_ok: "link_auth_ok link_auth_example"
  by (simp add: link_auth_example_def link_auth_ok_def line_value_def link_consts)

theorem link_auth_roundtrip_witness:
  "hybbx_link_auth_parse
     (concat (map (\<lambda>(k, v). kv_line k v) (link_auth_fields link_auth_example)))
     = (HYBBX_OK, link_auth_example\<lparr>la_role := ''link''\<rparr>)"
  using link_auth_roundtrip [OF link_auth_example_ok refl, of 512] by (simp add: link_auth_example_def)

text \<open>
  Parsing any received text is safe and total: it succeeds exactly when a password line and an
  id line are present, every text field then fits its array with its terminator, and the duplex
  code is 0, 1 or 2.
\<close>

theorem link_auth_parse_total:
  "(fst (hybbx_link_auth_parse t) = HYBBX_OK \<longleftrightarrow>
      find_kv_line t ''password'' LINK_SCRATCH_SIZE \<noteq> None \<and> find_kv_line t ''id'' LINK_SCRATCH_SIZE \<noteq> None)
   \<and> fst (hybbx_link_auth_parse t) \<in> {HYBBX_OK, HYBBX_ERR_INVALID}
   \<and> length (la_password (snd (hybbx_link_auth_parse t))) < LINK_PASSWORD_SIZE
   \<and> length (la_role (snd (hybbx_link_auth_parse t))) < LINK_ROLE_MAX
   \<and> length (la_id (snd (hybbx_link_auth_parse t))) < LINK_ID_MAX
   \<and> length (la_bandwidth (snd (hybbx_link_auth_parse t))) < LINK_CODE_MAX
   \<and> length (la_frequency_mhz (snd (hybbx_link_auth_parse t))) < LINK_CODE_MAX
   \<and> la_duplex (snd (hybbx_link_auth_parse t)) \<in> {0, 1, 2}"
proof -
  have sizes: "0 < LINK_PASSWORD_SIZE" "0 < LINK_ROLE_MAX" "0 < LINK_ID_MAX" "0 < LINK_CODE_MAX"
    by (simp_all add: link_consts)
  note copy = link_copy_length [OF sizes(1)] link_copy_length [OF sizes(2)]
    link_copy_length [OF sizes(3)] link_copy_length [OF sizes(4)]
  define D :: "int set" where "D = {0, 1, 2}"
  have D: "0 \<in> D" by (simp add: D_def)
  have baud: "la_password (parse_baud v x) = la_password x" "la_role (parse_baud v x) = la_role x"
    "la_id (parse_baud v x) = la_id x" "la_bandwidth (parse_baud v x) = la_bandwidth x"
    "la_frequency_mhz (parse_baud v x) = la_frequency_mhz x" "la_duplex (parse_baud v x) = la_duplex x" for v x
    by (auto simp: parse_baud_def Let_def split: option.splits)
  have duplex: "la_password (parse_duplex v x) = la_password x" "la_role (parse_duplex v x) = la_role x"
    "la_id (parse_duplex v x) = la_id x" "la_bandwidth (parse_duplex v x) = la_bandwidth x"
    "la_frequency_mhz (parse_duplex v x) = la_frequency_mhz x"
    "la_duplex x = 0 \<Longrightarrow> la_duplex (parse_duplex v x) \<in> D" for v x
    by (auto simp: parse_duplex_def D_def split: option.splits)
  have bw: "la_password (parse_bandwidth v x) = la_password x" "la_role (parse_bandwidth v x) = la_role x"
    "la_id (parse_bandwidth v x) = la_id x" "la_frequency_mhz (parse_bandwidth v x) = la_frequency_mhz x"
    "la_duplex (parse_bandwidth v x) = la_duplex x"
    "length (la_bandwidth x) < LINK_CODE_MAX \<Longrightarrow> length (la_bandwidth (parse_bandwidth v x)) < LINK_CODE_MAX" for v x
    by (auto simp: parse_bandwidth_def copy split: option.splits)
  have fr: "la_password (parse_frequency v w x) = la_password x" "la_role (parse_frequency v w x) = la_role x"
    "la_id (parse_frequency v w x) = la_id x" "la_bandwidth (parse_frequency v w x) = la_bandwidth x"
    "la_duplex (parse_frequency v w x) = la_duplex x"
    "length (la_frequency_mhz x) < LINK_CODE_MAX \<Longrightarrow>
     length (la_frequency_mhz (parse_frequency v w x)) < LINK_CODE_MAX" for v w x
    by (auto simp: parse_frequency_def copy split: option.splits)
  show ?thesis
    unfolding hybbx_link_auth_parse_def D_def [symmetric]
    by (auto simp: baud duplex bw fr copy hybbx_link_auth_clear_def sizes D split: option.splits)
qed

text \<open>
  The announcement over a circuit: formatted, framed as LINK_AUTH, cut into reads anywhere and
  decoded, it is called back as one LINK_AUTH frame whose payload, read as text, parses to the same
  announcement; the message encoder refuses every other protocol.
\<close>

theorem link_auth_over_circuit:
  assumes "link_auth_ok a" and "circuit_idle d"
    and "t = hybbx_link_auth_format a cap" and "t \<noteq> []" and "length t \<le> CIRCUIT_MAX_PAYLOAD"
    and "CIRCUIT_HEADER_SIZE + length t \<le> length out"
    and "concat reads = circuit_sent (circuit_encode_link_msg PROTO_LINK_AUTH (bytes_of_string t) out)"
  shows "\<exists>payload. snd (run_reads circuit_step d reads) = [(PROTO_LINK_AUTH, FLAG_NONE, payload)]
     \<and> hybbx_link_auth_parse (string_of_bytes payload)
         = (HYBBX_OK, if la_role a = [] then a\<lparr>la_role := ''link''\<rparr> else a)
     \<and> (proto \<notin> {PROTO_LINK_AUTH, PROTO_LINK_AUTH_ACK} \<longrightarrow>
          circuit_encode_link_msg proto (bytes_of_string t) out = (0, out))"
proof -
  let ?f = "(PROTO_LINK_AUTH, FLAG_NONE, bytes_of_string t, out)"
  have enc: "circuit_sent (circuit_encode_link_msg PROTO_LINK_AUTH (bytes_of_string t) out) = circuit_send ?f"
    by (simp add: circuit_encode_link_msg_def circuit_send_def)
  have "circuit_send ?f \<noteq> []"
    using assms(5,6) by (simp add: circuit_send_def circuit_encode_sent circuit_wire_def)
  then have "snd (run_reads circuit_step d reads) = [(PROTO_LINK_AUTH, FLAG_NONE, bytes_of_string t)]"
    using circuit_link.decode_reads [OF assms(2), of "[?f]" reads] assms(7) enc by simp
  moreover have "hybbx_link_auth_parse t = (HYBBX_OK, link_auth_read a)"
  proof -
    have "t = concat (map (\<lambda>(k, v). kv_line k v) (link_auth_fields a))"
      using assms(3,4) link_auth_text_fields [of cap a]
      by (auto simp: hybbx_link_auth_format_def fitting_def split: if_splits)
    then show ?thesis using link_auth_parse_fields [OF assms(1)] by simp
  qed
  ultimately show ?thesis
    by (intro exI [of _ "bytes_of_string t"])
      (auto simp: link_auth_read_def circuit_encode_link_msg_def)
qed

theorem link_auth_over_circuit_witness:
  "\<exists>reads payload. snd (run_reads circuit_step circuit_decoder_init reads) = [(PROTO_LINK_AUTH, FLAG_NONE, payload)]
     \<and> hybbx_link_auth_parse (string_of_bytes payload) = (HYBBX_OK, link_auth_example\<lparr>la_role := ''link''\<rparr>)"
proof -
  let ?t = "hybbx_link_auth_format link_auth_example 512"
  let ?out = "replicate 524 0"
  let ?T = "concat (map (\<lambda>(k, v). kv_line k v) (link_auth_fields link_auth_example))"
  have T: "length ?T = 75"
    by (simp add: link_auth_example_def link_auth_fields_def kv_line_def dec_of_nat.simps)
  have "la_password link_auth_example \<noteq> []" "la_id link_auth_example \<noteq> []"
    by (simp_all add: link_auth_example_def)
  moreover have "link_auth_text link_auth_example 512 = fitting 512 ?T"
    by (rule link_auth_text_fields) simp
  ultimately have "?t = ?T" using T by (simp add: hybbx_link_auth_format_def fitting_def)
  with T have len: "length ?t = 75" by simp
  have "concat [circuit_sent (circuit_encode_link_msg PROTO_LINK_AUTH (bytes_of_string ?t) ?out)]
      = circuit_sent (circuit_encode_link_msg PROTO_LINK_AUTH (bytes_of_string ?t) ?out)" by simp
  moreover have "?t \<noteq> []" using len by auto
  moreover have "circuit_idle circuit_decoder_init" by (simp add: circuit_idle_def circuit_decoder_init_def)
  moreover have "la_role link_auth_example = []" by (simp add: link_auth_example_def)
  ultimately show ?thesis
    using link_auth_over_circuit [OF link_auth_example_ok _ refl, of circuit_decoder_init 512 ?out] len
    by (fastforce simp: circuit_consts)
qed

end
