(* ===== verification/Command_Parse.thy ===== *)
theory Command_Parse imports Util begin

text \<open>
  Command lines: \<^verbatim>\<open>src/core/command_parse.c\<close> and \<^verbatim>\<open>include/hybbx/command.h\<close>
  (the dispatcher declared there is not in this file).  Memory requests are numbered and answered
  by an oracle \<open>mal\<close>; None as a result is a dereferenced NULL pointer.
\<close>

section \<open>Data\<close>

definition CMD_TOKEN_MAX :: nat where "CMD_TOKEN_MAX = 16"

datatype command_scope = CMD_SCOPE_HYBBX | CMD_SCOPE_LOCAL | CMD_SCOPE_COMMENT

text \<open>A zeroed structure has no scope and NULL pointers; a zeroed argument slot is NULL.\<close>

record parsed_command =
  pc_scope :: "command_scope option"
  pc_line :: "string option"
  pc_verb :: "string option"
  pc_argv :: "string option list option"
  pc_argc :: nat

definition command_zero :: parsed_command where
  "command_zero = \<lparr>pc_scope = None, pc_line = None, pc_verb = None, pc_argv = None, pc_argc = 0\<rparr>"

section \<open>Strings\<close>

text \<open>The copy, if any, and the number of requests made so far.\<close>

definition cmd_strdup :: "(nat \<Rightarrow> bool) \<Rightarrow> nat \<Rightarrow> string \<Rightarrow> string option \<times> nat" where
  "cmd_strdup mal k s =
     (if \<not> hybbx_size_ok (length s + 1) then (None, k)
      else (if mal k then Some s else None, k + 1))"

definition skip_leading_space :: "string \<Rightarrow> string" where
  "skip_leading_space line = dropWhile c_isspace line"

text \<open>The returned code (minus one: not this alias) and what is left of the line.\<close>

definition strip_one_command_alias :: "string \<Rightarrow> string \<Rightarrow> int \<times> string" where
  "strip_one_command_alias rest alias =
     (if str_ieq rest alias then (1, rest)
      else if take (length alias) rest = alias \<and> length alias < length rest
              \<and> c_isspace (rest ! length alias)
      then let rest' = skip_leading_space (drop (length alias) rest)
           in (if rest' = [] then 1 else 0, rest')
      else (- 1, rest))"

fun strip_aliases :: "string list \<Rightarrow> string \<Rightarrow> int \<times> string" where
  "strip_aliases [] rest = (0, rest)"
| "strip_aliases (alias # aliases) rest =
     (let (rc, rest') = strip_one_command_alias rest alias
      in if rc \<ge> 0 then (rc, rest') else strip_aliases aliases rest')"

definition strip_command_alias :: "string \<Rightarrow> int \<times> string" where
  "strip_command_alias rest =
     (if rest = [] then (1, rest) else strip_aliases [''commands'', ''command'', ''cmd''] rest)"

definition hybbx_command_classify :: "string \<Rightarrow> command_scope" where
  "hybbx_command_classify line =
     (case skip_leading_space line of
        [] \<Rightarrow> CMD_SCOPE_LOCAL
      | c # _ \<Rightarrow> if c = CHR ''/'' then CMD_SCOPE_HYBBX
                 else if c = CHR '';'' \<or> c = CHR ''#'' then CMD_SCOPE_COMMENT
                 else CMD_SCOPE_LOCAL)"

definition hybbx_command_is_comment :: "string \<Rightarrow> bool" where
  "hybbx_command_is_comment line \<longleftrightarrow> hybbx_command_classify line = CMD_SCOPE_COMMENT"

definition hybbx_command_is_hybbx :: "string \<Rightarrow> bool" where
  "hybbx_command_is_hybbx line \<longleftrightarrow> hybbx_command_classify line = CMD_SCOPE_HYBBX"

section \<open>Tokens\<close>

fun count_tokens_from :: "bool \<Rightarrow> nat \<Rightarrow> string \<Rightarrow> nat" where
  "count_tokens_from in_token count [] = count"
| "count_tokens_from in_token count (c # cs) =
     (if \<not> c_isspace c
      then (if \<not> in_token then count_tokens_from True (count + 1) cs
            else count_tokens_from in_token count cs)
      else count_tokens_from False count cs)"

definition count_tokens :: "string \<Rightarrow> nat" where
  "count_tokens line = count_tokens_from False 0 line"

function split_tokens :: "string \<Rightarrow> nat \<Rightarrow> string list" where
  "split_tokens line mx =
     (if line = [] \<or> mx = 0 then []
      else let t = dropWhile c_isspace line in
        if t = [] then []
        else let rest = dropWhile (\<lambda>c. \<not> c_isspace c) t
             in takeWhile (\<lambda>c. \<not> c_isspace c) t # split_tokens (tl rest) (mx - 1))"
  by pat_completeness auto
termination by (relation "measure snd") auto

declare split_tokens.simps [simp del]

section \<open>Releasing and parsing\<close>

text \<open>None when the loop over \<^verbatim>\<open>argc\<close> arguments meets a NULL \<^verbatim>\<open>argv\<close>.\<close>

definition hybbx_command_free :: "parsed_command \<Rightarrow> parsed_command option" where
  "hybbx_command_free cmd =
     (if pc_argc cmd > 0 \<and> pc_argv cmd = None then None else Some command_zero)"

text \<open>The loop that copies the arguments: False when a copy failed.\<close>

fun copy_args :: "(nat \<Rightarrow> bool) \<Rightarrow> nat \<Rightarrow> string list \<Rightarrow> string option list \<Rightarrow> bool \<times> string option list" where
  "copy_args mal k [] done = (True, done)"
| "copy_args mal k (t # ts) done =
     (case cmd_strdup mal k t of
        (None, k') \<Rightarrow> (False, done @ None # map (\<lambda>_. None) ts)
      | (Some s, k') \<Rightarrow> copy_args mal k' ts (done @ [Some s]))"

definition parse_help ::
    "(nat \<Rightarrow> bool) \<Rightarrow> nat \<Rightarrow> parsed_command \<Rightarrow> hybbx_result \<times> parsed_command" where
  "parse_help mal k out =
     (let verb = fst (cmd_strdup mal k ''help'')
      in (if verb = None then HYBBX_ERR_NOMEM else HYBBX_OK, out\<lparr>pc_verb := verb\<rparr>))"

definition parse_hybbx_line ::
    "(nat \<Rightarrow> bool) \<Rightarrow> nat \<Rightarrow> string \<Rightarrow> parsed_command \<Rightarrow> (hybbx_result \<times> parsed_command) option" where
  "parse_hybbx_line mal k line out =
     (if line = [] \<or> hd line \<noteq> CHR ''/'' then Some (HYBBX_ERR_INVALID, out)
      else case cmd_strdup mal k (tl line) of
        (None, k1) \<Rightarrow> Some (HYBBX_ERR_NOMEM, out)
      | (Some dup, k1) \<Rightarrow>
          (case strip_command_alias (skip_leading_space dup) of (stripped, rest) \<Rightarrow>
            if stripped \<noteq> 0 then Some (parse_help mal k1 out)
            else let token_count = count_tokens rest in
              if token_count = 0 then Some (parse_help mal k1 out)
              else if token_count > CMD_TOKEN_MAX then Some (HYBBX_ERR_INVALID, out)
              else case cmd_strdup mal k1 rest of
                (None, k2) \<Rightarrow> Some (HYBBX_ERR_NOMEM, out)
              | (Some work, k2) \<Rightarrow>
                  if \<not> mal k2 then Some (HYBBX_ERR_NOMEM, out)
                  else let tokens = split_tokens work token_count in
                    (case cmd_strdup mal (k2 + 1) (tokens ! 0) of
                       (None, k3) \<Rightarrow> Some (HYBBX_ERR_NOMEM, out)
                     | (Some verb, k3) \<Rightarrow>
                         let out1 = out\<lparr>pc_verb := Some verb, pc_argc := token_count - 1\<rparr> in
                         if token_count - 1 = 0 then Some (HYBBX_OK, out1)
                         else if \<not> mal k3
                         then map_option (\<lambda>c. (HYBBX_ERR_NOMEM, c)) (hybbx_command_free out1)
                         else case copy_args mal (k3 + 1) (tl tokens) [] of
                           (True, argv) \<Rightarrow> Some (HYBBX_OK, out1\<lparr>pc_argv := Some argv\<rparr>)
                         | (False, argv) \<Rightarrow>
                             map_option (\<lambda>c. (HYBBX_ERR_NOMEM, c))
                               (hybbx_command_free (out1\<lparr>pc_argv := Some argv\<rparr>)))))"

definition hybbx_command_parse ::
    "(nat \<Rightarrow> bool) \<Rightarrow> string \<Rightarrow> (hybbx_result \<times> parsed_command) option" where
  "hybbx_command_parse mal line =
     (case cmd_strdup mal 0 (skip_leading_space line) of
        (None, k) \<Rightarrow> Some (HYBBX_ERR_NOMEM, command_zero)
      | (Some trimmed, k) \<Rightarrow>
          let out = command_zero\<lparr>pc_scope := Some (hybbx_command_classify trimmed),
                                 pc_line := Some trimmed\<rparr>
          in if hybbx_command_classify trimmed \<noteq> CMD_SCOPE_HYBBX then Some (HYBBX_OK, out)
             else case parse_hybbx_line mal k trimmed out of
               None \<Rightarrow> None
             | Some (rc, out') \<Rightarrow>
                 if rc \<noteq> HYBBX_OK then map_option (\<lambda>c. (rc, c)) (hybbx_command_free out')
                 else Some (rc, out'))"

section \<open>Lemmas\<close>

text \<open>The words of a line, defined without the loops: split at blanks, empty pieces dropped.\<close>

definition words :: "string \<Rightarrow> string list" where
  "words s = List.filter (\<lambda>w. w \<noteq> [])
     (split_on (CHR '' '') (map (\<lambda>c. if c_isspace c then CHR '' '' else c) s))"

lemma c_isspace_blank [simp]: "c_isspace (CHR '' '')"
  by (simp add: c_isspace_def)

lemma words_Nil [simp]: "words [] = []"
  by (simp add: words_def)

lemma words_space [simp]: "c_isspace c \<Longrightarrow> words (c # cs) = words cs"
  by (simp add: words_def)

lemma words_skip: "words (dropWhile c_isspace s) = words s"
  by (induction s) auto

lemma map_blank_id: "\<forall>c \<in> set w. \<not> c_isspace c \<Longrightarrow> map (\<lambda>c. if c_isspace c then CHR '' '' else c) w = w"
  by (induction w) auto

lemma words_token:
  assumes "w \<noteq> []" and "\<forall>c \<in> set w. \<not> c_isspace c" and "rest = [] \<or> c_isspace (hd rest)"
  shows "words (w @ rest) = w # words (tl rest)"
proof -
  have nb: "CHR '' '' \<notin> set w" using assms(2) c_isspace_blank by blast
  show ?thesis
  proof (cases rest)
    case Nil
    have "words w = [w]"
      unfolding words_def map_blank_id [OF assms(2)] split_on_none [OF nb] using assms(1) by simp
    with Nil show ?thesis by simp
  next
    case (Cons c cs)
    let ?f = "\<lambda>c. if c_isspace c then CHR '' '' else c"
    have "c_isspace c" using Cons assms(3) by simp
    then have "map ?f (w @ rest) = w @ CHR '' '' # map ?f cs"
      using map_blank_id [OF assms(2)] Cons by simp
    then have "words (w @ rest) = List.filter (\<lambda>w. w \<noteq> []) (split_on (CHR '' '') (w @ CHR '' '' # map ?f cs))"
      unfolding words_def by (rule arg_cong)
    also have "\<dots> = w # words cs"
      unfolding split_on_append split_on_none [OF nb] words_def using assms(1) by simp
    finally show ?thesis using Cons by simp
  qed
qed

lemma words_step:
  assumes "dropWhile c_isspace s = t" and "t \<noteq> []"
  shows "words s = takeWhile (\<lambda>c. \<not> c_isspace c) t # words (tl (dropWhile (\<lambda>c. \<not> c_isspace c) t))"
proof -
  have "\<not> c_isspace (hd t)" by (rule hd_dropWhile [of c_isspace s, unfolded assms(1), OF assms(2)])
  then have "takeWhile (\<lambda>c. \<not> c_isspace c) t \<noteq> []" using assms(2) by (cases t) auto
  moreover have "dropWhile (\<lambda>c. \<not> c_isspace c) t = [] \<or> c_isspace (hd (dropWhile (\<lambda>c. \<not> c_isspace c) t))"
    using hd_dropWhile [of "\<lambda>c. \<not> c_isspace c" t] by auto
  ultimately have "words (takeWhile (\<lambda>c. \<not> c_isspace c) t @ dropWhile (\<lambda>c. \<not> c_isspace c) t)
      = takeWhile (\<lambda>c. \<not> c_isspace c) t # words (tl (dropWhile (\<lambda>c. \<not> c_isspace c) t))"
    by (intro words_token) (auto dest: set_takeWhileD)
  then have "words t = takeWhile (\<lambda>c. \<not> c_isspace c) t # words (tl (dropWhile (\<lambda>c. \<not> c_isspace c) t))"
    by simp
  then show ?thesis using words_skip [of s] assms(1) by simp
qed

lemma split_tokens_words: "split_tokens s n = take n (words s)"
proof (induction s n rule: split_tokens.induct)
  case (1 s n)
  show ?case
  proof (cases "s = [] \<or> n = 0")
    case True
    then show ?thesis by (subst split_tokens.simps) auto
  next
    case False
    show ?thesis
    proof (cases "dropWhile c_isspace s = []")
      case True
      then have "words s = []" using words_skip [of s] unfolding True by (simp only: words_Nil)
      with True False show ?thesis by (subst split_tokens.simps) (simp del: dropWhile_eq_Nil_conv)
    next
      case ne: False
      from words_step [OF refl ne] 1 [OF False refl ne refl] False ne show ?thesis
        by (subst split_tokens.simps) (cases n; simp add: Let_def del: dropWhile_eq_Nil_conv)
    qed
  qed
qed

lemma count_tokens_from_words:
  "count_tokens_from False n s = n + length (words s)
   \<and> count_tokens_from True n s = n + length (words (dropWhile (\<lambda>c. \<not> c_isspace c) s))"
proof (induction s arbitrary: n)
  case Nil
  then show ?case by simp
next
  case (Cons c cs)
  show ?case
  proof (cases "c_isspace c")
    case True
    with Cons show ?thesis by simp
  next
    case False
    have "words (c # cs) = takeWhile (\<lambda>c. \<not> c_isspace c) (c # cs)
        # words (tl (dropWhile (\<lambda>c. \<not> c_isspace c) (c # cs)))"
      using False by (intro words_step) auto
    moreover have "words (tl (dropWhile (\<lambda>c. \<not> c_isspace c) cs)) = words (dropWhile (\<lambda>c. \<not> c_isspace c) cs)"
      using hd_dropWhile [of "\<lambda>c. \<not> c_isspace c" cs]
      by (cases "dropWhile (\<lambda>c. \<not> c_isspace c) cs") (simp_all del: dropWhile_eq_Nil_conv)
    ultimately show ?thesis using Cons False by simp
  qed
qed

lemma count_tokens_words: "count_tokens s = length (words s)"
  by (simp add: count_tokens_def count_tokens_from_words)

lemma words_length: "w \<in> set (words s) \<Longrightarrow> w \<noteq> [] \<and> length w \<le> length s"
  by (auto simp: words_def dest: split_on_length)

text \<open>The words of a command line after the slash, with the command aliases resolved.\<close>

definition command_aliases :: "string list" where
  "command_aliases = [''commands'', ''command'', ''cmd'']"

definition command_words :: "string \<Rightarrow> string list" where
  "command_words r =
     (if map c_tolower (dropWhile c_isspace r) \<in> set command_aliases then []
      else if words r \<noteq> [] \<and> hd (words r) \<in> set command_aliases then tl (words r)
      else words r)"

lemma command_alias_ok:
  "alias \<in> set command_aliases \<Longrightarrow>
   map c_tolower alias = alias \<and> alias \<noteq> [] \<and> (\<forall>c \<in> set alias. \<not> c_isspace c)"
  by (auto simp: command_aliases_def c_tolower_def c_isupper_def c_isspace_def)

lemma alias_prefix_iff:
  assumes "rest \<noteq> []" and "\<not> c_isspace (hd rest)" and "alias \<in> set command_aliases"
  shows "take (length alias) rest = alias \<and> length alias < length rest \<and> c_isspace (rest ! length alias)
     \<longleftrightarrow> hd (words rest) = alias \<and> rest \<noteq> alias"
    and "hd (words rest) = alias \<and> rest \<noteq> alias \<longrightarrow> words (drop (length alias) rest) = tl (words rest)"
proof -
  have al: "\<forall>c \<in> set alias. \<not> c_isspace c" using command_alias_ok [OF assms(3)] by blast
  let ?w = "takeWhile (\<lambda>c. \<not> c_isspace c) rest" and ?d = "dropWhile (\<lambda>c. \<not> c_isspace c) rest"
  have "dropWhile c_isspace rest = rest" using assms(1,2) by (cases rest) auto
  from words_step [OF this assms(1)] have w: "words rest = ?w # words (tl ?d)" .
  have split: "rest = ?w @ ?d" by simp
  have d: "?d \<noteq> [] \<Longrightarrow> c_isspace (hd ?d)" using hd_dropWhile [of "\<lambda>c. \<not> c_isspace c" rest] by blast
  show "take (length alias) rest = alias \<and> length alias < length rest \<and> c_isspace (rest ! length alias)
     \<longleftrightarrow> hd (words rest) = alias \<and> rest \<noteq> alias" (is "?L \<longleftrightarrow> ?R")
  proof
    assume L: ?L
    then have "rest = alias @ rest ! length alias # drop (Suc (length alias)) rest"
      by (metis append_take_drop_id Cons_nth_drop_Suc)
    moreover have "takeWhile (\<lambda>c. \<not> c_isspace c) (alias @ rest ! length alias # x) = alias" for x
      using al L by (simp add: takeWhile_append2)
    ultimately have "?w = alias" by metis
    with w L show ?R by auto
  next
    assume R: ?R
    then have "?w = alias" using w by simp
    with split R have "rest = alias @ ?d" "?d \<noteq> []" by (metis append_Nil2)+
    with d show ?L
      by (metis append_eq_conv_conj hd_conv_nth length_append less_add_same_cancel1 length_greater_0_conv
          nth_append_length_plus add.right_neutral)
  qed
  show "hd (words rest) = alias \<and> rest \<noteq> alias \<longrightarrow> words (drop (length alias) rest) = tl (words rest)"
  proof
    assume R: "hd (words rest) = alias \<and> rest \<noteq> alias"
    then have "?w = alias" using w by simp
    then have "drop (length alias) rest = ?d" using split by (metis append_eq_conv_conj)
    moreover have "words ?d = words (tl ?d)"
      using d by (cases ?d) (simp_all del: dropWhile_eq_Nil_conv)
    ultimately show "words (drop (length alias) rest) = tl (words rest)" using w by simp
  qed
qed

lemma words_Nil_iff: "\<not> c_isspace (hd s) \<Longrightarrow> words s = [] \<longleftrightarrow> s = []"
proof
  assume sp: "\<not> c_isspace (hd s)" and "words s = []"
  show "s = []"
  proof (rule ccontr)
    assume "s \<noteq> []"
    then have "dropWhile c_isspace s = s" using sp by (cases s) auto
    from words_step [OF this \<open>s \<noteq> []\<close>] \<open>words s = []\<close> show False by simp
  qed
qed simp

lemma skip_leading_space_hd: "skip_leading_space s \<noteq> [] \<Longrightarrow> \<not> c_isspace (hd (skip_leading_space s))"
  unfolding skip_leading_space_def by (rule hd_dropWhile)

lemma strip_one_alias:
  assumes "rest \<noteq> []" and "\<not> c_isspace (hd rest)" and "alias \<in> set command_aliases"
  shows "map c_tolower rest = alias \<Longrightarrow> fst (strip_one_command_alias rest alias) = 1"
    and "map c_tolower rest \<noteq> alias \<Longrightarrow> hd (words rest) = alias \<Longrightarrow>
         \<exists>rest'. strip_one_command_alias rest alias = (if tl (words rest) = [] then 1 else 0, rest')
              \<and> words rest' = tl (words rest)"
    and "map c_tolower rest \<noteq> alias \<Longrightarrow> hd (words rest) \<noteq> alias \<Longrightarrow>
         strip_one_command_alias rest alias = (- 1, rest)"
proof -
  note al = command_alias_ok [OF assms(3)]
  have ieq: "str_ieq rest alias \<longleftrightarrow> map c_tolower rest = alias" using al by (simp add: str_ieq_iff)
  note iff = alias_prefix_iff(1) [OF assms] and drp = alias_prefix_iff(2) [OF assms]
  show "map c_tolower rest = alias \<Longrightarrow> fst (strip_one_command_alias rest alias) = 1"
    using ieq by (simp add: strip_one_command_alias_def)
  show "map c_tolower rest \<noteq> alias \<Longrightarrow> hd (words rest) \<noteq> alias \<Longrightarrow>
      strip_one_command_alias rest alias = (- 1, rest)"
    using ieq iff by (auto simp: strip_one_command_alias_def)
  assume ne: "map c_tolower rest \<noteq> alias" and hd: "hd (words rest) = alias"
  then have neq: "rest \<noteq> alias" using al by auto
  let ?rest' = "skip_leading_space (drop (length alias) rest)"
  have w: "words ?rest' = tl (words rest)"
    using drp hd neq by (simp add: skip_leading_space_def words_skip)
  have "?rest' = [] \<longleftrightarrow> tl (words rest) = []"
    using w words_Nil_iff skip_leading_space_hd by fastforce
  then show "\<exists>rest'. strip_one_command_alias rest alias = (if tl (words rest) = [] then 1 else 0, rest')
      \<and> words rest' = tl (words rest)"
    using ne ieq iff hd neq w by (auto simp: strip_one_command_alias_def Let_def)
qed

lemma strip_aliases_words:
  assumes "rest \<noteq> []" and "\<not> c_isspace (hd rest)" and "set aliases \<subseteq> set command_aliases"
  shows "\<exists>rc rest'. strip_aliases aliases rest = (rc, rest')
     \<and> (map c_tolower rest \<in> set aliases \<longrightarrow> rc \<noteq> 0)
     \<and> (map c_tolower rest \<notin> set aliases \<longrightarrow>
          words rest' = (if hd (words rest) \<in> set aliases then tl (words rest) else words rest)
          \<and> (rc \<noteq> 0 \<longleftrightarrow> words rest' = []))"
  using assms(3)
proof (induction aliases)
  case Nil
  have "words rest \<noteq> []" using assms words_Nil_iff by blast
  then show ?case by simp
next
  case (Cons nm aliases)
  then have al: "nm \<in> set command_aliases" by simp
  note one = strip_one_alias [OF assms(1,2) al]
  show ?case
  proof (cases "map c_tolower rest = nm")
    case True
    then obtain r where "strip_one_command_alias rest nm = (1, r)"
      using one(1) by (cases "strip_one_command_alias rest nm") auto
    with True show ?thesis by simp
  next
    case ne: False
    show ?thesis
    proof (cases "hd (words rest) = nm")
      case True
      from one(2) [OF ne True] obtain r where
        r: "strip_one_command_alias rest nm = (if tl (words rest) = [] then 1 else 0, r)"
          "words r = tl (words rest)" by blast
      have "map c_tolower rest \<notin> set aliases"
      proof
        assume "map c_tolower rest \<in> set aliases"
        then have m: "map c_tolower rest \<in> set command_aliases" using Cons.prems by auto
        have sp: "\<not> c_isspace c" if "c \<in> set rest" for c
        proof
          assume "c_isspace c"
          then have "c_tolower c = c" by (auto simp: c_isspace_def c_tolower_def c_isupper_def)
          with that m command_alias_ok [OF m] \<open>c_isspace c\<close> show False by (metis image_eqI list.set_map)
        qed
        then have "words rest = [rest]"
          using words_token [OF assms(1), of "[]"] by simp
        with True ne command_alias_ok [OF al] show False by simp
      qed
      with r True ne show ?thesis by simp
    next
      case False
      with one(3) [OF ne False] Cons ne show ?thesis by auto
    qed
  qed
qed

lemma strip_command_alias_words:
  "\<exists>rc rest. strip_command_alias (skip_leading_space r) = (rc, rest)
     \<and> (rc \<noteq> 0 \<longleftrightarrow> command_words r = []) \<and> (rc = 0 \<longrightarrow> words rest = command_words r)"
proof (cases "skip_leading_space r = []")
  case True
  then have "words r = []" using words_skip [of r] by (simp add: skip_leading_space_def del: dropWhile_eq_Nil_conv)
  with True show ?thesis by (simp add: strip_command_alias_def command_words_def)
next
  case False
  have w: "words (skip_leading_space r) = words r" by (simp add: skip_leading_space_def words_skip)
  have hd: "\<not> c_isspace (hd (skip_leading_space r))" by (rule skip_leading_space_hd [OF False])
  have ne: "words r \<noteq> []" using words_Nil_iff [OF hd] False w by simp
  from strip_aliases_words [OF False hd subset_refl] obtain rc rest where
    "strip_aliases command_aliases (skip_leading_space r) = (rc, rest)"
    "map c_tolower (skip_leading_space r) \<in> set command_aliases \<longrightarrow> rc \<noteq> 0"
    "map c_tolower (skip_leading_space r) \<notin> set command_aliases \<longrightarrow>
       words rest = (if hd (words r) \<in> set command_aliases then tl (words r) else words r)
       \<and> (rc \<noteq> 0 \<longleftrightarrow> words rest = [])"
    unfolding w by blast
  moreover have "strip_command_alias (skip_leading_space r)
      = strip_aliases command_aliases (skip_leading_space r)"
    using False by (simp only: strip_command_alias_def command_aliases_def if_False)
  ultimately show ?thesis
    using ne unfolding command_words_def skip_leading_space_def [symmetric] by simp
qed

lemma cmd_strdup_ok: "length s < HYBBX_ALLOC_MAX \<Longrightarrow> cmd_strdup mal k s = (if mal k then Some s else None, k + 1)"
  by (simp add: cmd_strdup_def hybbx_size_ok_def)

lemma copy_args_ok:
  "\<forall>t \<in> set ts. length t < HYBBX_ALLOC_MAX \<Longrightarrow> \<forall>j. k \<le> j \<longrightarrow> mal j \<Longrightarrow>
   copy_args mal k ts done = (True, done @ map Some ts)"
  by (induction mal k ts "done" rule: copy_args.induct) (auto simp: cmd_strdup_ok)

lemma copy_args_result:
  "copy_args mal k ts done = (ok, argv) \<Longrightarrow> length argv = length done + length ts
   \<and> (ok \<longrightarrow> argv = done @ map Some ts)"
  by (induction mal k ts "done" arbitrary: argv rule: copy_args.induct)
    (auto simp: cmd_strdup_def split: if_splits)

text \<open>The strings the parser copies are shorter than the line.\<close>

lemma strip_command_alias_length: "length (snd (strip_command_alias r)) \<le> length r"
proof -
  have one: "length (snd (strip_one_command_alias r a)) \<le> length r" for r a
    by (auto simp: strip_one_command_alias_def Let_def skip_leading_space_def
        intro: le_trans [OF length_dropWhile_le])
  have "length (snd (strip_aliases as r)) \<le> length r" for as r
  proof (induction as arbitrary: r)
    case (Cons a as)
    have "length (snd (strip_one_command_alias r a)) \<le> length r" by (rule one)
    with Cons.IH [of "snd (strip_one_command_alias r a)"] show ?case
      by (auto simp: case_prod_beta Let_def intro: le_trans)
  qed simp
  then show ?thesis by (simp add: strip_command_alias_def del: strip_aliases.simps)
qed

section \<open>The meaning of a command line\<close>

definition command_meaning :: "string \<Rightarrow> hybbx_result \<times> parsed_command" where
  "command_meaning line =
     (let t = dropWhile c_isspace line;
          out = command_zero\<lparr>pc_scope := Some (hybbx_command_classify line), pc_line := Some t\<rparr>
      in if hybbx_command_classify line \<noteq> CMD_SCOPE_HYBBX then (HYBBX_OK, out)
         else case command_words (tl t) of
                [] \<Rightarrow> (HYBBX_OK, out\<lparr>pc_verb := Some ''help''\<rparr>)
              | verb # args \<Rightarrow>
                  if length (verb # args) > CMD_TOKEN_MAX then (HYBBX_ERR_INVALID, command_zero)
                  else (HYBBX_OK, out\<lparr>pc_verb := Some verb, pc_argc := length args,
                          pc_argv := if args = [] then None else Some (map Some args)\<rparr>))"

lemma classify_skip: "hybbx_command_classify (dropWhile c_isspace line) = hybbx_command_classify line"
proof -
  have "dropWhile c_isspace (dropWhile c_isspace line) = dropWhile c_isspace line"
    by (induction line) auto
  then show ?thesis by (simp add: hybbx_command_classify_def skip_leading_space_def)
qed

lemma classify_slash_cons [simp]: "hybbx_command_classify (CHR ''/'' # r) = CMD_SCOPE_HYBBX"
  by (simp add: hybbx_command_classify_def skip_leading_space_def c_isspace_def)

lemma command_meaning_slash:
  "command_meaning (CHR ''/'' # r) =
     (let out = command_zero\<lparr>pc_scope := Some CMD_SCOPE_HYBBX, pc_line := Some (CHR ''/'' # r)\<rparr>
      in case command_words r of
           [] \<Rightarrow> (HYBBX_OK, out\<lparr>pc_verb := Some ''help''\<rparr>)
         | verb # args \<Rightarrow>
             if length (verb # args) > CMD_TOKEN_MAX then (HYBBX_ERR_INVALID, command_zero)
             else (HYBBX_OK, out\<lparr>pc_verb := Some verb, pc_argc := length args,
                     pc_argv := if args = [] then None else Some (map Some args)\<rparr>))"
proof -
  have "dropWhile c_isspace (CHR ''/'' # r) = CHR ''/'' # r" by (simp add: c_isspace_def)
  then show ?thesis by (simp add: command_meaning_def Let_def cong: list.case_cong)
qed

lemma classify_slash:
  assumes "hybbx_command_classify line = CMD_SCOPE_HYBBX"
  shows "\<exists>r. dropWhile c_isspace line = CHR ''/'' # r"
  using assms by (auto simp: hybbx_command_classify_def skip_leading_space_def split: list.splits if_splits)

text \<open>The line parser up to the first copied token, for an oracle that grants the first requests.\<close>

lemma parse_hybbx_line_words:
  assumes "length r < HYBBX_ALLOC_MAX" and "mal k" and "mal (k + 1)"
  shows "parse_hybbx_line mal k (CHR ''/'' # r) out =
     (case command_words r of
        [] \<Rightarrow> Some (HYBBX_OK, out\<lparr>pc_verb := Some ''help''\<rparr>)
      | verb # args \<Rightarrow>
          if length (verb # args) > CMD_TOKEN_MAX then Some (HYBBX_ERR_INVALID, out)
          else if \<not> mal (k + 2) \<or> \<not> mal (k + 3) then Some (HYBBX_ERR_NOMEM, out)
          else let out1 = out\<lparr>pc_verb := Some verb, pc_argc := length args\<rparr> in
            if args = [] then Some (HYBBX_OK, out1)
            else if \<not> mal (k + 4) then map_option (\<lambda>c. (HYBBX_ERR_NOMEM, c)) (hybbx_command_free out1)
            else case copy_args mal (k + 5) args [] of
              (True, argv) \<Rightarrow> Some (HYBBX_OK, out1\<lparr>pc_argv := Some argv\<rparr>)
            | (False, argv) \<Rightarrow> map_option (\<lambda>c. (HYBBX_ERR_NOMEM, c))
                                 (hybbx_command_free (out1\<lparr>pc_argv := Some argv\<rparr>)))"
proof -
  obtain rc rest where a: "strip_command_alias (skip_leading_space r) = (rc, rest)"
    "rc \<noteq> 0 \<longleftrightarrow> command_words r = []" "rc = 0 \<longrightarrow> words rest = command_words r"
    using strip_command_alias_words [of r] by blast
  have hlp: "parse_help mal (k + 1) out = (HYBBX_OK, out\<lparr>pc_verb := Some ''help''\<rparr>)"
    using assms(3) by (simp add: parse_help_def cmd_strdup_ok HYBBX_ALLOC_MAX_def)
  have dup: "cmd_strdup mal k r = (Some r, k + 1)" using assms by (simp add: cmd_strdup_ok)
  show ?thesis
  proof (cases "command_words r")
    case Nil
    with a dup hlp show ?thesis by (simp add: parse_hybbx_line_def)
  next
    case (Cons verb args)
    then have rc: "rc = 0" and w: "words rest = verb # args" using a by auto
    have "length rest \<le> length r"
      using strip_command_alias_length [of "skip_leading_space r"] a(1)
      by (auto simp: skip_leading_space_def intro: le_trans [OF _ length_dropWhile_le])
    then have len: "length rest < HYBBX_ALLOC_MAX" "length verb < HYBBX_ALLOC_MAX"
      using assms(1) words_length [of verb rest] w by auto
    have cnt: "count_tokens rest = Suc (length args)" by (simp add: count_tokens_words w)
    have tok: "split_tokens rest (Suc (length args)) = verb # args" by (simp add: split_tokens_words w)
    have dr: "cmd_strdup mal (k + 1) rest = (Some rest, k + 2)"
      using len(1) assms(3) by (simp add: cmd_strdup_ok)
    have dv: "cmd_strdup mal (k + 2 + 1) verb = (if mal (k + 3) then Some verb else None, k + 4)"
      using len(2) by (simp add: cmd_strdup_ok eval_nat_numeral)
    have n5: "k + 4 + 1 = k + 5" by simp
    have head: "\<not> (CHR ''/'' # r = [] \<or> hd (CHR ''/'' # r) \<noteq> CHR ''/'')" by simp
    show ?thesis
      unfolding parse_hybbx_line_def Let_def if_not_P [OF head] list.sel dup prod.case option.case a(1) cnt
        tok dr nth_Cons_0 dv Cons list.case n5 diff_Suc_1
      using rc by (simp split: if_split)
  qed
qed

lemma parse_hybbx_line_early:
  assumes "length r < HYBBX_ALLOC_MAX" and "\<not> mal k \<or> \<not> mal (k + 1)"
  shows "\<exists>rc out'. parse_hybbx_line mal k (CHR ''/'' # r) out = Some (rc, out')
     \<and> rc \<in> {HYBBX_ERR_INVALID, HYBBX_ERR_NOMEM} \<and> pc_argc out' = pc_argc out"
proof (cases "mal k")
  case False
  with assms(1) show ?thesis by (simp add: parse_hybbx_line_def cmd_strdup_ok)
next
  case True
  then have n: "\<not> mal (k + 1)" and dup: "cmd_strdup mal k r = (Some r, k + 1)"
    using assms by (auto simp: cmd_strdup_ok)
  then have hlp: "fst (cmd_strdup mal (k + 1) s) = None" for s by (simp add: cmd_strdup_def)
  obtain rc rest where a: "strip_command_alias (skip_leading_space r) = (rc, rest)"
    by (cases "strip_command_alias (skip_leading_space r)")
  obtain j where "cmd_strdup mal (k + 1) rest = (None, j)"
    using hlp [of rest] by (cases "cmd_strdup mal (k + 1) rest") auto
  then show ?thesis
    using dup a hlp by (simp add: parse_hybbx_line_def parse_help_def Let_def)
qed

section \<open>Properties\<close>

text \<open>
  What a command line means: with memory available, a line shorter than 256 KiB is parsed to
  its scope, its text without leading blanks, and, when it starts with a slash, the words that
  follow it, after one command alias: none is help, more than sixteen are refused with an empty
  result, and otherwise the first is the verb and the rest are the arguments, each a word as typed.
\<close>

theorem command_parse_meaning:
  assumes "length line < HYBBX_ALLOC_MAX" and "\<forall>k. mal k"
  shows "hybbx_command_parse mal line = Some (command_meaning line)"
proof -
  let ?t = "dropWhile c_isspace line"
  have len: "length ?t < HYBBX_ALLOC_MAX" using assms(1) length_dropWhile_le [of c_isspace line] by simp
  have dup: "cmd_strdup mal 0 (skip_leading_space line) = (Some ?t, 1)"
    using assms(2) len by (simp add: cmd_strdup_ok skip_leading_space_def)
  show ?thesis
  proof (cases "hybbx_command_classify line = CMD_SCOPE_HYBBX")
    case False
    then show ?thesis
      by (simp add: hybbx_command_parse_def dup command_meaning_def classify_skip Let_def)
  next
    case True
    from classify_slash [OF True] obtain r where r: "?t = CHR ''/'' # r" by blast
    with len have rl: "length r < HYBBX_ALLOC_MAX" by simp
    have args: "copy_args mal 6 args [] = (True, map Some args)" if "command_words r = verb # args" for verb args
    proof -
      have "set (command_words r) \<subseteq> set (words r)"
        by (auto simp: command_words_def dest: list.set_sel(2))
      with that have "set args \<subseteq> set (words r)" by auto
      then have "\<forall>t \<in> set args. length t < HYBBX_ALLOC_MAX"
        using words_length rl le_less_trans by blast
      then show ?thesis using copy_args_ok [of args 6 mal "[]"] assms(2) by simp
    qed
    show ?thesis
      using True r parse_hybbx_line_words [OF rl, of mal 1] assms(2) args
      by (auto simp: hybbx_command_parse_def dup command_meaning_def classify_skip Let_def
          hybbx_command_free_def command_zero_def split: list.splits)
  qed
qed

theorem command_parse_meaning_witness:
  "hybbx_command_parse (\<lambda>_. True) ''  /cmd mail  send bob'' =
     Some (HYBBX_OK, \<lparr>pc_scope = Some CMD_SCOPE_HYBBX, pc_line = Some ''/cmd mail  send bob'',
       pc_verb = Some ''mail'', pc_argv = Some [Some ''send'', Some ''bob''], pc_argc = 2\<rparr>)"
proof -
  have "hybbx_command_parse (\<lambda>_. True) ''  /cmd mail  send bob'' = Some (command_meaning ''  /cmd mail  send bob'')"
    by (rule command_parse_meaning) (simp_all add: HYBBX_ALLOC_MAX_def)
  also have "command_meaning ''  /cmd mail  send bob'' =
     (HYBBX_OK, \<lparr>pc_scope = Some CMD_SCOPE_HYBBX, pc_line = Some ''/cmd mail  send bob'',
       pc_verb = Some ''mail'', pc_argv = Some [Some ''send'', Some ''bob''], pc_argc = 2\<rparr>)"
    by code_simp
  finally show ?thesis .
qed

text \<open>
  Aliases: for every text that starts with a word, a slash followed by one of the three aliases
  in lower case, a blank and the text gives the verb and arguments of the text's own words; a bare
  alias in any case gives help; but an alias in upper case in front of a verb is itself taken for
  the verb.
\<close>

theorem command_alias_resolved:
  assumes "alias \<in> {''commands'', ''command'', ''cmd''}" and "verb # args = words s"
    and "length args < CMD_TOKEN_MAX"
  shows "pc_verb (snd (command_meaning (''/'' @ alias @ '' '' @ s))) = Some verb
     \<and> pc_argc (snd (command_meaning (''/'' @ alias @ '' '' @ s))) = length args
     \<and> pc_verb (snd (command_meaning (''/'' @ map c_toupper alias))) = Some ''help''
     \<and> (length args + 1 < CMD_TOKEN_MAX \<longrightarrow>
        pc_verb (snd (command_meaning (''/'' @ map c_toupper alias @ '' '' @ s))) = Some (map c_toupper alias)
        \<and> pc_argc (snd (command_meaning (''/'' @ map c_toupper alias @ '' '' @ s))) = length args + 1)"
proof -
  have al: "alias \<in> set command_aliases" using assms(1) by (simp add: command_aliases_def)
  note alo = command_alias_ok [OF al]
  have "\<forall>a \<in> set command_aliases. map c_tolower (map c_toupper a) = a
      \<and> map c_toupper a \<notin> set command_aliases \<and> (\<forall>c \<in> set (map c_toupper a). \<not> c_isspace c)"
    by code_simp
  with al have up: "map c_tolower (map c_toupper alias) = alias" "map c_toupper alias \<notin> set command_aliases"
    "\<forall>c \<in> set (map c_toupper alias). \<not> c_isspace c" by blast+
  have w: "words (a @ '' '' @ s) = a # verb # args" if "a \<noteq> []" "\<forall>c \<in> set a. \<not> c_isspace c" for a
    using words_token [OF that, of "'' '' @ s"] assms(2) by simp
  have nsp: "CHR '' '' \<notin> set x" if "x \<in> set command_aliases" for x
    using command_alias_ok [OF that] c_isspace_blank by blast
  have low: "map c_tolower (dropWhile c_isspace (a @ '' '' @ s)) \<notin> set command_aliases"
    if "a \<noteq> []" "\<forall>c \<in> set a. \<not> c_isspace c" for a
  proof -
    have "dropWhile c_isspace (a @ '' '' @ s) = a @ '' '' @ s" using that by (cases a) auto
    moreover have "c_tolower (CHR '' '') = CHR '' ''" by (simp add: c_tolower_def c_isupper_def)
    ultimately have "CHR '' '' \<in> set (map c_tolower (dropWhile c_isspace (a @ '' '' @ s)))" by simp
    then show ?thesis using nsp by blast
  qed
  have cw1: "command_words (alias @ '' '' @ s) = verb # args"
    using w [of "alias"] low [of "alias"] alo al by (simp add: command_words_def)
  have cw2: "command_words (map c_toupper alias @ '' '' @ s) = map c_toupper alias # verb # args"
    using w [of "map c_toupper alias"] low [of "map c_toupper alias"] alo up by (simp add: command_words_def)
  have "dropWhile c_isspace (map c_toupper alias) = map c_toupper alias"
    using up(3) alo by (cases "alias") auto
  then have cw3: "command_words (map c_toupper alias) = []"
    using up(1) al by (simp add: command_words_def del: list.map)
  show ?thesis
    using assms(3) cw1 cw2 cw3 by (simp add: command_meaning_slash Let_def)
qed

theorem command_alias_resolved_witness:
  "pc_verb (snd (command_meaning ''/cmd who'')) = Some ''who''
   \<and> pc_verb (snd (command_meaning ''/CMD who'')) = Some ''CMD''"
proof -
  have "words ''who'' = [''who'']" "map c_toupper ''cmd'' = ''CMD''" by code_simp+
  then show ?thesis
    using command_alias_resolved [of "''cmd''" "''who''" "[]" "''who''"]
    by (simp add: CMD_TOKEN_MAX_def del: list.map)
qed

text \<open>
  Whatever memory requests fail, the parser returns one of three codes, unless it dereferences
  NULL; on success a HyBBX line has a verb and as many copied arguments as it counts, at most
  fifteen, and on failure everything is released and the structure is zero again.
\<close>

theorem command_parse_results:
  assumes "hybbx_command_parse mal line = Some (rc, out)" and "length line < HYBBX_ALLOC_MAX"
  shows "(rc = HYBBX_OK \<or> out = command_zero) \<and> rc \<in> {HYBBX_OK, HYBBX_ERR_INVALID, HYBBX_ERR_NOMEM}
     \<and> (rc = HYBBX_OK \<and> pc_scope out = Some CMD_SCOPE_HYBBX \<longrightarrow>
          pc_verb out \<noteq> None \<and> pc_argc out < CMD_TOKEN_MAX
          \<and> (pc_argc out > 0 \<longrightarrow> (\<exists>args. pc_argv out = Some (map Some args) \<and> length args = pc_argc out)))"
proof -
  let ?t = "dropWhile c_isspace line"
  have len: "length ?t < HYBBX_ALLOC_MAX" using assms(2) length_dropWhile_le [of c_isspace line] by simp
  have dup: "cmd_strdup mal 0 (skip_leading_space line) = (if mal 0 then Some ?t else None, 1)"
    using len by (simp add: cmd_strdup_ok skip_leading_space_def)
  consider "\<not> mal 0" | "mal 0" "hybbx_command_classify line \<noteq> CMD_SCOPE_HYBBX"
    | "mal 0" "hybbx_command_classify line = CMD_SCOPE_HYBBX" by blast
  then show ?thesis
  proof cases
    case 1
    with assms(1) dup show ?thesis by (simp add: hybbx_command_parse_def)
  next
    case 2
    with assms(1) dup show ?thesis by (auto simp: hybbx_command_parse_def Let_def classify_skip)
  next
    case 3
    from classify_slash [OF 3(2)] obtain r where r: "?t = CHR ''/'' # r" by blast
    with len have rl: "length r < HYBBX_ALLOC_MAX" by simp
    let ?out = "command_zero\<lparr>pc_scope := Some CMD_SCOPE_HYBBX, pc_line := Some ?t\<rparr>"
    from assms(1) 3 dup obtain rc' out' where p: "parse_hybbx_line mal 1 ?t ?out = Some (rc', out')"
      "if rc' \<noteq> HYBBX_OK then hybbx_command_free out' = Some out \<and> rc = rc' else rc = rc' \<and> out = out'"
      by (auto simp: hybbx_command_parse_def Let_def classify_skip split: option.splits if_splits)
    show ?thesis
    proof (cases "mal 1 \<and> mal 2")
      case False
      then have "\<not> mal 1 \<or> \<not> mal (1 + 1)" by (simp add: numeral_2_eq_2)
      from parse_hybbx_line_early [OF rl this, of ?out] p r show ?thesis
        by (auto simp: hybbx_command_free_def command_zero_def)
    next
      case True
      then have "mal 1" "mal (1 + 1)" by (simp_all add: numeral_2_eq_2)
      from parse_hybbx_line_words [OF rl this, of ?out] p r show ?thesis
        by (auto simp: hybbx_command_free_def command_zero_def Let_def split: list.splits if_splits
            prod.splits bool.splits dest!: copy_args_result)
        (simp_all add: CMD_TOKEN_MAX_def)
    qed
  qed
qed

theorem command_parse_results_witness:
  "hybbx_command_parse (\<lambda>k. k \<noteq> 2) ''/who'' = Some (HYBBX_ERR_NOMEM, command_zero)
   \<and> HYBBX_ERR_NOMEM \<in> {HYBBX_OK, HYBBX_ERR_INVALID, HYBBX_ERR_NOMEM}"
proof -
  have "hybbx_command_parse (\<lambda>k. k \<noteq> 2) ''/who'' = Some (HYBBX_ERR_NOMEM, command_zero)"
    by (simp add: hybbx_command_parse_def cmd_strdup_def hybbx_size_ok_def HYBBX_ALLOC_MAX_def
        skip_leading_space_def c_isspace_def hybbx_command_classify_def parse_hybbx_line_def
        strip_command_alias_def strip_one_command_alias_def count_tokens_def CMD_TOKEN_MAX_def
        hybbx_command_free_def command_zero_def c_tolower_def c_isupper_def)
  with command_parse_results [OF this] show ?thesis by (simp add: HYBBX_ALLOC_MAX_def)
qed

text \<open>
  A failed request can crash the parser: when the array of argument pointers cannot be
  allocated, the release loop runs over it, so exactly the lines with a verb and at least one
  argument make it dereference NULL when the sixth request fails and the others are granted.
\<close>

theorem command_parse_null_argv:
  assumes "length line < HYBBX_ALLOC_MAX"
  shows "hybbx_command_parse (\<lambda>k. k \<noteq> 5) line = None \<longleftrightarrow>
     hybbx_command_classify line = CMD_SCOPE_HYBBX
     \<and> 2 \<le> length (command_words (tl (dropWhile c_isspace line)))
     \<and> length (command_words (tl (dropWhile c_isspace line))) \<le> CMD_TOKEN_MAX"
proof -
  let ?t = "dropWhile c_isspace line" and ?mal = "\<lambda>k::nat. k \<noteq> 5"
  have len: "length ?t < HYBBX_ALLOC_MAX" using assms length_dropWhile_le [of c_isspace line] by simp
  have dup: "cmd_strdup ?mal 0 (skip_leading_space line) = (Some ?t, 1)"
    using len by (simp add: cmd_strdup_ok skip_leading_space_def)
  show ?thesis
  proof (cases "hybbx_command_classify line = CMD_SCOPE_HYBBX")
    case False
    with dup show ?thesis by (simp add: hybbx_command_parse_def Let_def classify_skip)
  next
    case True
    from classify_slash [OF True] obtain r where r: "?t = CHR ''/'' # r" by blast
    with len have rl: "length r < HYBBX_ALLOC_MAX" by simp
    let ?out = "command_zero\<lparr>pc_scope := Some CMD_SCOPE_HYBBX, pc_line := Some ?t\<rparr>"
    have "hybbx_command_parse ?mal line = None \<longleftrightarrow> parse_hybbx_line ?mal 1 (CHR ''/'' # r) ?out = None"
      using parse_hybbx_line_words [OF rl, of ?mal 1 ?out] r dup True
      by (auto simp: hybbx_command_parse_def Let_def classify_skip hybbx_command_free_def command_zero_def
          split: list.splits if_splits)
    also have "\<dots> \<longleftrightarrow> 2 \<le> length (command_words r) \<and> length (command_words r) \<le> CMD_TOKEN_MAX"
      using parse_hybbx_line_words [OF rl, of ?mal 1 ?out]
      by (cases "command_words r") (auto simp: hybbx_command_free_def command_zero_def Let_def Suc_le_eq neq_Nil_conv)
    finally show ?thesis using r True by simp
  qed
qed

theorem command_parse_null_argv_witness:
  "hybbx_command_parse (\<lambda>k. k \<noteq> 5) ''/kick bob'' = None"
proof -
  have "hybbx_command_classify ''/kick bob'' = CMD_SCOPE_HYBBX"
    "length (command_words (tl (dropWhile c_isspace ''/kick bob''))) = 2" by code_simp+
  then show ?thesis
    using command_parse_null_argv [of "''/kick bob''"] by (simp add: HYBBX_ALLOC_MAX_def CMD_TOKEN_MAX_def)
qed

end
