(* ===== verification/Traffic.thy ===== *)
theory Traffic imports Config begin

text \<open>
  Output to a session: \<^verbatim>\<open>src/core/traffic.c\<close> and \<^verbatim>\<open>include/hybbx/traffic.h\<close>.
  The transport (or standard output) is an oracle: the result of the k-th byte written.  What
  reaches it and how long the sender then sleeps is a list of events.  A column is an
  \<^verbatim>\<open>unsigned\<close>, incremented modulo \<open>2 ^ 32\<close>.
\<close>

section \<open>Configuration\<close>

definition BAUD2400 :: nat where "BAUD2400 = 2400"
definition LINE_WIDTH :: nat where "LINE_WIDTH = 80"
definition LINE_WIDTH_MAX :: nat where "LINE_WIDTH_MAX = 132"

text \<open>The one escape sequence that may be sent, when ANSI output is on.\<close>

definition TERM_SGR :: string where "TERM_SGR = CHR 0x1B # ''[37;40m''"

record traffic_config =
  tc_baud :: nat
  tc_line_width :: nat
  tc_pace_output :: int
  tc_ansi :: int
  tc_input_echo :: int

definition hybbx_traffic_config_defaults :: traffic_config where
  "hybbx_traffic_config_defaults = \<lparr>tc_baud = BAUD2400, tc_line_width = LINE_WIDTH,
     tc_pace_output = 1, tc_ansi = 0, tc_input_echo = 0\<rparr>"

definition hybbx_traffic_config_apply :: "config option \<Rightarrow> traffic_config" where
  "hybbx_traffic_config_apply config =
     (case config of None \<Rightarrow> hybbx_traffic_config_defaults
      | Some c \<Rightarrow>
          hybbx_traffic_config_defaults
            \<lparr>tc_baud := hybbx_config_get_uint c ''traffic'' ''baud'' BAUD2400 300 38400,
             tc_line_width := hybbx_config_get_uint c ''traffic'' ''line_width'' LINE_WIDTH 20 LINE_WIDTH_MAX,
             tc_pace_output := hybbx_config_get_bool c ''traffic'' ''pace_output'' 1,
             tc_ansi := hybbx_config_get_bool c ''traffic'' ''ansi'' 0,
             tc_input_echo := hybbx_config_get_bool c ''traffic'' ''input_echo'' 0\<rparr>)"

definition hybbx_traffic_byte_delay_us :: "nat \<Rightarrow> nat" where
  "hybbx_traffic_byte_delay_us baud = (if baud = 0 then 0 else 10000000 div baud)"

section \<open>Output\<close>

datatype out_event = Out char | Sleep nat

text \<open>The bytes offered so far, the events, and the caller's column if it keeps one.\<close>

record emit_state =
  em_count :: nat
  em_events :: "out_event list"
  em_col :: "nat option"

definition emit_raw ::
    "traffic_config \<Rightarrow> (nat \<Rightarrow> hybbx_result) \<Rightarrow> emit_state \<Rightarrow> char \<Rightarrow> hybbx_result \<times> emit_state" where
  "emit_raw cfg wr st ch =
     (let rc = wr (em_count st);
          delay = hybbx_traffic_byte_delay_us (tc_baud cfg)
      in if rc \<noteq> HYBBX_OK then (rc, st\<lparr>em_count := em_count st + 1\<rparr>)
         else (rc, st\<lparr>em_count := em_count st + 1,
                      em_events := em_events st @ Out ch #
                        (if tc_pace_output cfg \<noteq> 0 \<and> tc_baud cfg > 0 \<and> delay > 0
                         then [Sleep delay] else [])\<rparr>))"

definition emit_newline ::
    "traffic_config \<Rightarrow> (nat \<Rightarrow> hybbx_result) \<Rightarrow> emit_state \<Rightarrow> hybbx_result \<times> emit_state" where
  "emit_newline cfg wr st =
     (case emit_raw cfg wr st (CHR 0x0D) of (rc, st1) \<Rightarrow>
        if rc \<noteq> HYBBX_OK then (rc, st1)
        else case emit_raw cfg wr st1 (CHR 0x0A) of (rc2, st2) \<Rightarrow>
          (rc2, if rc2 = HYBBX_OK then st2\<lparr>em_col := map_option (\<lambda>_. 0) (em_col st2)\<rparr> else st2))"

definition csi_param :: "char \<Rightarrow> bool" where
  "csi_param c \<longleftrightarrow> (of_char c :: nat) < 0x40 \<or> (of_char c :: nat) > 0x7E"

text \<open>The number of bytes consumed and the character to send, if any.\<close>

definition traffic_plain_char :: "string \<Rightarrow> nat \<times> char option" where
  "traffic_plain_char src =
     (case src of [] \<Rightarrow> (0, None)
      | c # cs \<Rightarrow>
          let ch = of_char c :: nat in
          if c = CHR 0x0D then (1, Some (CHR 0x0A))
          else if c = CHR 0x0A then (1, Some (CHR 0x0A))
          else if c = CHR 0x09 then (1, Some (CHR '' ''))
          else if ch < 0x20 \<or> ch = 0x7F then (1, None)
          else if ch = 0x1B \<and> cs \<noteq> [] \<and> hd cs = CHR ''['' then
            (let i = 2 + length (takeWhile csi_param (drop 2 src))
             in (if i < length src then i + 1 else length src, None))
          else if ch = 0x1B then (1, None)
          else (1, Some c))"

fun emit_all ::
    "traffic_config \<Rightarrow> (nat \<Rightarrow> hybbx_result) \<Rightarrow> emit_state \<Rightarrow> string \<Rightarrow> hybbx_result \<times> emit_state" where
  "emit_all cfg wr st [] = (HYBBX_OK, st)"
| "emit_all cfg wr st (c # cs) =
     (case emit_raw cfg wr st c of (rc, st1) \<Rightarrow>
        if rc \<noteq> HYBBX_OK then (rc, st1) else emit_all cfg wr st1 cs)"

lemma traffic_plain_char_Some: "(step, Some ch) = traffic_plain_char data \<Longrightarrow> step = 1"
  by (auto simp: traffic_plain_char_def Let_def split: list.splits if_splits)

function emit_loop ::
    "traffic_config \<Rightarrow> (nat \<Rightarrow> hybbx_result) \<Rightarrow> emit_state \<Rightarrow> nat \<Rightarrow> string \<Rightarrow> hybbx_result \<times> emit_state" where
  "emit_loop cfg wr st col data =
     (if data = [] then (HYBBX_OK, st\<lparr>em_col := map_option (\<lambda>_. col) (em_col st)\<rparr>)
      else case traffic_plain_char data of
        (step, None) \<Rightarrow> emit_loop cfg wr st col (drop (if step > 0 then step else 1) data)
      | (step, Some ch) \<Rightarrow>
          if ch = CHR 0x0A then
            (case emit_newline cfg wr st of (rc, st1) \<Rightarrow>
               if rc \<noteq> HYBBX_OK then (rc, st1)
               else emit_loop cfg wr st1 0 (drop step data))
          else
            (case (if tc_line_width cfg > 0 \<and> col \<ge> tc_line_width cfg
                   then emit_newline cfg wr st else (HYBBX_OK, st)) of (rc, st1) \<Rightarrow>
               if rc \<noteq> HYBBX_OK then (rc, st1)
               else let col1 = (if tc_line_width cfg > 0 \<and> col \<ge> tc_line_width cfg then 0 else col)
                    in case emit_raw cfg wr st1 ch of (rc2, st2) \<Rightarrow>
                         if rc2 \<noteq> HYBBX_OK then (rc2, st2)
                         else emit_loop cfg wr st2 ((col1 + 1) mod 2 ^ 32) (drop step data)))"
  by pat_completeness auto
termination
  by (relation "measure (\<lambda>(cfg, wr, st, col, data). length data)")
    (auto dest: traffic_plain_char_Some)

declare emit_loop.simps [simp del]

text \<open>The data is the text up to its terminator, as every caller passes it.\<close>

definition hybbx_traffic_emit ::
    "traffic_config \<Rightarrow> (nat \<Rightarrow> hybbx_result) \<Rightarrow> emit_state \<Rightarrow> string \<Rightarrow> hybbx_result \<times> emit_state" where
  "hybbx_traffic_emit cfg wr st data =
     (if data = [] then (HYBBX_OK, st)
      else if tc_ansi cfg \<noteq> 0 \<and> data = TERM_SGR then emit_all cfg wr st data
      else emit_loop cfg wr st (case em_col st of Some c \<Rightarrow> c | None \<Rightarrow> 0) data)"

section \<open>The text that is sent\<close>

text \<open>What one input byte contributes.\<close>

definition plain_text :: "char \<Rightarrow> string" where
  "plain_text c =
     (if c = CHR 0x0D \<or> c = CHR 0x0A then [CHR 0x0A]
      else if c = CHR 0x09 then '' ''
      else if (of_char c :: nat) < 0x20 \<or> (of_char c :: nat) = 0x7F then []
      else [c])"

text \<open>Breaking at the line width, from a given column; the column after the text comes with it.\<close>

fun wrapped :: "nat \<Rightarrow> nat \<Rightarrow> string \<Rightarrow> string \<times> nat" where
  "wrapped w col [] = ([], col)"
| "wrapped w col (c # cs) =
     (if c = CHR 0x0A then (case wrapped w 0 cs of (t, col') \<Rightarrow> (CHR 0x0D # CHR 0x0A # t, col'))
      else if w > 0 \<and> col \<ge> w
      then (case wrapped w 1 cs of (t, col') \<Rightarrow> (CHR 0x0D # CHR 0x0A # c # t, col'))
      else (case wrapped w ((col + 1) mod 2 ^ 32) cs of (t, col') \<Rightarrow> (c # t, col')))"

definition sent_text :: "traffic_config \<Rightarrow> emit_state \<Rightarrow> string \<Rightarrow> string" where
  "sent_text cfg st data =
     (if tc_ansi cfg \<noteq> 0 \<and> data = TERM_SGR then data
      else fst (wrapped (tc_line_width cfg) (case em_col st of Some c \<Rightarrow> c | None \<Rightarrow> 0)
                  (concat (map plain_text data))))"

lemma traffic_plain_char_eq:
  "traffic_plain_char (c # cs) = (1, case plain_text c of [] \<Rightarrow> None | x # _ \<Rightarrow> Some x)"
  by (auto simp: traffic_plain_char_def plain_text_def Let_def)

lemma plain_text_cases: "plain_text c = [] \<or> (\<exists>x. plain_text c = [x])"
  by (simp add: plain_text_def)

lemma emit_all_append:
  "emit_all cfg wr st (xs @ ys) =
     (case emit_all cfg wr st xs of (rc, st1) \<Rightarrow> if rc \<noteq> HYBBX_OK then (rc, st1) else emit_all cfg wr st1 ys)"
  by (induction xs arbitrary: st) (auto split: prod.splits)

text \<open>Two results that agree on everything but the caller's column.\<close>

definition same_output :: "hybbx_result \<times> emit_state \<Rightarrow> hybbx_result \<times> emit_state \<Rightarrow> bool" where
  "same_output a b \<longleftrightarrow> fst a = fst b \<and> em_count (snd a) = em_count (snd b)
     \<and> em_events (snd a) = em_events (snd b)"

lemma same_output_refl [simp]: "same_output a a"
  by (simp add: same_output_def)

lemma emit_raw_col: "em_col (snd (emit_raw cfg wr st c)) = em_col st"
  by (simp add: emit_raw_def Let_def)

lemma emit_raw_same:
  "em_count st = em_count st' \<Longrightarrow> em_events st = em_events st' \<Longrightarrow>
   same_output (emit_raw cfg wr st c) (emit_raw cfg wr st' c)"
  by (simp add: same_output_def emit_raw_def Let_def)

lemma emit_all_same:
  "em_count st = em_count st' \<Longrightarrow> em_events st = em_events st' \<Longrightarrow>
   same_output (emit_all cfg wr st cs) (emit_all cfg wr st' cs)"
proof (induction cs arbitrary: st st')
  case Nil
  then show ?case by (simp add: same_output_def)
next
  case (Cons c cs)
  obtain rc s1 rc' s1' where r: "emit_raw cfg wr st c = (rc, s1)" "emit_raw cfg wr st' c = (rc', s1')"
    by fastforce
  with emit_raw_same [OF Cons.prems, of cfg wr c]
  have "rc = rc'" "em_count s1 = em_count s1'" "em_events s1 = em_events s1'"
    by (simp_all add: same_output_def)
  with Cons.IH [of s1 s1'] r show ?case by (simp add: same_output_def)
qed

lemma emit_newline_same: "same_output (emit_newline cfg wr st) (emit_all cfg wr st [CHR 0x0D, CHR 0x0A])"
  by (auto simp: emit_newline_def same_output_def split: prod.splits)

lemma emit_newline_col:
  "emit_newline cfg wr st = (HYBBX_OK, st') \<Longrightarrow> em_col st' = map_option (\<lambda>_. 0) (em_col st)"
  by (auto simp: emit_newline_def emit_raw_def Let_def split: if_splits)

lemma emit_loop_step:
  "emit_loop cfg wr st col (c # cs) =
     (case plain_text c of
        [] \<Rightarrow> emit_loop cfg wr st col cs
      | ch # _ \<Rightarrow>
          if ch = CHR 0x0A then
            (case emit_newline cfg wr st of (rc, st1) \<Rightarrow>
               if rc \<noteq> HYBBX_OK then (rc, st1) else emit_loop cfg wr st1 0 cs)
          else
            (case (if tc_line_width cfg > 0 \<and> col \<ge> tc_line_width cfg
                   then emit_newline cfg wr st else (HYBBX_OK, st)) of (rc, st1) \<Rightarrow>
               if rc \<noteq> HYBBX_OK then (rc, st1)
               else let col1 = (if tc_line_width cfg > 0 \<and> col \<ge> tc_line_width cfg then 0 else col)
                    in case emit_raw cfg wr st1 ch of (rc2, st2) \<Rightarrow>
                         if rc2 \<noteq> HYBBX_OK then (rc2, st2)
                         else emit_loop cfg wr st2 ((col1 + 1) mod 2 ^ 32) cs))"
proof -
  have d: "drop 1 (c # cs) = cs" "(if (0::nat) < 1 then 1 else 1) = (1::nat)" by simp_all
  show ?thesis
    unfolding emit_loop.simps [of cfg wr st col "c # cs"] traffic_plain_char_eq prod.case d
    by (cases "plain_text c") simp_all
qed

lemma emit_loop_Nil: "emit_loop cfg wr st col [] = (HYBBX_OK, st\<lparr>em_col := map_option (\<lambda>_. col) (em_col st)\<rparr>)"
  by (simp add: emit_loop.simps)

lemma emit_loop_same:
  assumes "em_count st = em_count st'" and "em_events st = em_events st'"
  shows "same_output (emit_loop cfg wr st col data)
       (emit_all cfg wr st' (fst (wrapped (tc_line_width cfg) col (concat (map plain_text data)))))
     \<and> (fst (emit_loop cfg wr st col data) = HYBBX_OK \<longrightarrow>
          em_col (snd (emit_loop cfg wr st col data))
            = map_option (\<lambda>_. snd (wrapped (tc_line_width cfg) col (concat (map plain_text data)))) (em_col st))"
  using assms
proof (induction data arbitrary: st st' col)
  case Nil
  then show ?case by (simp add: emit_loop_Nil same_output_def option.map_comp comp_def)
next
  case (Cons c cs)
  let ?w = "tc_line_width cfg" and ?rest = "concat (map plain_text cs)"
  note st = Cons.prems
  from plain_text_cases [of c] consider "plain_text c = []" | "plain_text c = [CHR 0x0A]"
    | x where "plain_text c = [x]" "x \<noteq> CHR 0x0A" by metis
  then show ?case
  proof cases
    case 1
    with Cons.IH [OF st, of col] show ?thesis by (simp add: emit_loop_step)
  next
    case 2
    obtain rc s1 where n: "emit_newline cfg wr st = (rc, s1)" by fastforce
    obtain rc' s1' where a: "emit_all cfg wr st' [CHR 0x0D, CHR 0x0A] = (rc', s1')" by fastforce
    have "same_output (rc, s1) (rc', s1')"
      using emit_newline_same [of cfg wr st] emit_all_same [OF st, of cfg wr "[CHR 0x0D, CHR 0x0A]"] n a
      by (simp add: same_output_def)
    then have eq: "rc = rc'" "em_count s1 = em_count s1'" "em_events s1 = em_events s1'"
      by (simp_all add: same_output_def)
    have w: "wrapped ?w col (CHR 0x0A # ?rest)
        = ([CHR 0x0D, CHR 0x0A] @ fst (wrapped ?w 0 ?rest), snd (wrapped ?w 0 ?rest))"
      by (simp add: case_prod_beta)
    have l: "emit_loop cfg wr st col (c # cs)
        = (if rc \<noteq> HYBBX_OK then (rc, s1) else emit_loop cfg wr s1 0 cs)"
      using n by (simp add: emit_loop_step 2)
    have r: "emit_all cfg wr st' ([CHR 0x0D, CHR 0x0A] @ fst (wrapped ?w 0 ?rest))
        = (if rc' \<noteq> HYBBX_OK then (rc', s1') else emit_all cfg wr s1' (fst (wrapped ?w 0 ?rest)))"
      unfolding emit_all_append a by simp
    have c1: "rc = HYBBX_OK \<Longrightarrow> map_option (\<lambda>_. k) (em_col s1) = map_option (\<lambda>_. k) (em_col st)" for k :: nat
      using n emit_newline_col [of cfg wr st s1] by (auto simp: option.map_comp comp_def)
    have t: "concat (map plain_text (c # cs)) = CHR 0x0A # ?rest" using 2 by simp
    show ?thesis
      unfolding t l w fst_conv snd_conv r
      using eq c1 Cons.IH [OF eq(2,3), of 0] by (auto simp: same_output_def)
  next
    case 3
    let ?brk = "?w > 0 \<and> col \<ge> ?w"
    let ?col1 = "if ?brk then 0 else col"
    let ?nl = "if ?brk then [CHR 0x0D, CHR 0x0A] else []"
    obtain rc s1 where n: "(if ?brk then emit_newline cfg wr st else (HYBBX_OK, st)) = (rc, s1)" by fastforce
    obtain rc' s1' where a: "emit_all cfg wr st' ?nl = (rc', s1')" by fastforce
    have "same_output (rc, s1) (rc', s1')"
      using emit_newline_same [of cfg wr st] emit_all_same [OF st, of cfg wr ?nl] n a st
      by (auto simp: same_output_def split: if_splits)
    then have eq: "rc = rc'" "em_count s1 = em_count s1'" "em_events s1 = em_events s1'"
      by (simp_all add: same_output_def)
    have c1: "rc = HYBBX_OK \<Longrightarrow> map_option (\<lambda>_. k) (em_col s1) = map_option (\<lambda>_. k) (em_col st)" for k :: nat
      using n emit_newline_col [of cfg wr st s1] by (auto simp: option.map_comp comp_def split: if_splits)
    obtain rc2 s2 where x: "emit_raw cfg wr s1 (hd (plain_text c)) = (rc2, s2)" by fastforce
    obtain rc2' s2' where x': "emit_raw cfg wr s1' (hd (plain_text c)) = (rc2', s2')" by fastforce
    from emit_raw_same [OF eq(2,3), of cfg wr "hd (plain_text c)"] x x' have
      eq2: "rc2 = rc2'" "em_count s2 = em_count s2'" "em_events s2 = em_events s2'"
      by (simp_all add: same_output_def)
    have c2: "em_col s2 = em_col s1" using emit_raw_col [of cfg wr s1 "hd (plain_text c)"] x by simp
    let ?col2 = "(?col1 + 1) mod 2 ^ 32"
    have w: "wrapped ?w col (x # ?rest) = (?nl @ x # fst (wrapped ?w ?col2 ?rest), snd (wrapped ?w ?col2 ?rest))"
      using 3(2) by (simp add: case_prod_beta)
    have l: "emit_loop cfg wr st col (c # cs)
        = (if rc \<noteq> HYBBX_OK then (rc, s1) else if rc2 \<noteq> HYBBX_OK then (rc2, s2)
           else emit_loop cfg wr s2 ?col2 cs)"
      unfolding emit_loop_step 3(1) list.case if_not_P [OF 3(2)] n prod.case Let_def
      using x 3(1) by simp
    have r: "emit_all cfg wr st' (?nl @ x # fst (wrapped ?w ?col2 ?rest))
        = (if rc' \<noteq> HYBBX_OK then (rc', s1') else if rc2' \<noteq> HYBBX_OK then (rc2', s2')
           else emit_all cfg wr s2' (fst (wrapped ?w ?col2 ?rest)))"
      unfolding emit_all_append a prod.case emit_all.simps using x' 3(1) by simp
    have t: "concat (map plain_text (c # cs)) = x # ?rest" using 3(1) by simp
    show ?thesis
      unfolding t l w fst_conv snd_conv r
      using eq eq2 c2 c1 Cons.IH [OF eq2(2,3), of ?col2] by (auto simp: same_output_def)
  qed
qed

lemma emit_all_prefix:
  "\<exists>k \<le> length t. fst (emit_all cfg wr st t) = (if k = length t then HYBBX_OK else wr (em_count st + k))
     \<and> (\<forall>j < k. wr (em_count st + j) = HYBBX_OK)
     \<and> (k < length t \<longrightarrow> wr (em_count st + k) \<noteq> HYBBX_OK)
     \<and> em_events (snd (emit_all cfg wr st t)) = em_events st
         @ concat (map (\<lambda>c. Out c # (if tc_pace_output cfg \<noteq> 0 \<and> tc_baud cfg > 0
               \<and> hybbx_traffic_byte_delay_us (tc_baud cfg) > 0
             then [Sleep (hybbx_traffic_byte_delay_us (tc_baud cfg))] else [])) (take k t))"
proof (induction t arbitrary: st)
  case Nil
  then show ?case by simp
next
  case (Cons c t)
  show ?case
  proof (cases "wr (em_count st) = HYBBX_OK")
    case False
    then show ?thesis by (intro exI [of _ 0]) (simp add: emit_raw_def Let_def)
  next
    case True
    let ?p = "tc_pace_output cfg \<noteq> 0 \<and> tc_baud cfg > 0 \<and> hybbx_traffic_byte_delay_us (tc_baud cfg) > 0"
    let ?d = "if ?p then [Sleep (hybbx_traffic_byte_delay_us (tc_baud cfg))] else []"
    obtain s1 where e: "emit_raw cfg wr st c = (HYBBX_OK, s1)" "em_count s1 = em_count st + 1"
      "em_events s1 = em_events st @ Out c # ?d"
      using True by (simp add: emit_raw_def Let_def)
    from Cons.IH [of s1] obtain k where k: "k \<le> length t"
      "fst (emit_all cfg wr s1 t) = (if k = length t then HYBBX_OK else wr (em_count s1 + k))"
      "\<forall>j < k. wr (em_count s1 + j) = HYBBX_OK" "k < length t \<longrightarrow> wr (em_count s1 + k) \<noteq> HYBBX_OK"
      "em_events (snd (emit_all cfg wr s1 t)) = em_events s1 @ concat (map (\<lambda>c. Out c # ?d) (take k t))"
      by blast
    have "\<forall>j < Suc k. wr (em_count st + j) = HYBBX_OK"
      using True k(3) e(2) by (auto simp: less_Suc_eq_0_disj)
    with k e show ?thesis by (intro exI [of _ "Suc k"]) simp
  qed
qed

text \<open>The terminal's column after each character: a carriage return goes to 0, a line feed stays.\<close>

fun text_columns :: "nat \<Rightarrow> string \<Rightarrow> nat list" where
  "text_columns col [] = []"
| "text_columns col (c # cs) =
     (let col' = (if c = CHR 0x0D then 0 else if c = CHR 0x0A then col else col + 1)
      in col' # text_columns col' cs)"

lemma wrapped_columns:
  "0 < w \<Longrightarrow> w < 2 ^ 32 \<Longrightarrow> col \<le> w \<Longrightarrow> CHR 0x0D \<notin> set t \<Longrightarrow>
   (\<forall>n \<in> set (text_columns col (fst (wrapped w col t))). n \<le> w) \<and> snd (wrapped w col t) \<le> w"
proof (induction t arbitrary: col)
  case Nil
  then show ?case by simp
next
  case (Cons c t)
  consider "c = CHR 0x0A" | "c \<noteq> CHR 0x0A" "col = w" | "c \<noteq> CHR 0x0A" "col < w"
    using Cons.prems(3) by fastforce
  then show ?case
  proof cases
    case 1
    with Cons.IH [of 0] Cons.prems show ?thesis by (simp add: case_prod_beta Let_def)
  next
    case 2
    with Cons.IH [of 1] Cons.prems show ?thesis by (auto simp: case_prod_beta Let_def)
  next
    case 3
    then have "(col + 1) mod 2 ^ 32 = col + 1" using Cons.prems(2) by simp
    with 3 Cons.IH [of "col + 1"] Cons.prems show ?thesis by (auto simp: case_prod_beta Let_def)
  qed
qed

lemma wrapped_set: "set (fst (wrapped w col t)) \<subseteq> set t \<union> {CHR 0x0D, CHR 0x0A}"
proof (induction t arbitrary: col)
  case Nil
  then show ?case by simp
next
  case (Cons c t)
  from Cons.IH [of 0] Cons.IH [of 1] Cons.IH [of "(col + 1) mod 2 ^ 32"] show ?case
    by (auto simp: case_prod_beta)
qed

text \<open>What plain text consists of: no control character but the line feed.\<close>

lemma plain_text_printable:
  "x \<in> set (plain_text c) \<Longrightarrow>
   x = CHR 0x0A \<or> (of_char x :: nat) \<ge> 0x20 \<and> (of_char x :: nat) \<noteq> 0x7F"
  by (auto simp: plain_text_def split: if_splits)

section \<open>Properties\<close>

text \<open>
  What a session receives: for every configuration, transport and text, the bytes offered to
  the transport are the plain text broken at the line width, one after the other until the first
  refused byte, whose error is the result; and on success the caller's column is the column after
  that text.
\<close>

theorem traffic_emit_refines_plain_text:
  "\<exists>k \<le> length (sent_text cfg st data).
     fst (hybbx_traffic_emit cfg wr st data)
       = (if k = length (sent_text cfg st data) then HYBBX_OK else wr (em_count st + k))
     \<and> (\<forall>j < k. wr (em_count st + j) = HYBBX_OK)
     \<and> (k < length (sent_text cfg st data) \<longrightarrow> wr (em_count st + k) \<noteq> HYBBX_OK)
     \<and> [c. Out c \<leftarrow> em_events (snd (hybbx_traffic_emit cfg wr st data))]
       = [c. Out c \<leftarrow> em_events st] @ take k (sent_text cfg st data)
     \<and> (k = length (sent_text cfg st data) \<and> data \<noteq> [] \<and> \<not> (tc_ansi cfg \<noteq> 0 \<and> data = TERM_SGR) \<longrightarrow>
          em_col (snd (hybbx_traffic_emit cfg wr st data))
            = map_option (\<lambda>c. snd (wrapped (tc_line_width cfg) c (concat (map plain_text data)))) (em_col st))"
proof -
  let ?t = "sent_text cfg st data"
  let ?c = "case em_col st of Some c \<Rightarrow> c | None \<Rightarrow> 0"
  have same: "same_output (hybbx_traffic_emit cfg wr st data) (emit_all cfg wr st ?t)"
    using emit_loop_same [OF refl refl, of cfg wr st ?c data]
    by (auto simp: hybbx_traffic_emit_def sent_text_def)
  have col: "em_col (snd (hybbx_traffic_emit cfg wr st data))
      = map_option (\<lambda>c. snd (wrapped (tc_line_width cfg) c (concat (map plain_text data)))) (em_col st)"
    if "fst (hybbx_traffic_emit cfg wr st data) = HYBBX_OK" "data \<noteq> []" "\<not> (tc_ansi cfg \<noteq> 0 \<and> data = TERM_SGR)"
    using emit_loop_same [OF refl refl, of cfg wr st ?c data] that
    by (auto simp: hybbx_traffic_emit_def split: option.splits)
  have outs: "[c. Out c \<leftarrow> concat (map (\<lambda>c. Out c # (if p then [Sleep d] else [])) t)] = t" for p d t
    by (induction t) auto
  from emit_all_prefix [of ?t cfg wr st] same col show ?thesis
    unfolding same_output_def by (auto simp: outs)
qed

theorem traffic_emit_refines_plain_text_witness:
  "[c. Out c \<leftarrow> em_events (snd (hybbx_traffic_emit (hybbx_traffic_config_defaults\<lparr>tc_line_width := 3\<rparr>)
       (\<lambda>_. HYBBX_OK) \<lparr>em_count = 0, em_events = [], em_col = Some 2\<rparr> [CHR ''a'', CHR 0x09, CHR 0x07]))]
   = [CHR ''a'', CHR 0x0D, CHR 0x0A, CHR '' '']"
proof -
  let ?cfg = "hybbx_traffic_config_defaults\<lparr>tc_line_width := 3\<rparr>"
  let ?st = "\<lparr>em_count = 0, em_events = [], em_col = Some 2\<rparr>"
  let ?d = "[CHR ''a'', CHR 0x09, CHR 0x07]"
  have t: "sent_text ?cfg ?st ?d = [CHR ''a'', CHR 0x0D, CHR 0x0A, CHR '' '']"
    by (simp add: sent_text_def plain_text_def hybbx_traffic_config_defaults_def)
  obtain k where "k = length (sent_text ?cfg ?st ?d)"
      "[c. Out c \<leftarrow> em_events (snd (hybbx_traffic_emit ?cfg (\<lambda>_. HYBBX_OK) ?st ?d))] = [] @ take k (sent_text ?cfg ?st ?d)"
    using traffic_emit_refines_plain_text [of ?cfg ?st ?d "\<lambda>_. HYBBX_OK"] by (auto simp: le_less)
  then show ?thesis by (simp add: t)
qed

text \<open>
  Line width and character set: with a configured width, from a column within it, no character
  is ever placed past the width, and apart from carriage returns and line feeds only characters
  from 32 on other than 127 are sent, unless ANSI output is on and the text is the one sequence
  that is let through.
\<close>

theorem traffic_emit_width_and_charset:
  assumes "0 < tc_line_width cfg" and "tc_line_width cfg < 2 ^ 32" and "\<not> (tc_ansi cfg \<noteq> 0 \<and> data = TERM_SGR)"
    and "em_col st = Some col" and "col \<le> tc_line_width cfg"
  shows "(\<forall>n \<in> set (text_columns col (sent_text cfg st data)). n \<le> tc_line_width cfg)
     \<and> (\<forall>x \<in> set (sent_text cfg st data). x = CHR 0x0D \<or> x = CHR 0x0A
          \<or> (of_char x :: nat) \<ge> 0x20 \<and> (of_char x :: nat) \<noteq> 0x7F)"
proof -
  have t: "sent_text cfg st data = fst (wrapped (tc_line_width cfg) col (concat (map plain_text data)))"
    using assms(3,4) by (auto simp: sent_text_def)
  have p: "\<forall>x \<in> set (concat (map plain_text data)). x = CHR 0x0A
      \<or> (of_char x :: nat) \<ge> 0x20 \<and> (of_char x :: nat) \<noteq> 0x7F"
    by (auto dest: plain_text_printable)
  then have "CHR 0x0D \<notin> set (concat (map plain_text data))" by fastforce
  with wrapped_columns [OF assms(1,2,5)] p wrapped_set [of "tc_line_width cfg" col "concat (map plain_text data)"]
  show ?thesis unfolding t by blast
qed

theorem traffic_emit_width_and_charset_witness:
  "list_all (\<lambda>n. n \<le> 3) (text_columns 2 (sent_text (hybbx_traffic_config_defaults\<lparr>tc_line_width := 3\<rparr>)
      \<lparr>em_count = 0, em_events = [], em_col = Some 2\<rparr> ''ab c''))"
  using traffic_emit_width_and_charset [of "hybbx_traffic_config_defaults\<lparr>tc_line_width := 3\<rparr>" "''ab c''"
      "\<lparr>em_count = 0, em_events = [], em_col = Some 2\<rparr>" 2]
  by (simp add: hybbx_traffic_config_defaults_def list_all_iff)

text \<open>
  Escape sequences are not removed: the escape character is dropped by the test for control
  characters that comes first, so the branch that would skip a whole sequence is never reached and
  the rest of every sequence is sent as text.
\<close>

theorem traffic_escape_text_leaks:
  assumes "\<not> (tc_ansi cfg \<noteq> 0 \<and> CHR 0x1B # rest = TERM_SGR)" and "\<not> (tc_ansi cfg \<noteq> 0 \<and> rest = TERM_SGR)"
  shows "traffic_plain_char (CHR 0x1B # rest) = (1, None)
     \<and> sent_text cfg st (CHR 0x1B # rest) = sent_text cfg st rest"
  using assms by (auto simp: traffic_plain_char_eq plain_text_def sent_text_def)

theorem traffic_escape_text_leaks_witness:
  "sent_text hybbx_traffic_config_defaults \<lparr>em_count = 0, em_events = [], em_col = None\<rparr> (CHR 0x1B # ''[31mHi'')
     = ''[31mHi''"
proof -
  have "sent_text hybbx_traffic_config_defaults \<lparr>em_count = 0, em_events = [], em_col = None\<rparr> ''[31mHi'' = ''[31mHi''"
    by (simp add: sent_text_def hybbx_traffic_config_defaults_def plain_text_def LINE_WIDTH_def)
  then show ?thesis
    using traffic_escape_text_leaks [of hybbx_traffic_config_defaults "''[31mHi''"]
    by (simp add: hybbx_traffic_config_defaults_def)
qed

text \<open>
  Pacing: with pacing on at a baud rate from 300 to 38400, one pause of ten million divided by
  the rate, rounded down, follows each byte sent, so that sending takes at least the time of ten
  bits per byte, less one microsecond per byte.
\<close>

theorem traffic_emit_paced:
  assumes "tc_pace_output cfg \<noteq> 0" and "300 \<le> tc_baud cfg" and "tc_baud cfg \<le> 38400"
    and "\<forall>j. wr j = HYBBX_OK" and "em_events st = []"
  shows "sum_list [d. Sleep d \<leftarrow> em_events (snd (hybbx_traffic_emit cfg wr st data))]
       = length (sent_text cfg st data) * (10000000 div tc_baud cfg)
     \<and> 10000000 * length (sent_text cfg st data)
         \<le> tc_baud cfg * (sum_list [d. Sleep d \<leftarrow> em_events (snd (hybbx_traffic_emit cfg wr st data))]
                          + length (sent_text cfg st data))"
proof -
  let ?t = "sent_text cfg st data" and ?d = "10000000 div tc_baud cfg"
  let ?c = "case em_col st of Some c \<Rightarrow> c | None \<Rightarrow> 0"
  have same: "same_output (hybbx_traffic_emit cfg wr st data) (emit_all cfg wr st ?t)"
    using emit_loop_same [OF refl refl, of cfg wr st ?c data]
    by (auto simp: hybbx_traffic_emit_def sent_text_def)
  have "38400 * 1 \<le> (10000000 :: nat)" by simp
  then have "0 < ?d" using assms(2,3) by (simp add: div_greater_zero_iff)
  then have delay: "hybbx_traffic_byte_delay_us (tc_baud cfg) = ?d" "0 < tc_baud cfg" "0 < ?d"
    using assms(2) by (auto simp: hybbx_traffic_byte_delay_us_def)
  from emit_all_prefix [of ?t cfg wr st] assms(4) same
  have ev: "em_events (snd (hybbx_traffic_emit cfg wr st data)) = concat (map (\<lambda>c. [Out c, Sleep ?d]) ?t)"
    using assms(1,5) delay by (auto simp: same_output_def le_less)
  have "sum_list [d. Sleep d \<leftarrow> concat (map (\<lambda>c. [Out c, Sleep ?d]) t)] = length t * ?d" for t
    by (induction t) auto
  then have sum: "sum_list [d. Sleep d \<leftarrow> em_events (snd (hybbx_traffic_emit cfg wr st data))] = length ?t * ?d"
    unfolding ev by blast
  have "10000000 \<le> tc_baud cfg * (?d + 1)"
    using dividend_less_times_div [OF delay(2), of 10000000] by simp
  then have "length ?t * 10000000 \<le> length ?t * (tc_baud cfg * (?d + 1))" by (rule mult_le_mono2)
  then have "10000000 * length ?t \<le> tc_baud cfg * (length ?t * ?d + length ?t)"
    by (simp add: algebra_simps)
  with sum show ?thesis by simp
qed

theorem traffic_emit_paced_witness:
  "sum_list [d. Sleep d \<leftarrow> em_events (snd (hybbx_traffic_emit hybbx_traffic_config_defaults (\<lambda>_. HYBBX_OK)
      \<lparr>em_count = 0, em_events = [], em_col = None\<rparr> ''Hi''))] = 8332"
proof -
  have "sent_text hybbx_traffic_config_defaults \<lparr>em_count = 0, em_events = [], em_col = None\<rparr> ''Hi'' = ''Hi''"
    by (simp add: sent_text_def hybbx_traffic_config_defaults_def plain_text_def LINE_WIDTH_def)
  then show ?thesis
    using traffic_emit_paced [of hybbx_traffic_config_defaults "\<lambda>_. HYBBX_OK"
        "\<lparr>em_count = 0, em_events = [], em_col = None\<rparr>" "''Hi''"]
    by (simp add: hybbx_traffic_config_defaults_def BAUD2400_def)
qed

end
