(* ===== verification/Circuit_Balance.thy ===== *)
theory Circuit_Balance imports Complex_Main Link_Auth "HOL-Library.Sublist" begin

text \<open>
  Load balancing of a circuit's downlink: \<^verbatim>\<open>src/core/circuit_balance.c\<close> and
  \<^verbatim>\<open>include/hybbx/circuit_balance.h\<close>.  The clock read by an operation is its argument
  \<open>now\<close>; the link's send function is an oracle, the result of the k-th attempt; frames accepted by
  the link and flow messages are logged.  \<^verbatim>\<open>double\<close> arithmetic is rational arithmetic
  followed by a rounding function \<open>rnd\<close>; \<^verbatim>\<open>strtod\<close> is a parameter.
\<close>

section \<open>Data\<close>

definition BALANCE_QUEUE_MAX :: nat where "BALANCE_QUEUE_MAX = 64"
definition BALANCE_DEFAULT_BAUD :: nat where "BALANCE_DEFAULT_BAUD = 115200"
definition BALANCE_LOW_BAUD_THRESHOLD :: nat where "BALANCE_LOW_BAUD_THRESHOLD = 9600"

datatype circuit_bandwidth = BW_HIGH | BW_LOW

definition DUPLEX_UNSET :: int where "DUPLEX_UNSET = 0"
definition DUPLEX_HALF :: int where "DUPLEX_HALF = 1"
definition DUPLEX_FULL :: int where "DUPLEX_FULL = 2"

datatype balance_action = BAL_NONE | BAL_PAUSE | BAL_BREAK | BAL_CANCEL | BAL_RESUME

datatype balance_tick_result = BAL_TICK_OK | BAL_TICK_CANCEL_LINK

record balance_config =
  bc_enabled :: bool
  bc_lag_sec :: nat
  bc_queue_pause :: nat
  bc_queue_break :: nat
  bc_queue_cancel :: nat

record link_profile =
  lp_bandwidth :: circuit_bandwidth
  lp_duplex :: int
  lp_baud :: nat
  lp_frequency_mhz :: rat

record balance =
  ba_cfg :: balance_config
  ba_profile :: link_profile
  ba_queue :: "bytes list"
  ba_head :: nat
  ba_count :: nat
  ba_bytes :: nat
  ba_action :: balance_action
  ba_last_sent :: balance_action
  ba_accum :: rat
  ba_oldest :: int
  ba_low_bw :: bool

text \<open>What leaves the balancer: attempts to send, frames the link took, flow messages.\<close>

record balance_io =
  io_attempts :: nat
  io_sent :: "bytes list"
  io_flows :: "(balance_action \<times> string) list"

definition balance_config_defaults :: balance_config where
  "balance_config_defaults = \<lparr>bc_enabled = True, bc_lag_sec = 5, bc_queue_pause = 4096,
     bc_queue_break = 16384, bc_queue_cancel = 65536\<rparr>"

section \<open>Profiles\<close>

definition str_ieq_local :: "string \<Rightarrow> string \<Rightarrow> bool" where
  "str_ieq_local a b = str_ieq a b"

definition link_profile_from_auth :: "(string \<Rightarrow> rat) \<Rightarrow> link_auth option \<Rightarrow> link_profile" where
  "link_profile_from_auth strtod auth =
     (let p0 = \<lparr>lp_bandwidth = BW_HIGH, lp_duplex = DUPLEX_FULL, lp_baud = BALANCE_DEFAULT_BAUD,
                lp_frequency_mhz = 0\<rparr>
      in case auth of None \<Rightarrow> p0
         | Some a \<Rightarrow>
             let baud = unat (la_baud a);
                 bw = (if la_bandwidth a \<noteq> [] then
                         (if str_ieq_local (la_bandwidth a) ''low'' then BW_LOW
                          else if str_ieq_local (la_bandwidth a) ''high'' then BW_HIGH
                          else BW_HIGH)
                       else if baud > 0 \<and> baud \<le> BALANCE_LOW_BAUD_THRESHOLD then BW_LOW
                       else BW_HIGH)
             in \<lparr>lp_bandwidth = bw,
                 lp_duplex = (if la_duplex a = DUPLEX_UNSET
                              then (if bw = BW_LOW then DUPLEX_HALF else DUPLEX_FULL)
                              else la_duplex a),
                 lp_baud = (if baud > 0 then baud else if bw = BW_LOW then 1200
                            else BALANCE_DEFAULT_BAUD),
                 lp_frequency_mhz = (if la_frequency_mhz a \<noteq> [] then strtod (la_frequency_mhz a)
                                     else 0)\<rparr>)"

section \<open>Flow messages\<close>

fun balance_action_name :: "balance_action \<Rightarrow> string" where
  "balance_action_name BAL_PAUSE = ''pause''"
| "balance_action_name BAL_BREAK = ''break''"
| "balance_action_name BAL_CANCEL = ''cancel''"
| "balance_action_name BAL_RESUME = ''resume''"
| "balance_action_name BAL_NONE = ''none''"

text \<open>The file's own copy of the line reader is the one of the announcement.\<close>

definition balance_find_kv_line :: "string \<Rightarrow> string \<Rightarrow> nat \<Rightarrow> string option" where
  "balance_find_kv_line payload key scratch_len = find_kv_line payload key scratch_len"

text \<open>The result, the action and the reason; on an error neither output is written.\<close>

definition flow_ctrl_parse :: "string \<Rightarrow> nat \<Rightarrow> hybbx_result + (balance_action \<times> string)" where
  "flow_ctrl_parse payload reason_cap =
     (case balance_find_kv_line payload ''action'' 128 of
        None \<Rightarrow> Inl HYBBX_ERR_INVALID
      | Some a \<Rightarrow>
          let reason = (if reason_cap > 0 then
                          (case balance_find_kv_line payload ''reason'' 128 of
                             None \<Rightarrow> [] | Some r \<Rightarrow> snd (hybbx_strlcpy [] (Some r) reason_cap))
                        else [])
          in if str_ieq_local a ''pause'' then Inr (BAL_PAUSE, reason)
             else if str_ieq_local a ''break'' then Inr (BAL_BREAK, reason)
             else if str_ieq_local a ''cancel'' then Inr (BAL_CANCEL, reason)
             else if str_ieq_local a ''resume'' then Inr (BAL_RESUME, reason)
             else Inl HYBBX_ERR_INVALID)"

definition flow_ctrl_format :: "balance_action \<Rightarrow> string option \<Rightarrow> nat \<Rightarrow> string" where
  "flow_ctrl_format action reason out_cap =
     (let reason_str = (case reason of None \<Rightarrow> ''-'' | Some r \<Rightarrow> if r \<noteq> [] then r else ''-'');
          text = kv_line ''action'' (balance_action_name action) @ kv_line ''reason'' reason_str
      in if out_cap = 0 \<or> length text \<ge> out_cap then [] else text)"

section \<open>The balancer\<close>

text \<open>None is a failed \<^verbatim>\<open>calloc\<close>.\<close>

definition balance_create :: "bool \<Rightarrow> balance_config option \<Rightarrow> balance option" where
  "balance_create allocated cfg =
     (if \<not> allocated then None
      else Some \<lparr>ba_cfg = (case cfg of Some c \<Rightarrow> c | None \<Rightarrow> balance_config_defaults),
                 ba_profile = link_profile_from_auth (\<lambda>_. 0) None,
                 ba_queue = replicate BALANCE_QUEUE_MAX [], ba_head = 0, ba_count = 0, ba_bytes = 0,
                 ba_action = BAL_NONE, ba_last_sent = BAL_NONE, ba_accum = 0, ba_oldest = 0,
                 ba_low_bw = False\<rparr>)"

definition balance_set_profile :: "link_profile \<Rightarrow> balance \<Rightarrow> balance" where
  "balance_set_profile profile bal =
     bal\<lparr>ba_profile := profile, ba_low_bw := (lp_bandwidth profile = BW_LOW)\<rparr>"

definition balance_spared_cancel :: "balance \<Rightarrow> balance" where
  "balance_spared_cancel bal =
     (if ba_action bal = BAL_CANCEL
      then bal\<lparr>ba_action := BAL_PAUSE, ba_last_sent := BAL_NONE\<rparr> else bal)"

definition balance_effective_baud :: "balance \<Rightarrow> nat" where
  "balance_effective_baud bal =
     (if lp_baud (ba_profile bal) = 0 then BALANCE_DEFAULT_BAUD else lp_baud (ba_profile bal))"

definition balance_estimated_lag_sec :: "int \<Rightarrow> balance \<Rightarrow> nat" where
  "balance_estimated_lag_sec now bal =
     (if ba_bytes bal = 0 then 0
      else let baud = balance_effective_baud bal in
        if baud = 0 then 0
        else let lag = (ba_bytes bal * 8 div baud) mod 2 ^ 32 in
          if ba_oldest bal > 0 \<and> now > ba_oldest bal then
            (let wall = nat (now - ba_oldest bal) mod 2 ^ 32 in if wall > lag then wall else lag)
          else lag)"

text \<open>
  The flow callback: None is NULL; \<open>Some spare\<close> says whether the callback, told to cancel, spares
  the link, which it does by calling \<open>balance_spared_cancel\<close> before it returns.
\<close>

definition balance_send_flow ::
    "bool option \<Rightarrow> balance_action \<Rightarrow> string \<Rightarrow> balance \<times> balance_io \<Rightarrow> balance \<times> balance_io" where
  "balance_send_flow flow action reason st =
     (case st of (bal, io) \<Rightarrow>
        if flow = None \<or> action = ba_last_sent bal then (bal, io)
        else let bal1 = (if action = BAL_CANCEL \<and> flow = Some True then balance_spared_cancel bal else bal)
             in (bal1\<lparr>ba_last_sent := action\<rparr>, io\<lparr>io_flows := io_flows io @ [(action, reason)]\<rparr>))"

definition balance_clear_queue :: "balance \<Rightarrow> balance" where
  "balance_clear_queue bal =
     bal\<lparr>ba_head := 0, ba_count := 0, ba_bytes := 0, ba_oldest := 0, ba_accum := 0\<rparr>"

definition balance_apply_escalation ::
    "bool option \<Rightarrow> int \<Rightarrow> balance \<times> balance_io \<Rightarrow> balance \<times> balance_io" where
  "balance_apply_escalation flow now st =
     (case st of (bal, io) \<Rightarrow>
      let cfg = ba_cfg bal; lag = balance_estimated_lag_sec now bal in
      if \<not> bc_enabled cfg then st
      else if ba_low_bw bal \<and> (ba_bytes bal \<ge> bc_queue_cancel cfg \<or> lag \<ge> bc_lag_sec cfg * 2 mod 2 ^ 32)
      then (if ba_action bal \<noteq> BAL_CANCEL
            then balance_send_flow flow BAL_CANCEL ''queue_overload''
                   (balance_clear_queue (bal\<lparr>ba_action := BAL_CANCEL\<rparr>), io)
            else st)
      else if ba_bytes bal \<ge> bc_queue_break cfg \<or> lag \<ge> bc_lag_sec cfg
      then (if ba_action bal \<noteq> BAL_BREAK \<and> ba_action bal \<noteq> BAL_CANCEL
            then (case balance_send_flow flow BAL_BREAK ''queue_lag''
                         (balance_clear_queue (bal\<lparr>ba_action := BAL_BREAK\<rparr>), io) of
                    (bal1, io1) \<Rightarrow> balance_send_flow flow BAL_PAUSE ''stabilize''
                                     (bal1\<lparr>ba_action := BAL_PAUSE\<rparr>, io1))
            else st)
      else if ba_bytes bal \<ge> bc_queue_pause cfg \<or> lag \<ge> bc_lag_sec cfg div 2
      then (if ba_action bal = BAL_NONE
            then balance_send_flow flow BAL_PAUSE ''queue_pressure''
                   (bal\<lparr>ba_action := BAL_PAUSE\<rparr>, io)
            else st)
      else if ba_action bal = BAL_PAUSE \<and> ba_bytes bal < bc_queue_pause cfg div 2
              \<and> lag < bc_lag_sec cfg div 2
      then balance_send_flow flow BAL_RESUME ''stabilized'' (bal\<lparr>ba_action := BAL_NONE\<rparr>, io)
      else st)"

text \<open>The ring: a frame in at the tail, the frame at the head, the head out.\<close>

definition balance_enqueue :: "balance \<Rightarrow> bytes \<Rightarrow> balance" where
  "balance_enqueue bal frame =
     bal\<lparr>ba_queue := (ba_queue bal)[(ba_head bal + ba_count bal) mod BALANCE_QUEUE_MAX := frame],
         ba_count := ba_count bal + 1, ba_bytes := ba_bytes bal + length frame\<rparr>"

definition balance_front :: "balance \<Rightarrow> bytes" where
  "balance_front bal = ba_queue bal ! ba_head bal"

definition balance_dequeue :: "balance \<Rightarrow> balance" where
  "balance_dequeue bal =
     bal\<lparr>ba_bytes := ba_bytes bal - length (balance_front bal),
         ba_head := (ba_head bal + 1) mod BALANCE_QUEUE_MAX, ba_count := ba_count bal - 1\<rparr>"

definition balance_attempt ::
    "(nat \<Rightarrow> hybbx_result) \<Rightarrow> bytes \<Rightarrow> balance_io \<Rightarrow> hybbx_result \<times> balance_io" where
  "balance_attempt send frame io =
     (let rc = send (io_attempts io)
      in (rc, io\<lparr>io_attempts := io_attempts io + 1,
                 io_sent := io_sent io @ (if rc = HYBBX_OK then [frame] else [])\<rparr>))"

definition balance_submit ::
    "(nat \<Rightarrow> hybbx_result) \<Rightarrow> bool option \<Rightarrow> int \<Rightarrow> bytes \<Rightarrow> balance \<times> balance_io
     \<Rightarrow> hybbx_result \<times> balance \<times> balance_io" where
  "balance_submit send flow now frame st =
     (case st of (bal, io) \<Rightarrow>
        if frame = [] then (HYBBX_ERR_INVALID, st)
        else if \<not> bc_enabled (ba_cfg bal) \<or> lp_bandwidth (ba_profile bal) = BW_HIGH
        then (case balance_attempt send frame io of (rc, io') \<Rightarrow> (rc, bal, io'))
        else if ba_action bal = BAL_CANCEL then (HYBBX_ERR_BUSY, st)
        else if ba_count bal \<ge> BALANCE_QUEUE_MAX then
          (let st' = balance_apply_escalation flow now st
           in (if ba_action (fst st') = BAL_CANCEL then HYBBX_ERR_BUSY else HYBBX_ERR_NOMEM, st'))
        else if length frame > CIRCUIT_MAX_FRAME then (HYBBX_ERR_INVALID, st)
        else let bal1 = balance_enqueue bal frame;
                 bal2 = (if ba_oldest bal1 = 0 then bal1\<lparr>ba_oldest := now\<rparr> else bal1)
             in (HYBBX_OK, balance_apply_escalation flow now (bal2, io)))"

function balance_drain ::
    "(nat \<Rightarrow> hybbx_result) \<Rightarrow> nat \<Rightarrow> balance \<times> balance_io \<Rightarrow> balance \<times> balance_io" where
  "balance_drain send sent_budget st =
     (case st of (bal, io) \<Rightarrow>
        if sent_budget > 0 \<and> ba_count bal > 0 then
          (if length (balance_front bal) > sent_budget then st
           else case balance_attempt send (balance_front bal) io of (rc, io') \<Rightarrow>
             if rc \<noteq> HYBBX_OK then (bal, io')
             else balance_drain send (sent_budget - length (balance_front bal)) (balance_dequeue bal, io'))
        else st)"
  by pat_completeness auto
termination
  by (relation "measure (\<lambda>(send, budget, st). ba_count (fst st))") (auto simp: balance_dequeue_def)

declare balance_drain.simps [simp del]

definition balance_tick ::
    "(rat \<Rightarrow> rat) \<Rightarrow> (nat \<Rightarrow> hybbx_result) \<Rightarrow> bool option \<Rightarrow> int \<Rightarrow> nat \<Rightarrow> balance \<times> balance_io
     \<Rightarrow> balance_tick_result \<times> balance \<times> balance_io" where
  "balance_tick rnd send flow now poll_ms st =
     (case st of (bal, io) \<Rightarrow>
        if ba_action bal = BAL_CANCEL then (BAL_TICK_CANCEL_LINK, st)
        else if \<not> bc_enabled (ba_cfg bal) \<or> ba_count bal = 0
        then (BAL_TICK_OK, balance_apply_escalation flow now st)
        else if ba_action bal = BAL_PAUSE then
          (let st' = balance_apply_escalation flow now st
           in (if ba_action (fst st') = BAL_CANCEL then BAL_TICK_CANCEL_LINK else BAL_TICK_OK, st'))
        else
          let baud = balance_effective_baud bal;
              poll = (if poll_ms = 0 then 1 else poll_ms);
              budget = rnd (rnd (of_nat baud * of_nat poll) / 8000);
              accum = rnd (ba_accum bal + budget);
              sent_budget = nat \<lfloor>accum\<rfloor>;
              (bal1, io1) = balance_drain send sent_budget
                              (bal\<lparr>ba_accum := rnd (accum - of_nat sent_budget)\<rparr>, io);
              bal2 = (if ba_count bal1 = 0 then bal1\<lparr>ba_oldest := 0\<rparr> else bal1);
              st' = balance_apply_escalation flow now (bal2, io1)
          in (if ba_action (fst st') = BAL_CANCEL then BAL_TICK_CANCEL_LINK else BAL_TICK_OK, st'))"

text \<open>
  The flow message as the hub sends it (\<^verbatim>\<open>balance_flow_ctrl_cb\<close> in
  \<^verbatim>\<open>src/core/circuit_tcp.c\<close>): the payload formatted into 128 bytes, then the link message
  encoder; a length of 0 is not sent.
\<close>

definition flow_ctrl_frame :: "balance_action \<Rightarrow> string option \<Rightarrow> bytes \<Rightarrow> nat \<times> bytes" where
  "flow_ctrl_frame action reason frame =
     (if action = BAL_NONE then (0, frame)
      else let payload = flow_ctrl_format action (Some (case reason of Some r \<Rightarrow> r | None \<Rightarrow> ''-'')) 128
           in if payload = [] then (0, frame)
              else circuit_encode_link_msg PROTO_FLOW_CTRL (bytes_of_string payload) frame)"

section \<open>The ring as a queue\<close>

definition balance_contents :: "balance \<Rightarrow> bytes list" where
  "balance_contents bal =
     map (\<lambda>i. ba_queue bal ! ((ba_head bal + i) mod BALANCE_QUEUE_MAX)) [0..<ba_count bal]"

definition ring_ok :: "balance \<Rightarrow> bool" where
  "ring_ok bal \<longleftrightarrow> length (ba_queue bal) = BALANCE_QUEUE_MAX \<and> ba_head bal < BALANCE_QUEUE_MAX
     \<and> ba_count bal \<le> BALANCE_QUEUE_MAX
     \<and> ba_bytes bal = sum_list (map length (balance_contents bal))"

lemma length_balance_contents [simp]: "length (balance_contents bal) = ba_count bal"
  by (simp add: balance_contents_def)

lemma ring_slots_distinct: "(i :: nat) < c \<Longrightarrow> c < 64 \<Longrightarrow> (h + i) mod 64 \<noteq> (h + c) mod 64"
proof
  assume i: "i < c" and c: "c < 64" and "(h + i) mod 64 = (h + c) mod 64"
  then have "64 dvd (h + c) - (h + i)" by (metis add_le_cancel_left less_imp_le mod_eq_dvd_iff_nat)
  then have "64 dvd c - i" by simp
  with i c show False by (auto dest: dvd_imp_le)
qed

lemma balance_contents_enqueue:
  assumes "ring_ok bal" and "ba_count bal < BALANCE_QUEUE_MAX"
  shows "balance_contents (balance_enqueue bal f) = balance_contents bal @ [f]"
proof -
  let ?c = "ba_count bal" and ?h = "ba_head bal" and ?q = "ba_queue bal"
  have len: "length ?q = 64" "?c < 64" using assms by (auto simp: ring_ok_def BALANCE_QUEUE_MAX_def)
  have "?q[(?h + ?c) mod 64 := f] ! ((?h + i) mod 64) = ?q ! ((?h + i) mod 64)" if "i < ?c" for i
    using ring_slots_distinct [OF that len(2), of ?h] by simp
  then have "map (\<lambda>i. ?q[(?h + ?c) mod 64 := f] ! ((?h + i) mod 64)) [0..<?c]
      = map (\<lambda>i. ?q ! ((?h + i) mod 64)) [0..<?c]" by simp
  then show ?thesis
    using len by (simp add: balance_contents_def balance_enqueue_def BALANCE_QUEUE_MAX_def)
qed

lemma balance_front_hd:
  "ring_ok bal \<Longrightarrow> 0 < ba_count bal \<Longrightarrow> balance_front bal = hd (balance_contents bal)"
  by (simp add: balance_contents_def balance_front_def ring_ok_def hd_map)

lemma balance_contents_dequeue:
  "0 < ba_count bal \<Longrightarrow> balance_contents (balance_dequeue bal) = tl (balance_contents bal)"
proof -
  assume "0 < ba_count bal"
  then obtain c where c: "ba_count bal = Suc c" by (cases "ba_count bal") auto
  have "[0..<Suc c] = 0 # map Suc [0..<c]" by (simp add: map_Suc_upt upt_conv_Cons)
  moreover have "((h + 1) mod 64 + i) mod 64 = (h + Suc i) mod 64" for h i :: nat
    by (simp add: mod_add_left_eq)
  ultimately show ?thesis
    by (simp add: balance_contents_def balance_dequeue_def c BALANCE_QUEUE_MAX_def comp_def
        del: upt_Suc)
qed

lemma ring_ok_enqueue:
  "ring_ok bal \<Longrightarrow> ba_count bal < BALANCE_QUEUE_MAX \<Longrightarrow> ring_ok (balance_enqueue bal f)"
  using balance_contents_enqueue [of bal f]
  by (simp add: ring_ok_def) (simp add: balance_enqueue_def)

lemma ring_ok_dequeue:
  assumes "ring_ok bal" and "0 < ba_count bal"
  shows "ring_ok (balance_dequeue bal)"
proof -
  from balance_front_hd [OF assms] assms(2) have "balance_contents bal = balance_front bal # tl (balance_contents bal)"
    by (cases "balance_contents bal") (auto simp: length_balance_contents [symmetric] simp del: length_balance_contents)
  then have "sum_list (map length (balance_contents bal))
      = length (balance_front bal) + sum_list (map length (tl (balance_contents bal)))"
    by (metis list.simps(9) sum_list.Cons)
  with assms show ?thesis
    using balance_contents_dequeue [OF assms(2)]
    by (simp add: ring_ok_def) (auto simp: balance_dequeue_def BALANCE_QUEUE_MAX_def)
qed

interpretation balance_ring: bounded_fifo ring_ok balance_contents balance_enqueue balance_front
    balance_dequeue BALANCE_QUEUE_MAX
proof unfold_locales
  fix q x assume "ring_ok q" and "length (balance_contents q) < BALANCE_QUEUE_MAX"
  then show "ring_ok (balance_enqueue q x) \<and> balance_contents (balance_enqueue q x) = balance_contents q @ [x]"
    by (simp add: ring_ok_enqueue balance_contents_enqueue)
next
  fix q assume "ring_ok q" and "balance_contents q \<noteq> []"
  then have "0 < ba_count q" using length_balance_contents [of q] by (cases "balance_contents q") auto
  with \<open>ring_ok q\<close> show "balance_front q = hd (balance_contents q) \<and> ring_ok (balance_dequeue q)
      \<and> balance_contents (balance_dequeue q) = tl (balance_contents q)"
    by (simp add: balance_front_hd ring_ok_dequeue balance_contents_dequeue)
qed

section \<open>What each operation does to the queue\<close>

lemma balance_contents_frame [simp]:
  "balance_contents (bal\<lparr>ba_action := a\<rparr>) = balance_contents bal"
  "balance_contents (bal\<lparr>ba_last_sent := a\<rparr>) = balance_contents bal"
  "balance_contents (bal\<lparr>ba_oldest := t\<rparr>) = balance_contents bal"
  "balance_contents (bal\<lparr>ba_accum := r\<rparr>) = balance_contents bal"
  "balance_contents (bal\<lparr>ba_profile := pr, ba_low_bw := lw\<rparr>) = balance_contents bal"
  by (simp_all add: balance_contents_def)

lemma ring_ok_frame [simp]:
  "ring_ok (bal\<lparr>ba_action := a\<rparr>) = ring_ok bal"
  "ring_ok (bal\<lparr>ba_last_sent := a\<rparr>) = ring_ok bal"
  "ring_ok (bal\<lparr>ba_oldest := t\<rparr>) = ring_ok bal"
  "ring_ok (bal\<lparr>ba_accum := r\<rparr>) = ring_ok bal"
  "ring_ok (bal\<lparr>ba_profile := pr, ba_low_bw := lw\<rparr>) = ring_ok bal"
  by (simp_all add: ring_ok_def)

lemma balance_clear_queue_simps [simp]:
  "balance_contents (balance_clear_queue bal) = []"
  "ring_ok bal \<Longrightarrow> ring_ok (balance_clear_queue bal)"
  "ba_action (balance_clear_queue bal) = ba_action bal"
  "ba_last_sent (balance_clear_queue bal) = ba_last_sent bal"
  "ba_cfg (balance_clear_queue bal) = ba_cfg bal"
  "ba_profile (balance_clear_queue bal) = ba_profile bal"
  "ba_low_bw (balance_clear_queue bal) = ba_low_bw bal"
  "ba_accum (balance_clear_queue bal) = 0" "ba_count (balance_clear_queue bal) = 0"
  by (simp_all add: balance_clear_queue_def balance_contents_def ring_ok_def BALANCE_QUEUE_MAX_def)

text \<open>What the flow message leaves alone.\<close>

definition same_queue :: "balance \<Rightarrow> balance \<Rightarrow> bool" where
  "same_queue a b \<longleftrightarrow> balance_contents a = balance_contents b \<and> ba_cfg a = ba_cfg b
     \<and> ba_profile a = ba_profile b \<and> ba_low_bw a = ba_low_bw b \<and> ba_accum a = ba_accum b
     \<and> ring_ok a = ring_ok b \<and> ba_count a = ba_count b"

lemma balance_spared_cancel_queue: "same_queue (balance_spared_cancel bal) bal"
  by (auto simp: same_queue_def balance_spared_cancel_def balance_contents_def ring_ok_def)

lemma balance_send_flow_queue:
  "balance_send_flow flow a r (bal, io) = (bal', io') \<Longrightarrow>
   same_queue bal' bal \<and> io_sent io' = io_sent io \<and> io_attempts io' = io_attempts io
   \<and> (ba_action bal' = ba_action bal \<or> ba_action bal = BAL_CANCEL \<and> ba_action bal' = BAL_PAUSE)"
  using balance_spared_cancel_queue [of bal]
  by (auto simp: balance_send_flow_def same_queue_def Let_def balance_spared_cancel_def
      balance_contents_def ring_ok_def split: if_splits)

lemma escalation_ladder:
  "r = (if a then x else if b then (if c then y else x) else if d then (if e then z else x)
        else if f then (if g then u else x) else if h then v else x) \<Longrightarrow>
   r = x \<or> (\<not> a \<and> b \<and> c \<and> r = y) \<or> r = z \<or> r = u \<or> r = v"
  by (cases a; cases b; cases c; cases d; cases e; cases f; cases g; cases h) simp_all

text \<open>Escalation keeps the queue or empties it, and never sends a frame.\<close>

lemma balance_escalation_queue:
  assumes "balance_apply_escalation flow now (bal, io) = (bal', io')"
  shows "(balance_contents bal' = balance_contents bal \<and> ba_accum bal' = ba_accum bal
           \<or> balance_contents bal' = [] \<and> ba_accum bal' = 0)
     \<and> ba_cfg bal' = ba_cfg bal \<and> ba_profile bal' = ba_profile bal \<and> ba_low_bw bal' = ba_low_bw bal
     \<and> (ring_ok bal \<longrightarrow> ring_ok bal')
     \<and> io_sent io' = io_sent io \<and> io_attempts io' = io_attempts io
     \<and> (ba_action bal' = BAL_CANCEL \<longrightarrow> ba_action bal = BAL_CANCEL \<or> balance_contents bal' = [])
     \<and> (ba_action bal \<in> {BAL_NONE, BAL_PAUSE, BAL_CANCEL} \<longrightarrow>
          ba_action bal' \<in> {BAL_NONE, BAL_PAUSE, BAL_CANCEL})"
proof -
  let ?lag = "balance_estimated_lag_sec now bal" and ?cfg = "ba_cfg bal"
  let ?cancel = "ba_low_bw bal \<and> (ba_bytes bal \<ge> bc_queue_cancel ?cfg \<or> ?lag \<ge> bc_lag_sec ?cfg * 2 mod 2 ^ 32)"
  let ?break = "ba_bytes bal \<ge> bc_queue_break ?cfg \<or> ?lag \<ge> bc_lag_sec ?cfg"
  note def = assms [unfolded balance_apply_escalation_def prod.case Let_def]
  have "(bal', io') = (bal, io)
    \<or> bc_enabled ?cfg \<and> ?cancel \<and> ba_action bal \<noteq> BAL_CANCEL \<and> (bal', io') =
        balance_send_flow flow BAL_CANCEL ''queue_overload''
          (balance_clear_queue (bal\<lparr>ba_action := BAL_CANCEL\<rparr>), io)
    \<or> (bal', io') = (case balance_send_flow flow BAL_BREAK ''queue_lag''
               (balance_clear_queue (bal\<lparr>ba_action := BAL_BREAK\<rparr>), io) of
          (bal1, io1) \<Rightarrow> balance_send_flow flow BAL_PAUSE ''stabilize''
                           (bal1\<lparr>ba_action := BAL_PAUSE\<rparr>, io1))
    \<or> balance_send_flow flow BAL_PAUSE ''queue_pressure'' (bal\<lparr>ba_action := BAL_PAUSE\<rparr>, io) = (bal', io')
    \<or> balance_send_flow flow BAL_RESUME ''stabilized'' (bal\<lparr>ba_action := BAL_NONE\<rparr>, io) = (bal', io')"
    using escalation_ladder [OF def [symmetric]] by argo
  then show ?thesis
  proof (elim disjE)
    assume "(bal', io') = (bal, io)"
    then show ?thesis by auto
  next
    assume "bc_enabled ?cfg \<and> ?cancel \<and> ba_action bal \<noteq> BAL_CANCEL \<and> (bal', io') =
        balance_send_flow flow BAL_CANCEL ''queue_overload''
          (balance_clear_queue (bal\<lparr>ba_action := BAL_CANCEL\<rparr>), io)"
    then have "balance_send_flow flow BAL_CANCEL ''queue_overload''
        (balance_clear_queue (bal\<lparr>ba_action := BAL_CANCEL\<rparr>), io) = (bal', io')"
      by simp
    from balance_send_flow_queue [OF this] show ?thesis by (auto simp: same_queue_def)
  next
    assume e: "(bal', io') = (case balance_send_flow flow BAL_BREAK ''queue_lag''
               (balance_clear_queue (bal\<lparr>ba_action := BAL_BREAK\<rparr>), io) of
          (bal1, io1) \<Rightarrow> balance_send_flow flow BAL_PAUSE ''stabilize''
                           (bal1\<lparr>ba_action := BAL_PAUSE\<rparr>, io1))"
    obtain b1 i1 where f1: "balance_send_flow flow BAL_BREAK ''queue_lag''
        (balance_clear_queue (bal\<lparr>ba_action := BAL_BREAK\<rparr>), io) = (b1, i1)" by fastforce
    have f2: "balance_send_flow flow BAL_PAUSE ''stabilize'' (b1\<lparr>ba_action := BAL_PAUSE\<rparr>, i1) = (bal', io')"
      using e f1 by simp
    from balance_send_flow_queue [OF f1] balance_send_flow_queue [OF f2] show ?thesis
      by (auto simp: same_queue_def)
  next
    assume "balance_send_flow flow BAL_PAUSE ''queue_pressure'' (bal\<lparr>ba_action := BAL_PAUSE\<rparr>, io) = (bal', io')"
    from balance_send_flow_queue [OF this] show ?thesis by (auto simp: same_queue_def)
  next
    assume "balance_send_flow flow BAL_RESUME ''stabilized'' (bal\<lparr>ba_action := BAL_NONE\<rparr>, io) = (bal', io')"
    from balance_send_flow_queue [OF this] show ?thesis by (auto simp: same_queue_def)
  qed
qed

lemma balance_dequeue_keeps:
  "ba_cfg ((balance_dequeue ^^ n) bal) = ba_cfg bal \<and> ba_profile ((balance_dequeue ^^ n) bal) = ba_profile bal
   \<and> ba_low_bw ((balance_dequeue ^^ n) bal) = ba_low_bw bal \<and> ba_accum ((balance_dequeue ^^ n) bal) = ba_accum bal
   \<and> ba_action ((balance_dequeue ^^ n) bal) = ba_action bal
   \<and> ba_last_sent ((balance_dequeue ^^ n) bal) = ba_last_sent bal"
  by (induction n) (auto simp: balance_dequeue_def)

text \<open>A drain takes frames off the front, hands them on in order and stays within its budget.\<close>

lemma balance_drain_takes:
  "ring_ok bal \<Longrightarrow>
   \<exists>n \<le> ba_count bal. fst (balance_drain send budget (bal, io)) = (balance_dequeue ^^ n) bal
     \<and> io_sent (snd (balance_drain send budget (bal, io))) = io_sent io @ take n (balance_contents bal)
     \<and> io_flows (snd (balance_drain send budget (bal, io))) = io_flows io
     \<and> sum_list (map length (take n (balance_contents bal))) \<le> budget"
proof (induction send budget "(bal, io)" arbitrary: bal io rule: balance_drain.induct)
  case (1 send budget bal io)
  let ?f = "balance_front bal"
  show ?case
  proof (cases "budget > 0 \<and> ba_count bal > 0 \<and> length ?f \<le> budget \<and> send (io_attempts io) = HYBBX_OK")
    case False
    then have "fst (balance_drain send budget (bal, io)) = bal
        \<and> io_sent (snd (balance_drain send budget (bal, io))) = io_sent io
        \<and> io_flows (snd (balance_drain send budget (bal, io))) = io_flows io"
      by (subst (1 2 3) balance_drain.simps) (auto simp: balance_attempt_def Let_def)
    then show ?thesis by (intro exI [of _ 0]) simp
  next
    case True
    let ?io = "io\<lparr>io_attempts := io_attempts io + 1, io_sent := io_sent io @ [?f]\<rparr>"
    have at: "balance_attempt send ?f io = (HYBBX_OK, ?io)" using True by (simp add: balance_attempt_def)
    have "0 < ba_count bal" using True by simp
    then have ring: "ring_ok (balance_dequeue bal)" "balance_contents (balance_dequeue bal) = tl (balance_contents bal)"
      and hd: "?f = hd (balance_contents bal)"
      using 1(2) ring_ok_dequeue balance_contents_dequeue balance_front_hd by auto
    have ne: "balance_contents bal \<noteq> []"
      using \<open>0 < ba_count bal\<close> length_balance_contents [of bal] by (metis length_greater_0_conv)
    have step: "balance_drain send budget (bal, io)
        = balance_drain send (budget - length ?f) (balance_dequeue bal, ?io)"
      using True at by (subst balance_drain.simps) simp
    have "\<not> length ?f > budget" "budget > 0 \<and> ba_count bal > 0" using True by auto
    from 1(1) [OF refl this(2,1) at [symmetric] _ ring(1)] obtain n where
      n: "n \<le> ba_count (balance_dequeue bal)"
      "fst (balance_drain send (budget - length ?f) (balance_dequeue bal, ?io)) = (balance_dequeue ^^ n) (balance_dequeue bal)"
      "io_sent (snd (balance_drain send (budget - length ?f) (balance_dequeue bal, ?io)))
         = io_sent ?io @ take n (balance_contents (balance_dequeue bal))"
      "io_flows (snd (balance_drain send (budget - length ?f) (balance_dequeue bal, ?io))) = io_flows ?io"
      "sum_list (map length (take n (balance_contents (balance_dequeue bal)))) \<le> budget - length ?f"
      by auto
    have tk: "take (Suc n) (balance_contents bal) = ?f # take n (tl (balance_contents bal))"
      using ne hd by (cases "balance_contents bal") auto
    have "Suc n \<le> ba_count bal" using n(1) True by (simp add: balance_dequeue_def) linarith
    moreover have "sum_list (map length (take (Suc n) (balance_contents bal))) \<le> budget"
      using n(5) True unfolding tk ring(2) by simp linarith
    moreover have "fst (balance_drain send budget (bal, io)) = (balance_dequeue ^^ Suc n) bal"
      unfolding step n(2) by (simp add: funpow_swap1)
    ultimately show ?thesis
      using n(3,4) tk unfolding step ring(2) by (intro exI [of _ "Suc n"]) simp
  qed
qed

section \<open>Runs of the balancer\<close>

datatype balance_op =
    OpSubmit int bytes
  | OpTick int nat
  | OpProfile link_profile
  | OpSpare

definition balance_op_step ::
    "(rat \<Rightarrow> rat) \<Rightarrow> (nat \<Rightarrow> hybbx_result) \<Rightarrow> bool option \<Rightarrow> balance_op \<Rightarrow> balance \<times> balance_io
     \<Rightarrow> balance \<times> balance_io" where
  "balance_op_step rnd send flow op st =
     (case op of
        OpSubmit now frame \<Rightarrow> snd (balance_submit send flow now frame st)
      | OpTick now poll \<Rightarrow> snd (balance_tick rnd send flow now poll st)
      | OpProfile profile \<Rightarrow> (balance_set_profile profile (fst st), snd st)
      | OpSpare \<Rightarrow> (balance_spared_cancel (fst st), snd st))"

definition balance_run ::
    "(rat \<Rightarrow> rat) \<Rightarrow> (nat \<Rightarrow> hybbx_result) \<Rightarrow> bool option \<Rightarrow> balance_op list \<Rightarrow> balance \<times> balance_io
     \<Rightarrow> balance \<times> balance_io" where
  "balance_run rnd send flow ops st = fold (balance_op_step rnd send flow) ops st"

lemma balance_run_simps [simp]:
  "balance_run rnd send flow [] st = st"
  "balance_run rnd send flow (op # ops) st = balance_run rnd send flow ops (balance_op_step rnd send flow op st)"
  by (simp_all add: balance_run_def)

definition balance_io_start :: balance_io where
  "balance_io_start = \<lparr>io_attempts = 0, io_sent = [], io_flows = []\<rparr>"

text \<open>What the model relies on of rounding: it is monotone and exact on whole numbers a
  \<^verbatim>\<open>double\<close> can hold.\<close>

definition rounding_ok :: "(rat \<Rightarrow> rat) \<Rightarrow> bool" where
  "rounding_ok rnd \<longleftrightarrow> (\<forall>x y. x \<le> y \<longrightarrow> rnd x \<le> rnd y) \<and> (\<forall>n \<le> 2 ^ 53. rnd (of_nat n) = of_nat n)"

lemma rounding_id: "rounding_ok (\<lambda>x. x)"
  by (simp add: rounding_ok_def)

lemma rounding_bounds:
  assumes "rounding_ok rnd"
  shows "0 \<le> x \<Longrightarrow> 0 \<le> rnd x" and "x \<le> of_nat n \<Longrightarrow> n \<le> 2 ^ 53 \<Longrightarrow> rnd x \<le> of_nat n"
proof -
  have mono: "\<And>x y. x \<le> y \<Longrightarrow> rnd x \<le> rnd y" and ex: "\<And>n. n \<le> 2 ^ 53 \<Longrightarrow> rnd (of_nat n) = of_nat n"
    using assms by (auto simp: rounding_ok_def)
  show "0 \<le> rnd x" if "0 \<le> x" using mono [OF that] ex [of 0] by simp
  show "rnd x \<le> of_nat n" if "x \<le> of_nat n" "n \<le> 2 ^ 53" using mono [OF that(1)] ex [OF that(2)] by simp
qed

definition balance_inv :: "balance \<Rightarrow> bool" where
  "balance_inv bal \<longleftrightarrow> ring_ok bal
     \<and> (\<forall>f \<in> set (balance_contents bal). 0 < length f \<and> length f \<le> CIRCUIT_MAX_FRAME)
     \<and> ba_action bal \<in> {BAL_NONE, BAL_PAUSE, BAL_CANCEL}
     \<and> (ba_action bal = BAL_CANCEL \<longrightarrow> balance_contents bal = [])
     \<and> 0 \<le> ba_accum bal \<and> ba_accum bal \<le> 1"

lemma balance_inv_escalation:
  assumes "balance_apply_escalation flow now (bal, io) = (bal', io')" and "balance_inv bal"
  shows "balance_inv bal'"
proof -
  note e = balance_escalation_queue [OF assms(1)]
  have inv: "ring_ok bal" "ba_action bal \<in> {BAL_NONE, BAL_PAUSE, BAL_CANCEL}"
    "ba_action bal = BAL_CANCEL \<Longrightarrow> balance_contents bal = []" "0 \<le> ba_accum bal" "ba_accum bal \<le> 1"
    "\<And>f. f \<in> set (balance_contents bal) \<Longrightarrow> 0 < length f \<and> length f \<le> CIRCUIT_MAX_FRAME"
    using assms(2) by (auto simp: balance_inv_def)
  have kept: "balance_contents bal' = [] \<or> balance_contents bal' = balance_contents bal"
    and acc: "ba_accum bal' = ba_accum bal \<or> ba_accum bal' = 0"
    using e by blast+
  from kept have "\<forall>f \<in> set (balance_contents bal'). 0 < length f \<and> length f \<le> CIRCUIT_MAX_FRAME"
    by (metis empty_iff empty_set inv(6))
  moreover have "0 \<le> ba_accum bal' \<and> ba_accum bal' \<le> 1" using acc inv(4,5) by auto
  moreover have "ring_ok bal'" "ba_action bal' \<in> {BAL_NONE, BAL_PAUSE, BAL_CANCEL}"
    using e inv(1,2) by blast+
  moreover have "ba_action bal' = BAL_CANCEL \<longrightarrow> balance_contents bal' = []"
    using e kept inv(3) by auto
  ultimately show ?thesis by (simp add: balance_inv_def)
qed

lemma ring_ok_dequeues:
  "ring_ok bal \<Longrightarrow> n \<le> ba_count bal \<Longrightarrow>
   ring_ok ((balance_dequeue ^^ n) bal)
   \<and> balance_contents ((balance_dequeue ^^ n) bal) = drop n (balance_contents bal)
   \<and> ba_count ((balance_dequeue ^^ n) bal) = ba_count bal - n"
proof (induction n)
  case (Suc n)
  then have "0 < ba_count ((balance_dequeue ^^ n) bal)" by simp
  with Suc show ?case
    by (simp add: ring_ok_dequeue balance_contents_dequeue drop_Suc tl_drop)
       (simp add: balance_dequeue_def)
qed simp

lemma balance_enqueue_fields [simp]:
  "ba_cfg (balance_enqueue bal f) = ba_cfg bal" "ba_profile (balance_enqueue bal f) = ba_profile bal"
  "ba_low_bw (balance_enqueue bal f) = ba_low_bw bal" "ba_action (balance_enqueue bal f) = ba_action bal"
  "ba_accum (balance_enqueue bal f) = ba_accum bal"
  "ba_last_sent (balance_enqueue bal f) = ba_last_sent bal"
  by (simp_all add: balance_enqueue_def)

lemma balance_inv_enqueue:
  assumes "balance_inv bal" and "ba_count bal < BALANCE_QUEUE_MAX" and "0 < length f"
    and "length f \<le> CIRCUIT_MAX_FRAME" and "ba_action bal \<noteq> BAL_CANCEL"
  shows "balance_inv (balance_enqueue bal f)"
  using assms balance_contents_enqueue [of bal f] ring_ok_enqueue [of bal f]
  by (auto simp: balance_inv_def)

lemma balance_inv_oldest [simp]: "balance_inv (bal\<lparr>ba_oldest := t\<rparr>) = balance_inv bal"
  by (simp add: balance_inv_def)

lemma balance_inv_profile [simp]:
  "balance_inv (bal\<lparr>ba_profile := pr, ba_low_bw := lw\<rparr>) = balance_inv bal"
  by (simp add: balance_inv_def)

text \<open>A submission appends the frame, drops the queue or leaves it; on a low-bandwidth link it
  sends nothing itself.\<close>

lemma balance_submit_effect:
  assumes "balance_submit send flow now f (bal, io) = (rc, bal', io')" and "ring_ok bal"
  shows "ring_ok bal'" and "balance_inv bal \<Longrightarrow> balance_inv bal'"
    and "balance_contents bal' \<in> {balance_contents bal, balance_contents bal @ [f], []}"
    and "ba_cfg bal' = ba_cfg bal \<and> ba_profile bal' = ba_profile bal \<and> ba_low_bw bal' = ba_low_bw bal"
    and "bc_enabled (ba_cfg bal) \<Longrightarrow> lp_bandwidth (ba_profile bal) = BW_LOW \<Longrightarrow>
         io_sent io' = io_sent io \<and> io_attempts io' = io_attempts io"
proof -
  let ?direct = "f \<noteq> [] \<and> (\<not> bc_enabled (ba_cfg bal) \<or> lp_bandwidth (ba_profile bal) = BW_HIGH)"
  let ?full = "ba_count bal \<ge> BALANCE_QUEUE_MAX"
  define b2 where "b2 = (if ba_oldest (balance_enqueue bal f) = 0 then (balance_enqueue bal f)\<lparr>ba_oldest := now\<rparr>
      else balance_enqueue bal f)"
  consider (direct) "?direct" "bal' = bal"
    | (refused) "bal' = bal" "io' = io"
    | (full) "balance_apply_escalation flow now (bal, io) = (bal', io')"
    | (queued) "f \<noteq> []" "\<not> ?full" "length f \<le> CIRCUIT_MAX_FRAME" "ba_action bal \<noteq> BAL_CANCEL"
        "balance_apply_escalation flow now (b2, io) = (bal', io')"
    using assms(1) unfolding b2_def
    by (fastforce simp: balance_submit_def balance_attempt_def Let_def split: if_splits prod.splits)
  then have "ring_ok bal' \<and> (balance_inv bal \<longrightarrow> balance_inv bal')
    \<and> balance_contents bal' \<in> {balance_contents bal, balance_contents bal @ [f], []}
    \<and> (ba_cfg bal' = ba_cfg bal \<and> ba_profile bal' = ba_profile bal \<and> ba_low_bw bal' = ba_low_bw bal)
    \<and> (bc_enabled (ba_cfg bal) \<longrightarrow> lp_bandwidth (ba_profile bal) = BW_LOW \<longrightarrow>
         io_sent io' = io_sent io \<and> io_attempts io' = io_attempts io)"
  proof cases
    case direct
    then show ?thesis using assms(2) by auto
  next
    case refused
    then show ?thesis using assms(2) by auto
  next
    case full
    then show ?thesis
      using balance_escalation_queue [OF full] balance_inv_escalation [OF full] assms(2) by blast
  next
    case queued
    have b2: "ring_ok b2" "balance_contents b2 = balance_contents bal @ [f]"
      "ba_cfg b2 = ba_cfg bal \<and> ba_profile b2 = ba_profile bal \<and> ba_low_bw b2 = ba_low_bw bal"
      "balance_inv bal \<Longrightarrow> balance_inv b2"
      using queued assms(2) ring_ok_enqueue [of bal f] balance_contents_enqueue [of bal f]
        balance_inv_enqueue [of bal f]
      by (auto simp: b2_def)
    from queued(5) show ?thesis
      using balance_escalation_queue [OF queued(5)] balance_inv_escalation [OF queued(5)] b2
      by (metis insertCI)
  qed
  then show "ring_ok bal'" and "balance_inv bal \<Longrightarrow> balance_inv bal'"
    and "balance_contents bal' \<in> {balance_contents bal, balance_contents bal @ [f], []}"
    and "ba_cfg bal' = ba_cfg bal \<and> ba_profile bal' = ba_profile bal \<and> ba_low_bw bal' = ba_low_bw bal"
    and "bc_enabled (ba_cfg bal) \<Longrightarrow> lp_bandwidth (ba_profile bal) = BW_LOW \<Longrightarrow>
         io_sent io' = io_sent io \<and> io_attempts io' = io_attempts io"
    by blast+
qed

text \<open>The state in which a tick starts to send, and its byte budget.\<close>

definition tick_budget :: "(rat \<Rightarrow> rat) \<Rightarrow> nat \<Rightarrow> balance \<Rightarrow> nat" where
  "tick_budget rnd poll_ms bal =
     nat \<lfloor>rnd (ba_accum bal + rnd (rnd (of_nat (balance_effective_baud bal)
        * of_nat (if poll_ms = 0 then 1 else poll_ms)) / 8000))\<rfloor>"

definition tick_start :: "(rat \<Rightarrow> rat) \<Rightarrow> nat \<Rightarrow> balance \<Rightarrow> balance" where
  "tick_start rnd poll_ms bal =
     bal\<lparr>ba_accum := rnd (rnd (ba_accum bal + rnd (rnd (of_nat (balance_effective_baud bal)
        * of_nat (if poll_ms = 0 then 1 else poll_ms)) / 8000)) - of_nat (tick_budget rnd poll_ms bal))\<rparr>"

lemma balance_tick_cases:
  assumes "balance_tick rnd send flow now poll (bal, io) = (t, bal', io')"
  shows "(bal' = bal \<and> io' = io)
    \<or> (balance_apply_escalation flow now (bal, io) = (bal', io'))
    \<or> (ba_action bal \<noteq> BAL_CANCEL \<and> (\<forall>bal1 io1.
        balance_drain send (tick_budget rnd poll bal) (tick_start rnd poll bal, io) = (bal1, io1)
      \<longrightarrow> balance_apply_escalation flow now
          (if ba_count bal1 = 0 then bal1\<lparr>ba_oldest := 0\<rparr> else bal1, io1) = (bal', io')))"
  using assms
  by (simp add: balance_tick_def Let_def tick_budget_def [symmetric] tick_start_def [symmetric]
      split: if_split_asm prod.split_asm) (auto split: if_splits)

lemma tick_start_fields [simp]:
  "ring_ok (tick_start rnd poll bal) = ring_ok bal"
  "balance_contents (tick_start rnd poll bal) = balance_contents bal"
  "ba_count (tick_start rnd poll bal) = ba_count bal"
  "ba_cfg (tick_start rnd poll bal) = ba_cfg bal" "ba_profile (tick_start rnd poll bal) = ba_profile bal"
  "ba_low_bw (tick_start rnd poll bal) = ba_low_bw bal"
  "ba_action (tick_start rnd poll bal) = ba_action bal"
  by (simp_all add: tick_start_def)

lemma tick_start_accum:
  assumes "rounding_ok rnd" and "0 \<le> ba_accum bal"
  shows "0 \<le> ba_accum (tick_start rnd poll bal) \<and> ba_accum (tick_start rnd poll bal) \<le> 1"
proof -
  let ?b = "rnd (rnd (of_nat (balance_effective_baud bal) * of_nat (if poll = 0 then 1 else poll)) / 8000)"
  let ?x = "rnd (ba_accum bal + ?b)"
  note r = rounding_bounds [OF assms(1)]
  have "0 \<le> ?b" by (intro r(1) divide_nonneg_nonneg mult_nonneg_nonneg) simp_all
  then have "0 \<le> ?x" using assms(2) by (intro r(1)) simp
  then have "of_nat (nat \<lfloor>?x\<rfloor>) = (of_int \<lfloor>?x\<rfloor> :: rat)" by (simp add: of_nat_nat)
  then have "0 \<le> ?x - of_nat (nat \<lfloor>?x\<rfloor>)" and "?x - of_nat (nat \<lfloor>?x\<rfloor>) \<le> of_nat 1"
    by linarith+
  from r(1) [OF this(1)] r(2) [OF this(2)] show ?thesis
    by (simp add: tick_start_def tick_budget_def)
qed

text \<open>A tick sends a prefix of the queue, which it keeps the rest of or drops.\<close>

lemma balance_tick_effect:
  assumes "balance_tick rnd send flow now poll (bal, io) = (t, bal', io')" and "ring_ok bal"
  shows "ring_ok bal'" and "rounding_ok rnd \<Longrightarrow> balance_inv bal \<Longrightarrow> balance_inv bal'"
    and "\<exists>n \<le> ba_count bal. io_sent io' = io_sent io @ take n (balance_contents bal)
       \<and> balance_contents bal' \<in> {drop n (balance_contents bal), []}
       \<and> sum_list (map length (take n (balance_contents bal))) \<le> tick_budget rnd poll bal"
    and "ba_cfg bal' = ba_cfg bal \<and> ba_profile bal' = ba_profile bal \<and> ba_low_bw bal' = ba_low_bw bal"
proof -
  let ?s = "tick_start rnd poll bal" and ?k = "tick_budget rnd poll bal"
  let ?goal = "ring_ok bal' \<and> (rounding_ok rnd \<longrightarrow> balance_inv bal \<longrightarrow> balance_inv bal')
    \<and> (\<exists>n \<le> ba_count bal. io_sent io' = io_sent io @ take n (balance_contents bal)
       \<and> balance_contents bal' \<in> {drop n (balance_contents bal), []}
       \<and> sum_list (map length (take n (balance_contents bal))) \<le> ?k)
    \<and> (ba_cfg bal' = ba_cfg bal \<and> ba_profile bal' = ba_profile bal \<and> ba_low_bw bal' = ba_low_bw bal)"
  obtain bal1 io1 where dr: "balance_drain send ?k (?s, io) = (bal1, io1)" by fastforce
  define b2 where "b2 = (if ba_count bal1 = 0 then bal1\<lparr>ba_oldest := 0\<rparr> else bal1)"
  from balance_tick_cases [OF assms(1)] dr
  consider (same) "bal' = bal" "io' = io"
    | (esc) "balance_apply_escalation flow now (bal, io) = (bal', io')"
    | (drain) "ba_action bal \<noteq> BAL_CANCEL" "balance_apply_escalation flow now (b2, io1) = (bal', io')"
    unfolding b2_def by blast
  then have ?goal
  proof cases
    case same
    then show ?thesis using assms(2) by (auto intro!: exI [of _ 0])
  next
    case esc
    note e = balance_escalation_queue [OF esc]
    have "balance_contents bal' \<in> {drop 0 (balance_contents bal), []}" using e by auto
    moreover have "io_sent io' = io_sent io @ take 0 (balance_contents bal)" using e by simp
    moreover have "sum_list (map length (take 0 (balance_contents bal))) \<le> ?k" by simp
    ultimately show ?thesis using e balance_inv_escalation [OF esc] assms(2) by blast
  next
    case drain
    have "ring_ok ?s" using assms(2) by simp
    from balance_drain_takes [OF this, of send ?k io] obtain n where
      n: "n \<le> ba_count bal" "bal1 = (balance_dequeue ^^ n) ?s"
      "io_sent io1 = io_sent io @ take n (balance_contents bal)"
      "sum_list (map length (take n (balance_contents bal))) \<le> ?k"
      by (auto simp: dr)
    note dq = ring_ok_dequeues [OF \<open>ring_ok ?s\<close>, of n] and keep = balance_dequeue_keeps [of n ?s]
    have b2: "ring_ok b2" "balance_contents b2 = drop n (balance_contents bal)"
      "ba_cfg b2 = ba_cfg bal \<and> ba_profile b2 = ba_profile bal \<and> ba_low_bw b2 = ba_low_bw bal"
      "ba_action b2 = ba_action bal" "ba_accum b2 = ba_accum ?s"
      using dq keep n(1,2) by (auto simp: b2_def)
    have inv: "balance_inv b2" if "rounding_ok rnd" "balance_inv bal"
      using that(2) b2 tick_start_accum [OF that(1), of bal poll] drain(1)
      by (auto simp: balance_inv_def dest: in_set_dropD)
    note e = balance_escalation_queue [OF drain(2)]
    have "balance_contents bal' \<in> {drop n (balance_contents bal), []}" using e b2(2) by auto
    moreover have "io_sent io' = io_sent io @ take n (balance_contents bal)" using e n(3) by simp
    ultimately show ?thesis
      using e balance_inv_escalation [OF drain(2)] inv b2(1,3) n(1,4) by metis
  qed
  then show "ring_ok bal'" and "rounding_ok rnd \<Longrightarrow> balance_inv bal \<Longrightarrow> balance_inv bal'"
    and "\<exists>n \<le> ba_count bal. io_sent io' = io_sent io @ take n (balance_contents bal)
       \<and> balance_contents bal' \<in> {drop n (balance_contents bal), []}
       \<and> sum_list (map length (take n (balance_contents bal))) \<le> tick_budget rnd poll bal"
    and "ba_cfg bal' = ba_cfg bal \<and> ba_profile bal' = ba_profile bal \<and> ba_low_bw bal' = ba_low_bw bal"
    by blast+
qed

section \<open>Runs: the invariant, order and loss\<close>

lemma balance_spared_cancel_inv [simp]:
  "balance_inv bal \<Longrightarrow> balance_inv (balance_spared_cancel bal)"
  "balance_contents (balance_spared_cancel bal) = balance_contents bal"
  "ring_ok (balance_spared_cancel bal) = ring_ok bal"
  "ba_cfg (balance_spared_cancel bal) = ba_cfg bal"
  "ba_profile (balance_spared_cancel bal) = ba_profile bal"
  by (auto simp: balance_spared_cancel_def balance_inv_def)

lemma balance_set_profile_simps [simp]:
  "balance_inv (balance_set_profile pr bal) = balance_inv bal"
  "balance_contents (balance_set_profile pr bal) = balance_contents bal"
  "ring_ok (balance_set_profile pr bal) = ring_ok bal"
  "ba_cfg (balance_set_profile pr bal) = ba_cfg bal"
  "ba_profile (balance_set_profile pr bal) = pr"
  by (simp_all add: balance_set_profile_def)

lemma balance_inv_step:
  assumes "rounding_ok rnd" and "balance_inv (fst st)"
  shows "balance_inv (fst (balance_op_step rnd send flow op st))"
proof -
  obtain bal io where st: "st = (bal, io)" by fastforce
  have inv: "balance_inv bal" "ring_ok bal" using assms(2) by (auto simp: st balance_inv_def)
  show ?thesis
  proof (cases op)
    case (OpSubmit now f)
    obtain rc b i where s: "balance_submit send flow now f (bal, io) = (rc, b, i)"
      by (metis prod_cases3)
    show ?thesis
      using balance_submit_effect(2) [OF s inv(2)] inv(1)
      by (simp add: balance_op_step_def OpSubmit st s)
  next
    case (OpTick now poll)
    obtain rc b i where s: "balance_tick rnd send flow now poll (bal, io) = (rc, b, i)"
      by (metis prod_cases3)
    show ?thesis
      using balance_tick_effect(2) [OF s inv(2) assms(1)] inv(1)
      by (simp add: balance_op_step_def OpTick st s)
  qed (use inv in \<open>simp_all add: balance_op_step_def st\<close>)
qed

lemma balance_inv_run:
  "rounding_ok rnd \<Longrightarrow> balance_inv (fst st) \<Longrightarrow> balance_inv (fst (balance_run rnd send flow ops st))"
  by (induction ops arbitrary: st) (simp_all add: balance_inv_step)

lemma balance_inv_create: "balance_create ok cfg = Some bal \<Longrightarrow> balance_inv bal"
  by (auto simp: balance_create_def balance_inv_def ring_ok_def balance_contents_def
      BALANCE_QUEUE_MAX_def split: if_splits)

text \<open>
  C4. Whatever is submitted, ticked, re-profiled or spared, in any order and at any clock readings,
  a balancer keeps its invariant: at most 64 frames, each of 1 to 4108 bytes, the byte counter equal
  to what is queued, an action of none, pause or cancel only, an empty queue once cancelled and a
  carried budget between 0 and 1.
\<close>

theorem balance_invariant:
  assumes "balance_create allocated cfg = Some bal" and "rounding_ok rnd"
  shows "balance_inv (fst (balance_run rnd send flow ops (bal, io)))"
  by (rule balance_inv_run [OF assms(2)]) (simp add: balance_inv_create [OF assms(1)])

theorem balance_invariant_witness:
  "\<exists>bal. balance_create True None = Some bal \<and> rounding_ok (\<lambda>x. x)
     \<and> balance_inv (fst (balance_run (\<lambda>x. x) (\<lambda>_. HYBBX_OK) None [OpSubmit 1 [7], OpTick 2 50] (bal, balance_io_start)))"
proof -
  obtain bal where b: "balance_create True None = Some bal" by (simp add: balance_create_def)
  from balance_invariant [OF b rounding_id] b rounding_id show ?thesis by blast
qed

definition op_frames :: "balance_op \<Rightarrow> bytes list" where
  "op_frames op = (case op of OpSubmit now f \<Rightarrow> [f] | _ \<Rightarrow> [])"

definition op_low :: "balance_op \<Rightarrow> bool" where
  "op_low op = (case op of OpProfile p \<Rightarrow> lp_bandwidth p = BW_LOW | _ \<Rightarrow> True)"

lemma balance_low_step:
  assumes "ring_ok (fst st)" and "bc_enabled (ba_cfg (fst st))"
    and "lp_bandwidth (ba_profile (fst st)) = BW_LOW" and "op_low op"
    and "st' = balance_op_step rnd send flow op st"
  shows "ring_ok (fst st') \<and> bc_enabled (ba_cfg (fst st')) \<and> lp_bandwidth (ba_profile (fst st')) = BW_LOW"
    and "subseq (io_sent (snd st') @ balance_contents (fst st'))
           (io_sent (snd st) @ balance_contents (fst st) @ op_frames op)"
proof -
  obtain bal io where st: "st = (bal, io)" by fastforce
  have ring: "ring_ok bal" using assms(1) by (simp add: st)
  have "(ring_ok (fst st') \<and> bc_enabled (ba_cfg (fst st')) \<and> lp_bandwidth (ba_profile (fst st')) = BW_LOW)
    \<and> subseq (io_sent (snd st') @ balance_contents (fst st'))
           (io_sent (snd st) @ balance_contents (fst st) @ op_frames op)"
  proof (cases op)
    case (OpSubmit now f)
    obtain rc b i where s: "balance_submit send flow now f (bal, io) = (rc, b, i)" by (metis prod_cases3)
    note e = balance_submit_effect [OF s ring]
    have "subseq (balance_contents b) (balance_contents bal @ [f])" using e(3) by auto
    then have "subseq (io_sent io @ balance_contents b) (io_sent io @ balance_contents bal @ [f])"
      by (rule list_emb_append_mono [OF subseq_order.refl])
    then show ?thesis
      using e(1,4,5) assms(2,3,5) by (simp add: balance_op_step_def OpSubmit st s op_frames_def)
  next
    case (OpTick now poll)
    obtain rc b i where s: "balance_tick rnd send flow now poll (bal, io) = (rc, b, i)" by (metis prod_cases3)
    note e = balance_tick_effect [OF s ring]
    from e(3) obtain n where n: "io_sent i = io_sent io @ take n (balance_contents bal)"
      "balance_contents b \<in> {drop n (balance_contents bal), []}" by blast
    have "subseq (balance_contents b) (drop n (balance_contents bal))" using n(2) by auto
    then have "subseq (take n (balance_contents bal) @ balance_contents b)
        (take n (balance_contents bal) @ drop n (balance_contents bal))"
      by (rule list_emb_append_mono [OF subseq_order.refl])
    then have "subseq (io_sent io @ take n (balance_contents bal) @ balance_contents b)
        (io_sent io @ balance_contents bal)"
      unfolding append_take_drop_id by (rule list_emb_append_mono [OF subseq_order.refl])
    then show ?thesis
      using e(1,4) assms(2,3,5) n(1) by (simp add: balance_op_step_def OpTick st s op_frames_def)
  qed (use assms ring in \<open>simp_all add: balance_op_step_def st op_frames_def op_low_def\<close>)
  then show "ring_ok (fst st') \<and> bc_enabled (ba_cfg (fst st')) \<and> lp_bandwidth (ba_profile (fst st')) = BW_LOW"
    and "subseq (io_sent (snd st') @ balance_contents (fst st'))
           (io_sent (snd st) @ balance_contents (fst st) @ op_frames op)" by auto
qed

lemma balance_low_run:
  "ring_ok (fst st) \<Longrightarrow> bc_enabled (ba_cfg (fst st)) \<Longrightarrow> lp_bandwidth (ba_profile (fst st)) = BW_LOW \<Longrightarrow>
   \<forall>op \<in> set ops. op_low op \<Longrightarrow> st' = balance_run rnd send flow ops st \<Longrightarrow>
   subseq (io_sent (snd st') @ balance_contents (fst st'))
     (io_sent (snd st) @ balance_contents (fst st) @ concat (map op_frames ops))"
proof (induction ops arbitrary: st)
  case (Cons op ops)
  let ?s = "balance_op_step rnd send flow op st"
  note one = balance_low_step [OF Cons.prems(1-3), of op ?s rnd send flow]
  have "subseq (io_sent (snd st') @ balance_contents (fst st'))
      (io_sent (snd ?s) @ balance_contents (fst ?s) @ concat (map op_frames ops))"
    using Cons.IH [of ?s] Cons.prems one by simp
  also have "subseq \<dots> ((io_sent (snd st) @ balance_contents (fst st) @ op_frames op) @ concat (map op_frames ops))"
    using list_emb_append_mono [OF one(2) subseq_order.refl, of "concat (map op_frames ops)"] Cons.prems
    by simp
  finally show ?case by simp
qed simp

text \<open>
  C38. On a low-bandwidth link frames leave in the order they were submitted, each at most once: over
  any run of submissions, ticks, low-bandwidth profiles and spared cancels, what the link took
  followed by what is still queued is a subsequence of what was there before followed by the frames
  submitted.  What is missing was refused or dropped by an escalation, never reordered.
\<close>

theorem balance_fifo:
  assumes "balance_inv bal" and "bc_enabled (ba_cfg bal)" and "lp_bandwidth (ba_profile bal) = BW_LOW"
    and "\<forall>op \<in> set ops. op_low op" and "balance_run rnd send flow ops (bal, io) = (bal', io')"
  shows "subseq (io_sent io' @ balance_contents bal')
           (io_sent io @ balance_contents bal @ concat (map op_frames ops))"
  using balance_low_run [of "(bal, io)" ops "(bal', io')" rnd send flow] assms
  by (simp add: balance_inv_def)

definition low_profile :: "nat \<Rightarrow> link_profile" where
  "low_profile baud = \<lparr>lp_bandwidth = BW_LOW, lp_duplex = DUPLEX_HALF, lp_baud = baud, lp_frequency_mhz = 0\<rparr>"

definition low_balance :: "nat \<Rightarrow> balance" where
  "low_balance baud = balance_set_profile (low_profile baud) (the (balance_create True None))"

lemma low_balance_ok:
  "balance_inv (low_balance baud)" "bc_enabled (ba_cfg (low_balance baud))"
  "lp_bandwidth (ba_profile (low_balance baud)) = BW_LOW" "lp_baud (ba_profile (low_balance baud)) = baud"
  "balance_contents (low_balance baud) = []"
proof -
  obtain bal where b: "balance_create True None = Some bal" by (simp add: balance_create_def)
  then have "bc_enabled (ba_cfg bal)" and "ba_count bal = 0"
    by (auto simp: balance_create_def balance_config_defaults_def)
  then show "balance_inv (low_balance baud)" "bc_enabled (ba_cfg (low_balance baud))"
    "lp_bandwidth (ba_profile (low_balance baud)) = BW_LOW" "lp_baud (ba_profile (low_balance baud)) = baud"
    "balance_contents (low_balance baud) = []"
    using balance_inv_create [OF b]
    by (simp_all add: low_balance_def b low_profile_def) (simp add: balance_contents_def)
qed

theorem balance_fifo_witness:
  "\<exists>bal' io'. balance_run (\<lambda>x. x) (\<lambda>_. HYBBX_OK) None
       [OpSubmit 1 [7], OpSubmit 1 [8], OpTick 2 50] (low_balance 9600, balance_io_start) = (bal', io')
     \<and> subseq (io_sent io' @ balance_contents bal') [[7], [8]]"
proof -
  obtain bal' io' where r: "balance_run (\<lambda>x. x) (\<lambda>_. HYBBX_OK) None
      [OpSubmit 1 [7], OpSubmit 1 [8], OpTick 2 50] (low_balance 9600, balance_io_start) = (bal', io')"
    by fastforce
  from balance_fifo [OF low_balance_ok(1-3) _ r] r show ?thesis
    by (auto simp: op_low_def op_frames_def balance_io_start_def low_balance_ok)
qed

section \<open>Frames that never leave\<close>

lemma tick_budget_bound:
  assumes "rounding_ok rnd" and "ba_accum bal \<le> 1" and "K \<le> 2 ^ 39"
    and "balance_effective_baud bal * (if poll = 0 then 1 else poll) \<le> 8000 * K"
  shows "tick_budget rnd poll bal \<le> K + 1"
proof -
  let ?p = "if poll = 0 then 1 else poll" and ?e = "balance_effective_baud bal"
  note r = rounding_bounds(2) [OF assms(1)]
  have "(of_nat ?e * of_nat ?p :: rat) \<le> of_nat (8000 * K)"
    unfolding of_nat_mult [symmetric] by (subst of_nat_le_iff) (rule assms(4))
  then have "rnd (of_nat ?e * of_nat ?p) \<le> of_nat (8000 * K)" using assms(3) by (intro r) simp_all
  then have "rnd (of_nat ?e * of_nat ?p) / 8000 \<le> of_nat K" by simp
  then have "rnd (rnd (of_nat ?e * of_nat ?p) / 8000) \<le> of_nat K" using assms(3) by (intro r) simp_all
  then have "ba_accum bal + rnd (rnd (of_nat ?e * of_nat ?p) / 8000) \<le> of_nat (K + 1)"
    using assms(2) by simp
  then have "rnd (ba_accum bal + rnd (rnd (of_nat ?e * of_nat ?p) / 8000)) \<le> of_nat (K + 1)"
    using assms(3) by (intro r) simp_all
  then have "\<lfloor>rnd (ba_accum bal + rnd (rnd (of_nat ?e * of_nat ?p) / 8000))\<rfloor> \<le> int (K + 1)"
    by (simp add: floor_le_iff)
  then show ?thesis by (simp add: tick_budget_def)
qed

text \<open>Ticks too short, or a line too slow, for the frames at hand: \<open>K\<close> bytes per tick.\<close>

definition op_starves :: "nat \<Rightarrow> nat \<Rightarrow> balance_op \<Rightarrow> bool" where
  "op_starves baud K op =
     (case op of OpSubmit now f \<Rightarrow> K + 1 < length f
      | OpTick now poll \<Rightarrow> baud * (if poll = 0 then 1 else poll) \<le> 8000 * K
      | OpProfile p \<Rightarrow> False | OpSpare \<Rightarrow> True)"

definition starving :: "nat \<Rightarrow> nat \<Rightarrow> balance \<Rightarrow> bool" where
  "starving baud K bal \<longleftrightarrow> balance_inv bal \<and> bc_enabled (ba_cfg bal)
     \<and> lp_bandwidth (ba_profile bal) = BW_LOW \<and> lp_baud (ba_profile bal) = baud
     \<and> (\<forall>f \<in> set (balance_contents bal). K + 1 < length f)"

lemma starving_step:
  assumes "rounding_ok rnd" and "0 < baud" and "K \<le> 2 ^ 39" and "starving baud K (fst st)"
    and "op_starves baud K op" and "st' = balance_op_step rnd send flow op st"
  shows "starving baud K (fst st') \<and> io_sent (snd st') = io_sent (snd st)"
proof -
  obtain bal io where st: "st = (bal, io)" by fastforce
  have sv: "starving baud K bal" using assms(4) by (simp add: st)
  then have ring: "ring_ok bal" and low: "bc_enabled (ba_cfg bal)" "lp_bandwidth (ba_profile bal) = BW_LOW"
    and eff: "balance_effective_baud bal = baud" and acc: "ba_accum bal \<le> 1"
    and long: "\<And>f. f \<in> set (balance_contents bal) \<Longrightarrow> K + 1 < length f"
    using assms(2) by (auto simp: starving_def balance_inv_def balance_effective_baud_def)
  have inv: "balance_inv (fst st')"
    using balance_inv_step [OF assms(1), of st] sv by (simp add: assms(6) st starving_def)
  show ?thesis
  proof (cases op)
    case (OpSubmit now f)
    obtain rc b i where s: "balance_submit send flow now f (bal, io) = (rc, b, i)" by (metis prod_cases3)
    note e = balance_submit_effect [OF s ring]
    have st': "st' = (b, i)" by (simp add: assms(6) balance_op_step_def OpSubmit st s)
    have "\<forall>g \<in> set (balance_contents b). K + 1 < length g"
      using e(3) long assms(5) by (auto simp: op_starves_def OpSubmit)
    then show ?thesis using e(4,5) low sv inv by (simp add: st' st starving_def)
  next
    case (OpTick now poll)
    obtain rc b i where s: "balance_tick rnd send flow now poll (bal, io) = (rc, b, i)" by (metis prod_cases3)
    note e = balance_tick_effect [OF s ring]
    have st': "st' = (b, i)" by (simp add: assms(6) balance_op_step_def OpTick st s)
    from e(3) obtain n where n: "n \<le> ba_count bal" "io_sent i = io_sent io @ take n (balance_contents bal)"
      "balance_contents b \<in> {drop n (balance_contents bal), []}"
      "sum_list (map length (take n (balance_contents bal))) \<le> tick_budget rnd poll bal" by blast
    have "tick_budget rnd poll bal \<le> K + 1"
      using assms(5) by (intro tick_budget_bound [OF assms(1) acc assms(3)]) (simp add: op_starves_def OpTick eff)
    have none: "take n (balance_contents bal) = []"
    proof (rule ccontr)
      assume "take n (balance_contents bal) \<noteq> []"
      then obtain f fs where f: "take n (balance_contents bal) = f # fs" by (cases "take n (balance_contents bal)") auto
      then have "f \<in> set (balance_contents bal)" by (metis in_set_takeD list.set_intros(1))
      with long have "K + 1 < length f" by blast
      with n(4) f \<open>tick_budget rnd poll bal \<le> K + 1\<close> show False by simp
    qed
    have "set (balance_contents b) \<subseteq> set (balance_contents bal)"
      using n(3) by (auto dest: in_set_dropD)
    then have "\<forall>g \<in> set (balance_contents b). K + 1 < length g" using long by blast
    then show ?thesis using e(4) n(2) none sv inv by (simp add: st' st starving_def)
  qed (use sv assms(5) inv in \<open>auto simp: balance_op_step_def st op_starves_def starving_def assms(6)\<close>)
qed

text \<open>
  The byte budget of a tick is spent or lost, and only its fraction is carried: on a
  low-bandwidth link where a tick is worth at most \<open>K\<close> bytes, frames longer than \<open>K + 1\<close> are never
  sent, whatever the number of ticks and whether or not the link would take them; they stay queued
  until an escalation drops them.  At 9600 baud and the hub's 50 ms poll \<open>K\<close> is 60, the
  header of a circuit frame included.
\<close>

theorem balance_starvation:
  assumes "rounding_ok rnd" and "0 < baud" and "K \<le> 2 ^ 39" and "starving baud K bal"
    and "\<forall>op \<in> set ops. op_starves baud K op"
  shows "io_sent (snd (balance_run rnd send flow ops (bal, io))) = io_sent io"
  using assms(4,5)
proof (induction ops arbitrary: bal io)
  case (Cons op ops)
  obtain b i where s: "balance_op_step rnd send flow op (bal, io) = (b, i)" by fastforce
  have "starving baud K b \<and> io_sent i = io_sent io"
    using starving_step [OF assms(1-3), of "(bal, io)" op "(b, i)" send flow] Cons.prems s by simp
  then show ?case using Cons.IH [of b i] Cons.prems by (simp add: s)
qed simp

theorem balance_starvation_witness:
  "io_sent (snd (balance_run (\<lambda>x. x) (\<lambda>_. HYBBX_OK) None
     (OpSubmit 1 (replicate 62 7) # replicate 100 (OpTick 1 50)) (low_balance 9600, balance_io_start))) = []"
proof -
  have "starving 9600 60 (low_balance 9600)" by (simp add: starving_def low_balance_ok)
  moreover have "\<forall>op \<in> set (OpSubmit 1 (replicate 62 7) # replicate 100 (OpTick 1 50)). op_starves 9600 60 op"
    by (simp add: op_starves_def)
  ultimately show ?thesis
    using balance_starvation [OF rounding_id, of 9600 60 "low_balance 9600"
        "OpSubmit 1 (replicate 62 7) # replicate 100 (OpTick 1 50)" "\<lambda>_. HYBBX_OK" None balance_io_start]
    by (simp only: balance_io_start_def) simp
qed

section \<open>Flow messages\<close>

lemma flow_name_ieq:
  "str_ieq_local (balance_action_name a) (balance_action_name b) \<longleftrightarrow> a = b"
  by (cases a; cases b) (simp_all add: str_ieq_local_def str_ieq_iff c_tolower_def c_isupper_def)

lemmas flow_names = flow_name_ieq [of _ BAL_PAUSE, unfolded balance_action_name.simps(1)]
  flow_name_ieq [of _ BAL_BREAK, unfolded balance_action_name.simps(2)]
  flow_name_ieq [of _ BAL_CANCEL, unfolded balance_action_name.simps(3)]
  flow_name_ieq [of _ BAL_RESUME, unfolded balance_action_name.simps(4)]

text \<open>
  A flow message reads back: the payload formatted for pause, break, cancel or resume with a
  reason that fits one line parses to the same action and reason; the one for no action is refused.
\<close>

theorem flow_ctrl_roundtrip:
  assumes "line_value 128 reason" and "reason \<noteq> []" and "flow_ctrl_format action (Some reason) cap \<noteq> []"
    and "length reason < reason_cap"
  shows "flow_ctrl_parse (flow_ctrl_format action (Some reason) cap) reason_cap
       = (if action = BAL_NONE then Inl HYBBX_ERR_INVALID else Inr (action, reason))"
proof -
  let ?n = "balance_action_name action"
  have fmt: "flow_ctrl_format action (Some reason) cap = kv_line ''action'' ?n @ kv_line ''reason'' reason @ []"
    using assms(2,3) by (auto simp: flow_ctrl_format_def Let_def split: if_splits)
  have nl: "CHR 0x0A \<notin> set ?n" by (cases action) auto
  have nlr: "CHR 0x0A \<notin> set reason" using assms(1) by (simp add: line_value_def)
  have "line_value 128 ?n" by (cases action) (auto simp: line_value_def)
  then have a: "balance_find_kv_line (flow_ctrl_format action (Some reason) cap) ''action'' 128 = Some ?n"
    using find_kv_line_cons [of "''action''" ?n] nl kv_value_id [of 128 ?n]
    by (simp add: fmt balance_find_kv_line_def link_consts)
  have r: "balance_find_kv_line (flow_ctrl_format action (Some reason) cap) ''reason'' 128 = Some reason"
    using find_kv_line_cons [of "''action''" ?n] find_kv_line_cons [of "''reason''" reason "[]"]
      nl nlr kv_value_id [OF assms(1)]
    by (simp add: fmt balance_find_kv_line_def link_consts)
  have c: "snd (hybbx_strlcpy [] (Some reason) reason_cap) = reason"
    using assms(4) by (simp add: hybbx_strlcpy_def)
  have cap: "reason_cap > 0" using assms(4) by simp
  show ?thesis
    unfolding flow_ctrl_parse_def a r c
    using cap by (cases action) (simp_all add: flow_names c Let_def del: balance_action_name.simps)
qed

theorem flow_ctrl_roundtrip_witness:
  "flow_ctrl_parse (flow_ctrl_format BAL_PAUSE (Some ''stabilize'') 128) 64 = Inr (BAL_PAUSE, ''stabilize'')"
  using flow_ctrl_roundtrip [of "''stabilize''" BAL_PAUSE 128 64]
  by (simp add: line_value_def flow_ctrl_format_def kv_line_def Let_def)

text \<open>
  The hub never sends a flow message: the flow callback wraps the payload with the encoder of
  link announcements, which encodes no other protocol, so for every action and reason the frame has
  length 0 and the peer is never told to pause, resume or stop.
\<close>

theorem flow_ctrl_never_sent:
  "fst (flow_ctrl_frame action reason frame) = 0"
  by (simp add: flow_ctrl_frame_def circuit_encode_link_msg_def Let_def PROTO_FLOW_CTRL_def
      PROTO_LINK_AUTH_def PROTO_LINK_AUTH_ACK_def)

text \<open>
  Frames overtake the queue when the bandwidth changes: after the profile of a link with queued
  frames is set to high bandwidth, a submitted frame that the link takes is sent at once, in front
  of everything queued before it, which stays queued.
\<close>

theorem balance_high_overtakes:
  assumes "lp_bandwidth profile = BW_HIGH" and "f \<noteq> []" and "send (io_attempts io) = HYBBX_OK"
  shows "\<exists>bal' io'. balance_submit send flow now f (balance_set_profile profile bal, io) = (HYBBX_OK, bal', io')
     \<and> io_sent io' = io_sent io @ [f] \<and> balance_contents bal' = balance_contents bal"
  using assms by (simp add: balance_submit_def balance_attempt_def Let_def)

theorem balance_high_overtakes_witness:
  "\<exists>bal' io'. balance_submit (\<lambda>_. HYBBX_OK) None 1 [7] (balance_set_profile ((low_profile 9600)\<lparr>lp_bandwidth := BW_HIGH\<rparr>)
       (balance_enqueue (low_balance 9600) [8]), balance_io_start) = (HYBBX_OK, bal', io')
     \<and> io_sent io' = [[7]] \<and> balance_contents bal' = balance_contents (balance_enqueue (low_balance 9600) [8])"
  using balance_high_overtakes [of "(low_profile 9600)\<lparr>lp_bandwidth := BW_HIGH\<rparr>" "[7]" "\<lambda>_. HYBBX_OK"
      balance_io_start None 1 "balance_enqueue (low_balance 9600) [8]"]
  by (simp add: low_profile_def balance_io_start_def)

end
