(* ===== verification/Bandwidth_Policy.thy ===== *)
theory Bandwidth_Policy imports Circuit_Balance "HOL-Library.Product_Lexorder" "HOL-Library.Multiset" begin

text \<open>
  Who is sacrificed when a circuit is overloaded: \<^verbatim>\<open>src/core/bandwidth_policy.c\<close>, with
  the session flags it reads and writes (\<^verbatim>\<open>src/core/session.c\<close>) and the link it spares
  (\<^verbatim>\<open>circuit_bandwidth_spare_link\<close> in \<^verbatim>\<open>src/core/circuit_tcp.c\<close>).  A session is
  its index in the service's list; the notice written to a disconnected user is not modelled here.
\<close>

section \<open>Sessions\<close>

datatype transport_kind =
    TRANSPORT_TELNET | TRANSPORT_PACKET_RADIO | TRANSPORT_CIRCUIT | TRANSPORT_ARDOP
  | TRANSPORT_CRDOP | TRANSPORT_SSH | TRANSPORT_WEBSOCKET | TRANSPORT_BAYCOM | TRANSPORT_MAINS_PROXY

record bw_session =
  bs_id :: nat
  bs_transport :: "transport_kind option"
  bs_logged_in :: bool
  bs_connected_at :: int
  bs_paused :: bool
  bs_disconnect :: bool

definition session_set_bandwidth_paused :: "nat \<Rightarrow> bool \<Rightarrow> bw_session list \<Rightarrow> bw_session list" where
  "session_set_bandwidth_paused i paused ss = ss[i := (ss ! i)\<lparr>bs_paused := paused\<rparr>]"

definition session_disconnect_bandwidth :: "nat \<Rightarrow> bw_session list \<Rightarrow> bw_session list" where
  "session_disconnect_bandwidth i ss =
     (if \<not> bs_logged_in (ss ! i) then ss
      else ss[i := (ss ! i)\<lparr>bs_paused := False, bs_disconnect := True\<rparr>])"

section \<open>Collecting and sorting the users\<close>

definition BW_USER_MAX :: nat where "BW_USER_MAX = 128"

definition BW_PRIORITY_AX25_USER :: int where "BW_PRIORITY_AX25_USER = 0"
definition BW_PRIORITY_TCP_USER :: int where "BW_PRIORITY_TCP_USER = 1"

record bw_entry =
  be_session :: nat
  be_connected_at :: int
  be_priority :: int
  be_id :: nat

definition session_sacrifice_priority :: "bw_session \<Rightarrow> int" where
  "session_sacrifice_priority s =
     (case bs_transport s of None \<Rightarrow> - 1
      | Some k \<Rightarrow> (case k of TRANSPORT_PACKET_RADIO \<Rightarrow> BW_PRIORITY_AX25_USER
                       | TRANSPORT_TELNET \<Rightarrow> BW_PRIORITY_TCP_USER
                       | _ \<Rightarrow> - 1))"

text \<open>The id is read from the session where the sort compares it; here the entry carries it.\<close>

definition bw_collect_visitor :: "bw_session list \<Rightarrow> nat \<Rightarrow> bw_entry list \<Rightarrow> bw_entry list" where
  "bw_collect_visitor ss i entries =
     (let s = ss ! i; priority = session_sacrifice_priority s
      in if priority < 0 \<or> \<not> bs_logged_in s then entries
         else if length entries \<ge> BW_USER_MAX then entries
         else entries @ [\<lparr>be_session = i, be_connected_at = bs_connected_at s, be_priority = priority,
                          be_id = bs_id s\<rparr>])"

text \<open>The visit sees nothing when its snapshot cannot be allocated.\<close>

definition bw_collect :: "bool \<Rightarrow> bw_session list \<Rightarrow> bw_entry list" where
  "bw_collect snapshot ss = (if snapshot then fold (bw_collect_visitor ss) [0..<length ss] [] else [])"

definition bw_swap_needed :: "bw_entry \<Rightarrow> bw_entry \<Rightarrow> bool" where
  "bw_swap_needed ej ei \<longleftrightarrow>
     (if be_priority ej < be_priority ei then True
      else if be_priority ej = be_priority ei then
        (if be_connected_at ej > be_connected_at ei then True
         else be_connected_at ej = be_connected_at ei \<and> be_id ej > be_id ei)
      else False)"

definition bw_exchange :: "nat \<Rightarrow> nat \<Rightarrow> bw_entry list \<Rightarrow> bw_entry list" where
  "bw_exchange i j es = (if bw_swap_needed (es ! j) (es ! i) then es[i := es ! j, j := es ! i] else es)"

definition bw_sort_victims_first :: "bw_entry list \<Rightarrow> bw_entry list" where
  "bw_sort_victims_first entries =
     fold (\<lambda>i es. fold (bw_exchange i) [i + 1..<length es] es) [0..<length entries - 1] entries"

definition bw_first_unpaused :: "bw_session list \<Rightarrow> bw_entry list \<Rightarrow> nat option" where
  "bw_first_unpaused ss es = map_option be_session (find (\<lambda>e. \<not> bs_paused (ss ! be_session e)) es)"

definition bw_first_paused :: "bw_session list \<Rightarrow> bw_entry list \<Rightarrow> nat option" where
  "bw_first_paused ss es = map_option be_session (find (\<lambda>e. bs_paused (ss ! be_session e)) es)"

section \<open>The policy\<close>

definition bandwidth_policy_user_count :: "bool \<Rightarrow> bw_session list \<Rightarrow> nat" where
  "bandwidth_policy_user_count snapshot ss = length (bw_collect snapshot ss)"

text \<open>The number of users affected and the sessions afterwards.\<close>

definition bandwidth_policy_apply :: "bool \<Rightarrow> balance_action \<Rightarrow> bw_session list \<Rightarrow> nat \<times> bw_session list" where
  "bandwidth_policy_apply snapshot action ss =
     (let collected = bw_collect snapshot ss in
      if collected = [] then (0, ss)
      else let es = bw_sort_victims_first collected in
        case action of
          BAL_PAUSE \<Rightarrow>
            (case bw_first_unpaused ss es of
               Some t \<Rightarrow> (1, session_set_bandwidth_paused t True ss) | None \<Rightarrow> (0, ss))
        | BAL_BREAK \<Rightarrow>
            (case (case bw_first_paused ss es of Some t \<Rightarrow> Some t | None \<Rightarrow> Some (be_session (es ! 0))) of
               Some t \<Rightarrow> (1, session_disconnect_bandwidth t ss) | None \<Rightarrow> (0, ss))
        | BAL_CANCEL \<Rightarrow>
            (length es - 1, fold (\<lambda>e. session_disconnect_bandwidth (be_session e)) (butlast es) ss)
        | BAL_RESUME \<Rightarrow>
            (length es, fold (\<lambda>e. session_set_bandwidth_paused (be_session e) False) es ss)
        | BAL_NONE \<Rightarrow> (0, ss))"

text \<open>Whether the link is spared, the sessions, and the link's balancer if it has one.\<close>

definition circuit_bandwidth_spare_link ::
    "bool \<Rightarrow> bool \<Rightarrow> balance_action \<Rightarrow> bw_session list \<Rightarrow> balance option \<Rightarrow> bool \<times> bw_session list \<times> balance option" where
  "circuit_bandwidth_spare_link snap1 snap2 action ss bal =
     (if bandwidth_policy_user_count snap1 ss = 0 then (False, ss, bal)
      else case bandwidth_policy_apply snap2 action ss of (affected, ss') \<Rightarrow>
        if affected = 0 then (False, ss', bal)
        else (True, ss',
              (case bal of None \<Rightarrow> None
               | Some b \<Rightarrow> if ba_action b = BAL_CANCEL then Some (balance_spared_cancel b) else Some b)))"

section \<open>The sort\<close>

text \<open>The order of sacrifice as a key: radio users first, then the newest connection, then the
  greatest session id.\<close>

definition bw_key :: "bw_entry \<Rightarrow> int \<times> int \<times> int" where
  "bw_key e = (be_priority e, - be_connected_at e, - int (be_id e))"

lemma bw_swap_key: "bw_swap_needed ej ei \<longleftrightarrow> bw_key ej < bw_key ei"
  by (auto simp: bw_swap_needed_def bw_key_def less_prod_def)

lemma bw_exchange_facts:
  assumes "i < j" and "j < length es"
  shows "length (bw_exchange i j es) = length es" and "mset (bw_exchange i j es) = mset es"
    and "k < length es \<Longrightarrow> k \<noteq> i \<Longrightarrow> k \<noteq> j \<Longrightarrow> bw_exchange i j es ! k = es ! k"
    and "bw_key (bw_exchange i j es ! i) \<le> bw_key (bw_exchange i j es ! j)"
    and "bw_key (bw_exchange i j es ! i) \<le> bw_key (es ! i)"
proof -
  show "mset (bw_exchange i j es) = mset es"
    using assms mset_swap [of i es j] by (simp add: bw_exchange_def list_update_swap)
qed (use assms in \<open>auto simp: bw_exchange_def bw_swap_key\<close>)

lemma bw_inner:
  assumes "i < n" and "n \<le> length es" and "es' = fold (bw_exchange i) [i + 1..<n] es"
  shows "length es' = length es \<and> mset es' = mset es \<and> (\<forall>k < i. es' ! k = es ! k)
     \<and> (\<forall>k. i < k \<and> k < n \<longrightarrow> bw_key (es' ! i) \<le> bw_key (es' ! k))
     \<and> (\<forall>k. n \<le> k \<and> k < length es \<longrightarrow> es' ! k = es ! k)"
  using assms(1,2)
  unfolding assms(3)
proof (induction n)
  case (Suc n)
  show ?case
  proof (cases "i < n")
    case True
    let ?e = "fold (bw_exchange i) [i + 1..<n] es"
    from Suc True have ih: "length ?e = length es" "mset ?e = mset es" "\<forall>k < i. ?e ! k = es ! k"
      "\<forall>k. i < k \<and> k < n \<longrightarrow> bw_key (?e ! i) \<le> bw_key (?e ! k)" "\<forall>k. n \<le> k \<and> k < length es \<longrightarrow> ?e ! k = es ! k"
      by auto
    have n: "n < length ?e" using Suc.prems ih(1) by simp
    note x = bw_exchange_facts [OF True n]
    have "bw_key (bw_exchange i n ?e ! i) \<le> bw_key (bw_exchange i n ?e ! k)" if "i < k" "k < Suc n" for k
    proof (cases "k = n")
      case False
      then have "bw_exchange i n ?e ! k = ?e ! k" using that n by (intro x(3)) auto
      moreover have "bw_key (?e ! i) \<le> bw_key (?e ! k)" using ih(4) that False by simp
      ultimately show ?thesis using order_trans [OF x(5)] by simp
    qed (use x(4) in simp)
    then show ?thesis
      using x ih True Suc.prems by (auto simp: less_Suc_eq)
  next
    case False
    then have i: "i = n" using Suc.prems by simp
    then have "fold (bw_exchange i) [i + 1..<Suc n] es = es" by simp
    with i show ?thesis by (auto simp del: upt_Suc)
  qed
qed simp

text \<open>The outer loop: a sorted prefix that nothing behind it precedes.\<close>

definition bw_prefix :: "nat \<Rightarrow> bw_entry list \<Rightarrow> bool" where
  "bw_prefix m es \<longleftrightarrow> (\<forall>i k. i < m \<and> i < k \<and> k < length es \<longrightarrow> bw_key (es ! i) \<le> bw_key (es ! k))"

lemma bw_prefix_step:
  assumes "bw_prefix m es" and "m < length es" and "es' = fold (bw_exchange m) [m + 1..<length es] es"
  shows "bw_prefix (Suc m) es' \<and> length es' = length es \<and> mset es' = mset es"
proof -
  have in': "length es' = length es \<and> mset es' = mset es \<and> (\<forall>k < m. es' ! k = es ! k)
     \<and> (\<forall>k. m < k \<and> k < length es \<longrightarrow> bw_key (es' ! m) \<le> bw_key (es' ! k))"
    using bw_inner [OF assms(2) order_refl assms(3)] by blast
  have tk: "take m es' = take m es"
    using in' assms(2) by (intro nth_equalityI) auto
  have "mset (take m es') + mset (drop m es') = mset (take m es) + mset (drop m es)"
    using in' by (metis append_take_drop_id mset_append)
  then have dr: "set (drop m es') = set (drop m es)" using tk by (metis add_left_cancel set_mset_mset)
  have "bw_key (es' ! i) \<le> bw_key (es' ! k)" if "i < Suc m" "i < k" "k < length es'" for i k
  proof (cases "i = m")
    case True
    with that in' show ?thesis by auto
  next
    case False
    with that have i: "i < m" by simp
    show ?thesis
    proof (cases "k < m")
      case True
      with i that in' assms(1,2) show ?thesis by (auto simp: bw_prefix_def)
    next
      case False
      then have "es' ! k = drop m es' ! (k - m)" "k - m < length (drop m es')" using that(3) by auto
      then have "es' ! k \<in> set (drop m es)" unfolding dr [symmetric] by (metis nth_mem)
      then obtain j where "j < length es - m" "es' ! k = es ! (m + j)" by (auto simp: in_set_conv_nth)
      with i in' assms(1) show ?thesis by (auto simp: bw_prefix_def)
    qed
  qed
  with in' show ?thesis by (auto simp: bw_prefix_def)
qed

lemma bw_sort_prefix:
  "m \<le> length es - 1 \<Longrightarrow> es' = fold (\<lambda>i es. fold (bw_exchange i) [i + 1..<length es] es) [0..<m] es \<Longrightarrow>
   bw_prefix m es' \<and> length es' = length es \<and> mset es' = mset es"
proof (induction m arbitrary: es')
  case 0
  then show ?case by (simp add: bw_prefix_def)
next
  case (Suc m)
  let ?e = "fold (\<lambda>i es. fold (bw_exchange i) [i + 1..<length es] es) [0..<m] es"
  have ih: "bw_prefix m ?e \<and> length ?e = length es \<and> mset ?e = mset es" using Suc by simp
  then have "m < length ?e" using Suc.prems(1) by simp
  from bw_prefix_step [OF _ this refl] ih Suc.prems(2) show ?case by simp
qed

lemma bw_sort_sorted:
  "sorted (map bw_key (bw_sort_victims_first es)) \<and> mset (bw_sort_victims_first es) = mset es"
proof -
  let ?s = "bw_sort_victims_first es"
  have p: "bw_prefix (length es - 1) ?s \<and> length ?s = length es \<and> mset ?s = mset es"
    by (rule bw_sort_prefix [OF order_refl]) (simp add: bw_sort_victims_first_def)
  then have "sorted (map bw_key ?s)"
    by (auto simp: sorted_iff_nth_mono_less bw_prefix_def)
  with p show ?thesis by blast
qed

text \<open>
  The order of sacrifice: the two nested loops that exchange entries put the collected users in
  the order radio users first, then the newest connection, then the greatest session id; no user is
  lost or taken twice.
\<close>

theorem bw_sort_is_sort:
  "map bw_key (bw_sort_victims_first es) = sort (map bw_key es)
   \<and> mset (bw_sort_victims_first es) = mset es"
  using bw_sort_sorted [of es]
  by (metis mset_map properties_for_sort)

section \<open>Who is collected\<close>

definition bw_user :: "bw_session \<Rightarrow> bool" where
  "bw_user s \<longleftrightarrow> bs_logged_in s \<and> bs_transport s \<in> {Some TRANSPORT_PACKET_RADIO, Some TRANSPORT_TELNET}"

definition bw_entry_of :: "bw_session list \<Rightarrow> nat \<Rightarrow> bw_entry" where
  "bw_entry_of ss i = \<lparr>be_session = i, be_connected_at = bs_connected_at (ss ! i),
     be_priority = session_sacrifice_priority (ss ! i), be_id = bs_id (ss ! i)\<rparr>"

lemma sacrifice_priority_user: "session_sacrifice_priority s < 0 \<or> \<not> bs_logged_in s \<longleftrightarrow> \<not> bw_user s"
  by (auto simp: session_sacrifice_priority_def bw_user_def BW_PRIORITY_AX25_USER_def BW_PRIORITY_TCP_USER_def
      split: option.splits transport_kind.splits)

lemma bw_collect_eq:
  "bw_collect True ss = map (bw_entry_of ss) (take BW_USER_MAX (filter (\<lambda>i. bw_user (ss ! i)) [0..<length ss]))"
proof -
  have "fold (bw_collect_visitor ss) is es
      = es @ map (bw_entry_of ss) (take (BW_USER_MAX - length es) (filter (\<lambda>i. bw_user (ss ! i)) is))"
    if "length es \<le> BW_USER_MAX" for "is" es
    using that
  proof (induction "is" arbitrary: es)
    case (Cons i "is")
    show ?case
    proof (cases "bw_user (ss ! i) \<and> length es < BW_USER_MAX")
      case True
      then have "bw_collect_visitor ss i es = es @ [bw_entry_of ss i]"
        using sacrifice_priority_user [of "ss ! i"]
        by (simp add: bw_collect_visitor_def bw_entry_of_def Let_def)
      with Cons.IH [of "es @ [bw_entry_of ss i]"] True show ?thesis
        by (simp add: take_Cons' Suc_diff_Suc [symmetric])
    next
      case False
      then have "bw_collect_visitor ss i es = es"
        using sacrifice_priority_user [of "ss ! i"] by (auto simp: bw_collect_visitor_def Let_def)
      with Cons False show ?thesis by auto
    qed
  qed simp
  from this [of "[]"] show ?thesis by (simp add: bw_collect_def)
qed

text \<open>The users the policy looks at, and the key of a session.\<close>

definition bw_users :: "bw_session list \<Rightarrow> nat list" where
  "bw_users ss = take BW_USER_MAX (filter (\<lambda>i. bw_user (ss ! i)) [0..<length ss])"

definition session_key :: "bw_session \<Rightarrow> int \<times> int \<times> int" where
  "session_key s = (session_sacrifice_priority s, - bs_connected_at s, - int (bs_id s))"

lemma bw_users_facts: "i \<in> set (bw_users ss) \<Longrightarrow> i < length ss \<and> bw_user (ss ! i)"
  by (auto simp: bw_users_def dest: in_set_takeD)

lemma bw_users_distinct: "distinct (bw_users ss)"
  by (simp add: bw_users_def)

lemma bw_sorted_users:
  assumes "es = bw_sort_victims_first (bw_collect True ss)"
  shows "sorted (map (\<lambda>e. session_key (ss ! be_session e)) es)"
    and "set (map be_session es) = set (bw_users ss)" and "distinct (map be_session es)"
    and "length es = length (bw_users ss)"
proof -
  have col: "bw_collect True ss = map (bw_entry_of ss) (bw_users ss)" by (simp add: bw_collect_eq bw_users_def)
  have m: "mset es = mset (map (bw_entry_of ss) (bw_users ss))" "sorted (map bw_key es)"
    using bw_sort_sorted [of "bw_collect True ss"] by (auto simp: assms col)
  have eq: "\<forall>e \<in> set es. e = bw_entry_of ss (be_session e)"
    using mset_eq_setD [OF m(1)] by (auto simp: bw_entry_of_def)
  have "map bw_key es = map (\<lambda>e. session_key (ss ! be_session e)) es"
    using eq by (intro map_cong refl) (metis bw_entry_of_def bw_key_def bw_entry.select_convs(2-4) session_key_def)
  with m(2) show "sorted (map (\<lambda>e. session_key (ss ! be_session e)) es)" by simp
  have "mset (map be_session es) = mset (bw_users ss)"
    using arg_cong [OF m(1), of "image_mset be_session"]
    by (simp add: image_mset.compositionality comp_def bw_entry_of_def)
  then show "set (map be_session es) = set (bw_users ss)" "distinct (map be_session es)" "length es = length (bw_users ss)"
    using bw_users_distinct by (metis mset_eq_setD, metis mset_eq_imp_distinct_iff, metis length_map mset_eq_length)
qed

definition bw_disconnected :: "bw_session \<Rightarrow> bw_session" where
  "bw_disconnected s = s\<lparr>bs_paused := False, bs_disconnect := True\<rparr>"

lemma disconnect_all:
  "\<forall>e \<in> set es. be_session e < length ss \<and> bs_logged_in (ss ! be_session e) \<Longrightarrow>
   length (fold (\<lambda>e. session_disconnect_bandwidth (be_session e)) es ss) = length ss \<and>
   (\<forall>i < length ss. fold (\<lambda>e. session_disconnect_bandwidth (be_session e)) es ss ! i
      = (if i \<in> be_session ` set es then bw_disconnected (ss ! i) else ss ! i))"
proof (induction es arbitrary: ss)
  case (Cons e es)
  let ?s = "session_disconnect_bandwidth (be_session e) ss"
  have s: "?s = ss[be_session e := bw_disconnected (ss ! be_session e)]"
    using Cons.prems by (simp add: session_disconnect_bandwidth_def bw_disconnected_def)
  have "\<forall>x \<in> set es. be_session x < length ?s \<and> bs_logged_in (?s ! be_session x)"
    using Cons.prems by (auto simp: s nth_list_update bw_disconnected_def)
  from Cons.IH [OF this] show ?case
    using Cons.prems by (auto simp: s nth_list_update bw_disconnected_def)
qed simp

text \<open>
  A cancelled link costs every user but one: the policy disconnects all the users it looks at
  except the one last in the order of sacrifice, so a terminal user over TCP if there is one, and
  among those the one connected longest; sessions of other transports and users not logged in are
  left alone, and the count it returns is the number of users disconnected.
\<close>

theorem bandwidth_cancel_spares_one:
  assumes "bw_users ss \<noteq> []" and "bandwidth_policy_apply True BAL_CANCEL ss = (affected, ss')"
  shows "\<exists>v \<in> set (bw_users ss).
       Max (session_key ` (!) ss ` set (bw_users ss)) = session_key (ss ! v)
     \<and> length ss' = length ss \<and> affected = length (bw_users ss) - 1
     \<and> ss' = map (\<lambda>i. if i \<in> set (bw_users ss) - {v} then bw_disconnected (ss ! i) else ss ! i) [0..<length ss]"
proof -
  let ?es = "bw_sort_victims_first (bw_collect True ss)"
  note su = bw_sorted_users [OF refl, of ss]
  have ne: "?es \<noteq> []" using su(4) assms(1) by auto
  then obtain es e where es: "?es = es @ [e]" by (cases ?es rule: rev_cases) auto
  have v: "be_session e \<in> set (bw_users ss)" using su(2) es by auto
  have rest: "be_session ` set es = set (bw_users ss) - {be_session e}" using su(2,3) unfolding es
    by (simp add: image_Un) blast
  have "bw_collect True ss \<noteq> []" using assms(1) by (simp add: bw_collect_eq bw_users_def)
  then have ap: "affected = length ?es - 1" "ss' = fold (\<lambda>e. session_disconnect_bandwidth (be_session e)) es ss"
    using assms(2) es by (auto simp: bandwidth_policy_apply_def Let_def)
  have "\<forall>x \<in> set es. be_session x < length ss \<and> bs_logged_in (ss ! be_session x)"
    using rest bw_users_facts [of _ ss] by (auto simp: bw_user_def)
  note d = disconnect_all [OF this, folded ap(2)]
  have max: "session_key (ss ! i) \<le> session_key (ss ! be_session e)" if "i \<in> set (bw_users ss)" for i
  proof (cases "i = be_session e")
    case False
    with that rest obtain x where "x \<in> set es" "i = be_session x" by blast
    with su(1) show ?thesis unfolding es by (auto simp: sorted_append)
  qed simp
  have "Max (session_key ` (!) ss ` set (bw_users ss)) = session_key (ss ! be_session e)"
    using v max by (intro Max_eqI) auto
  moreover have "ss' = map (\<lambda>i. if i \<in> set (bw_users ss) - {be_session e} then bw_disconnected (ss ! i) else ss ! i) [0..<length ss]"
    using d rest by (intro nth_equalityI) auto
  ultimately show ?thesis using v d ap(1) su(4) by (intro bexI [of _ "be_session e"]) auto
qed

definition bw_example :: "bw_session list" where
  "bw_example =
     [\<lparr>bs_id = 1, bs_transport = Some TRANSPORT_PACKET_RADIO, bs_logged_in = True, bs_connected_at = 10,
       bs_paused = False, bs_disconnect = False\<rparr>,
      \<lparr>bs_id = 2, bs_transport = Some TRANSPORT_TELNET, bs_logged_in = True, bs_connected_at = 20,
       bs_paused = False, bs_disconnect = False\<rparr>,
      \<lparr>bs_id = 3, bs_transport = Some TRANSPORT_SSH, bs_logged_in = True, bs_connected_at = 30,
       bs_paused = False, bs_disconnect = False\<rparr>]"

lemma bw_example_users: "bw_users bw_example = [0, 1]"
  by (simp add: bw_users_def BW_USER_MAX_def bw_example_def bw_user_def upt_rec)

theorem bandwidth_cancel_spares_one_witness:
  "\<exists>affected ss'. bandwidth_policy_apply True BAL_CANCEL bw_example = (affected, ss') \<and> affected = 1 \<and> length ss' = 3"
proof -
  obtain affected ss' where r: "bandwidth_policy_apply True BAL_CANCEL bw_example = (affected, ss')" by fastforce
  from bandwidth_cancel_spares_one [OF _ this] show ?thesis
    using r by (auto simp: bw_example_users) (auto simp: bw_example_def)
qed

lemma find_sorted:
  assumes "sorted (map f es)" and "find P es = Some e"
  shows "e \<in> set es \<and> P e \<and> (\<forall>x \<in> set es. P x \<longrightarrow> f e \<le> f x)"
  using assms by (induction es) (auto split: if_splits)

text \<open>
  A paused link pauses one user: the first in the order of sacrifice among those not paused yet,
  so no TCP user while a radio user is still running; nothing changes when all users are paused.
\<close>

theorem bandwidth_pause_one:
  assumes "bandwidth_policy_apply True BAL_PAUSE ss = (affected, ss')"
  shows "if \<forall>i \<in> set (bw_users ss). bs_paused (ss ! i) then affected = 0 \<and> ss' = ss
     else affected = 1 \<and> (\<exists>v \<in> set (bw_users ss). \<not> bs_paused (ss ! v)
       \<and> (\<forall>i \<in> set (bw_users ss). \<not> bs_paused (ss ! i) \<longrightarrow> session_key (ss ! v) \<le> session_key (ss ! i))
       \<and> ss' = ss[v := (ss ! v)\<lparr>bs_paused := True\<rparr>])"
proof -
  let ?es = "bw_sort_victims_first (bw_collect True ss)"
  note su = bw_sorted_users [OF refl, of ss]
  show ?thesis
  proof (cases "bw_users ss = []")
    case True
    then have "bw_collect True ss = []" by (simp add: bw_collect_eq bw_users_def)
    with assms True show ?thesis by (simp add: bandwidth_policy_apply_def)
  next
    case ne: False
    then have ne: "bw_collect True ss \<noteq> []" by (simp add: bw_collect_eq bw_users_def)
    show ?thesis
    proof (cases "find (\<lambda>e. \<not> bs_paused (ss ! be_session e)) ?es")
      case None
      then have "\<forall>i \<in> set (map be_session ?es). bs_paused (ss ! i)" by (auto simp: find_None_iff)
      then have "\<forall>i \<in> set (bw_users ss). bs_paused (ss ! i)" unfolding su(2) .
      with None ne assms show ?thesis by (auto simp: bandwidth_policy_apply_def bw_first_unpaused_def Let_def)
    next
      case (Some e)
      note f = find_sorted [OF su(1) Some]
      have v: "be_session e \<in> set (bw_users ss)" using f su(2) by auto
      have all: "\<forall>i \<in> set (bw_users ss). \<not> bs_paused (ss ! i) \<longrightarrow> session_key (ss ! be_session e) \<le> session_key (ss ! i)"
        using f su(2) [symmetric] by auto
      have "affected = 1 \<and> ss' = ss[be_session e := (ss ! be_session e)\<lparr>bs_paused := True\<rparr>]"
        using Some ne assms
        by (auto simp: bandwidth_policy_apply_def bw_first_unpaused_def Let_def session_set_bandwidth_paused_def)
      with v all f show ?thesis by auto
    qed
  qed
qed

theorem bandwidth_pause_one_witness:
  "\<exists>ss' v. bandwidth_policy_apply True BAL_PAUSE bw_example = (1, ss') \<and> bs_paused (ss' ! v)"
proof -
  obtain affected ss' where r: "bandwidth_policy_apply True BAL_PAUSE bw_example = (affected, ss')" by fastforce
  have "\<not> (\<forall>i \<in> set (bw_users bw_example). bs_paused (bw_example ! i))"
    unfolding bw_example_users by (simp add: bw_example_def)
  with bandwidth_pause_one [OF r] obtain v where "affected = 1" "v \<in> set (bw_users bw_example)"
    "ss' = bw_example[v := (bw_example ! v)\<lparr>bs_paused := True\<rparr>]" by auto
  with r bw_users_facts [of v bw_example] show ?thesis by (intro exI [of _ ss'] exI [of _ v]) auto
qed

end
