(* ===== verification/Slot_Table.thy ===== *)
theory Slot_Table imports Prelude begin

text \<open>
  Fixed tables of keyed slots, as \<^verbatim>\<open>src/core/security_ban.c\<close> keeps them: an array of
  entries with a key, a value and an \<^verbatim>\<open>active\<close> flag, searched from the front; a new entry
  takes the first slot that is not active.  The abstraction of a table is the map from the keys of
  its active slots to their values; the locale states what the ban logic relies on.
\<close>

section \<open>Slots\<close>

record 'v slot =
  sl_key :: string
  sl_val :: 'v
  sl_active :: bool

definition slot_find :: "'v slot list \<Rightarrow> string \<Rightarrow> nat option" where
  "slot_find tbl key = find_slot (\<lambda>e. sl_active e \<and> sl_key e = key) tbl"

text \<open>The key is copied into an array of \<open>cap\<close> characters.\<close>

definition slot_alloc :: "nat \<Rightarrow> 'v slot list \<Rightarrow> string \<Rightarrow> 'v \<Rightarrow> (nat \<times> 'v slot list) option" where
  "slot_alloc cap tbl key v =
     (case find_slot (\<lambda>e. \<not> sl_active e) tbl of None \<Rightarrow> None
      | Some i \<Rightarrow> Some (i, tbl[i := \<lparr>sl_key = take (cap - 1) key, sl_val = v, sl_active = True\<rparr>]))"

definition slot_set :: "nat \<Rightarrow> 'v \<Rightarrow> 'v slot list \<Rightarrow> 'v slot list" where
  "slot_set i v tbl = tbl[i := (tbl ! i)\<lparr>sl_val := v\<rparr>]"

definition slot_clear :: "nat \<Rightarrow> 'v \<Rightarrow> 'v slot list \<Rightarrow> 'v slot list" where
  "slot_clear i v tbl = tbl[i := \<lparr>sl_key = [], sl_val = v, sl_active = False\<rparr>]"

text \<open>An existing entry, or a new one.\<close>

definition slot_find_or_alloc :: "nat \<Rightarrow> 'v slot list \<Rightarrow> string \<Rightarrow> 'v \<Rightarrow> (nat \<times> 'v slot list) option" where
  "slot_find_or_alloc cap tbl key v =
     (case slot_find tbl key of Some i \<Rightarrow> Some (i, tbl) | None \<Rightarrow> slot_alloc cap tbl key v)"

section \<open>The map a table stands for\<close>

definition slot_look :: "'v slot list \<Rightarrow> string \<Rightarrow> 'v option" where
  "slot_look tbl key = map_option (\<lambda>i. sl_val (tbl ! i)) (slot_find tbl key)"

definition slots_ok :: "nat \<Rightarrow> 'v slot list \<Rightarrow> bool" where
  "slots_ok cap tbl \<longleftrightarrow>
     (\<forall>i < length tbl. \<forall>j < length tbl.
        sl_active (tbl ! i) \<and> sl_active (tbl ! j) \<and> sl_key (tbl ! i) = sl_key (tbl ! j) \<longrightarrow> i = j)
     \<and> (\<forall>i < length tbl. sl_active (tbl ! i) \<longrightarrow> length (sl_key (tbl ! i)) < cap)"

definition slot_free :: "'v slot list \<Rightarrow> bool" where
  "slot_free tbl \<longleftrightarrow> list_ex (\<lambda>e. \<not> sl_active e) tbl"

lemma slot_find_Some_iff:
  "slots_ok cap tbl \<Longrightarrow>
   slot_find tbl key = Some i \<longleftrightarrow> i < length tbl \<and> sl_active (tbl ! i) \<and> sl_key (tbl ! i) = key"
proof
  show "slot_find tbl key = Some i \<Longrightarrow> i < length tbl \<and> sl_active (tbl ! i) \<and> sl_key (tbl ! i) = key"
    by (auto simp: slot_find_def dest: find_slot_SomeD)
next
  assume ok: "slots_ok cap tbl" and i: "i < length tbl \<and> sl_active (tbl ! i) \<and> sl_key (tbl ! i) = key"
  then have "slot_find tbl key \<noteq> None"
    by (auto simp: slot_find_def find_slot_None_iff)
  then obtain j where j: "slot_find tbl key = Some j" by auto
  then have "j < length tbl \<and> sl_active (tbl ! j) \<and> sl_key (tbl ! j) = key"
    by (auto simp: slot_find_def dest: find_slot_SomeD)
  with ok i have "i = j" unfolding slots_ok_def by blast
  with j show "slot_find tbl key = Some i" by simp
qed

lemma slot_find_None_iff:
  "slot_find tbl key = None \<longleftrightarrow> (\<forall>i < length tbl. sl_active (tbl ! i) \<longrightarrow> sl_key (tbl ! i) \<noteq> key)"
  by (auto simp: slot_find_def find_slot_None_iff all_set_conv_all_nth)

lemma slot_look_Some_iff:
  "slots_ok cap tbl \<Longrightarrow> slot_look tbl key = Some v \<longleftrightarrow>
   (\<exists>i < length tbl. sl_active (tbl ! i) \<and> sl_key (tbl ! i) = key \<and> sl_val (tbl ! i) = v)"
  using slot_find_Some_iff [of cap tbl key] by (auto simp: slot_look_def)

lemma slot_look_None_iff: "slot_look tbl key = None \<longleftrightarrow> slot_find tbl key = None"
  by (simp add: slot_look_def)

text \<open>Writing one slot.\<close>

lemma slots_ok_update:
  assumes "slots_ok cap tbl"
    and "sl_active e \<Longrightarrow> length (sl_key e) < cap
       \<and> (\<forall>j < length tbl. j \<noteq> i \<longrightarrow> sl_active (tbl ! j) \<longrightarrow> sl_key (tbl ! j) \<noteq> sl_key e)"
  shows "slots_ok cap (tbl[i := e])"
proof (cases "i < length tbl")
  case True
  with assms show ?thesis unfolding slots_ok_def by (simp add: nth_list_update) metis
next
  case False
  with assms(1) show ?thesis by (simp add: list_update_beyond)
qed

lemma slot_look_update_same:
  "slots_ok cap (tbl[i := e]) \<Longrightarrow> i < length tbl \<Longrightarrow> sl_active e \<Longrightarrow>
   slot_look (tbl[i := e]) (sl_key e) = Some (sl_val e)"
  by (subst slot_look_Some_iff) (auto intro!: exI [of _ i])

lemma slot_look_update_other:
  assumes "slots_ok cap tbl" and "slots_ok cap (tbl[i := e])"
    and "i < length tbl \<Longrightarrow> sl_active (tbl ! i) \<Longrightarrow> sl_key (tbl ! i) \<noteq> key'"
    and "sl_active e \<Longrightarrow> sl_key e \<noteq> key'"
  shows "slot_look (tbl[i := e]) key' = slot_look tbl key'"
proof -
  have "slot_look (tbl[i := e]) key' = Some v \<longleftrightarrow> slot_look tbl key' = Some v" for v
    unfolding slot_look_Some_iff [OF assms(1)] slot_look_Some_iff [OF assms(2)] length_list_update
    using assms(3,4) by (metis nth_list_update_eq nth_list_update_neq)
  then show ?thesis by (cases "slot_look tbl key'") (auto intro: option.expand)
qed

lemma slots_ok_set: "slots_ok cap tbl \<Longrightarrow> slots_ok cap (slot_set i v tbl)"
proof (cases "i < length tbl")
  case True
  assume ok: "slots_ok cap tbl"
  show ?thesis
    unfolding slot_set_def by (rule slots_ok_update [OF ok]) (use ok True in \<open>auto simp: slots_ok_def\<close>)
qed (simp add: slot_set_def list_update_beyond)

lemma slots_ok_clear: "slots_ok cap tbl \<Longrightarrow> slots_ok cap (slot_clear i v tbl)"
  unfolding slot_clear_def by (erule slots_ok_update) simp

lemma length_slot_ops [simp]:
  "length (slot_set i v tbl) = length tbl" "length (slot_clear i v tbl) = length tbl"
  by (simp_all add: slot_set_def slot_clear_def)

lemma slot_look_set:
  assumes "slots_ok cap tbl" and "slot_find tbl key = Some i"
  shows "slot_look (slot_set i v tbl) = (slot_look tbl)(key \<mapsto> v)"
proof
  fix key'
  have i: "i < length tbl" "sl_active (tbl ! i)" "sl_key (tbl ! i) = key"
    using assms slot_find_Some_iff by auto
  let ?e = "(tbl ! i)\<lparr>sl_val := v\<rparr>"
  have ok: "slots_ok cap (tbl[i := ?e])" using slots_ok_set [OF assms(1)] by (simp add: slot_set_def)
  show "slot_look (slot_set i v tbl) key' = ((slot_look tbl)(key \<mapsto> v)) key'"
    unfolding slot_set_def
    using i slot_look_update_same [OF ok] slot_look_update_other [OF assms(1) ok, of key']
    by (cases "key' = key") auto
qed

lemma slot_look_clear:
  assumes "slots_ok cap tbl" and "slot_find tbl key = Some i"
  shows "slot_look (slot_clear i v tbl) = (slot_look tbl)(key := None)"
proof
  fix key'
  have i: "i < length tbl" "sl_active (tbl ! i)" "sl_key (tbl ! i) = key"
    using assms slot_find_Some_iff by auto
  let ?e = "\<lparr>sl_key = [], sl_val = v, sl_active = False\<rparr>"
  have ok: "slots_ok cap (tbl[i := ?e])" using slots_ok_clear [OF assms(1)] by (simp add: slot_clear_def)
  have gone: "slot_look (tbl[i := ?e]) key = None"
    unfolding slot_look_None_iff slot_find_None_iff
    using assms(1) i by (auto simp: nth_list_update slots_ok_def)
  show "slot_look (slot_clear i v tbl) key' = ((slot_look tbl)(key := None)) key'"
    unfolding slot_clear_def
    using i gone slot_look_update_other [OF assms(1) ok, of key']
    by (cases "key' = key") auto
qed

text \<open>Taking a free slot for a key that has none.\<close>

lemma slot_alloc_ok:
  assumes "slots_ok cap tbl" and "slot_find tbl key = None" and "length key < cap"
    and "slot_alloc cap tbl key v = Some (i, tbl')"
  shows "slots_ok cap tbl'" and "slot_find tbl' key = Some i" and "length tbl' = length tbl"
    and "slot_look tbl' = (slot_look tbl)(key \<mapsto> v)" and "sl_val (tbl' ! i) = v"
proof -
  let ?e = "\<lparr>sl_key = key, sl_val = v, sl_active = True\<rparr>"
  from assms(4) have i: "find_slot (\<lambda>e. \<not> sl_active e) tbl = Some i" and t': "tbl' = tbl[i := ?e]"
    using assms(3) by (auto simp: slot_alloc_def split: option.splits)
  note il = find_slot_SomeD [OF i]
  show ok: "slots_ok cap tbl'"
    unfolding t' using assms(2,3) by (intro slots_ok_update [OF assms(1)]) (auto simp: slot_find_None_iff)
  show "length tbl' = length tbl" by (simp add: t')
  show "slot_find tbl' key = Some i" using il by (subst slot_find_Some_iff [OF ok]) (simp add: t')
  show "sl_val (tbl' ! i) = v" using il by (simp add: t')
  show "slot_look tbl' = (slot_look tbl)(key \<mapsto> v)"
  proof
    fix key'
    show "slot_look tbl' key' = ((slot_look tbl)(key \<mapsto> v)) key'"
      unfolding t'
      using il slot_look_update_same [OF ok [unfolded t']]
        slot_look_update_other [OF assms(1) ok [unfolded t'], of key']
      by (cases "key' = key") auto
  qed
qed

lemma slot_alloc_None_iff: "slot_alloc cap tbl key v = None \<longleftrightarrow> \<not> slot_free tbl"
proof -
  have "slot_alloc cap tbl key v = None \<longleftrightarrow> find_slot (\<lambda>e. \<not> sl_active e) tbl = None"
    by (simp add: slot_alloc_def split: option.splits)
  then show ?thesis by (auto simp: slot_free_def find_slot_None_iff list_ex_iff)
qed

lemma slot_find_or_alloc_None_iff:
  "slot_find_or_alloc cap tbl key v = None \<longleftrightarrow> slot_find tbl key = None \<and> \<not> slot_free tbl"
  by (auto simp: slot_find_or_alloc_def slot_alloc_None_iff split: option.splits)

lemma slot_find_or_alloc_ok:
  assumes "slots_ok cap tbl" and "length key < cap" and "slot_find_or_alloc cap tbl key v = Some (i, tbl')"
  shows "slots_ok cap tbl' \<and> slot_find tbl' key = Some i \<and> length tbl' = length tbl
    \<and> slot_look tbl' = (slot_look tbl)(key \<mapsto> (case slot_look tbl key of Some w \<Rightarrow> w | None \<Rightarrow> v))
    \<and> sl_val (tbl' ! i) = (case slot_look tbl key of Some w \<Rightarrow> w | None \<Rightarrow> v)"
proof (cases "slot_find tbl key")
  case None
  with assms(3) show ?thesis
    using slot_alloc_ok [OF assms(1) None assms(2), of v i tbl']
    by (simp add: slot_find_or_alloc_def slot_look_def)
next
  case (Some j)
  then have "slot_look tbl key = Some (sl_val (tbl ! j))" by (simp add: slot_look_def)
  with Some assms show ?thesis by (auto simp: slot_find_or_alloc_def)
qed

section \<open>The interface\<close>

text \<open>
  What the ban logic relies on of such a table: valid keys, room for a new one, and a lookup that an
  entry or a removal changes at its own key only.
\<close>

locale key_table =
  fixes ok :: "'t \<Rightarrow> bool"
    and valid :: "'k \<Rightarrow> bool"
    and look :: "'t \<Rightarrow> 'k \<Rightarrow> 'v option"
    and enter :: "'t \<Rightarrow> 'k \<Rightarrow> 'v \<Rightarrow> 't"
    and drop_key :: "'t \<Rightarrow> 'k \<Rightarrow> 't"
    and room :: "'t \<Rightarrow> bool"
  assumes enter_ok: "ok t \<Longrightarrow> valid k \<Longrightarrow> ok (enter t k v)"
    and look_enter: "ok t \<Longrightarrow> valid k \<Longrightarrow> room t \<or> look t k \<noteq> None \<Longrightarrow>
          look (enter t k v) = (look t)(k \<mapsto> v)"
    and enter_full: "ok t \<Longrightarrow> valid k \<Longrightarrow> \<not> room t \<Longrightarrow> look t k = None \<Longrightarrow> look (enter t k v) = look t"
    and drop_ok: "ok t \<Longrightarrow> valid k \<Longrightarrow> ok (drop_key t k)"
    and look_drop: "ok t \<Longrightarrow> valid k \<Longrightarrow> look (drop_key t k) = (look t)(k := None)"
begin

lemma enter_other: "ok t \<Longrightarrow> valid k \<Longrightarrow> k' \<noteq> k \<Longrightarrow> look (enter t k v) k' = look t k'"
  by (cases "room t \<or> look t k \<noteq> None") (auto simp: look_enter enter_full)

lemma drop_other: "ok t \<Longrightarrow> valid k \<Longrightarrow> k' \<noteq> k \<Longrightarrow> look (drop_key t k) k' = look t k'"
  by (simp add: look_drop)

lemma look_enter_cases:
  "ok t \<Longrightarrow> valid k \<Longrightarrow>
   look (enter t k v) k = (if room t \<or> look t k \<noteq> None then Some v else None)"
  by (auto simp: look_enter enter_full)

end

definition slot_enter :: "nat \<Rightarrow> 'v slot list \<Rightarrow> string \<Rightarrow> 'v \<Rightarrow> 'v slot list" where
  "slot_enter cap tbl key v =
     (case slot_find_or_alloc cap tbl key v of None \<Rightarrow> tbl | Some (i, tbl') \<Rightarrow> slot_set i v tbl')"

text \<open>\<open>f\<close> is what the removal leaves of the value in the slot.\<close>

definition slot_drop :: "('v \<Rightarrow> 'v) \<Rightarrow> 'v slot list \<Rightarrow> string \<Rightarrow> 'v slot list" where
  "slot_drop f tbl key =
     (case slot_find tbl key of None \<Rightarrow> tbl | Some i \<Rightarrow> slot_clear i (f (sl_val (tbl ! i))) tbl)"

lemma length_slot_enter [simp]: "slots_ok cap tbl \<Longrightarrow> length key < cap \<Longrightarrow> length (slot_enter cap tbl key v) = length tbl"
  by (auto simp: slot_enter_def slot_find_or_alloc_ok split: option.splits dest: slot_find_or_alloc_ok)

lemma length_slot_drop [simp]: "length (slot_drop f tbl key) = length tbl"
  by (simp add: slot_drop_def split: option.splits)

interpretation slots: key_table "slots_ok cap" "\<lambda>key. length key < cap" slot_look "slot_enter cap"
    "slot_drop f" slot_free
  for cap :: nat and f :: "'v \<Rightarrow> 'v"
proof unfold_locales
  fix t :: "'v slot list" and k :: string and v :: 'v
  assume ok: "slots_ok cap t" and k: "length k < cap"
  show "slots_ok cap (slot_drop f t k)"
    by (auto simp: slot_drop_def slots_ok_clear ok split: option.splits)
  show "slot_look (slot_drop f t k) = (slot_look t)(k := None)"
    by (auto simp: slot_drop_def slot_look_clear [OF ok] slot_look_None_iff [symmetric] fun_upd_idem
        split: option.splits)
  show "slots_ok cap (slot_enter cap t k v)"
    using slot_find_or_alloc_ok [OF ok k, of v]
    by (auto simp: slot_enter_def ok slots_ok_set split: option.splits)
  show "\<not> slot_free t \<Longrightarrow> slot_look t k = None \<Longrightarrow> slot_look (slot_enter cap t k v) = slot_look t"
    using slot_find_or_alloc_None_iff [of cap t k v] by (simp add: slot_enter_def slot_look_None_iff)
  assume room: "slot_free t \<or> slot_look t k \<noteq> None"
  then obtain i t' where "slot_find_or_alloc cap t k v = Some (i, t')"
    using slot_find_or_alloc_None_iff [of cap t k v] by (auto simp: slot_look_None_iff)
  then show "slot_look (slot_enter cap t k v) = (slot_look t)(k \<mapsto> v)"
    using slot_find_or_alloc_ok [OF ok k, of v i t'] slot_look_set [of cap t' k i v]
    by (simp add: slot_enter_def)
qed

section \<open>A pass over the whole table\<close>

lemma slots_ok_map:
  assumes "slots_ok cap tbl" and "\<And>e. sl_active (f e) \<Longrightarrow> sl_active e \<and> sl_key (f e) = sl_key e"
  shows "slots_ok cap (map f tbl)"
  using assms unfolding slots_ok_def by (simp add: nth_map) metis

lemma slot_look_map:
  assumes "slots_ok cap tbl" and "\<And>e. sl_active (f e) \<Longrightarrow> sl_active e \<and> sl_key (f e) = sl_key e"
    and "\<And>e. sl_active e \<Longrightarrow> sl_active (f e) \<longleftrightarrow> g (sl_val e) \<noteq> None"
    and "\<And>e. sl_active (f e) \<Longrightarrow> g (sl_val e) = Some (sl_val (f e))"
  shows "slot_look (map f tbl) key = Option.bind (slot_look tbl key) g"
proof (cases "slot_find tbl key")
  case None
  then have "slot_find (map f tbl) key = None"
    using assms(2) unfolding slot_find_None_iff by auto
  with None show ?thesis by (simp add: slot_look_def)
next
  case (Some i)
  note i = Some [unfolded slot_find_Some_iff [OF assms(1)]]
  have ok: "slots_ok cap (map f tbl)" by (rule slots_ok_map [OF assms(1)]) (rule assms(2))
  show ?thesis
  proof (cases "sl_active (f (tbl ! i))")
    case True
    then have "slot_find (map f tbl) key = Some i"
      unfolding slot_find_Some_iff [OF ok] using i assms(2) by auto
    with True i Some assms(4) show ?thesis by (simp add: slot_look_def)
  next
    case False
    have "slot_find (map f tbl) key = None"
      unfolding slot_find_None_iff
    proof (intro allI impI)
      fix j assume j: "j < length (map f tbl)" "sl_active (map f tbl ! j)"
      then have a: "sl_active (tbl ! j)" "sl_key (map f tbl ! j) = sl_key (tbl ! j)" using assms(2) by auto
      show "sl_key (map f tbl ! j) \<noteq> key"
      proof
        assume "sl_key (map f tbl ! j) = key"
        with a j(1) i assms(1) have "j = i" unfolding slots_ok_def by auto
        with False j show False by simp
      qed
    qed
    with False i Some assms(3) show ?thesis by (simp add: slot_look_def)
  qed
qed

lemma slots_ok_replicate [simp]: "slots_ok cap (replicate n \<lparr>sl_key = [], sl_val = v, sl_active = False\<rparr>)"
  by (simp add: slots_ok_def)

lemma slot_look_replicate [simp]:
  "slot_look (replicate n \<lparr>sl_key = [], sl_val = v, sl_active = False\<rparr>) = (\<lambda>_. None)"
  by (rule ext) (simp add: slot_look_None_iff slot_find_None_iff)

lemma slot_free_replicate [simp]:
  "slot_free (replicate n \<lparr>sl_key = [], sl_val = v, sl_active = False\<rparr>) \<longleftrightarrow> 0 < n"
  by (simp add: slot_free_def list_ex_iff)

end
