(* ===== verification/Security_Ban.thy ===== *)
theory Security_Ban imports Slot_Table Config begin

text \<open>
  Bans of addresses and call ids: \<^verbatim>\<open>src/core/security_ban.c\<close>.  The static tables and the
  configuration are one state record; an operation takes the time that \<^verbatim>\<open>time(NULL)\<close>
  returns as its argument \<open>now\<close>.  The five tracking tables share the shape key, time stamps,
  active; the stamps are the first \<^verbatim>\<open>count\<close> elements of the array.  Writing a stamp behind
  the end of the array is the value None.  The mutex serialises the operations, so a run is a
  sequence of them.
\<close>

section \<open>State\<close>

definition SECURITY_MAXRETRY :: nat where "SECURITY_MAXRETRY = 5"
definition SECURITY_FINDTIME_SEC :: nat where "SECURITY_FINDTIME_SEC = 600"
definition SECURITY_BANTIME_SEC :: nat where "SECURITY_BANTIME_SEC = 600"
definition SECURITY_ABUSE_MAXRETRY :: nat where "SECURITY_ABUSE_MAXRETRY = 30"
definition SECURITY_ABUSE_FINDTIME_SEC :: nat where "SECURITY_ABUSE_FINDTIME_SEC = 600"
definition SECURITY_RATE_LIMIT :: nat where "SECURITY_RATE_LIMIT = 30"
definition SECURITY_RATE_WINDOW_SEC :: nat where "SECURITY_RATE_WINDOW_SEC = 60"
definition SECURITY_BAN_MAX :: nat where "SECURITY_BAN_MAX = 256"
definition SECURITY_TRACK_MAX :: nat where "SECURITY_TRACK_MAX = 512"
definition REMOTE_ADDR_MAX :: nat where "REMOTE_ADDR_MAX = 64"
definition CALLID_MAX :: nat where "CALLID_MAX = 64"
definition RATE_STAMPS :: nat where "RATE_STAMPS = 32"

lemmas security_consts = SECURITY_MAXRETRY_def SECURITY_FINDTIME_SEC_def SECURITY_BANTIME_SEC_def
  SECURITY_ABUSE_MAXRETRY_def SECURITY_ABUSE_FINDTIME_SEC_def SECURITY_RATE_LIMIT_def
  SECURITY_RATE_WINDOW_SEC_def SECURITY_BAN_MAX_def SECURITY_TRACK_MAX_def REMOTE_ADDR_MAX_def
  CALLID_MAX_def RATE_STAMPS_def

datatype ban_backend = BACKEND_INTERNAL | BACKEND_LOG | BACKEND_IPTABLES | BACKEND_NFTABLES | BACKEND_HOSTS

record security_cfg =
  sc_enabled :: int
  sc_maxretry :: nat
  sc_findtime_sec :: nat
  sc_bantime_sec :: nat
  sc_abuse_maxretry :: nat
  sc_abuse_findtime_sec :: nat
  sc_telnet :: int
  sc_ssh :: int
  sc_websocket :: int
  sc_circuit :: int
  sc_rate_limit :: nat
  sc_rate_window_sec :: nat
  sc_backend :: ban_backend

text \<open>What a ban slot holds besides its key; address bans have no permanent flag.\<close>

record callid_ban =
  cb_expire_at :: int
  cb_permanent :: bool

type_synonym ban_table = "int slot list"
type_synonym ban_callid_table = "callid_ban slot list"
type_synonym track_table = "int list slot list"

text \<open>Lines of the security log and commands given to the shell, in order.\<close>

datatype sec_event = SecLog string | SecCmd string

record security =
  g_cfg :: security_cfg
  g_bans :: ban_table
  g_callid_bans :: ban_callid_table
  g_fails :: track_table
  g_abuse :: track_table
  g_callid_fails :: track_table
  g_callid_abuse :: track_table
  g_rates :: track_table
  g_events :: "sec_event list"

definition security_cfg_defaults :: security_cfg where
  "security_cfg_defaults =
     \<lparr>sc_enabled = 1, sc_maxretry = SECURITY_MAXRETRY, sc_findtime_sec = SECURITY_FINDTIME_SEC,
      sc_bantime_sec = SECURITY_BANTIME_SEC, sc_abuse_maxretry = SECURITY_ABUSE_MAXRETRY,
      sc_abuse_findtime_sec = SECURITY_ABUSE_FINDTIME_SEC, sc_telnet = 1, sc_ssh = 1,
      sc_websocket = 1, sc_circuit = 1, sc_rate_limit = SECURITY_RATE_LIMIT,
      sc_rate_window_sec = SECURITY_RATE_WINDOW_SEC, sc_backend = BACKEND_INTERNAL\<rparr>"

definition parse_ban_backend :: "string option \<Rightarrow> ban_backend" where
  "parse_ban_backend v =
     (case v of None \<Rightarrow> BACKEND_INTERNAL
      | Some s \<Rightarrow>
          if s = [] then BACKEND_INTERNAL
          else if str_ieq s ''log'' then BACKEND_LOG
          else if str_ieq s ''iptables'' then BACKEND_IPTABLES
          else if str_ieq s ''nftables'' then BACKEND_NFTABLES
          else if str_ieq s ''hosts'' then BACKEND_HOSTS
          else BACKEND_INTERNAL)"

definition parse_uint_clamp :: "string option \<Rightarrow> nat \<Rightarrow> nat \<Rightarrow> nat" where
  "parse_uint_clamp v default_value max_value =
     (case v of None \<Rightarrow> default_value
      | Some s \<Rightarrow>
          if s = [] then default_value
          else case c_strtoul s of (n, rest) \<Rightarrow>
            if rest = s \<or> rest \<noteq> [] then default_value
            else if n > max_value then max_value else n)"

definition ip_valid :: "string \<Rightarrow> bool" where
  "ip_valid ip \<longleftrightarrow> ip \<noteq> [] \<and> ip \<noteq> ''?''"

section \<open>Call ids\<close>

fun callid_scan :: "nat \<Rightarrow> string \<Rightarrow> bool \<Rightarrow> string \<Rightarrow> (string \<times> bool) option" where
  "callid_scan out_cap out has_alpha [] = Some (out, has_alpha)"
| "callid_scan out_cap out has_alpha (ch # cs) =
     (if ch = CHR '' '' \<or> ch = CHR 0x09 then Some (out, has_alpha)
      else if length out + 1 \<ge> out_cap then None
      else if c_islower ch \<or> c_isupper ch then callid_scan out_cap (out @ [c_toupper ch]) True cs
      else if c_isdigit ch then callid_scan out_cap (out @ [ch]) has_alpha cs
      else if ch = CHR ''-'' \<or> ch = CHR ''_'' \<or> ch = CHR ''.''
      then callid_scan out_cap (out @ [ch]) has_alpha cs
      else None)"

text \<open>None when the call id is not valid.\<close>

definition callid_normalize :: "string \<Rightarrow> nat \<Rightarrow> string option" where
  "callid_normalize s out_cap =
     (if out_cap < 2 then None
      else case callid_scan out_cap [] False (dropWhile (\<lambda>c. c = CHR '' '' \<or> c = CHR 0x09) s) of
             None \<Rightarrow> None
           | Some (out, has_alpha) \<Rightarrow> if length out > 0 \<and> has_alpha then Some out else None)"

section \<open>Tracking\<close>

definition prune_stamps :: "nat \<Rightarrow> int \<Rightarrow> int list \<Rightarrow> int list" where
  "prune_stamps window now stamps = filter (\<lambda>s. now - s \<le> int window) stamps"

definition prune_slot :: "nat \<Rightarrow> int \<Rightarrow> int list slot \<Rightarrow> int list slot" where
  "prune_slot window now e =
     (let kept = prune_stamps window now (sl_val e)
      in if kept = [] then \<lparr>sl_key = [], sl_val = [], sl_active = False\<rparr> else e\<lparr>sl_val := kept\<rparr>)"

definition prune_window :: "nat \<Rightarrow> int \<Rightarrow> nat \<Rightarrow> track_table \<Rightarrow> track_table" where
  "prune_window window now i tbl = tbl[i := prune_slot window now (tbl ! i)]"

text \<open>A stamp into an array of \<open>arr\<close> elements of which the code uses \<open>lim\<close>.\<close>

definition push_stamp :: "nat \<Rightarrow> nat \<Rightarrow> int \<Rightarrow> int list \<Rightarrow> int list option" where
  "push_stamp arr lim now stamps =
     (if length stamps < lim
      then (if length stamps < arr then Some (stamps @ [now]) else None)
      else Some (tl stamps @ [now]))"

text \<open>
  The entry of a key, pruned and taken again when nothing was left of it; None when the table is
  full, with the table as it is then.
\<close>

definition track_entry :: "nat \<Rightarrow> nat \<Rightarrow> int \<Rightarrow> string \<Rightarrow> track_table \<Rightarrow> nat option \<times> track_table" where
  "track_entry cap window now key tbl =
     (case slot_find_or_alloc cap tbl key [] of
        None \<Rightarrow> (None, tbl)
      | Some (i, tbl1) \<Rightarrow>
          let tbl2 = prune_window window now i tbl1
          in if sl_active (tbl2 ! i) then (Some i, tbl2)
             else case slot_alloc cap tbl2 key [] of
               None \<Rightarrow> (None, tbl2)
             | Some (j, tbl3) \<Rightarrow> (Some j, tbl3))"

text \<open>Recording a failure or a report: the table and whether the key is to be banned.\<close>

definition track_note ::
    "nat \<Rightarrow> nat \<Rightarrow> nat \<Rightarrow> nat \<Rightarrow> nat \<Rightarrow> int \<Rightarrow> string \<Rightarrow> track_table \<Rightarrow> (track_table \<times> bool) option" where
  "track_note cap arr lim window maxretry now key tbl =
     (case track_entry cap window now key tbl of
        (None, tbl') \<Rightarrow> Some (tbl', False)
      | (Some i, tbl') \<Rightarrow>
          (case push_stamp arr lim now (sl_val (tbl' ! i)) of
             None \<Rightarrow> None
           | Some stamps \<Rightarrow>
               if length stamps \<ge> maxretry then Some (slot_clear i [] tbl', True)
               else Some (slot_set i stamps tbl', False)))"

definition record_rate :: "nat \<Rightarrow> int \<Rightarrow> string \<Rightarrow> track_table \<Rightarrow> track_table" where
  "record_rate window now ip tbl =
     (case track_entry REMOTE_ADDR_MAX window now ip tbl of
        (None, tbl') \<Rightarrow> tbl'
      | (Some i, tbl') \<Rightarrow>
          if length (sl_val (tbl' ! i)) < RATE_STAMPS
          then slot_set i (sl_val (tbl' ! i) @ [now]) tbl' else tbl')"

section \<open>Bans\<close>

text \<open>The reason is never NULL where the code calls these.\<close>

definition backend_apply :: "(string \<Rightarrow> int) \<Rightarrow> ban_backend \<Rightarrow> string \<Rightarrow> string \<Rightarrow> sec_event list" where
  "backend_apply sys backend ip reason =
     (let firewall = (\<lambda>name cmd.
            [SecCmd cmd,
             SecLog (if sys cmd \<noteq> 0 then ''ban_backend_fail ip='' @ ip @ '' backend='' @ name
                     else ''ban ip='' @ ip @ '' reason='' @ reason @ '' backend='' @ name)])
      in case backend of
        BACKEND_LOG \<Rightarrow> [SecLog (''ban ip='' @ ip @ '' reason='' @ reason @ '' backend=log'')]
      | BACKEND_IPTABLES \<Rightarrow> firewall ''iptables''
          (c_snprintf HYBBX_PATH_MAX (''iptables -I INPUT -s '' @ ip @ '' -j DROP 2>/dev/null''))
      | BACKEND_NFTABLES \<Rightarrow> firewall ''nftables''
          (c_snprintf HYBBX_PATH_MAX
             (''nft add rule inet filter input ip saddr '' @ ip @ '' drop 2>/dev/null''))
      | BACKEND_HOSTS \<Rightarrow>
          [SecLog (''ban ip='' @ ip @ '' reason='' @ reason @ '' backend=hosts (stub '' @ [CHR 0xE2, CHR 0x80, CHR 0x94] @ '' internal only)'')]
      | BACKEND_INTERNAL \<Rightarrow> [SecLog (''ban ip='' @ ip @ '' reason='' @ reason @ '' backend=internal'')])"

text \<open>A new slot is given its value at once, so it is allocated with it.\<close>

definition apply_ban_locked :: "(string \<Rightarrow> int) \<Rightarrow> string \<Rightarrow> string \<Rightarrow> int \<Rightarrow> security \<Rightarrow> security" where
  "apply_ban_locked sys ip reason now st =
     (let expire_at = now + int (sc_bantime_sec (g_cfg st)) in
      case slot_find_or_alloc REMOTE_ADDR_MAX (g_bans st) ip expire_at of
        None \<Rightarrow> st
      | Some (i, bans) \<Rightarrow>
          st\<lparr>g_bans := slot_set i expire_at bans,
             g_events := g_events st @ backend_apply sys (sc_backend (g_cfg st)) ip reason\<rparr>)"

definition apply_callid_ban_locked :: "string \<Rightarrow> string \<Rightarrow> int \<Rightarrow> bool \<Rightarrow> security \<Rightarrow> security" where
  "apply_callid_ban_locked callid reason now permanent st =
     (let ban = \<lparr>cb_expire_at = (if permanent then 0 else now + int (sc_bantime_sec (g_cfg st))),
                 cb_permanent = permanent\<rparr> in
      case slot_find_or_alloc CALLID_MAX (g_callid_bans st) callid ban of
        None \<Rightarrow> st
      | Some (i, bans) \<Rightarrow>
          st\<lparr>g_callid_bans := slot_set i ban bans,
             g_events := g_events st @
                [SecLog (''ban callid='' @ callid @ '' reason='' @ reason @ '' backend=internal'')]\<rparr>)"

definition abuse_reason :: "string \<Rightarrow> string" where
  "abuse_reason category = c_snprintf 64 (''abuse:'' @ (if category \<noteq> [] then category else ''flood''))"

definition record_failure_locked :: "(string \<Rightarrow> int) \<Rightarrow> string \<Rightarrow> int \<Rightarrow> security \<Rightarrow> security option" where
  "record_failure_locked sys ip now st =
     (case track_note REMOTE_ADDR_MAX SECURITY_MAXRETRY SECURITY_MAXRETRY (sc_findtime_sec (g_cfg st))
             (sc_maxretry (g_cfg st)) now ip (g_fails st) of
        None \<Rightarrow> None
      | Some (fails, ban) \<Rightarrow>
          let st' = st\<lparr>g_fails := fails\<rparr>
          in Some (if ban then apply_ban_locked sys ip ''login_fail'' now st' else st'))"

text \<open>The address table's entries have room for five stamps, the code counts up to thirty.\<close>

definition record_abuse_locked :: "(string \<Rightarrow> int) \<Rightarrow> string \<Rightarrow> string \<Rightarrow> int \<Rightarrow> security \<Rightarrow> security option" where
  "record_abuse_locked sys ip category now st =
     (case track_note REMOTE_ADDR_MAX SECURITY_MAXRETRY SECURITY_ABUSE_MAXRETRY
             (sc_abuse_findtime_sec (g_cfg st)) (sc_abuse_maxretry (g_cfg st)) now ip (g_abuse st) of
        None \<Rightarrow> None
      | Some (tbl, ban) \<Rightarrow>
          let st' = st\<lparr>g_abuse := tbl\<rparr>
          in Some (if ban then apply_ban_locked sys ip (abuse_reason category) now st' else st'))"

definition record_callid_failure_locked :: "string \<Rightarrow> int \<Rightarrow> security \<Rightarrow> security option" where
  "record_callid_failure_locked callid now st =
     (case track_note CALLID_MAX SECURITY_ABUSE_MAXRETRY SECURITY_MAXRETRY (sc_findtime_sec (g_cfg st))
             (sc_maxretry (g_cfg st)) now callid (g_callid_fails st) of
        None \<Rightarrow> None
      | Some (tbl, ban) \<Rightarrow>
          let st' = st\<lparr>g_callid_fails := tbl\<rparr>
          in Some (if ban then apply_callid_ban_locked callid ''link_auth_fail'' now False st' else st'))"

definition record_callid_abuse_locked :: "string \<Rightarrow> string \<Rightarrow> int \<Rightarrow> security \<Rightarrow> security option" where
  "record_callid_abuse_locked callid category now st =
     (case track_note CALLID_MAX SECURITY_ABUSE_MAXRETRY SECURITY_ABUSE_MAXRETRY
             (sc_abuse_findtime_sec (g_cfg st)) (sc_abuse_maxretry (g_cfg st)) now callid (g_callid_abuse st) of
        None \<Rightarrow> None
      | Some (tbl, ban) \<Rightarrow>
          let st' = st\<lparr>g_callid_abuse := tbl\<rparr>
          in Some (if ban then apply_callid_ban_locked callid (abuse_reason category) now False st' else st'))"

section \<open>The configuration\<close>

definition config_clear_permanent :: "ban_callid_table \<Rightarrow> ban_callid_table" where
  "config_clear_permanent tbl =
     map (\<lambda>e. if sl_active e \<and> cb_permanent (sl_val e)
              then \<lparr>sl_key = [], sl_val = (sl_val e)\<lparr>cb_permanent := False\<rparr>, sl_active = False\<rparr>
              else e) tbl"

text \<open>The tokens of \<^verbatim>\<open>strtok_r\<close> are the non-empty pieces between commas.\<close>

definition config_load_callid_bans :: "string option \<Rightarrow> int \<Rightarrow> security \<Rightarrow> security" where
  "config_load_callid_bans list now st =
     (case list of None \<Rightarrow> st
      | Some l \<Rightarrow>
          if l = [] then st
          else fold (\<lambda>token st.
                 case callid_normalize (dropWhile (\<lambda>c. c = CHR '' '' \<or> c = CHR 0x09) token) CALLID_MAX of
                   None \<Rightarrow> st
                 | Some norm \<Rightarrow> apply_callid_ban_locked norm ''config'' now True st)
               (filter (\<lambda>t. t \<noteq> []) (split_on (CHR '','') (snd (hybbx_strlcpy [] (Some l) HYBBX_PATH_MAX)))) st)"

definition config_flag :: "config \<Rightarrow> string \<Rightarrow> int \<Rightarrow> int" where
  "config_flag config key d =
     (case hybbx_config_get config ''security'' key None of
        None \<Rightarrow> d | Some v \<Rightarrow> hybbx_parse_bool (Some v) d)"

definition config_number :: "config \<Rightarrow> string \<Rightarrow> nat \<Rightarrow> nat \<Rightarrow> nat" where
  "config_number config key d mx =
     parse_uint_clamp (hybbx_config_get config ''security'' key None) d mx"

definition security_cfg_read :: "config \<Rightarrow> security_cfg \<Rightarrow> security_cfg" where
  "security_cfg_read config d =
     \<lparr>sc_enabled = config_flag config ''enabled'' (sc_enabled d),
      sc_maxretry = max 1 (config_number config ''maxretry'' (sc_maxretry d) 100),
      sc_findtime_sec = config_number config ''findtime'' (sc_findtime_sec d) 86400,
      sc_bantime_sec = config_number config ''bantime'' (sc_bantime_sec d) 86400,
      sc_abuse_maxretry = max 1 (config_number config ''abuse_maxretry'' (sc_abuse_maxretry d) 1000),
      sc_abuse_findtime_sec = config_number config ''abuse_findtime'' (sc_abuse_findtime_sec d) 86400,
      sc_telnet = config_flag config ''telnet'' (sc_telnet d),
      sc_ssh = config_flag config ''ssh'' (sc_ssh d),
      sc_websocket = config_flag config ''websocket'' (sc_websocket d),
      sc_circuit = config_flag config ''circuit'' (sc_circuit d),
      sc_rate_limit = config_number config ''rate_limit'' (sc_rate_limit d) 10000,
      sc_rate_window_sec = config_number config ''rate_window'' (sc_rate_window_sec d) 3600,
      sc_backend = parse_ban_backend (hybbx_config_get config ''security'' ''ban_backend'' None)\<rparr>"

definition security_ban_config_apply :: "config option \<Rightarrow> int \<Rightarrow> security \<Rightarrow> security" where
  "security_ban_config_apply config now st =
     (let st1 = st\<lparr>g_cfg := security_cfg_defaults\<rparr>
      in case config of None \<Rightarrow> st1
         | Some c \<Rightarrow>
             config_load_callid_bans (hybbx_config_get c ''security'' ''ban_callid'' None) now
               (st1\<lparr>g_cfg := security_cfg_read c security_cfg_defaults,
                    g_callid_bans := config_clear_permanent (g_callid_bans st1)\<rparr>))"

definition empty_slots :: "nat \<Rightarrow> 'v \<Rightarrow> 'v slot list" where
  "empty_slots n v = replicate n \<lparr>sl_key = [], sl_val = v, sl_active = False\<rparr>"

text \<open>Shutting down zeroes the tables; the log file is not the model's business.\<close>

definition security_ban_shutdown :: "security \<Rightarrow> security" where
  "security_ban_shutdown st =
     \<lparr>g_cfg = security_cfg_defaults, g_bans = empty_slots SECURITY_BAN_MAX 0,
      g_callid_bans = empty_slots SECURITY_BAN_MAX \<lparr>cb_expire_at = 0, cb_permanent = False\<rparr>,
      g_fails = empty_slots SECURITY_TRACK_MAX [], g_abuse = empty_slots SECURITY_TRACK_MAX [],
      g_callid_fails = empty_slots SECURITY_TRACK_MAX [],
      g_callid_abuse = empty_slots SECURITY_TRACK_MAX [],
      g_rates = empty_slots SECURITY_TRACK_MAX [], g_events = g_events st\<rparr>"

section \<open>The service tick\<close>

definition ban_expired :: "int \<Rightarrow> int slot \<Rightarrow> bool" where
  "ban_expired now e \<longleftrightarrow> sl_active e \<and> now \<ge> sl_val e"

definition callid_ban_expired :: "int \<Rightarrow> callid_ban slot \<Rightarrow> bool" where
  "callid_ban_expired now e \<longleftrightarrow> sl_active e \<and> \<not> cb_permanent (sl_val e) \<and> cb_expire_at (sl_val e) > 0
     \<and> now \<ge> cb_expire_at (sl_val e)"

definition tick_prune :: "nat \<Rightarrow> int \<Rightarrow> track_table \<Rightarrow> track_table" where
  "tick_prune window now tbl = map (\<lambda>e. if sl_active e then prune_slot window now e else e) tbl"

definition tick_events :: "int \<Rightarrow> security \<Rightarrow> nat \<Rightarrow> sec_event list" where
  "tick_events now st i =
     (if ban_expired now (g_bans st ! i) then [SecLog (''unban ip='' @ sl_key (g_bans st ! i))] else [])
     @ (if callid_ban_expired now (g_callid_bans st ! i)
        then [SecLog (''unban callid='' @ sl_key (g_callid_bans st ! i))] else [])"

definition security_ban_tick :: "int \<Rightarrow> security \<Rightarrow> security" where
  "security_ban_tick now st =
     (let cfg = g_cfg st
      in if sc_enabled cfg = 0 then st
         else st\<lparr>g_bans := map (\<lambda>e. if ban_expired now e
                                      then \<lparr>sl_key = [], sl_val = sl_val e, sl_active = False\<rparr> else e) (g_bans st),
                 g_callid_bans := map (\<lambda>e. if callid_ban_expired now e
                     then \<lparr>sl_key = [], sl_val = (sl_val e)\<lparr>cb_permanent := False\<rparr>, sl_active = False\<rparr>
                     else e) (g_callid_bans st),
                 g_fails := tick_prune (sc_findtime_sec cfg) now (g_fails st),
                 g_abuse := tick_prune (sc_abuse_findtime_sec cfg) now (g_abuse st),
                 g_callid_fails := tick_prune (sc_findtime_sec cfg) now (g_callid_fails st),
                 g_callid_abuse := tick_prune (sc_abuse_findtime_sec cfg) now (g_callid_abuse st),
                 g_rates := tick_prune (sc_rate_window_sec cfg) now (g_rates st),
                 g_events := g_events st @ concat (map (tick_events now st) [0..<SECURITY_BAN_MAX])\<rparr>)"

section \<open>The public operations\<close>

text \<open>Looking an address up drops a ban that is over.\<close>

definition ban_check :: "int \<Rightarrow> string \<Rightarrow> ban_table \<Rightarrow> bool \<times> ban_table" where
  "ban_check now ip bans =
     (case slot_find bans ip of None \<Rightarrow> (False, bans)
      | Some i \<Rightarrow> if now < sl_val (bans ! i) then (True, bans) else (False, slot_drop id bans ip))"

definition security_ban_is_banned :: "int \<Rightarrow> string \<Rightarrow> security \<Rightarrow> bool \<times> security" where
  "security_ban_is_banned now ip st =
     (if sc_enabled (g_cfg st) = 0 \<or> \<not> ip_valid ip then (False, st)
      else case ban_check now ip (g_bans st) of (banned, bans) \<Rightarrow> (banned, st\<lparr>g_bans := bans\<rparr>))"

definition security_ban_accept :: "(string \<Rightarrow> int) \<Rightarrow> int \<Rightarrow> string \<Rightarrow> security \<Rightarrow> bool \<times> security" where
  "security_ban_accept sys now ip st =
     (let cfg = g_cfg st in
      if sc_enabled cfg = 0 \<or> \<not> ip_valid ip then (True, st)
      else case ban_check now ip (g_bans st) of (banned, bans) \<Rightarrow>
        let st1 = st\<lparr>g_bans := bans\<rparr> in
        if banned then (False, st1)
        else if sc_rate_limit cfg > 0 \<and> sc_rate_window_sec cfg > 0 then
          (let entry = slot_find (g_rates st1) ip;
               rates = (case entry of None \<Rightarrow> g_rates st1
                        | Some i \<Rightarrow> prune_window (sc_rate_window_sec cfg) now i (g_rates st1));
               st2 = st1\<lparr>g_rates := rates\<rparr>
           in case entry of
                Some i \<Rightarrow>
                  if sl_active (rates ! i) \<and> length (sl_val (rates ! i)) \<ge> sc_rate_limit cfg
                  then (False, apply_ban_locked sys ip ''rate_limit'' now st2)
                  else (True, st2\<lparr>g_rates := record_rate (sc_rate_window_sec cfg) now ip rates\<rparr>)
              | None \<Rightarrow> (True, st2\<lparr>g_rates := record_rate (sc_rate_window_sec cfg) now ip rates\<rparr>))
        else (True, st1))"

text \<open>The peer's address is None when the descriptor is negative or has no peer name.\<close>

definition security_ban_accept_fd :: "(string \<Rightarrow> int) \<Rightarrow> int \<Rightarrow> string option \<Rightarrow> security \<Rightarrow> bool \<times> security" where
  "security_ban_accept_fd sys now peer st =
     (case peer of None \<Rightarrow> (True, st) | Some ip \<Rightarrow> security_ban_accept sys now ip st)"

definition transport_enabled :: "string \<Rightarrow> security_cfg \<Rightarrow> bool" where
  "transport_enabled transport cfg =
     (if sc_enabled cfg = 0 \<or> transport = [] then False
      else if transport = ''telnet'' then sc_telnet cfg \<noteq> 0
      else if transport = ''ssh'' then sc_ssh cfg \<noteq> 0
      else if transport = ''websocket'' then sc_websocket cfg \<noteq> 0
      else if transport = ''circuit'' then sc_circuit cfg \<noteq> 0
      else True)"

definition security_ban_login_fail ::
    "(string \<Rightarrow> int) \<Rightarrow> int \<Rightarrow> string \<Rightarrow> string \<Rightarrow> security \<Rightarrow> security option" where
  "security_ban_login_fail sys now ip transport st =
     (if sc_enabled (g_cfg st) = 0 \<or> \<not> ip_valid ip \<or> \<not> transport_enabled transport (g_cfg st) then Some st
      else record_failure_locked sys ip now st)"

definition security_ban_link_auth_fail :: "(string \<Rightarrow> int) \<Rightarrow> int \<Rightarrow> string \<Rightarrow> security \<Rightarrow> security option" where
  "security_ban_link_auth_fail sys now ip st =
     (if sc_enabled (g_cfg st) = 0 \<or> \<not> ip_valid ip \<or> sc_circuit (g_cfg st) = 0 then Some st
      else record_failure_locked sys ip now st)"

definition security_ban_abuse_report ::
    "(string \<Rightarrow> int) \<Rightarrow> int \<Rightarrow> string \<Rightarrow> string \<Rightarrow> security \<Rightarrow> security option" where
  "security_ban_abuse_report sys now ip category st =
     (if sc_enabled (g_cfg st) = 0 \<or> \<not> ip_valid ip then Some st
      else record_abuse_locked sys ip category now st)"

definition callid_is_banned_locked :: "int \<Rightarrow> string \<Rightarrow> ban_callid_table \<Rightarrow> bool \<times> ban_callid_table" where
  "callid_is_banned_locked now callid tbl =
     (case slot_find tbl callid of None \<Rightarrow> (False, tbl)
      | Some i \<Rightarrow>
          if cb_permanent (sl_val (tbl ! i)) then (True, tbl)
          else if now < cb_expire_at (sl_val (tbl ! i)) then (True, tbl)
          else (False, slot_drop (\<lambda>b. b\<lparr>cb_permanent := False\<rparr>) tbl callid))"

definition security_ban_callid_is_banned :: "int \<Rightarrow> string \<Rightarrow> security \<Rightarrow> bool \<times> security" where
  "security_ban_callid_is_banned now callid st =
     (if sc_enabled (g_cfg st) = 0 then (False, st)
      else case callid_normalize callid CALLID_MAX of None \<Rightarrow> (False, st)
         | Some norm \<Rightarrow>
             (case callid_is_banned_locked now norm (g_callid_bans st) of (banned, tbl) \<Rightarrow>
                (banned, st\<lparr>g_callid_bans := tbl\<rparr>)))"

definition security_ban_callid_accept :: "int \<Rightarrow> string \<Rightarrow> security \<Rightarrow> bool \<times> security" where
  "security_ban_callid_accept now callid st =
     (case security_ban_callid_is_banned now callid st of (banned, st') \<Rightarrow> (\<not> banned, st'))"

definition security_ban_link_auth_fail_callid :: "int \<Rightarrow> string \<Rightarrow> security \<Rightarrow> security option" where
  "security_ban_link_auth_fail_callid now callid st =
     (if sc_enabled (g_cfg st) = 0 \<or> sc_circuit (g_cfg st) = 0 then Some st
      else case callid_normalize callid CALLID_MAX of None \<Rightarrow> Some st
         | Some norm \<Rightarrow> record_callid_failure_locked norm now st)"

definition security_ban_callid_abuse_report :: "int \<Rightarrow> string \<Rightarrow> string \<Rightarrow> security \<Rightarrow> security option" where
  "security_ban_callid_abuse_report now callid category st =
     (if sc_enabled (g_cfg st) = 0 then Some st
      else case callid_normalize callid CALLID_MAX of None \<Rightarrow> Some st
         | Some norm \<Rightarrow> record_callid_abuse_locked norm category now st)"

section \<open>Tracking, as an update of the map\<close>

definition tracked :: "track_table \<Rightarrow> string \<Rightarrow> int list" where
  "tracked tbl key = (case slot_look tbl key of Some s \<Rightarrow> s | None \<Rightarrow> [])"

definition has_entry :: "'v slot list \<Rightarrow> string \<Rightarrow> bool" where
  "has_entry tbl key \<longleftrightarrow> slot_free tbl \<or> slot_look tbl key \<noteq> None"

lemma prune_window_eq:
  assumes "slots_ok cap tbl" and "slot_find tbl key = Some i"
  shows "prune_window w now i tbl =
     (let kept = prune_stamps w now (sl_val (tbl ! i)) in if kept = [] then slot_clear i [] tbl else slot_set i kept tbl)"
  by (simp add: prune_window_def prune_slot_def slot_clear_def slot_set_def Let_def)

lemma slot_free_clear: "i < length tbl \<Longrightarrow> slot_free (slot_clear i v tbl)"
  by (auto simp: slot_free_def slot_clear_def list_ex_iff set_update_memI
      intro!: bexI [of _ "\<lparr>sl_key = [], sl_val = v, sl_active = False\<rparr>"])

lemma track_entry_full:
  "\<not> has_entry tbl key \<Longrightarrow> track_entry cap w now key tbl = (None, tbl)"
  using slot_find_or_alloc_None_iff [of cap tbl key "[]"]
  by (simp add: track_entry_def has_entry_def slot_look_None_iff)

lemma track_entry_spec:
  assumes ok: "slots_ok cap tbl" and key: "length key < cap" and room: "has_entry tbl key"
    and kept: "kept = prune_stamps w now (tracked tbl key)"
  shows "\<exists>i t'. track_entry cap w now key tbl = (Some i, t') \<and> slots_ok cap t' \<and> length t' = length tbl
     \<and> slot_find t' key = Some i \<and> slot_look t' = (slot_look tbl)(key \<mapsto> kept) \<and> sl_val (t' ! i) = kept"
proof -
  from room obtain i t1 where t1: "slot_find_or_alloc cap tbl key [] = Some (i, t1)"
    using slot_find_or_alloc_None_iff [of cap tbl key "[]"]
    by (auto simp: has_entry_def slot_look_None_iff)
  note f = slot_find_or_alloc_ok [OF ok key t1]
  then have ok1: "slots_ok cap t1" and i: "slot_find t1 key = Some i" and v: "sl_val (t1 ! i) = tracked tbl key"
    and look1: "slot_look t1 = (slot_look tbl)(key \<mapsto> tracked tbl key)" and len: "length t1 = length tbl"
    by (auto simp: tracked_def)
  have il: "i < length t1" "sl_active (t1 ! i)" using i ok1 slot_find_Some_iff by blast+
  show ?thesis
  proof (cases "kept = []")
    case False
    then have t2: "prune_window w now i t1 = slot_set i kept t1"
      using prune_window_eq [OF ok1 i] by (simp add: kept v Let_def)
    have "slot_find (slot_set i kept t1) key = Some i"
      using i il by (simp add: slot_find_Some_iff [OF ok1] slot_find_Some_iff [OF slots_ok_set [OF ok1]])
        (simp add: slot_set_def)
    then show ?thesis
      using t1 t2 il slots_ok_set [OF ok1, of i kept] slot_look_set [OF ok1 i, of kept] look1 len
      by (simp add: track_entry_def) (simp add: slot_set_def)
  next
    case True
    then have t2: "prune_window w now i t1 = slot_clear i [] t1"
      using prune_window_eq [OF ok1 i] by (simp add: kept v)
    have ok2: "slots_ok cap (slot_clear i [] t1)" by (rule slots_ok_clear [OF ok1])
    have gone: "slot_look (slot_clear i [] t1) = (slot_look t1)(key := None)" by (rule slot_look_clear [OF ok1 i])
    then have none: "slot_find (slot_clear i [] t1) key = None" by (simp add: slot_look_None_iff [symmetric])
    obtain j t3 where t3: "slot_alloc cap (slot_clear i [] t1) key [] = Some (j, t3)"
      using slot_free_clear [OF il(1), of "[]"] slot_alloc_None_iff [of cap "slot_clear i [] t1" key "[]"] by auto
    note al = slot_alloc_ok [OF ok2 none key t3]
    have "\<not> sl_active (slot_clear i [] t1 ! i)" using il by (simp add: slot_clear_def)
    then have "track_entry cap w now key tbl = (Some j, t3)"
      using t1 t2 t3 by (simp add: track_entry_def)
    then show ?thesis using al gone look1 len True by simp
  qed
qed

lemma track_note_full:
  "\<not> has_entry tbl key \<Longrightarrow> track_note cap arr lim w mx now key tbl = Some (tbl, False)"
  by (simp add: track_note_def track_entry_full)

lemma track_note_spec:
  assumes "slots_ok cap tbl" and "length key < cap" and "has_entry tbl key"
  shows "case push_stamp arr lim now (prune_stamps w now (tracked tbl key)) of
       None \<Rightarrow> track_note cap arr lim w mx now key tbl = None
     | Some s \<Rightarrow> \<exists>t'. track_note cap arr lim w mx now key tbl = Some (t', length s \<ge> mx)
         \<and> slots_ok cap t' \<and> length t' = length tbl
         \<and> slot_look t' = (slot_look tbl)(key := if length s \<ge> mx then None else Some s)"
proof -
  obtain i t1 where t1: "track_entry cap w now key tbl = (Some i, t1)" "slots_ok cap t1" "length t1 = length tbl"
     "slot_find t1 key = Some i" "slot_look t1 = (slot_look tbl)(key \<mapsto> prune_stamps w now (tracked tbl key))"
     "sl_val (t1 ! i) = prune_stamps w now (tracked tbl key)"
    using track_entry_spec [OF assms refl] by blast
  show ?thesis
    using t1 slot_look_set [OF t1(2,4)] slot_look_clear [OF t1(2,4)]
    by (auto simp: track_note_def slots_ok_set slots_ok_clear split: option.split)
qed

lemma record_rate_full: "\<not> has_entry tbl key \<Longrightarrow> record_rate w now key tbl = tbl"
  by (simp add: record_rate_def track_entry_full)

lemma record_rate_spec:
  assumes "slots_ok REMOTE_ADDR_MAX tbl" and "length key < REMOTE_ADDR_MAX" and "has_entry tbl key"
    and "kept = prune_stamps w now (tracked tbl key)"
  shows "slots_ok REMOTE_ADDR_MAX (record_rate w now key tbl) \<and> length (record_rate w now key tbl) = length tbl
     \<and> slot_look (record_rate w now key tbl)
         = (slot_look tbl)(key \<mapsto> if length kept < RATE_STAMPS then kept @ [now] else kept)"
proof -
  obtain i t1 where t1: "track_entry REMOTE_ADDR_MAX w now key tbl = (Some i, t1)" "slots_ok REMOTE_ADDR_MAX t1"
     "length t1 = length tbl" "slot_find t1 key = Some i" "slot_look t1 = (slot_look tbl)(key \<mapsto> kept)"
     "sl_val (t1 ! i) = kept"
    using track_entry_spec [OF assms] by blast
  show ?thesis
    using t1 slot_look_set [OF t1(2,4)] by (simp add: record_rate_def slots_ok_set)
qed

section \<open>The operations on the tables, as updates of their maps\<close>

lemma has_entry_find: "has_entry tbl key \<longleftrightarrow> slot_find_or_alloc cap tbl key v \<noteq> None"
  by (auto simp: has_entry_def slot_find_or_alloc_None_iff slot_look_None_iff)

lemma apply_ban_locked_eq:
  "apply_ban_locked sys ip reason now st =
     (if has_entry (g_bans st) ip
      then st\<lparr>g_bans := slot_enter REMOTE_ADDR_MAX (g_bans st) ip (now + int (sc_bantime_sec (g_cfg st))),
              g_events := g_events st @ backend_apply sys (sc_backend (g_cfg st)) ip reason\<rparr>
      else st)"
  using has_entry_find [of "g_bans st" ip REMOTE_ADDR_MAX "now + int (sc_bantime_sec (g_cfg st))"]
  by (auto simp: apply_ban_locked_def slot_enter_def Let_def split: option.split)

lemma apply_callid_ban_locked_eq:
  "apply_callid_ban_locked callid reason now permanent st =
     (if has_entry (g_callid_bans st) callid
      then st\<lparr>g_callid_bans := slot_enter CALLID_MAX (g_callid_bans st) callid
                \<lparr>cb_expire_at = (if permanent then 0 else now + int (sc_bantime_sec (g_cfg st))),
                 cb_permanent = permanent\<rparr>,
              g_events := g_events st @
                [SecLog (''ban callid='' @ callid @ '' reason='' @ reason @ '' backend=internal'')]\<rparr>
      else st)"
  using has_entry_find [of "g_callid_bans st" callid CALLID_MAX
      "\<lparr>cb_expire_at = (if permanent then 0 else now + int (sc_bantime_sec (g_cfg st))),
        cb_permanent = permanent\<rparr>"]
  by (auto simp: apply_callid_ban_locked_def slot_enter_def Let_def split: option.split)

definition ip_key :: "string \<Rightarrow> bool" where "ip_key ip \<longleftrightarrow> length ip < REMOTE_ADDR_MAX"

definition table_ok :: "nat \<Rightarrow> nat \<Rightarrow> 'v slot list \<Rightarrow> bool" where
  "table_ok cap n tbl \<longleftrightarrow> slots_ok cap tbl \<and> length tbl = n"

definition stamps_in :: "nat \<Rightarrow> track_table \<Rightarrow> bool" where
  "stamps_in n tbl \<longleftrightarrow> (\<forall>key s. slot_look tbl key = Some s \<longrightarrow> s \<noteq> [] \<and> length s \<le> n)"

text \<open>
  Every table has its size and at most one active entry per key, every key fits its array with the
  terminator, every active tracking entry has a stamp and no more than the array's room, and the
  thresholds are positive.
\<close>

definition sec_inv :: "security \<Rightarrow> bool" where
  "sec_inv st \<longleftrightarrow>
     table_ok REMOTE_ADDR_MAX SECURITY_BAN_MAX (g_bans st)
     \<and> table_ok CALLID_MAX SECURITY_BAN_MAX (g_callid_bans st)
     \<and> table_ok REMOTE_ADDR_MAX SECURITY_TRACK_MAX (g_fails st) \<and> stamps_in SECURITY_MAXRETRY (g_fails st)
     \<and> table_ok REMOTE_ADDR_MAX SECURITY_TRACK_MAX (g_abuse st) \<and> stamps_in SECURITY_MAXRETRY (g_abuse st)
     \<and> table_ok CALLID_MAX SECURITY_TRACK_MAX (g_callid_fails st) \<and> stamps_in SECURITY_MAXRETRY (g_callid_fails st)
     \<and> table_ok CALLID_MAX SECURITY_TRACK_MAX (g_callid_abuse st)
     \<and> stamps_in SECURITY_ABUSE_MAXRETRY (g_callid_abuse st)
     \<and> table_ok REMOTE_ADDR_MAX SECURITY_TRACK_MAX (g_rates st) \<and> stamps_in RATE_STAMPS (g_rates st)
     \<and> 1 \<le> sc_maxretry (g_cfg st) \<and> 1 \<le> sc_abuse_maxretry (g_cfg st)"

lemma table_ok_enter [intro]:
  "table_ok cap n tbl \<Longrightarrow> length key < cap \<Longrightarrow> table_ok cap n (slot_enter cap tbl key v)"
  by (simp add: table_ok_def slots.enter_ok)

lemma table_ok_drop [intro]:
  "table_ok cap n tbl \<Longrightarrow> length key < cap \<Longrightarrow> table_ok cap n (slot_drop f tbl key)"
  by (simp add: table_ok_def slots.drop_ok)

lemma prune_stamps_length: "length (prune_stamps w now s) \<le> length s"
  by (simp add: prune_stamps_def)

lemma push_stamp_bounds:
  "push_stamp arr lim now s = Some s' \<Longrightarrow> length s \<le> n \<Longrightarrow> arr \<le> n \<Longrightarrow> 0 < n \<Longrightarrow>
   s' \<noteq> [] \<and> length s' \<le> n"
  by (cases s) (auto simp: push_stamp_def split: if_splits)

lemma tracked_length: "stamps_in n tbl \<Longrightarrow> length (tracked tbl key) \<le> n"
  by (auto simp: tracked_def stamps_in_def split: option.split)

text \<open>Recording keeps a tracking table well formed and touches one key only.\<close>

lemma track_note_ok:
  assumes "table_ok cap n tbl" and "stamps_in m tbl" and "length key < cap"
    and "arr \<le> m" and "0 < m"
    and "track_note cap arr lim w mx now key tbl = Some (tbl', ban)"
  shows "table_ok cap n tbl'" and "stamps_in m tbl'"
    and "key' \<noteq> key \<Longrightarrow> slot_look tbl' key' = slot_look tbl key'"
proof -
  have ok: "slots_ok cap tbl" using assms(1) by (simp add: table_ok_def)
  have "table_ok cap n tbl' \<and> stamps_in m tbl' \<and> (key' \<noteq> key \<longrightarrow> slot_look tbl' key' = slot_look tbl key')"
  proof (cases "has_entry tbl key")
    case False
    with assms show ?thesis by (simp add: track_note_full)
  next
    case True
    let ?s = "prune_stamps w now (tracked tbl key)"
    note sp = track_note_spec [OF ok assms(3) True, where arr = arr and lim = lim and now = now and w = w and mx = mx]
    have ps: "length ?s \<le> m"
      using prune_stamps_length [of w now "tracked tbl key"] tracked_length [OF assms(2), of key] by simp
    obtain s where s: "push_stamp arr lim now ?s = Some s" "slots_ok cap tbl'" "length tbl' = length tbl"
      "slot_look tbl' = (slot_look tbl)(key := if length s \<ge> mx then None else Some s)"
      using sp assms(6) by (auto split: option.splits)
    have "s \<noteq> [] \<and> length s \<le> m" by (rule push_stamp_bounds [OF s(1) ps assms(4,5)])
    then show ?thesis using s assms(1,2) by (auto simp: table_ok_def stamps_in_def)
  qed
  then show "table_ok cap n tbl'" and "stamps_in m tbl'"
    and "key' \<noteq> key \<Longrightarrow> slot_look tbl' key' = slot_look tbl key'" by blast+
qed

lemma track_note_defined:
  assumes "table_ok cap n tbl" and "length key < cap" and "lim \<le> arr"
  shows "track_note cap arr lim w mx now key tbl \<noteq> None"
proof (cases "has_entry tbl key")
  case True
  then show ?thesis
    using track_note_spec [OF _ assms(2) True, where arr = arr and lim = lim and now = now and w = w and mx = mx] assms(1,3)
    by (auto simp: table_ok_def push_stamp_def split: option.splits if_splits)
qed (simp add: track_note_full)

lemma record_rate_ok:
  assumes "table_ok REMOTE_ADDR_MAX n tbl" and "stamps_in RATE_STAMPS tbl" and "ip_key ip"
  shows "table_ok REMOTE_ADDR_MAX n (record_rate w now ip tbl)" and "stamps_in RATE_STAMPS (record_rate w now ip tbl)"
    and "key' \<noteq> ip \<Longrightarrow> slot_look (record_rate w now ip tbl) key' = slot_look tbl key'"
proof -
  let ?t = "record_rate w now ip tbl"
  have "table_ok REMOTE_ADDR_MAX n ?t \<and> stamps_in RATE_STAMPS ?t \<and> (key' \<noteq> ip \<longrightarrow> slot_look ?t key' = slot_look tbl key')"
  proof (cases "has_entry tbl ip")
    case False
    with assms show ?thesis by (simp add: record_rate_full)
  next
    case True
    let ?kept = "prune_stamps w now (tracked tbl ip)"
    have sp: "slots_ok REMOTE_ADDR_MAX ?t" "length ?t = length tbl"
      "slot_look ?t = (slot_look tbl)(ip \<mapsto> if length ?kept < RATE_STAMPS then ?kept @ [now] else ?kept)"
      using record_rate_spec [OF _ _ True refl, where w = w and now = now] assms(1,3) by (auto simp: table_ok_def ip_key_def)
    have "length ?kept \<le> RATE_STAMPS"
      using prune_stamps_length [of w now "tracked tbl ip"] tracked_length [OF assms(2), of ip] by simp
    then have "(if length ?kept < RATE_STAMPS then ?kept @ [now] else ?kept) \<noteq> []
        \<and> length (if length ?kept < RATE_STAMPS then ?kept @ [now] else ?kept) \<le> RATE_STAMPS"
      by (auto simp: RATE_STAMPS_def)
    then show ?thesis using sp assms(1,2) by (auto simp: table_ok_def stamps_in_def)
  qed
  then show "table_ok REMOTE_ADDR_MAX n ?t" and "stamps_in RATE_STAMPS ?t"
    and "key' \<noteq> ip \<Longrightarrow> slot_look ?t key' = slot_look tbl key'" by blast+
qed

section \<open>Call ids, normalised\<close>

lemma callid_scan_length:
  "callid_scan cap out al cs = Some (out', al') \<Longrightarrow> length out < cap \<Longrightarrow> length out' < cap"
  by (induction cap out al cs rule: callid_scan.induct) (auto split: if_splits)

lemma callid_normalize_length: "callid_normalize s cap = Some out \<Longrightarrow> length out < cap"
  by (auto simp: callid_normalize_def split: if_splits option.splits dest!: callid_scan_length)

section \<open>The invariant\<close>

lemma sec_inv_apply_ban:
  "sec_inv st \<Longrightarrow> ip_key ip \<Longrightarrow> sec_inv (apply_ban_locked sys ip reason now st)"
  by (auto simp: apply_ban_locked_eq sec_inv_def ip_key_def)

lemma sec_inv_apply_callid_ban:
  "sec_inv st \<Longrightarrow> length callid < CALLID_MAX \<Longrightarrow> sec_inv (apply_callid_ban_locked callid reason now perm st)"
  by (auto simp: apply_callid_ban_locked_eq sec_inv_def)

lemma sec_inv_record_failure:
  assumes "sec_inv st" and "ip_key ip"
  shows "record_failure_locked sys ip now st \<noteq> None"
    and "record_failure_locked sys ip now st = Some st' \<Longrightarrow> sec_inv st'"
proof -
  have t: "table_ok REMOTE_ADDR_MAX SECURITY_TRACK_MAX (g_fails st)" "stamps_in SECURITY_MAXRETRY (g_fails st)"
    using assms(1) by (auto simp: sec_inv_def)
  obtain tbl ban where n: "track_note REMOTE_ADDR_MAX SECURITY_MAXRETRY SECURITY_MAXRETRY
      (sc_findtime_sec (g_cfg st)) (sc_maxretry (g_cfg st)) now ip (g_fails st) = Some (tbl, ban)"
    using track_note_defined [OF t(1) assms(2) [unfolded ip_key_def] order_refl] by fastforce
  have "sec_inv (st\<lparr>g_fails := tbl\<rparr>)"
    using assms(1) track_note_ok(1,2) [OF t assms(2) [unfolded ip_key_def] order_refl _ n]
    by (simp add: sec_inv_def security_consts)
  then show "record_failure_locked sys ip now st \<noteq> None"
    and "record_failure_locked sys ip now st = Some st' \<Longrightarrow> sec_inv st'"
    using n sec_inv_apply_ban [OF _ assms(2)] by (auto simp: record_failure_locked_def Let_def)
qed

lemma sec_inv_record_abuse:
  assumes "sec_inv st" and "ip_key ip" and "record_abuse_locked sys ip category now st = Some st'"
  shows "sec_inv st'"
proof -
  have t: "table_ok REMOTE_ADDR_MAX SECURITY_TRACK_MAX (g_abuse st)" "stamps_in SECURITY_MAXRETRY (g_abuse st)"
    using assms(1) by (auto simp: sec_inv_def)
  obtain tbl ban where n: "track_note REMOTE_ADDR_MAX SECURITY_MAXRETRY SECURITY_ABUSE_MAXRETRY
      (sc_abuse_findtime_sec (g_cfg st)) (sc_abuse_maxretry (g_cfg st)) now ip (g_abuse st) = Some (tbl, ban)"
    using assms(3) by (auto simp: record_abuse_locked_def split: option.splits)
  have "sec_inv (st\<lparr>g_abuse := tbl\<rparr>)"
    using assms(1) track_note_ok(1,2) [OF t assms(2) [unfolded ip_key_def] order_refl _ n]
    by (simp add: sec_inv_def security_consts)
  then show ?thesis
    using n assms(3) sec_inv_apply_ban [OF _ assms(2)] by (auto simp: record_abuse_locked_def Let_def)
qed

lemma push_stamp_room: "lim \<le> arr \<Longrightarrow> push_stamp arr lim = push_stamp lim lim"
  by (intro ext) (simp add: push_stamp_def)

lemma sec_inv_record_callid_failure:
  assumes "sec_inv st" and "length callid < CALLID_MAX"
  shows "record_callid_failure_locked callid now st \<noteq> None"
    and "record_callid_failure_locked callid now st = Some st' \<Longrightarrow> sec_inv st'"
proof -
  have t: "table_ok CALLID_MAX SECURITY_TRACK_MAX (g_callid_fails st)" "stamps_in SECURITY_MAXRETRY (g_callid_fails st)"
    using assms(1) by (auto simp: sec_inv_def)
  have le: "SECURITY_MAXRETRY \<le> SECURITY_ABUSE_MAXRETRY" by (simp add: security_consts)
  obtain tbl ban where n: "track_note CALLID_MAX SECURITY_ABUSE_MAXRETRY SECURITY_MAXRETRY
      (sc_findtime_sec (g_cfg st)) (sc_maxretry (g_cfg st)) now callid (g_callid_fails st) = Some (tbl, ban)"
    using track_note_defined [OF t(1) assms(2) le] by fastforce
  have "track_note CALLID_MAX SECURITY_MAXRETRY SECURITY_MAXRETRY
      (sc_findtime_sec (g_cfg st)) (sc_maxretry (g_cfg st)) now callid (g_callid_fails st) = Some (tbl, ban)"
    using n unfolding track_note_def push_stamp_room [OF le] .
  then have "sec_inv (st\<lparr>g_callid_fails := tbl\<rparr>)"
    using assms(1) track_note_ok(1,2) [OF t assms(2) order_refl] by (simp add: sec_inv_def security_consts)
  then show "record_callid_failure_locked callid now st \<noteq> None"
    and "record_callid_failure_locked callid now st = Some st' \<Longrightarrow> sec_inv st'"
    using n sec_inv_apply_callid_ban [OF _ assms(2)] by (auto simp: record_callid_failure_locked_def Let_def)
qed

lemma sec_inv_record_callid_abuse:
  assumes "sec_inv st" and "length callid < CALLID_MAX"
  shows "record_callid_abuse_locked callid category now st \<noteq> None"
    and "record_callid_abuse_locked callid category now st = Some st' \<Longrightarrow> sec_inv st'"
proof -
  have t: "table_ok CALLID_MAX SECURITY_TRACK_MAX (g_callid_abuse st)" "stamps_in SECURITY_ABUSE_MAXRETRY (g_callid_abuse st)"
    using assms(1) by (auto simp: sec_inv_def)
  obtain tbl ban where n: "track_note CALLID_MAX SECURITY_ABUSE_MAXRETRY SECURITY_ABUSE_MAXRETRY
      (sc_abuse_findtime_sec (g_cfg st)) (sc_abuse_maxretry (g_cfg st)) now callid (g_callid_abuse st) = Some (tbl, ban)"
    using track_note_defined [OF t(1) assms(2) order_refl] by fastforce
  have "sec_inv (st\<lparr>g_callid_abuse := tbl\<rparr>)"
    using assms(1) track_note_ok(1,2) [OF t assms(2) order_refl _ n] by (simp add: sec_inv_def security_consts)
  then show "record_callid_abuse_locked callid category now st \<noteq> None"
    and "record_callid_abuse_locked callid category now st = Some st' \<Longrightarrow> sec_inv st'"
    using n sec_inv_apply_callid_ban [OF _ assms(2)] by (auto simp: record_callid_abuse_locked_def Let_def)
qed

lemma slot_look_tick_prune:
  assumes "slots_ok cap tbl"
  shows "slot_look (tick_prune w now tbl) key = Option.bind (slot_look tbl key)
     (\<lambda>s. if prune_stamps w now s = [] then None else Some (prune_stamps w now s))"
  unfolding tick_prune_def
  by (rule slot_look_map [OF assms]) (auto simp: prune_slot_def Let_def split: if_splits)

lemma tick_prune_ok:
  assumes "table_ok cap n tbl" and "stamps_in m tbl"
  shows "table_ok cap n (tick_prune w now tbl)" and "stamps_in m (tick_prune w now tbl)"
proof -
  have ok: "slots_ok cap tbl" using assms(1) by (simp add: table_ok_def)
  have "slots_ok cap (tick_prune w now tbl)"
    unfolding tick_prune_def by (rule slots_ok_map [OF ok]) (auto simp: prune_slot_def Let_def split: if_splits)
  then show "table_ok cap n (tick_prune w now tbl)" using assms(1) by (simp add: table_ok_def tick_prune_def)
  show "stamps_in m (tick_prune w now tbl)"
    using assms(2) unfolding stamps_in_def slot_look_tick_prune [OF ok]
    by (auto simp: Option.bind_eq_Some_conv intro: le_trans [OF prune_stamps_length] split: if_splits)
qed

lemma sec_inv_tick: "sec_inv st \<Longrightarrow> sec_inv (security_ban_tick now st)"
proof -
  assume inv: "sec_inv st"
  have b: "slots_ok REMOTE_ADDR_MAX (map (\<lambda>e. if ban_expired now e
        then \<lparr>sl_key = [], sl_val = sl_val e, sl_active = False\<rparr> else e) (g_bans st))"
    by (rule slots_ok_map) (use inv in \<open>auto simp: sec_inv_def table_ok_def split: if_splits\<close>)
  have c: "slots_ok CALLID_MAX (map (\<lambda>e. if callid_ban_expired now e
        then \<lparr>sl_key = [], sl_val = (sl_val e)\<lparr>cb_permanent := False\<rparr>, sl_active = False\<rparr>
        else e) (g_callid_bans st))"
    by (rule slots_ok_map) (use inv in \<open>auto simp: sec_inv_def table_ok_def split: if_splits\<close>)
  show ?thesis
    using inv b c by (auto simp: security_ban_tick_def sec_inv_def Let_def tick_prune_ok table_ok_def [of _ SECURITY_BAN_MAX])
qed

lemma sec_inv_config: "sec_inv st \<Longrightarrow> sec_inv (security_ban_config_apply config now st)"
proof -
  assume inv: "sec_inv st"
  have load: "sec_inv st' \<Longrightarrow> sec_inv (config_load_callid_bans l now st')" for l st'
  proof -
    assume "sec_inv st'"
    then have "sec_inv (fold (\<lambda>token st.
                 case callid_normalize (dropWhile (\<lambda>c. c = CHR '' '' \<or> c = CHR 0x09) token) CALLID_MAX of
                   None \<Rightarrow> st
                 | Some norm \<Rightarrow> apply_callid_ban_locked norm ''config'' now True st) ts st')" for ts
      by (induction ts arbitrary: st') (auto intro: sec_inv_apply_callid_ban callid_normalize_length split: option.split)
    with \<open>sec_inv st'\<close> show ?thesis by (auto simp: config_load_callid_bans_def split: option.split)
  qed
  have clear: "slots_ok CALLID_MAX (config_clear_permanent (g_callid_bans st))"
    unfolding config_clear_permanent_def
    by (rule slots_ok_map) (use inv in \<open>auto simp: sec_inv_def table_ok_def split: if_splits\<close>)
  have len: "length (config_clear_permanent (g_callid_bans st)) = length (g_callid_bans st)"
    by (simp add: config_clear_permanent_def)
  show ?thesis
  proof (cases config)
    case None
    with inv show ?thesis
      by (auto simp: security_ban_config_apply_def sec_inv_def security_cfg_defaults_def security_consts)
  next
    case (Some c)
    have "sec_inv (st\<lparr>g_cfg := security_cfg_read c security_cfg_defaults,
          g_callid_bans := config_clear_permanent (g_callid_bans st)\<rparr>)"
      using inv clear len by (auto simp: sec_inv_def security_cfg_read_def table_ok_def)
    from load [OF this] Some show ?thesis by (simp add: security_ban_config_apply_def)
  qed
qed

lemma sec_inv_shutdown: "sec_inv (security_ban_shutdown st)"
  by (simp add: sec_inv_def security_ban_shutdown_def table_ok_def stamps_in_def empty_slots_def
      security_cfg_defaults_def security_consts)

lemma ban_check_ok:
  "table_ok REMOTE_ADDR_MAX n bans \<Longrightarrow> ip_key ip \<Longrightarrow> ban_check now ip bans = (b, bans') \<Longrightarrow>
   table_ok REMOTE_ADDR_MAX n bans'"
  by (auto simp: ban_check_def ip_key_def split: option.splits if_splits)

lemma prune_window_ok:
  assumes "table_ok cap n tbl" and "stamps_in m tbl" and "slot_find tbl key = Some i"
  shows "table_ok cap n (prune_window w now i tbl)" and "stamps_in m (prune_window w now i tbl)"
    and "slot_look (prune_window w now i tbl) = (slot_look tbl)
           (key := if prune_stamps w now (tracked tbl key) = [] then None else Some (prune_stamps w now (tracked tbl key)))"
proof -
  have ok: "slots_ok cap tbl" using assms(1) by (simp add: table_ok_def)
  have t: "tracked tbl key = sl_val (tbl ! i)" using assms(3) by (simp add: tracked_def slot_look_def)
  note eq = prune_window_eq [OF ok assms(3), of w now, folded t]
  show "table_ok cap n (prune_window w now i tbl)"
    using assms(1) ok by (simp add: eq table_ok_def slots_ok_set slots_ok_clear Let_def)
  show look: "slot_look (prune_window w now i tbl) = (slot_look tbl)
           (key := if prune_stamps w now (tracked tbl key) = [] then None else Some (prune_stamps w now (tracked tbl key)))"
    using slot_look_set [OF ok assms(3)] slot_look_clear [OF ok assms(3)] by (simp add: eq Let_def)
  show "stamps_in m (prune_window w now i tbl)"
    using assms(2) tracked_length [OF assms(2), of key] prune_stamps_length [of w now "tracked tbl key"]
    by (auto simp: stamps_in_def look)
qed

section \<open>Runs\<close>

datatype sec_op =
    OpConfig "config option" | OpShutdown | OpSecTick | OpIsBanned string | OpAccept string
  | OpLoginFail string string | OpLinkFail string | OpAbuse string string
  | OpCallidIsBanned string | OpCallidFail string | OpCallidAbuse string string

fun sec_step :: "(string \<Rightarrow> int) \<Rightarrow> int \<times> sec_op \<Rightarrow> security \<Rightarrow> security option" where
  "sec_step sys (now, OpConfig c) st = Some (security_ban_config_apply c now st)"
| "sec_step sys (now, OpShutdown) st = Some (security_ban_shutdown st)"
| "sec_step sys (now, OpSecTick) st = Some (security_ban_tick now st)"
| "sec_step sys (now, OpIsBanned ip) st = Some (snd (security_ban_is_banned now ip st))"
| "sec_step sys (now, OpAccept ip) st = Some (snd (security_ban_accept sys now ip st))"
| "sec_step sys (now, OpLoginFail ip transport) st = security_ban_login_fail sys now ip transport st"
| "sec_step sys (now, OpLinkFail ip) st = security_ban_link_auth_fail sys now ip st"
| "sec_step sys (now, OpAbuse ip category) st = security_ban_abuse_report sys now ip category st"
| "sec_step sys (now, OpCallidIsBanned c) st = Some (snd (security_ban_callid_is_banned now c st))"
| "sec_step sys (now, OpCallidFail c) st = security_ban_link_auth_fail_callid now c st"
| "sec_step sys (now, OpCallidAbuse c category) st = security_ban_callid_abuse_report now c category st"

fun sec_run :: "(string \<Rightarrow> int) \<Rightarrow> (int \<times> sec_op) list \<Rightarrow> security \<Rightarrow> security option" where
  "sec_run sys [] st = Some st"
| "sec_run sys (o1 # ops) st = (case sec_step sys o1 st of None \<Rightarrow> None | Some st' \<Rightarrow> sec_run sys ops st')"

text \<open>The address an operation is about, and whether it fits the tables' key arrays.\<close>

fun op_address :: "sec_op \<Rightarrow> string option" where
  "op_address (OpIsBanned ip) = Some ip"
| "op_address (OpAccept ip) = Some ip"
| "op_address (OpLoginFail ip transport) = Some ip"
| "op_address (OpLinkFail ip) = Some ip"
| "op_address (OpAbuse ip category) = Some ip"
| "op_address _ = None"

definition op_fits :: "int \<times> sec_op \<Rightarrow> bool" where
  "op_fits o1 = (case op_address (snd o1) of None \<Rightarrow> True | Some ip \<Rightarrow> ip_key ip)"

fun is_abuse :: "int \<times> sec_op \<Rightarrow> bool" where
  "is_abuse (now, OpAbuse ip category) = True"
| "is_abuse _ = False"

text \<open>An accepted connection, step by step: the rate entry is pruned, then the limit decides.\<close>

lemma accept_eq:
  assumes "sec_inv st" and "sc_enabled (g_cfg st) \<noteq> 0" and "ip_valid ip" and "ip_key ip"
    and "ban_check now ip (g_bans st) = (False, bans)"
    and "sc_rate_limit (g_cfg st) > 0" and "sc_rate_window_sec (g_cfg st) > 0"
    and "kept = prune_stamps (sc_rate_window_sec (g_cfg st)) now (tracked (g_rates st) ip)"
  shows "\<exists>rates. table_ok REMOTE_ADDR_MAX SECURITY_TRACK_MAX rates \<and> stamps_in RATE_STAMPS rates
     \<and> (\<forall>k. k \<noteq> ip \<longrightarrow> slot_look rates k = slot_look (g_rates st) k) \<and> tracked rates ip = kept
     \<and> (slot_free (g_rates st) \<or> slot_look (g_rates st) ip \<noteq> None \<longrightarrow> has_entry rates ip)
     \<and> security_ban_accept sys now ip st =
         (if kept \<noteq> [] \<and> sc_rate_limit (g_cfg st) \<le> length kept
          then (False, apply_ban_locked sys ip ''rate_limit'' now (st\<lparr>g_bans := bans, g_rates := rates\<rparr>))
          else (True, st\<lparr>g_bans := bans,
                         g_rates := record_rate (sc_rate_window_sec (g_cfg st)) now ip rates\<rparr>))"
proof (cases "slot_find (g_rates st) ip")
  case None
  then have "slot_look (g_rates st) ip = None" by (simp add: slot_look_def)
  with assms None show ?thesis
    by (intro exI [of _ "g_rates st"])
      (simp add: security_ban_accept_def Let_def sec_inv_def tracked_def prune_stamps_def has_entry_def)
next
  case (Some i)
  let ?w = "sc_rate_window_sec (g_cfg st)"
  let ?r = "prune_window ?w now i (g_rates st)"
  have t: "table_ok REMOTE_ADDR_MAX SECURITY_TRACK_MAX (g_rates st)" "stamps_in RATE_STAMPS (g_rates st)"
    using assms(1) by (auto simp: sec_inv_def)
  note pw = prune_window_ok [OF t Some, of ?w now, folded assms(8)]
  have ok: "slots_ok REMOTE_ADDR_MAX (g_rates st)" using t(1) by (simp add: table_ok_def)
  have il: "i < length (g_rates st)" "sl_active (g_rates st ! i)"
    using Some by (simp_all add: slot_find_Some_iff [OF ok])
  have val: "tracked (g_rates st) ip = sl_val (g_rates st ! i)"
    using Some by (simp add: tracked_def slot_look_def)
  have act: "sl_active (?r ! i) \<longleftrightarrow> kept \<noteq> []" and len: "kept \<noteq> [] \<Longrightarrow> sl_val (?r ! i) = kept"
    using il assms(8) val by (auto simp: prune_window_def prune_slot_def Let_def)
  have tr: "tracked ?r ip = kept" by (simp add: tracked_def pw(3))
  have he: "has_entry ?r ip"
    using slot_free_clear [OF il(1), of "[]"] prune_window_eq [OF ok Some, of ?w now] pw(3) assms(8) val
    by (cases "kept = []") (auto simp: has_entry_def Let_def)
  show ?thesis
    using assms(2-7) Some pw act len tr he
    by (intro exI [of _ ?r]) (auto simp: security_ban_accept_def Let_def)
qed

lemma sec_inv_accept:
  assumes "sec_inv st" and "ip_key ip"
  shows "sec_inv (snd (security_ban_accept sys now ip st))"
proof -
  obtain b bans where bc: "ban_check now ip (g_bans st) = (b, bans)" by fastforce
  have tb: "table_ok REMOTE_ADDR_MAX SECURITY_BAN_MAX bans"
    using ban_check_ok [OF _ assms(2) bc] assms(1) by (simp add: sec_inv_def)
  then have st1: "sec_inv (st\<lparr>g_bans := bans\<rparr>)" using assms(1) by (simp add: sec_inv_def)
  show ?thesis
  proof (cases "sc_enabled (g_cfg st) \<noteq> 0 \<and> ip_valid ip \<and> \<not> b \<and> sc_rate_limit (g_cfg st) > 0
      \<and> sc_rate_window_sec (g_cfg st) > 0")
    case True
    then obtain rates where r: "table_ok REMOTE_ADDR_MAX SECURITY_TRACK_MAX rates" "stamps_in RATE_STAMPS rates"
      "security_ban_accept sys now ip st =
         (if prune_stamps (sc_rate_window_sec (g_cfg st)) now (tracked (g_rates st) ip) \<noteq> []
             \<and> sc_rate_limit (g_cfg st) \<le> length (prune_stamps (sc_rate_window_sec (g_cfg st)) now (tracked (g_rates st) ip))
          then (False, apply_ban_locked sys ip ''rate_limit'' now (st\<lparr>g_bans := bans, g_rates := rates\<rparr>))
          else (True, st\<lparr>g_bans := bans,
                         g_rates := record_rate (sc_rate_window_sec (g_cfg st)) now ip rates\<rparr>))"
      using accept_eq [OF assms(1) _ _ assms(2) _ _ _ refl, of now bans sys] bc by auto
    have "sec_inv (st\<lparr>g_bans := bans, g_rates := rates\<rparr>)" using st1 r(1,2) by (simp add: sec_inv_def)
    moreover have "sec_inv (st\<lparr>g_bans := bans, g_rates := record_rate (sc_rate_window_sec (g_cfg st)) now ip rates\<rparr>)"
      using st1 record_rate_ok(1,2) [OF r(1,2) assms(2)] by (simp add: sec_inv_def)
    ultimately show ?thesis using r(3) sec_inv_apply_ban [OF _ assms(2)] by simp
  next
    case False
    then show ?thesis using assms(1) st1 bc by (auto simp: security_ban_accept_def Let_def)
  qed
qed

lemma sec_inv_callid_is_banned: "sec_inv st \<Longrightarrow> sec_inv (snd (security_ban_callid_is_banned now c st))"
  by (auto simp: security_ban_callid_is_banned_def callid_is_banned_locked_def sec_inv_def
      intro: callid_normalize_length split: option.split prod.split if_splits)

lemma sec_inv_is_banned: "sec_inv st \<Longrightarrow> ip_key ip \<Longrightarrow> sec_inv (snd (security_ban_is_banned now ip st))"
  using ban_check_ok [of SECURITY_BAN_MAX "g_bans st" ip now]
  by (auto simp: security_ban_is_banned_def sec_inv_def split: prod.split)

lemma sec_step_inv:
  assumes "sec_inv st" and "op_fits o1"
  shows "sec_step sys o1 st = Some st' \<Longrightarrow> sec_inv st'" and "\<not> is_abuse o1 \<Longrightarrow> sec_step sys o1 st \<noteq> None"
proof -
  obtain now op where o1: "o1 = (now, op)" by fastforce
  have "(\<forall>st'. sec_step sys o1 st = Some st' \<longrightarrow> sec_inv st') \<and> (\<not> is_abuse o1 \<longrightarrow> sec_step sys o1 st \<noteq> None)"
  proof (cases op)
    case (OpLoginFail ip transport)
    then show ?thesis
      using assms sec_inv_record_failure [OF assms(1), of ip sys now]
      by (auto simp: o1 op_fits_def security_ban_login_fail_def split: if_splits)
  next
    case (OpLinkFail ip)
    then show ?thesis
      using assms sec_inv_record_failure [OF assms(1), of ip sys now]
      by (auto simp: o1 op_fits_def security_ban_link_auth_fail_def split: if_splits)
  next
    case (OpAbuse ip category)
    then show ?thesis
      using assms sec_inv_record_abuse [OF assms(1), of ip sys category now]
      by (auto simp: o1 op_fits_def security_ban_abuse_report_def split: if_splits)
  next
    case (OpCallidFail c)
    then show ?thesis
      using assms sec_inv_record_callid_failure [OF assms(1) callid_normalize_length, of c _ now]
      by (auto simp: o1 security_ban_link_auth_fail_callid_def split: if_splits option.splits)
  next
    case (OpCallidAbuse c category)
    then show ?thesis
      using assms sec_inv_record_callid_abuse [OF assms(1) callid_normalize_length, of c _ category now]
      by (auto simp: o1 security_ban_callid_abuse_report_def split: if_splits option.splits)
  qed (use assms in \<open>auto simp: o1 op_fits_def sec_inv_config sec_inv_shutdown sec_inv_tick sec_inv_is_banned
        sec_inv_accept sec_inv_callid_is_banned\<close>)
  then show "sec_step sys o1 st = Some st' \<Longrightarrow> sec_inv st'" and "\<not> is_abuse o1 \<Longrightarrow> sec_step sys o1 st \<noteq> None"
    by blast+
qed

lemma sec_run_inv:
  "sec_inv st \<Longrightarrow> \<forall>o1 \<in> set ops. op_fits o1 \<Longrightarrow>
   (\<forall>st'. sec_run sys ops st = Some st' \<longrightarrow> sec_inv st')
   \<and> ((\<forall>o1 \<in> set ops. \<not> is_abuse o1) \<longrightarrow> sec_run sys ops st \<noteq> None)"
proof (induction ops arbitrary: st)
  case (Cons o1 ops)
  have fits: "op_fits o1" using Cons.prems(2) by simp
  note one = sec_step_inv [OF Cons.prems(1) fits, of sys]
  show ?case
  proof (cases "sec_step sys o1 st")
    case None
    with one show ?thesis by auto
  next
    case (Some st1)
    with one Cons show ?thesis by simp
  qed
qed simp

section \<open>Properties\<close>

definition security_start :: security where
  "security_start = security_ban_shutdown
     \<lparr>g_cfg = security_cfg_defaults, g_bans = [], g_callid_bans = [], g_fails = [], g_abuse = [],
      g_callid_fails = [], g_callid_abuse = [], g_rates = [], g_events = []\<rparr>"

lemma security_start_inv: "sec_inv security_start"
  by (simp add: security_start_def sec_inv_shutdown)

text \<open>
  C6. The ban tables stay well formed: from the zeroed tables, over any sequence of configurations,
  ticks, gates, failures and reports, with addresses that fit the key arrays and any clock readings,
  every table keeps its size and has at most one active entry per key, every key and every stamp fits
  its array and the thresholds stay positive; and no operation but an address's abuse report ever
  writes outside an array.
\<close>

theorem security_tables_invariant:
  assumes "\<forall>o1 \<in> set ops. op_fits o1"
  shows "(\<forall>st'. sec_run sys ops security_start = Some st' \<longrightarrow> sec_inv st')
     \<and> ((\<forall>o1 \<in> set ops. \<not> is_abuse o1) \<longrightarrow> sec_run sys ops security_start \<noteq> None)"
  by (rule sec_run_inv [OF security_start_inv assms])

theorem security_tables_invariant_witness:
  "sec_run (\<lambda>_. 0) [(1, OpLoginFail ''10.0.0.1'' ''ssh''), (2, OpAccept ''10.0.0.1''), (3, OpSecTick)] security_start \<noteq> None"
  using security_tables_invariant [of "[(1, OpLoginFail ''10.0.0.1'' ''ssh''), (2, OpAccept ''10.0.0.1''), (3, OpSecTick)]" "\<lambda>_. 0"]
  by (simp add: op_fits_def ip_key_def REMOTE_ADDR_MAX_def)

text \<open>Whether an address is banned at a time, and what the tables hold on it.\<close>

definition ip_banned :: "security \<Rightarrow> int \<Rightarrow> string \<Rightarrow> bool" where
  "ip_banned st now ip = (case slot_look (g_bans st) ip of None \<Rightarrow> False | Some e \<Rightarrow> now < e)"

lemma is_banned_result:
  assumes "sec_inv st"
  shows "fst (security_ban_is_banned now ip st) \<longleftrightarrow> sc_enabled (g_cfg st) \<noteq> 0 \<and> ip_valid ip \<and> ip_banned st now ip"
  by (auto simp: security_ban_is_banned_def ban_check_def ip_banned_def slot_look_def split: option.splits prod.splits if_splits)

definition ip_record :: "security \<Rightarrow> string \<Rightarrow> int option \<times> int list option \<times> int list option \<times> int list option" where
  "ip_record st ip = (slot_look (g_bans st) ip, slot_look (g_fails st) ip, slot_look (g_abuse st) ip,
     slot_look (g_rates st) ip)"

lemma ip_record_apply_ban:
  "sec_inv st \<Longrightarrow> ip_key ip \<Longrightarrow> b \<noteq> ip \<Longrightarrow> ip_record (apply_ban_locked sys ip reason now st) b = ip_record st b"
  by (simp add: ip_record_def apply_ban_locked_eq sec_inv_def table_ok_def slots.enter_other ip_key_def)

lemma ban_check_other:
  "slots_ok REMOTE_ADDR_MAX bans \<Longrightarrow> ip_key ip \<Longrightarrow> ban_check now ip bans = (x, bans') \<Longrightarrow> b \<noteq> ip \<Longrightarrow>
   slot_look bans' b = slot_look bans b"
  by (auto simp: ban_check_def ip_key_def slots.drop_other split: option.splits if_splits)

lemma ip_record_failure:
  assumes "sec_inv st" and "ip_key ip" and "b \<noteq> ip" and "record_failure_locked sys ip now st = Some st'"
  shows "ip_record st' b = ip_record st b"
proof -
  have t: "table_ok REMOTE_ADDR_MAX SECURITY_TRACK_MAX (g_fails st)" "stamps_in SECURITY_MAXRETRY (g_fails st)"
    using assms(1) by (auto simp: sec_inv_def)
  obtain tbl ban where n: "track_note REMOTE_ADDR_MAX SECURITY_MAXRETRY SECURITY_MAXRETRY
      (sc_findtime_sec (g_cfg st)) (sc_maxretry (g_cfg st)) now ip (g_fails st) = Some (tbl, ban)"
    and st': "st' = (if ban then apply_ban_locked sys ip ''login_fail'' now (st\<lparr>g_fails := tbl\<rparr>) else st\<lparr>g_fails := tbl\<rparr>)"
    using assms(4) by (auto simp: record_failure_locked_def Let_def split: option.splits)
  note tn = track_note_ok [OF t assms(2) [unfolded ip_key_def] order_refl _ n]
  have inv: "sec_inv (st\<lparr>g_fails := tbl\<rparr>)" and same: "ip_record (st\<lparr>g_fails := tbl\<rparr>) b = ip_record st b"
    using assms(1,3) tn by (simp_all add: sec_inv_def ip_record_def security_consts)
  show ?thesis using ip_record_apply_ban [OF inv assms(2,3)] same by (simp add: st')
qed

lemma ip_record_abuse:
  assumes "sec_inv st" and "ip_key ip" and "b \<noteq> ip" and "record_abuse_locked sys ip category now st = Some st'"
  shows "ip_record st' b = ip_record st b"
proof -
  have t: "table_ok REMOTE_ADDR_MAX SECURITY_TRACK_MAX (g_abuse st)" "stamps_in SECURITY_MAXRETRY (g_abuse st)"
    using assms(1) by (auto simp: sec_inv_def)
  obtain tbl ban where n: "track_note REMOTE_ADDR_MAX SECURITY_MAXRETRY SECURITY_ABUSE_MAXRETRY
      (sc_abuse_findtime_sec (g_cfg st)) (sc_abuse_maxretry (g_cfg st)) now ip (g_abuse st) = Some (tbl, ban)"
    and st': "st' = (if ban then apply_ban_locked sys ip (abuse_reason category) now (st\<lparr>g_abuse := tbl\<rparr>) else st\<lparr>g_abuse := tbl\<rparr>)"
    using assms(4) by (auto simp: record_abuse_locked_def Let_def split: option.splits)
  note tn = track_note_ok [OF t assms(2) [unfolded ip_key_def] order_refl _ n]
  have inv: "sec_inv (st\<lparr>g_abuse := tbl\<rparr>)" and same: "ip_record (st\<lparr>g_abuse := tbl\<rparr>) b = ip_record st b"
    using assms(1,3) tn by (simp_all add: sec_inv_def ip_record_def security_consts)
  show ?thesis using ip_record_apply_ban [OF inv assms(2,3)] same by (simp add: st')
qed

lemma ip_record_accept:
  assumes "sec_inv st" and "ip_key ip" and "b \<noteq> ip"
  shows "ip_record (snd (security_ban_accept sys now ip st)) b = ip_record st b"
proof -
  obtain x bans where bc: "ban_check now ip (g_bans st) = (x, bans)" by fastforce
  have tb: "table_ok REMOTE_ADDR_MAX SECURITY_BAN_MAX bans" "slot_look bans b = slot_look (g_bans st) b"
    using ban_check_ok [OF _ assms(2) bc] ban_check_other [OF _ assms(2) bc assms(3)] assms(1)
    by (auto simp: sec_inv_def table_ok_def)
  show ?thesis
  proof (cases "sc_enabled (g_cfg st) \<noteq> 0 \<and> ip_valid ip \<and> \<not> x \<and> sc_rate_limit (g_cfg st) > 0
      \<and> sc_rate_window_sec (g_cfg st) > 0")
    case True
    then obtain rates where r: "table_ok REMOTE_ADDR_MAX SECURITY_TRACK_MAX rates" "stamps_in RATE_STAMPS rates"
      "slot_look rates b = slot_look (g_rates st) b"
      "security_ban_accept sys now ip st =
         (if prune_stamps (sc_rate_window_sec (g_cfg st)) now (tracked (g_rates st) ip) \<noteq> []
             \<and> sc_rate_limit (g_cfg st) \<le> length (prune_stamps (sc_rate_window_sec (g_cfg st)) now (tracked (g_rates st) ip))
          then (False, apply_ban_locked sys ip ''rate_limit'' now (st\<lparr>g_bans := bans, g_rates := rates\<rparr>))
          else (True, st\<lparr>g_bans := bans,
                         g_rates := record_rate (sc_rate_window_sec (g_cfg st)) now ip rates\<rparr>))"
      using accept_eq [OF assms(1) _ _ assms(2) _ _ _ refl, of now bans sys] bc assms(3) by auto
    have inv: "sec_inv (st\<lparr>g_bans := bans, g_rates := rates\<rparr>)" using assms(1) tb r(1,2) by (simp add: sec_inv_def)
    show ?thesis
      using r(3,4) tb(2) ip_record_apply_ban [OF inv assms(2,3)] record_rate_ok(3) [OF r(1,2) assms(2,3)]
      by (simp add: ip_record_def)
  next
    case False
    then show ?thesis using tb bc by (auto simp: security_ban_accept_def Let_def ip_record_def)
  qed
qed

text \<open>
  C15. Addresses do not affect each other: an operation on one address, whatever its outcome, leaves
  what the tables hold on every other address as it was, its ban, its failures, its reports and its
  connection rate, and so whether it is banned at any time.
\<close>

theorem security_ban_isolation:
  assumes "sec_inv st" and "op_address op = Some ip" and "ip_key ip" and "b \<noteq> ip"
    and "sec_step sys (now, op) st = Some st'"
  shows "ip_record st' b = ip_record st b \<and> ip_banned st' t b = ip_banned st t b"
proof -
  have "ip_record st' b = ip_record st b"
  proof (cases op)
    case (OpIsBanned ip')
    obtain x bans where bc: "ban_check now ip (g_bans st) = (x, bans)" by fastforce
    have "slot_look bans b = slot_look (g_bans st) b"
      using ban_check_other [OF _ assms(3) bc assms(4)] assms(1) by (simp add: sec_inv_def table_ok_def)
    then show ?thesis
      using OpIsBanned assms(2,5) bc
      by (auto simp: security_ban_is_banned_def ip_record_def split: if_splits)
  next
    case (OpAccept ip')
    then show ?thesis using ip_record_accept [OF assms(1,3,4), of sys now] assms(2,5) by simp
  next
    case (OpLoginFail ip' transport)
    then show ?thesis
      using ip_record_failure [OF assms(1,3,4), of sys now st'] assms(2,5)
      by (auto simp: security_ban_login_fail_def split: if_splits)
  next
    case (OpLinkFail ip')
    then show ?thesis
      using ip_record_failure [OF assms(1,3,4), of sys now st'] assms(2,5)
      by (auto simp: security_ban_link_auth_fail_def split: if_splits)
  next
    case (OpAbuse ip' category)
    then show ?thesis
      using ip_record_abuse [OF assms(1,3,4), of sys category now st'] assms(2,5)
      by (auto simp: security_ban_abuse_report_def split: if_splits)
  qed (use assms(2) in simp_all)
  then show ?thesis by (simp add: ip_record_def ip_banned_def)
qed

theorem security_ban_isolation_witness:
  "\<exists>st'. sec_step (\<lambda>_. 0) (5, OpAccept ''10.0.0.1'') security_start = Some st'
     \<and> ip_record st' ''10.0.0.2'' = ip_record security_start ''10.0.0.2''"
  using security_ban_isolation [OF security_start_inv, of "OpAccept ''10.0.0.1''" "''10.0.0.1''" "''10.0.0.2''" "\<lambda>_. 0" 5]
  by (simp add: ip_key_def REMOTE_ADDR_MAX_def)

lemma sec_run_append:
  "sec_run sys (xs @ ys) st = (case sec_run sys xs st of None \<Rightarrow> None | Some st' \<Rightarrow> sec_run sys ys st')"
  by (induction xs arbitrary: st) (auto split: option.split)

lemma record_failure_spec:
  assumes "sec_inv st" and "ip_key ip" and "has_entry (g_fails st) ip"
    and "kept = prune_stamps (sc_findtime_sec (g_cfg st)) now (tracked (g_fails st) ip)"
    and "stamps = (if length kept < SECURITY_MAXRETRY then kept @ [now] else tl kept @ [now])"
  shows "\<exists>fails. table_ok REMOTE_ADDR_MAX SECURITY_TRACK_MAX fails
     \<and> slot_look fails = (slot_look (g_fails st))(ip := if sc_maxretry (g_cfg st) \<le> length stamps then None else Some stamps)
     \<and> record_failure_locked sys ip now st
         = Some (if sc_maxretry (g_cfg st) \<le> length stamps
                 then apply_ban_locked sys ip ''login_fail'' now (st\<lparr>g_fails := fails\<rparr>) else st\<lparr>g_fails := fails\<rparr>)"
proof -
  have t: "table_ok REMOTE_ADDR_MAX SECURITY_TRACK_MAX (g_fails st)" and ok: "slots_ok REMOTE_ADDR_MAX (g_fails st)"
    using assms(1) by (auto simp: sec_inv_def table_ok_def)
  have push: "push_stamp SECURITY_MAXRETRY SECURITY_MAXRETRY now kept = Some stamps"
    by (simp add: push_stamp_def assms(5))
  show ?thesis
    using track_note_spec [OF ok assms(2) [unfolded ip_key_def] assms(3), where arr = SECURITY_MAXRETRY
        and lim = SECURITY_MAXRETRY and now = now and w = "sc_findtime_sec (g_cfg st)" and mx = "sc_maxretry (g_cfg st)"]
      t push
    by (auto simp: assms(4) [symmetric] record_failure_locked_def Let_def table_ok_def)
qed

lemma prune_all: "(\<And>s. s \<in> set ss \<Longrightarrow> now - s \<le> int w) \<Longrightarrow> prune_stamps w now ss = ss"
  by (simp add: prune_stamps_def filter_id_conv)

lemma login_failures_below:
  assumes "sec_inv st" and "sc_enabled (g_cfg st) \<noteq> 0" and "ip_valid ip" and "ip_key ip"
    and "transport_enabled transport (g_cfg st)" and "tracked (g_fails st) ip = []"
    and "has_entry (g_fails st) ip" and "sc_maxretry (g_cfg st) \<le> SECURITY_MAXRETRY"
  shows "sorted ts \<Longrightarrow> (\<forall>t \<in> set ts. t - hd ts \<le> int (sc_findtime_sec (g_cfg st))) \<Longrightarrow>
    length ts < sc_maxretry (g_cfg st) \<Longrightarrow>
    \<exists>st'. sec_run sys (map (\<lambda>t. (t, OpLoginFail ip transport)) ts) st = Some st' \<and> sec_inv st'
      \<and> g_cfg st' = g_cfg st \<and> g_bans st' = g_bans st \<and> tracked (g_fails st') ip = ts
      \<and> has_entry (g_fails st') ip"
proof (induction ts rule: rev_induct)
  case Nil
  then show ?case using assms by auto
next
  case (snoc t ts)
  have win: "\<forall>s \<in> set ts. s - hd ts \<le> int (sc_findtime_sec (g_cfg st))"
    using snoc.prems(2) by (cases ts) auto
  with snoc obtain st1 where st1: "sec_run sys (map (\<lambda>t. (t, OpLoginFail ip transport)) ts) st = Some st1" "sec_inv st1"
    "g_cfg st1 = g_cfg st" "g_bans st1 = g_bans st" "tracked (g_fails st1) ip = ts" "has_entry (g_fails st1) ip"
    by (auto simp: sorted_append)
  have "\<And>s. s \<in> set ts \<Longrightarrow> t - s \<le> int (sc_findtime_sec (g_cfg st))"
  proof -
    fix s assume "s \<in> set ts"
    with snoc.prems(1) have "hd ts \<le> s" by (cases ts) (auto simp: sorted_append)
    moreover have "t - hd ts \<le> int (sc_findtime_sec (g_cfg st))"
      using snoc.prems(2) \<open>s \<in> set ts\<close> by (cases ts) auto
    ultimately show "t - s \<le> int (sc_findtime_sec (g_cfg st))" by simp
  qed
  then have kept: "prune_stamps (sc_findtime_sec (g_cfg st1)) t (tracked (g_fails st1) ip) = ts"
    using prune_all [of ts t] by (simp add: st1)
  have lt: "length ts < SECURITY_MAXRETRY" "\<not> sc_maxretry (g_cfg st1) \<le> length (ts @ [t])"
    using snoc.prems(3) assms(8) by (auto simp: st1)
  obtain fails where f: "slot_look fails = (slot_look (g_fails st1))(ip \<mapsto> ts @ [t])"
    "record_failure_locked sys ip t st1 = Some (st1\<lparr>g_fails := fails\<rparr>)"
    using record_failure_spec [OF st1(2) assms(4) st1(6) kept [symmetric] refl, of sys] lt by auto
  have "sec_inv (st1\<lparr>g_fails := fails\<rparr>)" by (rule sec_inv_record_failure(2) [OF st1(2) assms(4) f(2)])
  then show ?case
    using st1 f assms(2,3,5)
    by (intro exI [of _ "st1\<lparr>g_fails := fails\<rparr>"])
      (simp add: sec_run_append security_ban_login_fail_def tracked_def has_entry_def)
qed

text \<open>
  C2. Failed logins: for an address that neither the table of failures nor that of bans has a record of, while the table of
  failures has an entry for it (its own or a free one) and the table of bans a free slot, the failure within the find time that
  reaches the configured number of retries, at most five, bans the address from then on for exactly
  the ban time, and no earlier failure does; so that many failures, in any rhythm, and no fewer,
  close the door.  (With a full table a failure is not counted.)
\<close>

theorem login_failures_ban:
  assumes "sec_inv st" and "sc_enabled (g_cfg st) \<noteq> 0" and "ip_valid ip" and "ip_key ip"
    and "transport_enabled transport (g_cfg st)" and "tracked (g_fails st) ip = []"
    and "has_entry (g_fails st) ip" and "sc_maxretry (g_cfg st) \<le> SECURITY_MAXRETRY"
    and "slot_look (g_bans st) ip = None" and "slot_free (g_bans st)"
    and "sorted ts" and "\<forall>t \<in> set ts. t - hd ts \<le> int (sc_findtime_sec (g_cfg st))"
    and "length ts \<le> sc_maxretry (g_cfg st)"
  shows "\<exists>st'. sec_run sys (map (\<lambda>t. (t, OpLoginFail ip transport)) ts) st = Some st'
     \<and> (\<forall>now. fst (security_ban_is_banned now ip st') \<longleftrightarrow>
          length ts = sc_maxretry (g_cfg st) \<and> now < last ts + int (sc_bantime_sec (g_cfg st)))"
proof (cases "length ts < sc_maxretry (g_cfg st)")
  case True
  obtain st' where st': "sec_run sys (map (\<lambda>t. (t, OpLoginFail ip transport)) ts) st = Some st'" "sec_inv st'"
      "g_bans st' = g_bans st"
    using login_failures_below [OF assms(1-8,11,12) True, of sys] by blast
  then show ?thesis using True assms(9) by (auto simp: is_banned_result ip_banned_def)
next
  case False
  then have len: "length ts = sc_maxretry (g_cfg st)" using assms(13) by simp
  have "1 \<le> sc_maxretry (g_cfg st)" using assms(1) by (simp add: sec_inv_def)
  with len obtain us t where ts: "ts = us @ [t]" by (cases ts rule: rev_cases) auto
  have us: "sorted us" "\<forall>s \<in> set us. s - hd us \<le> int (sc_findtime_sec (g_cfg st))" "length us < sc_maxretry (g_cfg st)"
    using assms(11,12) len ts by (cases us; auto simp: sorted_append)+
  obtain st1 where st1: "sec_run sys (map (\<lambda>t. (t, OpLoginFail ip transport)) us) st = Some st1" "sec_inv st1"
    "g_cfg st1 = g_cfg st" "g_bans st1 = g_bans st" "tracked (g_fails st1) ip = us" "has_entry (g_fails st1) ip"
    using login_failures_below [OF assms(1-8) us, of sys] by blast
  have "\<And>s. s \<in> set us \<Longrightarrow> t - s \<le> int (sc_findtime_sec (g_cfg st))"
    using assms(11,12) unfolding ts by (cases us) (force simp: sorted_append)+
  then have kept: "prune_stamps (sc_findtime_sec (g_cfg st1)) t (tracked (g_fails st1) ip) = us"
    using prune_all [of us t] by (simp add: st1)
  have lt: "length us < SECURITY_MAXRETRY" "sc_maxretry (g_cfg st1) \<le> length (us @ [t])"
    using len ts assms(8) by (auto simp: st1)
  obtain fails where f: "record_failure_locked sys ip t st1
        = Some (apply_ban_locked sys ip ''login_fail'' t (st1\<lparr>g_fails := fails\<rparr>))"
    using record_failure_spec [OF st1(2) assms(4) st1(6) kept [symmetric] refl, of sys] lt by auto
  let ?st' = "apply_ban_locked sys ip ''login_fail'' t (st1\<lparr>g_fails := fails\<rparr>)"
  have inv: "sec_inv ?st'" by (rule sec_inv_record_failure(2) [OF st1(2) assms(4) f])
  have ok: "slots_ok REMOTE_ADDR_MAX (g_bans st)" using assms(1) by (simp add: sec_inv_def table_ok_def)
  have room: "has_entry (g_bans st) ip" using assms(10) by (simp add: has_entry_def)
  have "slot_look (g_bans ?st') ip = Some (t + int (sc_bantime_sec (g_cfg st)))"
    using room slots.look_enter_cases [OF ok assms(4) [unfolded ip_key_def]] assms(10)
    by (simp add: apply_ban_locked_eq st1)
  moreover have "g_cfg ?st' = g_cfg st" by (simp add: apply_ban_locked_eq st1)
  ultimately have "fst (security_ban_is_banned now ip ?st') \<longleftrightarrow> now < t + int (sc_bantime_sec (g_cfg st))" for now
    using assms(2,3) by (simp add: is_banned_result [OF inv] ip_banned_def)
  then show ?thesis
    using st1 f len assms(2,3,5)
    by (intro exI [of _ ?st']) (simp add: ts sec_run_append security_ban_login_fail_def)
qed

lemma security_start_facts:
  "g_cfg security_start = security_cfg_defaults" "slot_look (g_bans security_start) = (\<lambda>_. None)"
  "slot_look (g_fails security_start) = (\<lambda>_. None)" "slot_look (g_abuse security_start) = (\<lambda>_. None)"
  "slot_look (g_rates security_start) = (\<lambda>_. None)" "slot_look (g_callid_bans security_start) = (\<lambda>_. None)"
  "slot_look (g_callid_fails security_start) = (\<lambda>_. None)"
  "slot_free (g_bans security_start)" "slot_free (g_fails security_start)" "slot_free (g_abuse security_start)"
  "slot_free (g_rates security_start)" "slot_free (g_callid_bans security_start)"
  "slot_free (g_callid_fails security_start)"
  by (simp_all add: security_start_def security_ban_shutdown_def empty_slots_def security_consts)

theorem login_failures_ban_witness:
  "\<exists>st'. sec_run (\<lambda>_. 0) (map (\<lambda>t. (t, OpLoginFail ''10.0.0.1'' ''ssh'')) [1, 2, 3, 4, 5]) security_start = Some st'
     \<and> fst (security_ban_is_banned 604 ''10.0.0.1'' st') \<and> \<not> fst (security_ban_is_banned 605 ''10.0.0.1'' st')"
  using login_failures_ban [OF security_start_inv, of "''10.0.0.1''" "''ssh''" "[1, 2, 3, 4, 5]" "\<lambda>_. 0"]
  by (auto simp: security_start_facts tracked_def has_entry_def ip_valid_def ip_key_def transport_enabled_def
      security_cfg_defaults_def security_consts)

text \<open>
  A retry limit above five is no limit: an entry keeps five stamps, so with \<open>maxretry\<close> set to
  6 or more (up to 100 is accepted) no number of failed logins and failed links, from any addresses
  and at any rate, ever bans anyone.
\<close>

theorem large_maxretry_never_bans:
  assumes "sec_inv st" and "SECURITY_MAXRETRY < sc_maxretry (g_cfg st)"
    and "\<forall>o1 \<in> set ops. op_fits o1 \<and> (case snd o1 of OpLoginFail ip tr \<Rightarrow> True | OpLinkFail ip \<Rightarrow> True | _ \<Rightarrow> False)"
  shows "\<exists>st'. sec_run sys ops st = Some st' \<and> g_bans st' = g_bans st"
  using assms
proof (induction ops arbitrary: st)
  case (Cons o1 ops)
  obtain now op where o1: "o1 = (now, op)" by fastforce
  have "\<exists>ip. ip_key ip \<and> (sec_step sys o1 st = Some st \<or> sec_step sys o1 st = record_failure_locked sys ip now st)"
    using Cons.prems(3)
    by (cases op) (auto simp: o1 op_fits_def security_ban_login_fail_def security_ban_link_auth_fail_def)
  then obtain ip where ip: "ip_key ip"
    "sec_step sys o1 st = Some st \<or> sec_step sys o1 st = record_failure_locked sys ip now st" by blast
  have "\<exists>st1. record_failure_locked sys ip now st = Some st1 \<and> g_cfg st1 = g_cfg st \<and> g_bans st1 = g_bans st"
  proof (cases "has_entry (g_fails st) ip")
    case True
    let ?kept = "prune_stamps (sc_findtime_sec (g_cfg st)) now (tracked (g_fails st) ip)"
    let ?s = "if length ?kept < SECURITY_MAXRETRY then ?kept @ [now] else tl ?kept @ [now]"
    have "length ?kept \<le> SECURITY_MAXRETRY"
      using prune_stamps_length [of "sc_findtime_sec (g_cfg st)" now "tracked (g_fails st) ip"]
        tracked_length [of SECURITY_MAXRETRY "g_fails st" ip] Cons.prems(1) by (simp add: sec_inv_def)
    then have "\<not> sc_maxretry (g_cfg st) \<le> length ?s" using Cons.prems(2) by (auto simp: security_consts)
    then show ?thesis using record_failure_spec [OF Cons.prems(1) ip(1) True refl refl, where sys = sys and now = now] by auto
  next
    case False
    then show ?thesis by (simp add: record_failure_locked_def track_note_full)
  qed
  then obtain st1 where st1: "sec_step sys o1 st = Some st1" "g_cfg st1 = g_cfg st" "g_bans st1 = g_bans st"
    using ip(2) by auto
  have "sec_inv st1" using sec_step_inv(1) [OF Cons.prems(1) _ st1(1)] Cons.prems(3) by simp
  moreover have "SECURITY_MAXRETRY < sc_maxretry (g_cfg st1)" using Cons.prems(2) st1(2) by simp
  ultimately show ?case using Cons.IH [of st1] Cons.prems(3) st1 by simp
qed simp

theorem large_maxretry_never_bans_witness:
  "\<exists>st'. sec_run (\<lambda>_. 0) (replicate 1000 (1, OpLoginFail ''10.0.0.1'' ''ssh''))
       (security_start\<lparr>g_cfg := security_cfg_defaults\<lparr>sc_maxretry := 6\<rparr>\<rparr>) = Some st' \<and> g_bans st' = g_bans security_start"
  using large_maxretry_never_bans [of "security_start\<lparr>g_cfg := security_cfg_defaults\<lparr>sc_maxretry := 6\<rparr>\<rparr>"
      "replicate 1000 (1, OpLoginFail ''10.0.0.1'' ''ssh'')" "\<lambda>_. 0"] security_start_inv
  by (simp add: sec_inv_def security_start_facts op_fits_def ip_key_def security_cfg_defaults_def security_consts)

text \<open>
  The sixth abuse report writes outside the entry: with a report limit above five, as in the
  default configuration of thirty, five reports on an address within the find time are recorded and
  the sixth stores its stamp behind the end of the entry's array of five.
\<close>

theorem abuse_report_overflows:
  assumes "sec_inv st" and "sc_enabled (g_cfg st) \<noteq> 0" and "ip_valid ip" and "ip_key ip"
    and "SECURITY_MAXRETRY < sc_abuse_maxretry (g_cfg st)" and "has_entry (g_abuse st) ip"
    and "tracked (g_abuse st) ip = []" and "n \<le> SECURITY_MAXRETRY + 1"
  shows "sec_run sys (replicate n (now, OpAbuse ip category)) st = None \<longleftrightarrow> n = SECURITY_MAXRETRY + 1"
proof -
  have "\<exists>st'. sec_run sys (replicate n (now, OpAbuse ip category)) st = Some st' \<and> sec_inv st'
      \<and> g_cfg st' = g_cfg st \<and> has_entry (g_abuse st') ip \<and> tracked (g_abuse st') ip = replicate n now"
    if "n \<le> SECURITY_MAXRETRY" for n
    using that
  proof (induction n)
    case 0
    then show ?case using assms by simp
  next
    case (Suc n)
    then obtain st1 where st1: "sec_run sys (replicate n (now, OpAbuse ip category)) st = Some st1" "sec_inv st1"
      "g_cfg st1 = g_cfg st" "has_entry (g_abuse st1) ip" "tracked (g_abuse st1) ip = replicate n now" by auto
    have ok: "slots_ok REMOTE_ADDR_MAX (g_abuse st1)" using st1(2) by (simp add: sec_inv_def table_ok_def)
    have "push_stamp SECURITY_MAXRETRY SECURITY_ABUSE_MAXRETRY now (replicate n now) = Some (replicate n now @ [now])"
      using Suc.prems by (simp add: push_stamp_def security_consts)
    then obtain tbl where t: "slot_look tbl = (slot_look (g_abuse st1))(ip \<mapsto> replicate n now @ [now])"
      "record_abuse_locked sys ip category now st1 = Some (st1\<lparr>g_abuse := tbl\<rparr>)"
      using track_note_spec [OF ok assms(4) [unfolded ip_key_def] st1(4), where arr = SECURITY_MAXRETRY
          and lim = SECURITY_ABUSE_MAXRETRY and now = now and w = "sc_abuse_findtime_sec (g_cfg st1)"
          and mx = "sc_abuse_maxretry (g_cfg st1)"] st1(3,5) Suc.prems assms(5)
      by (auto simp: prune_stamps_def filter_id_conv record_abuse_locked_def)
    have "sec_inv (st1\<lparr>g_abuse := tbl\<rparr>)" by (rule sec_inv_record_abuse [OF st1(2) assms(4) t(2)])
    moreover have "sec_run sys (replicate (Suc n) (now, OpAbuse ip category)) st = Some (st1\<lparr>g_abuse := tbl\<rparr>)"
      unfolding replicate_Suc replicate_append_same [symmetric]
      using st1 t(2) assms(2,3) by (simp add: sec_run_append security_ban_abuse_report_def)
    ultimately show ?case
      using t(1) st1(3) by (auto simp: tracked_def has_entry_def replicate_append_same)
  qed
  note run = this
  show ?thesis
  proof (cases "n = SECURITY_MAXRETRY + 1")
    case True
    obtain st1 where st1: "sec_run sys (replicate SECURITY_MAXRETRY (now, OpAbuse ip category)) st = Some st1" "sec_inv st1"
      "g_cfg st1 = g_cfg st" "has_entry (g_abuse st1) ip" "tracked (g_abuse st1) ip = replicate SECURITY_MAXRETRY now"
      using run [OF order_refl] by blast
    have ok: "slots_ok REMOTE_ADDR_MAX (g_abuse st1)" using st1(2) by (simp add: sec_inv_def table_ok_def)
    have "push_stamp SECURITY_MAXRETRY SECURITY_ABUSE_MAXRETRY now (replicate SECURITY_MAXRETRY now) = None"
      by (simp add: push_stamp_def security_consts)
    then have "record_abuse_locked sys ip category now st1 = None"
      using track_note_spec [OF ok assms(4) [unfolded ip_key_def] st1(4), where arr = SECURITY_MAXRETRY
          and lim = SECURITY_ABUSE_MAXRETRY and now = now and w = "sc_abuse_findtime_sec (g_cfg st1)"
          and mx = "sc_abuse_maxretry (g_cfg st1)"] st1(5)
      by (simp add: prune_stamps_def filter_id_conv record_abuse_locked_def)
    then have "sec_run sys (replicate (SECURITY_MAXRETRY + 1) (now, OpAbuse ip category)) st = None"
      unfolding Suc_eq_plus1 [symmetric] replicate_Suc replicate_append_same [symmetric]
      using st1 assms(2,3) by (simp add: sec_run_append security_ban_abuse_report_def)
    with True show ?thesis by simp
  next
    case False
    then show ?thesis using run [of n] assms(8) by auto
  qed
qed

theorem abuse_report_overflows_witness:
  "sec_run (\<lambda>_. 0) (replicate 6 (1, OpAbuse ''10.0.0.1'' ''chat'')) security_start = None"
  using abuse_report_overflows [OF security_start_inv, of "''10.0.0.1''" 6 "\<lambda>_. 0" 1 "''chat''"]
  by (simp add: security_start_facts tracked_def has_entry_def ip_valid_def ip_key_def security_cfg_defaults_def
      security_consts)

lemma accept_gate_facts:
  assumes "sec_inv st" and "sc_enabled (g_cfg st) \<noteq> 0" and "ip_valid ip" and "ip_key ip"
    and "\<not> ip_banned st now ip" and "0 < sc_rate_limit (g_cfg st)" and "0 < sc_rate_window_sec (g_cfg st)"
    and "recent = prune_stamps (sc_rate_window_sec (g_cfg st)) now (tracked (g_rates st) ip)"
    and "security_ban_accept sys now ip st = (allow, st')"
  shows "allow \<longleftrightarrow> length recent < sc_rate_limit (g_cfg st)"
    and "\<not> allow \<Longrightarrow> slot_free (g_bans st) \<Longrightarrow>
         ip_banned st' t ip \<longleftrightarrow> t < now + int (sc_bantime_sec (g_cfg st))"
    and "allow \<Longrightarrow> has_entry (g_rates st) ip \<Longrightarrow>
         tracked (g_rates st') ip = (if length recent < RATE_STAMPS then recent @ [now] else recent)"
    and "RATE_STAMPS < sc_rate_limit (g_cfg st) \<Longrightarrow> allow"
proof -
  obtain x bans where bc: "ban_check now ip (g_bans st) = (x, bans)" by fastforce
  have okb: "slots_ok REMOTE_ADDR_MAX (g_bans st)" using assms(1) by (simp add: sec_inv_def table_ok_def)
  have nb: "\<not> x" using assms(5) bc by (auto simp: ban_check_def ip_banned_def slot_look_def split: option.splits if_splits)
  have free: "slot_free (g_bans st) \<Longrightarrow> slot_free bans"
  proof -
    assume f: "slot_free (g_bans st)"
    show "slot_free bans"
    proof (cases "slot_find (g_bans st) ip")
      case None
      with f bc show ?thesis by (simp add: ban_check_def)
    next
      case (Some i)
      then have "i < length (g_bans st)" by (simp add: slot_find_Some_iff [OF okb])
      with f bc nb Some show ?thesis by (auto simp: ban_check_def slot_drop_def slot_free_clear split: if_splits)
    qed
  qed
  have bans_ok: "slots_ok REMOTE_ADDR_MAX bans"
    using ban_check_ok [OF _ assms(4) bc] assms(1) by (auto simp: sec_inv_def table_ok_def)
  obtain rates where r: "table_ok REMOTE_ADDR_MAX SECURITY_TRACK_MAX rates" "tracked rates ip = recent"
    "slot_free (g_rates st) \<or> slot_look (g_rates st) ip \<noteq> None \<longrightarrow> has_entry rates ip"
    "(allow, st') = (if recent \<noteq> [] \<and> sc_rate_limit (g_cfg st) \<le> length recent
          then (False, apply_ban_locked sys ip ''rate_limit'' now (st\<lparr>g_bans := bans, g_rates := rates\<rparr>))
          else (True, st\<lparr>g_bans := bans,
                         g_rates := record_rate (sc_rate_window_sec (g_cfg st)) now ip rates\<rparr>))"
    using accept_eq [OF assms(1-4) _ assms(6,7,8), where bans = bans and sys = sys] bc nb assms(9) by auto
  show al: "allow \<longleftrightarrow> length recent < sc_rate_limit (g_cfg st)"
    using r(4) assms(6) by (auto split: if_splits)
  show "\<not> allow \<Longrightarrow> slot_free (g_bans st) \<Longrightarrow> ip_banned st' t ip \<longleftrightarrow> t < now + int (sc_bantime_sec (g_cfg st))"
    using r(4) free slots.look_enter_cases [OF bans_ok assms(4) [unfolded ip_key_def]]
    by (auto simp: apply_ban_locked_eq has_entry_def ip_banned_def split: if_splits)
  have "length recent \<le> RATE_STAMPS"
    using prune_stamps_length [of "sc_rate_window_sec (g_cfg st)" now "tracked (g_rates st) ip"]
      tracked_length [of RATE_STAMPS "g_rates st" ip] assms(1) by (simp add: sec_inv_def assms(8))
  then show "RATE_STAMPS < sc_rate_limit (g_cfg st) \<Longrightarrow> allow" using al by simp
  have again: "prune_stamps (sc_rate_window_sec (g_cfg st)) now recent = recent"
    by (simp add: assms(8) prune_stamps_def)
  show "tracked (g_rates st') ip = (if length recent < RATE_STAMPS then recent @ [now] else recent)"
    if "allow" "has_entry (g_rates st) ip"
    using that r record_rate_spec [OF _ assms(4) [unfolded ip_key_def], of rates recent "sc_rate_window_sec (g_cfg st)" now] again
    by (auto simp: has_entry_def [of "g_rates st"] table_ok_def tracked_def split: if_splits)
qed

text \<open>
  The connection gate: an address that is not banned is let in exactly when fewer than
  \<open>rate_limit\<close> of its connections of the last window are recorded; the connection that is over the
  limit is refused and, where the table has room, the address banned for the ban time.  An entry
  records 32 connections, so a limit above 32 refuses nobody.
\<close>

theorem accept_gate:
  assumes "sec_inv st" and "sc_enabled (g_cfg st) \<noteq> 0" and "ip_valid ip" and "ip_key ip"
    and "\<not> ip_banned st now ip" and "0 < sc_rate_limit (g_cfg st)" and "0 < sc_rate_window_sec (g_cfg st)"
    and "recent = prune_stamps (sc_rate_window_sec (g_cfg st)) now (tracked (g_rates st) ip)"
    and "security_ban_accept sys now ip st = (allow, st')"
  shows "(allow \<longleftrightarrow> length recent < sc_rate_limit (g_cfg st))
     \<and> (\<not> allow \<and> slot_free (g_bans st) \<longrightarrow>
          (\<forall>t. ip_banned st' t ip \<longleftrightarrow> t < now + int (sc_bantime_sec (g_cfg st))))
     \<and> (allow \<and> has_entry (g_rates st) ip \<longrightarrow>
          tracked (g_rates st') ip = (if length recent < RATE_STAMPS then recent @ [now] else recent))
     \<and> (RATE_STAMPS < sc_rate_limit (g_cfg st) \<longrightarrow> allow)"
  using accept_gate_facts [OF assms] by blast

theorem accept_gate_witness:
  "fst (security_ban_accept (\<lambda>_. 0) 1 ''10.0.0.1'' security_start)"
proof -
  obtain allow st' where a: "security_ban_accept (\<lambda>_. 0) 1 ''10.0.0.1'' security_start = (allow, st')" by fastforce
  have "allow"
    using accept_gate [OF security_start_inv _ _ _ _ _ _ refl a]
    by (simp add: security_start_facts ip_banned_def tracked_def prune_stamps_def ip_valid_def ip_key_def
        security_cfg_defaults_def security_consts)
  with a show ?thesis by simp
qed

section \<open>Call id bans\<close>

definition callid_banned :: "security \<Rightarrow> int \<Rightarrow> string \<Rightarrow> bool" where
  "callid_banned st now callid =
     (case slot_look (g_callid_bans st) callid of None \<Rightarrow> False
      | Some b \<Rightarrow> cb_permanent b \<or> now < cb_expire_at b)"

definition callid_permanent :: "security \<Rightarrow> string \<Rightarrow> bool" where
  "callid_permanent st callid =
     (case slot_look (g_callid_bans st) callid of None \<Rightarrow> False | Some b \<Rightarrow> cb_permanent b)"

lemma callid_permanent_cong:
  "slot_look (g_callid_bans st') c = slot_look (g_callid_bans st) c \<Longrightarrow> callid_permanent st' c = callid_permanent st c"
  by (simp add: callid_permanent_def)

lemma callid_check_other:
  "slots_ok CALLID_MAX tbl \<Longrightarrow> length k < CALLID_MAX \<Longrightarrow> c \<noteq> k \<Longrightarrow>
   slot_look (snd (callid_is_banned_locked now k tbl)) c = slot_look tbl c"
  by (auto simp: callid_is_banned_locked_def slots.drop_other split: option.split)

lemma callid_check_permanent:
  "slot_look tbl k = Some b \<Longrightarrow> cb_permanent b \<Longrightarrow> snd (callid_is_banned_locked now k tbl) = tbl"
  by (auto simp: callid_is_banned_locked_def slot_look_def split: option.splits)

text \<open>An operation that may end a permanent ban: a new configuration, a shutdown, or a failure or
  report of the call id itself.\<close>

fun may_unban :: "string \<Rightarrow> int \<times> sec_op \<Rightarrow> bool" where
  "may_unban c (now, OpConfig cfg) = True"
| "may_unban c (now, OpShutdown) = True"
| "may_unban c (now, OpCallidFail x) = (callid_normalize x CALLID_MAX = Some c)"
| "may_unban c (now, OpCallidAbuse x category) = (callid_normalize x CALLID_MAX = Some c)"
| "may_unban c _ = False"

lemma record_failure_callids:
  "record_failure_locked sys ip now st = Some st' \<Longrightarrow> g_callid_bans st' = g_callid_bans st"
  by (auto simp: record_failure_locked_def apply_ban_locked_eq Let_def split: option.splits prod.splits if_splits)

lemma record_abuse_callids:
  "record_abuse_locked sys ip category now st = Some st' \<Longrightarrow> g_callid_bans st' = g_callid_bans st"
  by (auto simp: record_abuse_locked_def apply_ban_locked_eq Let_def split: option.splits prod.splits if_splits)

lemma accept_callids: "g_callid_bans (snd (security_ban_accept sys now ip st)) = g_callid_bans st"
  by (auto simp: security_ban_accept_def apply_ban_locked_eq Let_def split: option.split prod.split)

lemma apply_callid_ban_other:
  "slots_ok CALLID_MAX (g_callid_bans st) \<Longrightarrow> length k < CALLID_MAX \<Longrightarrow> c \<noteq> k \<Longrightarrow>
   slot_look (g_callid_bans (apply_callid_ban_locked k reason now perm st)) c = slot_look (g_callid_bans st) c"
  by (simp add: apply_callid_ban_locked_eq slots.enter_other)

lemma sec_step_permanent:
  assumes "sec_inv st" and "\<not> may_unban c o1" and "callid_permanent st c" and "sec_step sys o1 st = Some st'"
  shows "callid_permanent st' c"
proof -
  obtain now op where o1: "o1 = (now, op)" by fastforce
  have ok: "slots_ok CALLID_MAX (g_callid_bans st)" using assms(1) by (simp add: sec_inv_def table_ok_def)
  obtain b where b: "slot_look (g_callid_bans st) c = Some b" "cb_permanent b"
    using assms(3) by (auto simp: callid_permanent_def split: option.splits)
  show ?thesis
  proof (cases op)
    case OpSecTick
    let ?f = "\<lambda>e. if callid_ban_expired now e
        then \<lparr>sl_key = [], sl_val = (sl_val e)\<lparr>cb_permanent := False\<rparr>, sl_active = False\<rparr> else e"
    have "slot_look (map ?f (g_callid_bans st)) c = Option.bind (slot_look (g_callid_bans st) c)
        (\<lambda>v. if \<not> cb_permanent v \<and> cb_expire_at v > 0 \<and> now \<ge> cb_expire_at v then None else Some v)"
      by (rule slot_look_map [OF ok]) (auto simp: callid_ban_expired_def split: if_splits)
    with b OpSecTick assms(3,4) show ?thesis
      by (auto simp: o1 security_ban_tick_def Let_def callid_permanent_def)
  next
    case (OpIsBanned ip)
    with assms(3,4) show ?thesis
      by (auto simp: o1 security_ban_is_banned_def callid_permanent_def split: prod.splits if_splits)
  next
    case (OpAccept ip)
    with assms(3,4) show ?thesis by (auto simp: o1 callid_permanent_def accept_callids)
  next
    case (OpLoginFail ip transport)
    with assms(3,4) show ?thesis
      by (auto simp: o1 callid_permanent_def security_ban_login_fail_def dest!: record_failure_callids split: if_splits)
  next
    case (OpLinkFail ip)
    with assms(3,4) show ?thesis
      by (auto simp: o1 callid_permanent_def security_ban_link_auth_fail_def dest!: record_failure_callids split: if_splits)
  next
    case (OpAbuse ip category)
    with assms(3,4) show ?thesis
      by (auto simp: o1 callid_permanent_def security_ban_abuse_report_def dest!: record_abuse_callids split: if_splits)
  next
    case (OpCallidIsBanned x)
    then have st': "st' = snd (security_ban_callid_is_banned now x st)" using assms(4) by (simp add: o1)
    have "slot_look (g_callid_bans st') c = Some b"
    proof (cases "callid_normalize x CALLID_MAX")
      case (Some k)
      with b show ?thesis
        using callid_check_other [OF ok callid_normalize_length [OF Some], of c now]
          callid_check_permanent [of "g_callid_bans st" k b now]
        by (cases "c = k") (auto simp: st' security_ban_callid_is_banned_def split: prod.splits)
    qed (simp add: st' security_ban_callid_is_banned_def b)
    with b show ?thesis by (simp add: callid_permanent_def)
  next
    case (OpCallidFail x)
    have "slot_look (g_callid_bans st') c = slot_look (g_callid_bans st) c"
    proof (cases "callid_normalize x CALLID_MAX")
      case (Some k)
      then have "c \<noteq> k" using assms(2) OpCallidFail by (auto simp: o1)
      then show ?thesis
        using assms(4) OpCallidFail Some apply_callid_ban_other [OF _ callid_normalize_length [OF Some]] ok
        by (auto simp: o1 security_ban_link_auth_fail_callid_def record_callid_failure_locked_def Let_def
            split: if_splits option.splits prod.splits)
    qed (use assms(4) OpCallidFail in \<open>auto simp: o1 security_ban_link_auth_fail_callid_def split: if_splits\<close>)
    with assms(3) show ?thesis using callid_permanent_cong by blast
  next
    case (OpCallidAbuse x category)
    have "slot_look (g_callid_bans st') c = slot_look (g_callid_bans st) c"
    proof (cases "callid_normalize x CALLID_MAX")
      case (Some k)
      then have "c \<noteq> k" using assms(2) OpCallidAbuse by (auto simp: o1)
      then show ?thesis
        using assms(4) OpCallidAbuse Some apply_callid_ban_other [OF _ callid_normalize_length [OF Some]] ok
        by (auto simp: o1 security_ban_callid_abuse_report_def record_callid_abuse_locked_def Let_def
            split: if_splits option.splits prod.splits)
    qed (use assms(4) OpCallidAbuse in \<open>auto simp: o1 security_ban_callid_abuse_report_def split: if_splits\<close>)
    with assms(3) show ?thesis using callid_permanent_cong by blast
  qed (use assms(2) in \<open>simp_all add: o1\<close>)
qed

lemma sec_run_permanent:
  "sec_inv st \<Longrightarrow> \<forall>o1 \<in> set ops. op_fits o1 \<and> \<not> may_unban c o1 \<Longrightarrow> callid_permanent st c \<Longrightarrow>
   sec_run sys ops st = Some st' \<Longrightarrow> callid_permanent st' c"
proof (induction ops arbitrary: st)
  case (Cons o1 ops)
  then obtain st1 where st1: "sec_step sys o1 st = Some st1" "sec_run sys ops st1 = Some st'"
    by (auto split: option.splits)
  have "sec_inv st1" using sec_step_inv(1) [OF Cons.prems(1) _ st1(1)] Cons.prems(2) by simp
  moreover have "callid_permanent st1 c"
    using sec_step_permanent [OF Cons.prems(1) _ Cons.prems(3) st1(1)] Cons.prems(2) by simp
  ultimately show ?case using Cons.IH [of st1] Cons.prems(2) st1(2) by simp
qed simp

lemma permanent_is_banned:
  assumes "callid_permanent st c" and "sc_enabled (g_cfg st) \<noteq> 0" and "callid_normalize x CALLID_MAX = Some c"
  shows "fst (security_ban_callid_is_banned now x st)"
  using assms
  by (auto simp: callid_permanent_def security_ban_callid_is_banned_def callid_is_banned_locked_def slot_look_def
      split: option.splits)

text \<open>
  A permanent call id ban stays: whatever else happens, to any address and any other call id and
  at any clock readings, no tick, gate, failure or report ends it, and every spelling of the call id
  is refused; only a new configuration, a shutdown, or failures and reports of that call id itself
  can change it.
\<close>

theorem permanent_ban_stays:
  assumes "sec_inv st" and "\<forall>o1 \<in> set ops. op_fits o1 \<and> \<not> may_unban c o1"
    and "callid_permanent st c" and "sec_run sys ops st = Some st'"
    and "sc_enabled (g_cfg st') \<noteq> 0" and "callid_normalize x CALLID_MAX = Some c"
  shows "fst (security_ban_callid_is_banned now x st') \<and> \<not> fst (security_ban_callid_accept now x st')"
  using permanent_is_banned [OF sec_run_permanent [OF assms(1-4)] assms(5,6), of now]
  by (cases "security_ban_callid_is_banned now x st'") (simp add: security_ban_callid_accept_def)

definition security_example :: security where
  "security_example = apply_callid_ban_locked ''DL1ABC'' ''config'' 1 True security_start"

lemma security_example_facts:
  "sec_inv security_example" "callid_permanent security_example ''DL1ABC''"
  "g_cfg security_example = security_cfg_defaults" "g_callid_fails security_example = g_callid_fails security_start"
  "slot_free (g_callid_fails security_example)"
proof -
  have len: "length ''DL1ABC'' < CALLID_MAX" by (simp add: CALLID_MAX_def)
  show "sec_inv security_example"
    unfolding security_example_def by (rule sec_inv_apply_callid_ban [OF security_start_inv len])
  have ok: "slots_ok CALLID_MAX (g_callid_bans security_start)"
    using security_start_inv by (simp add: sec_inv_def table_ok_def)
  show "callid_permanent security_example ''DL1ABC''"
    using slots.look_enter_cases [OF ok len]
    by (simp add: security_example_def apply_callid_ban_locked_eq has_entry_def security_start_facts callid_permanent_def)
  show "g_cfg security_example = security_cfg_defaults" "g_callid_fails security_example = g_callid_fails security_start"
    "slot_free (g_callid_fails security_example)"
    by (simp_all add: security_example_def apply_callid_ban_locked_eq security_start_facts)
qed

theorem permanent_ban_stays_witness:
  "\<exists>st'. sec_run (\<lambda>_. 0) [(9, OpSecTick)] security_example = Some st'
     \<and> fst (security_ban_callid_is_banned 1000000 ''dl1abc '' st')"
proof -
  have n: "callid_normalize ''dl1abc '' CALLID_MAX = Some ''DL1ABC''"
    by (simp add: callid_normalize_def CALLID_MAX_def c_islower_def c_isupper_def c_isdigit_def c_toupper_def char_of_eq_iff)
  have r: "sec_run (\<lambda>_. 0) [(9, OpSecTick)] security_example = Some (security_ban_tick 9 security_example)" by simp
  have "sc_enabled (g_cfg (security_ban_tick 9 security_example)) \<noteq> 0"
    by (simp add: security_ban_tick_def Let_def security_example_facts security_cfg_defaults_def)
  from permanent_ban_stays [OF security_example_facts(1) _ security_example_facts(2) r this n] r
  show ?thesis by (simp add: op_fits_def)
qed

text \<open>
  Failures weaken a permanent ban: when the link failures of a permanently banned call id reach
  the retry limit, its ban becomes a temporary one that ends after the ban time.
\<close>

theorem permanent_ban_downgraded:
  assumes "sec_inv st" and "sc_enabled (g_cfg st) \<noteq> 0" and "sc_circuit (g_cfg st) \<noteq> 0"
    and "callid_normalize x CALLID_MAX = Some c" and "callid_permanent st c"
    and "has_entry (g_callid_fails st) c"
    and "kept = prune_stamps (sc_findtime_sec (g_cfg st)) now (tracked (g_callid_fails st) c)"
    and "sc_maxretry (g_cfg st) \<le> length kept + 1" and "sc_maxretry (g_cfg st) \<le> SECURITY_MAXRETRY"
  shows "\<exists>st'. security_ban_link_auth_fail_callid now x st = Some st' \<and> \<not> callid_permanent st' c
     \<and> (\<forall>t. callid_banned st' t c \<longleftrightarrow> t < now + int (sc_bantime_sec (g_cfg st)))"
proof -
  have len: "length c < CALLID_MAX" by (rule callid_normalize_length [OF assms(4)])
  have ok: "slots_ok CALLID_MAX (g_callid_fails st)" "slots_ok CALLID_MAX (g_callid_bans st)"
    using assms(1) by (simp_all add: sec_inv_def table_ok_def)
  define s where "s = (if length kept < SECURITY_MAXRETRY then kept @ [now] else tl kept @ [now])"
  have push: "push_stamp SECURITY_ABUSE_MAXRETRY SECURITY_MAXRETRY now kept = Some s"
    by (simp add: push_stamp_def s_def security_consts)
  have "sc_maxretry (g_cfg st) \<le> length s" using assms(8,9) by (auto simp: s_def security_consts)
  then obtain tbl where t: "track_note CALLID_MAX SECURITY_ABUSE_MAXRETRY SECURITY_MAXRETRY (sc_findtime_sec (g_cfg st))
      (sc_maxretry (g_cfg st)) now c (g_callid_fails st) = Some (tbl, True)"
    using track_note_spec [OF ok(1) len assms(6), where arr = SECURITY_ABUSE_MAXRETRY and lim = SECURITY_MAXRETRY
        and now = now and w = "sc_findtime_sec (g_cfg st)" and mx = "sc_maxretry (g_cfg st)"] push
    by (auto simp: assms(7) [symmetric])
  have old: "slot_look (g_callid_bans st) c \<noteq> None" using assms(5) by (auto simp: callid_permanent_def split: option.splits)
  let ?st' = "apply_callid_ban_locked c ''link_auth_fail'' now False (st\<lparr>g_callid_fails := tbl\<rparr>)"
  have "slot_look (g_callid_bans ?st') c
      = Some \<lparr>cb_expire_at = now + int (sc_bantime_sec (g_cfg st)), cb_permanent = False\<rparr>"
    using old slots.look_enter_cases [OF ok(2) len] by (simp add: apply_callid_ban_locked_eq has_entry_def)
  moreover have "security_ban_link_auth_fail_callid now x st = Some ?st'"
    using t assms(2-4) by (simp add: security_ban_link_auth_fail_callid_def record_callid_failure_locked_def)
  ultimately show ?thesis by (simp add: callid_permanent_def callid_banned_def)
qed

theorem permanent_ban_downgraded_witness:
  "\<exists>st'. security_ban_link_auth_fail_callid 5 ''DL1ABC''
       (security_example\<lparr>g_cfg := security_cfg_defaults\<lparr>sc_maxretry := 1\<rparr>\<rparr>) = Some st' \<and> \<not> callid_permanent st' ''DL1ABC''"
proof -
  let ?st = "security_example\<lparr>g_cfg := security_cfg_defaults\<lparr>sc_maxretry := 1\<rparr>\<rparr>"
  have n: "callid_normalize ''DL1ABC'' CALLID_MAX = Some ''DL1ABC''"
    by (simp add: callid_normalize_def CALLID_MAX_def c_islower_def c_isupper_def c_isdigit_def c_toupper_def char_of_eq_iff)
  have inv: "sec_inv ?st"
    using security_example_facts(1) by (simp add: sec_inv_def security_cfg_defaults_def security_consts)
  have p: "callid_permanent ?st ''DL1ABC''" using security_example_facts(2) by (simp add: callid_permanent_def)
  show ?thesis
    using permanent_ban_downgraded [OF inv _ _ n p _ refl, of 5]
    by (auto simp: security_example_facts has_entry_def security_cfg_defaults_def security_consts tracked_def
        security_start_facts)
qed

text \<open>The first word, in upper case.\<close>

definition callid_char :: "char \<Rightarrow> bool" where
  "callid_char c \<longleftrightarrow> c_islower c \<or> c_isupper c \<or> c_isdigit c \<or> c = CHR ''-'' \<or> c = CHR ''_'' \<or> c = CHR ''.''"

definition callid_word :: "string \<Rightarrow> string" where
  "callid_word s = takeWhile (\<lambda>c. \<not> (c = CHR '' '' \<or> c = CHR 0x09)) (dropWhile (\<lambda>c. c = CHR '' '' \<or> c = CHR 0x09) s)"

lemma c_toupper_not_letter: "\<not> c_islower c \<Longrightarrow> c_toupper c = c"
  by (simp add: c_toupper_def)

lemma callid_scan_eq:
  "callid_scan cap out al cs =
     (let w = takeWhile (\<lambda>c. \<not> (c = CHR '' '' \<or> c = CHR 0x09)) cs
      in if (w = [] \<or> length out + length w < cap) \<and> list_all callid_char w
         then Some (out @ map c_toupper w, al \<or> list_ex (\<lambda>c. c_islower c \<or> c_isupper c) w) else None)"
proof (induction cs arbitrary: out al)
  case (Cons c cs)
  show ?case
    by (auto simp: Cons.IH Let_def callid_char_def c_toupper_not_letter)
qed simp

text \<open>
  Normalising a call id: it succeeds exactly when the first word fits the buffer, consists of
  letters, digits, dashes, underscores and dots and has a letter; the result is that word in upper
  case, so two spellings that differ in case or in blanks around them name the same call id, and
  normalising a result changes nothing.
\<close>

theorem callid_normalize_exact:
  assumes "2 \<le> cap"
  shows "callid_normalize s cap =
     (if length (callid_word s) < cap \<and> list_all callid_char (callid_word s)
         \<and> list_ex (\<lambda>c. c_islower c \<or> c_isupper c) (callid_word s)
      then Some (map c_toupper (callid_word s)) else None)
    \<and> (callid_normalize s cap = Some out \<longrightarrow> callid_normalize out cap = Some out)"
proof -
  have nb: "\<not> c_islower (CHR '' '')" "\<not> c_isupper (CHR '' '')" "\<not> c_islower (CHR 0x09)" "\<not> c_isupper (CHR 0x09)"
    by (simp_all add: c_islower_def c_isupper_def)
  have eq: "callid_normalize s cap =
     (if length (callid_word s) < cap \<and> list_all callid_char (callid_word s)
         \<and> list_ex (\<lambda>c. c_islower c \<or> c_isupper c) (callid_word s)
      then Some (map c_toupper (callid_word s)) else None)" for s
    using assms
    by (cases "callid_word s") (auto simp: callid_normalize_def callid_scan_eq callid_word_def Let_def)
  have "callid_normalize out cap = Some out" if o1: "callid_normalize s cap = Some out"
  proof -
    let ?w = "callid_word s"
    have w: "length ?w < cap" "list_all callid_char ?w" "list_ex (\<lambda>c. c_islower c \<or> c_isupper c) ?w"
      and out: "out = map c_toupper ?w" using o1 eq [of s] by (auto split: if_splits)
    have up: "callid_char (c_toupper c) \<and> c_toupper c \<noteq> CHR '' '' \<and> c_toupper c \<noteq> CHR 0x09
        \<and> (c_islower c \<or> c_isupper c \<longrightarrow> c_isupper (c_toupper c))" if "callid_char c" for c
      using that by (auto simp: callid_char_def c_toupper_def c_islower_def c_isupper_def c_isdigit_def
          of_char_char_of_nat dest!: arg_cong [where f = "of_char :: char \<Rightarrow> nat"])
    have "\<forall>c \<in> set out. c \<noteq> CHR '' '' \<and> c \<noteq> CHR 0x09"
      using w(2) up by (auto simp: out list_all_iff)
    then have "callid_word out = out"
      by (cases out) (auto simp: callid_word_def takeWhile_all)
    moreover have "list_all callid_char out" "list_ex (\<lambda>c. c_islower c \<or> c_isupper c) out"
      using w(2,3) up by (auto simp: out list_all_iff list_ex_iff)
    moreover have "map c_toupper out = out" by (simp add: out)
    ultimately show ?thesis using eq [of out] w(1) out by simp
  qed
  with eq show ?thesis by blast
qed

theorem callid_normalize_exact_witness:
  "callid_normalize '' dl1abc-7 x'' 64 = Some ''DL1ABC-7'' \<and> callid_normalize ''DL1ABC-7'' 64 = Some ''DL1ABC-7''"
  using callid_normalize_exact [of 64 "'' dl1abc-7 x''" "''DL1ABC-7''"]
  by (simp add: callid_word_def callid_char_def c_islower_def c_isupper_def c_isdigit_def c_toupper_def char_of_eq_iff)

end
