(* ===== verification/Block_Hash.thy ===== *)
theory Block_Hash imports Prelude begin

text \<open>
  What the two hashes of the program share (SHA-1 in \<^verbatim>\<open>ws_sha1.c\<close>, MD5 in \<^verbatim>\<open>password.c\<close>):
  a message cut into blocks of 64 bytes that are compressed one after the other into a state, and the
  arithmetic of the padding.
\<close>

fun full_blocks :: "bytes \<Rightarrow> bytes list" where
  "full_blocks m = (if length m < 64 then [] else take 64 m # full_blocks (drop 64 m))"

declare full_blocks.simps [simp del]

text \<open>The state after the whole blocks of a message.\<close>

definition absorb :: "('s \<Rightarrow> bytes \<Rightarrow> 's) \<Rightarrow> 's \<Rightarrow> bytes \<Rightarrow> 's" where
  "absorb compress st m = foldl compress st (full_blocks m)"

lemma absorb_short: "length m < 64 \<Longrightarrow> absorb compress st m = st"
  by (subst absorb_def, subst full_blocks.simps) simp

lemma absorb_block: "length b = 64 \<Longrightarrow> absorb compress st (b @ m) = absorb compress (compress st b) m"
  by (subst absorb_def, subst full_blocks.simps) (simp add: absorb_def)

lemma absorb_append:
  "64 dvd length a \<Longrightarrow> absorb compress st (a @ m) = absorb compress (absorb compress st a) m"
proof (induction a arbitrary: st rule: full_blocks.induct)
  case (1 a)
  show ?case
  proof (cases "length a < 64")
    case True
    with "1.prems" show ?thesis by (auto simp: absorb_short dvd_def)
  next
    case False
    let ?b = "take 64 a" and ?r = "drop 64 a"
    have b: "length ?b = 64" "a = ?b @ ?r" using False by auto
    have "64 dvd length ?r" using "1.prems" by simp
    from "1.IH" [OF False this] absorb_block [OF b(1)] b(2) show ?thesis
      by (metis append.assoc)
  qed
qed

lemma pad_mod:
  assumes "x mod 64 = l" and "0 \<le> c - l + 64 * k" and "c - l + 64 * k < (64 :: int)"
  shows "(c - x) mod 64 = c - l + 64 * k"
proof -
  have "c - x = (c - l + 64 * k) + 64 * (- (x div 64) - k)"
    using mult_div_mod_eq [of 64 x] assms(1) by (simp add: algebra_simps)
  then have "(c - x) mod 64 = (c - l + 64 * k) mod 64" by (metis mod_mult_self2)
  also have "\<dots> = c - l + 64 * k" using assms(2,3) by (rule mod_pos_pos_trivial)
  finally show ?thesis .
qed

end
