(* ===== verification/Ws_Sha1.thy ===== *)
theory Ws_Sha1 imports Block_Hash begin

text \<open>
  SHA-1 as the WebSocket handshake computes it: \<^verbatim>\<open>plugins/websocket/ws_sha1.c\<close>.  The
  context's buffer is not initialised by the code, so its first content is an argument.  The
  reference is the padded message of the standard, compressed block by block with the standard's
  own round functions.
\<close>

section \<open>The code\<close>

type_synonym sha1_state = "u32 \<times> u32 \<times> u32 \<times> u32 \<times> u32"

record ws_sha1_ctx =
  sc_state :: sha1_state
  sc_count :: "64 word"
  sc_buffer :: bytes

definition rol :: "u32 \<Rightarrow> nat \<Rightarrow> u32" where
  "rol v bits = push_bit bits v OR drop_bit (32 - bits) v"

definition sha1_word :: "bytes \<Rightarrow> nat \<Rightarrow> u32" where
  "sha1_word block i =
     push_bit 24 (ucast (block ! (i * 4))) OR push_bit 16 (ucast (block ! (i * 4 + 1)))
     OR push_bit 8 (ucast (block ! (i * 4 + 2))) OR ucast (block ! (i * 4 + 3))"

definition sha1_schedule :: "bytes \<Rightarrow> u32 list" where
  "sha1_schedule block =
     fold (\<lambda>i w. w @ [rol (w ! (i - 3) XOR w ! (i - 8) XOR w ! (i - 14) XOR w ! (i - 16)) 1])
       [16..<80] (map (sha1_word block) [0..<16])"

definition sha1_round :: "u32 list \<Rightarrow> nat \<Rightarrow> sha1_state \<Rightarrow> sha1_state" where
  "sha1_round w i s =
     (case s of (a, b, c, d, e) \<Rightarrow>
        let (f, k) =
          (if i < 20 then ((b AND c) OR (NOT b AND d), 0x5A827999)
           else if i < 40 then (b XOR c XOR d, 0x6ED9EBA1)
           else if i < 60 then ((b AND c) OR (b AND d) OR (c AND d), 0x8F1BBCDC)
           else (b XOR c XOR d, 0xCA62C1D6));
          t = rol a 5 + f + e + k + w ! i
        in (t, a, rol b 30, c, d))"

definition ws_sha1_transform :: "sha1_state \<Rightarrow> bytes \<Rightarrow> sha1_state" where
  "ws_sha1_transform st block =
     (case fold (sha1_round (sha1_schedule block)) [0..<80] st of (a, b, c, d, e) \<Rightarrow>
      case st of (s0, s1, s2, s3, s4) \<Rightarrow> (s0 + a, s1 + b, s2 + c, s3 + d, s4 + e))"

definition sha1_init_state :: sha1_state where
  "sha1_init_state = (0x67452301, 0xEFCDAB89, 0x98BADCFE, 0x10325476, 0xC3D2E1F0)"

definition ws_sha1_init :: "bytes \<Rightarrow> ws_sha1_ctx" where
  "ws_sha1_init buffer = \<lparr>sc_state = sha1_init_state, sc_count = 0, sc_buffer = buffer\<rparr>"

text \<open>\<^verbatim>\<open>for (; i + 63 < len; i += 64) transform(data + i)\<close>: the state and the final i.\<close>

function sha1_blocks :: "sha1_state \<Rightarrow> bytes \<Rightarrow> nat \<Rightarrow> sha1_state \<times> nat" where
  "sha1_blocks st data i =
     (if i + 63 < length data
      then sha1_blocks (ws_sha1_transform st (take 64 (drop i data))) data (i + 64)
      else (st, i))"
  by auto
termination by (relation "measure (\<lambda>(st, data, i). length data - i)") auto

declare sha1_blocks.simps [simp del]

definition buffer_index :: "ws_sha1_ctx \<Rightarrow> nat" where
  "buffer_index ctx = unat (drop_bit 3 (sc_count ctx) AND 63)"

definition ws_sha1_update :: "ws_sha1_ctx \<Rightarrow> bytes \<Rightarrow> ws_sha1_ctx" where
  "ws_sha1_update ctx data =
     (let idx = buffer_index ctx; len = length data; count = sc_count ctx + of_nat len * 8;
          (st, buffer, i, idx') =
            (if idx + len > 63 then
               let buffer = take idx (sc_buffer ctx) @ take (64 - idx) data;
                   (st, i) = sha1_blocks (ws_sha1_transform (sc_state ctx) buffer) data (64 - idx)
               in (st, buffer, i, 0)
             else (sc_state ctx, sc_buffer ctx, 0, idx))
      in \<lparr>sc_state = st, sc_count = count,
          sc_buffer = take idx' buffer @ drop i data @ drop (idx' + (len - i)) buffer\<rparr>)"

definition be_bytes32 :: "u32 \<Rightarrow> bytes" where
  "be_bytes32 v = [ucast (drop_bit 24 v), ucast (drop_bit 16 v), ucast (drop_bit 8 v), ucast v]"

definition ws_sha1_final :: "ws_sha1_ctx \<Rightarrow> bytes" where
  "ws_sha1_final ctx =
     (let idx = buffer_index ctx;
          final = take idx (sc_buffer ctx) @ [0x80];
          (st, final') =
            (if idx + 1 > 56 then
               (ws_sha1_transform (sc_state ctx) (final @ replicate (64 - (idx + 1)) 0), [])
             else (sc_state ctx, final));
          block = final' @ replicate (56 - length final') 0
            @ map (\<lambda>i. ucast (drop_bit (56 - i * 8) (sc_count ctx))) [0..<8]
      in case ws_sha1_transform st block of (s0, s1, s2, s3, s4) \<Rightarrow>
           be_bytes32 s0 @ be_bytes32 s1 @ be_bytes32 s2 @ be_bytes32 s3 @ be_bytes32 s4)"

definition ws_sha1 :: "bytes \<Rightarrow> bytes \<Rightarrow> bytes" where
  "ws_sha1 buffer data = ws_sha1_final (ws_sha1_update (ws_sha1_init buffer) data)"

section \<open>The standard\<close>

text \<open>The message schedule as the standard's recurrence, and its round functions.\<close>

fun fips_w :: "bytes \<Rightarrow> nat \<Rightarrow> u32" where
  "fips_w block t =
     (if t < 16 then sha1_word block t
      else rol (fips_w block (t - 3) XOR fips_w block (t - 8) XOR fips_w block (t - 14)
                XOR fips_w block (t - 16)) 1)"

declare fips_w.simps [simp del]

definition fips_f :: "nat \<Rightarrow> u32 \<Rightarrow> u32 \<Rightarrow> u32 \<Rightarrow> u32" where
  "fips_f t x y z =
     (if t < 20 then (x AND y) XOR (NOT x AND z)
      else if t < 40 then x XOR y XOR z
      else if t < 60 then (x AND y) XOR (x AND z) XOR (y AND z)
      else x XOR y XOR z)"

definition fips_k :: "nat \<Rightarrow> u32" where
  "fips_k t = (if t < 20 then 0x5A827999 else if t < 40 then 0x6ED9EBA1
               else if t < 60 then 0x8F1BBCDC else 0xCA62C1D6)"

fun fips_rounds :: "bytes \<Rightarrow> nat \<Rightarrow> sha1_state \<Rightarrow> sha1_state" where
  "fips_rounds block 0 s = s"
| "fips_rounds block (Suc t) s =
     (case fips_rounds block t s of (a, b, c, d, e) \<Rightarrow>
        (rol a 5 + fips_f t b c d + e + fips_k t + fips_w block t, a, rol b 30, c, d))"

definition fips_compress :: "sha1_state \<Rightarrow> bytes \<Rightarrow> sha1_state" where
  "fips_compress h block =
     (case h of (h0, h1, h2, h3, h4) \<Rightarrow> case fips_rounds block 80 h of (a, b, c, d, e) \<Rightarrow>
        (h0 + a, h1 + b, h2 + c, h3 + d, h4 + e))"

text \<open>A one bit, zeros to 56 modulo 64, the length in bits in eight bytes.\<close>

definition fips_pad :: "bytes \<Rightarrow> bytes" where
  "fips_pad m = m @ [0x80] @ replicate (nat ((55 - int (length m)) mod 64)) 0
     @ map (\<lambda>i. of_nat ((8 * length m) div 256 ^ (7 - i))) [0..<8]"

definition fips_sha1 :: "bytes \<Rightarrow> bytes" where
  "fips_sha1 m =
     (case foldl fips_compress sha1_init_state (full_blocks (fips_pad m)) of (h0, h1, h2, h3, h4) \<Rightarrow>
        be_bytes32 h0 @ be_bytes32 h1 @ be_bytes32 h2 @ be_bytes32 h3 @ be_bytes32 h4)"

section \<open>One block\<close>

lemma sha1_schedule_prefix:
  "fold (\<lambda>i w. w @ [rol (w ! (i - 3) XOR w ! (i - 8) XOR w ! (i - 14) XOR w ! (i - 16)) 1])
       [16..<16 + n] (map (sha1_word block) [0..<16]) = map (fips_w block) [0..<16 + n]"
  (is "fold ?f _ _ = _")
proof (induction n)
  case 0
  have "sha1_word block i = fips_w block i" if "i < 16" for i
    using that by (subst fips_w.simps) simp
  then show ?case by simp
next
  case (Suc n)
  have "fold ?f [16..<16 + Suc n] (map (sha1_word block) [0..<16]) = ?f (16 + n) (map (fips_w block) [0..<16 + n])"
    using Suc by (simp only: add_Suc_right upt_Suc_append le_add1 fold_append fold.simps comp_apply id_apply)
  also have "\<dots> = map (fips_w block) [0..<16 + n] @ [fips_w block (16 + n)]"
    by (subst fips_w.simps [of block "16 + n"]) simp
  also have "\<dots> = map (fips_w block) [0..<16 + Suc n]"
    by (simp only: add_Suc_right upt_Suc_append le0 map_append list.map)
  finally show ?case .
qed

lemma sha1_schedule_eq: "sha1_schedule block = map (fips_w block) [0..<80]"
proof -
  have "(80 :: nat) = 16 + 64" by simp
  then show ?thesis unfolding sha1_schedule_def by (simp only: sha1_schedule_prefix)
qed

lemma sha1_choose: "(x AND y) OR (NOT x AND z) = (x AND y) XOR (NOT x AND z)" for x y z :: u32
  by (auto simp: bit_eq_iff bit_simps)

lemma sha1_majority: "(x AND y) OR (x AND z) OR (y AND z) = (x AND y) XOR (x AND z) XOR (y AND z)" for x y z :: u32
  by (auto simp: bit_eq_iff bit_simps)

lemma sha1_round_eq:
  "t < 80 \<Longrightarrow> sha1_round (sha1_schedule block) t (a, b, c, d, e)
     = (rol a 5 + fips_f t b c d + e + fips_k t + fips_w block t, a, rol b 30, c, d)"
  by (simp add: sha1_round_def sha1_schedule_eq fips_f_def fips_k_def sha1_choose sha1_majority)

lemma sha1_rounds_eq:
  "n \<le> 80 \<Longrightarrow> fold (sha1_round (sha1_schedule block)) [0..<n] st = fips_rounds block n st"
  by (induction n) (auto simp: sha1_round_eq split: prod.split)

lemma ws_sha1_transform_eq: "ws_sha1_transform = fips_compress"
proof (intro ext)
  fix st :: sha1_state and block
  obtain a b c d e where st: "st = (a, b, c, d, e)" by (rule prod_cases5)
  obtain a' b' c' d' e' where "fips_rounds block 80 st = (a', b', c', d', e')" by (rule prod_cases5)
  then show "ws_sha1_transform st block = fips_compress st block"
    unfolding ws_sha1_transform_def fips_compress_def sha1_rounds_eq [OF order_refl] by (simp add: st)
qed

section \<open>The stream of blocks\<close>

text \<open>What a context stands for: a message of which the whole blocks are compressed and the rest
  is in the buffer.\<close>

definition sha1_holds :: "ws_sha1_ctx \<Rightarrow> bytes \<Rightarrow> bytes \<Rightarrow> bool" where
  "sha1_holds ctx a r \<longleftrightarrow> 64 dvd length a \<and> length r < 64 \<and> sc_state ctx = absorb fips_compress sha1_init_state a
     \<and> sc_count ctx = of_nat (8 * (length a + length r)) \<and> length (sc_buffer ctx) = 64
     \<and> take (length r) (sc_buffer ctx) = r"

lemma sha1_init_holds: "length buffer = 64 \<Longrightarrow> sha1_holds (ws_sha1_init buffer) [] []"
  by (simp add: sha1_holds_def ws_sha1_init_def absorb_short)

lemma buffer_index_count:
  assumes "sc_count ctx = of_nat (8 * n)"
  shows "buffer_index ctx = n mod 64"
proof -
  have m: "63 = (mask 6 :: 64 word)" by (simp add: mask_eq_exp_minus_1)
  have "unat (take_bit 6 (drop_bit 3 w)) = take_bit 6 (drop_bit 3 (unat w))" for w :: "64 word"
    using take_bit_nat_eq_self [OF unsigned_less [of w]]
    by (simp add: unsigned_take_bit_eq unsigned_drop_bit_eq)
  then have "buffer_index ctx = take_bit 6 (drop_bit 3 (unat (sc_count ctx)))"
    unfolding buffer_index_def m take_bit_eq_mask .
  then have "buffer_index ctx = 8 * n mod 2 ^ 64 div 8 mod 64"
    by (simp add: assms take_bit_eq_mod drop_bit_eq_div unat_of_nat del: of_nat_mult)
  also have "8 * n mod 2 ^ 64 = 8 * (n mod 2 ^ 61)"
    using mult_mod_right [of 8 n "2 ^ 61"] by simp
  also have "8 * (n mod 2 ^ 61) div 8 mod 64 = n mod 64"
    by (simp add: mod_mod_cancel)
  finally show ?thesis .
qed

lemma sha1_holds_index: "sha1_holds ctx a r \<Longrightarrow> buffer_index ctx = length r"
  using buffer_index_count [of ctx "length a + length r"]
  by (auto simp: sha1_holds_def elim!: dvdE)

lemma sha1_blocks_result:
  "i \<le> length data \<Longrightarrow> \<exists>k. sha1_blocks st data i = (absorb fips_compress st (take k (drop i data)), i + k)
     \<and> 64 dvd k \<and> i + k \<le> length data \<and> length data - (i + k) < 64"
proof (induction st data i rule: sha1_blocks.induct)
  case (1 st data i)
  show ?case
  proof (cases "i + 63 < length data")
    case True
    let ?b = "take 64 (drop i data)"
    have b: "length ?b = 64" using True by simp
    obtain k where k: "sha1_blocks (ws_sha1_transform st ?b) data (i + 64)
        = (absorb fips_compress (ws_sha1_transform st ?b) (take k (drop (i + 64) data)), i + 64 + k)"
      "64 dvd k" "i + 64 + k \<le> length data" "length data - (i + 64 + k) < 64"
      using 1 True by fastforce
    have "take (64 + k) (drop i data) = ?b @ take k (drop (i + 64) data)"
      unfolding take_add drop_drop by (simp add: add.commute)
    then have "sha1_blocks st data i = (absorb fips_compress st (take (64 + k) (drop i data)), i + (64 + k))"
      using True k(1) by (subst sha1_blocks.simps) (simp add: absorb_block [OF b] ws_sha1_transform_eq add.assoc)
    with k(2,3,4) show ?thesis by (intro exI [of _ "64 + k"]) auto
  next
    case False
    with "1.prems" show ?thesis
      by (intro exI [of _ 0]) (subst sha1_blocks.simps, simp add: absorb_short)
  qed
qed

text \<open>An update appends to the message.\<close>

lemma sha1_update_holds:
  assumes "sha1_holds ctx a r"
  shows "\<exists>a' r'. a' @ r' = a @ r @ data \<and> sha1_holds (ws_sha1_update ctx data) a' r'"
proof (cases "length r + length data > 63")
  case False
  have "sha1_holds (ws_sha1_update ctx data) a (r @ data)"
    using assms False sha1_holds_index [OF assms]
    by (auto simp: ws_sha1_update_def sha1_holds_def Let_def algebra_simps)
  then show ?thesis by fastforce
next
  case True
  let ?n = "64 - length r"
  let ?b = "r @ take ?n data"
  have ix: "buffer_index ctx = length r" by (rule sha1_holds_index [OF assms])
  have r: "length r < 64" "64 dvd length a" "take (length r) (sc_buffer ctx) = r"
    using assms by (auto simp: sha1_holds_def)
  have b: "length ?b = 64" using r True by simp
  obtain k where k: "sha1_blocks (fips_compress (sc_state ctx) ?b) data ?n
      = (absorb fips_compress (fips_compress (sc_state ctx) ?b) (take k (drop ?n data)), ?n + k)"
    "64 dvd k" "?n + k \<le> length data" "length data - (?n + k) < 64"
    using sha1_blocks_result [of ?n data "fips_compress (sc_state ctx) ?b"] True r(1) by fastforce
  let ?a = "a @ ?b @ take k (drop ?n data)" and ?r = "drop (?n + k) data"
  have "?r = drop k (drop ?n data)" by (simp only: drop_drop add.commute)
  then have cat: "?a @ ?r = a @ r @ data" by (simp only: append_assoc append_take_drop_id)
  have "absorb fips_compress sha1_init_state ?a = absorb fips_compress (fips_compress (sc_state ctx) ?b) (take k (drop ?n data))"
    using assms by (simp only: absorb_append [OF r(2)] absorb_block [OF b] sha1_holds_def)
  moreover have "ws_sha1_update ctx data =
      \<lparr>sc_state = absorb fips_compress (fips_compress (sc_state ctx) ?b) (take k (drop ?n data)),
       sc_count = sc_count ctx + of_nat (length data) * 8, sc_buffer = ?r @ drop (length data - (?n + k)) ?b\<rparr>"
    unfolding ws_sha1_update_def Let_def ix r(3) if_P [OF True] k(1) prod.case ws_sha1_transform_eq
    by (simp only: take_0 append_Nil add_0 length_drop drop_drop)
  moreover have "length ?a + length ?r = length a + (length r + length data)"
    using arg_cong [OF cat, of length] by simp
  moreover have "64 dvd length ?a" "length ?r < 64" using r b k by auto
  moreover from this have "length (?r @ drop (length data - (?n + k)) ?b) = 64" using b by simp
  moreover have "take (length ?r) (?r @ drop (length data - (?n + k)) ?b) = ?r" by simp
  moreover have "sc_count ctx + of_nat (length data) * 8 = of_nat (8 * (length a + (length r + length data)))"
    using assms by (simp add: sha1_holds_def algebra_simps)
  ultimately have "sha1_holds (ws_sha1_update ctx data) ?a ?r"
    unfolding sha1_holds_def by (simp only: ws_sha1_ctx.select_convs simp_thms)
  with cat show ?thesis by blast
qed

section \<open>The padding\<close>

lemma sha1_length_byte:
  "i < 8 \<Longrightarrow> (ucast (drop_bit (56 - i * 8) (of_nat x :: 64 word)) :: u8) = of_nat (x div 256 ^ (7 - i))"
proof -
  assume i: "i < 8"
  have "56 - i * 8 = 8 * (7 - i)" using i by simp
  then have "x div 256 ^ (7 - i) = drop_bit (56 - i * 8) x"
    by (simp add: drop_bit_eq_div power_mult)
  then show ?thesis
    by (intro bit_word_eqI) (use i in \<open>auto simp: bit_simps\<close>)
qed

lemma sha1_final_pads:
  assumes "sha1_holds ctx a r"
  shows "ws_sha1_final ctx = fips_sha1 (a @ r)"
proof -
  let ?n = "length a + length r" and ?l = "length r"
  let ?len = "map (\<lambda>i. ucast (drop_bit (56 - i * 8) (sc_count ctx))) [0..<8] :: bytes"
  have h: "64 dvd length a" "?l < 64" "sc_state ctx = absorb fips_compress sha1_init_state a"
    "sc_count ctx = of_nat (8 * ?n)" "take ?l (sc_buffer ctx) = r"
    using assms by (auto simp: sha1_holds_def)
  have ix: "buffer_index ctx = ?l" by (rule sha1_holds_index [OF assms])
  have len: "?len = map (\<lambda>i. of_nat ((8 * ?n) div 256 ^ (7 - i))) [0..<8]"
    by (intro map_cong refl) (simp only: h(4) sha1_length_byte set_upt atLeastLessThan_iff)
  have n: "int ?n mod 64 = int ?l" using h(1,2) by (auto elim!: dvdE)
  have pad: "fips_pad (a @ r)
      = a @ r @ [0x80] @ replicate (nat ((55 - int ?n) mod 64)) 0 @ ?len"
    by (simp only: fips_pad_def len length_append append_assoc)
  have out: "fips_sha1 m = (case absorb fips_compress sha1_init_state (fips_pad m) of (h0, h1, h2, h3, h4) \<Rightarrow>
        be_bytes32 h0 @ be_bytes32 h1 @ be_bytes32 h2 @ be_bytes32 h3 @ be_bytes32 h4)" for m
    by (simp only: fips_sha1_def absorb_def)
  show ?thesis
  proof (cases "?l + 1 > 56")
    case True
    let ?b1 = "r @ [0x80] @ replicate (64 - (?l + 1)) 0" and ?b2 = "replicate 56 0 @ ?len"
    have "(55 - int ?n) mod 64 = 119 - int ?l"
      using pad_mod [OF n, of 55 1] h(2) True by simp
    then have "nat ((55 - int ?n) mod 64) = (64 - (?l + 1)) + 56" using h(2) by simp
    then have "fips_pad (a @ r) = a @ ?b1 @ ?b2"
      unfolding pad by (simp only: replicate_add append_assoc)
    moreover have b: "length ?b1 = 64" "length ?b2 = 64" using h(2) True by auto
    ultimately have "absorb fips_compress sha1_init_state (fips_pad (a @ r))
        = fips_compress (fips_compress (sc_state ctx) ?b1) ?b2"
      using absorb_block [OF b(2), where m = "[]"]
      by (simp only: absorb_append [OF h(1)] absorb_block [OF b(1)] h(3) append_Nil2) (simp add: absorb_short)
    then show ?thesis
      unfolding out ws_sha1_final_def Let_def ix h(5) if_P [OF True] ws_sha1_transform_eq prod.case
      by (simp only: append_assoc append_Nil list.size diff_zero)
  next
    case False
    let ?b = "(r @ [0x80]) @ replicate (56 - length (r @ [0x80 :: u8])) 0 @ ?len"
    have "(55 - int ?n) mod 64 = 55 - int ?l"
      using pad_mod [OF n, of 55 0] False by simp
    then have "nat ((55 - int ?n) mod 64) = 56 - length (r @ [0x80 :: u8])" using h(2) by simp
    then have "fips_pad (a @ r) = a @ ?b"
      unfolding pad by (simp only: append_assoc)
    moreover have b: "length ?b = 64" using h(2) False by auto
    ultimately have "absorb fips_compress sha1_init_state (fips_pad (a @ r)) = fips_compress (sc_state ctx) ?b"
      using absorb_block [OF b, where m = "[]"]
      by (simp only: absorb_append [OF h(1)] h(3) append_Nil2) (simp add: absorb_short)
    then show ?thesis
      unfolding out ws_sha1_final_def Let_def ix h(5) if_not_P [OF False] ws_sha1_transform_eq prod.case
      by (simp only:)
  qed
qed

section \<open>The test vector of the standard\<close>

definition abc_block :: bytes where
  "abc_block = [0x61, 0x62, 0x63, 0x80] @ replicate 59 0 @ [24]"

definition abc_schedule :: "u32 list" where
  "abc_schedule =
    [1633837952, 0, 0, 0, 0, 0, 0, 0, 0, 0, 0, 0, 0, 0, 0, 24, 3267675904, 0, 48, 2240384513, 0, 
     96, 185801731, 48, 2240384705, 371603462, 0, 384, 743206924, 240, 2477765895, 1486413896, 
     2392494594, 1536, 2972827888, 371604422, 1321128990, 1650688161, 371603462, 6336, 
     3537975492, 3840, 989548665, 2307785957, 3803855915, 24768, 87701453, 1950713159, 
     3667138029, 641206806, 1650688929, 1321161950, 943043659, 62976, 512018339, 2564836760, 
     1696405152, 1650822305, 1166361814, 1146637495, 2074109465, 1669377698, 182801001, 
     1652246945, 2094292125, 983040, 4216354106, 3966199272, 3124505570, 6340608, 976735493, 
     1166362356, 3092880854, 940186150, 31465987, 3888919638, 3873835881, 16124416, 1469443919, 
     2184054905]"

lemma abc_words: "map (sha1_word abc_block) [0..<16] =
    [1633837952, 0, 0, 0, 0, 0, 0, 0, 0, 0, 0, 0, 0, 0, 0, 24]"
  by (simp add: upt_rec sha1_word_def abc_block_def nth_append)

lemma abc_schedule: "sha1_schedule abc_block = abc_schedule"
  unfolding sha1_schedule_def abc_words abc_schedule_def by (simp add: upt_rec rol_def)

lemmas abc_round = abc_schedule_def upt_rec sha1_round_def rol_def Let_def

lemma abc_rounds_0: "fold (sha1_round abc_schedule) [0..<20]
    (1732584193, 4023233417, 2562383102, 271733878, 3285377520) =
    (4254997885, 3697578013, 548051402, 3550778888, 3358553483)"
  by (simp add: abc_round)

lemma abc_rounds_1: "fold (sha1_round abc_schedule) [20..<40]
    (4254997885, 3697578013, 548051402, 3550778888, 3358553483) =
    (853417146, 1285055493, 4145604047, 64243702, 4147047474)"
  by (simp add: abc_round)

lemma abc_rounds_2: "fold (sha1_round abc_schedule) [40..<60]
    (853417146, 1285055493, 4145604047, 64243702, 4147047474) =
    (1062395482, 165119485, 882425812, 4061233743, 3617133995)"
  by (simp add: abc_round)

lemma abc_rounds_3: "fold (sha1_round abc_schedule) [60..<80]
    (1062395482, 165119485, 882425812, 4061233743, 3617133995) =
    (1112808245, 1463342561, 562251891, 1746824694, 3640522413)"
  by (simp add: abc_round)

lemma abc_rounds: "fold (sha1_round abc_schedule) [0..<80] (1732584193, 4023233417, 2562383102, 271733878, 3285377520) = (1112808245, 1463342561, 562251891, 1746824694, 3640522413)"
proof -
  have "[0..<80] = [0..<20] @ [20..<40] @ [40..<60] @ [60..<(80 :: nat)]" by (simp add: upt_rec)
  then show ?thesis by (simp only: fold_append comp_apply abc_rounds_0 abc_rounds_1 abc_rounds_2 abc_rounds_3)
qed

lemma ws_sha1_abc: "ws_sha1 (replicate 64 0) [0x61, 0x62, 0x63] =
    [169, 153, 62, 54, 71, 6, 129, 106, 186, 62, 37, 113, 120, 80, 194, 108, 156, 208, 216, 157]"
proof -
  let ?ctx = "ws_sha1_update (ws_sha1_init (replicate 64 0)) [0x61, 0x62, 0x63]"
  have ix: "buffer_index ?ctx = 3" and st: "sc_state ?ctx = sha1_init_state" and c: "sc_count ?ctx = 24"
    and b: "take 3 (sc_buffer ?ctx) = [0x61, 0x62, 0x63]"
    by (simp_all add: buffer_index_def ws_sha1_update_def ws_sha1_init_def Let_def)
  have blk: "([0x61, 0x62, 0x63] @ [0x80]) @ replicate (56 - length ([0x61, 0x62, 0x63] @ [0x80 :: u8])) 0
      @ map (\<lambda>i. ucast (drop_bit (56 - i * 8) (24 :: 64 word))) [0..<8] = abc_block"
  proof -
    have "replicate 59 0 = replicate 52 0 @ [0, 0, 0, 0, 0, 0, 0 :: u8]"
      using replicate_add [of 52 7 "0 :: u8"] by (simp add: numeral_eq_Suc)
    then show ?thesis by (simp add: abc_block_def upt_rec)
  qed
  have "ws_sha1_transform sha1_init_state abc_block = (2845392438, 1191608682, 3124634993, 2018558572, 2630932637)"
    unfolding ws_sha1_transform_def abc_schedule sha1_init_state_def
    by (simp only: abc_rounds prod.case) simp
  then show ?thesis
    unfolding ws_sha1_def ws_sha1_final_def Let_def ix st c b
    by (simp add: blk [simplified] be_bytes32_def)
qed

lemma sha1_updates_final:
  assumes "length buffer = 64"
  shows "ws_sha1_final (fold (\<lambda>data ctx. ws_sha1_update ctx data) datas (ws_sha1_init buffer))
           = fips_sha1 (concat datas)"
proof -
  have "\<exists>a' r'. a' @ r' = a @ r @ concat datas
      \<and> sha1_holds (fold (\<lambda>data ctx. ws_sha1_update ctx data) datas ctx) a' r'"
    if "sha1_holds ctx a r" for datas ctx a r
    using that
  proof (induction datas arbitrary: ctx a r)
    case (Cons d datas)
    obtain a' r' where u: "a' @ r' = a @ r @ d" "sha1_holds (ws_sha1_update ctx d) a' r'"
      using sha1_update_holds [OF Cons.prems] by blast
    obtain a'' r'' where "a'' @ r'' = a' @ r' @ concat datas"
      "sha1_holds (fold (\<lambda>data ctx. ws_sha1_update ctx data) datas (ws_sha1_update ctx d)) a'' r''"
      using Cons.IH [OF u(2)] by blast
    with u(1) show ?case by (metis append.assoc concat.simps(2) fold_simps(2))
  qed auto
  from this [OF sha1_init_holds [OF assms]] show ?thesis
    by (metis append_Nil sha1_final_pads)
qed

lemma ws_sha1_eq: "length buffer = 64 \<Longrightarrow> ws_sha1 buffer data = fips_sha1 data"
  using sha1_updates_final [of buffer "[data]"] by (simp add: ws_sha1_def)

lemma fips_sha1_length: "length (fips_sha1 m) = 20"
  by (simp add: fips_sha1_def be_bytes32_def split: prod.split)

text \<open>
  C9. The digest is SHA-1: whatever the uninitialised buffer holds and however the message is cut
  into updates, the streaming code returns what the standard defines: the padded message compressed
  block by block with the standard's recurrence and round functions.
\<close>

theorem ws_sha1_is_sha1:
  assumes "length buffer = 64"
  shows "ws_sha1_final (fold (\<lambda>data ctx. ws_sha1_update ctx data) datas (ws_sha1_init buffer))
           = fips_sha1 (concat datas)
     \<and> ws_sha1 buffer data = fips_sha1 data"
  using sha1_updates_final [OF assms] ws_sha1_eq [OF assms] by simp

theorem ws_sha1_is_sha1_witness:
  "fips_sha1 [0x61, 0x62, 0x63] =
    [169, 153, 62, 54, 71, 6, 129, 106, 186, 62, 37, 113, 120, 80, 194, 108, 156, 208, 216, 157]"
  using ws_sha1_is_sha1 [of "replicate 64 0" "[]" "[0x61, 0x62, 0x63]"] ws_sha1_abc by simp

end
