(* ===== verification/Websocket.thy ===== *)
theory Websocket imports Ws_Sha1 Telnet_Proto begin

text \<open>
  The WebSocket protocol of the web transport: \<^verbatim>\<open>plugins/websocket/ws_proto.c\<close> with the send
  and receive loops of \<^verbatim>\<open>ws_tls.c\<close>.  The socket (or the TLS session above it) is a
  script of what the coming receive calls find and of the outcomes of the coming send calls, with the bytes
  put on the wire so far; a receive takes at most as many bytes as it has room for and leaves the rest.
  Pointers into the request buffer are the strings that start there.
\<close>

section \<open>The socket\<close>

datatype recv_outcome = Recv bytes | RecvEintr | RecvFailed

record ws_io =
  wi_recv :: "recv_outcome list"
  wi_send :: "send_outcome list"
  wi_wire :: bytes

text \<open>A negative return is None; nothing received, a closed socket included, is the empty list.\<close>

fun recv_call :: "recv_outcome list \<Rightarrow> nat \<Rightarrow> bytes option \<times> recv_outcome list" where
  "recv_call [] len = (Some [], [])"
| "recv_call (Recv bs # script) len =
     (Some (take len bs), if len < length bs then Recv (drop len bs) # script else script)"
| "recv_call (RecvEintr # script) len = (None, script)"
| "recv_call (RecvFailed # script) len = (None, script)"

definition recv_some :: "recv_outcome list \<Rightarrow> nat \<Rightarrow> bytes option \<times> recv_outcome list" where
  "recv_some script len =
     (case recv_call script len of
        (None, script') \<Rightarrow> (if hd script = RecvEintr then Some [] else None, script')
      | r \<Rightarrow> r)"

fun ws_tls_recv :: "recv_outcome list \<Rightarrow> nat \<Rightarrow> bytes option \<times> recv_outcome list" where
  "ws_tls_recv (RecvEintr # script) len = ws_tls_recv script len"
| "ws_tls_recv script len = recv_call script len"

definition ws_recv_some :: "bool \<Rightarrow> ws_io \<Rightarrow> nat \<Rightarrow> bytes option \<times> ws_io" where
  "ws_recv_some tls io len =
     (case (if tls then ws_tls_recv (wi_recv io) len else recv_some (wi_recv io) len) of
        (r, script) \<Rightarrow> (r, io\<lparr>wi_recv := script\<rparr>))"

text \<open>Whether everything was sent, the rest of the script and the wire.\<close>

fun send_all :: "send_outcome list \<Rightarrow> bytes \<Rightarrow> bytes \<Rightarrow> bool \<times> send_outcome list \<times> bytes" where
  "send_all script wire [] = (True, script, wire)"
| "send_all [] wire (b # bs) = (True, [], wire @ b # bs)"
| "send_all (SendEintr # script) wire (b # bs) = send_all script wire (b # bs)"
| "send_all (SendFailed # script) wire (b # bs) = (False, script, wire)"
| "send_all (Sent n # script) wire (b # bs) =
     (if n = 0 then (False, script, wire)
      else send_all script (wire @ take n (b # bs)) (drop n (b # bs)))"

text \<open>The TLS loop repeats an interrupted \<^verbatim>\<open>SSL_write\<close> inside and stops at a count that is not positive.\<close>

fun ws_tls_send :: "send_outcome list \<Rightarrow> bytes \<Rightarrow> bytes \<Rightarrow> bool \<times> send_outcome list \<times> bytes" where
  "ws_tls_send script wire [] = (True, script, wire)"
| "ws_tls_send script wire (b # bs) =
     (case dropWhile (\<lambda>x. x = SendEintr) script of
        [] \<Rightarrow> (True, [], wire @ b # bs)
      | Sent n # script' \<Rightarrow>
          if n = 0 then (False, script', wire)
          else ws_tls_send script' (wire @ take n (b # bs)) (drop n (b # bs))
      | x # script' \<Rightarrow> (False, script', wire))"

definition ws_send_all :: "bool \<Rightarrow> ws_io \<Rightarrow> bytes \<Rightarrow> bool \<times> ws_io" where
  "ws_send_all tls io data =
     (case (if tls then ws_tls_send (wi_send io) (wi_wire io) data else send_all (wi_send io) (wi_wire io) data) of
        (ok, script, wire) \<Rightarrow> (ok, io\<lparr>wi_send := script, wi_wire := wire\<rparr>))"

section \<open>The connection\<close>

definition WS_HANDSHAKE_MAX :: nat where "WS_HANDSHAKE_MAX = 4096"
definition WS_FRAME_PAYLOAD_MAX :: nat where "WS_FRAME_PAYLOAD_MAX = 4096"
definition WS_RX_BUF :: nat where "WS_RX_BUF = WS_FRAME_PAYLOAD_MAX + 16"

record ws_connection =
  wc_fd :: int
  wc_tls :: bool
  wc_established :: bool
  wc_rx :: bytes

definition ws_connection_init :: "int \<Rightarrow> ws_connection" where
  "ws_connection_init fd = \<lparr>wc_fd = fd, wc_tls = False, wc_established = False, wc_rx = []\<rparr>"

definition ws_connection_set_tls :: "bool \<Rightarrow> ws_connection \<Rightarrow> ws_connection" where
  "ws_connection_set_tls tls ws = ws\<lparr>wc_tls := tls\<rparr>"

definition ws_connection_cleanup :: "ws_connection \<Rightarrow> ws_connection" where
  "ws_connection_cleanup ws = (if wc_tls ws then ws\<lparr>wc_tls := False\<rparr> else ws)"

section \<open>Frames\<close>

definition ws_unmask :: "bytes \<Rightarrow> bytes \<Rightarrow> bytes" where
  "ws_unmask m bs = map (\<lambda>i. bs ! i XOR m ! (i mod 4)) [0..<length bs]"

text \<open>The extended length field: the length and the header's size, or the code that refuses it.\<close>

definition ws_frame_length :: "bytes \<Rightarrow> nat \<times> nat" where
  "ws_frame_length frame =
     (let n = unat (frame ! 1 AND 0x7F)
      in if n = 126 then (unat (frame ! 2) * 256 + unat (frame ! 3), 4) else (n, 2))"

text \<open>The result, the socket, and the data called back.\<close>

definition ws_handle_frame :: "bool \<Rightarrow> ws_io \<Rightarrow> bytes \<Rightarrow> hybbx_result \<times> ws_io \<times> bytes list" where
  "ws_handle_frame tls io frame =
     (if length frame < 2 then (HYBBX_ERR_IO, io, [])
      else let opcode = frame ! 0 AND 0x0F in
        if frame ! 0 AND 0x80 = 0 then (HYBBX_ERR_UNSUPPORTED, io, [])
        else if frame ! 1 AND 0x80 = 0 then (HYBBX_ERR_IO, io, [])
        else if frame ! 1 AND 0x7F = 126 \<and> length frame < 4 then (HYBBX_ERR_IO, io, [])
        else if frame ! 1 AND 0x7F = 127 then (HYBBX_ERR_UNSUPPORTED, io, [])
        else case ws_frame_length frame of (payload_len, header_len) \<Rightarrow>
          if payload_len > WS_FRAME_PAYLOAD_MAX then (HYBBX_ERR_UNSUPPORTED, io, [])
          else if length frame < header_len + 4 + payload_len then (HYBBX_ERR_IO, io, [])
          else
            let payload = ws_unmask (take 4 (drop header_len frame))
                            (take payload_len (drop (header_len + 4) frame))
            in if opcode = 0x1 \<or> opcode = 0x2 then
                 (HYBBX_OK, io, if payload_len > 0 then [payload] else [])
               else if opcode = 0x8 then (HYBBX_ERR_IO, io, [])
               else if opcode = 0x9 then (HYBBX_OK, snd (ws_send_all tls io [0x8A, 0x00]), [])
               else (HYBBX_OK, io, []))"

text \<open>The loop over the buffered frames: the result, the socket, the buffer and the data called back.\<close>

function ws_frames_loop :: "bool \<Rightarrow> ws_io \<Rightarrow> bytes \<Rightarrow> hybbx_result \<times> ws_io \<times> bytes \<times> bytes list" where
  "ws_frames_loop tls io rx =
     (if length rx < 2 then (HYBBX_OK, io, rx, [])
      else if rx ! 1 AND 0x7F = 126 \<and> length rx < 4 then (HYBBX_OK, io, rx, [])
      else if rx ! 1 AND 0x7F = 127 then (HYBBX_ERR_UNSUPPORTED, io, rx, [])
      else case ws_frame_length rx of (payload_len, header_len) \<Rightarrow>
        if payload_len > WS_FRAME_PAYLOAD_MAX then (HYBBX_ERR_UNSUPPORTED, io, rx, [])
        else let frame_len = header_len + 4 + payload_len in
          if length rx < frame_len then (HYBBX_OK, io, rx, [])
          else case ws_handle_frame tls io (take frame_len rx) of (rc, io', data) \<Rightarrow>
            if rc \<noteq> HYBBX_OK then (rc, io', rx, data)
            else case ws_frames_loop tls io' (drop frame_len rx) of (rc', io'', rx', data') \<Rightarrow>
                   (rc', io'', rx', data @ data'))"
  by pat_completeness auto
termination by (relation "measure (\<lambda>(tls, io, rx). length rx)") auto

declare ws_frames_loop.simps [simp del]

definition ws_read_frames :: "ws_connection \<Rightarrow> ws_io \<Rightarrow> hybbx_result \<times> ws_connection \<times> ws_io \<times> bytes list" where
  "ws_read_frames ws io =
     (if \<not> wc_established ws then (HYBBX_ERR_INVALID, ws, io, [])
      else case ws_recv_some (wc_tls ws) io 256 of
        (None, io') \<Rightarrow> (HYBBX_ERR_IO, ws, io', [])
      | (Some tmp, io') \<Rightarrow>
          if tmp = [] then (HYBBX_ERR_IO, ws, io', [])
          else if length (wc_rx ws) + length tmp > WS_RX_BUF then (HYBBX_ERR_IO, ws\<lparr>wc_rx := []\<rparr>, io', [])
          else case ws_frames_loop (wc_tls ws) io' (wc_rx ws @ tmp) of (rc, io'', rx, data) \<Rightarrow>
                 (rc, ws\<lparr>wc_rx := rx\<rparr>, io'', data))"

definition ws_text_header :: "nat \<Rightarrow> bytes" where
  "ws_text_header len =
     (if len < 126 then [0x81, of_nat len]
      else [0x81, 126, ucast (of_nat (len div 256) AND 0xFF :: 64 word), ucast (of_nat len AND 0xFF :: 64 word)])"

definition ws_write_text :: "ws_connection \<Rightarrow> ws_io \<Rightarrow> bytes \<Rightarrow> hybbx_result \<times> ws_io" where
  "ws_write_text ws io data =
     (if \<not> wc_established ws then (HYBBX_ERR_INVALID, io)
      else if length data > WS_FRAME_PAYLOAD_MAX then (HYBBX_ERR_INVALID, io)
      else case ws_send_all (wc_tls ws) io (ws_text_header (length data)) of
        (ok, io') \<Rightarrow>
          if \<not> ok then (HYBBX_ERR_IO, io')
          else if length data > 0 then
            (case ws_send_all (wc_tls ws) io' data of (ok', io'') \<Rightarrow>
               if \<not> ok' then (HYBBX_ERR_IO, io'') else (HYBBX_OK, io''))
          else (HYBBX_OK, io'))"

definition ws_ping :: "ws_connection \<Rightarrow> ws_io \<Rightarrow> hybbx_result \<times> ws_io" where
  "ws_ping ws io =
     (if \<not> wc_established ws then (HYBBX_ERR_INVALID, io)
      else case ws_send_all (wc_tls ws) io [0x89, 0x00] of
        (ok, io') \<Rightarrow> (if \<not> ok then HYBBX_ERR_IO else HYBBX_OK, io'))"

definition ws_close :: "ws_connection \<Rightarrow> ws_io \<Rightarrow> hybbx_result \<times> ws_connection \<times> ws_io" where
  "ws_close ws io =
     (if wc_fd ws < 0 then (HYBBX_ERR_INVALID, ws, io)
      else (HYBBX_OK, ws\<lparr>wc_established := False\<rparr>, snd (ws_send_all (wc_tls ws) io [0x88, 0x00])))"

section \<open>Base64\<close>

definition base64_tbl :: string where
  "base64_tbl = ''ABCDEFGHIJKLMNOPQRSTUVWXYZabcdefghijklmnopqrstuvwxyz0123456789+/''"

definition base64_char :: "u32 \<Rightarrow> nat \<Rightarrow> char" where
  "base64_char v shift = base64_tbl ! unat (drop_bit shift v AND 63)"

text \<open>One round of the loop: three bytes, or the two or one that are left.\<close>

fun base64_groups :: "bytes \<Rightarrow> string" where
  "base64_groups [] = []"
| "base64_groups [a] =
     (let v = push_bit 16 (ucast a) in [base64_char v 18, base64_char v 12, CHR ''='', CHR ''=''])"
| "base64_groups [a, b] =
     (let v = push_bit 16 (ucast a) OR push_bit 8 (ucast b)
      in [base64_char v 18, base64_char v 12, base64_char v 6, CHR ''=''])"
| "base64_groups (a # b # c # rest) =
     (let v = push_bit 16 (ucast a) OR push_bit 8 (ucast b) OR ucast c
      in [base64_char v 18, base64_char v 12, base64_char v 6, base64_char v 0] @ base64_groups rest)"

definition base64_encode :: "bytes \<Rightarrow> nat \<Rightarrow> string option" where
  "base64_encode data out_len =
     (if out_len < (length data + 2) div 3 * 4 + 1 then None else Some (base64_groups data))"

section \<open>The handshake\<close>

definition WS_GUID :: string where "WS_GUID = ''258EAFA5-E914-47DA-95CA-C5AB0DC85B11''"

definition CRLF :: string where "CRLF = [CHR 0x0D, CHR 0x0A]"

text \<open>\<^verbatim>\<open>strncasecmp(a, b, n) == 0\<close> and \<^verbatim>\<open>strstr\<close>.\<close>

fun strncase_eq :: "string \<Rightarrow> string \<Rightarrow> nat \<Rightarrow> bool" where
  "strncase_eq a b 0 = True"
| "strncase_eq (a # as) (b # bs) (Suc n) = (c_tolower a = c_tolower b \<and> strncase_eq as bs n)"
| "strncase_eq [] [] (Suc n) = True"
| "strncase_eq (a # as) [] (Suc n) = False"
| "strncase_eq [] (b # bs) (Suc n) = False"

fun c_strstr :: "string \<Rightarrow> string \<Rightarrow> string option" where
  "c_strstr [] needle = (if needle = [] then Some [] else None)"
| "c_strstr (c # cs) needle =
     (if take (length needle) (c # cs) = needle then Some (c # cs) else c_strstr cs needle)"

fun header_has_token :: "string \<Rightarrow> string \<Rightarrow> bool" where
  "header_has_token [] token = False"
| "header_has_token (c # cs) token =
     (if strncase_eq (c # cs) token (length token) then True else header_has_token cs token)"

definition header_value_equals :: "string \<Rightarrow> string \<Rightarrow> bool" where
  "header_value_equals value expected =
     (if \<not> strncase_eq value expected (length expected) then False
      else case drop (length expected) value of
             [] \<Rightarrow> True
           | c # _ \<Rightarrow> c = CHR 0x0D \<or> c = CHR '' '' \<or> c = CHR 0x09 \<or> c = CHR '','')"

definition is_blank :: "char \<Rightarrow> bool" where
  "is_blank c \<longleftrightarrow> c = CHR '' '' \<or> c = CHR 0x09"

lemma c_strstr_length: "c_strstr s needle = Some t \<Longrightarrow> length t \<le> length s"
  by (induction s arbitrary: t) (auto split: if_splits intro: le_SucI)

function header_value :: "string \<Rightarrow> string \<Rightarrow> string option" where
  "header_value p name =
     (if p = [] then None
      else case c_strstr p CRLF of
             None \<Rightarrow> None
           | Some line_end \<Rightarrow>
               if length p - length line_end > length name + 2
                  \<and> strncase_eq p name (length name) \<and> p ! length name = CHR '':''
               then Some (dropWhile is_blank (drop (length name + 1) p))
               else header_value (drop 2 line_end) name)"
  by pat_completeness auto
termination
  by (relation "measure (\<lambda>(p, name). length p)") (auto dest!: c_strstr_length simp: neq_Nil_conv)

declare header_value.simps [simp del]

text \<open>What follows the first occurrence of a character (\<^verbatim>\<open>strchr\<close> and one step).\<close>

definition after_char :: "char \<Rightarrow> string \<Rightarrow> string option" where
  "after_char c s = (case dropWhile (\<lambda>x. x \<noteq> c) s of [] \<Rightarrow> None | _ # rest \<Rightarrow> Some rest)"

definition path_matches :: "string \<Rightarrow> string option \<Rightarrow> bool" where
  "path_matches request_line path =
     (if path = None \<or> path = Some [] then True
      else case after_char (CHR '' '') request_line of
        None \<Rightarrow> False
      | Some sp1 \<Rightarrow>
          if after_char (CHR '' '') sp1 = None then False
          else let uri = takeWhile (\<lambda>c. c \<noteq> CHR '' '') sp1; n = length (the path) in
            if length uri < n then False
            else if take n sp1 \<noteq> the path then False
            else sp1 ! n = CHR '' '' \<or> sp1 ! n = CHR ''?'')"

text \<open>The C string in the buffer; reading the request until its empty line or until the buffer is full.\<close>

definition c_string :: "string \<Rightarrow> string" where
  "c_string buf = takeWhile (\<lambda>c. c \<noteq> CHR 0x00) buf"

function handshake_recv :: "bool \<Rightarrow> ws_io \<Rightarrow> string \<Rightarrow> string option \<times> ws_io" where
  "handshake_recv tls io buf =
     (if length buf + 1 < WS_HANDSHAKE_MAX then
        case ws_recv_some tls io (WS_HANDSHAKE_MAX - 1 - length buf) of
          (None, io') \<Rightarrow> (None, io')
        | (Some [], io') \<Rightarrow> (None, io')
        | (Some (b # bs), io') \<Rightarrow>
            let buf' = buf @ string_of_bytes (b # bs)
            in if c_strstr (c_string buf') (CRLF @ CRLF) \<noteq> None then (Some buf', io')
               else handshake_recv tls io' buf'
      else (Some buf, io))"
  by pat_completeness auto
termination
  by (relation "measure (\<lambda>(tls, io, buf). WS_HANDSHAKE_MAX - length buf)") (auto simp: string_of_bytes_def)

declare handshake_recv.simps [simp del]

definition trim_key :: "string \<Rightarrow> string" where
  "trim_key key = rev (dropWhile is_blank (rev key))"

definition handshake_response :: "string \<Rightarrow> string" where
  "handshake_response accept_b64 =
     ''HTTP/1.1 101 Switching Protocols'' @ CRLF @ ''Upgrade: websocket'' @ CRLF
     @ ''Connection: Upgrade'' @ CRLF @ ''Sec-WebSocket-Accept: '' @ accept_b64 @ CRLF @ CRLF"

text \<open>What the request asks for: the key to answer, or the refusal.\<close>

definition handshake_key :: "string \<Rightarrow> string option \<Rightarrow> hybbx_result + string" where
  "handshake_key buf path =
     (if take 4 buf \<noteq> ''GET '' then Inl HYBBX_ERR_DENIED
      else case c_strstr buf CRLF of
        None \<Rightarrow> Inl HYBBX_ERR_DENIED
      | Some eol \<Rightarrow>
          let line_len = length buf - length eol in
          if line_len \<ge> 256 then Inl HYBBX_ERR_DENIED
          else if \<not> path_matches (take line_len buf) path then Inl HYBBX_ERR_DENIED
          else case (header_value buf ''Upgrade'', header_value buf ''Connection'') of
            (Some upgrade, Some connection) \<Rightarrow>
              if \<not> header_value_equals upgrade ''websocket'' \<or> \<not> header_has_token connection ''upgrade''
              then Inl HYBBX_ERR_DENIED
              else (case header_value buf ''Sec-WebSocket-Key'' of
                 None \<Rightarrow> Inl HYBBX_ERR_DENIED
               | Some key_hdr \<Rightarrow>
                   (case c_strstr key_hdr CRLF of
                      None \<Rightarrow> Inl HYBBX_ERR_DENIED
                    | Some key_end \<Rightarrow>
                        let key = trim_key (take (length key_hdr - length key_end) key_hdr)
                        in if length key \<ge> 128 then Inl HYBBX_ERR_DENIED else Inr key))
          | _ \<Rightarrow> Inl HYBBX_ERR_DENIED)"

definition ws_server_handshake ::
    "bytes \<Rightarrow> ws_connection \<Rightarrow> ws_io \<Rightarrow> string option \<Rightarrow> hybbx_result \<times> ws_connection \<times> ws_io" where
  "ws_server_handshake junk ws io path =
     (if wc_fd ws < 0 then (HYBBX_ERR_INVALID, ws, io)
      else case handshake_recv (wc_tls ws) io [] of
        (None, io') \<Rightarrow> (HYBBX_ERR_IO, ws, io')
      | (Some buf, io') \<Rightarrow>
          (case handshake_key (c_string buf) path of
             Inl rc \<Rightarrow> (rc, ws, io')
           | Inr key \<Rightarrow>
               let accept_src = c_snprintf 256 (key @ WS_GUID) in
               case base64_encode (ws_sha1 junk (bytes_of_string accept_src)) 64 of
                 None \<Rightarrow> (HYBBX_ERR_IO, ws, io')
               | Some accept_b64 \<Rightarrow>
                   (case ws_send_all (wc_tls ws) io'
                           (bytes_of_string (c_snprintf 512 (handshake_response accept_b64))) of
                      (ok, io'') \<Rightarrow>
                        if \<not> ok then (HYBBX_ERR_IO, ws, io'')
                        else (HYBBX_OK, ws\<lparr>wc_established := True, wc_rx := []\<rparr>, io''))))"

section \<open>Sending\<close>

lemma send_all_telnet:
  "send_all script wire data =
     (case telnet_send_loop script wire data of (rc, io) \<Rightarrow> (rc = HYBBX_OK, io_script io, io_wire io))"
  by (induction script wire data rule: send_all.induct) auto

lemma ws_tls_send_eq: "ws_tls_send script wire data = send_all script wire data"
proof (induction script wire data rule: send_all.induct)
  case (5 n script wire b bs)
  then show ?case by simp
qed auto

lemma send_all_open: "send_all [] wire data = (True, [], wire @ data)"
  by (cases data) auto

lemma ws_send_all_eq:
  "ws_send_all tls io data =
     (case send_all (wi_send io) (wi_wire io) data of
        (ok, script, wire) \<Rightarrow> (ok, io\<lparr>wi_send := script, wi_wire := wire\<rparr>))"
  by (simp add: ws_send_all_def ws_tls_send_eq)

lemma ws_send_all_recv [simp]: "wi_recv (snd (ws_send_all tls io data)) = wi_recv io"
  by (simp add: ws_send_all_eq split: prod.splits)

lemma ws_send_all_set_recv:
  "snd (ws_send_all tls (io\<lparr>wi_recv := r\<rparr>) data) = (snd (ws_send_all tls io data))\<lparr>wi_recv := r\<rparr>"
  by (simp add: ws_send_all_eq split: prod.splits)

lemma ws_send_all_result:
  "if fst (ws_send_all tls io data) then wi_wire (snd (ws_send_all tls io data)) = wi_wire io @ data
   else \<exists>k < length data. wi_wire (snd (ws_send_all tls io data)) = wi_wire io @ take k data"
  using telnet_send_loop_result [of "wi_send io" "wi_wire io" data]
  by (auto simp: ws_send_all_eq send_all_telnet split: prod.splits)

section \<open>Client frames\<close>

text \<open>What a client that follows the standard sends: whole messages in masked frames, other than
  close, of at most the payload the server takes.\<close>

record ws_frame =
  wf_opcode :: u8
  wf_mask :: bytes
  wf_payload :: bytes

definition ws_client_length :: "nat \<Rightarrow> bytes" where
  "ws_client_length n =
     (if n < 126 then [0x80 OR of_nat n] else [0xFE, of_nat (n div 256), of_nat (n mod 256)])"

definition ws_client_frame :: "ws_frame \<Rightarrow> bytes" where
  "ws_client_frame f =
     [0x80 OR wf_opcode f] @ ws_client_length (length (wf_payload f)) @ wf_mask f
     @ ws_unmask (wf_mask f) (wf_payload f)"

definition ws_frame_ok :: "ws_frame \<Rightarrow> bool" where
  "ws_frame_ok f \<longleftrightarrow> wf_opcode f AND 0x0F = wf_opcode f \<and> wf_opcode f \<noteq> 0x8 \<and> length (wf_mask f) = 4
     \<and> length (wf_payload f) \<le> WS_FRAME_PAYLOAD_MAX"

definition ws_frame_data :: "ws_frame \<Rightarrow> bytes list" where
  "ws_frame_data f =
     (if wf_opcode f \<in> {0x1, 0x2} \<and> wf_payload f \<noteq> [] then [wf_payload f] else [])"

definition ws_pong :: "bool \<Rightarrow> ws_io \<Rightarrow> ws_io" where
  "ws_pong tls io = snd (ws_send_all tls io [0x8A, 0x00])"

definition ws_pings :: "ws_frame list \<Rightarrow> nat" where
  "ws_pings fs = length (filter (\<lambda>f. wf_opcode f = 0x9) fs)"

lemma ws_unmask_length [simp]: "length (ws_unmask m bs) = length bs"
  by (simp add: ws_unmask_def)

lemma ws_unmask_unmask [simp]: "ws_unmask m (ws_unmask m bs) = bs"
  by (intro nth_equalityI) (auto simp: ws_unmask_def xor.assoc)

lemma u8_low7: "(0x80 OR x) AND 0x7F = x AND (0x7F :: u8)"
  by (simp add: bit.conj_disj_distrib2)

lemma u8_low7_of_nat: "n < 128 \<Longrightarrow> of_nat n AND 0x7F = (of_nat n :: u8)"
proof -
  assume n: "n < 128"
  have m: "0x7F = (mask 7 :: u8)" by (simp add: mask_eq_exp_minus_1)
  show ?thesis
    unfolding m take_bit_eq_mask [symmetric] using n
    by (subst word_unat_eq_iff) (simp add: unsigned_take_bit_eq take_bit_nat_eq_self unat_of_nat)
qed

lemma ws_client_length_facts:
  assumes "n \<le> WS_FRAME_PAYLOAD_MAX"
  shows "ws_client_length n ! 0 AND 0x80 = 0x80"
    and "ws_client_length n ! 0 AND 0x7F = (if n < 126 then of_nat n else 126)"
    and "length (ws_client_length n) = (if n < 126 then 1 else 3)"
    and "ws_frame_length (b # ws_client_length n @ rest) = (n, 1 + length (ws_client_length n))"
proof -
  show "ws_client_length n ! 0 AND 0x80 = 0x80"
    by (auto simp: ws_client_length_def intro!: bit_word_eqI simp: bit_simps)
  show low: "ws_client_length n ! 0 AND 0x7F = (if n < 126 then of_nat n else 126)"
    by (auto simp: ws_client_length_def u8_low7 u8_low7_of_nat)
  show len: "length (ws_client_length n) = (if n < 126 then 1 else 3)"
    by (simp add: ws_client_length_def)
  show "ws_frame_length (b # ws_client_length n @ rest) = (n, 1 + length (ws_client_length n))"
  proof (cases "n < 126")
    case True
    with low len show ?thesis
      by (simp add: ws_frame_length_def ws_client_length_def u8_low7 u8_low7_of_nat unat_of_nat)
  next
    case False
    then show ?thesis using assms
      by (simp add: ws_frame_length_def ws_client_length_def unat_of_nat WS_FRAME_PAYLOAD_MAX_def)
  qed
qed

lemma ws_client_frame_shape:
  "ws_client_frame f = (0x80 OR wf_opcode f) # ws_client_length (length (wf_payload f)) @ wf_mask f
     @ ws_unmask (wf_mask f) (wf_payload f)"
  by (simp add: ws_client_frame_def)

lemma ws_client_frame_length:
  "ws_frame_ok f \<Longrightarrow> length (ws_client_frame f)
     = (1 + length (ws_client_length (length (wf_payload f)))) + 4 + length (wf_payload f)"
  by (simp add: ws_client_frame_shape ws_frame_ok_def)

lemma ws_client_frame_head:
  assumes "ws_frame_ok f"
  shows "(ws_client_frame f @ rest) ! 1 = ws_client_length (length (wf_payload f)) ! 0"
    and "ws_frame_length (ws_client_frame f @ rest)
      = (length (wf_payload f), 1 + length (ws_client_length (length (wf_payload f))))"
  using assms ws_client_length_facts(3,4) [of "length (wf_payload f)"]
  by (auto simp: ws_client_frame_shape ws_frame_ok_def nth_append)

lemma ws_client_opcode:
  assumes "ws_frame_ok f"
  shows "(0x80 OR wf_opcode f) AND 0x0F = wf_opcode f" and "(0x80 OR wf_opcode f) AND 0x80 \<noteq> 0"
proof -
  have "(0x80 OR wf_opcode f) AND 0x0F = wf_opcode f AND 0x0F" by (simp add: bit.conj_disj_distrib2)
  with assms show "(0x80 OR wf_opcode f) AND 0x0F = wf_opcode f" by (simp add: ws_frame_ok_def)
  have "(0x80 OR wf_opcode f) AND 0x80 = 0x80" by (simp add: bit.conj_disj_distrib2 bit_eq_iff bit_simps)
  then show "(0x80 OR wf_opcode f) AND 0x80 \<noteq> 0" by simp
qed

lemma ws_handle_client_frame:
  assumes "ws_frame_ok f"
  shows "ws_handle_frame tls io (ws_client_frame f)
     = (HYBBX_OK, if wf_opcode f = 0x9 then ws_pong tls io else io, ws_frame_data f)"
proof -
  let ?n = "length (wf_payload f)"
  have n: "?n \<le> WS_FRAME_PAYLOAD_MAX" and m: "length (wf_mask f) = 4" and op: "wf_opcode f \<noteq> 8"
    using assms by (auto simp: ws_frame_ok_def)
  note l = ws_client_length_facts [OF n]
  let ?cl = "ws_client_length ?n"
  note head = ws_client_frame_head [OF assms, of "[]", unfolded append_Nil2]
  have b0: "ws_client_frame f ! 0 = 0x80 OR wf_opcode f" by (simp add: ws_client_frame_shape)
  have body: "drop (1 + length ?cl) (ws_client_frame f) = wf_mask f @ ws_unmask (wf_mask f) (wf_payload f)"
    by (simp add: ws_client_frame_shape)
  have "drop (1 + length ?cl + 4) (ws_client_frame f) = drop 4 (drop (1 + length ?cl) (ws_client_frame f))"
    by (simp only: drop_drop add.commute)
  with body m have masked: "take 4 (drop (1 + length ?cl) (ws_client_frame f)) = wf_mask f"
    "take ?n (drop (1 + length ?cl + 4) (ws_client_frame f)) = ws_unmask (wf_mask f) (wf_payload f)"
    by simp_all
  have short: "(of_nat ?n :: u8) \<noteq> 126" "(of_nat ?n :: u8) \<noteq> 127" if "?n < 126"
    using that by (simp_all add: word_unat_eq_iff unat_of_nat)
  have ext: "?cl ! 0 AND 0x7F \<noteq> 127" "?cl ! 0 AND 0x7F = 126 \<longrightarrow> length ?cl = 3"
    using l(2,3) short by (auto split: if_splits)
  have len: "length (ws_client_frame f) = 1 + length ?cl + 4 + ?n"
    by (rule ws_client_frame_length [OF assms])
  then have "\<not> (?cl ! 0 AND 0x7F = 126 \<and> length (ws_client_frame f) < 4)" "\<not> length (ws_client_frame f) < 2"
    using ext(2) by auto
  moreover have "?cl ! 0 AND 0x80 \<noteq> 0" using l(1) by simp
  moreover have "\<not> WS_FRAME_PAYLOAD_MAX < ?n" "\<not> length (ws_client_frame f) < 1 + length ?cl + 4 + ?n"
    using n len by auto
  ultimately show ?thesis
    unfolding ws_handle_frame_def head b0 ws_client_opcode(1) [OF assms] Let_def prod.case masked
    using ws_client_opcode(2) [OF assms] ext(1) op
    by (auto simp: ws_frame_data_def ws_pong_def)
qed

lemma ws_loop_frame:
  assumes "ws_frame_ok f"
  shows "ws_frames_loop tls io (ws_client_frame f @ rest) =
     (case ws_frames_loop tls (if wf_opcode f = 0x9 then ws_pong tls io else io) rest of
        (rc, io', rx, data) \<Rightarrow> (rc, io', rx, ws_frame_data f @ data))"
proof -
  let ?n = "length (wf_payload f)" and ?w = "ws_client_frame f @ rest"
  let ?cl = "ws_client_length ?n"
  have n: "?n \<le> WS_FRAME_PAYLOAD_MAX" using assms by (simp add: ws_frame_ok_def)
  note l = ws_client_length_facts [OF n] and head = ws_client_frame_head [OF assms, of rest]
  have short: "(of_nat ?n :: u8) \<noteq> 126" "(of_nat ?n :: u8) \<noteq> 127" if "?n < 126"
    using that by (simp_all add: word_unat_eq_iff unat_of_nat)
  have len: "length (ws_client_frame f) = 1 + length ?cl + 4 + ?n"
    by (rule ws_client_frame_length [OF assms])
  have g: "\<not> length ?w < 2" "\<not> (?w ! 1 AND 0x7F = 126 \<and> length ?w < 4)" "?w ! 1 AND 0x7F \<noteq> 127"
    using len l(2,3) short head(1) by (auto split: if_splits)
  have tk: "take (1 + length ?cl + 4 + ?n) ?w = ws_client_frame f" "drop (1 + length ?cl + 4 + ?n) ?w = rest"
    "\<not> length ?w < 1 + length ?cl + 4 + ?n" "\<not> WS_FRAME_PAYLOAD_MAX < ?n"
    using len n by simp_all
  show ?thesis
    by (subst ws_frames_loop.simps)
      (simp only: if_False g head(2) prod.case Let_def tk ws_handle_client_frame [OF assms] simp_thms)
qed

lemma ws_loop_partial:
  assumes "ws_frame_ok f" and "k < length (ws_client_frame f)"
  shows "ws_frames_loop tls io (take k (ws_client_frame f)) = (HYBBX_OK, io, take k (ws_client_frame f), [])"
proof -
  let ?n = "length (wf_payload f)" and ?w = "take k (ws_client_frame f)"
  let ?cl = "ws_client_length ?n"
  have n: "?n \<le> WS_FRAME_PAYLOAD_MAX" using assms by (simp add: ws_frame_ok_def)
  note l = ws_client_length_facts [OF n] and head = ws_client_frame_head [OF assms(1), of "[]", unfolded append_Nil2]
  have short: "(of_nat ?n :: u8) \<noteq> 126" "(of_nat ?n :: u8) \<noteq> 127" if "?n < 126"
    using that by (simp_all add: word_unat_eq_iff unat_of_nat)
  have len: "length (ws_client_frame f) = 1 + length ?cl + 4 + ?n"
    by (rule ws_client_frame_length [OF assms(1)])
  have lw: "length ?w = k" using assms(2) by simp
  show ?thesis
  proof (cases "k < 2 \<or> ?w ! 1 AND 0x7F = 126 \<and> k < 4")
    case True
    then show ?thesis by (subst ws_frames_loop.simps) (cases "k < 2"; auto simp: lw)
  next
    case False
    then have w1: "?w ! 1 = ?cl ! 0" using head(1) by simp
    have u: "unat x = 126 \<longleftrightarrow> x = 126" for x :: u8 by (simp add: word_unat_eq_iff)
    have eq: "ws_frame_length ?w = ws_frame_length (ws_client_frame f)"
      using False w1 head(1) by (auto simp: ws_frame_length_def Let_def u)
    have "?w ! 1 AND 0x7F \<noteq> 127" using w1 l(2) short by (auto split: if_splits)
    moreover have "length ?w < 1 + length ?cl + 4 + ?n" using assms(2) len by simp
    moreover have "\<not> WS_FRAME_PAYLOAD_MAX < ?n" using n by simp
    moreover have "\<not> length ?w < 2" "\<not> (?w ! 1 AND 0x7F = 126 \<and> length ?w < 4)" using False lw by auto
    ultimately show ?thesis
      by (subst ws_frames_loop.simps) (simp only: if_False if_True eq head(2) prod.case Let_def simp_thms)
  qed
qed

section \<open>The stream of frames\<close>

definition ws_wire :: "ws_frame list \<Rightarrow> bytes" where
  "ws_wire fs = concat (map ws_client_frame fs)"

definition ws_data :: "ws_frame list \<Rightarrow> bytes list" where
  "ws_data fs = concat (map ws_frame_data fs)"

lemma ws_wire_Cons [simp]: "ws_wire (f # fs) = ws_client_frame f @ ws_wire fs" "ws_wire [] = []"
  by (simp_all add: ws_wire_def)

lemma ws_data_Cons [simp]: "ws_data (f # fs) = ws_frame_data f @ ws_data fs" "ws_data [] = []"
  by (simp_all add: ws_data_def)

lemma ws_pings_Cons [simp]:
  "ws_pings (f # fs) = (if wf_opcode f = 0x9 then Suc (ws_pings fs) else ws_pings fs)" "ws_pings [] = 0"
  by (simp_all add: ws_pings_def)

lemma ws_pings_append: "ws_pings (xs @ ys) = ws_pings xs + ws_pings ys"
  by (simp add: ws_pings_def)

lemma ws_data_append: "ws_data (xs @ ys) = ws_data xs @ ws_data ys"
  by (simp add: ws_data_def)

text \<open>The incomplete frame at the end of the buffer.\<close>

definition ws_partial :: "bytes \<Rightarrow> ws_frame list \<Rightarrow> bool" where
  "ws_partial rx fs \<longleftrightarrow> rx = [] \<or> fs \<noteq> [] \<and> length rx < length (ws_client_frame (hd fs))"

lemma ws_loop_prefix:
  assumes "\<forall>f \<in> set fs. ws_frame_ok f" and "rx @ rest = ws_wire fs"
  shows "\<exists>k rx'. ws_frames_loop tls io rx
      = (HYBBX_OK, (ws_pong tls ^^ ws_pings (take k fs)) io, rx', ws_data (take k fs))
    \<and> rx' @ rest = ws_wire (drop k fs) \<and> ws_partial rx' (drop k fs)"
  using assms
proof (induction fs arbitrary: rx io)
  case Nil
  then show ?case by (simp add: ws_frames_loop.simps ws_partial_def)
next
  case (Cons f fs)
  show ?case
  proof (cases "length rx < length (ws_client_frame f)")
    case True
    with Cons.prems(2) have "rx = take (length rx) (ws_client_frame f)"
      by (simp add: append_eq_append_conv_if)
    with ws_loop_partial [of f "length rx" tls io] True Cons.prems
    have "ws_frames_loop tls io rx = (HYBBX_OK, io, rx, [])" by simp
    with Cons.prems(2) True show ?thesis by (intro exI [of _ 0]) (simp add: ws_partial_def)
  next
    case False
    from Cons.prems(2) obtain us where "rx = ws_client_frame f @ us \<or> rx @ us = ws_client_frame f"
      by (auto simp: append_eq_append_conv2)
    with False obtain rx1 where rx: "rx = ws_client_frame f @ rx1"
      by (metis append_Nil2 length_append length_0_conv add_cancel_right_right le_add1 le_antisym not_less)
    with Cons.prems(2) have r1: "rx1 @ rest = ws_wire fs" by simp
    let ?io = "if wf_opcode f = 0x9 then ws_pong tls io else io"
    obtain k rx' where k: "ws_frames_loop tls ?io rx1
        = (HYBBX_OK, (ws_pong tls ^^ ws_pings (take k fs)) ?io, rx', ws_data (take k fs))"
      "rx' @ rest = ws_wire (drop k fs)" "ws_partial rx' (drop k fs)"
      using Cons.IH [OF _ r1, of ?io] Cons.prems(1) by auto
    have "(ws_pong tls ^^ ws_pings (take k fs)) ?io = (ws_pong tls ^^ ws_pings (take (Suc k) (f # fs))) io"
      by (simp add: funpow_swap1)
    with k show ?thesis
      using Cons.prems(1) by (intro exI [of _ "Suc k"] exI [of _ rx']) (simp add: rx ws_loop_frame)
  qed
qed

text \<open>The transport's loop: it reads frames as long as that succeeds.\<close>

fun ws_session :: "nat \<Rightarrow> ws_connection \<Rightarrow> ws_io \<Rightarrow> hybbx_result \<times> ws_connection \<times> ws_io \<times> bytes list" where
  "ws_session 0 ws io = (HYBBX_OK, ws, io, [])"
| "ws_session (Suc n) ws io =
     (case ws_read_frames ws io of (rc, ws', io', data) \<Rightarrow>
        if rc \<noteq> HYBBX_OK then (rc, ws', io', data)
        else case ws_session n ws' io' of (rc', ws'', io'', data') \<Rightarrow> (rc', ws'', io'', data @ data'))"

text \<open>A frame that, cut off before its last byte, still leaves room for a whole receive.\<close>

definition ws_frame_fits :: "ws_frame \<Rightarrow> bool" where
  "ws_frame_fits f \<longleftrightarrow> ws_frame_ok f \<and> length (ws_client_frame f) + 255 \<le> WS_RX_BUF"

lemma ws_recv_chunk:
  "c \<noteq> [] \<Longrightarrow> length c \<le> 256 \<Longrightarrow> wi_recv io = Recv c # script \<Longrightarrow>
   ws_recv_some tls io 256 = (Some c, io\<lparr>wi_recv := script\<rparr>)"
  by (simp add: ws_recv_some_def recv_some_def)

lemma ws_pong_set_recv: "(ws_pong tls ^^ n) (io\<lparr>wi_recv := r\<rparr>) = ((ws_pong tls ^^ n) io)\<lparr>wi_recv := r\<rparr>"
  by (induction n) (auto simp: ws_pong_def ws_send_all_set_recv)

lemma ws_pong_recv [simp]: "wi_recv ((ws_pong tls ^^ n) io) = wi_recv io"
  by (induction n) (auto simp: ws_pong_def)

lemma ws_session_stream:
  assumes "\<forall>f \<in> set fs. ws_frame_fits f" and "\<forall>c \<in> set reads. c \<noteq> [] \<and> length c \<le> 256"
    and "wc_established ws" and "wi_recv io = map Recv reads"
    and "wc_rx ws @ concat reads = ws_wire fs" and "ws_partial (wc_rx ws) fs"
  shows "ws_session (length reads) ws io
    = (HYBBX_OK, ws\<lparr>wc_rx := []\<rparr>, ((ws_pong (wc_tls ws) ^^ ws_pings fs) io)\<lparr>wi_recv := []\<rparr>, ws_data fs)"
  using assms
proof (induction reads arbitrary: fs ws io)
  case Nil
  have "fs = []"
  proof (cases fs)
    case (Cons f fs')
    with Nil.prems(5,6) have "ws_client_frame f = []" by (auto simp: ws_partial_def)
    then show ?thesis by (simp add: ws_client_frame_def)
  qed simp
  with Nil.prems show ?case by simp
next
  case (Cons c reads)
  have ok: "\<forall>f \<in> set fs. ws_frame_ok f" using Cons.prems(1) by (auto simp: ws_frame_fits_def)
  have c: "c \<noteq> []" "length c \<le> 256" using Cons.prems(2) by auto
  have "fs \<noteq> []" using Cons.prems(5) c(1) by auto
  then have fit: "length (ws_client_frame (hd fs)) + 255 \<le> WS_RX_BUF" using Cons.prems(1) by (simp add: ws_frame_fits_def)
  have room: "\<not> WS_RX_BUF < length (wc_rx ws) + length c"
  proof (cases "wc_rx ws = []")
    case True
    with c(2) show ?thesis by (simp add: WS_RX_BUF_def WS_FRAME_PAYLOAD_MAX_def)
  next
    case False
    with Cons.prems(6) have "length (wc_rx ws) < length (ws_client_frame (hd fs))" by (simp add: ws_partial_def)
    with fit c(2) show ?thesis by simp
  qed
  let ?io = "io\<lparr>wi_recv := map Recv reads\<rparr>"
  have "(wc_rx ws @ c) @ concat reads = ws_wire fs" using Cons.prems(5) by simp
  from ws_loop_prefix [OF ok this, of "wc_tls ws" ?io] obtain k rx'
    where k: "ws_frames_loop (wc_tls ws) ?io (wc_rx ws @ c)
      = (HYBBX_OK, (ws_pong (wc_tls ws) ^^ ws_pings (take k fs)) ?io, rx', ws_data (take k fs))"
    "rx' @ concat reads = ws_wire (drop k fs)" "ws_partial rx' (drop k fs)"
    by blast
  let ?ws = "ws\<lparr>wc_rx := rx'\<rparr>" and ?io' = "(ws_pong (wc_tls ws) ^^ ws_pings (take k fs)) ?io"
  have step: "ws_read_frames ws io = (HYBBX_OK, ?ws, ?io', ws_data (take k fs))"
    using Cons.prems(3,4) c room k(1) by (simp add: ws_read_frames_def ws_recv_chunk)
  have "ws_session (length reads) ?ws ?io'
      = (HYBBX_OK, ?ws\<lparr>wc_rx := []\<rparr>, ((ws_pong (wc_tls ?ws) ^^ ws_pings (drop k fs)) ?io')\<lparr>wi_recv := []\<rparr>,
         ws_data (drop k fs))"
    using Cons.prems(1,2,3) k(2,3) by (intro Cons.IH) (auto dest: in_set_dropD)
  then have "ws_session (length (c # reads)) ws io = (HYBBX_OK, ws\<lparr>wc_rx := []\<rparr>,
      ((ws_pong (wc_tls ws) ^^ ws_pings (drop k fs)) ?io')\<lparr>wi_recv := []\<rparr>, ws_data (take k fs) @ ws_data (drop k fs))"
    using step by simp
  also have "(ws_pong (wc_tls ws) ^^ ws_pings (drop k fs)) ?io' = (ws_pong (wc_tls ws) ^^ ws_pings fs) ?io"
    using ws_pings_append [of "take k fs" "drop k fs"] by (simp add: funpow_add add.commute [of "ws_pings (take k fs)"])
  finally show ?case
    by (simp add: ws_pong_set_recv flip: ws_data_append)
qed

section \<open>Properties of the frame stream\<close>

text \<open>
  C8. WebSocket messages arrive: however the client's frames are cut into receives of at most 256
  bytes, and whatever the sends of the pongs do, the session gets the payloads of the text and
  binary frames, unmasked, in order, each once; every ping is answered with one pong, and the buffer
  ends empty.  The frames must leave room for one receive in the buffer.
\<close>

theorem ws_stream_delivery:
  assumes "\<forall>f \<in> set fs. ws_frame_fits f" and "\<forall>c \<in> set reads. c \<noteq> [] \<and> length c \<le> 256"
    and "concat reads = ws_wire fs" and "wc_established ws" and "wc_rx ws = []"
    and "wi_recv io = map Recv reads"
  shows "ws_session (length reads) ws io
    = (HYBBX_OK, ws, ((ws_pong (wc_tls ws) ^^ ws_pings fs) io)\<lparr>wi_recv := []\<rparr>, ws_data fs)"
proof -
  have "ws\<lparr>wc_rx := []\<rparr> = ws" using assms(5) by (cases ws) simp
  with ws_session_stream [OF assms(1,2,4,6)] assms(3,5) show ?thesis by (simp add: ws_partial_def)
qed

definition ws_example :: "ws_frame list" where
  "ws_example = [\<lparr>wf_opcode = 1, wf_mask = [1, 2, 3, 4], wf_payload = [0x68, 0x69]\<rparr>,
     \<lparr>wf_opcode = 9, wf_mask = [0, 0, 0, 0], wf_payload = []\<rparr>,
     \<lparr>wf_opcode = 2, wf_mask = [9, 9, 9, 9], wf_payload = [7]\<rparr>]"

definition ws_example_connection :: ws_connection where
  "ws_example_connection = \<lparr>wc_fd = 4, wc_tls = False, wc_established = True, wc_rx = []\<rparr>"

theorem ws_stream_delivery_witness:
  "\<exists>io'. ws_session 2 ws_example_connection
      \<lparr>wi_recv = [Recv [0x81, 0x82, 1, 2, 3], Recv [4, 0x69, 0x6B, 0x89, 0x80, 0, 0, 0, 0, 0x82, 0x81, 9, 9, 9, 9, 14]],
       wi_send = [], wi_wire = []\<rparr>
    = (HYBBX_OK, ws_example_connection, io', [[0x68, 0x69], [7]]) \<and> wi_wire io' = [0x8A, 0]"
proof -
  let ?reads = "[[0x81, 0x82, 1, 2, 3], [4, 0x69, 0x6B, 0x89, 0x80, 0, 0, 0, 0, 0x82, 0x81, 9, 9, 9, 9, 14]] :: bytes list"
  have wire: "concat ?reads = ws_wire ws_example"
    by (simp add: ws_example_def ws_client_frame_def ws_client_length_def ws_unmask_def)
  have fits: "\<forall>f \<in> set ws_example. ws_frame_fits f"
    by (simp add: ws_example_def ws_frame_fits_def ws_frame_ok_def ws_client_frame_length ws_client_length_def
        WS_RX_BUF_def WS_FRAME_PAYLOAD_MAX_def ws_client_frame_def)
  have p: "ws_pings ws_example = 1" "ws_data ws_example = [[0x68, 0x69], [7]]"
    by (simp_all add: ws_example_def ws_data_def ws_frame_data_def ws_pings_def)
  let ?io = "\<lparr>wi_recv = map Recv ?reads, wi_send = [], wi_wire = []\<rparr>"
  have "ws_session (length ?reads) ws_example_connection ?io
      = (HYBBX_OK, ws_example_connection, (ws_pong False ?io)\<lparr>wi_recv := []\<rparr>, [[0x68, 0x69], [7]])"
    using ws_stream_delivery [OF fits _ wire, of ws_example_connection ?io] p
    by (simp add: ws_example_connection_def)
  moreover have "wi_wire (ws_pong False ?io) = [0x8A, 0]"
    by (simp add: ws_pong_def ws_send_all_eq)
  moreover have "length ?reads = 2" by simp
  ultimately show ?thesis by (simp only: list.map) auto
qed

text \<open>
  C40. A large frame can cost the connection: a frame that the server accepts by its length, with a payload of more
  than 3,849 bytes, of which all but the last byte is buffered, is thrown away with the connection
  when the next receive brings the last byte together with 255 bytes of what follows it.
\<close>

theorem ws_large_frame_overflow:
  assumes "ws_frame_ok f" and "length (wf_payload f) > 3849" and "wc_established ws"
    and "wc_rx ws = butlast (ws_client_frame f)"
    and "wi_recv io = Recv (last (ws_client_frame f) # next) # script" and "length next = 255"
  shows "ws_read_frames ws io = (HYBBX_ERR_IO, ws\<lparr>wc_rx := []\<rparr>, io\<lparr>wi_recv := script\<rparr>, [])"
proof -
  have "length (wf_payload f) \<le> WS_FRAME_PAYLOAD_MAX" using assms(1) by (simp add: ws_frame_ok_def)
  then have "length (ws_client_frame f) = 8 + length (wf_payload f)"
    using ws_client_frame_length [OF assms(1)] ws_client_length_facts(3) [of "length (wf_payload f)"] assms(2) by simp
  with assms show ?thesis
    by (simp add: ws_read_frames_def ws_recv_some_def recv_some_def WS_RX_BUF_def WS_FRAME_PAYLOAD_MAX_def)
qed

theorem ws_large_frame_overflow_witness:
  "\<exists>ws io. fst (ws_read_frames ws io) = HYBBX_ERR_IO \<and> length (wc_rx ws) = 4103"
proof -
  let ?f = "\<lparr>wf_opcode = 1, wf_mask = [0, 0, 0, 0], wf_payload = replicate 4096 0\<rparr>"
  let ?ws = "ws_example_connection\<lparr>wc_rx := butlast (ws_client_frame ?f)\<rparr>"
  let ?io = "\<lparr>wi_recv = [Recv (last (ws_client_frame ?f) # replicate 255 0)], wi_send = [], wi_wire = []\<rparr>"
  have ok: "ws_frame_ok ?f" by (simp add: ws_frame_ok_def WS_FRAME_PAYLOAD_MAX_def)
  have "length (ws_client_frame ?f) = 4104"
    using ws_client_frame_length [OF ok] ws_client_length_facts(3) [of 4096] by (simp add: WS_FRAME_PAYLOAD_MAX_def)
  moreover have "fst (ws_read_frames ?ws ?io) = HYBBX_ERR_IO"
    using ws_large_frame_overflow [OF ok, of ?ws ?io "replicate 255 0" "[]"] by (simp add: ws_example_connection_def)
  ultimately show ?thesis by (intro exI [of _ ?ws] exI [of _ ?io]) simp
qed

text \<open>What a client reads back from a frame of the server: opcode, payload and the rest.\<close>

definition ws_server_parse :: "bytes \<Rightarrow> u8 \<times> bytes \<times> bytes" where
  "ws_server_parse bs =
     (case ws_frame_length bs of (n, h) \<Rightarrow> (bs ! 0 AND 0x0F, take n (drop h bs), drop (h + n) bs))"

lemma ws_text_header_parse:
  "length data \<le> WS_FRAME_PAYLOAD_MAX \<Longrightarrow>
   ws_server_parse (ws_text_header (length data) @ data @ rest) = (1, data, rest)"
proof -
  assume l: "length data \<le> WS_FRAME_PAYLOAD_MAX"
  have byte: "unat (ucast (of_nat k AND 0xFF :: 64 word) :: u8) = k mod 256" if "k < 2 ^ 16" for k
  proof -
    have "0xFF = (mask 8 :: 64 word)" by (simp add: mask_eq_exp_minus_1)
    then have "of_nat k AND 0xFF = (take_bit 8 (of_nat k) :: 64 word)" by (simp only: take_bit_eq_mask)
    moreover have "unat (take_bit 8 (of_nat k) :: 64 word) = k mod 256"
      using that by (simp only: unsigned_take_bit_eq) (simp add: take_bit_eq_mod unat_of_nat)
    ultimately show ?thesis by (simp add: unsigned_ucast_eq take_bit_eq_mod)
  qed
  show ?thesis
  proof (cases "length data < 126")
    case True
    then have "of_nat (length data) AND 0x7F = (of_nat (length data) :: u8)" by (intro u8_low7_of_nat) simp
    with True show ?thesis
      by (simp add: ws_server_parse_def ws_frame_length_def ws_text_header_def unat_of_nat)
  next
    case False
    have "length data < 2 ^ 16" "length data div 256 < 2 ^ 16" "length data div 256 mod 256 = length data div 256"
      using l by (simp_all add: WS_FRAME_PAYLOAD_MAX_def)
    moreover have "drop (4 + n) (a # b # c # d # xs) = drop n xs" for n and a b c d :: u8 and xs
      by (simp add: numeral_eq_Suc)
    ultimately show ?thesis using False byte [of "length data div 256"] byte [of "length data"]
      by (simp add: ws_server_parse_def ws_frame_length_def ws_text_header_def mult.commute)
  qed
qed

text \<open>
  What the server writes is one whole text frame: when \<open>ws_write_text\<close> reports success, the
  bytes added to the wire parse, by the standard's frame layout, as one final text frame with the
  data as its payload and nothing behind it.
\<close>

theorem ws_write_text_frame:
  assumes "ws_write_text ws io data = (HYBBX_OK, io')"
  shows "\<exists>added. wi_wire io' = wi_wire io @ added \<and> ws_server_parse added = (1, data, []) \<and> hd added AND 0x80 \<noteq> 0"
proof -
  have l: "length data \<le> WS_FRAME_PAYLOAD_MAX" using assms by (simp add: ws_write_text_def split: if_splits)
  let ?h = "ws_text_header (length data)"
  have "wi_wire io' = wi_wire io @ ?h @ data"
    using assms ws_send_all_result [of "wc_tls ws" io ?h]
      ws_send_all_result [of "wc_tls ws" "snd (ws_send_all (wc_tls ws) io ?h)" data]
    by (auto simp: ws_write_text_def split: if_splits prod.splits)
  moreover have "hd (?h @ data) AND 0x80 \<noteq> 0" by (simp add: ws_text_header_def)
  ultimately show ?thesis using ws_text_header_parse [OF l, of "[]"] by auto
qed

theorem ws_write_text_frame_witness:
  "\<exists>added. wi_wire (snd (ws_write_text ws_example_connection \<lparr>wi_recv = [], wi_send = [Sent 1, SendEintr], wi_wire = []\<rparr> [0x68, 0x69]))
     = added \<and> ws_server_parse added = (1, [0x68, 0x69], [])"
proof -
  let ?io = "\<lparr>wi_recv = [], wi_send = [Sent 1, SendEintr], wi_wire = []\<rparr>"
  have "ws_write_text ws_example_connection ?io [0x68, 0x69] = (HYBBX_OK, \<lparr>wi_recv = [], wi_send = [], wi_wire = [0x81, 2, 0x68, 0x69]\<rparr>)"
    by (simp add: ws_write_text_def ws_example_connection_def WS_FRAME_PAYLOAD_MAX_def ws_send_all_eq ws_text_header_def)
  from ws_write_text_frame [OF this] this show ?thesis by simp
qed

section \<open>Base64\<close>

text \<open>The standard's decoder.\<close>

definition base64_value :: "char \<Rightarrow> u32" where
  "base64_value c = (case find_slot (\<lambda>x. x = c) base64_tbl of None \<Rightarrow> 0 | Some k \<Rightarrow> of_nat k)"

definition base64_word :: "char \<Rightarrow> char \<Rightarrow> char \<Rightarrow> char \<Rightarrow> u32" where
  "base64_word a b c d = push_bit 18 (base64_value a) OR push_bit 12 (base64_value b)
     OR push_bit 6 (base64_value c) OR base64_value d"

fun base64_decode :: "string \<Rightarrow> bytes option" where
  "base64_decode [] = Some []"
| "base64_decode (a # b # c # d # rest) =
     (let v = base64_word a b c d in
      if d = CHR ''='' then
        (if rest \<noteq> [] then None
         else if c = CHR ''='' then Some [ucast (drop_bit 16 v)]
         else Some [ucast (drop_bit 16 v), ucast (drop_bit 8 v)])
      else map_option (\<lambda>bs. [ucast (drop_bit 16 v), ucast (drop_bit 8 v), ucast v] @ bs) (base64_decode rest))"
| "base64_decode _ = None"

lemma base64_tbl_facts: "length base64_tbl = 64" "distinct base64_tbl" "CHR ''='' \<notin> set base64_tbl"
  by (simp_all add: base64_tbl_def)

lemma base64_index: "unat (drop_bit s v AND 63) < 64" for v :: u32
proof -
  have "63 = (mask 6 :: u32)" by (simp add: mask_eq_exp_minus_1)
  then show ?thesis
    by (simp only: take_bit_eq_mask [symmetric] unsigned_take_bit_eq) (simp add: take_bit_eq_mod)
qed

lemma base64_value_char: "base64_value (base64_char v s) = drop_bit s v AND 63"
proof -
  let ?k = "unat (drop_bit s v AND 63)"
  have k: "?k < length base64_tbl" using base64_index base64_tbl_facts(1) by simp
  have "find_slot (\<lambda>x. x = base64_tbl ! ?k) base64_tbl \<noteq> None"
    using k by (auto simp: find_slot_None_iff)
  then obtain i where i: "find_slot (\<lambda>x. x = base64_tbl ! ?k) base64_tbl = Some i" by blast
  from find_slot_Some [OF this] k have "i = ?k" using nth_eq_iff_index_eq [OF base64_tbl_facts(2)] by blast
  with i show ?thesis by (simp add: base64_value_def base64_char_def)
qed

lemma base64_char_not_pad [simp]: "base64_char v s \<noteq> CHR ''=''"
  unfolding base64_char_def using base64_index base64_tbl_facts by (metis nth_mem)

lemma base64_value_pad: "base64_value (CHR ''='') = 0"
proof -
  have "find_slot (\<lambda>x. x = CHR ''='') base64_tbl = None"
    using base64_tbl_facts(3) by (auto simp: find_slot_None_iff)
  then show ?thesis by (simp add: base64_value_def)
qed

lemma mask_63: "(63 :: u32) = mask 6"
  by (simp add: mask_eq_exp_minus_1)

definition base64_join :: "u8 \<Rightarrow> u8 \<Rightarrow> u8 \<Rightarrow> u32" where
  "base64_join a b c = push_bit 16 (ucast a) OR push_bit 8 (ucast b) OR ucast c"

lemma base64_join_bit:
  "bit (base64_join a b c) n \<longleftrightarrow>
     (if n < 8 then bit c n else if n < 16 then bit b (n - 8) else n < 24 \<and> bit a (n - 16))"
  by (auto simp: base64_join_def bit_simps dest: bit_imp_le_length)

lemma base64_regroup:
  "push_bit 18 (drop_bit 18 v AND 63) OR push_bit 12 (drop_bit 12 v AND 63)
     OR push_bit 6 (drop_bit 6 v AND 63) OR (drop_bit 0 v AND 63) = v"
  if "v = base64_join a b c" for v :: u32
proof (rule bit_word_eqI)
  fix n :: nat assume n: "n < LENGTH(32)"
  have high: "\<not> bit v n" if "24 \<le> n" using that by (simp add: \<open>v = _\<close> base64_join_bit)
  have field: "bit (push_bit s (drop_bit s v AND 63)) n \<longleftrightarrow> s \<le> n \<and> n < s + 6 \<and> bit v n" for s
    using n unfolding mask_63 by (auto simp: bit_simps)
  have field0: "bit (drop_bit 0 v AND 63) n \<longleftrightarrow> n < 6 \<and> bit v n"
    using field [of 0] by simp
  have "bit v n \<longleftrightarrow> (18 \<le> n \<and> n < 24 \<or> 12 \<le> n \<and> n < 18 \<or> 6 \<le> n \<and> n < 12 \<or> n < 6) \<and> bit v n"
    using high by linarith
  then show "bit (push_bit 18 (drop_bit 18 v AND 63) OR push_bit 12 (drop_bit 12 v AND 63)
     OR push_bit 6 (drop_bit 6 v AND 63) OR (drop_bit 0 v AND 63)) n = bit v n"
    unfolding bit_or_iff field field0 by auto
qed

lemma base64_split:
  "ucast (drop_bit 16 (base64_join a b c)) = a" "ucast (drop_bit 8 (base64_join a b c)) = b"
  "ucast (base64_join a b c) = c"
  by (rule bit_word_eqI; auto simp: bit_simps base64_join_bit)+

lemma base64_low_zero:
  "(drop_bit 6 (base64_join a 0 0) AND 63) = 0" "(drop_bit 0 (base64_join a b 0) AND 63) = 0"
  unfolding mask_63 by (rule bit_word_eqI; auto simp: bit_simps base64_join_bit)+

lemma base64_word_chars:
  fixes a b c :: u8
  defines "v3 \<equiv> base64_join a b c" and "v2 \<equiv> base64_join a b 0" and "v1 \<equiv> base64_join a 0 0"
  shows "base64_word (base64_char v3 18) (base64_char v3 12) (base64_char v3 6) (base64_char v3 0) = v3"
    and "base64_word (base64_char v2 18) (base64_char v2 12) (base64_char v2 6) (CHR ''='') = v2"
    and "base64_word (base64_char v1 18) (base64_char v1 12) (CHR ''='') (CHR ''='') = v1"
proof -
  have "(push_bit 6 0 :: u32) = drop_bit 6 v1 AND 63 OR 0" "push_bit 6 (0 :: u32) = 0"
    using base64_low_zero(1) [of a] by (simp_all add: v1_def)
  then show "base64_word (base64_char v1 18) (base64_char v1 12) (CHR ''='') (CHR ''='') = v1"
    using base64_regroup [OF meta_eq_to_obj_eq [OF v1_def]] base64_low_zero [of a, folded v1_def]
      base64_low_zero(2) [of a 0, folded v1_def]
    by (simp only: base64_word_def base64_value_char base64_value_pad)
  show "base64_word (base64_char v2 18) (base64_char v2 12) (base64_char v2 6) (CHR ''='') = v2"
    using base64_regroup [OF meta_eq_to_obj_eq [OF v2_def]] base64_low_zero(2) [of a b, folded v2_def]
    by (simp only: base64_word_def base64_value_char base64_value_pad)
  show "base64_word (base64_char v3 18) (base64_char v3 12) (base64_char v3 6) (base64_char v3 0) = v3"
    using base64_regroup [OF meta_eq_to_obj_eq [OF v3_def]] by (simp only: base64_word_def base64_value_char)
qed

lemma base64_groups_length: "length (base64_groups data) = (length data + 2) div 3 * 4"
proof (induction data rule: base64_groups.induct)
  case (4 a b c rest)
  have "(length (a # b # c # rest) + 2) div 3 = Suc ((length rest + 2) div 3)" by simp
  with 4 show ?case by (simp only: base64_groups.simps Let_def) simp
qed (simp_all add: Let_def)

text \<open>
  The accept key can be read back: Base64 text decodes, by the standard's decoder, to the bytes
  that were encoded, and has exactly four characters for every three bytes begun, which with the
  terminator is exactly the room the encoder asks for.
\<close>

theorem base64_roundtrip:
  "base64_decode (base64_groups data) = Some data
   \<and> length (base64_groups data) = (length data + 2) div 3 * 4
   \<and> (base64_encode data out_len = None \<longleftrightarrow> out_len < length (base64_groups data) + 1)"
proof -
  have "base64_decode (base64_groups data) = Some data"
  proof (induction data rule: base64_groups.induct)
    case (2 a)
    have "push_bit 16 (ucast a) = base64_join a 0 0" by (simp add: base64_join_def)
    then show ?case by (simp add: Let_def base64_word_chars base64_split)
  next
    case (3 a b)
    have "push_bit 16 (ucast a) OR push_bit 8 (ucast b) = base64_join a b 0" by (simp add: base64_join_def)
    then show ?case by (simp add: Let_def base64_word_chars base64_split)
  next
    case (4 a b c rest)
    then show ?case
      by (simp add: Let_def base64_word_chars base64_split flip: base64_join_def)
  qed simp
  then show ?thesis by (simp add: base64_encode_def base64_groups_length)
qed

section \<open>The handshake\<close>

lemma ws_recv_some_keeps:
  "ws_recv_some tls io n = (r, io') \<Longrightarrow> wi_wire io' = wi_wire io \<and> wi_send io' = wi_send io"
  by (auto simp: ws_recv_some_def split: prod.splits)

lemma handshake_recv_keeps:
  "handshake_recv tls io buf = (r, io') \<Longrightarrow> wi_wire io' = wi_wire io \<and> wi_send io' = wi_send io"
proof (induction tls io buf arbitrary: r io' rule: handshake_recv.induct)
  case (1 tls io buf)
  show ?case
  proof (cases "length buf + 1 < WS_HANDSHAKE_MAX")
    case False
    with "1.prems" show ?thesis by (subst (asm) handshake_recv.simps) simp
  next
    case True
    obtain q io1 where q: "ws_recv_some tls io (WS_HANDSHAKE_MAX - 1 - length buf) = (q, io1)" by fastforce
    note keep = ws_recv_some_keeps [OF q]
    show ?thesis
    proof (cases "q = None \<or> q = Some []")
      case True
      with "1.prems" q keep \<open>length buf + 1 < WS_HANDSHAKE_MAX\<close> show ?thesis
        by (subst (asm) handshake_recv.simps) auto
    next
      case False
      then obtain b bs where b: "q = Some (b # bs)" by (cases q) (auto simp: neq_Nil_conv)
      let ?buf = "buf @ string_of_bytes (b # bs)"
      show ?thesis
      proof (cases "c_strstr (c_string ?buf) (CRLF @ CRLF) = None")
        case True
        with "1.prems" q b \<open>length buf + 1 < WS_HANDSHAKE_MAX\<close> have "handshake_recv tls io1 ?buf = (r, io')"
          by (subst (asm) handshake_recv.simps) simp
        from "1.IH" [OF \<open>length buf + 1 < WS_HANDSHAKE_MAX\<close> q [symmetric] b refl refl _ this] True keep
        show ?thesis by auto
      next
        case False
        with "1.prems" q b keep \<open>length buf + 1 < WS_HANDSHAKE_MAX\<close> show ?thesis
          by (subst (asm) handshake_recv.simps) auto
      qed
    qed
  qed
qed

lemma handshake_key_length: "handshake_key buf path = Inr key \<Longrightarrow> length key < 128"
  by (auto simp: handshake_key_def Let_def split: if_splits option.splits)

lemma handshake_key_denied: "handshake_key buf path = Inl rc \<Longrightarrow> rc = HYBBX_ERR_DENIED"
  by (auto simp: handshake_key_def Let_def split: if_splits option.splits)

definition ws_accept_value :: "string \<Rightarrow> string" where
  "ws_accept_value key = base64_groups (fips_sha1 (bytes_of_string (key @ WS_GUID)))"

lemma ws_accept_fits:
  assumes "length key < 128" and "length junk = 64"
  shows "base64_encode (ws_sha1 junk (bytes_of_string (c_snprintf 256 (key @ WS_GUID)))) 64 = Some (ws_accept_value key)"
    and "c_snprintf 512 (handshake_response (ws_accept_value key)) = handshake_response (ws_accept_value key)"
proof -
  have "length (key @ WS_GUID) < 256" using assms(1) by (simp add: WS_GUID_def)
  then show "base64_encode (ws_sha1 junk (bytes_of_string (c_snprintf 256 (key @ WS_GUID)))) 64 = Some (ws_accept_value key)"
    by (simp add: c_snprintf_def base64_encode_def ws_sha1_eq [OF assms(2)] fips_sha1_length ws_accept_value_def)
  have "length (ws_accept_value key) = 28" by (simp add: ws_accept_value_def base64_groups_length fips_sha1_length)
  then show "c_snprintf 512 (handshake_response (ws_accept_value key)) = handshake_response (ws_accept_value key)"
    by (simp add: c_snprintf_def handshake_response_def CRLF_def)
qed

text \<open>
  What a request must say, without the parser: its first line is a GET of the path, alone or with a query, shorter
  than 256 characters; and at the start of lines there are the headers that ask for the upgrade and give the key.
\<close>

definition header_line :: "string \<Rightarrow> string \<Rightarrow> string \<Rightarrow> bool" where
  "header_line buf name value \<longleftrightarrow>
     (\<exists>pre field blanks. buf = pre @ field @ '':'' @ blanks @ value \<and> (pre = [] \<or> (\<exists>q. pre = q @ CRLF))
        \<and> map c_tolower field = map c_tolower name \<and> list_all is_blank blanks)"

definition upgrade_request :: "string \<Rightarrow> string option \<Rightarrow> string \<Rightarrow> bool" where
  "upgrade_request buf path key \<longleftrightarrow>
     (\<exists>line rest. buf = line @ CRLF @ rest \<and> length line < 256 \<and> take 4 buf = ''GET ''
        \<and> (path \<noteq> None \<and> path \<noteq> Some [] \<longrightarrow> (\<exists>c tail. line = ''GET '' @ the path @ c # tail \<and> c \<in> {CHR '' '', CHR ''?''})))
     \<and> (\<exists>w tail. header_line buf ''Upgrade'' (w @ tail) \<and> map c_tolower w = ''websocket''
          \<and> (tail = [] \<or> hd tail \<in> {CHR 0x0D, CHR '' '', CHR 0x09, CHR '',''}))
     \<and> (\<exists>pre t tail. header_line buf ''Connection'' (pre @ t @ tail) \<and> map c_tolower t = ''upgrade'')
     \<and> (\<exists>blanks rest. header_line buf ''Sec-WebSocket-Key'' (key @ blanks @ CRLF @ rest) \<and> list_all is_blank blanks
          \<and> length key < 128)"

lemma c_strstr_Some: "c_strstr s needle = Some t \<Longrightarrow> \<exists>pre rest. s = pre @ t \<and> t = needle @ rest"
proof (induction s arbitrary: t)
  case (Cons c cs)
  show ?case
  proof (cases "take (length needle) (c # cs) = needle")
    case True
    then have "t = c # cs" using Cons.prems by simp
    moreover have "c # cs = needle @ drop (length needle) (c # cs)" by (metis True append_take_drop_id)
    ultimately show ?thesis by (metis append_Nil)
  next
    case False
    then obtain pre rest where "cs = pre @ t" "t = needle @ rest" using Cons by auto
    then show ?thesis by (metis append_Cons)
  qed
qed (auto split: if_splits)

lemma strncase_eq_take: "strncase_eq a b n \<Longrightarrow> n = length b \<Longrightarrow> map c_tolower (take n a) = map c_tolower b"
  by (induction a b n rule: strncase_eq.induct) auto

lemma list_all_takeWhile_blank: "list_all is_blank (takeWhile is_blank s)"
  by (auto simp: list_all_iff dest: set_takeWhileD)

lemma header_value_line: "header_value p name = Some v \<Longrightarrow> header_line p name v"
proof (induction p name rule: header_value.induct)
  case (1 p name)
  then obtain line_end where e: "p \<noteq> []" "c_strstr p CRLF = Some line_end"
    by (subst (asm) (2) header_value.simps) (auto split: if_splits option.splits)
  then obtain pre rest where s: "p = pre @ line_end" "line_end = CRLF @ rest" using c_strstr_Some by blast
  let ?here = "length p - length line_end > length name + 2 \<and> strncase_eq p name (length name) \<and> p ! length name = CHR '':''"
  show ?case
  proof (cases ?here)
    case True
    then have v: "v = dropWhile is_blank (drop (length name + 1) p)"
      using "1.prems" e by (subst (asm) header_value.simps) simp
    have l: "length name < length p" using True by linarith
    have p: "p = take (length name) p @ p ! length name # drop (Suc (length name)) p" by (rule id_take_nth_drop [OF l])
    have "drop (length name + 1) p = takeWhile is_blank (drop (length name + 1) p) @ v" unfolding v by simp
    with p True have "p = [] @ take (length name) p @ '':'' @ takeWhile is_blank (drop (length name + 1) p) @ v" by simp
    then show ?thesis unfolding header_line_def
      using strncase_eq_take [of p name "length name"] True by (metis list_all_takeWhile_blank)
  next
    case False
    then have "header_value (drop 2 line_end) name = Some v" using "1.prems" e by (subst (asm) header_value.simps) auto
    then have "header_line (drop 2 line_end) name v" using "1.IH" [OF e False] by blast
    moreover have "drop 2 line_end = rest" using s(2) by (simp add: CRLF_def)
    ultimately obtain pre' field blanks where r: "rest = pre' @ field @ '':'' @ blanks @ v" "pre' = [] \<or> (\<exists>q. pre' = q @ CRLF)"
      "map c_tolower field = map c_tolower name" "list_all is_blank blanks"
      unfolding header_line_def by blast
    have "p = (pre @ CRLF @ pre') @ field @ '':'' @ blanks @ v" using s r(1) by simp
    moreover have "\<exists>q. pre @ CRLF @ pre' = q @ CRLF" using r(2) by (metis append.right_neutral append.assoc)
    ultimately show ?thesis unfolding header_line_def using r(3,4) by blast
  qed
qed

lemma header_has_token_split: "header_has_token s token \<Longrightarrow> \<exists>pre t tail. s = pre @ t @ tail \<and> map c_tolower t = map c_tolower token"
proof (induction s token rule: header_has_token.induct)
  case (2 c cs token)
  show ?case
  proof (cases "strncase_eq (c # cs) token (length token)")
    case True
    have "c # cs = [] @ take (length token) (c # cs) @ drop (length token) (c # cs)" by simp
    then show ?thesis using strncase_eq_take [OF True refl] by metis
  next
    case False
    then obtain pre t tail where "cs = pre @ t @ tail" "map c_tolower t = map c_tolower token" using 2 by auto
    then show ?thesis by (metis append_Cons)
  qed
qed simp

lemma header_value_equals_split:
  assumes "header_value_equals v expected"
  shows "\<exists>w tail. v = w @ tail \<and> map c_tolower w = map c_tolower expected
     \<and> (tail = [] \<or> hd tail \<in> {CHR 0x0D, CHR '' '', CHR 0x09, CHR '',''})"
proof -
  have e: "strncase_eq v expected (length expected)" using assms by (auto simp: header_value_equals_def split: if_splits)
  then have "drop (length expected) v = [] \<or> hd (drop (length expected) v) \<in> {CHR 0x0D, CHR '' '', CHR 0x09, CHR '',''}"
    using assms by (auto simp: header_value_equals_def split: list.splits)
  moreover have "v = take (length expected) v @ drop (length expected) v" by simp
  ultimately show ?thesis using strncase_eq_take [OF e refl] by metis
qed

lemma after_char_Some: "after_char c s = Some t \<Longrightarrow> \<exists>pre. s = pre @ c # t \<and> c \<notin> set pre"
proof -
  assume a: "after_char c s = Some t"
  have s: "s = takeWhile (\<lambda>x. x \<noteq> c) s @ dropWhile (\<lambda>x. x \<noteq> c) s" by simp
  obtain x xs where d: "dropWhile (\<lambda>x. x \<noteq> c) s = x # xs" using a by (cases "dropWhile (\<lambda>x. x \<noteq> c) s") (auto simp: after_char_def)
  then have "x = c" using hd_dropWhile [of "\<lambda>x. x \<noteq> c" s] by simp
  then show ?thesis using s d a by (intro exI [of _ "takeWhile (\<lambda>x. x \<noteq> c) s"]) (auto simp: after_char_def dest: set_takeWhileD)
qed

lemma path_matches_line:
  assumes "path_matches line path" and "path \<noteq> None" and "path \<noteq> Some []" and "take 4 line = ''GET ''"
  shows "\<exists>c tail. line = ''GET '' @ the path @ c # tail \<and> c \<in> {CHR '' '', CHR ''?''}"
proof -
  obtain sp1 where s: "after_char (CHR '' '') line = Some sp1" "after_char (CHR '' '') sp1 \<noteq> None"
    and l: "length (the path) \<le> length (takeWhile (\<lambda>c. c \<noteq> CHR '' '') sp1)" "take (length (the path)) sp1 = the path"
    and c: "sp1 ! length (the path) = CHR '' '' \<or> sp1 ! length (the path) = CHR ''?''"
    using assms(1-3) by (auto simp: path_matches_def Let_def split: if_splits option.splits)
  have line: "line = ''GET '' @ drop 4 line" using append_take_drop_id [of 4 line] assms(4) by simp
  have "after_char (CHR '' '') (''GET '' @ drop 4 line) = Some (drop 4 line)" by (simp add: after_char_def)
  then have "sp1 = drop 4 line" using s(1) line by (metis option.inject)
  obtain rest where "after_char (CHR '' '') sp1 = Some rest" using s(2) by blast
  then obtain pre where "sp1 = pre @ CHR '' '' # rest" "CHR '' '' \<notin> set pre" using after_char_Some by blast
  then have "takeWhile (\<lambda>c. c \<noteq> CHR '' '') sp1 = pre" by (auto simp: takeWhile_append takeWhile_eq_all_conv)
  then have lt: "length (the path) < length sp1" using l(1) \<open>sp1 = pre @ CHR '' '' # rest\<close> by simp
  have "sp1 = the path @ sp1 ! length (the path) # drop (Suc (length (the path))) sp1"
    using id_take_nth_drop [OF lt] l(2) by simp
  then show ?thesis using line \<open>sp1 = drop 4 line\<close> c by (metis insertCI)
qed

lemma get_line:
  assumes "take 4 (line @ CRLF @ rest) = ''GET ''"
  shows "take 4 line = ''GET ''"
proof (cases "4 \<le> length line")
  case True
  then show ?thesis using assms by simp
next
  case False
  have "(line @ CRLF @ rest) ! length line = CHR 0x0D" by (simp add: nth_append CRLF_def)
  then have "''GET '' ! length line = CHR 0x0D" using assms False by (metis not_le nth_take)
  moreover have "length line = 0 \<or> length line = 1 \<or> length line = 2 \<or> length line = 3" using False by linarith
  ultimately show ?thesis by (elim disjE) simp_all
qed

lemma handshake_key_steps:
  assumes "handshake_key buf path = Inr key"
  shows "\<exists>eol upgrade connection key_hdr key_end. take 4 buf = ''GET '' \<and> c_strstr buf CRLF = Some eol
     \<and> length buf - length eol < 256 \<and> path_matches (take (length buf - length eol) buf) path
     \<and> header_value buf ''Upgrade'' = Some upgrade \<and> header_value buf ''Connection'' = Some connection
     \<and> header_value_equals upgrade ''websocket'' \<and> header_has_token connection ''upgrade''
     \<and> header_value buf ''Sec-WebSocket-Key'' = Some key_hdr \<and> c_strstr key_hdr CRLF = Some key_end
     \<and> key = trim_key (take (length key_hdr - length key_end) key_hdr) \<and> length key < 128"
proof -
  have a: "take 4 buf = ''GET ''" using assms by (simp add: handshake_key_def split: if_splits)
  obtain eol where e: "c_strstr buf CRLF = Some eol" using assms a by (cases "c_strstr buf CRLF") (simp_all add: handshake_key_def)
  have l: "length buf - length eol < 256" "path_matches (take (length buf - length eol) buf) path"
    using assms a e by (simp_all add: handshake_key_def Let_def not_le split: if_splits)
  obtain upgrade where u: "header_value buf ''Upgrade'' = Some upgrade"
    using assms a e l by (cases "header_value buf ''Upgrade''") (simp_all add: handshake_key_def Let_def)
  obtain connection where c: "header_value buf ''Connection'' = Some connection"
    using assms a e l u by (cases "header_value buf ''Connection''") (simp_all add: handshake_key_def Let_def)
  have h: "header_value_equals upgrade ''websocket''" "header_has_token connection ''upgrade''"
    using assms a e l u c by (simp_all add: handshake_key_def Let_def split: if_splits)
  obtain key_hdr where k: "header_value buf ''Sec-WebSocket-Key'' = Some key_hdr"
    using assms a e l u c h by (cases "header_value buf ''Sec-WebSocket-Key''") (simp_all add: handshake_key_def Let_def)
  obtain key_end where n: "c_strstr key_hdr CRLF = Some key_end"
    using assms a e l u c h k by (cases "c_strstr key_hdr CRLF") (simp_all add: handshake_key_def Let_def)
  have "key = trim_key (take (length key_hdr - length key_end) key_hdr) \<and> length key < 128"
    using assms a e l u c h k n by (simp add: handshake_key_def Let_def not_le split: if_splits)
  then show ?thesis using a e l u c h k n by blast
qed

lemma trim_key_split: "raw = trim_key raw @ rev (takeWhile is_blank (rev raw))"
proof -
  have "rev raw = takeWhile is_blank (rev raw) @ dropWhile is_blank (rev raw)" by simp
  from arg_cong [OF this, of rev] show ?thesis by (simp only: rev_append rev_rev_ident trim_key_def)
qed

lemma handshake_key_request:
  assumes "handshake_key buf path = Inr key"
  shows "upgrade_request buf path key"
proof -
  obtain eol upgrade connection key_hdr key_end where g: "take 4 buf = ''GET ''" "c_strstr buf CRLF = Some eol"
    "length buf - length eol < 256" "path_matches (take (length buf - length eol) buf) path"
    and h: "header_value buf ''Upgrade'' = Some upgrade" "header_value buf ''Connection'' = Some connection"
      "header_value_equals upgrade ''websocket''" "header_has_token connection ''upgrade''"
    and k: "header_value buf ''Sec-WebSocket-Key'' = Some key_hdr" "c_strstr key_hdr CRLF = Some key_end"
      "key = trim_key (take (length key_hdr - length key_end) key_hdr)" "length key < 128"
    using handshake_key_steps [OF assms] by (elim exE conjE) (rule that)
  obtain line rest where l: "buf = line @ eol" "eol = CRLF @ rest" using c_strstr_Some [OF g(2)] by blast
  have line: "take (length buf - length eol) buf = line" "length line < 256" using l(1) g(3) by simp_all
  have "take 4 (line @ CRLF @ rest) = ''GET ''" using g(1) unfolding l .
  then have "take 4 line = ''GET ''" by (rule get_line)
  then have path: "path \<noteq> None \<and> path \<noteq> Some [] \<longrightarrow> (\<exists>c tail. line = ''GET '' @ the path @ c # tail \<and> c \<in> {CHR '' '', CHR ''?''})"
    using path_matches_line [OF g(4) [unfolded line(1)]] by (intro impI) (elim conjE)
  have buf: "buf = line @ CRLF @ rest" using l by (simp only:)
  have low: "map c_tolower ''websocket'' = ''websocket''" "map c_tolower ''upgrade'' = ''upgrade''" by code_simp+
  obtain w tail where u: "upgrade = w @ tail" "map c_tolower w = ''websocket''" "tail = [] \<or> hd tail \<in> {CHR 0x0D, CHR '' '', CHR 0x09, CHR '',''}"
    using header_value_equals_split [OF h(3)] unfolding low by (elim exE conjE) (rule that)
  obtain pre t rest' where c: "connection = pre @ t @ rest'" "map c_tolower t = ''upgrade''"
    using header_has_token_split [OF h(4)] unfolding low by (elim exE conjE) (rule that)
  obtain raw krest where r: "key_hdr = raw @ key_end" "key_end = CRLF @ krest" using c_strstr_Some [OF k(2)] by blast
  then have key: "key = trim_key raw" using k(3) by simp
  have raw: "raw = trim_key raw @ rev (takeWhile is_blank (rev raw))" by (rule trim_key_split)
  have kh: "key_hdr = key @ rev (takeWhile is_blank (rev raw)) @ CRLF @ krest"
    using arg_cong [OF raw, of "\<lambda>x. x @ CRLF @ krest"] unfolding r key append_assoc .
  have b: "list_all is_blank (rev (takeWhile is_blank (rev raw)))" using list_all_takeWhile_blank [of "rev raw"] by (simp add: list_all_iff)
  note v = header_value_line [OF h(1), unfolded u(1)] header_value_line [OF h(2), unfolded c(1)] header_value_line [OF k(1), unfolded kh]
  show ?thesis
    unfolding upgrade_request_def
    by (intro conjI exI, rule buf, rule line(2), rule g(1), rule path, rule v(1), rule u(2), rule u(3), rule v(2), rule c(2),
      rule v(3), rule b, rule k(4))
qed

text \<open>Reading stops with the empty line, or with a full buffer.\<close>

lemma handshake_recv_stops:
  "handshake_recv tls io buf = (Some r, io') \<Longrightarrow> c_strstr (c_string r) (CRLF @ CRLF) \<noteq> None \<or> WS_HANDSHAKE_MAX \<le> length r + 1"
proof (induction tls io buf arbitrary: io' rule: handshake_recv.induct)
  case (1 tls io buf)
  show ?case
  proof (cases "length buf + 1 < WS_HANDSHAKE_MAX")
    case False
    with "1.prems" show ?thesis by (subst (asm) handshake_recv.simps) simp
  next
    case True
    obtain q io1 where q: "ws_recv_some tls io (WS_HANDSHAKE_MAX - 1 - length buf) = (q, io1)" by fastforce
    have "q \<noteq> None \<and> q \<noteq> Some []"
      using "1.prems" q True by (subst (asm) handshake_recv.simps) (auto split: option.splits)
    then obtain b bs where b: "q = Some (b # bs)" by (cases q) (auto simp: neq_Nil_conv)
    let ?buf = "buf @ string_of_bytes (b # bs)"
    show ?thesis
    proof (cases "c_strstr (c_string ?buf) (CRLF @ CRLF) = None")
      case True
      with "1.prems" q b \<open>length buf + 1 < WS_HANDSHAKE_MAX\<close> have "handshake_recv tls io1 ?buf = (Some r, io')"
        by (subst (asm) handshake_recv.simps) simp
      from "1.IH" [OF \<open>length buf + 1 < WS_HANDSHAKE_MAX\<close> q [symmetric] b refl refl _ this] True show ?thesis by auto
    next
      case False
      with "1.prems" q b \<open>length buf + 1 < WS_HANDSHAKE_MAX\<close> show ?thesis by (subst (asm) handshake_recv.simps) auto
    qed
  qed
qed

text \<open>
  C10. The handshake answers the key that was asked: when it succeeds, what was received holds an empty line or fills
  the buffer, it is a GET of the path whose headers at the start of lines upgrade to websocket, name the upgrade in or behind the Connection
  header and give a key of less than 128 characters, the wire got exactly the switching response with the
  standard's accept value (Base64 of SHA-1 of that key and the GUID), and the connection is
  established with an empty buffer; otherwise the connection stays as it was, and a refused request
  gets no answer.
\<close>

theorem ws_handshake_answer:
  assumes "ws_server_handshake junk ws io path = (rc, ws', io')" and "length junk = 64"
  shows "if rc = HYBBX_OK
     then \<exists>buf key. fst (handshake_recv (wc_tls ws) io []) = Some buf \<and> handshake_key (c_string buf) path = Inr key
          \<and> (c_strstr (c_string buf) (CRLF @ CRLF) \<noteq> None \<or> WS_HANDSHAKE_MAX \<le> length buf + 1)
          \<and> upgrade_request (c_string buf) path key
          \<and> wi_wire io' = wi_wire io @ bytes_of_string (handshake_response (ws_accept_value key))
          \<and> ws' = ws\<lparr>wc_established := True, wc_rx := []\<rparr>
     else rc \<in> {HYBBX_ERR_INVALID, HYBBX_ERR_IO, HYBBX_ERR_DENIED} \<and> ws' = ws
          \<and> (rc = HYBBX_ERR_DENIED \<longrightarrow> wi_wire io' = wi_wire io)"
proof (cases "wc_fd ws < 0")
  case True
  with assms(1) show ?thesis by (simp add: ws_server_handshake_def)
next
  case False
  obtain r io1 where r: "handshake_recv (wc_tls ws) io [] = (r, io1)" by fastforce
  note keep = handshake_recv_keeps [OF r]
  show ?thesis
  proof (cases r)
    case None
    with assms(1) False r show ?thesis by (simp add: ws_server_handshake_def)
  next
    case (Some buf)
    show ?thesis
    proof (cases "handshake_key (c_string buf) path")
      case (Inl rc')
      with assms(1) False r Some keep handshake_key_denied [OF Inl] show ?thesis
        by (simp add: ws_server_handshake_def)
    next
      case (Inr key)
      note fit = ws_accept_fits [OF handshake_key_length [OF Inr] assms(2)]
      obtain ok io2 where s: "ws_send_all (wc_tls ws) io1 (bytes_of_string (handshake_response (ws_accept_value key))) = (ok, io2)"
        by fastforce
      have "ok \<longrightarrow> wi_wire io2 = wi_wire io1 @ bytes_of_string (handshake_response (ws_accept_value key))"
        using ws_send_all_result [of "wc_tls ws" io1 "bytes_of_string (handshake_response (ws_accept_value key))"] s
        by (auto split: if_splits)
      moreover have "rc = (if ok then HYBBX_OK else HYBBX_ERR_IO) \<and> io' = io2
          \<and> ws' = (if ok then ws\<lparr>wc_established := True, wc_rx := []\<rparr> else ws)"
        using assms(1) False r Some Inr s by (auto simp: ws_server_handshake_def Let_def fit split: if_splits)
      moreover have "upgrade_request (c_string buf) path key" by (rule handshake_key_request [OF Inr])
      moreover have "c_strstr (c_string buf) (CRLF @ CRLF) \<noteq> None \<or> WS_HANDSHAKE_MAX \<le> length buf + 1"
        using handshake_recv_stops r Some by blast
      ultimately show ?thesis using r Some Inr keep by auto
    qed
  qed
qed

text \<open>A request whose connection header does not ask for the upgrade.\<close>

definition ws_example_request :: string where
  "ws_example_request = ''GET /hybbx HTTP/1.1'' @ CRLF @ ''Connection: close'' @ CRLF
     @ ''Upgrade: websocket'' @ CRLF @ ''Sec-WebSocket-Key: abc'' @ CRLF @ CRLF"

lemma ws_example_key: "handshake_key ws_example_request (Some ''/hybbx'') = Inr ''abc''"
  by (simp add: handshake_key_def ws_example_request_def CRLF_def path_matches_def after_char_def Let_def
      header_value.simps header_value_equals_def is_blank_def trim_key_def c_tolower_def c_isupper_def char_of_eq_iff)

lemma handshake_recv_whole:
  assumes "req \<noteq> []" and "length req < WS_HANDSHAKE_MAX" and "c_strstr (c_string req) (CRLF @ CRLF) \<noteq> None"
  shows "handshake_recv False \<lparr>wi_recv = [Recv (bytes_of_string req)], wi_send = script, wi_wire = w\<rparr> []
     = (Some req, \<lparr>wi_recv = [], wi_send = script, wi_wire = w\<rparr>)"
proof -
  obtain b bs where b: "bytes_of_string req = b # bs"
    using assms(1) by (cases "bytes_of_string req") (auto simp: bytes_of_string_def)
  then have "string_of_bytes (b # bs) = req" by (metis string_of_bytes_of_string)
  moreover have "length (b # bs) < WS_HANDSHAKE_MAX" using b assms(2) by (metis length_bytes_of_string)
  ultimately show ?thesis
    using assms(3) unfolding b
    by (subst handshake_recv.simps) (simp add: ws_recv_some_def recv_some_def WS_HANDSHAKE_MAX_def)
qed

lemma ws_example_recv:
  "handshake_recv False \<lparr>wi_recv = [Recv (bytes_of_string ws_example_request)], wi_send = [], wi_wire = []\<rparr> []
     = (Some ws_example_request, \<lparr>wi_recv = [], wi_send = [], wi_wire = []\<rparr>)"
  and ws_example_c_string: "c_string ws_example_request = ws_example_request"
proof -
  show c: "c_string ws_example_request = ws_example_request"
    by (simp add: c_string_def ws_example_request_def CRLF_def)
  have "c_strstr ws_example_request (CRLF @ CRLF) \<noteq> None"
    by (simp add: ws_example_request_def CRLF_def)
  then show "handshake_recv False \<lparr>wi_recv = [Recv (bytes_of_string ws_example_request)], wi_send = [], wi_wire = []\<rparr> []
     = (Some ws_example_request, \<lparr>wi_recv = [], wi_send = [], wi_wire = []\<rparr>)"
    by (intro handshake_recv_whole) (simp_all add: c, simp_all add: ws_example_request_def CRLF_def WS_HANDSHAKE_MAX_def)
qed

theorem ws_handshake_answer_witness:
  "\<exists>ws' io'. ws_server_handshake (replicate 64 0) (ws_connection_init 4)
      \<lparr>wi_recv = [Recv (bytes_of_string ws_example_request)], wi_send = [], wi_wire = []\<rparr> (Some ''/hybbx'')
    = (HYBBX_OK, ws', io') \<and> wc_established ws'
    \<and> wi_wire io' = bytes_of_string (handshake_response (ws_accept_value ''abc''))"
proof -
  let ?io = "\<lparr>wi_recv = [Recv (bytes_of_string ws_example_request)], wi_send = [], wi_wire = []\<rparr>"
  obtain rc ws' io' where r: "ws_server_handshake (replicate 64 0) (ws_connection_init 4) ?io (Some ''/hybbx'') = (rc, ws', io')"
    by (metis prod_cases3)
  have "rc = HYBBX_OK"
    using r ws_accept_fits [of "''abc''" "replicate 64 0"]
    by (simp add: ws_server_handshake_def ws_connection_init_def ws_example_recv ws_example_c_string ws_example_key
        ws_send_all_eq send_all_open)
  moreover from r have "rc = HYBBX_OK \<Longrightarrow> wi_wire io' = bytes_of_string (handshake_response (ws_accept_value ''abc''))
      \<and> wc_established ws'"
    using ws_handshake_answer [OF r]
    by (auto simp: ws_connection_init_def ws_example_recv ws_example_c_string ws_example_key)
  ultimately show ?thesis using r by auto
qed

text \<open>
  The check of the Connection header looks at the whole rest of the request: a request that says
  \<^verbatim>\<open>Connection: close\<close> passes it when any later header names the upgrade, so the handshake
  is accepted although the client did not ask for it there.
\<close>

theorem ws_connection_check_reads_on:
  "header_value_equals (the (header_value ws_example_request ''Connection'')) ''close''
   \<and> handshake_key ws_example_request (Some ''/hybbx'') = Inr ''abc''"
  by (simp add: ws_example_key)
    (simp add: ws_example_request_def CRLF_def header_value.simps header_value_equals_def is_blank_def
      c_tolower_def c_isupper_def char_of_eq_iff)

end
