(* ===== verification/Line_Editor.thy ===== *)
theory Line_Editor imports Prelude begin

text \<open>
  The line editor of a session: \<^verbatim>\<open>src/core/session.c\<close> from the input byte to the
  submitted line, with the echo sent back, the escape sequence filter and the history ring.  The
  line buffer is the whole C array, so what a shorter line leaves behind in it is part of the state.
  What a submitted line does (\<^verbatim>\<open>session_process_line\<close>) is an argument.
\<close>

section \<open>State\<close>

definition LINE_MAX :: nat where "LINE_MAX = 80"
definition HISTORY_MAX :: nat where "HISTORY_MAX = 25"
definition CSI_BUF_MAX :: nat where "CSI_BUF_MAX = 24"

datatype session_area =
    AREA_MAIN | AREA_MAIL | AREA_CHAT | AREA_CONFERENCE | AREA_PROXYMAIL | AREA_PROXYCHAT

datatype esc_state = ESC_NONE | ESC_ESC | ESC_CSI | ESC_SS3

text \<open>Bytes written to the transport as they are, and text sent through the traffic layer.\<close>

datatype session_out = Raw string | Text string

record editor =
  ed_buf :: string
  ed_len :: nat
  ed_cursor :: nat
  ed_history :: "string list"
  ed_hcount :: nat
  ed_hnext :: nat
  ed_hview :: int
  ed_saved :: string
  ed_expect_lf :: bool
  ed_echo :: bool
  ed_logged_in :: bool
  ed_login_prompt :: bool
  ed_area :: session_area
  ed_mail_composing :: bool
  ed_proxymail_composing :: bool
  ed_message_max :: nat
  ed_paused :: bool
  ed_esc :: esc_state
  ed_csi :: string
  ed_script :: "hybbx_result list"
  ed_out :: "session_out list"

definition NUL :: char where "NUL = CHR 0x00"
definition ESC :: char where "ESC = CHR 0x1B"
definition BS :: char where "BS = CHR 0x08"

definition c_str :: "string \<Rightarrow> string" where
  "c_str buf = takeWhile (\<lambda>c. c \<noteq> NUL) buf"

definition mem_move :: "nat \<Rightarrow> nat \<Rightarrow> nat \<Rightarrow> 'a list \<Rightarrow> 'a list" where
  "mem_move dst src n buf = take dst buf @ take n (drop src buf) @ drop (dst + n) buf"

section \<open>Writing\<close>

text \<open>One call of the transport or the traffic layer; its result is the next of the script.\<close>

definition ed_write :: "session_out \<Rightarrow> editor \<Rightarrow> hybbx_result \<times> editor" where
  "ed_write x ed =
     (case ed_script ed of
        [] \<Rightarrow> (HYBBX_OK, ed\<lparr>ed_out := ed_out ed @ [x]\<rparr>)
      | rc # script \<Rightarrow>
          if rc = HYBBX_OK then (HYBBX_OK, ed\<lparr>ed_script := script, ed_out := ed_out ed @ [x]\<rparr>)
          else (rc, ed\<lparr>ed_script := script\<rparr>))"

definition session_write_transport :: "string \<Rightarrow> editor \<Rightarrow> hybbx_result \<times> editor" where
  "session_write_transport data ed = (if data = [] then (HYBBX_OK, ed) else ed_write (Raw data) ed)"

definition session_write :: "string \<Rightarrow> editor \<Rightarrow> hybbx_result \<times> editor" where
  "session_write text ed = (if ed_paused ed then (HYBBX_OK, ed) else ed_write (Text text) ed)"

text \<open>Go on with the next step only after success.\<close>

definition and_then :: "hybbx_result \<times> editor \<Rightarrow> (editor \<Rightarrow> hybbx_result \<times> editor) \<Rightarrow> hybbx_result \<times> editor" where
  "and_then r k = (case r of (rc, ed) \<Rightarrow> if rc \<noteq> HYBBX_OK then (rc, ed) else k ed)"

text \<open>Backspaces in chunks of at most 64.\<close>

function session_line_move_back :: "nat \<Rightarrow> editor \<Rightarrow> hybbx_result \<times> editor" where
  "session_line_move_back count ed =
     (if count = 0 then (HYBBX_OK, ed)
      else let chunk = min count 64 in
        and_then (session_write_transport (replicate chunk BS) ed)
          (\<lambda>ed. session_line_move_back (count - chunk) ed))"
  by pat_completeness auto
termination by (relation "measure fst") auto

declare session_line_move_back.simps [simp del]

definition session_line_refresh_suffix :: "editor \<Rightarrow> hybbx_result \<times> editor" where
  "session_line_refresh_suffix ed =
     (if \<not> ed_echo ed then (HYBBX_OK, ed)
      else let suffix_len = ed_len ed - ed_cursor ed in
        and_then
          (and_then
            (if suffix_len > 0
             then session_write_transport (take suffix_len (drop (ed_cursor ed) (ed_buf ed))) ed
             else (HYBBX_OK, ed))
            (session_write_transport (ESC # ''[K'')))
          (session_line_move_back suffix_len))"

section \<open>Editing\<close>

definition session_chat_message_max :: "editor \<Rightarrow> nat" where
  "session_chat_message_max ed = ed_message_max ed"

definition session_line_max_len :: "editor \<Rightarrow> nat" where
  "session_line_max_len ed =
     (if ed_area ed = AREA_CHAT \<or> ed_area ed = AREA_CONFERENCE \<or> ed_area ed = AREA_PROXYCHAT
      then session_chat_message_max ed
      else LINE_MAX - 1)"

definition session_char_echoable :: "char \<Rightarrow> bool" where
  "session_char_echoable ch \<longleftrightarrow> 0x20 \<le> (of_char ch :: nat) \<and> (of_char ch :: nat) \<noteq> 0x7F"

definition session_line_cursor_left :: "editor \<Rightarrow> hybbx_result \<times> editor" where
  "session_line_cursor_left ed =
     (if ed_cursor ed = 0 then (HYBBX_OK, ed)
      else let ed = ed\<lparr>ed_cursor := ed_cursor ed - 1\<rparr> in
        if \<not> ed_echo ed then (HYBBX_OK, ed) else session_write_transport [BS] ed)"

definition session_line_cursor_right :: "editor \<Rightarrow> hybbx_result \<times> editor" where
  "session_line_cursor_right ed =
     (if ed_cursor ed \<ge> ed_len ed then (HYBBX_OK, ed)
      else and_then
        (if ed_echo ed then session_write_transport [ed_buf ed ! ed_cursor ed] ed else (HYBBX_OK, ed))
        (\<lambda>ed. (HYBBX_OK, ed\<lparr>ed_cursor := ed_cursor ed + 1\<rparr>)))"

text \<open>The loops move one column at a time; the count is the number of rounds they take.\<close>

fun cursor_home_loop :: "nat \<Rightarrow> editor \<Rightarrow> hybbx_result \<times> editor" where
  "cursor_home_loop 0 ed = (HYBBX_OK, ed)"
| "cursor_home_loop (Suc n) ed =
     (if ed_cursor ed > 0 then and_then (session_line_cursor_left ed) (cursor_home_loop n) else (HYBBX_OK, ed))"

definition session_line_cursor_home :: "editor \<Rightarrow> hybbx_result \<times> editor" where
  "session_line_cursor_home ed = cursor_home_loop (ed_cursor ed) ed"

fun cursor_end_loop :: "nat \<Rightarrow> editor \<Rightarrow> hybbx_result \<times> editor" where
  "cursor_end_loop 0 ed = (HYBBX_OK, ed)"
| "cursor_end_loop (Suc n) ed =
     (if ed_cursor ed < ed_len ed then and_then (session_line_cursor_right ed) (cursor_end_loop n) else (HYBBX_OK, ed))"

definition session_line_cursor_end :: "editor \<Rightarrow> hybbx_result \<times> editor" where
  "session_line_cursor_end ed = cursor_end_loop (ed_len ed - ed_cursor ed) ed"

text \<open>Take out the character at the cursor.\<close>

definition remove_at_cursor :: "editor \<Rightarrow> editor" where
  "remove_at_cursor ed =
     (let c = ed_cursor ed; len = ed_len ed - 1
      in ed\<lparr>ed_len := len, ed_buf := (mem_move c (c + 1) (ed_len ed - c - 1) (ed_buf ed))[len := NUL]\<rparr>)"

definition session_line_backspace :: "editor \<Rightarrow> hybbx_result \<times> editor" where
  "session_line_backspace ed =
     (if ed_cursor ed = 0 then (HYBBX_OK, ed)
      else let ed = remove_at_cursor (ed\<lparr>ed_cursor := ed_cursor ed - 1\<rparr>) in
        if \<not> ed_echo ed then (HYBBX_OK, ed)
        else and_then (session_write_transport [BS] ed) session_line_refresh_suffix)"

definition session_line_delete_forward :: "editor \<Rightarrow> hybbx_result \<times> editor" where
  "session_line_delete_forward ed =
     (if ed_cursor ed \<ge> ed_len ed then (HYBBX_OK, ed)
      else let ed = remove_at_cursor ed in
        if \<not> ed_echo ed then (HYBBX_OK, ed) else session_line_refresh_suffix ed)"

definition session_line_insert_char :: "char \<Rightarrow> editor \<Rightarrow> hybbx_result \<times> editor" where
  "session_line_insert_char ch ed =
     (if \<not> session_char_echoable ch then (HYBBX_OK, ed)
      else if ed_len ed \<ge> session_line_max_len ed then (HYBBX_OK, ed)
      else
        let c = ed_cursor ed; len = ed_len ed;
            moved = (if c < len then mem_move (c + 1) c (len - c) (ed_buf ed) else ed_buf ed);
            ed = ed\<lparr>ed_buf := (moved[c := ch])[len + 1 := NUL], ed_len := len + 1, ed_cursor := c + 1\<rparr>
        in if \<not> ed_echo ed then (HYBBX_OK, ed)
           else case session_write_transport [ch] ed of
                  (rc, ed) \<Rightarrow>
                    if rc \<noteq> HYBBX_OK
                    then (rc, ed\<lparr>ed_cursor := ed_cursor ed - 1, ed_len := ed_len ed - 1,
                                 ed_buf := (ed_buf ed)[ed_len ed - 1 := NUL]\<rparr>)
                    else session_line_refresh_suffix ed)"

section \<open>History\<close>

definition history_secret_prefixes :: "string list" where
  "history_secret_prefixes = [''/login '', ''/register '', ''/changeme '', ''/userchange '']"

definition session_history_should_store :: "string \<Rightarrow> bool" where
  "session_history_should_store line \<longleftrightarrow>
     line \<noteq> [] \<and> (\<forall>p \<in> set history_secret_prefixes. take (length p) line \<noteq> p)"

definition session_history_add :: "string \<Rightarrow> editor \<Rightarrow> editor" where
  "session_history_add line ed =
     (if \<not> session_history_should_store line then ed
      else ed\<lparr>ed_history := (ed_history ed)[ed_hnext ed := str_store LINE_MAX line],
              ed_hnext := (ed_hnext ed + 1) mod HISTORY_MAX,
              ed_hcount := (if ed_hcount ed < HISTORY_MAX then ed_hcount ed + 1 else ed_hcount ed),
              ed_hview := - 1, ed_saved := []\<rparr>)"

definition session_line_replace :: "string \<Rightarrow> editor \<Rightarrow> hybbx_result \<times> editor" where
  "session_line_replace line ed =
     (let len = (if length line \<ge> LINE_MAX then LINE_MAX - 1 else length line) in
      and_then
        (if ed_echo ed then
           and_then
             (and_then (session_line_move_back (ed_cursor ed) ed)
               (\<lambda>ed. if len > 0 then session_write_transport (take len line) ed else (HYBBX_OK, ed)))
             (session_write_transport (ESC # ''[K''))
         else (HYBBX_OK, ed))
        (\<lambda>ed. (HYBBX_OK, ed\<lparr>ed_buf := take len line @ [NUL] @ drop (len + 1) (ed_buf ed),
                            ed_len := len, ed_cursor := len\<rparr>)))"

definition history_slot :: "editor \<Rightarrow> nat" where
  "history_slot ed = (ed_hnext ed + HISTORY_MAX - 1 - nat (ed_hview ed)) mod HISTORY_MAX"

definition session_history_up :: "editor \<Rightarrow> hybbx_result \<times> editor" where
  "session_history_up ed =
     (if ed_hcount ed = 0 then (HYBBX_OK, ed)
      else if ed_hview ed < 0 then
        (let ed = ed\<lparr>ed_saved := str_store LINE_MAX (c_str (ed_buf ed)), ed_hview := 0\<rparr>
         in session_line_replace (ed_history ed ! history_slot ed) ed)
      else if nat (ed_hview ed + 1) < ed_hcount ed then
        (let ed = ed\<lparr>ed_hview := ed_hview ed + 1\<rparr>
         in session_line_replace (ed_history ed ! history_slot ed) ed)
      else (HYBBX_OK, ed))"

definition session_history_down :: "editor \<Rightarrow> hybbx_result \<times> editor" where
  "session_history_down ed =
     (if ed_hview ed < 0 then (HYBBX_OK, ed)
      else if ed_hview ed = 0 then session_line_replace (ed_saved ed) (ed\<lparr>ed_hview := - 1\<rparr>)
      else
        (let ed = ed\<lparr>ed_hview := ed_hview ed - 1\<rparr>
         in session_line_replace (ed_history ed ! history_slot ed) ed))"

section \<open>Escape sequences\<close>

definition session_csi_is_final :: "u8 \<Rightarrow> bool" where
  "session_csi_is_final ch \<longleftrightarrow> 0x40 \<le> ch \<and> ch \<le> 0x7E"

definition session_escape_reset :: "editor \<Rightarrow> editor" where
  "session_escape_reset ed = ed\<lparr>ed_esc := ESC_NONE, ed_csi := []\<rparr>"

definition session_apply_csi :: "string \<Rightarrow> char \<Rightarrow> editor \<Rightarrow> hybbx_result \<times> editor" where
  "session_apply_csi params final_ch ed =
     (if final_ch = CHR ''A'' then session_history_up ed
      else if final_ch = CHR ''B'' then session_history_down ed
      else if final_ch = CHR ''C'' then session_line_cursor_right ed
      else if final_ch = CHR ''D'' then session_line_cursor_left ed
      else if final_ch = CHR ''H'' then session_line_cursor_home ed
      else if final_ch = CHR ''F'' then session_line_cursor_end ed
      else if final_ch = CHR ''~'' then
        (if params = ''1'' \<or> params = ''7'' then session_line_cursor_home ed
         else if params = ''3'' then session_line_delete_forward ed
         else if params = ''4'' \<or> params = ''8'' then session_line_cursor_end ed
         else (HYBBX_OK, ed))
      else (HYBBX_OK, ed))"

definition char_of_u8 :: "u8 \<Rightarrow> char" where
  "char_of_u8 b = char_of (unat b)"

text \<open>Whether the byte was part of a sequence; the results of the sequence's action are dropped.\<close>

definition session_filter_escape_byte :: "u8 \<Rightarrow> editor \<Rightarrow> bool \<times> editor" where
  "session_filter_escape_byte byte ed =
     (case ed_esc ed of
        ESC_NONE \<Rightarrow>
          if byte = 0x9B then (True, ed\<lparr>ed_esc := ESC_CSI, ed_csi := []\<rparr>)
          else if byte = 0x1B then (True, ed\<lparr>ed_esc := ESC_ESC\<rparr>)
          else (False, ed)
      | ESC_ESC \<Rightarrow>
          if char_of_u8 byte = CHR ''['' then (True, ed\<lparr>ed_esc := ESC_CSI, ed_csi := []\<rparr>)
          else if char_of_u8 byte = CHR ''O'' then (True, ed\<lparr>ed_esc := ESC_SS3\<rparr>)
          else (False, session_escape_reset ed)
      | ESC_SS3 \<Rightarrow>
          (True, session_escape_reset (snd
            (if char_of_u8 byte = CHR ''C'' then session_line_cursor_right ed
             else if char_of_u8 byte = CHR ''D'' then session_line_cursor_left ed
             else if char_of_u8 byte = CHR ''H'' then session_line_cursor_home ed
             else if char_of_u8 byte = CHR ''F'' then session_line_cursor_end ed
             else (HYBBX_OK, ed))))
      | ESC_CSI \<Rightarrow>
          if length (ed_csi ed) + 1 \<ge> CSI_BUF_MAX then (True, session_escape_reset ed)
          else if session_csi_is_final byte then
            (True, snd (session_apply_csi (c_str (ed_csi ed)) (char_of_u8 byte) (session_escape_reset ed)))
          else (True, ed\<lparr>ed_csi := ed_csi ed @ [char_of_u8 byte]\<rparr>))"

section \<open>Input\<close>

definition session_echo_newline :: "editor \<Rightarrow> hybbx_result \<times> editor" where
  "session_echo_newline ed = (if \<not> ed_echo ed then (HYBBX_OK, ed) else session_write [CHR 0x0A] ed)"

definition shows_prompt :: "editor \<Rightarrow> bool" where
  "shows_prompt ed \<longleftrightarrow>
     (ed_logged_in ed \<or> ed_login_prompt ed) \<and> ed_area ed \<noteq> AREA_CHAT \<and> ed_area ed \<noteq> AREA_CONFERENCE
     \<and> ed_area ed \<noteq> AREA_PROXYCHAT \<and> \<not> (ed_area ed = AREA_MAIL \<and> ed_mail_composing ed)
     \<and> \<not> (ed_area ed = AREA_PROXYMAIL \<and> ed_proxymail_composing ed)"

definition session_show_prompt :: "string \<Rightarrow> editor \<Rightarrow> hybbx_result \<times> editor" where
  "session_show_prompt prompt ed =
     (if \<not> ed_logged_in ed \<and> \<not> ed_login_prompt ed then (HYBBX_ERR_INVALID, ed)
      else if prompt = [] then (HYBBX_OK, ed)
      else session_write prompt ed)"

text \<open>\<open>process\<close> is what the line does to the session.\<close>

definition session_submit_line :: "(string \<Rightarrow> editor \<Rightarrow> editor) \<Rightarrow> string \<Rightarrow> editor \<Rightarrow> editor" where
  "session_submit_line process prompt ed =
     (let ed = ed\<lparr>ed_buf := (ed_buf ed)[ed_len ed := NUL]\<rparr>;
          line = c_str (ed_buf ed);
          ed = process line (session_history_add line ed);
          ed = ed\<lparr>ed_len := 0, ed_cursor := 0, ed_hview := - 1\<rparr>
      in if shows_prompt ed then snd (session_show_prompt prompt ed) else ed)"

definition session_accepts_input :: "editor \<Rightarrow> bool" where
  "session_accepts_input ed \<longleftrightarrow> ed_logged_in ed \<or> ed_login_prompt ed"

definition session_handle_user_byte ::
    "(string \<Rightarrow> editor \<Rightarrow> editor) \<Rightarrow> string \<Rightarrow> u8 \<Rightarrow> editor \<Rightarrow> hybbx_result \<times> editor" where
  "session_handle_user_byte process prompt byte ed =
     (let ch = char_of_u8 byte in
      if ch = NUL then (HYBBX_OK, ed)
      else if ch = BS \<or> ch = CHR 0x7F then session_line_backspace ed
      else if ch = CHR 0x0D then
        and_then (session_echo_newline ed)
          (\<lambda>ed. let ed = session_submit_line process prompt ed in
             if \<not> session_accepts_input ed then (HYBBX_SESSION_END, ed)
             else (HYBBX_OK, ed\<lparr>ed_expect_lf := True\<rparr>))
      else if ch = CHR 0x0A then
        (if ed_expect_lf ed then (HYBBX_OK, ed\<lparr>ed_expect_lf := False\<rparr>)
         else and_then (session_echo_newline ed)
           (\<lambda>ed. let ed = session_submit_line process prompt ed in
              if \<not> session_accepts_input ed then (HYBBX_SESSION_END, ed) else (HYBBX_OK, ed)))
      else session_line_insert_char ch (ed\<lparr>ed_expect_lf := False\<rparr>))"

fun session_input_loop ::
    "(string \<Rightarrow> editor \<Rightarrow> editor) \<Rightarrow> string \<Rightarrow> bytes \<Rightarrow> editor \<Rightarrow> hybbx_result \<times> editor" where
  "session_input_loop process prompt [] ed = (HYBBX_OK, ed)"
| "session_input_loop process prompt (b # bs) ed =
     (case session_filter_escape_byte b ed of
        (True, ed) \<Rightarrow> session_input_loop process prompt bs ed
      | (False, ed) \<Rightarrow>
          and_then (session_handle_user_byte process prompt b ed) (session_input_loop process prompt bs))"

text \<open>\<open>expiry\<close> is the result of the guest timer's check.\<close>

definition session_handle_input ::
    "(string \<Rightarrow> editor \<Rightarrow> editor) \<Rightarrow> string \<Rightarrow> hybbx_result \<Rightarrow> bytes \<Rightarrow> editor \<Rightarrow> hybbx_result \<times> editor" where
  "session_handle_input process prompt expiry data ed =
     (if \<not> session_accepts_input ed then (HYBBX_ERR_INVALID, ed)
      else if ed_paused ed then (HYBBX_OK, ed)
      else if ed_logged_in ed \<and> expiry \<noteq> HYBBX_OK then (expiry, ed)
      else session_input_loop process prompt data ed)"

section \<open>The invariant\<close>

definition ed_line :: "editor \<Rightarrow> string" where
  "ed_line ed = take (ed_len ed) (ed_buf ed)"

definition printable :: "string \<Rightarrow> bool" where
  "printable s \<longleftrightarrow> (\<forall>c \<in> set s. session_char_echoable c)"

definition line_inv :: "editor \<Rightarrow> bool" where
  "line_inv ed \<longleftrightarrow> length (ed_buf ed) = LINE_MAX \<and> ed_cursor ed \<le> ed_len ed \<and> ed_len ed < LINE_MAX
     \<and> (\<forall>c \<in> set (ed_buf ed). c = NUL \<or> session_char_echoable c) \<and> printable (ed_line ed)"

definition history_inv :: "editor \<Rightarrow> bool" where
  "history_inv ed \<longleftrightarrow> length (ed_history ed) = HISTORY_MAX \<and> ed_hnext ed < HISTORY_MAX
     \<and> ed_hcount ed \<le> HISTORY_MAX \<and> (ed_hcount ed < HISTORY_MAX \<longrightarrow> ed_hnext ed = ed_hcount ed)
     \<and> (\<forall>h \<in> set (ed_history ed). length h < LINE_MAX \<and> printable h)
     \<and> - 1 \<le> ed_hview ed \<and> (ed_hview ed \<le> 0 \<or> ed_hview ed < int (ed_hcount ed))
     \<and> length (ed_saved ed) < LINE_MAX \<and> printable (ed_saved ed)"

definition ed_inv :: "editor \<Rightarrow> bool" where
  "ed_inv ed \<longleftrightarrow> line_inv ed \<and> history_inv ed \<and> ed_message_max ed < LINE_MAX \<and> length (ed_csi ed) < CSI_BUF_MAX"

definition editor_open :: "bool \<Rightarrow> bool \<Rightarrow> bool \<Rightarrow> nat \<Rightarrow> editor" where
  "editor_open echo logged_in login_prompt message_max =
     \<lparr>ed_buf = replicate LINE_MAX NUL, ed_len = 0, ed_cursor = 0, ed_history = replicate HISTORY_MAX [],
      ed_hcount = 0, ed_hnext = 0, ed_hview = 0, ed_saved = [], ed_expect_lf = False, ed_echo = echo,
      ed_logged_in = logged_in, ed_login_prompt = login_prompt, ed_area = AREA_MAIN,
      ed_mail_composing = False, ed_proxymail_composing = False, ed_message_max = message_max,
      ed_paused = False, ed_esc = ESC_NONE, ed_csi = [], ed_script = [], ed_out = []\<rparr>"

section \<open>The terminal\<close>

text \<open>
  What the user's terminal makes of the echo, as its row and the column of its cursor, counted from
  where the line begins: a printable character is put at the cursor, a backspace moves left, and
  \<^verbatim>\<open>ESC [ K\<close> erases to the end of the row.
\<close>

definition term_put :: "string \<times> nat \<Rightarrow> char \<Rightarrow> string \<times> nat" where
  "term_put t c = (case t of (row, col) \<Rightarrow>
     if c = BS then (row, col - 1) else (take col row @ [c] @ drop (col + 1) row, col + 1))"

definition term_write :: "session_out \<Rightarrow> string \<times> nat \<Rightarrow> string \<times> nat" where
  "term_write x t =
     (case x of Text s \<Rightarrow> t
      | Raw s \<Rightarrow> if s = ESC # ''[K'' then (take (snd t) (fst t), snd t) else foldl term_put t s)"

definition term_run :: "session_out list \<Rightarrow> string \<times> nat \<Rightarrow> string \<times> nat" where
  "term_run xs t = fold term_write xs t"

lemma term_run_append [simp]: "term_run (xs @ ys) t = term_run ys (term_run xs t)"
  by (simp add: term_run_def)

lemma term_run_one [simp]: "term_run [x] t = term_write x t" "term_run [] t = t"
  by (simp_all add: term_run_def)

lemma not_echoable: "\<not> session_char_echoable BS" "\<not> session_char_echoable ESC" "\<not> session_char_echoable NUL"
  by (simp_all add: session_char_echoable_def BS_def ESC_def NUL_def)

lemma term_put_printable:
  "printable s \<Longrightarrow> col \<le> length row \<Longrightarrow>
   foldl term_put (row, col) s = (take col row @ s @ drop (col + length s) row, col + length s)"
proof (induction s arbitrary: row col)
  case (Cons c s)
  then have c: "c \<noteq> BS" "printable s" using not_echoable by (auto simp: printable_def)
  have "foldl term_put (row, col) (c # s) = foldl term_put (take col row @ [c] @ drop (col + 1) row, col + 1) s"
    using c(1) by (simp add: term_put_def)
  also have "\<dots> = (take (col + 1) (take col row @ [c] @ drop (col + 1) row) @ s
      @ drop (col + 1 + length s) (take col row @ [c] @ drop (col + 1) row), col + 1 + length s)"
    using Cons.prems(2) c(2) by (intro Cons.IH) auto
  also have "\<dots> = (take col row @ (c # s) @ drop (col + length (c # s)) row, col + length (c # s))"
    using Cons.prems(2) by (simp add: add.commute)
  finally show ?case .
qed simp

lemma term_write_printable:
  "printable s \<Longrightarrow> s \<noteq> [] \<Longrightarrow> col \<le> length row \<Longrightarrow>
   term_write (Raw s) (row, col) = (take col row @ s @ drop (col + length s) row, col + length s)"
  using term_put_printable [of s col row] not_echoable(2) by (auto simp: term_write_def printable_def)

lemma term_write_erase [simp]: "term_write (Raw (ESC # ''[K'')) (row, col) = (take col row, col)"
  by (simp add: term_write_def)

lemma term_put_back: "foldl term_put (row, col) (replicate n BS) = (row, col - n)"
  by (induction n arbitrary: col) (auto simp: term_put_def)

lemma term_write_back: "term_write (Raw (replicate n BS)) (row, col) = (row, col - n)"
proof -
  have "replicate n BS \<noteq> ESC # ''[K''" by (cases n) (auto simp: BS_def ESC_def)
  then show ?thesis by (simp add: term_write_def term_put_back)
qed

lemma term_write_bs [simp]: "term_write (Raw [BS]) (row, col) = (row, col - 1)"
  using term_write_back [of 1] by simp

section \<open>Writes that succeed\<close>

text \<open>\<open>adds xs ed ed'\<close>: only the output differs, by \<open>xs\<close>.\<close>

definition adds :: "session_out list \<Rightarrow> editor \<Rightarrow> editor" where
  "adds xs ed = ed\<lparr>ed_out := ed_out ed @ xs\<rparr>"

lemma adds_simps [simp]:
  "ed_buf (adds xs ed) = ed_buf ed" "ed_len (adds xs ed) = ed_len ed" "ed_cursor (adds xs ed) = ed_cursor ed"
  "ed_echo (adds xs ed) = ed_echo ed" "ed_script (adds xs ed) = ed_script ed"
  "ed_out (adds xs ed) = ed_out ed @ xs" "adds ys (adds xs ed) = adds (xs @ ys) ed" "adds [] ed = ed"
  by (simp_all add: adds_def)

lemma write_open [simp]:
  "ed_script ed = [] \<Longrightarrow> data \<noteq> [] \<Longrightarrow> session_write_transport data ed = (HYBBX_OK, adds [Raw data] ed)"
  by (simp add: session_write_transport_def ed_write_def adds_def)

lemma and_then_OK [simp]: "and_then (HYBBX_OK, ed) k = k ed"
  by (simp add: and_then_def)

lemma move_back_open:
  "ed_script ed = [] \<Longrightarrow>
   \<exists>xs. session_line_move_back n ed = (HYBBX_OK, adds xs ed) \<and> (\<forall>row col. term_run xs (row, col) = (row, col - n))"
proof (induction n arbitrary: ed rule: less_induct)
  case (less n)
  show ?case
  proof (cases "n = 0")
    case True
    then show ?thesis by (subst session_line_move_back.simps) (auto intro!: exI [of _ "[]"])
  next
    case False
    let ?k = "min n 64" and ?w = "Raw (replicate (min n 64) BS)"
    have k: "0 < ?k" "n - ?k < n" using False by auto
    obtain xs where xs: "session_line_move_back (n - ?k) (adds [?w] ed) = (HYBBX_OK, adds xs (adds [?w] ed))"
      "\<forall>row col. term_run xs (row, col) = (row, col - (n - ?k))"
      using less.IH [OF k(2), of "adds [?w] ed"] less.prems by auto
    have "session_line_move_back n ed = (HYBBX_OK, adds ([?w] @ xs) ed)"
      using False k(1) xs(1) less.prems by (subst session_line_move_back.simps) (simp add: Let_def)
    moreover have "\<forall>row col. term_run ([?w] @ xs) (row, col) = (row, col - n)"
      using xs(2) k by (simp only: term_run_append term_run_one term_write_back) auto
    ultimately show ?thesis by blast
  qed
qed

text \<open>The refresh writes the rest of the line from the cursor and comes back.\<close>

lemma refresh_open:
  assumes "ed_script ed = []" and "ed_echo ed" and "ed_cursor ed \<le> ed_len ed" and "ed_len ed \<le> length (ed_buf ed)"
    and "printable (ed_line ed)" and "length row \<ge> ed_cursor ed" and "take (ed_cursor ed) row = take (ed_cursor ed) (ed_line ed)"
  shows "\<exists>xs. session_line_refresh_suffix ed = (HYBBX_OK, adds xs ed)
     \<and> term_run xs (row, ed_cursor ed) = (ed_line ed, ed_cursor ed)"
proof -
  let ?n = "ed_len ed - ed_cursor ed" and ?suf = "drop (ed_cursor ed) (ed_line ed)"
  let ?e = "Raw (ESC # ''[K'')"
  have suf: "take ?n (drop (ed_cursor ed) (ed_buf ed)) = ?suf" by (simp add: ed_line_def drop_take)
  have len: "length ?suf = ?n" using assms(4) by (simp add: ed_line_def)
  have ll: "length (ed_line ed) = ed_len ed" using assms(4) by (simp add: ed_line_def)
  have pr: "printable ?suf" using assms(5) by (auto simp: printable_def dest: in_set_dropD)
  define ys where "ys = (if ?n > 0 then [Raw ?suf] else []) @ [?e]"
  obtain xs where xs: "session_line_move_back ?n (adds ys ed) = (HYBBX_OK, adds xs (adds ys ed))"
    "\<forall>row col. term_run xs (row, col) = (row, col - ?n)"
    using move_back_open [of "adds ys ed" ?n] assms(1) by auto
  have "session_line_refresh_suffix ed = (HYBBX_OK, adds (ys @ xs) ed)"
    using assms(1,2) xs(1) len by (cases "?n > 0") (auto simp: session_line_refresh_suffix_def Let_def suf ys_def)
  moreover have "term_run ys (row, ed_cursor ed) = (ed_line ed, ed_len ed)"
  proof (cases "?n > 0")
    case True
    then have "?suf \<noteq> []" using len by auto
    have "term_run ys (row, ed_cursor ed)
        = (take (ed_cursor ed + ?n) (take (ed_cursor ed) row @ ?suf @ drop (ed_cursor ed + ?n) row), ed_cursor ed + ?n)"
      using True term_write_printable [OF pr \<open>?suf \<noteq> []\<close> assms(6)] len
      by (simp add: ys_def term_run_def)
    also have "\<dots> = (ed_line ed, ed_len ed)"
      using assms(3,6,7) len ll by simp
    finally show ?thesis .
  next
    case False
    then have "ed_cursor ed = ed_len ed" "ed_line ed = take (ed_cursor ed) (ed_line ed)" using assms(3) by (auto simp: ed_line_def)
    then show ?thesis using assms(7) by (simp add: ys_def)
  qed
  ultimately show ?thesis using xs(2) assms(3) by (intro exI [of _ "ys @ xs"]) simp
qed

section \<open>The line\<close>

lemma mem_move_length: "dst + n \<le> length buf \<Longrightarrow> src + n \<le> length buf \<Longrightarrow> length (mem_move dst src n buf) = length buf"
  by (simp add: mem_move_def)

lemma mem_move_set: "set (mem_move dst src n buf) \<subseteq> set buf"
  by (auto simp: mem_move_def dest: in_set_takeD in_set_dropD)

lemma line_inv_facts:
  "line_inv ed \<Longrightarrow> length (ed_line ed) = ed_len ed"
  "line_inv ed \<Longrightarrow> ed_cursor ed \<le> length (ed_line ed)"
  by (simp_all add: line_inv_def ed_line_def)

lemma remove_at_cursor_line:
  assumes "line_inv ed" and "ed_cursor ed < ed_len ed"
  shows "line_inv (remove_at_cursor ed)"
    and "ed_line (remove_at_cursor ed) = take (ed_cursor ed) (ed_line ed) @ drop (ed_cursor ed + 1) (ed_line ed)"
    and "ed_cursor (remove_at_cursor ed) = ed_cursor ed" and "ed_len (remove_at_cursor ed) = ed_len ed - 1"
proof -
  let ?c = "ed_cursor ed" and ?n = "ed_len ed" and ?b = "ed_buf ed"
  let ?m = "mem_move ?c (?c + 1) (?n - ?c - 1) ?b"
  have l: "length ?b = LINE_MAX" "?n < LINE_MAX" "printable (ed_line ed)" using assms(1) by (auto simp: line_inv_def)
  have len: "length ?m = LINE_MAX" using l assms(2) by (simp add: mem_move_def)
  show line: "ed_line (remove_at_cursor ed) = take ?c (ed_line ed) @ drop (?c + 1) (ed_line ed)"
    using assms(2) l by (simp add: ed_line_def remove_at_cursor_def Let_def mem_move_def drop_take)
  then have "printable (ed_line (remove_at_cursor ed))"
    using l(3) by (auto simp: printable_def dest: in_set_takeD in_set_dropD)
  moreover have "set (?m[?n - 1 := NUL]) \<subseteq> insert NUL (set ?b)"
    using set_update_subset_insert [of ?m "?n - 1" NUL] mem_move_set [of ?c "?c + 1" "?n - ?c - 1" ?b] by auto
  ultimately show "line_inv (remove_at_cursor ed)"
    using assms l len by (auto simp: line_inv_def remove_at_cursor_def Let_def)
  show "ed_cursor (remove_at_cursor ed) = ?c" "ed_len (remove_at_cursor ed) = ?n - 1"
    by (simp_all add: remove_at_cursor_def Let_def)
qed

definition insert_at_cursor :: "char \<Rightarrow> editor \<Rightarrow> editor" where
  "insert_at_cursor ch ed =
     (let c = ed_cursor ed; len = ed_len ed;
          moved = (if c < len then mem_move (c + 1) c (len - c) (ed_buf ed) else ed_buf ed)
      in ed\<lparr>ed_buf := (moved[c := ch])[len + 1 := NUL], ed_len := len + 1, ed_cursor := c + 1\<rparr>)"

lemma insert_at_cursor_line:
  assumes "line_inv ed" and "ed_len ed < LINE_MAX - 1" and "session_char_echoable ch"
  shows "line_inv (insert_at_cursor ch ed)"
    and "ed_line (insert_at_cursor ch ed) = take (ed_cursor ed) (ed_line ed) @ ch # drop (ed_cursor ed) (ed_line ed)"
    and "ed_cursor (insert_at_cursor ch ed) = ed_cursor ed + 1" and "ed_len (insert_at_cursor ch ed) = ed_len ed + 1"
proof -
  let ?c = "ed_cursor ed" and ?n = "ed_len ed" and ?b = "ed_buf ed"
  let ?m = "if ?c < ?n then mem_move (?c + 1) ?c (?n - ?c) ?b else ?b"
  have l: "length ?b = LINE_MAX" "?c \<le> ?n" "printable (ed_line ed)" using assms(1) by (auto simp: line_inv_def)
  have len: "length ?m = LINE_MAX" using l assms(2) by (simp add: mem_move_def)
  have "take (?n + 1) (?m[?c := ch]) = take ?c ?b @ ch # take (?n - ?c) (drop ?c ?b)"
  proof (cases "?c < ?n")
    case True
    with l assms(2) show ?thesis by (simp add: mem_move_def take_Suc_conv_app_nth list_update_append Suc_diff_le)
  next
    case False
    with l assms(2) have "?c = ?n" "?n < length ?b" by auto
    then show ?thesis by (simp add: upd_conv_take_nth_drop)
  qed
  then show line: "ed_line (insert_at_cursor ch ed) = take ?c (ed_line ed) @ ch # drop ?c (ed_line ed)"
    using l by (simp add: ed_line_def insert_at_cursor_def Let_def drop_take min_absorb1)
  then have "printable (ed_line (insert_at_cursor ch ed))"
    using l(3) assms(3) by (auto simp: printable_def dest: in_set_takeD in_set_dropD)
  moreover have "set ?m \<subseteq> set ?b" using subsetD [OF mem_move_set] by auto
  then have "insert ch (set ?m) \<subseteq> insert ch (set ?b)" by blast
  from order_trans [OF set_update_subset_insert this] have "set (?m[?c := ch]) \<subseteq> insert ch (set ?b)" .
  then have "insert NUL (set (?m[?c := ch])) \<subseteq> insert NUL (insert ch (set ?b))" by blast
  from order_trans [OF set_update_subset_insert this]
  have "set ((?m[?c := ch])[?n + 1 := NUL]) \<subseteq> insert NUL (insert ch (set ?b))" .
  ultimately show "line_inv (insert_at_cursor ch ed)"
    using assms l len unfolding line_inv_def by (auto simp: insert_at_cursor_def Let_def)
  show "ed_cursor (insert_at_cursor ch ed) = ?c + 1" "ed_len (insert_at_cursor ch ed) = ?n + 1"
    by (simp_all add: insert_at_cursor_def Let_def)
qed

lemma insert_char_eq:
  "session_line_insert_char ch ed =
     (if \<not> session_char_echoable ch \<or> ed_len ed \<ge> session_line_max_len ed then (HYBBX_OK, ed)
      else if \<not> ed_echo ed then (HYBBX_OK, insert_at_cursor ch ed)
      else case session_write_transport [ch] (insert_at_cursor ch ed) of
             (rc, ed) \<Rightarrow>
               if rc \<noteq> HYBBX_OK
               then (rc, ed\<lparr>ed_cursor := ed_cursor ed - 1, ed_len := ed_len ed - 1,
                            ed_buf := (ed_buf ed)[ed_len ed - 1 := NUL]\<rparr>)
               else session_line_refresh_suffix ed)"
  by (simp add: session_line_insert_char_def insert_at_cursor_def Let_def)

section \<open>Every operation keeps the invariant\<close>

text \<open>Only the output and the script of results change.\<close>

definition same_but_io :: "editor \<Rightarrow> editor \<Rightarrow> bool" where
  "same_but_io ed ed' \<longleftrightarrow> (\<exists>script out. ed' = ed\<lparr>ed_script := script, ed_out := out\<rparr>)"

lemma same_but_io_refl [simp]: "same_but_io ed ed"
  unfolding same_but_io_def by (intro exI [of _ "ed_script ed"] exI [of _ "ed_out ed"]) simp

lemma same_but_io_trans: "same_but_io a b \<Longrightarrow> same_but_io b c \<Longrightarrow> same_but_io a c"
  unfolding same_but_io_def by (elim exE) (simp, intro exI, rule refl)

lemma ed_write_io: "same_but_io ed (snd (ed_write x ed))"
proof (cases "ed_script ed")
  case Nil
  then show ?thesis
    unfolding same_but_io_def ed_write_def by (intro exI [of _ "[]"] exI [of _ "ed_out ed @ [x]"]) simp
next
  case (Cons rc script)
  then show ?thesis
    unfolding same_but_io_def ed_write_def
    by (intro exI [of _ script] exI [of _ "if rc = HYBBX_OK then ed_out ed @ [x] else ed_out ed"]) simp
qed

lemma write_io: "same_but_io ed (snd (session_write_transport data ed))"
  using ed_write_io by (simp add: session_write_transport_def)

lemma session_write_io: "same_but_io ed (snd (session_write text ed))"
  using ed_write_io by (simp add: session_write_def)

lemma and_then_io: "same_but_io ed (snd r) \<Longrightarrow> (\<And>x. same_but_io ed x \<Longrightarrow> same_but_io ed (snd (k x))) \<Longrightarrow>
   same_but_io ed (snd (and_then r k))"
  by (auto simp: and_then_def split: prod.splits)

lemma move_back_io: "same_but_io ed (snd (session_line_move_back n ed))"
proof (induction n arbitrary: ed rule: less_induct)
  case (less n)
  show ?case
  proof (cases "n = 0")
    case False
    then have IH: "same_but_io x (snd (session_line_move_back (n - min n 64) x))" for x
      using less.IH by simp
    have "same_but_io ed (snd (and_then (session_write_transport (replicate (min n 64) BS) ed)
        (\<lambda>ed. session_line_move_back (n - min n 64) ed)))"
      by (rule and_then_io [OF write_io]) (rule same_but_io_trans [OF _ IH])
    with False show ?thesis by (subst session_line_move_back.simps) (simp add: Let_def)
  qed (subst session_line_move_back.simps, simp)
qed

lemma refresh_io: "same_but_io ed (snd (session_line_refresh_suffix ed))"
  unfolding session_line_refresh_suffix_def Let_def
  by (auto intro!: and_then_io intro: same_but_io_trans [OF _ write_io] same_but_io_trans [OF _ move_back_io] write_io)

lemma same_but_io_inv:
  assumes "same_but_io ed ed'"
  shows "ed_inv ed' = ed_inv ed" "line_inv ed' = line_inv ed" "history_inv ed' = history_inv ed"
    "ed_line ed' = ed_line ed" "ed_cursor ed' = ed_cursor ed" "ed_len ed' = ed_len ed" "ed_buf ed' = ed_buf ed"
    "ed_csi ed' = ed_csi ed" "ed_message_max ed' = ed_message_max ed" "ed_echo ed' = ed_echo ed"
    "ed_history ed' = ed_history ed" "ed_hcount ed' = ed_hcount ed" "ed_hnext ed' = ed_hnext ed"
    "ed_hview ed' = ed_hview ed" "ed_saved ed' = ed_saved ed" "ed_area ed' = ed_area ed"
proof -
  obtain script out where "ed' = ed\<lparr>ed_script := script, ed_out := out\<rparr>" using assms by (auto simp: same_but_io_def)
  then show "ed_inv ed' = ed_inv ed" "line_inv ed' = line_inv ed" "history_inv ed' = history_inv ed"
    "ed_line ed' = ed_line ed" "ed_cursor ed' = ed_cursor ed" "ed_len ed' = ed_len ed" "ed_buf ed' = ed_buf ed"
    "ed_csi ed' = ed_csi ed" "ed_message_max ed' = ed_message_max ed" "ed_echo ed' = ed_echo ed"
    "ed_history ed' = ed_history ed" "ed_hcount ed' = ed_hcount ed" "ed_hnext ed' = ed_hnext ed"
    "ed_hview ed' = ed_hview ed" "ed_saved ed' = ed_saved ed" "ed_area ed' = ed_area ed"
    by (simp_all add: ed_inv_def line_inv_def history_inv_def ed_line_def)
qed

lemma line_step_inv:
  "ed_inv ed \<Longrightarrow> line_inv ed' \<Longrightarrow> history_inv ed' = history_inv ed \<Longrightarrow> ed_message_max ed' = ed_message_max ed \<Longrightarrow>
   ed_csi ed' = ed_csi ed \<Longrightarrow> ed_inv ed'"
  by (simp add: ed_inv_def)

lemma cursor_moved_inv: "ed_inv ed \<Longrightarrow> c \<le> ed_len ed \<Longrightarrow> ed_inv (ed\<lparr>ed_cursor := c\<rparr>)"
  by (simp add: ed_inv_def line_inv_def history_inv_def ed_line_def)

lemma cursor_left_inv: "ed_inv ed \<Longrightarrow> ed_inv (snd (session_line_cursor_left ed))"
  using same_but_io_inv(1) [OF write_io] cursor_moved_inv [of ed "ed_cursor ed - 1"]
  by (auto simp: session_line_cursor_left_def Let_def ed_inv_def line_inv_def)

lemma cursor_right_inv: "ed_inv ed \<Longrightarrow> ed_inv (snd (session_line_cursor_right ed))"
proof -
  assume inv: "ed_inv ed"
  have "ed_inv (ed'\<lparr>ed_cursor := ed_cursor ed' + 1\<rparr>)" if "same_but_io ed ed'" "ed_cursor ed < ed_len ed" for ed'
    using same_but_io_inv [OF that(1)] that(2) inv by (intro cursor_moved_inv) auto
  with inv show ?thesis
    using write_io [of ed "[ed_buf ed ! ed_cursor ed]"]
    by (auto simp: session_line_cursor_right_def and_then_def same_but_io_inv(1) split: prod.splits)
qed

lemma and_then_inv:
  "ed_inv (snd r) \<Longrightarrow> (\<And>x. ed_inv x \<Longrightarrow> ed_inv (snd (k x))) \<Longrightarrow> ed_inv (snd (and_then r k))"
  by (cases r) (simp add: and_then_def)

lemma cursor_home_inv: "ed_inv ed \<Longrightarrow> ed_inv (snd (cursor_home_loop n ed))"
proof (induction n arbitrary: ed)
  case (Suc n)
  then show ?case by (simp add: and_then_inv [OF cursor_left_inv])
qed simp

lemma cursor_end_inv: "ed_inv ed \<Longrightarrow> ed_inv (snd (cursor_end_loop n ed))"
proof (induction n arbitrary: ed)
  case (Suc n)
  then show ?case by (simp add: and_then_inv [OF cursor_right_inv])
qed simp

lemmas cursor_loops_inv = cursor_home_inv cursor_end_inv

lemma remove_at_cursor_inv: "ed_inv ed \<Longrightarrow> ed_cursor ed < ed_len ed \<Longrightarrow> ed_inv (remove_at_cursor ed)"
proof -
  assume inv: "ed_inv ed" and c: "ed_cursor ed < ed_len ed"
  have "line_inv (remove_at_cursor ed)" using inv c by (intro remove_at_cursor_line) (auto simp: ed_inv_def)
  moreover have "history_inv (remove_at_cursor ed) = history_inv ed" "ed_csi (remove_at_cursor ed) = ed_csi ed"
    "ed_message_max (remove_at_cursor ed) = ed_message_max ed"
    by (simp_all add: history_inv_def remove_at_cursor_def Let_def)
  ultimately show ?thesis using inv by (simp add: ed_inv_def)
qed

lemma backspace_inv: "ed_inv ed \<Longrightarrow> ed_inv (snd (session_line_backspace ed))"
proof (cases "ed_cursor ed = 0")
  case False
  assume inv: "ed_inv ed"
  let ?ed = "remove_at_cursor (ed\<lparr>ed_cursor := ed_cursor ed - 1\<rparr>)"
  have le: "ed_cursor ed \<le> ed_len ed" using inv by (simp add: ed_inv_def line_inv_def)
  have r: "ed_inv ?ed"
    using cursor_moved_inv [OF inv, of "ed_cursor ed - 1"] False le by (intro remove_at_cursor_inv) auto
  have "same_but_io ?ed (snd (and_then (session_write_transport [BS] ?ed) session_line_refresh_suffix))"
    by (rule and_then_io [OF write_io]) (rule same_but_io_trans [OF _ refresh_io])
  from same_but_io_inv(1) [OF this] r False show ?thesis by (simp add: session_line_backspace_def Let_def)
qed (simp add: session_line_backspace_def)

lemma delete_forward_inv: "ed_inv ed \<Longrightarrow> ed_inv (snd (session_line_delete_forward ed))"
  using remove_at_cursor_inv [of ed] same_but_io_inv(1) [OF refresh_io]
  by (auto simp: session_line_delete_forward_def Let_def)

lemma line_max_len: "ed_inv ed \<Longrightarrow> session_line_max_len ed \<le> LINE_MAX - 1"
  by (auto simp: session_line_max_len_def session_chat_message_max_def ed_inv_def)

lemma insert_at_cursor_inv:
  "ed_inv ed \<Longrightarrow> ed_len ed < session_line_max_len ed \<Longrightarrow> session_char_echoable ch \<Longrightarrow> ed_inv (insert_at_cursor ch ed)"
proof -
  assume inv: "ed_inv ed" and c: "ed_len ed < session_line_max_len ed" and ch: "session_char_echoable ch"
  have "line_inv (insert_at_cursor ch ed)"
    using inv c ch line_max_len [OF inv] by (intro insert_at_cursor_line) (auto simp: ed_inv_def)
  moreover have "history_inv (insert_at_cursor ch ed) = history_inv ed" "ed_csi (insert_at_cursor ch ed) = ed_csi ed"
    "ed_message_max (insert_at_cursor ch ed) = ed_message_max ed"
    by (simp_all add: history_inv_def insert_at_cursor_def Let_def)
  ultimately show ?thesis using inv by (simp add: ed_inv_def)
qed

text \<open>The rollback of a failed insertion takes the last character back, whichever it is.\<close>

lemma rollback_inv:
  assumes "ed_inv ed" and "0 < ed_cursor ed"
  shows "ed_inv (ed\<lparr>ed_cursor := ed_cursor ed - 1, ed_len := ed_len ed - 1, ed_buf := (ed_buf ed)[ed_len ed - 1 := NUL]\<rparr>)"
proof -
  have l: "line_inv ed" using assms(1) by (simp add: ed_inv_def)
  have "printable (take (ed_len ed - 1) ((ed_buf ed)[ed_len ed - 1 := NUL]))"
    using l set_take_subset_set_take [of "ed_len ed - 1" "ed_len ed" "ed_buf ed"]
    by (auto simp: line_inv_def printable_def ed_line_def)
  moreover have "set ((ed_buf ed)[ed_len ed - 1 := NUL]) \<subseteq> insert NUL (set (ed_buf ed))"
    by (rule set_update_subset_insert)
  ultimately show ?thesis
    using assms l by (intro line_step_inv [OF assms(1)]) (auto simp: line_inv_def history_inv_def ed_line_def)
qed

lemma insert_char_inv: "ed_inv ed \<Longrightarrow> ed_inv (snd (session_line_insert_char ch ed))"
proof -
  assume inv: "ed_inv ed"
  let ?ed = "insert_at_cursor ch ed"
  show ?thesis
  proof (cases "\<not> session_char_echoable ch \<or> ed_len ed \<ge> session_line_max_len ed")
    case False
    then have i: "ed_inv ?ed" "ed_cursor ?ed = ed_cursor ed + 1"
      using inv insert_at_cursor_inv by (auto simp: insert_at_cursor_def Let_def)
    obtain rc ed1 where w: "session_write_transport [ch] ?ed = (rc, ed1)" by fastforce
    then have io: "same_but_io ?ed ed1" using write_io [of ?ed "[ch]"] by simp
    with i have e: "ed_inv ed1" "0 < ed_cursor ed1" by (simp_all add: same_but_io_inv [OF io])
    show ?thesis
      using i(1) w rollback_inv [OF e] same_but_io_inv(1) [OF refresh_io [of ed1]] e(1) False
      by (auto simp: insert_char_eq)
  qed (use inv in \<open>auto simp: insert_char_eq\<close>)
qed

definition put_line :: "string \<Rightarrow> editor \<Rightarrow> editor" where
  "put_line line ed =
     (let len = (if length line \<ge> LINE_MAX then LINE_MAX - 1 else length line)
      in ed\<lparr>ed_buf := take len line @ [NUL] @ drop (len + 1) (ed_buf ed), ed_len := len, ed_cursor := len\<rparr>)"

lemma put_line_inv:
  assumes "ed_inv ed" and "printable line" and "length line < LINE_MAX"
  shows "ed_inv (put_line line ed)" and "ed_line (put_line line ed) = line" and "ed_cursor (put_line line ed) = length line"
proof -
  show l: "ed_line (put_line line ed) = line" "ed_cursor (put_line line ed) = length line"
    using assms(3) by (simp_all add: put_line_def ed_line_def Let_def)
  have "line_inv (put_line line ed)"
    using assms l unfolding line_inv_def ed_inv_def
    by (auto simp: put_line_def Let_def printable_def dest: in_set_dropD)
  moreover have "history_inv (put_line line ed) = history_inv ed" "ed_csi (put_line line ed) = ed_csi ed"
    "ed_message_max (put_line line ed) = ed_message_max ed"
    by (simp_all add: history_inv_def put_line_def Let_def)
  ultimately show "ed_inv (put_line line ed)" using assms(1) by (simp add: ed_inv_def)
qed

lemma line_replace_eq:
  "session_line_replace line ed =
     and_then
       (if ed_echo ed then
          and_then
            (and_then (session_line_move_back (ed_cursor ed) ed)
              (\<lambda>ed. if take (LINE_MAX - 1) line \<noteq> [] then session_write_transport (take (LINE_MAX - 1) line) ed
                    else (HYBBX_OK, ed)))
            (session_write_transport (ESC # ''[K''))
        else (HYBBX_OK, ed))
       (\<lambda>ed. (HYBBX_OK, put_line line ed))"
proof -
  have "take (if length line \<ge> LINE_MAX then LINE_MAX - 1 else length line) line = take (LINE_MAX - 1) line"
    by (simp add: LINE_MAX_def)
  moreover have "(if length line \<ge> LINE_MAX then LINE_MAX - 1 else length line) > 0 \<longleftrightarrow> take (LINE_MAX - 1) line \<noteq> []"
    by (auto simp: LINE_MAX_def)
  ultimately show ?thesis
    unfolding session_line_replace_def put_line_def Let_def by (simp only:)
qed

lemma line_replace_io:
  "\<exists>ed'. same_but_io ed ed' \<and> snd (session_line_replace line ed) \<in> {ed', put_line line ed'}"
proof -
  let ?r = "if ed_echo ed then
          and_then
            (and_then (session_line_move_back (ed_cursor ed) ed)
              (\<lambda>ed. if take (LINE_MAX - 1) line \<noteq> [] then session_write_transport (take (LINE_MAX - 1) line) ed
                    else (HYBBX_OK, ed)))
            (session_write_transport (ESC # ''[K''))
        else (HYBBX_OK, ed)"
  have "same_but_io ed (snd ?r)"
    by (auto intro!: and_then_io move_back_io intro: same_but_io_trans [OF _ write_io])
  then show ?thesis
    unfolding line_replace_eq by (auto simp: and_then_def split: prod.splits intro!: exI [of _ "snd ?r"])
qed

lemma line_replace_inv:
  assumes "ed_inv ed" and "printable line" and "length line < LINE_MAX"
  shows "ed_inv (snd (session_line_replace line ed))"
proof -
  obtain ed' where e: "same_but_io ed ed'" "snd (session_line_replace line ed) \<in> {ed', put_line line ed'}"
    using line_replace_io by blast
  with assms same_but_io_inv(1) [OF e(1)] put_line_inv(1) [of ed' line] show ?thesis by auto
qed

lemma history_view_inv: "ed_inv ed \<Longrightarrow> - 1 \<le> v \<Longrightarrow> v \<le> 0 \<or> v < int (ed_hcount ed) \<Longrightarrow> ed_inv (ed\<lparr>ed_hview := v\<rparr>)"
  by (simp add: ed_inv_def line_inv_def history_inv_def ed_line_def)

lemma history_line:
  "history_inv ed \<Longrightarrow> printable (ed_history ed ! history_slot ed) \<and> length (ed_history ed ! history_slot ed) < LINE_MAX"
  unfolding history_inv_def history_slot_def by (metis HISTORY_MAX_def mod_less_divisor nth_mem zero_less_numeral)

lemma c_str_printable:
  "line_inv ed \<Longrightarrow> printable (c_str (ed_buf ed)) \<and> length (c_str (ed_buf ed)) \<le> LINE_MAX"
  unfolding line_inv_def printable_def c_str_def by (metis (full_types) length_takeWhile_le set_takeWhileD)

lemma saved_inv:
  "ed_inv ed \<Longrightarrow> ed_inv (ed\<lparr>ed_saved := str_store LINE_MAX (c_str (ed_buf ed)), ed_hview := 0\<rparr>)"
  using c_str_printable [of ed] unfolding ed_inv_def
  by (auto simp: line_inv_def history_inv_def ed_line_def str_store_def printable_def LINE_MAX_def dest: in_set_takeD)

lemma history_up_inv: "ed_inv ed \<Longrightarrow> ed_inv (snd (session_history_up ed))"
proof -
  assume inv: "ed_inv ed"
  have rep: "ed_inv ed' \<Longrightarrow> ed_inv (snd (session_line_replace (ed_history ed' ! history_slot ed') ed'))" for ed'
    using line_replace_inv history_line [of ed'] by (auto simp: ed_inv_def)
  have "0 \<le> ed_hview ed \<Longrightarrow> nat (ed_hview ed + 1) < ed_hcount ed \<Longrightarrow> ed_inv (ed\<lparr>ed_hview := ed_hview ed + 1\<rparr>)"
    by (rule history_view_inv [OF inv]) linarith+
  with inv saved_inv [OF inv] show ?thesis
    using rep [of "ed\<lparr>ed_saved := str_store LINE_MAX (c_str (ed_buf ed)), ed_hview := 0\<rparr>"]
      rep [of "ed\<lparr>ed_hview := ed_hview ed + 1\<rparr>"]
    unfolding session_history_up_def Let_def by auto
qed

lemma history_down_inv: "ed_inv ed \<Longrightarrow> ed_inv (snd (session_history_down ed))"
proof -
  assume inv: "ed_inv ed"
  have rep: "ed_inv ed' \<Longrightarrow> ed_inv (snd (session_line_replace (ed_history ed' ! history_slot ed') ed'))" for ed'
    using line_replace_inv history_line [of ed'] by (auto simp: ed_inv_def)
  have up: "0 < ed_hview ed \<Longrightarrow> ed_inv (ed\<lparr>ed_hview := ed_hview ed - 1\<rparr>)"
    using inv by (intro history_view_inv [OF inv]) (auto simp: ed_inv_def history_inv_def)
  have "ed_inv (snd (session_line_replace (ed_saved ed) (ed\<lparr>ed_hview := - 1\<rparr>)))"
    using inv by (intro line_replace_inv history_view_inv) (auto simp: ed_inv_def history_inv_def)
  with inv up rep [of "ed\<lparr>ed_hview := ed_hview ed - 1\<rparr>"] show ?thesis
    unfolding session_history_down_def Let_def by auto
qed

lemma apply_csi_inv: "ed_inv ed \<Longrightarrow> ed_inv (snd (session_apply_csi params ch ed))"
  by (simp add: session_apply_csi_def history_up_inv history_down_inv cursor_left_inv cursor_right_inv
      session_line_cursor_home_def session_line_cursor_end_def cursor_loops_inv delete_forward_inv)

lemma esc_inv:
  "ed_inv ed \<Longrightarrow> ed_inv (ed\<lparr>ed_esc := e, ed_csi := []\<rparr>)" "ed_inv ed \<Longrightarrow> ed_inv (ed\<lparr>ed_esc := e\<rparr>)"
  "ed_inv ed \<Longrightarrow> length (ed_csi ed) + 1 < CSI_BUF_MAX \<Longrightarrow> ed_inv (ed\<lparr>ed_csi := ed_csi ed @ [c]\<rparr>)"
  by (auto simp: ed_inv_def line_inv_def history_inv_def ed_line_def CSI_BUF_MAX_def)

lemma escape_reset_inv: "ed_inv ed \<Longrightarrow> ed_inv (session_escape_reset ed)"
  by (simp add: session_escape_reset_def esc_inv)

lemma filter_inv: "ed_inv ed \<Longrightarrow> ed_inv (snd (session_filter_escape_byte b ed))"
  by (simp add: session_filter_escape_byte_def esc_inv escape_reset_inv apply_csi_inv cursor_left_inv
      cursor_right_inv session_line_cursor_home_def session_line_cursor_end_def cursor_loops_inv split: esc_state.split)

lemma history_add_inv:
  assumes "ed_inv ed" and "printable line"
  shows "ed_inv (session_history_add line ed)"
proof -
  let ?h = "(ed_history ed)[ed_hnext ed := str_store LINE_MAX line]"
  have "set ?h \<subseteq> insert (str_store LINE_MAX line) (set (ed_history ed))" by (rule set_update_subset_insert)
  moreover have "length (str_store LINE_MAX line) < LINE_MAX \<and> printable (str_store LINE_MAX line)"
    using assms(2) by (auto simp: str_store_def LINE_MAX_def printable_def dest: in_set_takeD)
  ultimately have "\<forall>h \<in> set ?h. length h < LINE_MAX \<and> printable h"
    using assms(1) by (auto simp: ed_inv_def history_inv_def)
  with assms show ?thesis
    by (auto simp: session_history_add_def ed_inv_def line_inv_def history_inv_def ed_line_def printable_def
        LINE_MAX_def HISTORY_MAX_def)
qed

lemma ed_inv_plain:
  "ed_inv (ed\<lparr>ed_expect_lf := b\<rparr>) = ed_inv ed"
  by (simp add: ed_inv_def line_inv_def history_inv_def ed_line_def)

lemma ed_inv_terminated: "ed_inv ed \<Longrightarrow> ed_inv (ed\<lparr>ed_buf := (ed_buf ed)[ed_len ed := NUL]\<rparr>)"
proof -
  assume inv: "ed_inv ed"
  have "set ((ed_buf ed)[ed_len ed := NUL]) \<subseteq> insert NUL (set (ed_buf ed))" by (rule set_update_subset_insert)
  with inv show ?thesis by (auto simp: ed_inv_def line_inv_def history_inv_def ed_line_def)
qed

lemma ed_inv_cleared: "ed_inv ed \<Longrightarrow> ed_inv (ed\<lparr>ed_len := 0, ed_cursor := 0, ed_hview := - 1\<rparr>)"
  by (simp add: ed_inv_def line_inv_def history_inv_def ed_line_def printable_def LINE_MAX_def)

lemma submit_inv:
  assumes "ed_inv ed" and "\<And>line x. ed_inv x \<Longrightarrow> ed_inv (process line x)"
  shows "ed_inv (session_submit_line process prompt ed)"
proof -
  let ?ed = "ed\<lparr>ed_buf := (ed_buf ed)[ed_len ed := NUL]\<rparr>"
  have "ed_inv ?ed" by (rule ed_inv_terminated [OF assms(1)])
  then have "ed_inv (session_history_add (c_str (ed_buf ?ed)) ?ed)"
    by (intro history_add_inv) (auto simp: ed_inv_def dest: c_str_printable)
  from ed_inv_cleared [OF assms(2) [OF this]]
  have fin: "ed_inv ((process (c_str (ed_buf ?ed)) (session_history_add (c_str (ed_buf ?ed)) ?ed))
      \<lparr>ed_len := 0, ed_cursor := 0, ed_hview := - 1\<rparr>)" .
  have "ed_inv x \<Longrightarrow> ed_inv (snd (session_show_prompt prompt x))" for x
    using same_but_io_inv(1) [OF session_write_io] by (simp add: session_show_prompt_def)
  with fin show ?thesis unfolding session_submit_line_def Let_def by simp
qed

lemma user_byte_inv:
  assumes "ed_inv ed" and "\<And>line x. ed_inv x \<Longrightarrow> ed_inv (process line x)"
  shows "ed_inv (snd (session_handle_user_byte process prompt b ed))"
proof -
  have nl: "ed_inv (snd (session_echo_newline ed))"
    using same_but_io_inv(1) [OF session_write_io] assms(1) by (simp add: session_echo_newline_def)
  have sub: "ed_inv x \<Longrightarrow> ed_inv (session_submit_line process prompt x)" for x
    by (rule submit_inv [OF _ assms(2)])
  show ?thesis
    unfolding session_handle_user_byte_def Let_def
    by (auto simp: backspace_inv assms(1) ed_inv_plain insert_char_inv sub intro!: and_then_inv [OF nl])
qed

text \<open>
  C16. The line editor never leaves its buffers: from any good state (cursor within the line, the line
  within its array, the history ring within its slots, every stored line printable) every input,
  whatever bytes it has and whichever writes fail, ends in a good state, as long as what a submitted
  line does keeps it good.
\<close>

theorem line_editor_invariant:
  assumes "ed_inv ed" and "\<And>line x. ed_inv x \<Longrightarrow> ed_inv (process line x)"
  shows "ed_inv (snd (session_handle_input process prompt expiry data ed))"
proof -
  have "ed_inv (snd (session_input_loop process prompt data ed))" using assms(1)
  proof (induction data arbitrary: ed)
    case (Cons b bs)
    obtain skip ed1 where f: "session_filter_escape_byte b ed = (skip, ed1)" by fastforce
    with filter_inv [OF Cons.prems, of b] have inv1: "ed_inv ed1" by simp
    show ?case
    proof (cases skip)
      case False
      with f show ?thesis
        using and_then_inv [OF user_byte_inv [OF inv1 assms(2)] Cons.IH] by simp
    qed (use f inv1 Cons.IH in simp)
  qed simp
  with assms(1) show ?thesis by (simp add: session_handle_input_def)
qed

lemma editor_open_inv: "message_max < LINE_MAX \<Longrightarrow> ed_inv (editor_open echo li lp message_max)"
  by (simp add: editor_open_def ed_inv_def line_inv_def history_inv_def ed_line_def printable_def LINE_MAX_def
      HISTORY_MAX_def CSI_BUF_MAX_def)

theorem line_editor_invariant_witness:
  "ed_inv (snd (session_handle_input (\<lambda>line ed. ed) ''> '' HYBBX_OK [0x68, 0x1B, 0x5B, 0x44, 0x69, 0x0D]
     (editor_open True True False 72)))"
  by (rule line_editor_invariant [OF editor_open_inv]) (simp_all add: LINE_MAX_def)

section \<open>The echo mirrors the line\<close>

definition ed_open :: "editor \<Rightarrow> bool" where
  "ed_open ed \<longleftrightarrow> ed_inv ed \<and> ed_script ed = [] \<and> ed_echo ed"

definition mirrors :: "editor \<Rightarrow> hybbx_result \<times> editor \<Rightarrow> bool" where
  "mirrors ed r \<longleftrightarrow> fst r = HYBBX_OK \<and> ed_open (snd r)
     \<and> (\<exists>xs. ed_out (snd r) = ed_out ed @ xs
          \<and> term_run xs (ed_line ed, ed_cursor ed) = (ed_line (snd r), ed_cursor (snd r)))"

lemma mirrors_refl [simp]: "ed_open ed \<Longrightarrow> mirrors ed (HYBBX_OK, ed)"
  by (auto simp: mirrors_def intro!: exI [of _ "[]"])

lemma mirrors_trans:
  assumes "mirrors ed (HYBBX_OK, ed1)" and "mirrors ed1 r"
  shows "mirrors ed r"
proof -
  obtain xs ys where "ed_out ed1 = ed_out ed @ xs" "term_run xs (ed_line ed, ed_cursor ed) = (ed_line ed1, ed_cursor ed1)"
    "ed_out (snd r) = ed_out ed1 @ ys" "term_run ys (ed_line ed1, ed_cursor ed1) = (ed_line (snd r), ed_cursor (snd r))"
    using assms by (auto simp: mirrors_def)
  with assms(2) show ?thesis unfolding mirrors_def by (intro conjI exI [of _ "xs @ ys"]) auto
qed

lemma mirrors_then: "mirrors ed r \<Longrightarrow> (\<And>x. ed_open x \<Longrightarrow> mirrors x (k x)) \<Longrightarrow> mirrors ed (and_then r k)"
  using mirrors_trans [of ed "snd r" "k (snd r)"]
  by (cases r) (auto simp: mirrors_def and_then_def)

text \<open>What is written and what changes in the line, put together.\<close>

lemma mirrorsI:
  assumes "r = (HYBBX_OK, ed')" and "ed_inv ed'" and "ed_script ed' = []" and "ed_echo ed'"
    and "ed_out ed' = ed_out ed @ xs" and "term_run xs (ed_line ed, ed_cursor ed) = (ed_line ed', ed_cursor ed')"
  shows "mirrors ed r"
  using assms unfolding mirrors_def ed_open_def by auto

lemma open_facts:
  assumes "ed_open ed"
  shows "ed_inv ed" "line_inv ed" "ed_script ed = []" "ed_echo ed" "ed_cursor ed \<le> ed_len ed" "printable (ed_line ed)"
    "ed_len ed \<le> length (ed_buf ed)" "length (ed_line ed) = ed_len ed"
  using assms by (auto simp: ed_open_def ed_inv_def line_inv_def ed_line_def)

lemma same_but_io_adds: "same_but_io ed (adds xs ed)"
  unfolding same_but_io_def adds_def by (intro exI [of _ "ed_script ed"] exI [of _ "ed_out ed @ xs"]) simp

lemmas adds_inv [simp] = same_but_io_inv(1,4) [OF same_but_io_adds]

lemma cursor_left_mirrors: "ed_open ed \<Longrightarrow> mirrors ed (session_line_cursor_left ed)"
proof (cases "ed_cursor ed = 0")
  case False
  assume o': "ed_open ed"
  note f = open_facts [OF o']
  let ?ed = "ed\<lparr>ed_cursor := ed_cursor ed - 1\<rparr>"
  show ?thesis
  proof (rule mirrorsI [where xs = "[Raw [BS]]" and ed' = "adds [Raw [BS]] ?ed"])
    show "session_line_cursor_left ed = (HYBBX_OK, adds [Raw [BS]] ?ed)"
      using False f by (simp add: session_line_cursor_left_def Let_def)
    show "ed_inv (adds [Raw [BS]] ?ed)" using f cursor_moved_inv [of ed "ed_cursor ed - 1"] by simp
  qed (use f in \<open>simp_all add: ed_line_def\<close>)
qed (simp add: session_line_cursor_left_def)

lemma cursor_right_mirrors: "ed_open ed \<Longrightarrow> mirrors ed (session_line_cursor_right ed)"
proof (cases "ed_cursor ed \<ge> ed_len ed")
  case False
  assume o': "ed_open ed"
  note f = open_facts [OF o']
  let ?c = "ed_cursor ed" and ?x = "Raw [ed_buf ed ! ed_cursor ed]"
  let ?ed = "(adds [?x] ed)\<lparr>ed_cursor := ?c + 1\<rparr>"
  have ch: "ed_buf ed ! ?c = ed_line ed ! ?c" "?c < length (ed_line ed)" using False f by (simp_all add: ed_line_def)
  then have p: "printable [ed_buf ed ! ?c]" using f(6) by (auto simp: printable_def)
  show ?thesis
  proof (rule mirrorsI [where xs = "[?x]" and ed' = ?ed])
    show "session_line_cursor_right ed = (HYBBX_OK, ?ed)"
      using False f by (simp add: session_line_cursor_right_def adds_def)
    show "ed_inv ?ed" using False f by (intro cursor_moved_inv) auto
    have "take ?c (ed_line ed) @ [ed_buf ed ! ?c] @ drop (?c + 1) (ed_line ed) = ed_line ed"
      using ch by (simp add: id_take_nth_drop [symmetric])
    then show "term_run [?x] (ed_line ed, ?c) = (ed_line ?ed, ed_cursor ?ed)"
      using term_write_printable [OF p, of ?c "ed_line ed"] ch(2) by (simp add: ed_line_def)
  qed (use f in \<open>simp_all add: adds_def\<close>)
qed (simp add: session_line_cursor_right_def)

lemma cursor_home_mirrors: "ed_open ed \<Longrightarrow> mirrors ed (cursor_home_loop n ed)"
  by (induction n arbitrary: ed) (auto intro: mirrors_then cursor_left_mirrors)

lemma cursor_end_mirrors: "ed_open ed \<Longrightarrow> mirrors ed (cursor_end_loop n ed)"
  by (induction n arbitrary: ed) (auto intro: mirrors_then cursor_right_mirrors)

lemma mirrors_refresh:
  assumes "ed_inv ed2" and "ed_script ed2 = []" and "ed_echo ed2" and "ed_out ed2 = ed_out ed @ ys"
    and "term_run ys (ed_line ed, ed_cursor ed) = (row, ed_cursor ed2)" and "ed_cursor ed2 \<le> length row"
    and "take (ed_cursor ed2) row = take (ed_cursor ed2) (ed_line ed2)"
  shows "mirrors ed (session_line_refresh_suffix ed2)"
proof -
  have l: "ed_cursor ed2 \<le> ed_len ed2" "ed_len ed2 \<le> length (ed_buf ed2)" "printable (ed_line ed2)"
    using assms(1) by (auto simp: ed_inv_def line_inv_def)
  obtain xs where xs: "session_line_refresh_suffix ed2 = (HYBBX_OK, adds xs ed2)"
    "term_run xs (row, ed_cursor ed2) = (ed_line ed2, ed_cursor ed2)"
    using refresh_open [OF assms(2,3) l assms(6,7)] by blast
  show ?thesis
    by (rule mirrorsI [where ed' = "adds xs ed2" and xs = "ys @ xs"])
      (use assms xs in \<open>simp_all add: ed_line_def\<close>)
qed

lemma io_fields:
  "ed_script (remove_at_cursor ed) = ed_script ed" "ed_echo (remove_at_cursor ed) = ed_echo ed"
  "ed_out (remove_at_cursor ed) = ed_out ed"
  "ed_script (insert_at_cursor ch ed) = ed_script ed" "ed_echo (insert_at_cursor ch ed) = ed_echo ed"
  "ed_out (insert_at_cursor ch ed) = ed_out ed"
  by (simp_all add: remove_at_cursor_def insert_at_cursor_def Let_def)

lemma ed_line_adds [simp]: "ed_line (adds xs ed) = ed_line ed"
  by (simp add: ed_line_def)

lemma delete_forward_mirrors: "ed_open ed \<Longrightarrow> mirrors ed (session_line_delete_forward ed)"
proof (cases "ed_cursor ed \<ge> ed_len ed")
  case False
  assume o': "ed_open ed"
  note f = open_facts [OF o']
  have c: "ed_cursor ed < ed_len ed" using False by simp
  note r = remove_at_cursor_line [OF f(2) c]
  have "mirrors ed (session_line_refresh_suffix (remove_at_cursor ed))"
    by (rule mirrors_refresh [where ys = "[]" and row = "ed_line ed"])
      (use f c r remove_at_cursor_inv [OF f(1) c] in \<open>simp_all add: io_fields\<close>)
  with False f show ?thesis by (simp add: session_line_delete_forward_def Let_def io_fields)
qed (simp add: session_line_delete_forward_def)

lemma backspace_mirrors: "ed_open ed \<Longrightarrow> mirrors ed (session_line_backspace ed)"
proof (cases "ed_cursor ed = 0")
  case False
  assume o': "ed_open ed"
  note f = open_facts [OF o']
  let ?ed = "ed\<lparr>ed_cursor := ed_cursor ed - 1\<rparr>"
  have i: "ed_inv ?ed" using f by (intro cursor_moved_inv) auto
  have c: "ed_cursor ?ed < ed_len ?ed" using False f by auto
  have l: "line_inv ?ed" using i by (simp add: ed_inv_def)
  note r = remove_at_cursor_line [OF l c]
  have "mirrors ed (session_line_refresh_suffix (adds [Raw [BS]] (remove_at_cursor ?ed)))"
    by (rule mirrors_refresh [where ys = "[Raw [BS]]" and row = "ed_line ed"])
      (use f c r False remove_at_cursor_inv [OF i c] in \<open>simp_all add: io_fields ed_line_def\<close>)
  with False f show ?thesis by (simp add: session_line_backspace_def Let_def io_fields)
qed (simp add: session_line_backspace_def)

lemma insert_char_mirrors: "ed_open ed \<Longrightarrow> mirrors ed (session_line_insert_char ch ed)"
proof (cases "\<not> session_char_echoable ch \<or> ed_len ed \<ge> session_line_max_len ed")
  case False
  assume o': "ed_open ed"
  note f = open_facts [OF o']
  have c: "ed_len ed < session_line_max_len ed" "session_char_echoable ch" using False by auto
  have m: "ed_len ed < LINE_MAX - 1" using c line_max_len [OF f(1)] by simp
  note r = insert_at_cursor_line [OF f(2) m c(2)]
  have p: "printable [ch]" using c(2) by (simp add: printable_def)
  have cl: "ed_cursor ed \<le> length (ed_line ed)" using f by simp
  have "mirrors ed (session_line_refresh_suffix (adds [Raw [ch]] (insert_at_cursor ch ed)))"
    by (rule mirrors_refresh [where ys = "[Raw [ch]]"
          and row = "take (ed_cursor ed) (ed_line ed) @ [ch] @ drop (ed_cursor ed + 1) (ed_line ed)"])
      (use f r insert_at_cursor_inv [OF f(1) c] term_write_printable [OF p _ cl] in \<open>simp_all add: io_fields\<close>)
  with False f show ?thesis by (simp add: insert_char_eq io_fields)
qed (auto simp: insert_char_eq)

lemma line_replace_mirrors:
  assumes "ed_open ed" and "printable line" and "length line < LINE_MAX"
  shows "mirrors ed (session_line_replace line ed)"
proof -
  note f = open_facts [OF assms(1)]
  have t: "take 79 line = line" using assms(3) by (simp add: LINE_MAX_def)
  obtain xs where xs: "session_line_move_back (ed_cursor ed) ed = (HYBBX_OK, adds xs ed)"
    "\<forall>row col. term_run xs (row, col) = (row, col - ed_cursor ed)"
    using move_back_open [OF f(3)] by blast
  define ys where "ys = (if line = [] then [] else [Raw line]) @ [Raw (ESC # ''[K'')]"
  let ?ed = "put_line line (adds (xs @ ys) ed)"
  have "session_line_replace line ed = (HYBBX_OK, ?ed)"
    using f xs(1) by (cases "line = []") (simp_all add: line_replace_eq LINE_MAX_def t ys_def)
  moreover have "ed_inv (adds (xs @ ys) ed)" using f by simp
  then have "ed_inv ?ed" "ed_line ?ed = line" "ed_cursor ?ed = length line"
    using put_line_inv [OF _ assms(2,3)] by auto
  moreover have "term_run ys (ed_line ed, 0) = (line, length line)"
    using term_write_printable [OF assms(2), of 0 "ed_line ed"] by (simp add: ys_def term_run_def)
  moreover have "ed_script ?ed = []" "ed_echo ?ed" "ed_out ?ed = ed_out ed @ xs @ ys"
    using f by (simp_all add: put_line_def Let_def)
  ultimately show ?thesis
    by (intro mirrorsI [where ed' = ?ed and xs = "xs @ ys"]) (simp_all add: xs(2))
qed

text \<open>Steps that change neither the line nor what is written.\<close>

lemma mirrors_quiet:
  assumes "ed_open ed1" and "ed_line ed1 = ed_line ed" and "ed_cursor ed1 = ed_cursor ed" and "ed_out ed1 = ed_out ed"
    and "mirrors ed1 r"
  shows "mirrors ed r"
  using assms unfolding mirrors_def by simp

lemma history_up_mirrors: "ed_open ed \<Longrightarrow> mirrors ed (session_history_up ed)"
proof -
  assume o': "ed_open ed"
  note f = open_facts [OF o']
  have rep: "mirrors ed' (session_line_replace (ed_history ed' ! history_slot ed') ed')" if "ed_open ed'" for ed'
    using that history_line [of ed'] by (intro line_replace_mirrors) (auto simp: ed_open_def ed_inv_def)
  let ?s = "ed\<lparr>ed_saved := str_store LINE_MAX (c_str (ed_buf ed)), ed_hview := 0\<rparr>"
  have "ed_open ?s" using f saved_inv [OF f(1)] by (simp add: ed_open_def)
  from mirrors_quiet [OF this _ _ _ rep [OF this], of ed]
  have s: "mirrors ed (session_line_replace (ed_history ?s ! history_slot ?s) ?s)" by (simp add: ed_line_def)
  let ?v = "ed\<lparr>ed_hview := ed_hview ed + 1\<rparr>"
  have v: "mirrors ed (session_line_replace (ed_history ?v ! history_slot ?v) ?v)"
    if "0 \<le> ed_hview ed" "nat (ed_hview ed + 1) < ed_hcount ed"
  proof -
    have "ed_inv ?v" by (rule history_view_inv [OF f(1)]) (use that in linarith)+
    then have "ed_open ?v" using f by (simp add: ed_open_def)
    from mirrors_quiet [OF this _ _ _ rep [OF this], of ed] show ?thesis by (simp add: ed_line_def)
  qed
  show ?thesis using s v o' unfolding session_history_up_def Let_def by auto
qed

lemma history_down_mirrors: "ed_open ed \<Longrightarrow> mirrors ed (session_history_down ed)"
proof -
  assume o': "ed_open ed"
  note f = open_facts [OF o']
  have rep: "mirrors ed' (session_line_replace (ed_history ed' ! history_slot ed') ed')" if "ed_open ed'" for ed'
    using that history_line [of ed'] by (intro line_replace_mirrors) (auto simp: ed_open_def ed_inv_def)
  let ?s = "ed\<lparr>ed_hview := - 1\<rparr>"
  have os: "ed_open ?s" using f history_view_inv [OF f(1), of "- 1"] by (simp add: ed_open_def)
  have "printable (ed_saved ed)" "length (ed_saved ed) < LINE_MAX" using f(1) by (auto simp: ed_inv_def history_inv_def)
  from mirrors_quiet [OF os _ _ _ line_replace_mirrors [OF os this], of ed]
  have s: "mirrors ed (session_line_replace (ed_saved ed) ?s)" by (simp add: ed_line_def)
  let ?v = "ed\<lparr>ed_hview := ed_hview ed - 1\<rparr>"
  have v: "mirrors ed (session_line_replace (ed_history ?v ! history_slot ?v) ?v)" if "0 < ed_hview ed"
  proof -
    have "ed_inv ?v" using that f(1) by (intro history_view_inv [OF f(1)]) (auto simp: ed_inv_def history_inv_def)
    then have "ed_open ?v" using f by (simp add: ed_open_def)
    from mirrors_quiet [OF this _ _ _ rep [OF this], of ed] show ?thesis by (simp add: ed_line_def)
  qed
  show ?thesis using s v o' unfolding session_history_down_def Let_def by auto
qed

lemma apply_csi_mirrors: "ed_open ed \<Longrightarrow> mirrors ed (session_apply_csi params ch ed)"
  by (simp add: session_apply_csi_def history_up_mirrors history_down_mirrors cursor_left_mirrors cursor_right_mirrors
      session_line_cursor_home_def session_line_cursor_end_def cursor_home_mirrors cursor_end_mirrors delete_forward_mirrors)

lemma filter_escape_mirrors:
  assumes "ed_open ed" and "session_filter_escape_byte b ed = (skip, ed')"
  shows "mirrors ed (HYBBX_OK, ed')"
proof -
  have quiet: "mirrors ed (HYBBX_OK, x)" if "ed_open x" "ed_line x = ed_line ed" "ed_cursor x = ed_cursor ed" "ed_out x = ed_out ed" for x
    by (rule mirrors_quiet [OF that]) (simp add: that(1))
  have reset: "mirrors ed (HYBBX_OK, session_escape_reset (snd r))" if m: "mirrors ed r" for r
  proof -
    have o1: "ed_open (session_escape_reset (snd r))"
      using m escape_reset_inv [of "snd r"] by (auto simp: mirrors_def ed_open_def session_escape_reset_def)
    have "mirrors (snd r) (HYBBX_OK, session_escape_reset (snd r))"
      by (rule mirrors_quiet [OF o1]) (use o1 in \<open>simp_all add: session_escape_reset_def ed_line_def\<close>)
    moreover have "mirrors ed (HYBBX_OK, snd r)" using m by (simp add: mirrors_def)
    ultimately show ?thesis by (rule mirrors_trans [rotated])
  qed
  have res: "ed_open (session_escape_reset ed)" "ed_line (session_escape_reset ed) = ed_line ed"
    "ed_cursor (session_escape_reset ed) = ed_cursor ed" "ed_out (session_escape_reset ed) = ed_out ed"
    using assms(1) escape_reset_inv [of ed] by (simp_all add: ed_open_def session_escape_reset_def ed_line_def)
  have csi: "mirrors ed (HYBBX_OK, snd (session_apply_csi params ch (session_escape_reset ed)))" for params ch
    using mirrors_quiet [OF res apply_csi_mirrors [OF res(1)]] by (simp add: mirrors_def)
  have esc: "ed_open (ed\<lparr>ed_esc := e, ed_csi := []\<rparr>)" "ed_open (ed\<lparr>ed_esc := e\<rparr>)" for e
    using assms(1) esc_inv(1,2) [of ed] by (auto simp: ed_open_def)
  have add: "ed_open (ed\<lparr>ed_csi := ed_csi ed @ [c]\<rparr>)" if "length (ed_csi ed) + 1 < CSI_BUF_MAX" for c
    using assms(1) that esc_inv(3) [of ed] by (auto simp: ed_open_def)
  show ?thesis
  proof (cases "ed_esc ed")
    case ESC_NONE
    with assms show ?thesis
      by (auto simp: session_filter_escape_byte_def ed_line_def split: if_splits intro!: quiet esc)
  next
    case ESC_ESC
    with assms show ?thesis
      by (auto simp: session_filter_escape_byte_def ed_line_def split: if_splits
          intro!: quiet esc res(1)) (simp_all add: session_escape_reset_def)
  next
    case ESC_SS3
    have m: "ed_open ed \<Longrightarrow> mirrors ed (session_line_cursor_home ed)" "ed_open ed \<Longrightarrow> mirrors ed (session_line_cursor_end ed)"
      by (simp_all add: session_line_cursor_home_def session_line_cursor_end_def cursor_home_mirrors cursor_end_mirrors)
    from ESC_SS3 assms have "ed' = session_escape_reset (snd
            (if char_of_u8 b = CHR ''C'' then session_line_cursor_right ed
             else if char_of_u8 b = CHR ''D'' then session_line_cursor_left ed
             else if char_of_u8 b = CHR ''H'' then session_line_cursor_home ed
             else if char_of_u8 b = CHR ''F'' then session_line_cursor_end ed
             else (HYBBX_OK, ed)))"
      by (simp add: session_filter_escape_byte_def)
    then show ?thesis
      using assms(1) m by (simp only:, intro reset) (simp add: cursor_left_mirrors cursor_right_mirrors)
  next
    case ESC_CSI
    with assms have "ed' = (if length (ed_csi ed) + 1 \<ge> CSI_BUF_MAX then session_escape_reset ed
        else if session_csi_is_final b then snd (session_apply_csi (c_str (ed_csi ed)) (char_of_u8 b) (session_escape_reset ed))
        else ed\<lparr>ed_csi := ed_csi ed @ [char_of_u8 b]\<rparr>)"
      by (auto simp: session_filter_escape_byte_def split: if_splits)
    then show ?thesis
      using csi quiet [OF res] quiet [OF add] by (simp add: ed_line_def not_le)
  qed
qed

lemma user_byte_mirrors:
  assumes "ed_open ed" and "b \<noteq> 0x0D" and "b \<noteq> 0x0A"
  shows "mirrors ed (session_handle_user_byte process prompt b ed)"
proof -
  have "unat b < 2 ^ LENGTH(8)" by (rule unsigned_less)
  then have b: "char_of_u8 b \<noteq> CHR 0x0D" "char_of_u8 b \<noteq> CHR 0x0A"
    using assms(2,3)
    by (auto simp: char_of_u8_def char_of_eq_iff word_unat_eq_iff take_bit_eq_mod)
  let ?ed = "ed\<lparr>ed_expect_lf := False\<rparr>"
  have o': "ed_open ?ed" using assms(1) by (simp add: ed_open_def ed_inv_plain)
  have "mirrors ed (session_line_insert_char (char_of_u8 b) ?ed)"
    by (rule mirrors_quiet [OF o' _ _ _ insert_char_mirrors [OF o']]) (simp_all add: ed_line_def)
  with assms(1) b show ?thesis
    by (simp add: session_handle_user_byte_def Let_def backspace_mirrors)
qed

lemma input_loop_mirrors:
  "ed_open ed \<Longrightarrow> \<forall>b \<in> set data. b \<noteq> 0x0D \<and> b \<noteq> 0x0A \<Longrightarrow> mirrors ed (session_input_loop process prompt data ed)"
proof (induction data arbitrary: ed)
  case (Cons b bs)
  obtain skip ed1 where f: "session_filter_escape_byte b ed = (skip, ed1)" by fastforce
  have m: "mirrors ed (HYBBX_OK, ed1)" by (rule filter_escape_mirrors [OF Cons.prems(1) f])
  then have o1: "ed_open ed1" by (simp add: mirrors_def)
  have "mirrors ed1 (and_then (session_handle_user_byte process prompt b ed1) (session_input_loop process prompt bs))"
    using Cons.prems(2) by (intro mirrors_then user_byte_mirrors [OF o1] Cons.IH) auto
  with Cons.IH [OF o1] Cons.prems(2) f show ?case
    by (cases skip) (auto intro: mirrors_trans [OF m])
qed simp

text \<open>
  C17. What the user sees is what the editor holds: with the echo on and no write failing, after any
  input without a line end (typing, backspaces, cursor keys, history keys, sequences cut anywhere),
  the terminal's row, run over the bytes sent, is the line in the buffer and its cursor is at the
  editor's cursor; and the input is taken without an error.
\<close>

theorem echo_mirrors_line:
  assumes "ed_inv ed" and "ed_script ed = []" and "ed_echo ed"
    and "\<forall>b \<in> set data. b \<noteq> 0x0D \<and> b \<noteq> 0x0A"
    and "session_input_loop process prompt data ed = (rc, ed')"
  shows "rc = HYBBX_OK \<and> ed_inv ed'
     \<and> (\<exists>xs. ed_out ed' = ed_out ed @ xs
          \<and> term_run xs (ed_line ed, ed_cursor ed) = (ed_line ed', ed_cursor ed'))"
proof -
  have "ed_open ed" using assms by (simp add: ed_open_def)
  from input_loop_mirrors [OF this assms(4), of process prompt] assms(5)
  show ?thesis by (simp add: mirrors_def ed_open_def)
qed

text \<open>Typing \<open>ac\<close>, going left, typing \<open>b\<close>: the row reads \<open>abc\<close>.\<close>

theorem echo_mirrors_line_witness:
  "\<exists>rc ed'. session_input_loop (\<lambda>line ed. ed) [] [0x61, 0x63, 0x1B, 0x5B, 0x44, 0x62]
        (editor_open True True False 72) = (rc, ed')
     \<and> rc = HYBBX_OK \<and> ed_line ed' = ''abc'' \<and> term_run (ed_out ed') ([], 0) = (''abc'', 2)"
proof -
  let ?f = "session_input_loop (\<lambda>line ed. ed) [] [0x61, 0x63, 0x1B, 0x5B, 0x44, 0x62]"
  have i: "ed_inv (editor_open True True False 72)" by (rule editor_open_inv) (simp add: LINE_MAX_def)
  obtain rc ed' where r: "?f (editor_open True True False 72) = (rc, ed')" by fastforce
  from echo_mirrors_line [OF i _ _ _ r]
  have "rc = HYBBX_OK" "term_run (ed_out ed') ([], 0) = (ed_line ed', ed_cursor ed')"
    by (simp_all add: editor_open_def ed_line_def)
  moreover have "ed_line (snd (?f (editor_open True True False 72))) = ''abc''
      \<and> ed_cursor (snd (?f (editor_open True True False 72))) = 2" by code_simp
  then have "ed_line ed' = ''abc''" "ed_cursor ed' = 2" by (simp_all only: r snd_conv)
  ultimately show ?thesis using r by (intro exI [of _ rc] exI [of _ ed']) (simp only:)
qed

section \<open>The history\<close>

text \<open>The stored lines, the most recent first: what the ring of slots stands for.\<close>

definition history_lines :: "editor \<Rightarrow> string list" where
  "history_lines ed = map (\<lambda>i. ed_history ed ! ((ed_hnext ed + HISTORY_MAX - 1 - i) mod HISTORY_MAX)) [0..<ed_hcount ed]"

definition key_presses :: "nat \<Rightarrow> (editor \<Rightarrow> hybbx_result \<times> editor) \<Rightarrow> editor \<Rightarrow> editor" where
  "key_presses n key ed = ((\<lambda>ed. snd (key ed)) ^^ n) ed"

lemma line_replace_open:
  assumes "ed_script ed = []"
  shows "\<exists>xs. session_line_replace line ed = (HYBBX_OK, put_line line (adds xs ed))"
proof (cases "ed_echo ed")
  case True
  obtain xs where xs: "session_line_move_back (ed_cursor ed) ed = (HYBBX_OK, adds xs ed)"
    using move_back_open [OF assms] by blast
  show ?thesis
    using xs assms True
    by (intro exI [of _ "xs @ (if take (LINE_MAX - 1) line = [] then [] else [Raw (take (LINE_MAX - 1) line)])
          @ [Raw (ESC # ''[K'')]"])
      (simp add: line_replace_eq del: take_eq_Nil)
next
  case False
  then show ?thesis by (intro exI [of _ "[]"]) (simp add: line_replace_eq)
qed

lemma ring_slot: "(n + HISTORY_MAX - 1 - i) mod HISTORY_MAX = (if i < n then n - 1 - i else n + HISTORY_MAX - 1 - i)"
  if "n < HISTORY_MAX" "i < HISTORY_MAX"
proof (cases "i < n")
  case True
  then have "n + HISTORY_MAX - 1 - i = (n - 1 - i) + HISTORY_MAX" by simp
  then show ?thesis using True that by (simp only: mod_add_self2) auto
qed (use that in auto)

lemma history_add_lines:
  assumes "history_inv ed"
  shows "history_lines (session_history_add line ed) =
     (if session_history_should_store line then take HISTORY_MAX (take (LINE_MAX - 1) line # history_lines ed)
      else history_lines ed)"
proof (cases "session_history_should_store line")
  case True
  let ?h = "ed_history ed" and ?n = "ed_hnext ed" and ?k = "ed_hcount ed"
  let ?e = "session_history_add line ed"
  have inv: "length ?h = HISTORY_MAX" "?n < HISTORY_MAX" "?k \<le> HISTORY_MAX" using assms by (auto simp: history_inv_def)
  have e: "ed_history ?e = ?h[?n := take (LINE_MAX - 1) line]" "ed_hnext ?e = (?n + 1) mod HISTORY_MAX"
    "ed_hcount ?e = min HISTORY_MAX (?k + 1)"
    using True inv by (auto simp: session_history_add_def str_store_def)
  have n': "(?n + 1) mod HISTORY_MAX = (if ?n + 1 = HISTORY_MAX then 0 else ?n + 1)" using inv(2) by auto
  have slot0: "((?n + 1) mod HISTORY_MAX + HISTORY_MAX - 1) mod HISTORY_MAX = ?n"
    using inv(2) by (cases "?n + 1 = HISTORY_MAX") (simp_all add: HISTORY_MAX_def)
  have slots: "((?n + 1) mod HISTORY_MAX + HISTORY_MAX - 1 - Suc i) mod HISTORY_MAX = (?n + HISTORY_MAX - 1 - i) mod HISTORY_MAX
      \<and> (?n + HISTORY_MAX - 1 - i) mod HISTORY_MAX \<noteq> ?n" if "Suc i < HISTORY_MAX" for i
  proof -
    let ?x = "if i < ?n then ?n - 1 - i else ?n + HISTORY_MAX - 1 - i"
    have x: "(?n + HISTORY_MAX - 1 - i) mod HISTORY_MAX = ?x" using that inv(2) by (intro ring_slot) auto
    have m: "(?n + 1) mod HISTORY_MAX < HISTORY_MAX" using inv(2) by simp
    have "((?n + 1) mod HISTORY_MAX + HISTORY_MAX - 1 - Suc i) mod HISTORY_MAX = ?x"
    proof (cases "?n + 1 = HISTORY_MAX")
      case True
      then have "i < ?n" "HISTORY_MAX - 1 - Suc i = ?n - 1 - i" using that by linarith+
      then show ?thesis using ring_slot [OF m that] True by simp
    next
      case False
      then have "(?n + 1) mod HISTORY_MAX = ?n + 1" using n' by simp
      then show ?thesis using ring_slot [OF m that] by (simp only:) auto
    qed
    moreover have "?x \<noteq> ?n" using that by (cases "i < ?n"; simp only: if_True if_False; linarith)
    ultimately show ?thesis using x by simp
  qed
  have "history_lines ?e = take HISTORY_MAX (take (LINE_MAX - 1) line # history_lines ed)"
  proof (rule nth_equalityI)
    show "length (history_lines ?e) = length (take HISTORY_MAX (take (LINE_MAX - 1) line # history_lines ed))"
      by (simp add: history_lines_def e(3))
    fix i assume "i < length (history_lines ?e)"
    then have i: "i < HISTORY_MAX" "i < ?k + 1" by (simp_all add: history_lines_def e(3))
    show "history_lines ?e ! i = take HISTORY_MAX (take (LINE_MAX - 1) line # history_lines ed) ! i"
    proof (cases i)
      case 0
      then show ?thesis using i slot0 inv by (simp add: history_lines_def e)
    next
      case (Suc j)
      then show ?thesis using i slots [of j] inv by (simp add: history_lines_def e)
    qed
  qed
  with True show ?thesis by simp
qed (simp add: session_history_add_def)

lemma put_line_fields:
  "ed_history (put_line l ed) = ed_history ed" "ed_hcount (put_line l ed) = ed_hcount ed"
  "ed_hnext (put_line l ed) = ed_hnext ed" "ed_hview (put_line l ed) = ed_hview ed" "ed_saved (put_line l ed) = ed_saved ed"
  "ed_script (put_line l ed) = ed_script ed" "history_lines (put_line l ed) = history_lines ed"
  by (simp_all add: put_line_def Let_def history_lines_def)

lemma adds_fields:
  "ed_history (adds xs ed) = ed_history ed" "ed_hcount (adds xs ed) = ed_hcount ed"
  "ed_hnext (adds xs ed) = ed_hnext ed" "ed_hview (adds xs ed) = ed_hview ed" "ed_saved (adds xs ed) = ed_saved ed"
  "history_lines (adds xs ed) = history_lines ed"
  by (simp_all add: adds_def history_lines_def)

text \<open>One more press of Up, from the view at entry \<open>v\<close> (counted from \<open>-1\<close>, the line being typed).\<close>

lemma history_up_step:
  assumes "ed_inv ed" and "ed_script ed = []" and "nat (ed_hview ed + 1) < ed_hcount ed"
  defines "ed' \<equiv> snd (session_history_up ed)"
  shows "ed_inv ed' \<and> ed_script ed' = [] \<and> ed_hview ed' = ed_hview ed + 1 \<and> history_lines ed' = history_lines ed
     \<and> ed_hcount ed' = ed_hcount ed \<and> ed_line ed' = history_lines ed ! nat (ed_hview ed + 1)
     \<and> ed_saved ed' = (if ed_hview ed < 0 then str_store LINE_MAX (c_str (ed_buf ed)) else ed_saved ed)"
proof -
  define ed1 where "ed1 = (if ed_hview ed < 0
      then ed\<lparr>ed_saved := str_store LINE_MAX (c_str (ed_buf ed)), ed_hview := 0\<rparr> else ed\<lparr>ed_hview := ed_hview ed + 1\<rparr>)"
  have v: "- 1 \<le> ed_hview ed" using assms(1) by (simp add: ed_inv_def history_inv_def)
  have up: "session_history_up ed = session_line_replace (ed_history ed1 ! history_slot ed1) ed1"
    using assms(3) unfolding session_history_up_def ed1_def Let_def by auto
  have "ed_script ed1 = []" using assms(2) by (simp add: ed1_def)
  then obtain xs where r: "session_history_up ed = (HYBBX_OK, put_line (ed_history ed1 ! history_slot ed1) (adds xs ed1))"
    using line_replace_open up by metis
  have f: "ed_hview ed1 = ed_hview ed + 1" "ed_history ed1 = ed_history ed" "ed_hnext ed1 = ed_hnext ed"
    "ed_hcount ed1 = ed_hcount ed" "ed_script ed1 = []" "history_lines ed1 = history_lines ed"
    using v assms(2) by (auto simp: ed1_def history_lines_def)
  have "history_lines ed ! nat (ed_hview ed + 1) = ed_history ed1 ! history_slot ed1"
    using assms(3) f by (simp add: history_lines_def history_slot_def)
  moreover have "ed_inv ed1"
    using saved_inv [OF assms(1)] history_view_inv [OF assms(1), of "ed_hview ed + 1"] assms(3) v by (auto simp: ed1_def)
  then have i: "ed_inv (adds xs ed1)" "history_inv ed1" using adds_inv(1) by (simp, simp add: ed_inv_def)
  note put_line_inv [OF i(1) conjunct1 [OF history_line [OF i(2)]] conjunct2 [OF history_line [OF i(2)]]]
  moreover have "ed_saved ed1 = (if ed_hview ed < 0 then str_store LINE_MAX (c_str (ed_buf ed)) else ed_saved ed)"
    by (simp add: ed1_def)
  ultimately show ?thesis
    using f unfolding ed'_def r snd_conv by (simp add: put_line_fields adds_fields)
qed

text \<open>
  C18. The history keys walk the ring as a list of the most recent lines: a submitted line that is no
  secret command is put before the at most 24 latest ones (cut to 79 characters), a secret one
  is not, and the \<open>n\<close>-th press of Up from the line being typed shows the \<open>n\<close>-th latest line.
\<close>

theorem history_keys_walk_back:
  assumes "ed_inv ed" and "ed_script ed = []" and "ed_hview ed = - 1" and "n < ed_hcount ed"
  shows "ed_line (key_presses (Suc n) session_history_up ed) = history_lines ed ! n
     \<and> length (history_lines ed) = ed_hcount ed
     \<and> history_lines (session_history_add line ed) =
         (if session_history_should_store line then take HISTORY_MAX (take (LINE_MAX - 1) line # history_lines ed)
          else history_lines ed)"
proof -
  have "m \<le> n \<Longrightarrow> (let ed' = key_presses (Suc m) session_history_up ed in
      ed_inv ed' \<and> ed_script ed' = [] \<and> ed_hview ed' = int m \<and> history_lines ed' = history_lines ed
      \<and> ed_hcount ed' = ed_hcount ed \<and> ed_line ed' = history_lines ed ! m)" for m
  proof (induction m)
    case 0
    then show ?case using history_up_step [of ed] assms by (simp add: key_presses_def)
  next
    case (Suc m)
    let ?e = "key_presses (Suc m) session_history_up ed"
    have "key_presses (Suc (Suc m)) session_history_up ed = snd (session_history_up ?e)" by (simp add: key_presses_def)
    with Suc history_up_step [of ?e] assms(4) show ?case by (simp add: Let_def nat_add_distrib)
  qed
  from this [of n] show ?thesis
    using history_add_lines [of ed line] assms(1) by (auto simp: Let_def history_lines_def ed_inv_def)
qed

text \<open>Two lines stored; Up twice shows the first.\<close>

theorem history_keys_walk_back_witness:
  "ed_line (key_presses 2 session_history_up
     (session_history_add ''bye'' (session_history_add ''hello'' (editor_open True True False 72)))) = ''hello''"
proof -
  let ?ed = "session_history_add ''bye'' (session_history_add ''hello'' (editor_open True True False 72))"
  have "ed_inv ?ed"
    by (intro history_add_inv editor_open_inv) (simp_all add: LINE_MAX_def printable_def session_char_echoable_def)
  moreover have "ed_script ?ed = [] \<and> ed_hview ?ed = - 1 \<and> 1 < ed_hcount ?ed \<and> history_lines ?ed ! 1 = ''hello''"
    by code_simp
  ultimately have "ed_line (key_presses (Suc 1) session_history_up ?ed) = ''hello''"
    using history_keys_walk_back [of ?ed 1] by simp
  then show ?thesis by (simp add: numeral_2_eq_2)
qed

lemma submitted_text: "line_inv ed \<Longrightarrow> c_str ((ed_buf ed)[ed_len ed := NUL]) = ed_line ed"
proof -
  assume l: "line_inv ed"
  have "(ed_buf ed)[ed_len ed := NUL] = ed_line ed @ NUL # drop (Suc (ed_len ed)) (ed_buf ed)"
    using l by (simp add: line_inv_def ed_line_def upd_conv_take_nth_drop)
  moreover have "\<forall>c \<in> set (ed_line ed). c \<noteq> NUL" using l not_echoable(3) by (auto simp: line_inv_def printable_def)
  ultimately show ?thesis by (simp add: c_str_def takeWhile_append2)
qed

text \<open>
  A secret line comes back: \<^verbatim>\<open>session_submit_line\<close> leaves the submitted text in the
  line buffer, so the first Up afterwards saves it as the line being typed and Down shows it, also when
  it is a login line with a password that the history was not to keep.
\<close>

theorem secret_line_comes_back:
  assumes "ed_inv ed" and "ed_script ed = []" and "0 < ed_hcount ed"
    and "ed1 = session_submit_line (\<lambda>line. adds (reply line)) [] ed"
  shows "ed_line ed1 = [] \<and> ed_line (snd (session_history_down (snd (session_history_up ed1)))) = ed_line ed"
proof -
  let ?t = "ed\<lparr>ed_buf := (ed_buf ed)[ed_len ed := NUL]\<rparr>"
  have l: "line_inv ed" "length (ed_line ed) < LINE_MAX" "printable (ed_line ed)"
    using assms(1) by (auto simp: ed_inv_def line_inv_def ed_line_def)
  have c: "c_str (ed_buf ?t) = ed_line ed" using submitted_text [OF l(1)] by simp
  have e1: "ed1 = (adds (reply (ed_line ed)) (session_history_add (ed_line ed) ?t))
      \<lparr>ed_len := 0, ed_cursor := 0, ed_hview := - 1\<rparr>"
    unfolding assms(4) session_submit_line_def Let_def c by (simp add: session_show_prompt_def)
  have i1: "ed_inv ed1" unfolding assms(4) by (rule submit_inv [OF assms(1)]) simp
  have f: "ed_script ed1 = []" "ed_hview ed1 = - 1" "0 < ed_hcount ed1" "c_str (ed_buf ed1) = ed_line ed" "ed_len ed1 = 0"
    using assms(2,3) c by (simp_all add: e1 adds_def session_history_add_def)
  let ?u = "snd (session_history_up ed1)"
  have u: "ed_inv ?u" "ed_script ?u = []" "ed_hview ?u = 0" "ed_saved ?u = ed_line ed"
    using history_up_step [OF i1 f(1)] f l(2) by (simp_all add: str_store_def)
  have "ed_script (?u\<lparr>ed_hview := - 1\<rparr>) = []" using u(2) by simp
  from line_replace_open [OF this, of "ed_line ed"] obtain xs
    where "session_line_replace (ed_line ed) (?u\<lparr>ed_hview := - 1\<rparr>)
        = (HYBBX_OK, put_line (ed_line ed) (adds xs (?u\<lparr>ed_hview := - 1\<rparr>)))" by blast
  then have "snd (session_history_down ?u) = put_line (ed_line ed) (adds xs (?u\<lparr>ed_hview := - 1\<rparr>))"
    using u by (simp add: session_history_down_def)
  moreover have "ed_inv (adds xs (?u\<lparr>ed_hview := - 1\<rparr>))" using history_view_inv [OF u(1), of "- 1"] by simp
  ultimately show ?thesis using put_line_inv(2) [OF _ l(3,2)] f(5) by (simp add: ed_line_def)
qed

theorem secret_line_comes_back_witness:
  "\<exists>ed. ed_line ed = ''/login bob pw'' \<and> \<not> session_history_should_store (ed_line ed)
     \<and> ed_line (snd (session_history_down (snd (session_history_up
          (session_submit_line (\<lambda>line. adds []) [] ed))))) = ''/login bob pw''"
proof -
  let ?ed = "put_line ''/login bob pw'' (session_history_add ''hello'' (editor_open True True False 72))"
  have "ed_inv ?ed"
    by (intro put_line_inv history_add_inv editor_open_inv)
      (simp_all add: LINE_MAX_def printable_def session_char_echoable_def)
  moreover have "ed_line ?ed = ''/login bob pw'' \<and> ed_script ?ed = [] \<and> 0 < ed_hcount ?ed
      \<and> \<not> session_history_should_store (ed_line ?ed)" by code_simp
  ultimately show ?thesis
    using secret_line_comes_back [OF _ _ _ refl, of ?ed "\<lambda>line. []"] by (intro exI [of _ ?ed])
      (simp add: session_history_should_store_def history_secret_prefixes_def)
qed

text \<open>A new session's view is \<open>0\<close> (the memory is zeroed), not \<open>-1\<close>: Down then erases what is being typed.\<close>

theorem first_down_erases:
  assumes "ed_inv ed" and "ed_script ed = []" and "ed_hview ed = ed_hview (editor_open e li lp m)"
    and "ed_saved ed = ed_saved (editor_open e li lp m)"
  shows "ed_line (snd (session_history_down ed)) = []"
proof -
  have v: "ed_hview ed = 0" "ed_saved ed = []" using assms(3,4) by (simp_all add: editor_open_def)
  have "ed_script (ed\<lparr>ed_hview := - 1\<rparr>) = []" using assms(2) by simp
  from line_replace_open [OF this, of "[]"] obtain xs
    where "session_line_replace [] (ed\<lparr>ed_hview := - 1\<rparr>) = (HYBBX_OK, put_line [] (adds xs (ed\<lparr>ed_hview := - 1\<rparr>)))" by blast
  then show ?thesis using v by (simp add: session_history_down_def put_line_def ed_line_def Let_def)
qed

text \<open>
  A character whose echo cannot be written is taken back from the end of the line: that is the same
  character when the cursor is there, but within a line the new one stays and the line's last
  character is lost.
\<close>

theorem insert_failed_write:
  assumes "ed_inv ed" and "ed_echo ed" and "ed_script ed = rc # script" and "rc \<noteq> HYBBX_OK"
    and "session_char_echoable ch" and "ed_len ed < session_line_max_len ed"
    and "session_line_insert_char ch ed = (rc', ed')"
  shows "rc' = rc \<and> ed_inv ed' \<and> ed_cursor ed' = ed_cursor ed \<and> ed_out ed' = ed_out ed
     \<and> ed_line ed' = butlast (take (ed_cursor ed) (ed_line ed) @ ch # drop (ed_cursor ed) (ed_line ed))"
proof -
  have l: "line_inv ed" "ed_len ed < LINE_MAX - 1"
    using assms(1,6) line_max_len [OF assms(1)] by (auto simp: ed_inv_def)
  let ?i = "insert_at_cursor ch ed"
  note r = insert_at_cursor_line [OF l assms(5)]
  have "session_write_transport [ch] ?i = (rc, ?i\<lparr>ed_script := script\<rparr>)"
    using assms(3,4) by (simp add: session_write_transport_def ed_write_def io_fields)
  then have e: "rc' = rc" "ed' = (?i\<lparr>ed_script := script\<rparr>)\<lparr>ed_cursor := ed_cursor ed, ed_len := ed_len ed,
      ed_buf := (ed_buf ?i)[ed_len ed := NUL]\<rparr>"
    using assms(2,4,5,6,7) r(3,4) by (auto simp: insert_char_eq)
  have "ed_line ed' = butlast (ed_line ?i)"
    using r(1,4) l by (simp add: e ed_line_def butlast_take line_inv_def)
  with e r show ?thesis
    using insert_char_inv [OF assms(1), of ch] assms(7) by (simp add: io_fields)
qed

theorem insert_failed_write_witness:
  "\<exists>ed ed'. ed_line ed = ''ac'' \<and> ed_cursor ed = 1
     \<and> session_line_insert_char CHR ''b'' ed = (HYBBX_ERR_IO, ed') \<and> ed_line ed' = ''ab''"
proof -
  let ?ed = "(put_line ''ac'' (editor_open True True False 72))\<lparr>ed_cursor := 1, ed_script := [HYBBX_ERR_IO]\<rparr>"
  obtain rc' ed' where r: "session_line_insert_char CHR ''b'' ?ed = (rc', ed')" by fastforce
  have "ed_inv ((put_line ''ac'' (editor_open True True False 72))\<lparr>ed_cursor := 1\<rparr>)"
    by (intro cursor_moved_inv put_line_inv editor_open_inv)
      (simp_all add: LINE_MAX_def printable_def session_char_echoable_def put_line_def Let_def)
  then have i: "ed_inv ?ed" by (simp add: ed_inv_def line_inv_def history_inv_def ed_line_def)
  have f: "ed_echo ?ed \<and> ed_script ?ed = [HYBBX_ERR_IO] \<and> session_char_echoable CHR ''b'' \<and> ed_line ?ed = ''ac''
      \<and> ed_cursor ?ed = 1 \<and> ed_len ?ed < session_line_max_len ?ed" by code_simp
  with insert_failed_write [OF i _ _ _ _ _ r] have "rc' = HYBBX_ERR_IO" "ed_line ed' = ''ab''" by auto
  with f r show ?thesis by (intro exI [of _ ?ed] exI [of _ ed']) (simp only: simp_thms)
qed

text \<open>
  The single byte \<^verbatim>\<open>0x9B\<close> begins a control sequence even inside a UTF-8 character (here s with acute,
  \<^verbatim>\<open>C5 9B\<close>): the byte is dropped and the letter typed next is taken as the sequence's end.
\<close>

theorem utf8_byte_starts_sequence:
  "ed_line (snd (session_input_loop (\<lambda>line ed. ed) [] [0xC5, 0x9B, 0x41, 0x62] (editor_open True True False 72)))
     = [CHR 0xC5, CHR ''b'']"
  by code_simp

end
