(* ===== verification/Auth.thy ===== *)
theory Auth imports Util begin

text \<open>
  User levels, names and the validity of what a user may register with: \<^verbatim>\<open>src/core/auth.c\<close> and
  \<^verbatim>\<open>include/hybbx/auth.h\<close>, with the user structures of \<^verbatim>\<open>include/hybbx/storage.h\<close>.
\<close>

definition AUTH_DEFAULT_GUEST_PREFIX :: string where "AUTH_DEFAULT_GUEST_PREFIX = ''Guest''"
definition AUTH_GUEST_PREFIX_MAX :: nat where "AUTH_GUEST_PREFIX_MAX = 32"
definition GUEST_NUMBER_MAX :: nat where "GUEST_NUMBER_MAX = 25"
definition USERNAME_MIN_LEN :: nat where "USERNAME_MIN_LEN = 4"
definition USERNAME_MAX_LEN :: nat where "USERNAME_MAX_LEN = 12"
definition USERNAME_MAX_DIGITS :: nat where "USERNAME_MAX_DIGITS = 4"
definition DEFAULT_SYSOP_USERNAME :: string where "DEFAULT_SYSOP_USERNAME = ''Sysop''"
definition PASSWORD_MIN_LEN :: nat where "PASSWORD_MIN_LEN = 8"
definition PASSWORD_MAX_LEN :: nat where "PASSWORD_MAX_LEN = 24"
definition USER_NAME_MAX :: nat where "USER_NAME_MAX = 64"
definition USER_NICKNAME_MAX :: nat where "USER_NICKNAME_MAX = 64"
definition USER_FULL_NAME_MAX :: nat where "USER_FULL_NAME_MAX = 128"
definition USER_COUNTRY_MAX :: nat where "USER_COUNTRY_MAX = 64"
definition USER_LOCATION_MAX :: nat where "USER_LOCATION_MAX = 128"
definition USER_EMAIL_MAX :: nat where "USER_EMAIL_MAX = 128"
definition USER_PASSWORD_MAX :: nat where "USER_PASSWORD_MAX = 96"

lemmas auth_consts = AUTH_GUEST_PREFIX_MAX_def GUEST_NUMBER_MAX_def USERNAME_MIN_LEN_def USERNAME_MAX_LEN_def
  USERNAME_MAX_DIGITS_def PASSWORD_MIN_LEN_def PASSWORD_MAX_LEN_def USER_NAME_MAX_def USER_NICKNAME_MAX_def
  USER_FULL_NAME_MAX_def USER_COUNTRY_MAX_def USER_LOCATION_MAX_def USER_EMAIL_MAX_def USER_PASSWORD_MAX_def

section \<open>Levels\<close>

text \<open>The C enumeration counts from 1; a zeroed structure has the level 0.\<close>

datatype user_level = LEVEL_NONE | LEVEL_SYSOP | LEVEL_ADMIN | LEVEL_MOD | LEVEL_USER | LEVEL_GUEST

fun level_number :: "user_level \<Rightarrow> nat" where
  "level_number LEVEL_NONE = 0"
| "level_number LEVEL_SYSOP = 1"
| "level_number LEVEL_ADMIN = 2"
| "level_number LEVEL_MOD = 3"
| "level_number LEVEL_USER = 4"
| "level_number LEVEL_GUEST = 5"

lemma level_number_inject [simp]: "level_number a = level_number b \<longleftrightarrow> a = b"
  by (cases a; cases b) auto

text \<open>Levels compare as their numbers: the higher the number, the lower the privilege.\<close>

instantiation user_level :: linorder
begin

definition less_eq_user_level :: "user_level \<Rightarrow> user_level \<Rightarrow> bool" where
  "less_eq_user_level a b \<longleftrightarrow> level_number a \<le> level_number b"

definition less_user_level :: "user_level \<Rightarrow> user_level \<Rightarrow> bool" where
  "less_user_level a b \<longleftrightarrow> level_number a < level_number b"

instance
  by standard (auto simp: less_eq_user_level_def less_user_level_def)

end

lemmas level_order = less_eq_user_level_def less_user_level_def

fun hybbx_user_level_name :: "user_level \<Rightarrow> string" where
  "hybbx_user_level_name LEVEL_SYSOP = ''sysop''"
| "hybbx_user_level_name LEVEL_ADMIN = ''admin''"
| "hybbx_user_level_name LEVEL_MOD = ''mod''"
| "hybbx_user_level_name LEVEL_USER = ''user''"
| "hybbx_user_level_name LEVEL_GUEST = ''guest''"
| "hybbx_user_level_name LEVEL_NONE = ''user''"

definition hybbx_user_level_parse :: "string \<Rightarrow> user_level" where
  "hybbx_user_level_parse name =
     (if name = [] then LEVEL_USER
      else if str_ieq name ''sysop'' then LEVEL_SYSOP
      else if str_ieq name ''admin'' then LEVEL_ADMIN
      else if str_ieq name ''mod'' \<or> str_ieq name ''moderator'' then LEVEL_MOD
      else if str_ieq name ''guest'' then LEVEL_GUEST
      else LEVEL_USER)"

definition hybbx_user_level_is_guest :: "user_level \<Rightarrow> bool" where
  "hybbx_user_level_is_guest level \<longleftrightarrow> level = LEVEL_GUEST"

definition hybbx_user_level_is_sysop_or_admin :: "user_level \<Rightarrow> bool" where
  "hybbx_user_level_is_sysop_or_admin level \<longleftrightarrow> level = LEVEL_SYSOP \<or> level = LEVEL_ADMIN"

definition hybbx_user_level_is_sysop :: "user_level \<Rightarrow> bool" where
  "hybbx_user_level_is_sysop level \<longleftrightarrow> level = LEVEL_SYSOP"

lemma level_parse_name [simp]: "level \<noteq> LEVEL_NONE \<Longrightarrow> hybbx_user_level_parse (hybbx_user_level_name level) = level"
  by (cases level) (simp_all add: hybbx_user_level_parse_def c_tolower_def c_isupper_def)

lemma level_parse_not_none [simp]: "hybbx_user_level_parse name \<noteq> LEVEL_NONE"
  by (simp add: hybbx_user_level_parse_def)

section \<open>The structures\<close>

record user_registration =
  rg_username :: string
  rg_nickname :: string
  rg_full_name :: string
  rg_country :: string
  rg_location :: string
  rg_email :: string
  rg_password :: string

record user_record =
  ur_id :: nat
  ur_username :: string
  ur_nickname :: string
  ur_level :: user_level
  ur_active :: bool
  ur_created_at :: int
  ur_full_name :: string
  ur_country :: string
  ur_location :: string
  ur_email :: string
  ur_password :: string
  ur_last_login_at :: int

definition user_zero :: user_record where
  "user_zero = \<lparr>ur_id = 0, ur_username = [], ur_nickname = [], ur_level = LEVEL_NONE, ur_active = False,
     ur_created_at = 0, ur_full_name = [], ur_country = [], ur_location = [], ur_email = [],
     ur_password = [], ur_last_login_at = 0\<rparr>"

section \<open>Names\<close>

definition hybbx_username_normalize :: "string \<Rightarrow> string" where
  "hybbx_username_normalize username = map c_tolower username"

definition name_has_prefix :: "string \<Rightarrow> string \<Rightarrow> bool" where
  "name_has_prefix username prefix \<longleftrightarrow>
     prefix \<noteq> [] \<and> length prefix \<le> length username
     \<and> list_all (\<lambda>i. c_tolower (username ! i) = c_tolower (prefix ! i)) [0..<length prefix]"

definition username_char_ok :: "char \<Rightarrow> bool" where
  "username_char_ok ch \<longleftrightarrow> c_islower ch \<or> c_isupper ch \<or> c_isdigit ch \<or> ch = CHR ''_'' \<or> ch = CHR ''-''"

definition hybbx_nickname_infer :: "string \<Rightarrow> nat \<Rightarrow> string" where
  "hybbx_nickname_infer stored_username cap =
     (if str_ieq stored_username DEFAULT_SYSOP_USERNAME \<or> str_ieq stored_username ''sysop''
      then str_store cap DEFAULT_SYSOP_USERNAME
      else if stored_username \<noteq> [] \<and> c_islower (hd stored_username)
      then c_toupper (hd stored_username) # str_store (cap - 1) (tl stored_username)
      else str_store cap stored_username)"

definition hybbx_user_display_name :: "user_record \<Rightarrow> string" where
  "hybbx_user_display_name user = (if ur_nickname user \<noteq> [] then ur_nickname user else ur_username user)"

definition guest_prefix_or_default :: "string \<Rightarrow> string" where
  "guest_prefix_or_default guest_prefix = (if guest_prefix \<noteq> [] then guest_prefix else AUTH_DEFAULT_GUEST_PREFIX)"

definition hybbx_guest_slot_from_username :: "string \<Rightarrow> string \<Rightarrow> nat option" where
  "hybbx_guest_slot_from_username guest_prefix username =
     (let prefix = guest_prefix_or_default guest_prefix; plen = length prefix in
      if plen = 0 \<or> length username \<le> plen then None
      else if \<not> list_all (\<lambda>i. c_tolower (prefix ! i) = c_tolower (username ! i)) [0..<plen] then None
      else case c_strtoul (drop plen username) of (slot, rest) \<Rightarrow>
        if rest = drop plen username \<or> rest \<noteq> [] \<or> slot < 1 \<or> slot > GUEST_NUMBER_MAX then None
        else Some slot)"

definition GUEST_USER_ID :: "nat \<Rightarrow> nat" where "GUEST_USER_ID n = 0xffffffffffffff00 + n"

text \<open>None when the slot is out of range: the record is left as it was.\<close>

definition hybbx_guest_fill_record :: "string \<Rightarrow> nat \<Rightarrow> int \<Rightarrow> user_record option" where
  "hybbx_guest_fill_record guest_prefix slot now =
     (if slot < 1 \<or> slot > GUEST_NUMBER_MAX then None
      else let name = c_snprintf USER_NAME_MAX (guest_prefix_or_default guest_prefix @ dec_of_nat slot)
           in Some (user_zero\<lparr>ur_id := GUEST_USER_ID slot, ur_username := name,
                ur_nickname := str_store USER_NICKNAME_MAX name, ur_level := LEVEL_GUEST,
                ur_active := True, ur_created_at := now\<rparr>))"

section \<open>What may be registered\<close>

definition count_chars :: "(char \<Rightarrow> bool) \<Rightarrow> string \<Rightarrow> nat" where
  "count_chars P s = length (List.filter P s)"

definition hybbx_username_valid :: "string \<Rightarrow> string \<Rightarrow> bool" where
  "hybbx_username_valid username guest_prefix \<longleftrightarrow>
     USERNAME_MIN_LEN \<le> length username \<and> length username \<le> USERNAME_MAX_LEN
     \<and> list_all username_char_ok username
     \<and> count_chars c_isdigit username \<le> USERNAME_MAX_DIGITS
     \<and> \<not> (count_chars (\<lambda>c. c = CHR ''_'') username > 1 \<or> count_chars (\<lambda>c. c = CHR ''-'') username > 1
          \<or> (count_chars (\<lambda>c. c = CHR ''_'') username > 0 \<and> count_chars (\<lambda>c. c = CHR ''-'') username > 0))
     \<and> \<not> name_has_prefix username (guest_prefix_or_default guest_prefix)
     \<and> \<not> (str_ieq username ''sysop'' \<or> str_ieq username ''admin'' \<or> str_ieq username ''mod''
          \<or> str_ieq username ''guest'')"

definition hybbx_password_plain_valid :: "string \<Rightarrow> bool" where
  "hybbx_password_plain_valid password \<longleftrightarrow>
     password \<noteq> [] \<and> \<not> str_ieq password ''-''
     \<and> PASSWORD_MIN_LEN \<le> length password \<and> length password \<le> PASSWORD_MAX_LEN"

definition profile_text_char_ok :: "char \<Rightarrow> bool" where
  "profile_text_char_ok ch \<longleftrightarrow>
     ch \<noteq> CHR ''|'' \<and> (c_islower ch \<or> c_isupper ch \<or> c_isdigit ch \<or> ch = CHR '' '' \<or> ch = CHR ''-''
       \<or> ch = CHR 0x27 \<or> ch = CHR ''.'' \<or> ch = CHR '','')"

definition profile_text_valid :: "string \<Rightarrow> nat \<Rightarrow> nat \<Rightarrow> bool" where
  "profile_text_valid text min_len max_len \<longleftrightarrow>
     min_len \<le> length text \<and> length text < max_len \<and> list_all profile_text_char_ok text"

definition email_char_ok :: "char \<Rightarrow> bool" where
  "email_char_ok ch \<longleftrightarrow> c_islower ch \<or> c_isupper ch \<or> c_isdigit ch \<or> ch = CHR ''@'' \<or> ch = CHR ''.''
     \<or> ch = CHR ''-'' \<or> ch = CHR ''_'' \<or> ch = CHR ''+''"

definition email_valid :: "string \<Rightarrow> bool" where
  "email_valid email \<longleftrightarrow>
     5 \<le> length email \<and> length email < USER_EMAIL_MAX
     \<and> (let at = dropWhile (\<lambda>c. c \<noteq> CHR ''@'') email;
            dot = dropWhile (\<lambda>c. c \<noteq> CHR ''.'') (tl at)
        in at \<noteq> [] \<and> at \<noteq> email \<and> tl at \<noteq> [] \<and> dot \<noteq> [] \<and> tl dot \<noteq> [])
     \<and> list_all email_char_ok email"

definition hybbx_user_profile_valid :: "user_registration \<Rightarrow> bool" where
  "hybbx_user_profile_valid reg \<longleftrightarrow>
     profile_text_valid (rg_full_name reg) 2 USER_FULL_NAME_MAX
     \<and> profile_text_valid (rg_country reg) 2 USER_COUNTRY_MAX
     \<and> profile_text_valid (rg_location reg) 2 USER_LOCATION_MAX
     \<and> email_valid (rg_email reg)"

definition hybbx_registration_valid :: "user_registration \<Rightarrow> string \<Rightarrow> bool" where
  "hybbx_registration_valid reg guest_prefix \<longleftrightarrow>
     hybbx_username_valid (rg_username reg) guest_prefix
     \<and> hybbx_username_valid (rg_nickname reg) guest_prefix
     \<and> hybbx_user_profile_valid reg"

section \<open>Registered names and guest names\<close>

lemma same_prefix_iff:
  "length prefix \<le> length username \<Longrightarrow>
   list_all (\<lambda>i. c_tolower (username ! i) = c_tolower (prefix ! i)) [0..<length prefix]
     \<longleftrightarrow> str_ieq (take (length prefix) username) prefix"
  unfolding str_ieq_iff by (subst list_eq_iff_nth_eq) (simp add: list_all_iff atLeast0LessThan Ball_def)

lemma name_has_prefix_iff:
  "name_has_prefix username prefix \<longleftrightarrow>
     prefix \<noteq> [] \<and> length prefix \<le> length username \<and> str_ieq (take (length prefix) username) prefix"
  using same_prefix_iff [of prefix username] unfolding name_has_prefix_def by blast

lemma str_ieq_sym: "str_ieq a b = str_ieq b a"
  by (auto simp: str_ieq_iff)

lemma guest_slot_iff:
  "hybbx_guest_slot_from_username guest_prefix username =
     (let prefix = guest_prefix_or_default guest_prefix; number = drop (length prefix) username in
      if number = [] \<or> \<not> str_ieq (take (length prefix) username) prefix then None
      else case c_strtoul number of (slot, rest) \<Rightarrow>
        if rest = number \<or> rest \<noteq> [] \<or> slot < 1 \<or> slot > GUEST_NUMBER_MAX then None else Some slot)"
proof -
  let ?p = "guest_prefix_or_default guest_prefix"
  have p: "?p \<noteq> []" by (simp add: guest_prefix_or_default_def AUTH_DEFAULT_GUEST_PREFIX_def)
  have l: "length username \<le> length ?p \<longleftrightarrow> drop (length ?p) username = []" by simp
  show ?thesis
  proof (cases "length username \<le> length ?p")
    case False
    then have "list_all (\<lambda>i. c_tolower (?p ! i) = c_tolower (username ! i)) [0..<length ?p]
        \<longleftrightarrow> str_ieq (take (length ?p) username) ?p"
      using same_prefix_iff [of ?p username] by (simp only: eq_commute [of "c_tolower (?p ! _)"])
    with False p show ?thesis
      unfolding hybbx_guest_slot_from_username_def Let_def by simp
  qed (simp add: hybbx_guest_slot_from_username_def Let_def)
qed

text \<open>
  C21. Guests and registered users never share a name: the name given to a guest slot is recognised as
  that slot's, whatever prefix is configured, and no name that may be registered is recognised as a
  guest's, so \<^verbatim>\<open>/login\<close> never refuses a registered name as a guest's.
\<close>

theorem guest_names_reserved:
  assumes "1 \<le> slot" and "slot \<le> GUEST_NUMBER_MAX" and "length guest_prefix < AUTH_GUEST_PREFIX_MAX"
    and "hybbx_username_valid username guest_prefix"
  shows "(\<exists>user. hybbx_guest_fill_record guest_prefix slot now = Some user
        \<and> hybbx_guest_slot_from_username guest_prefix (ur_username user) = Some slot
        \<and> ur_level user = LEVEL_GUEST \<and> hybbx_user_display_name user = ur_username user)
     \<and> hybbx_guest_slot_from_username guest_prefix username = None
     \<and> hybbx_guest_slot_from_username guest_prefix (hybbx_username_normalize username) = None"
proof -
  let ?p = "guest_prefix_or_default guest_prefix"
  have p: "?p \<noteq> []" "length ?p < 32"
    using assms(3) by (auto simp: guest_prefix_or_default_def AUTH_DEFAULT_GUEST_PREFIX_def auth_consts)
  have d: "length (dec_of_nat slot) \<le> 2" "slot \<le> c_ulong_max"
    using assms(2) dec_of_nat_length [of 2 slot] by (auto simp: auth_consts c_ulong_max_def)
  let ?name = "?p @ dec_of_nat slot"
  have name: "c_snprintf USER_NAME_MAX ?name = ?name" "str_store USER_NICKNAME_MAX ?name = ?name"
    using p(2) d(1) by (simp_all add: c_snprintf_def auth_consts)
  have "hybbx_guest_slot_from_username guest_prefix ?name = Some slot"
    using assms(1,2) by (simp add: guest_slot_iff Let_def c_strtoul_dec_of_nat [OF d(2)])
  then have "\<exists>user. hybbx_guest_fill_record guest_prefix slot now = Some user
        \<and> hybbx_guest_slot_from_username guest_prefix (ur_username user) = Some slot
        \<and> ur_level user = LEVEL_GUEST \<and> hybbx_user_display_name user = ur_username user"
    using assms(1,2) name p(1)
    by (simp add: hybbx_guest_fill_record_def Let_def user_zero_def hybbx_user_display_name_def)
  moreover have "\<not> name_has_prefix username ?p" using assms(4) by (simp add: hybbx_username_valid_def)
  then have np: "length ?p \<le> length username \<Longrightarrow> \<not> str_ieq (take (length ?p) username) ?p"
    using p(1) by (simp add: name_has_prefix_iff)
  have "hybbx_guest_slot_from_username guest_prefix username = None"
    "hybbx_guest_slot_from_username guest_prefix (hybbx_username_normalize username) = None"
    using np by (cases "length ?p \<le> length username";
        simp add: guest_slot_iff Let_def hybbx_username_normalize_def str_ieq_iff take_map comp_def)+
  ultimately show ?thesis by blast
qed

theorem guest_names_reserved_witness:
  "hybbx_guest_slot_from_username ''Guest'' ''Guest7'' = Some 7
   \<and> hybbx_guest_slot_from_username ''Guest'' ''wanda_7'' = None"
proof -
  have v: "hybbx_username_valid ''wanda_7'' ''Guest''" by code_simp
  obtain user where u: "hybbx_guest_fill_record ''Guest'' 7 0 = Some user"
    "hybbx_guest_slot_from_username ''Guest'' (ur_username user) = Some 7"
    "hybbx_guest_slot_from_username ''Guest'' ''wanda_7'' = None"
    using guest_names_reserved [OF _ _ _ v, of 7 0] by (auto simp: auth_consts)
  have "map_option ur_username (hybbx_guest_fill_record ''Guest'' 7 0) = Some ''Guest7''"
    by (simp add: hybbx_guest_fill_record_def GUEST_NUMBER_MAX_def guest_prefix_or_default_def c_snprintf_def
        USER_NAME_MAX_def dec_of_nat.simps [of 7] Let_def user_zero_def char_of_eq_iff)
  with u show ?thesis by simp
qed

section \<open>Text that is safe in a file\<close>

text \<open>The characters of a name, a profile text or an address are none of the INI format's own.\<close>

definition ini_plain_char :: "char \<Rightarrow> bool" where
  "ini_plain_char c \<longleftrightarrow> c \<noteq> CHR 0x00 \<and> c \<noteq> CHR 0x0A \<and> c \<noteq> CHR '';'' \<and> c \<noteq> CHR ''#'' \<and> c \<noteq> CHR 0x22"

lemma char_classes_plain:
  "c_islower c \<Longrightarrow> ini_plain_char c" "c_isupper c \<Longrightarrow> ini_plain_char c" "c_isdigit c \<Longrightarrow> ini_plain_char c"
  by (auto simp: ini_plain_char_def c_islower_def c_isupper_def c_isdigit_def)

lemma valid_text_plain:
  "username_char_ok c \<Longrightarrow> ini_plain_char c" "profile_text_char_ok c \<Longrightarrow> ini_plain_char c" "email_char_ok c \<Longrightarrow> ini_plain_char c"
  by (auto simp: username_char_ok_def profile_text_char_ok_def email_char_ok_def char_classes_plain)
     (auto simp: ini_plain_char_def)

end
