(* ===== verification/Password.thy ===== *)
theory Password imports Block_Hash Auth begin

text \<open>
  Stored passwords: \<^verbatim>\<open>src/core/password.c\<close>.  The SHA-256 of new passwords comes from
  OpenSSL or the bundled library and is a parameter; MD5, which still checks old ones, is the file's own
  and is proved to be that of RFC 1321.
\<close>

definition PASSWORD_SHA256_PREFIX :: string where "PASSWORD_SHA256_PREFIX = ''{sha256}''"
definition PASSWORD_MD5_PREFIX :: string where "PASSWORD_MD5_PREFIX = ''{md5}''"

section \<open>MD5\<close>

record md5_ctx =
  mc_state :: "u32 list"
  mc_count :: "u32 \<times> u32"
  mc_buffer :: bytes

definition md5_rotate_left :: "u32 \<Rightarrow> nat \<Rightarrow> u32" where
  "md5_rotate_left x n = push_bit n x OR drop_bit (32 - n) x"

text \<open>The operations of the transform in their order: word of the block, rotation, constant.\<close>

definition md5_ops :: "(nat \<times> nat \<times> u32) list" where
  "md5_ops = [
    (0, 7, 0xd76aa478), (1, 12, 0xe8c7b756), (2, 17, 0x242070db), (3, 22, 0xc1bdceee),
    (4, 7, 0xf57c0faf), (5, 12, 0x4787c62a), (6, 17, 0xa8304613), (7, 22, 0xfd469501),
    (8, 7, 0x698098d8), (9, 12, 0x8b44f7af), (10, 17, 0xffff5bb1), (11, 22, 0x895cd7be),
    (12, 7, 0x6b901122), (13, 12, 0xfd987193), (14, 17, 0xa679438e), (15, 22, 0x49b40821),
    (1, 5, 0xf61e2562), (6, 9, 0xc040b340), (11, 14, 0x265e5a51), (0, 20, 0xe9b6c7aa),
    (5, 5, 0xd62f105d), (10, 9, 0x02441453), (15, 14, 0xd8a1e681), (4, 20, 0xe7d3fbc8),
    (9, 5, 0x21e1cde6), (14, 9, 0xc33707d6), (3, 14, 0xf4d50d87), (8, 20, 0x455a14ed),
    (13, 5, 0xa9e3e905), (2, 9, 0xfcefa3f8), (7, 14, 0x676f02d9), (12, 20, 0x8d2a4c8a),
    (5, 4, 0xfffa3942), (8, 11, 0x8771f681), (11, 16, 0x6d9d6122), (14, 23, 0xfde5380c),
    (1, 4, 0xa4beea44), (4, 11, 0x4bdecfa9), (7, 16, 0xf6bb4b60), (10, 23, 0xbebfbc70),
    (13, 4, 0x289b7ec6), (0, 11, 0xeaa127fa), (3, 16, 0xd4ef3085), (6, 23, 0x04881d05),
    (9, 4, 0xd9d4d039), (12, 11, 0xe6db99e5), (15, 16, 0x1fa27cf8), (2, 23, 0xc4ac5665),
    (0, 6, 0xf4292244), (7, 10, 0x432aff97), (14, 15, 0xab9423a7), (5, 21, 0xfc93a039),
    (12, 6, 0x655b59c3), (3, 10, 0x8f0ccc92), (10, 15, 0xffeff47d), (1, 21, 0x85845dd1),
    (8, 6, 0x6fa87e4f), (15, 10, 0xfe2ce6e0), (6, 15, 0xa3014314), (13, 21, 0x4e0811a1),
    (4, 6, 0xf7537e82), (11, 10, 0xbd3af235), (2, 15, 0x2ad7d2bb), (9, 21, 0xeb86d391)]"

text \<open>
  The operation \<open>i\<close> on the four variables: the first it is given (a, d, c, b in turn) is updated from
  the next three; the macros differ in their function.
\<close>

definition md5_function :: "nat \<Rightarrow> u32 \<Rightarrow> u32 \<Rightarrow> u32 \<Rightarrow> u32" where
  "md5_function i x y z =
     (if i < 16 then (x AND y) OR (NOT x AND z)
      else if i < 32 then (x AND z) OR (y AND NOT z)
      else if i < 48 then x XOR y XOR z
      else y XOR (x OR NOT z))"

definition md5_op :: "u32 list \<Rightarrow> nat \<Rightarrow> u32 list \<Rightarrow> u32 list" where
  "md5_op x i st =
     (case md5_ops ! i of (k, s, ac) \<Rightarrow>
        let a = (4 - i mod 4) mod 4; b = (a + 1) mod 4; c = (a + 2) mod 4; d = (a + 3) mod 4;
            t = st ! a + (md5_function i (st ! b) (st ! c) (st ! d) + x ! k + ac)
        in st[a := md5_rotate_left t s + st ! b])"

definition md5_word :: "bytes \<Rightarrow> nat \<Rightarrow> u32" where
  "md5_word block i =
     ucast (block ! (i * 4)) OR push_bit 8 (ucast (block ! (i * 4 + 1)))
     OR push_bit 16 (ucast (block ! (i * 4 + 2))) OR push_bit 24 (ucast (block ! (i * 4 + 3)))"

definition md5_transform :: "u32 list \<Rightarrow> bytes \<Rightarrow> u32 list" where
  "md5_transform state block =
     map2 (+) state (fold (md5_op (map (md5_word block) [0..<16])) [0..<64] state)"

definition md5_encode_word :: "u32 \<Rightarrow> bytes" where
  "md5_encode_word v = [ucast v, ucast (drop_bit 8 v), ucast (drop_bit 16 v), ucast (drop_bit 24 v)]"

definition md5_encode :: "u32 list \<Rightarrow> bytes" where
  "md5_encode ws = concat (map md5_encode_word ws)"

definition md5_init_state :: "u32 list" where
  "md5_init_state = [0x67452301, 0xefcdab89, 0x98badcfe, 0x10325476]"

definition md5_init :: "bytes \<Rightarrow> md5_ctx" where
  "md5_init buffer = \<lparr>mc_state = md5_init_state, mc_count = (0, 0), mc_buffer = buffer\<rparr>"

definition md5_index :: "md5_ctx \<Rightarrow> nat" where
  "md5_index ctx = unat (drop_bit 3 (fst (mc_count ctx)) AND 0x3f)"

text \<open>The loop over whole blocks: the state, the buffer and the final i.\<close>

function md5_blocks :: "u32 list \<Rightarrow> bytes \<Rightarrow> bytes \<Rightarrow> nat \<Rightarrow> u32 list \<times> bytes \<times> nat" where
  "md5_blocks st buffer data i =
     (if i + 63 < length data
      then let block = take 64 (drop i data) in md5_blocks (md5_transform st block) block data (i + 64)
      else (st, buffer, i))"
  by auto
termination by (relation "measure (\<lambda>(st, buffer, data, i). length data - i)") auto

declare md5_blocks.simps [simp del]

definition md5_count_add :: "u32 \<times> u32 \<Rightarrow> nat \<Rightarrow> u32 \<times> u32" where
  "md5_count_add count len =
     (case count of (c0, c1) \<Rightarrow>
        let c0' = c0 + of_nat (len * 8); c1' = (if c0' < of_nat (len * 8) then c1 + 1 else c1)
        in (c0', c1' + of_nat (len div 2 ^ 29)))"

definition md5_update :: "md5_ctx \<Rightarrow> bytes \<Rightarrow> md5_ctx" where
  "md5_update ctx data =
     (let index = md5_index ctx; len = length data; part_len = 64 - index;
          (st, buffer, i, index) =
            (if len \<ge> part_len then
               let buffer = take index (mc_buffer ctx) @ take part_len data;
                   (st, buffer, i) = md5_blocks (md5_transform (mc_state ctx) buffer) buffer data part_len
               in (st, buffer, i, 0)
             else (mc_state ctx, mc_buffer ctx, 0, index))
      in \<lparr>mc_state = st, mc_count = md5_count_add (mc_count ctx) len,
          mc_buffer = take index buffer @ drop i data @ drop (index + (len - i)) buffer\<rparr>)"

definition hex_char :: "nat \<Rightarrow> char" where
  "hex_char n = (if n < 10 then char_of (48 + n) else char_of (87 + n))"

definition hex_byte :: "u8 \<Rightarrow> string" where
  "hex_byte b = [hex_char (unat b div 16), hex_char (unat b mod 16)]"

definition md5_finalize_hex :: "md5_ctx \<Rightarrow> string" where
  "md5_finalize_hex ctx =
     (let index = md5_index ctx; pad_len = (if index < 56 then 56 - index else 120 - index);
          bits = md5_encode [fst (mc_count ctx), snd (mc_count ctx)];
          ctx = md5_update (md5_update ctx (take pad_len (0x80 # replicate 63 0))) bits
      in concat (map hex_byte (md5_encode (mc_state ctx))))"

definition md5_hex :: "bytes \<Rightarrow> string \<Rightarrow> string" where
  "md5_hex buffer plain = md5_finalize_hex (md5_update (md5_init buffer) (bytes_of_string plain))"

section \<open>RFC 1321\<close>

definition rfc_shift :: "nat \<Rightarrow> nat" where
  "rfc_shift i = (if i < 16 then [7, 12, 17, 22] else if i < 32 then [5, 9, 14, 20]
     else if i < 48 then [4, 11, 16, 23] else [6, 10, 15, 21]) ! (i mod 4)"

definition rfc_index :: "nat \<Rightarrow> nat" where
  "rfc_index i = (if i < 16 then i else if i < 32 then (5 * i + 1) mod 16
     else if i < 48 then (3 * i + 5) mod 16 else 7 * i mod 16)"

text \<open>The sine table of the standard.\<close>

definition rfc_T :: "u32 list" where
  "rfc_T = [
    3614090360, 3905402710, 606105819, 3250441966, 4118548399, 1200080426, 2821735955, 4249261313,
    1770035416, 2336552879, 4294925233, 2304563134, 1804603682, 4254626195, 2792965006, 1236535329,
    4129170786, 3225465664, 643717713, 3921069994, 3593408605, 38016083, 3634488961, 3889429448,
    568446438, 3275163606, 4107603335, 1163531501, 2850285829, 4243563512, 1735328473, 2368359562,
    4294588738, 2272392833, 1839030562, 4259657740, 2763975236, 1272893353, 4139469664, 3200236656,
    681279174, 3936430074, 3572445317, 76029189, 3654602809, 3873151461, 530742520, 3299628645,
    4096336452, 1126891415, 2878612391, 4237533241, 1700485571, 2399980690, 4293915773, 2240044497,
    1873313359, 4264355552, 2734768916, 1309151649, 4149444226, 3174756917, 718787259, 3951481745]"

definition rfc_f :: "nat \<Rightarrow> u32 \<Rightarrow> u32 \<Rightarrow> u32 \<Rightarrow> u32" where
  "rfc_f i x y z =
     (if i < 16 then (x AND y) OR (NOT x AND z)
      else if i < 32 then (x AND z) OR (y AND NOT z)
      else if i < 48 then x XOR y XOR z
      else y XOR (x OR NOT z))"

type_synonym md5_state = "u32 \<times> u32 \<times> u32 \<times> u32"

definition rfc_step :: "bytes \<Rightarrow> nat \<Rightarrow> md5_state \<Rightarrow> md5_state" where
  "rfc_step block i s =
     (case s of (a, b, c, d) \<Rightarrow>
        (d, b + md5_rotate_left (a + rfc_f i b c d + md5_word block (rfc_index i) + rfc_T ! i) (rfc_shift i), b, c))"

definition rfc_compress :: "md5_state \<Rightarrow> bytes \<Rightarrow> md5_state" where
  "rfc_compress h block =
     (case fold (rfc_step block) [0..<64] h of (a, b, c, d) \<Rightarrow>
      case h of (h0, h1, h2, h3) \<Rightarrow> (h0 + a, h1 + b, h2 + c, h3 + d))"

text \<open>A one bit, zeros to 56 modulo 64, the length in bits in eight bytes, the lowest first.\<close>

definition rfc_pad :: "bytes \<Rightarrow> bytes" where
  "rfc_pad m = m @ [0x80] @ replicate (nat ((55 - int (length m)) mod 64)) 0
     @ map (\<lambda>i. of_nat ((8 * length m) div 256 ^ i)) [0..<8]"

definition rfc_md5 :: "bytes \<Rightarrow> bytes" where
  "rfc_md5 m =
     (case absorb rfc_compress (0x67452301, 0xefcdab89, 0x98badcfe, 0x10325476) (rfc_pad m) of (h0, h1, h2, h3) \<Rightarrow>
        md5_encode [h0, h1, h2, h3])"

section \<open>One block\<close>

lemma md5_ops_rfc: "i < 64 \<Longrightarrow> md5_ops ! i = (rfc_index i, rfc_shift i, rfc_T ! i)"
proof -
  have "list_all (\<lambda>i. md5_ops ! i = (rfc_index i, rfc_shift i, rfc_T ! i)) [0..<64]"
    by (simp add: upt_rec md5_ops_def rfc_index_def rfc_shift_def rfc_T_def)
  then show "i < 64 \<Longrightarrow> md5_ops ! i = (rfc_index i, rfc_shift i, rfc_T ! i)"
    by (auto simp: list_all_iff)
qed

lemma rfc_index_less: "i < 64 \<Longrightarrow> rfc_index i < 16"
  by (simp add: rfc_index_def)

text \<open>The four variables in the roles the operation \<open>i\<close> gives them.\<close>

definition md5_roles :: "nat \<Rightarrow> u32 list \<Rightarrow> md5_state" where
  "md5_roles i st =
     (let a = (4 - i mod 4) mod 4 in (st ! a, st ! ((a + 1) mod 4), st ! ((a + 2) mod 4), st ! ((a + 3) mod 4)))"

lemma md5_op_roles:
  assumes "length st = 4" and "i < 64"
  shows "md5_roles (Suc i) (md5_op (map (md5_word block) [0..<16]) i st) = rfc_step block i (md5_roles i st)"
proof -
  obtain w0 w1 w2 w3 where st: "st = [w0, w1, w2, w3]"
    using assms(1) by (auto simp: length_Suc_conv eval_nat_numeral)
  have f: "md5_function = rfc_f" by (intro ext) (simp add: md5_function_def rfc_f_def)
  have x: "map (md5_word block) [0..<16] ! rfc_index i = md5_word block (rfc_index i)"
    using rfc_index_less [OF assms(2)] by simp
  have "i mod 4 < 4" by simp
  then consider "i mod 4 = 0" | "i mod 4 = 1" | "i mod 4 = 2" | "i mod 4 = 3" by linarith
  then show ?thesis
    by cases (simp_all add: md5_op_def md5_ops_rfc [OF assms(2)] x f st
        md5_roles_def rfc_step_def Let_def mod_Suc add_ac)
qed

lemma md5_op_length [simp]: "length (md5_op x i st) = length st"
  by (simp add: md5_op_def Let_def split: prod.split)

lemma md5_ops_roles:
  "length st = 4 \<Longrightarrow> n \<le> 64 \<Longrightarrow>
   length (fold (md5_op (map (md5_word block) [0..<16])) [0..<n] st) = 4
   \<and> md5_roles n (fold (md5_op (map (md5_word block) [0..<16])) [0..<n] st) = fold (rfc_step block) [0..<n] (md5_roles 0 st)"
  by (induction n) (auto simp: md5_op_roles)

definition md5_tuple :: "u32 list \<Rightarrow> md5_state" where
  "md5_tuple st = (st ! 0, st ! 1, st ! 2, st ! 3)"

lemma list_of_four: "length w = 4 \<Longrightarrow> w = [w ! 0, w ! 1, w ! 2, w ! 3]"
  by (rule nth_equalityI) (auto simp: less_Suc_eq numeral_eq_Suc)

lemma md5_tuple_list: "md5_tuple [a, b, c, d] = (a, b, c, d)"
  by (simp add: md5_tuple_def numeral_2_eq_2 numeral_3_eq_3)

lemma md5_roles_whole: "md5_roles 64 st = md5_tuple st" "md5_roles 0 st = md5_tuple st"
proof -
  have "(64 :: nat) mod 4 = 0" "(4 - 0) mod 4 = (0 :: nat)" "(0 + 1) mod 4 = (1 :: nat)" "(0 + 2) mod 4 = (2 :: nat)"
    "(0 + 3) mod 4 = (3 :: nat)" "0 mod 4 = (0 :: nat)" by simp_all
  then show "md5_roles 64 st = md5_tuple st" "md5_roles 0 st = md5_tuple st"
    unfolding md5_roles_def md5_tuple_def Let_def by (simp_all only:)
qed

lemma md5_transform_tuple:
  assumes "length st = 4"
  shows "length (md5_transform st block) = 4 \<and> md5_tuple (md5_transform st block) = rfc_compress (md5_tuple st) block"
proof -
  let ?f = "fold (md5_op (map (md5_word block) [0..<16])) [0..<64] st"
  have r: "length ?f = 4" "md5_roles 64 ?f = fold (rfc_step block) [0..<64] (md5_roles 0 st)"
    by (rule conjunct1 [OF md5_ops_roles [OF assms order_refl]], rule conjunct2 [OF md5_ops_roles [OF assms order_refl]])
  obtain a b c d where f: "?f = [a, b, c, d]" using list_of_four [OF r(1)] by (rule that)
  obtain h0 h1 h2 h3 where h: "st = [h0, h1, h2, h3]" using list_of_four [OF assms] by (rule that)
  have t: "md5_transform st block = [h0 + a, h1 + b, h2 + c, h3 + d]"
    unfolding md5_transform_def f unfolding h by simp
  have "fold (rfc_step block) [0..<64] (md5_tuple st) = (a, b, c, d)"
    using r(2) unfolding md5_roles_whole f md5_tuple_list by (rule sym)
  then have c: "rfc_compress (md5_tuple st) block = (h0 + a, h1 + b, h2 + c, h3 + d)"
    unfolding rfc_compress_def by (simp only: prod.case) (simp only: h md5_tuple_list prod.case)
  show ?thesis unfolding t c md5_tuple_list by simp
qed

section \<open>The stream of blocks\<close>

lemma md5_blocks_result:
  "length st = 4 \<Longrightarrow> length buffer = 64 \<Longrightarrow> i \<le> length data \<Longrightarrow>
   \<exists>k st' buffer'. md5_blocks st buffer data i = (st', buffer', i + k) \<and> length st' = 4 \<and> length buffer' = 64
     \<and> md5_tuple st' = absorb rfc_compress (md5_tuple st) (take k (drop i data))
     \<and> 64 dvd k \<and> i + k \<le> length data \<and> length data - (i + k) < 64"
proof (induction st buffer data i rule: md5_blocks.induct)
  case (1 st buffer data i)
  show ?case
  proof (cases "i + 63 < length data")
    case True
    let ?b = "take 64 (drop i data)"
    have b: "length ?b = 64" using True by simp
    note t = md5_transform_tuple [OF "1.prems"(1), of ?b]
    obtain k st' buffer' where k: "md5_blocks (md5_transform st ?b) ?b data (i + 64) = (st', buffer', i + 64 + k)"
      "length st' = 4" "length buffer' = 64"
      "md5_tuple st' = absorb rfc_compress (md5_tuple (md5_transform st ?b)) (take k (drop (i + 64) data))"
      "64 dvd k" "i + 64 + k \<le> length data" "length data - (i + 64 + k) < 64"
      using "1.IH" [OF True refl conjunct1 [OF t] b] True by fastforce
    have "take (64 + k) (drop i data) = ?b @ take k (drop (i + 64) data)"
      unfolding take_add drop_drop by (simp add: add.commute)
    moreover have "md5_blocks st buffer data i = (st', buffer', i + (64 + k))"
      using True k(1) by (subst md5_blocks.simps) (simp add: Let_def add.assoc)
    ultimately show ?thesis
      using k(2-) t by (intro exI [of _ "64 + k"] exI [of _ st'] exI [of _ buffer']) (auto simp: absorb_block [OF b])
  next
    case False
    with "1.prems" show ?thesis
      by (intro exI [of _ 0] exI [of _ st] exI [of _ buffer]) (subst md5_blocks.simps, simp add: absorb_short)
  qed
qed

text \<open>What a context stands for: the whole blocks are compressed, the rest is in the buffer.\<close>

definition md5_counts :: "u32 \<times> u32 \<Rightarrow> nat \<Rightarrow> bool" where
  "md5_counts count n \<longleftrightarrow> fst count = of_nat (8 * n) \<and> snd count = of_nat (8 * n div 2 ^ 32)"

abbreviation md5_start :: md5_state where
  "md5_start \<equiv> (0x67452301, 0xefcdab89, 0x98badcfe, 0x10325476)"

definition md5_holds :: "md5_ctx \<Rightarrow> bytes \<Rightarrow> bytes \<Rightarrow> bool" where
  "md5_holds ctx a r \<longleftrightarrow> 64 dvd length a \<and> length r < 64 \<and> length (mc_state ctx) = 4
     \<and> md5_tuple (mc_state ctx) = absorb rfc_compress md5_start a
     \<and> md5_counts (mc_count ctx) (length a + length r) \<and> length (mc_buffer ctx) = 64
     \<and> take (length r) (mc_buffer ctx) = r"

lemma md5_init_holds: "length buffer = 64 \<Longrightarrow> md5_holds (md5_init buffer) [] []"
  by (simp add: md5_holds_def md5_init_def md5_init_state_def md5_tuple_def md5_counts_def absorb_short)

lemma unat_of_nat_u32: "unat (of_nat m :: u32) = m mod 2 ^ 32"
  by (simp add: unat_of_nat)

lemma md5_counts_add:
  assumes "md5_counts count n"
  shows "md5_counts (md5_count_add count len) (n + len)"
proof -
  obtain c0 c1 where c: "count = (c0, c1)" by fastforce
  let ?c0 = "c0 + of_nat (len * 8)"
  have c0: "c0 = of_nat (8 * n)" "c1 = of_nat (8 * n div 2 ^ 32)" using assms c by (auto simp: md5_counts_def)
  have s: "?c0 = of_nat (8 * (n + len))" by (simp add: c0 algebra_simps)
  have carry: "(of_nat (8 * (n + len)) :: u32) < of_nat (len * 8) \<longleftrightarrow> 2 ^ 32 \<le> 8 * n mod 2 ^ 32 + 8 * len mod 2 ^ 32"
  proof -
    have "of_nat (8 * (n + len)) < (of_nat (len * 8) :: u32) \<longleftrightarrow> (8 * n + 8 * len) mod 2 ^ 32 < 8 * len mod 2 ^ 32"
      unfolding mult.commute [of len] word_less_nat_alt unat_of_nat_u32 by (simp only: distrib_left)
    also have "\<dots> \<longleftrightarrow> (8 * n mod 2 ^ 32 + 8 * len mod 2 ^ 32) mod 2 ^ 32 < 8 * len mod 2 ^ 32"
      by (simp only: mod_add_eq)
    also have "\<dots> \<longleftrightarrow> 2 ^ 32 \<le> 8 * n mod 2 ^ 32 + 8 * len mod 2 ^ 32"
    proof (cases "2 ^ 32 \<le> 8 * n mod 2 ^ 32 + 8 * len mod 2 ^ 32")
      case True
      have lt: "8 * n mod 2 ^ 32 < 2 ^ 32" "8 * len mod 2 ^ 32 < (2 :: nat) ^ 32" by simp_all
      have "(8 * n mod 2 ^ 32 + 8 * len mod 2 ^ 32) mod 2 ^ 32 = 8 * n mod 2 ^ 32 + 8 * len mod 2 ^ 32 - 2 ^ 32"
        using True lt by (subst le_mod_geq [OF True]) (simp add: less_diff_conv2)
      with True lt show ?thesis by linarith
    qed simp
    finally show ?thesis .
  qed
  have d: "8 * (n + len) div 2 ^ 32
      = 8 * n div 2 ^ 32 + len div 2 ^ 29 + (if 2 ^ 32 \<le> 8 * n mod 2 ^ 32 + 8 * len mod 2 ^ 32 then 1 else 0)"
  proof -
    have l: "8 * len div 2 ^ 32 = len div 2 ^ 29" by simp
    have q: "x < 2 ^ 32 \<Longrightarrow> y < 2 ^ 32 \<Longrightarrow> (x + y) div 2 ^ 32 = (if 2 ^ 32 \<le> x + y then 1 else 0)" for x y :: nat
      by (auto intro!: div_nat_eqI)
    show ?thesis unfolding distrib_left div_add1_eq [of "8 * n"] l by (subst q) simp_all
  qed
  show ?thesis
    unfolding c md5_count_add_def Let_def prod.case md5_counts_def fst_conv snd_conv s carry c0(2) d
    by (simp del: of_nat_mult)
qed


lemma md5_holds_index:
  assumes "md5_holds ctx a r"
  shows "md5_index ctx = length r"
proof -
  have m: "0x3f = (mask 6 :: u32)" by (simp add: mask_eq_exp_minus_1)
  have "unat (take_bit 6 (drop_bit 3 w)) = take_bit 6 (drop_bit 3 (unat w))" for w :: u32
    using take_bit_nat_eq_self [OF unsigned_less [of w]] by (simp add: unsigned_take_bit_eq unsigned_drop_bit_eq)
  then have "md5_index ctx = take_bit 6 (drop_bit 3 (unat (fst (mc_count ctx))))"
    unfolding md5_index_def m take_bit_eq_mask .
  also have "unat (fst (mc_count ctx)) = 8 * (length a + length r) mod 2 ^ 32"
    using assms unfolding md5_holds_def md5_counts_def by (simp only: unat_of_nat_u32)
  also have "\<dots> = 8 * ((length a + length r) mod 2 ^ 29)"
    using mult_mod_right [of 8 "length a + length r" "2 ^ 29"] by simp
  also have "take_bit 6 (drop_bit 3 (8 * ((length a + length r) mod 2 ^ 29))) = (length a + length r) mod 64"
    by (simp add: take_bit_eq_mod drop_bit_eq_div mod_mod_cancel)
  finally show ?thesis using assms by (auto simp: md5_holds_def elim!: dvdE)
qed

text \<open>An update appends to the message.\<close>

lemma md5_update_holds:
  assumes "md5_holds ctx a r"
  shows "\<exists>a' r'. a' @ r' = a @ r @ data \<and> md5_holds (md5_update ctx data) a' r'"
proof -
  let ?n = "64 - length r"
  have ix: "md5_index ctx = length r" by (rule md5_holds_index [OF assms])
  have r: "length r < 64" "64 dvd length a" "take (length r) (mc_buffer ctx) = r" "length (mc_buffer ctx) = 64"
    "length (mc_state ctx) = 4" "md5_tuple (mc_state ctx) = absorb rfc_compress md5_start a"
    using assms by (auto simp: md5_holds_def)
  have cnt: "md5_counts (md5_count_add (mc_count ctx) (length data)) (length a + length r + length data)"
    using assms md5_counts_add by (simp add: md5_holds_def)
  show ?thesis
  proof (cases "length data \<ge> ?n")
    case False
    then have "md5_holds (md5_update ctx data) a (r @ data)"
      using r ix cnt by (auto simp: md5_update_def md5_holds_def Let_def add.assoc)
    then show ?thesis by fastforce
  next
    case True
    let ?b = "r @ take ?n data"
    have b: "length ?b = 64" using r True by simp
    note t = md5_transform_tuple [OF r(5), of ?b]
    obtain k st' buffer' where k: "md5_blocks (md5_transform (mc_state ctx) ?b) ?b data ?n = (st', buffer', ?n + k)"
      "length st' = 4" "length buffer' = 64"
      "md5_tuple st' = absorb rfc_compress (md5_tuple (md5_transform (mc_state ctx) ?b)) (take k (drop ?n data))"
      "64 dvd k" "?n + k \<le> length data" "length data - (?n + k) < 64"
      using md5_blocks_result [OF conjunct1 [OF t] b True] by blast
    let ?a = "a @ ?b @ take k (drop ?n data)" and ?r = "drop (?n + k) data"
    have "?r = drop k (drop ?n data)" by (simp only: drop_drop add.commute)
    then have cat: "?a @ ?r = a @ r @ data" by (simp only: append_assoc append_take_drop_id)
    have st: "md5_tuple st' = absorb rfc_compress md5_start ?a"
      using k(4) t r(6) by (simp only: absorb_append [OF r(2)] absorb_block [OF b])
    have "md5_update ctx data = \<lparr>mc_state = st', mc_count = md5_count_add (mc_count ctx) (length data),
        mc_buffer = ?r @ drop (length data - (?n + k)) buffer'\<rparr>"
      unfolding md5_update_def Let_def ix r(3) if_P [OF True] k(1) prod.case
      by (simp only: take_0 append_Nil add_0)
    moreover have "length ?a + length ?r = length a + length r + length data"
      using arg_cong [OF cat, of length] by simp
    moreover have "64 dvd length ?a" "length ?r < 64" using r b k by auto
    moreover have "length (?r @ drop (length data - (?n + k)) buffer') = 64" using k(3,7) by simp
    moreover have "take (length ?r) (?r @ drop (length data - (?n + k)) buffer') = ?r" by simp
    ultimately have "md5_holds (md5_update ctx data) ?a ?r"
      unfolding md5_holds_def using st cnt k(2) by (simp only: md5_ctx.select_convs simp_thms)
    with cat show ?thesis by blast
  qed
qed

lemma md5_length_bytes:
  "md5_counts count n \<Longrightarrow> md5_encode [fst count, snd count] = map (\<lambda>i. of_nat ((8 * n) div 256 ^ i)) [0..<8]"
proof -
  assume c: "md5_counts count n"
  have e: "(ucast (drop_bit (8 * i) (of_nat x :: u32)) :: u8) = of_nat (x div 256 ^ i)" if "i < 4" for x i
  proof -
    have "x div 256 ^ i = drop_bit (8 * i) x" by (simp add: drop_bit_eq_div power_mult)
    then show ?thesis by (intro bit_word_eqI) (use that in \<open>auto simp: bit_simps\<close>)
  qed
  have w: "md5_encode_word (of_nat x) = map (\<lambda>i. of_nat (x div 256 ^ i)) [0..<4]" for x
    using e [of 0 x] e [of 1 x] e [of 2 x] e [of 3 x] by (simp add: md5_encode_word_def upt_rec)
  have "8 * n div 2 ^ 32 div 256 ^ i = 8 * n div 256 ^ (4 + i)" for i
    by (simp add: div_mult2_eq [symmetric] power_add)
  then show ?thesis
    using c w [of "8 * n"] w [of "8 * n div 2 ^ 32"]
    by (simp add: md5_encode_def md5_counts_def upt_rec del: of_nat_mult)
qed

lemma md5_encode_length: "length (md5_encode ws) = 4 * length ws"
  by (induction ws) (auto simp: md5_encode_def md5_encode_word_def)

lemma take_padding: "0 < p \<Longrightarrow> p \<le> 64 \<Longrightarrow> take p (x # replicate 63 y) = [x] @ replicate (p - 1) y"
  by (cases p) simp_all

lemma md5_final_pads:
  assumes "md5_holds ctx a r"
  shows "md5_finalize_hex ctx = concat (map hex_byte (rfc_md5 (a @ r)))"
proof -
  let ?n = "length a + length r" and ?l = "length r"
  let ?pad = "if ?l < 56 then 56 - ?l else 120 - ?l"
  let ?bits = "md5_encode [fst (mc_count ctx), snd (mc_count ctx)]"
  let ?pb = "take ?pad (0x80 # replicate 63 0) :: bytes"
  have h: "64 dvd length a" "?l < 64" "md5_counts (mc_count ctx) ?n" using assms by (auto simp: md5_holds_def)
  obtain a1 r1 where 1: "a1 @ r1 = a @ r @ ?pb" "md5_holds (md5_update ctx ?pb) a1 r1"
    using md5_update_holds [OF assms] by blast
  obtain a2 r2 where 2: "a2 @ r2 = a1 @ r1 @ ?bits" "md5_holds (md5_update (md5_update ctx ?pb) ?bits) a2 r2"
    using md5_update_holds [OF 1(2)] by blast
  have nn: "int ?n mod 64 = int ?l" using h(1,2) by (auto elim!: dvdE)
  have p0: "nat ((55 - int ?n) mod 64) = ?pad - 1"
  proof (cases "?l < 56")
    case True
    with pad_mod [OF nn, of 55 0] show ?thesis by simp
  next
    case False
    with pad_mod [OF nn, of 55 1] h(2) show ?thesis by simp
  qed
  have "0 < ?pad" "?pad \<le> 64" using h(2) by auto
  then have pb: "?pb = [0x80] @ replicate (?pad - 1) 0" by (rule take_padding)
  have m: "a2 @ r2 = rfc_pad (a @ r)"
    unfolding 2(1) md5_length_bytes [OF h(3)] rfc_pad_def length_append p0
    by (simp only: append_assoc [symmetric] 1(1)) (simp only: pb append_assoc)
  have pl: "length ?pb = ?pad" using h(2) by auto
  have "length (a1 @ r1) = ?n + ?pad" unfolding 1(1) length_append pl by simp
  then have "length (a2 @ r2) = ?n + ?pad + 8"
    unfolding 2(1) append_assoc [symmetric] length_append [of "a1 @ r1"] by (simp add: md5_encode_length)
  moreover have "?l + ?pad + 8 = 64 \<or> ?l + ?pad + 8 = 128" using h(2) by auto
  then have "64 dvd ?l + ?pad + 8" by (elim disjE) simp_all
  ultimately have "64 dvd length (a2 @ r2)" using h(1) by (simp add: add.assoc)
  then have "64 dvd length r2" using 2(2) by (simp add: md5_holds_def dvd_add_right_iff)
  then have r2: "r2 = []" using 2(2) by (auto simp: md5_holds_def dest: dvd_imp_le)
  obtain w0 w1 w2 w3 where w: "mc_state (md5_update (md5_update ctx ?pb) ?bits) = [w0, w1, w2, w3]"
    using 2(2) list_of_four that unfolding md5_holds_def by (elim conjE) rule
  have "absorb rfc_compress md5_start (rfc_pad (a @ r)) = (w0, w1, w2, w3)"
    using 2(2) unfolding m [symmetric] r2 append_Nil2 md5_holds_def w md5_tuple_list by (simp only:)
  then show ?thesis
    unfolding md5_finalize_hex_def Let_def md5_holds_index [OF assms] w rfc_md5_def by simp
qed

lemma md5_hex_rfc: "length buffer = 64 \<Longrightarrow> md5_hex buffer plain = concat (map hex_byte (rfc_md5 (bytes_of_string plain)))"
  using md5_update_holds [OF md5_init_holds, of buffer "bytes_of_string plain"] md5_final_pads
  unfolding md5_hex_def by (metis append_Nil)

section \<open>Stored passwords\<close>

text \<open>The character at an index of a C string, its terminator behind the last.\<close>

definition str_at :: "string \<Rightarrow> nat \<Rightarrow> char" where
  "str_at s i = (if i < length s then s ! i else CHR 0x00)"

definition hex_digit :: "char \<Rightarrow> int" where
  "hex_digit ch =
     (if c_isdigit ch then int (of_char ch) - 48
      else if 97 \<le> (of_char ch :: nat) \<and> (of_char ch :: nat) \<le> 102 then 10 + (int (of_char ch) - 97)
      else if 65 \<le> (of_char ch :: nat) \<and> (of_char ch :: nat) \<le> 70 then 10 + (int (of_char ch) - 65)
      else - 1)"

definition hex_string_eq :: "string \<Rightarrow> string \<Rightarrow> nat \<Rightarrow> bool" where
  "hex_string_eq a b hex_len \<longleftrightarrow> list_all (\<lambda>i. c_tolower (str_at a i) = c_tolower (str_at b i)) [0..<hex_len]"

definition hex_string_valid :: "string \<Rightarrow> nat \<Rightarrow> bool" where
  "hex_string_valid s hex_len \<longleftrightarrow>
     list_all (\<lambda>i. hex_digit (str_at s i) \<ge> 0) [0..<hex_len] \<and> length s \<le> hex_len"

definition has_prefix :: "string \<Rightarrow> string \<Rightarrow> bool" where
  "has_prefix prefix s \<longleftrightarrow> take (length prefix) s = prefix"

definition hybbx_password_is_hashed :: "string \<Rightarrow> bool" where
  "hybbx_password_is_hashed stored \<longleftrightarrow>
     stored \<noteq> [] \<and>
     (if has_prefix PASSWORD_SHA256_PREFIX stored then hex_string_valid (drop 8 stored) 64
      else if has_prefix PASSWORD_MD5_PREFIX stored then hex_string_valid (drop 5 stored) 32
      else False)"

definition hybbx_password_is_plain :: "string \<Rightarrow> bool" where
  "hybbx_password_is_plain stored \<longleftrightarrow> stored \<noteq> [] \<and> \<not> hybbx_password_is_hashed stored"

text \<open>\<open>sha256_hex\<close> is the library's digest in hexadecimal.\<close>

definition hybbx_password_hash_sha256 :: "(string \<Rightarrow> string) \<Rightarrow> string \<Rightarrow> nat \<Rightarrow> hybbx_result \<times> string option" where
  "hybbx_password_hash_sha256 sha256_hex plain out_size =
     (if out_size < length PASSWORD_SHA256_PREFIX + 64 + 1 then (HYBBX_ERR_INVALID, None)
      else (HYBBX_OK, Some (c_snprintf out_size (PASSWORD_SHA256_PREFIX @ sha256_hex plain))))"

definition hybbx_password_hash :: "(string \<Rightarrow> string) \<Rightarrow> string \<Rightarrow> nat \<Rightarrow> hybbx_result \<times> string option" where
  "hybbx_password_hash sha256_hex plain out_size = hybbx_password_hash_sha256 sha256_hex plain out_size"

definition hybbx_password_match :: "(string \<Rightarrow> string) \<Rightarrow> bytes \<Rightarrow> string \<Rightarrow> string \<Rightarrow> bool" where
  "hybbx_password_match sha256_hex md5_buffer stored provided =
     (if provided = [] then False
      else if stored = [] then False
      else if has_prefix PASSWORD_SHA256_PREFIX stored then hex_string_eq (drop 8 stored) (sha256_hex provided) 64
      else if has_prefix PASSWORD_MD5_PREFIX stored then hex_string_eq (drop 5 stored) (md5_hex md5_buffer provided) 32
      else str_ieq stored provided)"

text \<open>The random source is a script of its blocks of 32 bytes, None where it fails.\<close>

definition password_alphabet :: string where
  "password_alphabet = ''abcdefghijklmnopqrstuvwxyz0123456789''"

definition crypto_random :: "bytes option list \<Rightarrow> bytes option \<times> bytes option list" where
  "crypto_random script = (case script of [] \<Rightarrow> (None, []) | r # rs \<Rightarrow> (r, rs))"

fun generate_loop :: "nat \<Rightarrow> bytes \<Rightarrow> nat \<Rightarrow> bytes option list \<Rightarrow> string \<Rightarrow> hybbx_result \<times> string" where
  "generate_loop 0 rnd rnd_off script out = (HYBBX_OK, out)"
| "generate_loop (Suc n) rnd rnd_off script out =
     (if rnd_off \<ge> 32 then
        (case crypto_random script of
           (None, script) \<Rightarrow> (HYBBX_ERR_IO, out)
         | (Some rnd, script) \<Rightarrow>
             generate_loop n rnd 1 script (out @ [password_alphabet ! (unat (rnd ! 0) mod 36)]))
      else generate_loop n rnd (rnd_off + 1) script (out @ [password_alphabet ! (unat (rnd ! rnd_off) mod 36)]))"

definition hybbx_password_generate_alnum :: "bytes option list \<Rightarrow> nat \<Rightarrow> nat \<Rightarrow> nat \<Rightarrow> hybbx_result \<times> string" where
  "hybbx_password_generate_alnum script out_size min_len max_len =
     (if out_size = 0 \<or> min_len = 0 \<or> min_len > max_len \<or> max_len \<ge> out_size then (HYBBX_ERR_INVALID, [])
      else case crypto_random script of
        (None, script) \<Rightarrow> (HYBBX_ERR_IO, [])
      | (Some rnd, script) \<Rightarrow>
          generate_loop (min_len + unat (rnd ! 0) mod (max_len - min_len + 1)) rnd 32 script [])"

section \<open>What they are good for\<close>

lemma md5_updates_final:
  assumes "length buffer = 64"
  shows "md5_finalize_hex (fold (\<lambda>data ctx. md5_update ctx data) datas (md5_init buffer))
           = concat (map hex_byte (rfc_md5 (concat datas)))"
proof -
  have "\<exists>a' r'. a' @ r' = a @ r @ concat datas \<and> md5_holds (fold (\<lambda>data ctx. md5_update ctx data) datas ctx) a' r'"
    if "md5_holds ctx a r" for ctx a r
    using that
  proof (induction datas arbitrary: ctx a r)
    case (Cons d datas)
    obtain a' r' where u: "a' @ r' = a @ r @ d" "md5_holds (md5_update ctx d) a' r'"
      using md5_update_holds [OF Cons.prems] by blast
    obtain a'' r'' where "a'' @ r'' = a' @ r' @ concat datas"
      "md5_holds (fold (\<lambda>data ctx. md5_update ctx data) datas (md5_update ctx d)) a'' r''"
      using Cons.IH [OF u(2)] by blast
    with u(1) show ?case by (metis append.assoc concat.simps(2) fold_simps(2))
  qed auto
  from this [OF md5_init_holds [OF assms]] show ?thesis by (metis append_Nil md5_final_pads)
qed

text \<open>
  C19. The digest that checks old passwords is MD5: whatever the uninitialised buffer holds and however
  the message is cut into updates, the streaming code returns the digest of RFC 1321, the padded message
  compressed block by block; the code's unrolled operations on variables whose roles rotate are the
  standard's loop with its index formulas.
\<close>

theorem md5_is_rfc1321:
  assumes "length buffer = 64"
  shows "md5_finalize_hex (fold (\<lambda>data ctx. md5_update ctx data) datas (md5_init buffer))
           = concat (map hex_byte (rfc_md5 (concat datas)))
     \<and> md5_hex buffer plain = concat (map hex_byte (rfc_md5 (bytes_of_string plain)))"
  using md5_updates_final [OF assms, of datas] md5_updates_final [OF assms, of "[bytes_of_string plain]"]
  by (simp add: md5_hex_def)

text \<open>The digest of \<open>abc\<close>, the test vector of the standard.\<close>

definition md5_abc_block :: bytes where
  "md5_abc_block = [0x61, 0x62, 0x63, 0x80] @ replicate 52 0 @ [24, 0, 0, 0, 0, 0, 0, 0]"

lemma md5_abc_words: "i < 16 \<Longrightarrow> md5_word md5_abc_block i = (if i = 0 then 0x80636261 else if i = 14 then 24 else 0)"
proof -
  have "list_all (\<lambda>i. md5_word md5_abc_block i = (if i = 0 then 0x80636261 else if i = 14 then 24 else 0)) [0..<16]"
    by (simp add: upt_rec md5_word_def md5_abc_block_def nth_append)
  then show "i < 16 \<Longrightarrow> md5_word md5_abc_block i = (if i = 0 then 0x80636261 else if i = 14 then 24 else 0)"
    by (auto simp: list_all_iff)
qed

lemmas md5_abc_step = rfc_step_def upt_rec md5_abc_words rfc_index_def rfc_shift_def rfc_T_def rfc_f_def
  md5_rotate_left_def Let_def

lemma md5_abc_0: "fold (rfc_step md5_abc_block) [0..<16] ((1732584193, 4023233417, 2562383102, 271733878) :: md5_state)
    = (3718887846, 1924133600, 3818292587, 2701465749)"
  by (simp add: md5_abc_step)

lemma md5_abc_1: "fold (rfc_step md5_abc_block) [16..<32] ((3718887846, 1924133600, 3818292587, 2701465749) :: md5_state)
    = (2030729211, 1919107795, 2787673258, 2672289016)"
  by (simp add: md5_abc_step)

lemma md5_abc_2: "fold (rfc_step md5_abc_block) [32..<48] ((2030729211, 1919107795, 2787673258, 2672289016) :: md5_state)
    = (2133741691, 2079037184, 2410570649, 2581161885)"
  by (simp add: md5_abc_step)

lemma md5_abc_3: "fold (rfc_step md5_abc_block) [48..<64] ((2133741691, 2079037184, 2410570649, 2581161885) :: md5_state)
    = (822795919, 3229755059, 3833903576, 1649249458)"
  by (simp add: md5_abc_step)

lemma md5_abc_compress: "rfc_compress (1732584193, 4023233417, 2562383102, 271733878) md5_abc_block
    = (2555380112, 2958021180, 2101319382, 1920983336)"
proof -
  have u: "[0..<64] = [0..<16] @ [16..<32] @ [32..<48] @ [48..<64 :: nat]"
    using upt_add_eq_append [of 0 16 48] upt_add_eq_append [of 16 32 32] upt_add_eq_append [of 32 48 16] by simp
  show ?thesis
    unfolding rfc_compress_def u fold_append comp_apply md5_abc_0 md5_abc_1 md5_abc_2 md5_abc_3 by simp
qed

lemma md5_abc_pad: "rfc_pad (bytes_of_string ''abc'') = md5_abc_block"
  by (simp add: rfc_pad_def md5_abc_block_def bytes_of_string_def upt_rec)

lemma md5_abc_length: "length md5_abc_block = 64" by (simp add: md5_abc_block_def)

lemma md5_abc: "concat (map hex_byte (rfc_md5 (bytes_of_string ''abc''))) = ''900150983cd24fb0d6963f7d28e17f72''"
proof -
  have "absorb rfc_compress (1732584193, 4023233417, 2562383102, 271733878) md5_abc_block
      = rfc_compress (1732584193, 4023233417, 2562383102, 271733878) md5_abc_block"
    using absorb_block [OF md5_abc_length, of rfc_compress _ "[]"] absorb_short [of "[]" rfc_compress] by simp
  then show ?thesis
    unfolding rfc_md5_def md5_abc_pad
    by (simp add: md5_abc_compress md5_encode_def md5_encode_word_def hex_byte_def hex_char_def char_of_def bit_0)
qed

theorem md5_is_rfc1321_witness:
  "md5_hex (replicate 64 0xAA) ''abc'' = ''900150983cd24fb0d6963f7d28e17f72''"
  using md5_is_rfc1321 [of "replicate 64 0xAA" "[]" "''abc''"] by (simp add: md5_abc)

text \<open>What the library promises of a digest: 64 lower case hexadecimal digits.\<close>

definition hex_digest :: "string \<Rightarrow> bool" where
  "hex_digest s \<longleftrightarrow> length s = 64 \<and> list_all (\<lambda>c. c \<in> set ''0123456789abcdef'') s"

lemma hex_digest_char:
  assumes "c \<in> set ''0123456789abcdef''"
  shows "0 \<le> hex_digit c" and "c_tolower c = c"
  using assms by (auto simp: hex_digit_def c_isdigit_def c_tolower_def c_isupper_def)

lemma hex_string_eq_digests:
  assumes "hex_digest a" and "hex_digest b"
  shows "hex_string_eq a b 64 \<longleftrightarrow> a = b"
proof -
  have "c_tolower (str_at s i) = s ! i" if "hex_digest s" "i < 64" for s i
    using that by (auto simp: hex_digest_def list_all_length str_at_def hex_digest_char)
  then have "hex_string_eq a b 64 \<longleftrightarrow> (\<forall>i < 64. a ! i = b ! i)"
    using assms by (auto simp: hex_string_eq_def list_all_iff)
  moreover have "length a = 64" "length b = 64" using assms by (simp_all add: hex_digest_def)
  ultimately show ?thesis by (simp add: list_eq_iff_nth_eq [of a b])
qed

lemma hex_string_valid_digest: "hex_digest s \<Longrightarrow> hex_string_valid s 64"
  by (auto simp: hex_string_valid_def hex_digest_def list_all_length str_at_def hex_digest_char)

text \<open>
  C20. A password that is stored hashed is a hashed entry that fits the user record and is no longer
  plain; later exactly the non-empty passwords of the same digest match it, whatever MD5's buffer holds.
\<close>

theorem password_hash_then_match:
  assumes "\<And>p. hex_digest (sha256_hex p)"
  shows "\<exists>stored. hybbx_password_hash sha256_hex plain USER_PASSWORD_MAX = (HYBBX_OK, Some stored)
     \<and> length stored < USER_PASSWORD_MAX \<and> hybbx_password_is_hashed stored \<and> \<not> hybbx_password_is_plain stored
     \<and> (hybbx_password_match sha256_hex md5_buffer stored provided
          \<longleftrightarrow> provided \<noteq> [] \<and> sha256_hex provided = sha256_hex plain)"
proof (intro exI [of _ "PASSWORD_SHA256_PREFIX @ sha256_hex plain"] conjI)
  let ?s = "PASSWORD_SHA256_PREFIX @ sha256_hex plain"
  have l: "length (sha256_hex plain) = 64" using assms by (simp add: hex_digest_def)
  then show "hybbx_password_hash sha256_hex plain USER_PASSWORD_MAX = (HYBBX_OK, Some ?s)" "length ?s < USER_PASSWORD_MAX"
    by (simp_all add: hybbx_password_hash_def hybbx_password_hash_sha256_def USER_PASSWORD_MAX_def
        PASSWORD_SHA256_PREFIX_def c_snprintf_def)
  have d: "drop 8 ?s = sha256_hex plain" "has_prefix PASSWORD_SHA256_PREFIX ?s" "?s \<noteq> []"
    by (simp_all add: PASSWORD_SHA256_PREFIX_def has_prefix_def)
  show h: "hybbx_password_is_hashed ?s"
    unfolding hybbx_password_is_hashed_def using d assms hex_string_valid_digest by simp
  then show "\<not> hybbx_password_is_plain ?s" by (simp add: hybbx_password_is_plain_def)
  show "hybbx_password_match sha256_hex md5_buffer ?s provided
          \<longleftrightarrow> provided \<noteq> [] \<and> sha256_hex provided = sha256_hex plain"
    unfolding hybbx_password_match_def d(1) using d(2,3) hex_string_eq_digests [OF assms assms] by auto
qed

theorem password_hash_then_match_witness:
  "hybbx_password_match (\<lambda>p. replicate 63 CHR ''0'' @ [hex_char (length p mod 16)]) []
     (PASSWORD_SHA256_PREFIX @ replicate 63 CHR ''0'' @ ''8'') ''password'' = True"
proof -
  let ?h = "\<lambda>p :: string. replicate 63 CHR ''0'' @ [hex_char (length p mod 16)]"
  have "list_all (\<lambda>n. hex_char n \<in> set ''0123456789abcdef'') [0..<16]"
    by code_simp
  then have "hex_digest (?h p)" for p by (simp add: hex_digest_def list_all_iff)
  note p = password_hash_then_match [of ?h "''password''" "[]" "''password''", OF this]
  have "hybbx_password_hash ?h ''password'' USER_PASSWORD_MAX
      = (HYBBX_OK, Some (PASSWORD_SHA256_PREFIX @ replicate 63 CHR ''0'' @ ''8''))"
    by (simp add: hybbx_password_hash_def hybbx_password_hash_sha256_def USER_PASSWORD_MAX_def
        PASSWORD_SHA256_PREFIX_def c_snprintf_def hex_char_def char_of_def bit_0)
  with p show ?thesis by auto
qed

text \<open>
  An entry without a known prefix is compared as it stands and in any letter case: a legacy plain
  password lets in every capitalisation of it, and so does a damaged entry.
\<close>

theorem plain_password_any_case:
  assumes "stored \<noteq> []" and "\<not> has_prefix PASSWORD_SHA256_PREFIX stored" and "\<not> has_prefix PASSWORD_MD5_PREFIX stored"
  shows "hybbx_password_is_plain stored
     \<and> (hybbx_password_match sha256_hex md5_buffer stored provided
          \<longleftrightarrow> map c_tolower stored = map c_tolower provided)"
  using assms by (auto simp: hybbx_password_is_plain_def hybbx_password_is_hashed_def hybbx_password_match_def
      str_ieq_iff)

theorem plain_password_any_case_witness:
  "hybbx_password_match (\<lambda>p. []) [] ''Secret42'' ''sECRET42''"
  using plain_password_any_case [of "''Secret42''" "\<lambda>p. []" "[]" "''sECRET42''"]
  by (simp add: has_prefix_def PASSWORD_SHA256_PREFIX_def PASSWORD_MD5_PREFIX_def c_tolower_def c_isupper_def char_of_def bit_0)

text \<open>The random source delivers: every request fills its 32 bytes.\<close>

definition random_ok :: "bytes option list \<Rightarrow> bool" where
  "random_ok script \<longleftrightarrow> list_all (\<lambda>r. r \<noteq> None \<and> length (the r) = 32) script"

lemma generate_loop_result:
  "generate_loop n rnd rnd_off script out = (HYBBX_OK, out') \<Longrightarrow>
   length out' = length out + n \<and> (\<exists>cs. out' = out @ cs \<and> set cs \<subseteq> set password_alphabet)"
proof (induction n rnd rnd_off script out rule: generate_loop.induct)
  case (2 n rnd rnd_off script out)
  have a: "password_alphabet ! (m mod 36) \<in> set password_alphabet" for m
    by (rule nth_mem) (simp add: password_alphabet_def)
  show ?case
    using 2 a by (auto split: if_splits option.splits prod.splits)
qed auto

lemma generate_loop_succeeds:
  "random_ok script \<Longrightarrow> n + rnd_off \<le> 32 + 32 * length script \<Longrightarrow>
   fst (generate_loop n rnd rnd_off script out) = HYBBX_OK"
proof (induction n rnd rnd_off script out rule: generate_loop.induct)
  case (2 n rnd rnd_off script out)
  show ?case
  proof (cases "rnd_off \<ge> 32")
    case True
    with "2.prems"(2) obtain r rs where s: "script = r # rs" by (cases script) auto
    with "2.prems"(1) obtain b where r: "r = Some b" "random_ok rs" by (auto simp: random_ok_def)
    have c: "crypto_random script = (Some b, rs)" by (simp add: crypto_random_def s r)
    show ?thesis using "2.IH"(1) [OF True c [symmetric] refl r(2)] "2.prems"(2) True c by (simp add: s)
  next
    case False
    with "2.IH"(2) "2.prems" show ?thesis by simp
  qed
qed simp

text \<open>
  A generated password has a length between the bounds and only characters of the alphabet; the
  generator fails only when the random source does, and then a source of enough blocks makes it succeed.
\<close>

theorem generated_password_shape:
  assumes "min_len \<le> max_len" and "0 < min_len" and "max_len < out_size"
    and "random_ok script" and "max_len div 32 + 2 \<le> length script"
  shows "\<exists>out. hybbx_password_generate_alnum script out_size min_len max_len = (HYBBX_OK, out)
     \<and> min_len \<le> length out \<and> length out \<le> max_len \<and> set out \<subseteq> set password_alphabet"
proof -
  obtain r rs where s: "script = r # rs" using assms(5) by (cases script) auto
  with assms(4) obtain b where r: "r = Some b" "random_ok rs" by (auto simp: random_ok_def)
  let ?n = "min_len + unat (b ! 0) mod (max_len - min_len + 1)"
  have "unat (b ! 0) mod (max_len - min_len + 1) < max_len - min_len + 1"
    by (rule mod_less_divisor) simp
  then have n: "min_len \<le> ?n" "?n \<le> max_len" using assms(1) by linarith+
  have "max_len \<le> 32 * length rs" using assms(5) s by simp
  then have "fst (generate_loop ?n b 32 rs []) = HYBBX_OK"
    using generate_loop_succeeds [OF r(2)] n(2) by simp
  then obtain out where g: "generate_loop ?n b 32 rs [] = (HYBBX_OK, out)" by (metis prod.collapse)
  then have "hybbx_password_generate_alnum script out_size min_len max_len = (HYBBX_OK, out)"
    using assms by (simp add: hybbx_password_generate_alnum_def crypto_random_def s r)
  with generate_loop_result [OF g] n show ?thesis by auto
qed

theorem generated_password_shape_witness:
  "fst (hybbx_password_generate_alnum (replicate 2 (Some (replicate 32 7))) 25 8 24) = HYBBX_OK"
  using generated_password_shape [of 8 24 25 "replicate 2 (Some (replicate 32 7))"]
  by (auto simp: random_ok_def list_all_iff)

end
