(* ===== verification/Commands_Registry.thy ===== *)
theory Commands_Registry imports Config Command_Parse Auth begin

text \<open>
  The command registry, \<^verbatim>\<open>src/core/commands_registry.c\<close>: the readers of \<^verbatim>\<open>areas.yaml\<close> and
  \<^verbatim>\<open>commands.yaml\<close> line by line, the lookup of verbs and aliases, who may use a command or act on
  an account, and the menus.  A line reader returns None when the code would not come back (a list in
  brackets that holds a tab).  A pointer to the entry that is being filled is its index; the lines
  written to a session are returned as a list.
\<close>

definition COMMANDS_MAX :: nat where "COMMANDS_MAX = 64"
definition AREAS_MAX :: nat where "AREAS_MAX = 12"
definition AREAS_SUB_MAX :: nat where "AREAS_SUB_MAX = 4"
definition COMMANDS_VERBS_PER_GROUP :: nat where "COMMANDS_VERBS_PER_GROUP = 16"
definition COMMANDS_ALIASES_MAX :: nat where "COMMANDS_ALIASES_MAX = 48"
definition COMMANDS_ALIAS_PER :: nat where "COMMANDS_ALIAS_PER = 8"
definition COMMANDS_ALIAS_LINES :: nat where "COMMANDS_ALIAS_LINES = 8"
definition MENU_LEVELS_MAX :: nat where "MENU_LEVELS_MAX = 5"
definition MENU_AREAS_PER_LEVEL :: nat where "MENU_AREAS_PER_LEVEL = 12"
definition RIGHTS_TARGET_RULES_MAX :: nat where "RIGHTS_TARGET_RULES_MAX = 16"
definition RIGHTS_PROMOTE_RULES_MAX :: nat where "RIGHTS_PROMOTE_RULES_MAX = 8"
definition RIGHTS_DEMOTE_RULES_MAX :: nat where "RIGHTS_DEMOTE_RULES_MAX = 4"
definition COMMANDS_HELP_LINE_MAX :: nat where "COMMANDS_HELP_LINE_MAX = 96"
definition COMMANDS_HEADER_MAX :: nat where "COMMANDS_HEADER_MAX = 128"
definition CMD_VERB_MAX :: nat where "CMD_VERB_MAX = 32"
definition LABEL_MAX :: nat where "LABEL_MAX = 16"
definition TEXT_LINE_MAX :: nat where "TEXT_LINE_MAX = 80"

lemmas registry_consts = COMMANDS_MAX_def AREAS_MAX_def AREAS_SUB_MAX_def COMMANDS_VERBS_PER_GROUP_def
  COMMANDS_ALIASES_MAX_def COMMANDS_ALIAS_PER_def COMMANDS_ALIAS_LINES_def MENU_LEVELS_MAX_def
  MENU_AREAS_PER_LEVEL_def RIGHTS_TARGET_RULES_MAX_def RIGHTS_PROMOTE_RULES_MAX_def RIGHTS_DEMOTE_RULES_MAX_def
  COMMANDS_HELP_LINE_MAX_def COMMANDS_HEADER_MAX_def CMD_VERB_MAX_def LABEL_MAX_def TEXT_LINE_MAX_def

section \<open>The registry\<close>

record menu_area =
  ma_label :: string
  ma_verbs :: "string list"
  ma_subareas :: "string list list"

record alias_entry =
  ae_canonical :: string
  ae_aliases :: "string list"

record target_right_rule =
  tr_actor :: user_level
  tr_targets :: "user_level list"

record promote_right_rule =
  pr_actor :: user_level
  pr_to_level :: user_level
  pr_from_levels :: "user_level list"

record demote_right_rule =
  dr_actor :: user_level
  dr_from_levels :: "user_level list"

record command_def =
  cd_verb :: string
  cd_group :: string
  cd_min_level :: user_level
  cd_max_level :: user_level
  cd_only_level :: user_level
  cd_line1 :: string
  cd_line2 :: string

text \<open>The arrays \<open>menu_levels\<close>, \<open>menu_area_labels\<close> and \<open>menu_area_count\<close> run in parallel: one list of pairs.\<close>

record commands_registry =
  cr_loaded :: bool
  cr_menu_header :: string
  cr_index_header :: string
  cr_alias_header :: string
  cr_areas :: "menu_area list"
  cr_menu :: "(string \<times> string list) list"
  cr_index_labels :: "string list"
  cr_userchange_rules :: "target_right_rule list"
  cr_userdelete_rules :: "target_right_rule list"
  cr_delete_rules :: "target_right_rule list"
  cr_promote_rules :: "promote_right_rule list"
  cr_demote_rules :: "demote_right_rule list"
  cr_aliases :: "alias_entry list"
  cr_commands :: "command_def list"
  cr_alias_lines :: "string list"

definition registry_zero :: commands_registry where
  "registry_zero =
     \<lparr>cr_loaded = False, cr_menu_header = [], cr_index_header = [], cr_alias_header = [], cr_areas = [],
      cr_menu = [], cr_index_labels = [], cr_userchange_rules = [], cr_userdelete_rules = [], cr_delete_rules = [],
      cr_promote_rules = [], cr_demote_rules = [], cr_aliases = [], cr_commands = [], cr_alias_lines = []\<rparr>"

definition hybbx_commands_registry_shutdown :: commands_registry where
  "hybbx_commands_registry_shutdown = registry_zero"

section \<open>Pieces of a line\<close>

definition yaml_strip_quotes :: "string \<Rightarrow> string" where
  "yaml_strip_quotes s = strip_quotes (trim_inplace s)"

definition line_indent :: "string \<Rightarrow> nat" where
  "line_indent line = length (takeWhile (\<lambda>c. c = CHR '' '') line)"

definition line_key :: "string \<Rightarrow> string" where
  "line_key line = dropWhile (\<lambda>c. c = CHR '' '') line"

text \<open>The key before the first colon and the text behind it without its quotes.\<close>

definition key_and_text :: "string \<Rightarrow> (string \<times> string) option" where
  "key_and_text line =
     (if CHR '':'' \<notin> set line then None
      else Some (line_key (takeWhile (\<lambda>c. c \<noteq> CHR '':'') line),
                 yaml_strip_quotes (tl (dropWhile (\<lambda>c. c \<noteq> CHR '':'') line))))"

definition list_separator :: "char \<Rightarrow> bool" where
  "list_separator c \<longleftrightarrow> c = CHR '' '' \<or> c = CHR '',''"

definition list_token :: "string \<Rightarrow> string" where
  "list_token p =
     take (CMD_VERB_MAX - 1) (takeWhile (\<lambda>c. c \<noteq> CHR '','' \<and> c \<noteq> CHR '']'' \<and> \<not> c_isspace c) p)"

partial_function (option) bracket_loop :: "nat \<Rightarrow> string \<Rightarrow> string list \<Rightarrow> (int \<times> string list) option" where
  "bracket_loop cap p out =
     (if dropWhile list_separator p = [] then Some (0, out)
      else if hd (dropWhile list_separator p) = CHR '']'' then Some (0, out)
      else if list_token (dropWhile list_separator p) = [] then bracket_loop cap (dropWhile list_separator p) out
      else if length out \<ge> cap then Some (- 1, out)
      else bracket_loop cap
             (drop (length (list_token (dropWhile list_separator p))) (dropWhile list_separator p))
             (out @ [list_token (dropWhile list_separator p)]))"

declare bracket_loop.simps [code]

definition parse_bracket_list :: "nat \<Rightarrow> string \<Rightarrow> (int \<times> string list) option" where
  "parse_bracket_list cap text =
     (if CHR ''['' \<notin> set text then Some (0, [])
      else bracket_loop cap (tl (dropWhile (\<lambda>c. c \<noteq> CHR ''['') text)) [])"

text \<open>The list of levels, the old one when there are too many.\<close>

definition parse_level_list :: "nat \<Rightarrow> string \<Rightarrow> user_level list \<Rightarrow> user_level list option" where
  "parse_level_list cap text old =
     (case parse_bracket_list cap text of
        None \<Rightarrow> None
      | Some (rc, tokens) \<Rightarrow> Some (if rc \<noteq> 0 then old else map hybbx_user_level_parse tokens))"

text \<open>The lines as \<^verbatim>\<open>fgets\<close> hands them out.\<close>

function fgets_lines :: "string \<Rightarrow> string list" where
  "fgets_lines text =
     (if text = [] then []
      else fst (c_fgets CONFIG_LINE_MAX text) # fgets_lines (snd (c_fgets CONFIG_LINE_MAX text)))"
  by auto
termination
  by (relation "measure length") (auto simp: c_fgets_def Let_def CONFIG_LINE_MAX_def)

declare fgets_lines.simps [simp del]

fun fold_option :: "('a \<Rightarrow> 's \<Rightarrow> 's option) \<Rightarrow> 'a list \<Rightarrow> 's \<Rightarrow> 's option" where
  "fold_option f [] s = Some s"
| "fold_option f (x # xs) s = (case f x s of None \<Rightarrow> None | Some s' \<Rightarrow> fold_option f xs s')"

definition blank_or_comment :: "string \<Rightarrow> bool" where
  "blank_or_comment line \<longleftrightarrow> line = [] \<or> hd line = CHR ''#''"

definition ends_with_colon :: "string \<Rightarrow> bool" where
  "ends_with_colon line \<longleftrightarrow> line \<noteq> [] \<and> List.last line = CHR '':''"

section \<open>areas.yaml\<close>

datatype areas_section = ASEC_NONE | ASEC_META | ASEC_AREAS | ASEC_MENU | ASEC_INDEX

record areas_state =
  as_section :: areas_section
  as_area :: "nat option"
  as_subarea :: "(nat \<times> nat) option"
  as_menu_level :: string
  as_reg :: commands_registry

definition set_area :: "nat \<Rightarrow> (menu_area \<Rightarrow> menu_area) \<Rightarrow> commands_registry \<Rightarrow> commands_registry" where
  "set_area i f reg = reg\<lparr>cr_areas := (cr_areas reg)[i := f (cr_areas reg ! i)]\<rparr>"

text \<open>A line \<open>label: x\<close> or \<open>commands: [x, y]\<close> for the area \<open>i\<close>.\<close>

definition area_field :: "nat \<Rightarrow> string \<Rightarrow> areas_state \<Rightarrow> areas_state option" where
  "area_field i line st =
     (case key_and_text line of
        None \<Rightarrow> Some st
      | Some (key, text) \<Rightarrow>
          if str_ieq key ''label'' then Some (st\<lparr>as_reg := set_area i (ma_label_update (\<lambda>_. str_store LABEL_MAX text)) (as_reg st)\<rparr>)
          else if str_ieq key ''commands'' then
            (case parse_bracket_list COMMANDS_VERBS_PER_GROUP text of
               None \<Rightarrow> None
             | Some (rc, verbs) \<Rightarrow> Some (st\<lparr>as_reg := set_area i (ma_verbs_update (\<lambda>_. verbs)) (as_reg st)\<rparr>))
          else Some st)"

definition areas_meta_line :: "string \<Rightarrow> areas_state \<Rightarrow> areas_state" where
  "areas_meta_line line st =
     (case key_and_text line of
        None \<Rightarrow> st
      | Some (key, text) \<Rightarrow>
          let s = str_store COMMANDS_HEADER_MAX text; reg = as_reg st in
          if str_ieq key ''menu_header'' then st\<lparr>as_reg := reg\<lparr>cr_menu_header := s\<rparr>\<rparr>
          else if str_ieq key ''index_header'' then st\<lparr>as_reg := reg\<lparr>cr_index_header := s\<rparr>\<rparr>
          else if str_ieq key ''alias_header'' then st\<lparr>as_reg := reg\<lparr>cr_alias_header := s\<rparr>\<rparr>
          else st)"

definition areas_area_line :: "nat \<Rightarrow> string \<Rightarrow> areas_state \<Rightarrow> areas_state option" where
  "areas_area_line indent line st =
     (let reg = as_reg st; n = length (cr_areas reg) in
      if indent = 2 \<and> hd line = CHR ''-'' then
        (if n \<ge> AREAS_MAX then Some st
         else area_field n (trim_inplace (tl line))
                (st\<lparr>as_area := Some n, as_subarea := None,
                   as_reg := reg\<lparr>cr_areas := cr_areas reg @ [\<lparr>ma_label = [], ma_verbs = [], ma_subareas = []\<rparr>]\<rparr>\<rparr>))
      else case as_area st of
        None \<Rightarrow> Some st
      | Some i \<Rightarrow>
          if indent = 4 \<and> hd line = CHR ''-'' then
            (let m = length (ma_subareas (cr_areas reg ! i)) in
             if m < AREAS_SUB_MAX then
               Some (st\<lparr>as_subarea := Some (i, m),
                  as_reg := set_area i (ma_subareas_update (\<lambda>ss. ss @ [[]])) reg\<rparr>)
             else Some st)
          else if indent \<ge> 4 then area_field i line st
          else if indent \<ge> 6 \<and> as_subarea st \<noteq> None then
            (case key_and_text line of
               None \<Rightarrow> Some st
             | Some (key, text) \<Rightarrow>
                 if str_ieq key ''commands'' then
                   (case parse_bracket_list COMMANDS_VERBS_PER_GROUP text of
                      None \<Rightarrow> None
                    | Some (rc, verbs) \<Rightarrow>
                        (case the (as_subarea st) of (a, s) \<Rightarrow>
                           Some (st\<lparr>as_reg := set_area a (ma_subareas_update (\<lambda>ss. ss[s := verbs])) reg\<rparr>)))
                 else Some st)
          else Some st)"

definition areas_menu_line :: "nat \<Rightarrow> string \<Rightarrow> areas_state \<Rightarrow> areas_state" where
  "areas_menu_line indent line st =
     (let reg = as_reg st in
      if indent = 2 \<and> ends_with_colon line then
        (let name = str_store LABEL_MAX (line_key (butlast line)) in
         if length (cr_menu reg) < MENU_LEVELS_MAX
         then st\<lparr>as_menu_level := name, as_reg := reg\<lparr>cr_menu := cr_menu reg @ [(name, [])]\<rparr>\<rparr>
         else st)
      else if indent \<ge> 4 \<and> hd line = CHR ''-'' \<and> as_menu_level st \<noteq> [] then
        (case find_slot (\<lambda>e. str_ieq (fst e) (as_menu_level st)) (cr_menu reg) of
           None \<Rightarrow> st
         | Some i \<Rightarrow>
             (case cr_menu reg ! i of (name, labels) \<Rightarrow>
                if length labels \<ge> MENU_AREAS_PER_LEVEL then st
                else st\<lparr>as_reg := reg\<lparr>cr_menu :=
                       (cr_menu reg)[i := (name, labels @ [str_store LABEL_MAX (trim_inplace (tl line))])]\<rparr>\<rparr>))
      else st)"

definition areas_section_of :: "string \<Rightarrow> areas_section" where
  "areas_section_of name =
     (if str_ieq name ''meta'' then ASEC_META else if str_ieq name ''areas'' then ASEC_AREAS
      else if str_ieq name ''menu'' then ASEC_MENU else if str_ieq name ''index'' then ASEC_INDEX else ASEC_NONE)"

definition areas_line :: "string \<Rightarrow> areas_state \<Rightarrow> areas_state option" where
  "areas_line buf st =
     (let indent = line_indent buf; line = trim_inplace buf; reg = as_reg st in
      if blank_or_comment line then Some st
      else if indent = 0 \<and> ends_with_colon line then
        Some (st\<lparr>as_area := None, as_subarea := None, as_menu_level := [], as_section := areas_section_of (butlast line)\<rparr>)
      else if as_section st = ASEC_META \<and> indent \<ge> 2 then Some (areas_meta_line line st)
      else if as_section st = ASEC_AREAS then areas_area_line indent line st
      else if as_section st = ASEC_MENU then Some (areas_menu_line indent line st)
      else if as_section st = ASEC_INDEX \<and> indent \<ge> 2 \<and> hd line = CHR ''-'' then
        (if length (cr_index_labels reg) < MENU_AREAS_PER_LEVEL
         then Some (st\<lparr>as_reg := reg\<lparr>cr_index_labels :=
                cr_index_labels reg @ [str_store LABEL_MAX (trim_inplace (tl line))]\<rparr>\<rparr>)
         else Some st)
      else Some st)"

definition parse_areas_yaml :: "string option \<Rightarrow> commands_registry \<Rightarrow> (hybbx_result \<times> commands_registry) option" where
  "parse_areas_yaml file reg =
     (case file of
        None \<Rightarrow> Some (HYBBX_ERR_IO, reg)
      | Some text \<Rightarrow>
          (case fold_option areas_line (fgets_lines text)
                  \<lparr>as_section = ASEC_NONE, as_area = None, as_subarea = None, as_menu_level = [], as_reg = reg\<rparr> of
             None \<Rightarrow> None
           | Some st \<Rightarrow>
               let reg = as_reg st in
               if cr_menu_header reg = [] \<or> cr_index_header reg = [] \<or> cr_areas reg = []
               then Some (HYBBX_ERR_INVALID, reg)
               else if cr_index_labels reg = [] then
                 Some (HYBBX_OK, reg\<lparr>cr_index_labels :=
                    map (\<lambda>a. str_store LABEL_MAX (ma_label a)) (take MENU_AREAS_PER_LEVEL (cr_areas reg))\<rparr>)
               else Some (HYBBX_OK, reg)))"

section \<open>commands.yaml\<close>

datatype commands_section = CSEC_NONE | CSEC_RIGHTS | CSEC_ALIASES | CSEC_COMMANDS
datatype right_kind =
    RIGHT_NONE | RIGHT_USERCHANGE | RIGHT_USERDELETE | RIGHT_DELETE | RIGHT_PROMOTE | RIGHT_DEMOTE

record commands_state =
  cs_section :: commands_section
  cs_right :: right_kind
  cs_alias :: string
  cs_cmd :: "nat option"
  cs_target :: "(right_kind \<times> nat) option"
  cs_promote :: "nat option"
  cs_demote :: "nat option"
  cs_reg :: commands_registry

definition commands_start :: "commands_registry \<Rightarrow> commands_state" where
  "commands_start reg =
     \<lparr>cs_section = CSEC_NONE, cs_right = RIGHT_NONE, cs_alias = [], cs_cmd = None, cs_target = None,
      cs_promote = None, cs_demote = None, cs_reg = reg\<rparr>"

definition target_zero :: target_right_rule where "target_zero = \<lparr>tr_actor = LEVEL_NONE, tr_targets = []\<rparr>"
definition promote_zero :: promote_right_rule where
  "promote_zero = \<lparr>pr_actor = LEVEL_NONE, pr_to_level = LEVEL_NONE, pr_from_levels = []\<rparr>"
definition demote_zero :: demote_right_rule where "demote_zero = \<lparr>dr_actor = LEVEL_NONE, dr_from_levels = []\<rparr>"

definition right_kind_of :: "string \<Rightarrow> right_kind" where
  "right_kind_of name =
     (if str_ieq name ''userchange'' then RIGHT_USERCHANGE else if str_ieq name ''userdelete'' then RIGHT_USERDELETE
      else if str_ieq name ''delete'' then RIGHT_DELETE else if str_ieq name ''promote'' then RIGHT_PROMOTE
      else if str_ieq name ''demote'' then RIGHT_DEMOTE else RIGHT_NONE)"

text \<open>A line that begins with a dash adds an empty rule; what stands behind the dash is not looked at.\<close>

definition right_dash_line :: "commands_state \<Rightarrow> commands_state" where
  "right_dash_line st =
     (let reg = cs_reg st in
      case cs_right st of
        RIGHT_USERCHANGE \<Rightarrow>
          if length (cr_userchange_rules reg) < RIGHTS_TARGET_RULES_MAX then
            st\<lparr>cs_target := Some (RIGHT_USERCHANGE, length (cr_userchange_rules reg)),
               cs_reg := reg\<lparr>cr_userchange_rules := cr_userchange_rules reg @ [target_zero]\<rparr>\<rparr>
          else st
      | RIGHT_USERDELETE \<Rightarrow>
          if length (cr_userdelete_rules reg) < RIGHTS_TARGET_RULES_MAX then
            st\<lparr>cs_target := Some (RIGHT_USERDELETE, length (cr_userdelete_rules reg)),
               cs_reg := reg\<lparr>cr_userdelete_rules := cr_userdelete_rules reg @ [target_zero]\<rparr>\<rparr>
          else st
      | RIGHT_DELETE \<Rightarrow>
          if length (cr_delete_rules reg) < RIGHTS_TARGET_RULES_MAX then
            st\<lparr>cs_target := Some (RIGHT_DELETE, length (cr_delete_rules reg)),
               cs_reg := reg\<lparr>cr_delete_rules := cr_delete_rules reg @ [target_zero]\<rparr>\<rparr>
          else st
      | RIGHT_PROMOTE \<Rightarrow>
          if length (cr_promote_rules reg) < RIGHTS_PROMOTE_RULES_MAX then
            st\<lparr>cs_promote := Some (length (cr_promote_rules reg)),
               cs_reg := reg\<lparr>cr_promote_rules := cr_promote_rules reg @ [promote_zero]\<rparr>\<rparr>
          else st
      | RIGHT_DEMOTE \<Rightarrow>
          if length (cr_demote_rules reg) < RIGHTS_DEMOTE_RULES_MAX then
            st\<lparr>cs_demote := Some (length (cr_demote_rules reg)),
               cs_reg := reg\<lparr>cr_demote_rules := cr_demote_rules reg @ [demote_zero]\<rparr>\<rparr>
          else st
      | RIGHT_NONE \<Rightarrow> st)"

definition list_modify :: "nat \<Rightarrow> ('a \<Rightarrow> 'a) \<Rightarrow> 'a list \<Rightarrow> 'a list" where
  "list_modify i f xs = xs[i := f (xs ! i)]"

definition set_target :: "right_kind \<times> nat \<Rightarrow> (target_right_rule \<Rightarrow> target_right_rule) \<Rightarrow> commands_registry \<Rightarrow> commands_registry" where
  "set_target p f reg =
     (case p of
        (RIGHT_USERCHANGE, i) \<Rightarrow> reg\<lparr>cr_userchange_rules := list_modify i f (cr_userchange_rules reg)\<rparr>
      | (RIGHT_USERDELETE, i) \<Rightarrow> reg\<lparr>cr_userdelete_rules := list_modify i f (cr_userdelete_rules reg)\<rparr>
      | (RIGHT_DELETE, i) \<Rightarrow> reg\<lparr>cr_delete_rules := list_modify i f (cr_delete_rules reg)\<rparr>
      | _ \<Rightarrow> reg)"

definition get_target :: "right_kind \<times> nat \<Rightarrow> commands_registry \<Rightarrow> target_right_rule" where
  "get_target p reg =
     (case p of
        (RIGHT_USERCHANGE, i) \<Rightarrow> cr_userchange_rules reg ! i
      | (RIGHT_USERDELETE, i) \<Rightarrow> cr_userdelete_rules reg ! i
      | (RIGHT_DELETE, i) \<Rightarrow> cr_delete_rules reg ! i
      | _ \<Rightarrow> target_zero)"

definition target_field :: "right_kind \<times> nat \<Rightarrow> string \<Rightarrow> string \<Rightarrow> commands_registry \<Rightarrow> commands_registry option" where
  "target_field p key text reg =
     (if str_ieq key ''actor'' then Some (set_target p (tr_actor_update (\<lambda>_. hybbx_user_level_parse text)) reg)
      else if str_ieq key ''targets'' then
        (case parse_level_list 5 text (tr_targets (get_target p reg)) of
           None \<Rightarrow> None | Some ls \<Rightarrow> Some (set_target p (tr_targets_update (\<lambda>_. ls)) reg))
      else Some reg)"

definition promote_field :: "nat \<Rightarrow> string \<Rightarrow> string \<Rightarrow> commands_registry \<Rightarrow> commands_registry option" where
  "promote_field i key text reg =
     (let put = (\<lambda>f. reg\<lparr>cr_promote_rules := list_modify i f (cr_promote_rules reg)\<rparr>) in
      if str_ieq key ''actor'' then Some (put (pr_actor_update (\<lambda>_. hybbx_user_level_parse text)))
      else if str_ieq key ''to'' then Some (put (pr_to_level_update (\<lambda>_. hybbx_user_level_parse text)))
      else if str_ieq key ''from'' then
        (case parse_level_list 4 text (pr_from_levels (cr_promote_rules reg ! i)) of
           None \<Rightarrow> None | Some ls \<Rightarrow> Some (put (pr_from_levels_update (\<lambda>_. ls))))
      else Some reg)"

definition demote_field :: "nat \<Rightarrow> string \<Rightarrow> string \<Rightarrow> commands_registry \<Rightarrow> commands_registry option" where
  "demote_field i key text reg =
     (let put = (\<lambda>f. reg\<lparr>cr_demote_rules := list_modify i f (cr_demote_rules reg)\<rparr>) in
      if str_ieq key ''actor'' then Some (put (dr_actor_update (\<lambda>_. hybbx_user_level_parse text)))
      else if str_ieq key ''from'' then
        (case parse_level_list 4 text (dr_from_levels (cr_demote_rules reg ! i)) of
           None \<Rightarrow> None | Some ls \<Rightarrow> Some (put (dr_from_levels_update (\<lambda>_. ls))))
      else Some reg)"

definition with_reg :: "commands_state \<Rightarrow> commands_registry option \<Rightarrow> commands_state option" where
  "with_reg st r = map_option (\<lambda>reg. st\<lparr>cs_reg := reg\<rparr>) r"

definition rights_line :: "nat \<Rightarrow> string \<Rightarrow> commands_state \<Rightarrow> commands_state option" where
  "rights_line indent line st =
     (if indent = 2 \<and> ends_with_colon line then
        Some (st\<lparr>cs_target := None, cs_promote := None, cs_demote := None,
                 cs_right := right_kind_of (line_key (butlast line))\<rparr>)
      else if indent = 4 \<and> hd line = CHR ''-'' then Some (right_dash_line st)
      else if indent \<ge> 6 then
        (case key_and_text line of
           None \<Rightarrow> Some st
         | Some (key, text) \<Rightarrow>
             (case cs_target st of
                Some p \<Rightarrow> with_reg st (target_field p key text (cs_reg st))
              | None \<Rightarrow>
                  (case cs_promote st of
                     Some i \<Rightarrow> with_reg st (promote_field i key text (cs_reg st))
                   | None \<Rightarrow>
                       (case cs_demote st of
                          Some i \<Rightarrow> with_reg st (demote_field i key text (cs_reg st))
                        | None \<Rightarrow> Some st))))
      else Some st)"

definition aliases_line :: "nat \<Rightarrow> string \<Rightarrow> commands_state \<Rightarrow> commands_state" where
  "aliases_line indent line st =
     (let reg = cs_reg st; n = length (cr_aliases reg) in
      if indent = 2 \<and> ends_with_colon line then
        (if n \<ge> COMMANDS_ALIASES_MAX then st
         else let name = str_store CMD_VERB_MAX (line_key (butlast line))
              in st\<lparr>cs_alias := name, cs_reg := reg\<lparr>cr_aliases := cr_aliases reg @ [\<lparr>ae_canonical = name, ae_aliases = []\<rparr>]\<rparr>\<rparr>)
      else if indent \<ge> 4 \<and> hd line = CHR ''-'' \<and> cs_alias st \<noteq> [] then
        (if length (ae_aliases (cr_aliases reg ! (n - 1))) < COMMANDS_ALIAS_PER then
           st\<lparr>cs_reg := reg\<lparr>cr_aliases := list_modify (n - 1)
                (ae_aliases_update (\<lambda>as. as @ [str_store CMD_VERB_MAX (yaml_strip_quotes (trim_inplace (tl line)))]))
                (cr_aliases reg)\<rparr>\<rparr>
         else st)
      else st)"

definition command_field :: "nat \<Rightarrow> string \<Rightarrow> string \<Rightarrow> commands_registry \<Rightarrow> commands_registry" where
  "command_field i key text reg =
     (let put = (\<lambda>f. reg\<lparr>cr_commands := list_modify i f (cr_commands reg)\<rparr>) in
      if str_ieq key ''group'' then put (cd_group_update (\<lambda>_. str_store LABEL_MAX text))
      else if str_ieq key ''min'' then put (cd_min_level_update (\<lambda>_. hybbx_user_level_parse text))
      else if str_ieq key ''max'' then put (cd_max_level_update (\<lambda>_. hybbx_user_level_parse text))
      else if str_ieq key ''only'' then put (cd_only_level_update (\<lambda>_. hybbx_user_level_parse text))
      else if str_ieq key ''line1'' then put (cd_line1_update (\<lambda>_. str_store COMMANDS_HELP_LINE_MAX text))
      else if str_ieq key ''line2'' then put (cd_line2_update (\<lambda>_. str_store COMMANDS_HELP_LINE_MAX text))
      else reg)"

definition command_new :: "string \<Rightarrow> command_def" where
  "command_new verb =
     \<lparr>cd_verb = str_store CMD_VERB_MAX verb, cd_group = [], cd_min_level = LEVEL_GUEST, cd_max_level = LEVEL_NONE,
      cd_only_level = LEVEL_NONE, cd_line1 = [], cd_line2 = []\<rparr>"

definition command_line :: "nat \<Rightarrow> string \<Rightarrow> commands_state \<Rightarrow> commands_state" where
  "command_line indent line st =
     (let reg = cs_reg st; n = length (cr_commands reg) in
      if indent = 2 \<and> ends_with_colon line then
        (if n < COMMANDS_MAX then
           st\<lparr>cs_cmd := Some n, cs_reg := reg\<lparr>cr_commands := cr_commands reg @ [command_new (line_key (butlast line))]\<rparr>\<rparr>
         else st)
      else case cs_cmd st of
        None \<Rightarrow> st
      | Some i \<Rightarrow>
          if indent \<ge> 4 then
            (case key_and_text line of
               None \<Rightarrow> st | Some (key, text) \<Rightarrow> st\<lparr>cs_reg := command_field i key text reg\<rparr>)
          else st)"

definition commands_heading :: "string \<Rightarrow> commands_state \<Rightarrow> commands_state" where
  "commands_heading name st =
     (let st = st\<lparr>cs_cmd := None, cs_target := None, cs_promote := None, cs_demote := None\<rparr> in
      if str_ieq name ''rights'' then st\<lparr>cs_section := CSEC_RIGHTS, cs_right := RIGHT_NONE\<rparr>
      else if str_ieq name ''aliases'' then st\<lparr>cs_section := CSEC_ALIASES, cs_right := RIGHT_NONE\<rparr>
      else if str_ieq name ''commands'' then st\<lparr>cs_section := CSEC_COMMANDS, cs_right := RIGHT_NONE\<rparr>
      else st\<lparr>cs_section := CSEC_NONE\<rparr>)"

definition commands_yaml_line :: "string \<Rightarrow> commands_state \<Rightarrow> commands_state option" where
  "commands_yaml_line buf st =
     (let indent = line_indent buf; line = trim_inplace buf in
      if blank_or_comment line then Some st
      else if indent = 0 \<and> ends_with_colon line then Some (commands_heading (butlast line) st)
      else case cs_section st of
        CSEC_RIGHTS \<Rightarrow> rights_line indent line st
      | CSEC_ALIASES \<Rightarrow> Some (aliases_line indent line st)
      | CSEC_COMMANDS \<Rightarrow> Some (command_line indent line st)
      | CSEC_NONE \<Rightarrow> Some st)"

definition parse_commands_yaml :: "string option \<Rightarrow> commands_registry \<Rightarrow> (hybbx_result \<times> commands_registry) option" where
  "parse_commands_yaml file reg =
     (case file of
        None \<Rightarrow> Some (HYBBX_ERR_IO, reg)
      | Some text \<Rightarrow>
          (case fold_option commands_yaml_line (fgets_lines text) (commands_start reg) of
             None \<Rightarrow> None
           | Some st \<Rightarrow>
               Some (if cr_commands (cs_reg st) = [] then HYBBX_ERR_INVALID else HYBBX_OK, cs_reg st)))"

section \<open>Alias lines and loading\<close>

text \<open>The text an alias adds to the line.\<close>

definition alias_text :: "string \<Rightarrow> string \<Rightarrow> string \<Rightarrow> string" where
  "alias_text canonical line alias =
     (if line \<noteq> [] then ''   '' else [])
     @ (if CHR '' '' \<in> set alias then alias else alias @ '' -> '' @ canonical)"

definition push_alias_line :: "string \<Rightarrow> string list \<Rightarrow> string list" where
  "push_alias_line line lines =
     (if length lines < COMMANDS_ALIAS_LINES then lines @ [str_store TEXT_LINE_MAX line] else lines)"

text \<open>
  The loop over one entry's aliases: what does not fit is cut off, the line is stored, and the alias
  tried again on an empty line, without end if it does not fit there either.
\<close>

partial_function (option) alias_entry_lines ::
    "string \<Rightarrow> string list \<Rightarrow> string \<Rightarrow> string list \<Rightarrow> (string \<times> string list) option" where
  "alias_entry_lines canonical aliases line lines =
     (if aliases = [] then Some (line, lines)
      else if length (alias_text canonical line (hd aliases)) \<ge> TEXT_LINE_MAX - length line
      then alias_entry_lines canonical aliases []
             (push_alias_line (c_snprintf TEXT_LINE_MAX (line @ alias_text canonical line (hd aliases))) lines)
      else alias_entry_lines canonical (tl aliases) (line @ alias_text canonical line (hd aliases)) lines)"

declare alias_entry_lines.simps [code]

fun alias_lines_loop :: "alias_entry list \<Rightarrow> string list \<Rightarrow> string list option" where
  "alias_lines_loop [] lines = Some lines"
| "alias_lines_loop (e # es) lines =
     (if length lines \<ge> COMMANDS_ALIAS_LINES then Some lines
      else case alias_entry_lines (ae_canonical e) (ae_aliases e) [] lines of
        None \<Rightarrow> None
      | Some (line, lines) \<Rightarrow> alias_lines_loop es (if line \<noteq> [] then push_alias_line line lines else lines))"

definition build_alias_lines :: "commands_registry \<Rightarrow> commands_registry option" where
  "build_alias_lines reg =
     map_option (\<lambda>ls. reg\<lparr>cr_alias_lines := ls\<rparr>) (alias_lines_loop (cr_aliases reg) [])"

text \<open>
  A file is None when its path does not resolve or it cannot be opened.  The second place is tried on
  the registry as the first left it.
\<close>

definition load_yaml_file ::
    "string option \<Rightarrow> (string option \<Rightarrow> commands_registry \<Rightarrow> (hybbx_result \<times> commands_registry) option)
     \<Rightarrow> commands_registry \<Rightarrow> (hybbx_result \<times> commands_registry) option" where
  "load_yaml_file file parse_fn reg =
     (case parse_fn file reg of
        None \<Rightarrow> None
      | Some (rc, reg) \<Rightarrow> Some (if rc = HYBBX_OK then (HYBBX_OK, reg) else (HYBBX_ERR_IO, reg)))"

definition load_either ::
    "string option \<times> string option \<Rightarrow> (string option \<Rightarrow> commands_registry \<Rightarrow> (hybbx_result \<times> commands_registry) option)
     \<Rightarrow> commands_registry \<Rightarrow> (hybbx_result \<times> commands_registry) option" where
  "load_either files parse_fn reg =
     (case load_yaml_file (fst files) parse_fn reg of
        None \<Rightarrow> None
      | Some (rc, reg) \<Rightarrow>
          if rc \<noteq> HYBBX_OK then load_yaml_file (snd files) parse_fn reg else Some (rc, reg))"

definition hybbx_commands_registry_init ::
    "string option \<times> string option \<Rightarrow> string option \<times> string option \<Rightarrow> (hybbx_result \<times> commands_registry) option" where
  "hybbx_commands_registry_init areas commands =
     (case load_either areas parse_areas_yaml hybbx_commands_registry_shutdown of
        None \<Rightarrow> None
      | Some (rc, reg) \<Rightarrow>
          if rc \<noteq> HYBBX_OK then Some (HYBBX_ERR_IO, reg)
          else case load_either commands parse_commands_yaml reg of
            None \<Rightarrow> None
          | Some (rc, reg) \<Rightarrow>
              if rc \<noteq> HYBBX_OK then Some (HYBBX_ERR_IO, hybbx_commands_registry_shutdown)
              else case build_alias_lines reg of
                None \<Rightarrow> None
              | Some reg \<Rightarrow> Some (HYBBX_OK, reg\<lparr>cr_loaded := True\<rparr>))"

section \<open>Questions\<close>

definition hybbx_commands_registry_find :: "commands_registry \<Rightarrow> string \<Rightarrow> command_def option" where
  "hybbx_commands_registry_find reg verb =
     (if \<not> cr_loaded reg then None else find (\<lambda>d. str_ieq (cd_verb d) verb) (cr_commands reg))"

definition entry_has_alias :: "string \<Rightarrow> alias_entry \<Rightarrow> bool" where
  "entry_has_alias topic e \<longleftrightarrow> list_ex (\<lambda>a. CHR '' '' \<notin> set a \<and> str_ieq a topic) (ae_aliases e)"

definition hybbx_commands_registry_canonical :: "commands_registry \<Rightarrow> string \<Rightarrow> string" where
  "hybbx_commands_registry_canonical reg topic =
     (if \<not> cr_loaded reg \<or> topic = [] then topic
      else if hybbx_commands_registry_find reg topic \<noteq> None then topic
      else case find (entry_has_alias topic) (cr_aliases reg) of
        Some e \<Rightarrow> ae_canonical e | None \<Rightarrow> topic)"

definition command_level_allowed :: "command_def \<Rightarrow> user_level \<Rightarrow> bool" where
  "command_level_allowed d level \<longleftrightarrow>
     (if cd_only_level d \<noteq> LEVEL_NONE \<and> level \<noteq> cd_only_level d then False
      else if level > cd_min_level d then False
      else if cd_max_level d \<noteq> LEVEL_NONE \<and> level < cd_max_level d then False
      else True)"

definition hybbx_commands_registry_verb_allowed :: "commands_registry \<Rightarrow> user_level \<Rightarrow> string \<Rightarrow> bool" where
  "hybbx_commands_registry_verb_allowed reg level verb \<longleftrightarrow>
     (if verb = [] then True
      else if \<not> cr_loaded reg then False
      else case hybbx_commands_registry_find reg (hybbx_commands_registry_canonical reg verb) of
        None \<Rightarrow> False | Some d \<Rightarrow> command_level_allowed d level)"

definition hybbx_commands_registry_help_allowed :: "commands_registry \<Rightarrow> user_level \<Rightarrow> string \<Rightarrow> bool" where
  "hybbx_commands_registry_help_allowed reg level verb \<longleftrightarrow> hybbx_commands_registry_verb_allowed reg level verb"

definition level_in_list :: "user_level \<Rightarrow> user_level list \<Rightarrow> bool" where
  "level_in_list level levels \<longleftrightarrow> list_ex (\<lambda>l. l = level) levels"

definition target_rule_grants :: "user_level \<Rightarrow> user_level \<Rightarrow> target_right_rule \<Rightarrow> bool" where
  "target_rule_grants actor target r \<longleftrightarrow> tr_actor r = actor \<and> level_in_list target (tr_targets r)"

definition target_right_allowed :: "target_right_rule list \<Rightarrow> user_level \<Rightarrow> user_level \<Rightarrow> bool" where
  "target_right_allowed rules actor target \<longleftrightarrow>
     (if hybbx_user_level_is_sysop target \<or> hybbx_user_level_is_guest target then False
      else list_ex (target_rule_grants actor target) rules)"

definition hybbx_commands_registry_may_userchange :: "commands_registry \<Rightarrow> user_level \<Rightarrow> user_level \<Rightarrow> bool" where
  "hybbx_commands_registry_may_userchange reg actor target \<longleftrightarrow>
     cr_loaded reg \<and> target_right_allowed (cr_userchange_rules reg) actor target"

definition hybbx_commands_registry_may_userdelete :: "commands_registry \<Rightarrow> user_level \<Rightarrow> user_level \<Rightarrow> bool" where
  "hybbx_commands_registry_may_userdelete reg actor target \<longleftrightarrow>
     (if \<not> cr_loaded reg \<or> hybbx_user_level_is_sysop target then False
      else list_ex (target_rule_grants actor target) (cr_userdelete_rules reg))"

definition hybbx_commands_registry_may_delete :: "commands_registry \<Rightarrow> user_level \<Rightarrow> user_level \<Rightarrow> bool" where
  "hybbx_commands_registry_may_delete reg actor target \<longleftrightarrow>
     (if \<not> cr_loaded reg then False
      else if target = LEVEL_SYSOP then False
      else target_right_allowed (cr_delete_rules reg) actor target)"

definition hybbx_commands_registry_may_promote ::
    "commands_registry \<Rightarrow> user_level \<Rightarrow> user_level \<Rightarrow> bool \<Rightarrow> user_level \<Rightarrow> bool" where
  "hybbx_commands_registry_may_promote reg actor target target_active new_level \<longleftrightarrow>
     (if \<not> cr_loaded reg \<or> \<not> target_active \<or> hybbx_user_level_is_guest target \<or> target = LEVEL_SYSOP then False
      else list_ex (\<lambda>r. pr_actor r = actor \<and> pr_to_level r = new_level \<and> level_in_list target (pr_from_levels r))
             (cr_promote_rules reg))"

definition hybbx_commands_registry_may_demote :: "commands_registry \<Rightarrow> user_level \<Rightarrow> user_level \<Rightarrow> bool" where
  "hybbx_commands_registry_may_demote reg actor target \<longleftrightarrow>
     cr_loaded reg \<and> list_ex (\<lambda>r. dr_actor r = actor \<and> level_in_list target (dr_from_levels r)) (cr_demote_rules reg)"

section \<open>Menus\<close>

definition MENU_CMD_FIELD_MAX :: nat where "MENU_CMD_FIELD_MAX = TEXT_LINE_MAX - 13"

text \<open>The label in a field of ten characters.\<close>

definition pad10 :: "string \<Rightarrow> string" where
  "pad10 s = s @ replicate (10 - length s) CHR '' ''"

definition emit_menu_line :: "string \<Rightarrow> string \<Rightarrow> bool \<Rightarrow> string" where
  "emit_menu_line label cmds continuation =
     c_snprintf TEXT_LINE_MAX
       (if continuation then replicate 13 CHR '' '' @ cmds else ''  '' @ pad10 label @ '' '' @ cmds)"

fun format_verbs_loop :: "nat \<Rightarrow> string \<Rightarrow> string list \<Rightarrow> string" where
  "format_verbs_loop out_len out [] = out"
| "format_verbs_loop out_len out (v # vs) =
     (if v = [] then format_verbs_loop out_len out vs
      else let t = (if out \<noteq> [] then '' '' else []) @ ''/'' @ v in
        if length t \<ge> out_len - length out then c_snprintf out_len (out @ t)
        else format_verbs_loop out_len (out @ t) vs)"

definition format_verbs_line :: "nat \<Rightarrow> string list \<Rightarrow> string" where
  "format_verbs_line out_len verbs = format_verbs_loop out_len [] verbs"

text \<open>The chunk that is being filled, the number of lines written and the lines.\<close>

fun wrap_loop :: "string \<Rightarrow> string list \<Rightarrow> string \<Rightarrow> string list \<Rightarrow> string \<times> string list" where
  "wrap_loop label [] chunk lines = (chunk, lines)"
| "wrap_loop label (v # vs) chunk lines =
     (if v = [] then wrap_loop label vs chunk lines
      else let token = (if chunk \<noteq> [] then '' '' else []) @ ''/'' @ v;
               (token, chunk, lines) =
                 (if chunk \<noteq> [] \<and> length token + length chunk > MENU_CMD_FIELD_MAX
                  then (''/'' @ v, [], lines @ [emit_menu_line (if lines = [] then label else []) chunk (lines \<noteq> [])])
                  else (token, chunk, lines))
           in if length token \<ge> MENU_CMD_FIELD_MAX + 1 - length chunk then (chunk, lines)
              else wrap_loop label vs (chunk @ token) lines)"

definition emit_verbs_wrapped :: "string \<Rightarrow> string list \<Rightarrow> string list" where
  "emit_verbs_wrapped label verbs =
     (case wrap_loop label verbs [] [] of (chunk, lines) \<Rightarrow>
        if chunk \<noteq> [] then lines @ [emit_menu_line (if lines = [] then label else []) chunk (lines \<noteq> [])] else lines)"

definition verb_shown :: "commands_registry \<Rightarrow> user_level \<Rightarrow> bool \<Rightarrow> string \<Rightarrow> bool" where
  "verb_shown reg level filter_access verb \<longleftrightarrow>
     \<not> (filter_access \<and> \<not> hybbx_commands_registry_verb_allowed reg level verb)"

fun collect_verbs :: "commands_registry \<Rightarrow> user_level \<Rightarrow> bool \<Rightarrow> nat \<Rightarrow> string list \<Rightarrow> string list \<Rightarrow> string list" where
  "collect_verbs reg level filter_access cap [] out = out"
| "collect_verbs reg level filter_access cap (v # vs) out =
     (if length out \<ge> cap then out
      else if \<not> verb_shown reg level filter_access v then collect_verbs reg level filter_access cap vs out
      else collect_verbs reg level filter_access cap vs (out @ [str_store CMD_VERB_MAX v]))"

definition collect_area_verbs :: "commands_registry \<Rightarrow> menu_area \<Rightarrow> user_level \<Rightarrow> bool \<Rightarrow> nat \<Rightarrow> string list" where
  "collect_area_verbs reg area level filter_access cap =
     foldl (\<lambda>out vs. collect_verbs reg level filter_access cap vs out) [] (ma_verbs area # ma_subareas area)"

definition render_area :: "commands_registry \<Rightarrow> menu_area \<Rightarrow> user_level \<Rightarrow> bool \<Rightarrow> string list" where
  "render_area reg area level filter_access =
     (let verbs = collect_area_verbs reg area level filter_access COMMANDS_VERBS_PER_GROUP in
      if verbs = [] then []
      else emit_verbs_wrapped (ma_label area) verbs
           @ (if \<not> filter_access
              then map (\<lambda>sub. emit_menu_line [] (format_verbs_line TEXT_LINE_MAX (map (str_store CMD_VERB_MAX) sub)) True)
                     (List.filter (\<lambda>sub. sub \<noteq> []) (ma_subareas area))
              else []))"

definition area_find :: "commands_registry \<Rightarrow> string \<Rightarrow> menu_area option" where
  "area_find reg label = find (\<lambda>a. str_ieq (ma_label a) label) (cr_areas reg)"

definition render_area_labels :: "commands_registry \<Rightarrow> string list \<Rightarrow> user_level \<Rightarrow> bool \<Rightarrow> string list" where
  "render_area_labels reg labels level filter_access =
     concat (map (\<lambda>l. case area_find reg l of None \<Rightarrow> [] | Some a \<Rightarrow> render_area reg a level filter_access) labels)"

fun menu_level_name :: "user_level \<Rightarrow> string" where
  "menu_level_name LEVEL_SYSOP = ''Sysop''"
| "menu_level_name LEVEL_ADMIN = ''Admin''"
| "menu_level_name LEVEL_MOD = ''Mod''"
| "menu_level_name LEVEL_USER = ''User''"
| "menu_level_name _ = ''Guest''"

text \<open>None for the index behind the last.\<close>

definition menu_layout_index :: "commands_registry \<Rightarrow> user_level \<Rightarrow> nat option" where
  "menu_layout_index reg level = find_slot (\<lambda>e. str_ieq (fst e) (menu_level_name level)) (cr_menu reg)"

definition hybbx_commands_registry_show_menu :: "commands_registry \<Rightarrow> user_level \<Rightarrow> string list" where
  "hybbx_commands_registry_show_menu reg level =
     (if \<not> cr_loaded reg then []
      else cr_menu_header reg #
           (case menu_layout_index reg level of
              None \<Rightarrow> [] | Some i \<Rightarrow> render_area_labels reg (snd (cr_menu reg ! i)) level True))"

definition hybbx_commands_registry_show_index :: "commands_registry \<Rightarrow> string list" where
  "hybbx_commands_registry_show_index reg =
     (if \<not> cr_loaded reg then []
      else cr_index_header reg # render_area_labels reg (cr_index_labels reg) LEVEL_GUEST False)"

definition hybbx_commands_registry_show_aliases :: "commands_registry \<Rightarrow> string list" where
  "hybbx_commands_registry_show_aliases reg = (if \<not> cr_loaded reg then [] else cr_alias_header reg # cr_alias_lines reg)"

definition hybbx_commands_registry_show_help :: "commands_registry \<Rightarrow> string \<Rightarrow> string list" where
  "hybbx_commands_registry_show_help reg canonical =
     (if \<not> cr_loaded reg then []
      else case hybbx_commands_registry_find reg canonical of
        None \<Rightarrow> []
      | Some d \<Rightarrow> if cd_line1 d = [] then [] else cd_line1 d # (if cd_line2 d \<noteq> [] then [cd_line2 d] else []))"

end
