(* ===== verification/Registry_Access.thy ===== *)
theory Registry_Access imports Commands_Registry begin

text \<open>
  What the command registry decides: the lists in brackets, the rights the file grants, who may use a
  command, what the menus show.
\<close>

section \<open>Lists in brackets\<close>

definition plain_list_char :: "char \<Rightarrow> bool" where
  "plain_list_char c \<longleftrightarrow> \<not> c_isspace c \<and> c \<noteq> CHR '','' \<and> c \<noteq> CHR '']'' \<and> c \<noteq> CHR ''[''"

definition list_word :: "string \<Rightarrow> bool" where
  "list_word t \<longleftrightarrow> t \<noteq> [] \<and> length t < CMD_VERB_MAX \<and> list_all plain_list_char t"

definition spaces_only :: "string \<Rightarrow> bool" where
  "spaces_only s \<longleftrightarrow> list_all (\<lambda>c. c_isspace c \<longrightarrow> c = CHR '' '') s"

lemma dropWhile_hd_not: "dropWhile P xs = y # ys \<Longrightarrow> \<not> P y"
  by (metis hd_dropWhile list.distinct(1) list.sel(1))

lemma list_token_nonempty:
  assumes "spaces_only p" and "dropWhile list_separator p = c # cs" and "c \<noteq> CHR '']''"
  shows "list_token (c # cs) \<noteq> []"
proof -
  have "c \<in> set p" using assms(2) set_dropWhileD by (metis list.set_intros(1))
  then have "c_isspace c \<Longrightarrow> c = CHR '' ''" using assms(1) by (auto simp: spaces_only_def list_all_iff)
  moreover have "\<not> list_separator c" by (rule dropWhile_hd_not [OF assms(2)])
  ultimately show ?thesis using assms(3) by (auto simp: list_token_def list_separator_def CMD_VERB_MAX_def)
qed

lemma bracket_loop_terminates:
  "spaces_only p \<Longrightarrow> length out \<le> cap \<Longrightarrow>
   \<exists>rc toks. bracket_loop cap p out = Some (rc, out @ toks) \<and> length (out @ toks) \<le> cap
     \<and> list_all (\<lambda>t. t \<noteq> [] \<and> length t < CMD_VERB_MAX) toks"
proof (induction "length p" arbitrary: p out rule: less_induct)
  case less
  let ?p = "dropWhile list_separator p"
  show ?case
  proof (cases ?p)
    case Nil
    then show ?thesis using less.prems(2) by (subst bracket_loop.simps) simp
  next
    case (Cons c cs)
    show ?thesis
    proof (cases "c = CHR '']'' \<or> length out = cap")
      case True
      then show ?thesis
        using less.prems(2) Cons list_token_nonempty [OF less.prems(1) Cons]
        by (subst bracket_loop.simps) auto
    next
      case False
      let ?t = "list_token ?p" and ?q = "drop (length (list_token ?p)) ?p"
      have t: "?t \<noteq> []" using list_token_nonempty [OF less.prems(1) Cons] False Cons by simp
      have "length ?q < length ?p" using t Cons by simp
      also have "\<dots> \<le> length p" by (rule length_dropWhile_le)
      finally have l: "length ?q < length p" .
      have "set ?q \<subseteq> set p" by (meson set_drop_subset set_dropWhileD subset_code(1))
      then have s: "spaces_only ?q" using less.prems(1) by (auto simp: spaces_only_def list_all_iff)
      have b: "length (out @ [?t]) \<le> cap" using False less.prems(2) by simp
      obtain rc toks where r: "bracket_loop cap ?q (out @ [?t]) = Some (rc, (out @ [?t]) @ toks)"
        "length ((out @ [?t]) @ toks) \<le> cap" "list_all (\<lambda>t. t \<noteq> [] \<and> length t < CMD_VERB_MAX) toks"
        using less.hyps [OF l s b] by blast
      have "bracket_loop cap p out = bracket_loop cap ?q (out @ [?t])"
        using t False less.prems(2) Cons by (subst bracket_loop.simps) auto
      moreover have "length ?t < CMD_VERB_MAX" by (simp add: list_token_def CMD_VERB_MAX_def)
      ultimately show ?thesis using r t by (intro exI [of _ rc] exI [of _ "?t # toks"]) simp
    qed
  qed
qed

lemma bracket_list_terminates_fact:
  assumes "spaces_only text"
  shows "\<exists>rc toks. parse_bracket_list cap text = Some (rc, toks) \<and> length toks \<le> cap
     \<and> list_all (\<lambda>t. t \<noteq> [] \<and> length t < CMD_VERB_MAX) toks"
proof -
  have "set (tl (dropWhile (\<lambda>c. c \<noteq> CHR ''['') text)) \<subseteq> set text"
    by (metis (no_types, lifting) list.set_sel(2) set_dropWhileD subsetI tl_Nil)
  then have "spaces_only (tl (dropWhile (\<lambda>c. c \<noteq> CHR ''['') text))"
    using assms by (auto simp: spaces_only_def list_all_iff)
  from bracket_loop_terminates [OF this, of "[]" cap] show ?thesis by (auto simp: parse_bracket_list_def)
qed

text \<open>
  A list in brackets whose white space is blanks is read to its end: the reader returns, with at most
  as many words as there is room for, each of them non-empty and short enough for its slot.
\<close>

theorem bracket_list_terminates:
  assumes "list_all (\<lambda>c. c_isspace c \<longrightarrow> c = CHR '' '') text"
  shows "\<exists>rc toks. parse_bracket_list cap text = Some (rc, toks) \<and> length toks \<le> cap
     \<and> list_all (\<lambda>t. t \<noteq> [] \<and> length t < CMD_VERB_MAX) toks"
  by (rule bracket_list_terminates_fact) (use assms in \<open>simp add: spaces_only_def\<close>)

theorem bracket_list_terminates_witness:
  "\<exists>rc toks. parse_bracket_list 4 ''[User, Mod]'' = Some (rc, toks) \<and> length toks \<le> 4"
  using bracket_list_terminates [of "''[User, Mod]''" 4] by (auto simp: c_isspace_def)

lemma bracket_loop_stuck: "c_isspace t \<Longrightarrow> t \<noteq> CHR '' '' \<Longrightarrow> bracket_loop cap (t # rest) out = None"
proof -
  assume t: "c_isspace t" "t \<noteq> CHR '' ''"
  have n: "\<not> list_separator t" "t \<noteq> CHR '']''" "list_token (t # rest) = []"
    using t by (auto simp: list_separator_def list_token_def c_isspace_def)
  have "bracket_loop c p o' = Some y \<Longrightarrow> p \<noteq> t # rest" for c p o' y
  proof (erule bracket_loop.raw_induct [where P = "\<lambda>c p o' y. p \<noteq> t # rest", rotated])
    fix loop c p o' y
    assume IH: "\<And>c p o' y. loop c p o' = Some y \<Longrightarrow> p \<noteq> t # rest"
      and eq: "(if dropWhile list_separator p = [] then Some (0, o')
        else if hd (dropWhile list_separator p) = CHR '']'' then Some (0, o')
        else if list_token (dropWhile list_separator p) = [] then loop c (dropWhile list_separator p) o'
        else if length o' \<ge> c then Some (- 1, o')
        else loop c (drop (length (list_token (dropWhile list_separator p))) (dropWhile list_separator p))
               (o' @ [list_token (dropWhile list_separator p)])) = Some y"
    show "p \<noteq> t # rest"
    proof
      assume p: "p = t # rest"
      have "loop c p o' = Some y" using eq n unfolding p by simp
      from IH [OF this] p show False by simp
    qed
  qed
  from this [of cap "t # rest" out] show ?thesis by (cases "bracket_loop cap (t # rest) out") auto
qed

text \<open>Words are read one after the other.\<close>

definition bracket_text :: "string list \<Rightarrow> string" where
  "bracket_text toks = concat (map (\<lambda>t. t @ '', '') toks)"

lemma list_token_word: "list_word t \<Longrightarrow> (case rest of [] \<Rightarrow> True | c # cs \<Rightarrow> c = CHR '','' \<or> c = CHR '']'' \<or> c_isspace c) \<Longrightarrow>
   list_token (t @ rest) = t \<and> dropWhile list_separator (t @ rest) = t @ rest"
proof -
  assume t: "list_word t" and r: "case rest of [] \<Rightarrow> True | c # cs \<Rightarrow> c = CHR '','' \<or> c = CHR '']'' \<or> c_isspace c"
  let ?P = "\<lambda>c. c \<noteq> CHR '','' \<and> c \<noteq> CHR '']'' \<and> \<not> c_isspace c"
  have "takeWhile ?P (t @ rest) = t @ takeWhile ?P rest"
    using t by (intro takeWhile_append2) (auto simp: list_word_def list_all_iff plain_list_char_def)
  moreover have "takeWhile ?P rest = []" using r by (cases rest) auto
  ultimately have "list_token (t @ rest) = t" using t by (simp add: list_token_def list_word_def CMD_VERB_MAX_def)
  moreover obtain c cs where "t = c # cs" "\<not> list_separator c"
    using t by (cases t) (auto simp: list_word_def plain_list_char_def list_separator_def c_isspace_def)
  ultimately show ?thesis by simp
qed

lemma bracket_loop_separator: "list_separator c \<Longrightarrow> bracket_loop cap (c # r) out = bracket_loop cap r out"
  by (rule trans [OF bracket_loop.simps [of cap "c # r" out] trans [OF _ bracket_loop.simps [of cap r out, symmetric]]])
     (simp only: dropWhile.simps if_True)

lemma bracket_loop_words:
  "list_all list_word toks \<Longrightarrow> length out + length toks \<le> cap \<Longrightarrow>
   bracket_loop cap (bracket_text toks @ rest) out = bracket_loop cap rest (out @ toks)"
proof (induction toks arbitrary: out)
  case Nil
  then show ?case by (simp add: bracket_text_def)
next
  case (Cons t toks)
  let ?r = "'', '' @ bracket_text toks @ rest"
  have w: "list_word t" using Cons.prems by simp
  note tok = list_token_word [OF w, of ?r]
  have t: "t @ ?r \<noteq> []" "hd (t @ ?r) \<noteq> CHR '']''" "t \<noteq> []"
    using w by (cases t; auto simp: list_word_def plain_list_char_def)+
  have "bracket_loop cap (bracket_text (t # toks) @ rest) out = bracket_loop cap (t @ ?r) out"
    by (simp add: bracket_text_def)
  also have "\<dots> = bracket_loop cap ?r (out @ [t])"
    using tok t Cons.prems(2) by (subst bracket_loop.simps) (simp add: append_assoc [symmetric])
  also have "\<dots> = bracket_loop cap (bracket_text toks @ rest) (out @ [t])"
    by (simp add: bracket_loop_separator list_separator_def)
  also have "\<dots> = bracket_loop cap rest (out @ t # toks)"
    using Cons.IH [of "out @ [t]"] Cons.prems by simp
  finally show ?case .
qed

text \<open>
  A tab in such a list, in front of a word or right behind one, hangs the program: the loop comes
  back to the same place for ever.
\<close>

theorem tab_in_list_hangs:
  assumes "list_all list_word toks" and "length toks \<le> cap" and "c_isspace t" and "t \<noteq> CHR '' ''"
  shows "parse_bracket_list cap (''['' @ bracket_text toks @ t # rest) = None"
  using bracket_loop_words [OF assms(1), of "[]" cap "t # rest"] assms(2) bracket_loop_stuck [OF assms(3,4)]
  by (simp add: parse_bracket_list_def)

theorem tab_in_list_hangs_witness:
  "parse_bracket_list 4 (''[User, '' @ [CHR 0x09] @ ''Mod]'') = None"
  using tab_in_list_hangs [of "[''User'']" 4 "CHR 0x09" "''Mod]''"]
  by (simp add: list_word_def plain_list_char_def c_isspace_def CMD_VERB_MAX_def bracket_text_def)

text \<open>
  A list written with commas is read back: every word of it, in its order.
\<close>

theorem bracket_list_roundtrip:
  assumes "list_all list_word toks" and "list_word t" and "length toks < cap"
  shows "parse_bracket_list cap (''['' @ bracket_text toks @ t @ '']'') = Some (0, toks @ [t])"
proof -
  note tok = list_token_word [OF assms(2), of "'']''"]
  have t: "t @ '']'' \<noteq> []" "hd (t @ '']'') \<noteq> CHR '']''" "t \<noteq> []"
    using assms(2) by (cases t; auto simp: list_word_def plain_list_char_def)+
  have "bracket_loop cap (t @ '']'') toks = bracket_loop cap '']'' (toks @ [t])"
    using tok t assms(3) by (subst bracket_loop.simps) simp
  also have "\<dots> = Some (0, toks @ [t])"
    by (subst bracket_loop.simps) (simp add: list_separator_def)
  finally show ?thesis
    using bracket_loop_words [OF assms(1), of "[]" cap "t @ '']''"] assms(3) by (simp add: parse_bracket_list_def)
qed

theorem bracket_list_roundtrip_witness:
  "parse_bracket_list 5 ''[Admin, Mod, User]'' = Some (0, [''Admin'', ''Mod'', ''User''])"
  using bracket_list_roundtrip [of "[''Admin'', ''Mod'']" "''User''" 5]
  by (simp add: list_word_def plain_list_char_def c_isspace_def CMD_VERB_MAX_def bracket_text_def)

section \<open>Rights\<close>

text \<open>A line that names the actor of a rule where the reader looks for it.\<close>

definition actor_line :: "string \<Rightarrow> bool" where
  "actor_line buf \<longleftrightarrow> line_indent buf \<ge> 6
     \<and> (case key_and_text (trim_inplace buf) of None \<Rightarrow> False | Some (key, text) \<Rightarrow> str_ieq key ''actor'')"

definition no_actors :: "commands_registry \<Rightarrow> bool" where
  "no_actors reg \<longleftrightarrow>
     list_all (\<lambda>r. tr_actor r = LEVEL_NONE) (cr_userchange_rules reg)
     \<and> list_all (\<lambda>r. tr_actor r = LEVEL_NONE) (cr_userdelete_rules reg)
     \<and> list_all (\<lambda>r. tr_actor r = LEVEL_NONE) (cr_delete_rules reg)
     \<and> list_all (\<lambda>r. pr_actor r = LEVEL_NONE) (cr_promote_rules reg)
     \<and> list_all (\<lambda>r. dr_actor r = LEVEL_NONE) (cr_demote_rules reg)"

lemma list_all_update: "list_all P xs \<Longrightarrow> P y \<Longrightarrow> list_all P (xs[i := y])"
  using set_update_subset_insert [of xs i y] by (auto simp: list_all_iff)

lemma list_all_update_at: "list_all P xs \<Longrightarrow> (P (xs ! i) \<Longrightarrow> P y) \<Longrightarrow> list_all P (xs[i := y])"
  by (cases "i < length xs") (auto simp: list_all_length nth_list_update list_update_beyond)

lemma list_all_modify: "list_all P xs \<Longrightarrow> (\<And>x. P x \<Longrightarrow> P (f x)) \<Longrightarrow> list_all P (list_modify i f xs)"
  unfolding list_modify_def
  by (cases "i < length xs") (auto simp: list_all_length nth_list_update)

lemma no_actors_set_target:
  "no_actors reg \<Longrightarrow> (\<And>r. tr_actor r = LEVEL_NONE \<Longrightarrow> tr_actor (f r) = LEVEL_NONE) \<Longrightarrow> no_actors (set_target p f reg)"
  by (auto simp: set_target_def no_actors_def list_all_modify split: prod.split right_kind.split)

lemma no_actors_target_field:
  "no_actors reg \<Longrightarrow> \<not> str_ieq key ''actor'' \<Longrightarrow> target_field p key text reg = Some reg' \<Longrightarrow> no_actors reg'"
  by (auto simp: target_field_def no_actors_set_target split: if_splits option.splits)

lemma no_actors_promote_field:
  "no_actors reg \<Longrightarrow> \<not> str_ieq key ''actor'' \<Longrightarrow> promote_field i key text reg = Some reg' \<Longrightarrow> no_actors reg'"
  by (auto simp: promote_field_def no_actors_def list_all_modify Let_def split: if_splits option.splits)

lemma no_actors_demote_field:
  "no_actors reg \<Longrightarrow> \<not> str_ieq key ''actor'' \<Longrightarrow> demote_field i key text reg = Some reg' \<Longrightarrow> no_actors reg'"
  by (auto simp: demote_field_def no_actors_def list_all_modify Let_def split: if_splits option.splits)

lemma no_actors_dash: "no_actors (cs_reg st) \<Longrightarrow> no_actors (cs_reg (right_dash_line st))"
  by (simp add: right_dash_line_def no_actors_def target_zero_def promote_zero_def demote_zero_def Let_def split: right_kind.split)

lemma no_actors_other:
  "no_actors (cs_reg st) \<Longrightarrow> no_actors (cs_reg (aliases_line indent line st))"
  "no_actors (cs_reg st) \<Longrightarrow> no_actors (cs_reg (command_line indent line st))"
  "no_actors (cs_reg st) \<Longrightarrow> no_actors (cs_reg (commands_heading name st))"
  by (simp_all add: aliases_line_def command_line_def command_field_def commands_heading_def no_actors_def Let_def
      split: option.split prod.split)

lemma with_reg_SomeE:
  assumes "with_reg st r = Some st'" and "\<And>reg. r = Some reg \<Longrightarrow> P reg"
  shows "P (cs_reg st')"
  using assms by (auto simp: with_reg_def)

lemma no_actors_rights_line:
  assumes "no_actors (cs_reg st)" and "rights_line indent line st = Some st'"
    and "indent \<ge> 6 \<Longrightarrow> (case key_and_text line of None \<Rightarrow> True | Some (key, text) \<Rightarrow> \<not> str_ieq key ''actor'')"
  shows "no_actors (cs_reg st')"
proof (cases "key_and_text line")
  case None
  then show ?thesis using assms(1,2) no_actors_dash [OF assms(1)] unfolding rights_line_def by (simp split: if_splits) force
next
  case (Some kt)
  obtain key tx where kt: "key_and_text line = Some (key, tx)" using Some by (cases kt) simp
  consider "indent = 2 \<and> ends_with_colon line" | "\<not> (indent = 2 \<and> ends_with_colon line)" "indent < 6"
    | "indent \<ge> 6" by linarith
  then show ?thesis
  proof cases
    case 3
    then have k: "\<not> str_ieq key ''actor''" using assms(3) kt by simp
    have "st' = st \<or> with_reg st (target_field (the (cs_target st)) key tx (cs_reg st)) = Some st'
        \<or> with_reg st (promote_field (the (cs_promote st)) key tx (cs_reg st)) = Some st'
        \<or> with_reg st (demote_field (the (cs_demote st)) key tx (cs_reg st)) = Some st'"
      using assms(2) 3 kt by (simp add: rights_line_def split: option.splits)
    then show ?thesis
    proof (elim disjE)
      assume "st' = st"
      with assms(1) show ?thesis by (simp only:)
    next
      assume "with_reg st (target_field (the (cs_target st)) key tx (cs_reg st)) = Some st'"
      then show ?thesis by (rule with_reg_SomeE) (rule no_actors_target_field [OF assms(1) k])
    next
      assume "with_reg st (promote_field (the (cs_promote st)) key tx (cs_reg st)) = Some st'"
      then show ?thesis by (rule with_reg_SomeE) (rule no_actors_promote_field [OF assms(1) k])
    next
      assume "with_reg st (demote_field (the (cs_demote st)) key tx (cs_reg st)) = Some st'"
      then show ?thesis by (rule with_reg_SomeE) (rule no_actors_demote_field [OF assms(1) k])
    qed
  qed (use assms(1,2) no_actors_dash [OF assms(1)] in \<open>auto simp: rights_line_def split: if_splits\<close>)
qed

lemma no_actors_line:
  assumes "no_actors (cs_reg st)" and "\<not> actor_line buf" and "commands_yaml_line buf st = Some st'"
  shows "no_actors (cs_reg st')"
proof -
  have "line_indent buf \<ge> 6 \<Longrightarrow>
      (case key_and_text (trim_inplace buf) of None \<Rightarrow> True | Some (key, text) \<Rightarrow> \<not> str_ieq key ''actor'')"
    using assms(2) by (auto simp: actor_line_def split: option.splits)
  then show ?thesis
    using assms(1,3) no_actors_other [OF assms(1)] no_actors_rights_line [OF assms(1), of "line_indent buf" "trim_inplace buf" st']
    by (auto simp: commands_yaml_line_def Let_def split: if_splits commands_section.splits)
qed

lemma fold_option_invariant:
  "fold_option f xs s = Some s' \<Longrightarrow> I s \<Longrightarrow> (\<And>x s s'. x \<in> set xs \<Longrightarrow> I s \<Longrightarrow> f x s = Some s' \<Longrightarrow> I s') \<Longrightarrow> I s'"
proof (induction xs arbitrary: s)
  case (Cons x xs)
  from Cons.prems(1) obtain t where t: "f x s = Some t" "fold_option f xs t = Some s'"
    by (auto split: option.splits)
  with Cons.prems(2,3) have "I t" by (metis list.set_intros(1))
  with Cons t(2) show ?case by (meson list.set_intros(2))
qed simp

lemma no_actors_denied:
  assumes "no_actors reg" and "actor \<noteq> LEVEL_NONE"
  shows "\<not> hybbx_commands_registry_may_userchange reg actor target"
    and "\<not> hybbx_commands_registry_may_userdelete reg actor target"
    and "\<not> hybbx_commands_registry_may_delete reg actor target"
    and "\<not> hybbx_commands_registry_may_promote reg actor target target_active new_level"
    and "\<not> hybbx_commands_registry_may_demote reg actor target"
  using assms
  by (auto simp: hybbx_commands_registry_may_userchange_def hybbx_commands_registry_may_userdelete_def
      hybbx_commands_registry_may_delete_def hybbx_commands_registry_may_promote_def
      hybbx_commands_registry_may_demote_def target_right_allowed_def target_rule_grants_def no_actors_def
      list_all_iff list_ex_iff)

text \<open>
  C37. A file that names the actor of each rule on the rule's dash line, as the shipped
  \<^verbatim>\<open>share/commands.yaml\<close> does, grants nothing: the dash line is not read behind its dash, every rule
  keeps actor 0, and change, delete, promote and demote are refused to every level, Sysop included.
\<close>

theorem dash_actor_denies_all:
  assumes "list_all (\<lambda>buf. \<not> actor_line buf) (fgets_lines text)"
    and "parse_commands_yaml (Some text) registry_zero = Some (rc, reg)" and "actor \<noteq> LEVEL_NONE"
  shows "\<not> hybbx_commands_registry_may_userchange (reg\<lparr>cr_loaded := True\<rparr>) actor target
     \<and> \<not> hybbx_commands_registry_may_userdelete (reg\<lparr>cr_loaded := True\<rparr>) actor target
     \<and> \<not> hybbx_commands_registry_may_delete (reg\<lparr>cr_loaded := True\<rparr>) actor target
     \<and> \<not> hybbx_commands_registry_may_promote (reg\<lparr>cr_loaded := True\<rparr>) actor target target_active new_level
     \<and> \<not> hybbx_commands_registry_may_demote (reg\<lparr>cr_loaded := True\<rparr>) actor target"
proof -
  obtain st where st: "fold_option commands_yaml_line (fgets_lines text) (commands_start registry_zero) = Some st"
    and reg: "reg = cs_reg st"
    using assms(2) by (auto simp: parse_commands_yaml_def split: option.splits)
  have "no_actors (cs_reg st)"
  proof (rule fold_option_invariant [OF st, where I = "\<lambda>st. no_actors (cs_reg st)"])
    show "no_actors (cs_reg (commands_start registry_zero))"
      by (simp add: no_actors_def registry_zero_def commands_start_def)
    show "\<And>x s s'. x \<in> set (fgets_lines text) \<Longrightarrow> no_actors (cs_reg s) \<Longrightarrow> commands_yaml_line x s = Some s' \<Longrightarrow> no_actors (cs_reg s')"
      using assms(1) no_actors_line by (auto simp only: list_all_iff)
  qed
  then have "no_actors (reg\<lparr>cr_loaded := True\<rparr>)" by (simp add: reg no_actors_def)
  from no_actors_denied [OF this assms(3)] show ?thesis by blast
qed

text \<open>The first rule of the shipped file's promotions.\<close>

definition shipped_rights :: string where
  "shipped_rights =
     concat (map (\<lambda>l. l @ [CHR 0x0A])
       [''rights:'', ''  promote:'', ''    - actor: Sysop'', ''      to: Admin'', ''      from: [User, Mod]'',
        ''commands:'', ''  promote:'', ''    min: Admin''])"

lemma shipped_rights_lines:
  "fgets_lines shipped_rights =
     map (\<lambda>l. l @ [CHR 0x0A])
       [''rights:'', ''  promote:'', ''    - actor: Sysop'', ''      to: Admin'', ''      from: [User, Mod]'',
        ''commands:'', ''  promote:'', ''    min: Admin'']"
  by (simp add: fgets_lines.simps shipped_rights_def c_fgets_def CONFIG_LINE_MAX_def Let_def)

lemma shipped_rights_parse: "map_option fst (parse_commands_yaml (Some shipped_rights) registry_zero) = Some HYBBX_OK"
  unfolding parse_commands_yaml_def shipped_rights_lines option.case
  by code_simp

theorem dash_actor_denies_all_witness:
  "\<exists>reg. parse_commands_yaml (Some shipped_rights) registry_zero = Some (HYBBX_OK, reg)
     \<and> \<not> hybbx_commands_registry_may_promote (reg\<lparr>cr_loaded := True\<rparr>) LEVEL_SYSOP LEVEL_USER True LEVEL_ADMIN"
proof -
  have "list_all (\<lambda>buf. \<not> actor_line buf) (fgets_lines shipped_rights)"
    unfolding shipped_rights_lines by code_simp
  moreover obtain reg where "parse_commands_yaml (Some shipped_rights) registry_zero = Some (HYBBX_OK, reg)"
    using shipped_rights_parse by auto
  ultimately show ?thesis using dash_actor_denies_all [of shipped_rights HYBBX_OK reg LEVEL_SYSOP] by blast
qed

section \<open>Access\<close>

text \<open>
  No rule of any registry lets anyone change, delete or promote a Sysop, or promote or change a guest;
  before the registry is loaded nothing is granted.
\<close>

theorem rights_protect_sysop:
  "\<not> hybbx_commands_registry_may_userchange reg actor LEVEL_SYSOP
   \<and> \<not> hybbx_commands_registry_may_userdelete reg actor LEVEL_SYSOP
   \<and> \<not> hybbx_commands_registry_may_delete reg actor LEVEL_SYSOP
   \<and> \<not> hybbx_commands_registry_may_promote reg actor LEVEL_SYSOP act new_level
   \<and> \<not> hybbx_commands_registry_may_userchange reg actor LEVEL_GUEST
   \<and> \<not> hybbx_commands_registry_may_promote reg actor LEVEL_GUEST act new_level
   \<and> \<not> hybbx_commands_registry_may_promote reg actor target False new_level"
  by (simp add: hybbx_commands_registry_may_userchange_def hybbx_commands_registry_may_userdelete_def
      hybbx_commands_registry_may_delete_def hybbx_commands_registry_may_promote_def
      target_right_allowed_def hybbx_user_level_is_sysop_def hybbx_user_level_is_guest_def)

section \<open>Full tables\<close>

text \<open>
  A command beyond the table's end overwrites the last one's access: its header is ignored but its
  lines still go to the entry that was filled before, so the verb in the last slot gets the levels meant
  for another.
\<close>

theorem command_overflow_rewrites_last:
  assumes "cs_cmd st = Some i" and "i < length (cr_commands (cs_reg st))" and "length (cr_commands (cs_reg st)) = COMMANDS_MAX"
  shows "command_line 2 (verb @ '':'') st = st
     \<and> command_line 4 ''min: Guest'' st
         = st\<lparr>cs_reg := (cs_reg st)\<lparr>cr_commands := (cr_commands (cs_reg st))[i := (cr_commands (cs_reg st) ! i)\<lparr>cd_min_level := LEVEL_GUEST\<rparr>]\<rparr>\<rparr>"
proof -
  have k: "key_and_text ''min: Guest'' = Some (''min'', ''Guest'')" by code_simp
  have "str_ieq ''min'' ''group'' = False" "str_ieq ''min'' ''min'' = True" "hybbx_user_level_parse ''Guest'' = LEVEL_GUEST"
    by code_simp+
  then have f: "command_field i ''min'' ''Guest'' reg
      = reg\<lparr>cr_commands := (cr_commands reg)[i := (cr_commands reg ! i)\<lparr>cd_min_level := LEVEL_GUEST\<rparr>]\<rparr>" for reg
    by (simp add: command_field_def list_modify_def)
  show ?thesis
    using assms k f by (simp add: command_line_def ends_with_colon_def Let_def)
qed

theorem command_overflow_rewrites_last_witness:
  "\<exists>st. length (cr_commands (cs_reg st)) = COMMANDS_MAX \<and> command_line 2 ''shutdown:'' st = st
     \<and> cd_min_level (cr_commands (cs_reg (command_line 4 ''min: Guest'' st)) ! 63) = LEVEL_GUEST
     \<and> cd_min_level (cr_commands (cs_reg st) ! 63) = LEVEL_SYSOP"
proof -
  define st where "st = (commands_start (registry_zero\<lparr>cr_commands :=
      replicate 64 ((command_new ''x'')\<lparr>cd_min_level := LEVEL_SYSOP\<rparr>)\<rparr>))\<lparr>cs_cmd := Some 63\<rparr>"
  have h: "cs_cmd st = Some 63" "63 < length (cr_commands (cs_reg st))" "length (cr_commands (cs_reg st)) = COMMANDS_MAX"
    by (simp_all add: st_def commands_start_def COMMANDS_MAX_def)
  have v: "cd_min_level (cr_commands (cs_reg st) ! 63) = LEVEL_SYSOP" by (simp add: st_def commands_start_def)
  from command_overflow_rewrites_last [OF h, of "''shutdown''"] h v show ?thesis
    by (intro exI [of _ st]) simp
qed

section \<open>Menus\<close>

definition menu_verb :: "string \<Rightarrow> bool" where
  "menu_verb v \<longleftrightarrow> v \<noteq> [] \<and> length v < CMD_VERB_MAX \<and> list_all (\<lambda>c. \<not> c_isspace c) v"

text \<open>The verbs a line shows: its words behind the label's field.\<close>

definition shown_words :: "string \<Rightarrow> string list" where
  "shown_words line = words (drop 13 line)"

lemma emit_menu_line_text:
  assumes "length label \<le> 10"
  shows "emit_menu_line label chunk cont = (if cont then replicate 13 CHR '' '' else ''  '' @ pad10 label @ '' '') @ take 66 chunk"
  using assms by (simp add: emit_menu_line_def c_snprintf_def TEXT_LINE_MAX_def pad10_def take_Cons')

lemma emit_menu_line_words:
  assumes "length label \<le> 10"
  shows "(length chunk \<le> 66 \<longrightarrow> shown_words (emit_menu_line label chunk cont) = words chunk)
     \<and> length (emit_menu_line label chunk cont) < TEXT_LINE_MAX"
  using assms unfolding emit_menu_line_text [OF assms]
  by (simp add: shown_words_def pad10_def TEXT_LINE_MAX_def)

lemma words_append: "words (a @ CHR '' '' # b) = words a @ words b"
  by (simp add: words_def split_on_append)

lemma words_verb: "menu_verb v \<Longrightarrow> words (''/'' @ v) = [''/'' @ v]"
  using words_token [of "''/'' @ v" "[]"] by (auto simp: menu_verb_def list_all_iff c_isspace_def)

text \<open>The room verbs take on a line, one more than their text.\<close>

definition verbs_room :: "string list \<Rightarrow> nat" where
  "verbs_room vs = sum_list (map (\<lambda>v. length v + 2) vs)"

text \<open>No run of the verbs fills a line to its last column.\<close>

definition no_full_line :: "string list \<Rightarrow> bool" where
  "no_full_line vs \<longleftrightarrow>
     list_all (\<lambda>i. list_all (\<lambda>j. verbs_room (take j (drop i vs)) \<noteq> MENU_CMD_FIELD_MAX + 1) [0..<Suc (length vs)]) [0..<Suc (length vs)]"

lemma no_full_line_run: "no_full_line (pre @ ws @ post) \<Longrightarrow> verbs_room ws \<noteq> 68"
proof -
  assume n: "no_full_line (pre @ ws @ post)"
  have "length pre \<in> set [0..<Suc (length (pre @ ws @ post))]" "length ws \<in> set [0..<Suc (length (pre @ ws @ post))]" by auto
  then have "verbs_room (take (length ws) (drop (length pre) (pre @ ws @ post))) \<noteq> MENU_CMD_FIELD_MAX + 1"
    using n unfolding no_full_line_def list_all_iff by blast
  then show ?thesis by (simp add: MENU_CMD_FIELD_MAX_def TEXT_LINE_MAX_def)
qed

text \<open>The chunk holds a run of the verbs.\<close>

definition chunk_of :: "string \<Rightarrow> string list \<Rightarrow> bool" where
  "chunk_of chunk ws \<longleftrightarrow> (chunk = [] \<longleftrightarrow> ws = []) \<and> (ws \<noteq> [] \<longrightarrow> length chunk + 1 = verbs_room ws)"

lemma wrap_loop_words:
  assumes "length label \<le> 10" and "no_full_line verbs"
  shows "list_all menu_verb vs \<Longrightarrow> verbs = pre @ ws @ vs \<Longrightarrow> chunk_of chunk ws \<Longrightarrow> length chunk \<le> 66 \<Longrightarrow>
    list_all (\<lambda>l. length l < TEXT_LINE_MAX) lines \<Longrightarrow> wrap_loop label vs chunk lines = (chunk', lines') \<Longrightarrow>
    concat (map shown_words lines') @ words chunk' = concat (map shown_words lines) @ words chunk @ map (\<lambda>v. ''/'' @ v) vs
    \<and> length chunk' \<le> 66 \<and> list_all (\<lambda>l. length l < TEXT_LINE_MAX) lines'"
proof (induction vs arbitrary: chunk lines pre ws)
  case (Cons v vs)
  have v: "menu_verb v" "v \<noteq> []" "length v < 32" using Cons.prems(1) by (auto simp: menu_verb_def CMD_VERB_MAX_def)
  have vs: "list_all menu_verb vs" using Cons.prems(1) by simp
  let ?e = "\<lambda>l. emit_menu_line (if lines = [] then label else []) chunk (lines \<noteq> [])"
  have e: "shown_words (?e lines) = words chunk" "length (?e lines) < TEXT_LINE_MAX"
    using emit_menu_line_words [of "if lines = [] then label else []" chunk] assms Cons.prems(4) by simp_all
  have new: "verbs = (pre @ ws) @ [v] @ vs" "chunk_of (''/'' @ v) [v]" "length (''/'' @ v) \<le> 66"
    using Cons.prems(2) v by (simp_all add: chunk_of_def verbs_room_def)
  have max: "MENU_CMD_FIELD_MAX = 67" by (simp add: MENU_CMD_FIELD_MAX_def TEXT_LINE_MAX_def)
  consider "chunk = []" | "chunk \<noteq> []" "length v + 2 + length chunk \<le> 67" | "chunk \<noteq> []" "length v + 2 + length chunk > 67"
    by linarith
  then show ?case
  proof cases
    case 1
    then have "wrap_loop label vs (''/'' @ v) lines = (chunk', lines')"
      using Cons.prems(6) v by (simp add: max)
    from Cons.IH [OF vs new Cons.prems(5) this] 1 words_verb [OF v(1)] show ?thesis by simp
  next
    case 2
    have t: "verbs = pre @ (ws @ [v]) @ vs" using Cons.prems(2) by simp
    have c: "chunk_of (chunk @ '' /'' @ v) (ws @ [v])"
      using Cons.prems(3) 2(1) by (auto simp: chunk_of_def verbs_room_def)
    have "verbs_room (ws @ [v]) \<noteq> 68" using assms(2) unfolding t by (rule no_full_line_run)
    with c 2 have l: "length (chunk @ '' /'' @ v) \<le> 66" by (auto simp: chunk_of_def)
    have "wrap_loop label vs (chunk @ '' /'' @ v) lines = (chunk', lines')"
    proof -
      have "\<not> 68 - length chunk \<le> Suc (Suc (length v))" using 2 by linarith
      then show ?thesis using Cons.prems(6) v 2 by (simp add: max)
    qed
    from Cons.IH [OF vs t c l Cons.prems(5) this] words_verb [OF v(1)] words_append [of chunk "''/'' @ v"]
    show ?thesis by simp
  next
    case 3
    then have "wrap_loop label vs (''/'' @ v) (lines @ [?e lines]) = (chunk', lines')"
      using Cons.prems(6) v by (simp add: max)
    from Cons.IH [OF vs new _ this] Cons.prems(5) e words_verb [OF v(1)] show ?thesis by simp
  qed
qed simp

lemma emit_verbs_words:
  assumes "length label \<le> 10" and "list_all menu_verb vs" and "no_full_line vs"
  shows "concat (map shown_words (emit_verbs_wrapped label vs)) = map (\<lambda>v. ''/'' @ v) vs
     \<and> list_all (\<lambda>l. length l < TEXT_LINE_MAX) (emit_verbs_wrapped label vs)"
proof -
  obtain chunk lines where w: "wrap_loop label vs [] [] = (chunk, lines)" by fastforce
  have "chunk_of [] []" by (simp add: chunk_of_def)
  from wrap_loop_words [OF assms(1,3,2) _ this _ _ w, of "[]"]
  have r: "concat (map shown_words lines) @ words chunk = map (\<lambda>v. ''/'' @ v) vs" "length chunk \<le> 66"
    "list_all (\<lambda>l. length l < TEXT_LINE_MAX) lines" by simp_all
  have "shown_words (emit_menu_line (if lines = [] then label else []) chunk (lines \<noteq> [])) = words chunk
      \<and> length (emit_menu_line (if lines = [] then label else []) chunk (lines \<noteq> [])) < TEXT_LINE_MAX"
    using emit_menu_line_words [of "if lines = [] then label else []" chunk] assms(1) r(2) by simp
  with r w show ?thesis by (cases "chunk = []") (simp_all add: emit_verbs_wrapped_def)
qed

lemma collect_verbs_filter:
  "list_all menu_verb vs \<Longrightarrow> length out \<le> cap \<Longrightarrow>
   collect_verbs reg level flt cap vs out = take cap (out @ List.filter (verb_shown reg level flt) vs)"
proof (induction vs arbitrary: out)
  case (Cons v vs)
  have "str_store CMD_VERB_MAX v = v" using Cons.prems(1) by (simp add: menu_verb_def CMD_VERB_MAX_def)
  then show ?case
    using Cons.IH [of out] Cons.IH [of "out @ [v]"] Cons.prems by (cases "length out = cap") auto
qed simp

text \<open>
  C36. The menu of an area shows to a level exactly the verbs of the area that the level may use, each once
  and in the file's order, wrapped into lines that fit the terminal (labels up to ten characters, up to
  sixteen verbs, no run of which fills a line to its last column).
\<close>

theorem menu_shows_allowed:
  assumes "length (ma_label area) \<le> 10" and "list_all menu_verb (ma_verbs area)" and "ma_subareas area = []"
    and "length (ma_verbs area) \<le> COMMANDS_VERBS_PER_GROUP"
    and "no_full_line (List.filter (hybbx_commands_registry_verb_allowed reg level) (ma_verbs area))"
  shows "concat (map shown_words (render_area reg area level True))
           = map (\<lambda>v. ''/'' @ v) (List.filter (hybbx_commands_registry_verb_allowed reg level) (ma_verbs area))
     \<and> list_all (\<lambda>l. length l < TEXT_LINE_MAX) (render_area reg area level True)"
proof -
  let ?vs = "List.filter (hybbx_commands_registry_verb_allowed reg level) (ma_verbs area)"
  have "length ?vs \<le> COMMANDS_VERBS_PER_GROUP" using assms(4) length_filter_le order_trans by blast
  then have c: "collect_area_verbs reg area level True COMMANDS_VERBS_PER_GROUP = ?vs"
    using collect_verbs_filter [OF assms(2), of "[]" COMMANDS_VERBS_PER_GROUP reg level True] assms(3)
    by (simp add: collect_area_verbs_def verb_shown_def [abs_def])
  have "list_all menu_verb ?vs" using assms(2) by (auto simp: list_all_iff)
  from emit_verbs_words [OF assms(1) this assms(5)] show ?thesis
    unfolding render_area_def c Let_def by simp
qed

definition menu_example :: commands_registry where
  "menu_example = registry_zero\<lparr>cr_loaded := True,
     cr_commands := [(command_new ''help''), (command_new ''shutdown'')\<lparr>cd_only_level := LEVEL_SYSOP\<rparr>]\<rparr>"

theorem menu_shows_allowed_witness:
  "concat (map shown_words (render_area menu_example
      \<lparr>ma_label = ''General'', ma_verbs = [''help'', ''shutdown''], ma_subareas = []\<rparr> LEVEL_USER True)) = [''/help'']"
proof -
  have "List.filter (hybbx_commands_registry_verb_allowed menu_example LEVEL_USER) [''help'', ''shutdown''] = [''help'']"
    by code_simp
  moreover have "no_full_line [''help'']" by code_simp
  ultimately show ?thesis
    using menu_shows_allowed [of "\<lparr>ma_label = ''General'', ma_verbs = [''help'', ''shutdown''], ma_subareas = []\<rparr>"
        menu_example LEVEL_USER]
    by (simp add: menu_verb_def CMD_VERB_MAX_def c_isspace_def COMMANDS_VERBS_PER_GROUP_def)
qed

text \<open>
  A line that is filled to the bound the wrapping allows is one character too long for the buffer it
  is printed into: the last verb on it loses its last letter.
\<close>

theorem full_menu_line_cut:
  assumes "length label \<le> 10" and "length chunk = MENU_CMD_FIELD_MAX"
  shows "\<exists>field. length field = 13 \<and> emit_menu_line label chunk cont = field @ butlast chunk"
proof (intro exI conjI)
  let ?f = "if cont then replicate 13 CHR '' '' else ''  '' @ pad10 label @ '' ''"
  show "length ?f = 13" using assms(1) by (simp add: pad10_def)
  have "take 66 chunk = butlast chunk" using assms(2) by (simp add: butlast_conv_take MENU_CMD_FIELD_MAX_def TEXT_LINE_MAX_def)
  then show "emit_menu_line label chunk cont = ?f @ butlast chunk" by (simp add: emit_menu_line_text [OF assms(1)])
qed

theorem full_menu_line_cut_witness:
  "\<exists>field. length field = 13 \<and> emit_menu_line ''General'' (replicate 66 CHR ''x'' @ ''y'') False = field @ replicate 66 CHR ''x''"
  using full_menu_line_cut [of "''General''" "replicate 66 CHR ''x'' @ ''y''" False]
  by (simp add: MENU_CMD_FIELD_MAX_def TEXT_LINE_MAX_def)

end
