(* ===== verification/Registry_Bounds.thy ===== *)
theory Registry_Bounds imports Registry_Access begin

text \<open>
  The registry fits its arrays whatever the files hold, and loading comes to an end.
\<close>

section \<open>Bounds\<close>

text \<open>What the arrays of the registry can hold.\<close>

definition area_ok :: "menu_area \<Rightarrow> bool" where
  "area_ok a \<longleftrightarrow> length (ma_label a) < LABEL_MAX \<and> length (ma_verbs a) \<le> COMMANDS_VERBS_PER_GROUP
     \<and> list_all (\<lambda>v. length v < CMD_VERB_MAX) (ma_verbs a) \<and> length (ma_subareas a) \<le> AREAS_SUB_MAX
     \<and> list_all (\<lambda>s. s = []) (ma_subareas a)"

definition alias_ok :: "alias_entry \<Rightarrow> bool" where
  "alias_ok e \<longleftrightarrow> length (ae_canonical e) < CMD_VERB_MAX \<and> length (ae_aliases e) \<le> COMMANDS_ALIAS_PER
     \<and> list_all (\<lambda>a. length a < CMD_VERB_MAX) (ae_aliases e)"

definition command_ok :: "command_def \<Rightarrow> bool" where
  "command_ok d \<longleftrightarrow> length (cd_verb d) < CMD_VERB_MAX \<and> length (cd_group d) < LABEL_MAX
     \<and> length (cd_line1 d) < COMMANDS_HELP_LINE_MAX \<and> length (cd_line2 d) < COMMANDS_HELP_LINE_MAX
     \<and> cd_min_level d \<noteq> LEVEL_NONE"

definition rights_ok :: "commands_registry \<Rightarrow> bool" where
  "rights_ok reg \<longleftrightarrow> list_all (\<lambda>r. length (tr_targets r) \<le> 5)
       (cr_userchange_rules reg @ cr_userdelete_rules reg @ cr_delete_rules reg)
     \<and> list_all (\<lambda>r. length (pr_from_levels r) \<le> 4) (cr_promote_rules reg)
     \<and> list_all (\<lambda>r. length (dr_from_levels r) \<le> 4) (cr_demote_rules reg) \<and>
     length (cr_userchange_rules reg) \<le> RIGHTS_TARGET_RULES_MAX \<and> length (cr_userdelete_rules reg) \<le> RIGHTS_TARGET_RULES_MAX
     \<and> length (cr_delete_rules reg) \<le> RIGHTS_TARGET_RULES_MAX \<and> length (cr_promote_rules reg) \<le> RIGHTS_PROMOTE_RULES_MAX
     \<and> length (cr_demote_rules reg) \<le> RIGHTS_DEMOTE_RULES_MAX"

definition menu_ok :: "string \<times> string list \<Rightarrow> bool" where
  "menu_ok m \<longleftrightarrow> length (fst m) < LABEL_MAX \<and> length (snd m) \<le> MENU_AREAS_PER_LEVEL
     \<and> list_all (\<lambda>l. length l < LABEL_MAX) (snd m)"

definition areas_ok :: "commands_registry \<Rightarrow> bool" where
  "areas_ok reg \<longleftrightarrow> length (cr_areas reg) \<le> AREAS_MAX \<and> list_all area_ok (cr_areas reg)
     \<and> length (cr_menu reg) \<le> MENU_LEVELS_MAX
     \<and> list_all menu_ok (cr_menu reg)
     \<and> length (cr_index_labels reg) \<le> MENU_AREAS_PER_LEVEL \<and> list_all (\<lambda>l. length l < LABEL_MAX) (cr_index_labels reg)
     \<and> length (cr_menu_header reg) < COMMANDS_HEADER_MAX \<and> length (cr_index_header reg) < COMMANDS_HEADER_MAX
     \<and> length (cr_alias_header reg) < COMMANDS_HEADER_MAX"

definition verbs_ok :: "commands_registry \<Rightarrow> bool" where
  "verbs_ok reg \<longleftrightarrow> length (cr_aliases reg) \<le> COMMANDS_ALIASES_MAX \<and> list_all alias_ok (cr_aliases reg)
     \<and> length (cr_commands reg) \<le> COMMANDS_MAX \<and> list_all command_ok (cr_commands reg)"

definition registry_ok :: "commands_registry \<Rightarrow> bool" where
  "registry_ok reg \<longleftrightarrow> rights_ok reg \<and> areas_ok reg \<and> verbs_ok reg"

text \<open>The pointers point into what has been filled.\<close>

definition commands_state_ok :: "commands_state \<Rightarrow> bool" where
  "commands_state_ok st \<longleftrightarrow> registry_ok (cs_reg st)
     \<and> (\<forall>i. cs_cmd st = Some i \<longrightarrow> i < length (cr_commands (cs_reg st)))
     \<and> (cs_alias st \<noteq> [] \<longrightarrow> cr_aliases (cs_reg st) \<noteq> [])"

definition areas_state_ok :: "areas_state \<Rightarrow> bool" where
  "areas_state_ok st \<longleftrightarrow> areas_ok (as_reg st)
     \<and> (\<forall>i. as_area st = Some i \<longrightarrow> i < length (cr_areas (as_reg st)))"

lemma str_store_less: "0 < cap \<Longrightarrow> length (str_store cap s) < cap"
  by (simp add: str_store_def)

lemma level_parse_nonzero: "hybbx_user_level_parse s \<noteq> LEVEL_NONE" by simp

lemma list_modify_length [simp]: "length (list_modify i f xs) = length xs" "list_modify i f xs = [] \<longleftrightarrow> xs = []"
  by (simp_all add: list_modify_def)

lemma bracket_loop_bounded:
  "bracket_loop cap p out = Some y \<Longrightarrow>
   length out \<le> cap \<and> list_all (\<lambda>t. length t < CMD_VERB_MAX) out \<longrightarrow>
   length (snd y) \<le> cap \<and> list_all (\<lambda>t. length t < CMD_VERB_MAX) (snd y)"
proof (erule bracket_loop.raw_induct [where P = "\<lambda>cap p out y. length out \<le> cap \<and> list_all (\<lambda>t. length t < CMD_VERB_MAX) out \<longrightarrow>
    length (snd y) \<le> cap \<and> list_all (\<lambda>t. length t < CMD_VERB_MAX) (snd y)", rotated], goal_cases)
  case (1 loop cap p out y)
  have t: "length (list_token q) < CMD_VERB_MAX" for q by (simp add: list_token_def CMD_VERB_MAX_def)
  show ?case using 1(2) 1(1) t by (auto split: if_splits)
qed

lemma parse_bracket_list_bounded:
  "parse_bracket_list cap text = Some (rc, toks) \<Longrightarrow> length toks \<le> cap \<and> list_all (\<lambda>t. length t < CMD_VERB_MAX) toks"
  using bracket_loop_bounded [of cap _ "[]"] by (fastforce simp: parse_bracket_list_def split: if_splits)

lemma parse_level_list_bounded:
  "parse_level_list cap text old = Some ls \<Longrightarrow> length old \<le> cap \<Longrightarrow> length ls \<le> cap"
  using parse_bracket_list_bounded by (auto simp: parse_level_list_def split: option.splits if_splits)

lemma list_all_append_one: "list_all P xs \<Longrightarrow> P x \<Longrightarrow> list_all P (xs @ [x])" by simp

lemma areas_ok_set_area:
  assumes "areas_ok reg" and "i < length (cr_areas reg) \<Longrightarrow> area_ok (cr_areas reg ! i) \<Longrightarrow> area_ok (f (cr_areas reg ! i))"
  shows "areas_ok (set_area i f reg)"
  using assms by (cases "i < length (cr_areas reg)") (auto simp: areas_ok_def set_area_def list_all_length nth_list_update)

lemma area_field_ok:
  assumes "areas_state_ok st" and "i < length (cr_areas (as_reg st))" and "area_field i line st = Some st'"
  shows "areas_state_ok st'"
proof -
  have m: "areas_ok reg \<Longrightarrow> (\<And>a. area_ok a \<Longrightarrow> area_ok (f a)) \<Longrightarrow> areas_ok (set_area i f reg)" for reg f
    by (rule areas_ok_set_area)
  have f: "area_ok a \<Longrightarrow> area_ok (a\<lparr>ma_label := str_store LABEL_MAX s\<rparr>)" for a s
    by (simp add: area_ok_def str_store_less LABEL_MAX_def)
  have g: "parse_bracket_list COMMANDS_VERBS_PER_GROUP t = Some (rc, verbs) \<Longrightarrow> area_ok a \<Longrightarrow> area_ok (a\<lparr>ma_verbs := verbs\<rparr>)"
    for a t rc verbs
    using parse_bracket_list_bounded by (fastforce simp: area_ok_def)
  show ?thesis
    using assms m f g unfolding area_field_def areas_state_ok_def
    by (auto simp: set_area_def split: option.splits prod.splits if_splits)
qed

lemma areas_ok_grow:
  assumes "areas_ok reg"
  shows "length (cr_areas reg) < AREAS_MAX \<Longrightarrow>
      areas_ok (reg\<lparr>cr_areas := cr_areas reg @ [\<lparr>ma_label = [], ma_verbs = [], ma_subareas = []\<rparr>]\<rparr>)"
    and "length (cr_menu reg) < MENU_LEVELS_MAX \<Longrightarrow> areas_ok (reg\<lparr>cr_menu := cr_menu reg @ [(str_store LABEL_MAX s, [])]\<rparr>)"
    and "length (cr_index_labels reg) < MENU_AREAS_PER_LEVEL \<Longrightarrow>
      areas_ok (reg\<lparr>cr_index_labels := cr_index_labels reg @ [str_store LABEL_MAX s]\<rparr>)"
  using assms by (simp_all add: areas_ok_def area_ok_def menu_ok_def str_store_less LABEL_MAX_def)

lemma areas_meta_line_ok: "areas_state_ok st \<Longrightarrow> areas_state_ok (areas_meta_line line st)"
  by (auto simp: areas_meta_line_def areas_state_ok_def areas_ok_def str_store_less
      COMMANDS_HEADER_MAX_def Let_def split: option.split)

lemma areas_area_line_ok:
  assumes ok: "areas_state_ok st" and st': "areas_area_line indent line st = Some st'"
  shows "areas_state_ok st'"
proof (cases "indent = 2 \<and> hd line = CHR ''-''")
  case True
  show ?thesis
  proof (cases "length (cr_areas (as_reg st)) \<ge> AREAS_MAX")
    case False
    let ?n = "length (cr_areas (as_reg st))"
    let ?s = "st\<lparr>as_area := Some ?n, as_subarea := None, as_reg := (as_reg st)\<lparr>cr_areas := cr_areas (as_reg st) @
        [\<lparr>ma_label = [], ma_verbs = [], ma_subareas = []\<rparr>]\<rparr>\<rparr>"
    have f: "area_field ?n (trim_inplace (tl line)) ?s = Some st'"
      using True False st' by (simp add: areas_area_line_def Let_def)
    have "areas_state_ok ?s"
      using areas_ok_grow(1) [of "as_reg st"] ok False by (simp add: areas_state_ok_def)
    then show ?thesis by (rule area_field_ok [OF _ _ f]) simp
  qed (use True ok st' in \<open>simp add: areas_area_line_def Let_def\<close>)
next
  case False
  show ?thesis
  proof (cases "as_area st")
    case None
    with False ok st' show ?thesis by (auto simp: areas_area_line_def Let_def split: if_splits)
  next
    case (Some i)
    have i: "i < length (cr_areas (as_reg st))" using ok Some by (simp add: areas_state_ok_def)
    show ?thesis
    proof (cases "indent = 4 \<and> hd line = CHR ''-''")
      case True
      have g: "areas_ok (set_area i (ma_subareas_update (\<lambda>ss. ss @ [[]])) (as_reg st))"
        if "length (ma_subareas (cr_areas (as_reg st) ! i)) < AREAS_SUB_MAX"
        using ok that by (intro areas_ok_set_area) (simp_all add: areas_state_ok_def area_ok_def)
      show ?thesis
        using True False Some st' ok g i
        by (auto simp: areas_area_line_def Let_def areas_state_ok_def set_area_def split: if_splits)
    next
      case no: False
      show ?thesis
      proof (cases "indent \<ge> 4")
        case True
        with no False Some st' have "area_field i line st = Some st'" by (auto simp: areas_area_line_def Let_def)
        then show ?thesis by (rule area_field_ok [OF ok i])
      qed (use no False Some st' ok in \<open>auto simp: areas_area_line_def Let_def split: if_splits\<close>)
    qed
  qed
qed

lemma areas_menu_line_ok: "areas_state_ok st \<Longrightarrow> areas_state_ok (areas_menu_line indent line st)"
proof -
  assume ok: "areas_state_ok st"
  have add: "areas_ok (reg\<lparr>cr_menu := (cr_menu reg)[i := (name, labels @ [str_store LABEL_MAX s])]\<rparr>)"
    if "areas_ok reg" "cr_menu reg ! i = (name, labels)" "length labels < MENU_AREAS_PER_LEVEL" for reg i name labels s
  proof (cases "i < length (cr_menu reg)")
    case True
    have "menu_ok (cr_menu reg ! i)"
      using that(1) True by (simp add: areas_ok_def list_all_length)
    then have "menu_ok (name, labels @ [str_store LABEL_MAX s])"
      using that by (simp add: menu_ok_def str_store_less LABEL_MAX_def)
    then show ?thesis using that(1) by (simp add: areas_ok_def list_all_update)
  qed (use that(1) in \<open>simp add: list_update_beyond\<close>)
  show ?thesis
    using ok add [of "as_reg st"] areas_ok_grow(2) [of "as_reg st"]
    by (auto simp: areas_menu_line_def areas_state_ok_def Let_def split: option.split prod.split)
qed

lemma areas_line_ok: "areas_state_ok st \<Longrightarrow> areas_line buf st = Some st' \<Longrightarrow> areas_state_ok st'"
proof -
  assume ok: "areas_state_ok st" and st': "areas_line buf st = Some st'"
  have i: "areas_state_ok (st\<lparr>as_reg := (as_reg st)\<lparr>cr_index_labels := cr_index_labels (as_reg st) @ [str_store LABEL_MAX s]\<rparr>\<rparr>)"
    if "length (cr_index_labels (as_reg st)) < MENU_AREAS_PER_LEVEL" for s
    using ok areas_ok_grow(3) [OF _ that] by (simp add: areas_state_ok_def)
  have h: "areas_state_ok (st\<lparr>as_area := None, as_subarea := None, as_menu_level := [], as_section := sec\<rparr>)" for sec
    using ok by (simp add: areas_state_ok_def)
  show ?thesis
    using st' ok i h areas_meta_line_ok [OF ok] areas_area_line_ok [OF ok] areas_menu_line_ok [OF ok]
    unfolding areas_line_def Let_def by (auto split: if_splits simp del: not_less)
qed

lemma parse_areas_yaml_ok:
  "areas_ok reg \<Longrightarrow> parse_areas_yaml file reg = Some (rc, reg') \<Longrightarrow> areas_ok reg'"
proof -
  assume reg: "areas_ok reg" and p: "parse_areas_yaml file reg = Some (rc, reg')"
  show ?thesis
  proof (cases "file")
    case (Some contents)
    let ?s = "\<lparr>as_section = ASEC_NONE, as_area = None, as_subarea = None, as_menu_level = [], as_reg = reg\<rparr>"
    obtain st where st: "fold_option areas_line (fgets_lines contents) ?s = Some st"
      using p Some by (auto simp: parse_areas_yaml_def split: option.splits)
    have "areas_state_ok st"
      by (rule fold_option_invariant [OF st, where I = areas_state_ok])
         (simp add: areas_state_ok_def reg, rule areas_line_ok)
    then have a: "areas_ok (as_reg st)" by (simp add: areas_state_ok_def)
    then have "areas_ok ((as_reg st)\<lparr>cr_index_labels :=
        map (\<lambda>a. str_store LABEL_MAX (ma_label a)) (take MENU_AREAS_PER_LEVEL (cr_areas (as_reg st)))\<rparr>)"
      by (simp add: areas_ok_def list_all_length str_store_less LABEL_MAX_def)
    with a p Some st show ?thesis by (auto simp: parse_areas_yaml_def Let_def split: if_splits)
  qed (use reg p in \<open>simp add: parse_areas_yaml_def\<close>)
qed

lemma list_all_at: "list_all P xs \<Longrightarrow> P (xs ! i) \<or> (\<forall>f. list_modify i f xs = xs)"
  by (cases "i < length xs") (auto simp: list_all_length list_modify_def list_update_beyond)

lemma rights_ok_set_target:
  "rights_ok reg \<Longrightarrow> (\<And>r. length (tr_targets r) \<le> 5 \<Longrightarrow> length (tr_targets (f r)) \<le> 5) \<Longrightarrow> rights_ok (set_target p f reg)"
  by (auto simp: set_target_def rights_ok_def list_all_modify split: prod.split right_kind.split)

lemma target_field_ok:
  assumes "rights_ok reg" and "target_field p key t reg = Some reg'"
  shows "rights_ok reg'"
proof -
  have g: "length (tr_targets (get_target p reg)) \<le> 5 \<or> (\<forall>f. set_target p f reg = reg)"
  proof -
    obtain k i where p: "p = (k, i)" by (cases p)
    let ?P = "\<lambda>r. length (tr_targets r) \<le> 5"
    have "list_all ?P (cr_userchange_rules reg)" "list_all ?P (cr_userdelete_rules reg)" "list_all ?P (cr_delete_rules reg)"
      using assms(1) by (simp_all add: rights_ok_def)
    from this [THEN list_all_at, of i] show ?thesis
      by (cases k) (auto simp: p get_target_def set_target_def target_zero_def)
  qed
  have s: "parse_level_list 5 t (tr_targets (get_target p reg)) = Some ls \<Longrightarrow> rights_ok (set_target p (tr_targets_update (\<lambda>_. ls)) reg)" for ls
    using g
  proof
    assume "parse_level_list 5 t (tr_targets (get_target p reg)) = Some ls" "length (tr_targets (get_target p reg)) \<le> 5"
    from parse_level_list_bounded [OF this] assms(1) show ?thesis by (simp add: rights_ok_set_target)
  next
    assume "\<forall>f. set_target p f reg = reg"
    with assms(1) show ?thesis by simp
  qed
  show ?thesis
    using assms s by (auto simp: target_field_def rights_ok_set_target split: if_splits option.splits)
qed

lemma promote_field_ok:
  assumes "rights_ok reg" and "promote_field i key t reg = Some reg'"
  shows "rights_ok reg'"
proof (cases "i < length (cr_promote_rules reg)")
  case True
  then have "length (pr_from_levels (cr_promote_rules reg ! i)) \<le> 4"
    using assms(1) by (simp add: rights_ok_def list_all_length)
  then have "parse_level_list 4 t (pr_from_levels (cr_promote_rules reg ! i)) = Some ls \<Longrightarrow> length ls \<le> 4" for ls
    using parse_level_list_bounded by blast
  then show ?thesis
    using assms by (auto simp: promote_field_def rights_ok_def list_all_modify Let_def split: if_splits option.splits)
next
  case False
  then have "list_modify i f (cr_promote_rules reg) = cr_promote_rules reg" for f
    by (simp add: list_modify_def list_update_beyond)
  then show ?thesis
    using assms by (auto simp: promote_field_def Let_def split: if_splits option.splits)
qed

lemma demote_field_ok:
  assumes "rights_ok reg" and "demote_field i key t reg = Some reg'"
  shows "rights_ok reg'"
proof (cases "i < length (cr_demote_rules reg)")
  case True
  then have "length (dr_from_levels (cr_demote_rules reg ! i)) \<le> 4"
    using assms(1) by (simp add: rights_ok_def list_all_length)
  then have "parse_level_list 4 t (dr_from_levels (cr_demote_rules reg ! i)) = Some ls \<Longrightarrow> length ls \<le> 4" for ls
    using parse_level_list_bounded by blast
  then show ?thesis
    using assms by (auto simp: demote_field_def rights_ok_def list_all_modify Let_def split: if_splits option.splits)
next
  case False
  then have "list_modify i f (cr_demote_rules reg) = cr_demote_rules reg" for f
    by (simp add: list_modify_def list_update_beyond)
  then show ?thesis
    using assms by (auto simp: demote_field_def Let_def split: if_splits option.splits)
qed

text \<open>The tables of areas and of verbs do not change while rights are read.\<close>

definition same_verbs :: "commands_registry \<Rightarrow> commands_registry \<Rightarrow> bool" where
  "same_verbs a b \<longleftrightarrow> cr_aliases a = cr_aliases b \<and> cr_commands a = cr_commands b \<and> (areas_ok a \<longleftrightarrow> areas_ok b)"

lemma same_verbs_updates [simp]:
  "same_verbs reg (set_target p f reg)"
  "same_verbs reg (reg\<lparr>cr_userchange_rules := ts\<rparr>)" "same_verbs reg (reg\<lparr>cr_userdelete_rules := ts\<rparr>)"
  "same_verbs reg (reg\<lparr>cr_delete_rules := ts\<rparr>)"
  "same_verbs reg (reg\<lparr>cr_promote_rules := ps\<rparr>)" "same_verbs reg (reg\<lparr>cr_demote_rules := ds\<rparr>)" "same_verbs reg reg"
  by (simp_all add: same_verbs_def set_target_def areas_ok_def split: prod.split right_kind.split)

lemma same_verbs_rights:
  "target_field p key t reg = Some reg' \<Longrightarrow> same_verbs reg reg'"
  "promote_field i key t reg = Some reg' \<Longrightarrow> same_verbs reg reg'"
  "demote_field i key t reg = Some reg' \<Longrightarrow> same_verbs reg reg'"
  unfolding target_field_def promote_field_def demote_field_def Let_def
  by (auto split: if_splits option.splits)

lemma rights_step_ok:
  assumes "commands_state_ok st" and "same_verbs (cs_reg st) reg" and "rights_ok reg"
  shows "commands_state_ok (st\<lparr>cs_reg := reg\<rparr>)"
  using assms by (simp add: commands_state_ok_def registry_ok_def same_verbs_def verbs_ok_def)

lemma commands_state_ok_cong:
  "commands_state_ok st \<Longrightarrow> cs_reg st' = cs_reg st \<Longrightarrow> cs_cmd st' = cs_cmd st \<Longrightarrow> cs_alias st' = cs_alias st \<Longrightarrow> commands_state_ok st'"
  by (simp add: commands_state_ok_def)

lemma right_dash_line_ok:
  assumes "commands_state_ok st"
  shows "commands_state_ok (right_dash_line st)"
proof -
  have "cs_cmd (right_dash_line st) = cs_cmd st" "cs_alias (right_dash_line st) = cs_alias st"
    "same_verbs (cs_reg st) (cs_reg (right_dash_line st))"
    by (simp_all add: right_dash_line_def Let_def split: right_kind.split)
  moreover have "rights_ok (cs_reg st)" using assms by (simp add: commands_state_ok_def registry_ok_def)
  then have "rights_ok (cs_reg (right_dash_line st))"
    by (simp add: right_dash_line_def Let_def rights_ok_def target_zero_def promote_zero_def demote_zero_def split: right_kind.split)
  ultimately show ?thesis
    using rights_step_ok [OF assms, of "cs_reg (right_dash_line st)"] by (auto intro: commands_state_ok_cong)
qed

lemma rights_line_ok:
  assumes ok: "commands_state_ok st" and st': "rights_line indent line st = Some st'"
  shows "commands_state_ok st'"
proof -
  have r: "rights_ok (cs_reg st)" using ok by (simp add: commands_state_ok_def registry_ok_def)
  have e: "commands_state_ok st'" if "with_reg st (f (cs_reg st)) = Some st'"
      "\<And>reg. f (cs_reg st) = Some reg \<Longrightarrow> same_verbs (cs_reg st) reg \<and> rights_ok reg" for f
  proof -
    have "\<exists>reg. f (cs_reg st) = Some reg \<and> st\<lparr>cs_reg := reg\<rparr> = st'"
      using that(1) by (simp only: with_reg_def map_option_eq_Some)
    then show ?thesis using that(2) rights_step_ok [OF ok] by blast
  qed
  consider "indent = 2 \<and> ends_with_colon line" | "\<not> (indent = 2 \<and> ends_with_colon line)" "indent = 4 \<and> hd line = CHR ''-''"
    | "\<not> (indent = 2 \<and> ends_with_colon line)" "\<not> (indent = 4 \<and> hd line = CHR ''-'')" "indent \<ge> 6 \<and> key_and_text line \<noteq> None"
    | "st' = st" using st' by (auto simp: rights_line_def split: if_splits option.splits)
  then show ?thesis
  proof cases
    case 1
    then show ?thesis using st' by (auto simp: rights_line_def intro: commands_state_ok_cong [OF ok])
  next
    case 2
    then show ?thesis using st' right_dash_line_ok [OF ok] by (simp add: rights_line_def)
  next
    case 3
    then obtain key t where kt: "key_and_text line = Some (key, t)" by auto
    have "st' = st \<or> with_reg st (target_field (the (cs_target st)) key t (cs_reg st)) = Some st'
        \<or> with_reg st (promote_field (the (cs_promote st)) key t (cs_reg st)) = Some st'
        \<or> with_reg st (demote_field (the (cs_demote st)) key t (cs_reg st)) = Some st'"
      using st' 3 kt by (simp add: rights_line_def split: option.splits)
    then show ?thesis
      by (elim disjE) (use ok in simp,
        (rule e, assumption, blast intro: same_verbs_rights target_field_ok [OF r] promote_field_ok [OF r] demote_field_ok [OF r])+)
  next
    case 4
    with ok show ?thesis by simp
  qed
qed

lemma rights_same [simp]:
  "rights_ok (reg\<lparr>cr_aliases := as\<rparr>) = rights_ok reg" "rights_ok (reg\<lparr>cr_commands := cs\<rparr>) = rights_ok reg"
  "areas_ok (reg\<lparr>cr_aliases := as\<rparr>) = areas_ok reg" "areas_ok (reg\<lparr>cr_commands := cs\<rparr>) = areas_ok reg"
  by (simp_all add: rights_ok_def areas_ok_def)

lemma aliases_line_ok:
  assumes ok: "commands_state_ok st"
  shows "commands_state_ok (aliases_line indent line st)"
proof -
  have s: "length (str_store CMD_VERB_MAX t) < CMD_VERB_MAX" for t by (rule str_store_less) (simp add: CMD_VERB_MAX_def)
  have "list_all alias_ok (list_modify i (ae_aliases_update (\<lambda>as. as @ [str_store CMD_VERB_MAX t])) as)"
    if "list_all alias_ok as" "length (ae_aliases (as ! i)) < COMMANDS_ALIAS_PER" for as i t
    using that(1) unfolding list_modify_def
  proof (rule list_all_update_at)
    show "alias_ok (as ! i) \<Longrightarrow> alias_ok (ae_aliases_update (\<lambda>as. as @ [str_store CMD_VERB_MAX t]) (as ! i))"
      using that(2) s by (simp add: alias_ok_def)
  qed
  then show ?thesis
    using ok s by (auto simp: aliases_line_def Let_def commands_state_ok_def registry_ok_def verbs_ok_def alias_ok_def)
qed

lemma command_field_ok:
  assumes "verbs_ok reg"
  shows "verbs_ok (command_field i key t reg) \<and> rights_ok (command_field i key t reg) = rights_ok reg
     \<and> areas_ok (command_field i key t reg) = areas_ok reg \<and> cr_aliases (command_field i key t reg) = cr_aliases reg
     \<and> length (cr_commands (command_field i key t reg)) = length (cr_commands reg)"
proof -
  have s: "length (str_store LABEL_MAX u) < LABEL_MAX" "length (str_store COMMANDS_HELP_LINE_MAX u) < COMMANDS_HELP_LINE_MAX" for u
    by (rule str_store_less, simp add: LABEL_MAX_def COMMANDS_HELP_LINE_MAX_def)+
  have "list_all command_ok (list_modify i f (cr_commands reg))" if "\<And>d. command_ok d \<Longrightarrow> command_ok (f d)" for f
    using assms that by (simp add: verbs_ok_def list_all_modify)
  then show ?thesis
    using assms s by (simp add: command_field_def Let_def verbs_ok_def command_ok_def)
qed

lemma command_line_ok:
  assumes ok: "commands_state_ok st"
  shows "commands_state_ok (command_line indent line st)"
proof -
  have r: "verbs_ok (cs_reg st)" using ok by (simp add: commands_state_ok_def registry_ok_def)
  have "command_ok (command_new v)" for v
    by (simp add: command_ok_def command_new_def str_store_less CMD_VERB_MAX_def LABEL_MAX_def COMMANDS_HELP_LINE_MAX_def)
  then show ?thesis
    using ok command_field_ok [OF r]
    by (auto simp: command_line_def Let_def commands_state_ok_def registry_ok_def verbs_ok_def split: option.split)
qed

lemma commands_heading_ok: "commands_state_ok st \<Longrightarrow> commands_state_ok (commands_heading name st)"
  by (simp add: commands_heading_def Let_def commands_state_ok_def)

lemma commands_yaml_line_ok:
  "commands_state_ok st \<Longrightarrow> commands_yaml_line buf st = Some st' \<Longrightarrow> commands_state_ok st'"
proof -
  assume ok: "commands_state_ok st" and st': "commands_yaml_line buf st = Some st'"
  show ?thesis
    using st' ok commands_heading_ok [OF ok] aliases_line_ok [OF ok] command_line_ok [OF ok] rights_line_ok [OF ok]
    unfolding commands_yaml_line_def Let_def by (auto split: if_splits commands_section.splits)
qed

lemma parse_commands_yaml_ok:
  assumes reg: "registry_ok reg" and p: "parse_commands_yaml file reg = Some (rc, reg')"
  shows "registry_ok reg'"
proof (cases "file")
  case (Some contents)
  obtain st where st: "fold_option commands_yaml_line (fgets_lines contents) (commands_start reg) = Some st"
    using p Some by (auto simp: parse_commands_yaml_def split: option.splits)
  have "commands_state_ok st"
    by (rule fold_option_invariant [OF st, where I = commands_state_ok])
       (simp add: commands_state_ok_def commands_start_def reg, rule commands_yaml_line_ok)
  with p Some st show ?thesis by (auto simp: parse_commands_yaml_def commands_state_ok_def)
qed (use reg p in \<open>simp add: parse_commands_yaml_def\<close>)

text \<open>What the reader of \<^verbatim>\<open>areas.yaml\<close> leaves alone.\<close>

definition without_areas :: "commands_registry \<Rightarrow> commands_registry" where
  "without_areas reg = reg\<lparr>cr_menu_header := [], cr_index_header := [], cr_alias_header := [], cr_areas := [],
     cr_menu := [], cr_index_labels := []\<rparr>"

lemma without_areas_same: "rights_ok (without_areas reg) = rights_ok reg" "verbs_ok (without_areas reg) = verbs_ok reg"
  by (simp_all add: without_areas_def rights_ok_def verbs_ok_def)

lemma without_areas_field: "area_field i line st = Some st' \<Longrightarrow> without_areas (as_reg st') = without_areas (as_reg st)"
  by (auto simp: area_field_def set_area_def without_areas_def split: option.splits if_splits)

lemma without_areas_area_line:
  "areas_area_line indent line st = Some st' \<Longrightarrow> without_areas (as_reg st') = without_areas (as_reg st)"
  unfolding areas_area_line_def Let_def
  by (auto split: option.splits if_splits prod.splits dest!: without_areas_field)
     (auto simp: without_areas_def set_area_def)

lemma without_areas_line:
  assumes "areas_line buf st = Some st'"
  shows "without_areas (as_reg st') = without_areas (as_reg st)"
proof -
  have "without_areas (as_reg (areas_meta_line line st)) = without_areas (as_reg st)"
    "without_areas (as_reg (areas_menu_line indent line st)) = without_areas (as_reg st)" for line indent
    by (simp_all add: areas_meta_line_def areas_menu_line_def without_areas_def Let_def split: option.split prod.split)
  then show ?thesis
    using assms without_areas_area_line unfolding areas_line_def Let_def
    by (auto split: if_splits simp: without_areas_def)
qed

lemma without_areas_parse:
  assumes "parse_areas_yaml file reg = Some (rc, reg')"
  shows "without_areas reg' = without_areas reg"
proof (cases "file")
  case (Some contents)
  let ?s = "\<lparr>as_section = ASEC_NONE, as_area = None, as_subarea = None, as_menu_level = [], as_reg = reg\<rparr>"
  obtain st where st: "fold_option areas_line (fgets_lines contents) ?s = Some st"
    using assms Some by (auto simp: parse_areas_yaml_def split: option.splits)
  have "without_areas (as_reg st) = without_areas reg"
    by (rule fold_option_invariant [OF st, where I = "\<lambda>st. without_areas (as_reg st) = without_areas reg"])
       (simp, simp add: without_areas_line)
  with assms Some st show ?thesis
    by (auto simp: parse_areas_yaml_def Let_def without_areas_def split: if_splits)
qed (use assms in \<open>simp add: parse_areas_yaml_def\<close>)

lemma parse_areas_registry_ok:
  "registry_ok reg \<Longrightarrow> parse_areas_yaml file reg = Some (rc, reg') \<Longrightarrow> registry_ok reg'"
  using parse_areas_yaml_ok [of reg "file" rc reg'] without_areas_parse [of "file" reg rc reg']
    without_areas_same [of reg] without_areas_same [of reg']
  by (simp add: registry_ok_def)

section \<open>Alias lines\<close>

lemma alias_text_fits: "alias_ok e \<Longrightarrow> a \<in> set (ae_aliases e) \<Longrightarrow> length (alias_text (ae_canonical e) [] a) < TEXT_LINE_MAX"
  by (auto simp: alias_ok_def alias_text_def list_all_iff CMD_VERB_MAX_def TEXT_LINE_MAX_def)

lemma push_alias_line_bounds:
  "length lines \<le> COMMANDS_ALIAS_LINES \<and> list_all (\<lambda>l. length l < TEXT_LINE_MAX) lines \<Longrightarrow>
   length (push_alias_line line lines) \<le> COMMANDS_ALIAS_LINES
   \<and> list_all (\<lambda>l. length l < TEXT_LINE_MAX) (push_alias_line line lines)"
  by (simp add: push_alias_line_def str_store_less TEXT_LINE_MAX_def)

lemma alias_entry_lines_return:
  assumes "\<And>a. a \<in> set as \<Longrightarrow> length (alias_text c [] a) < TEXT_LINE_MAX"
    and "length lines \<le> COMMANDS_ALIAS_LINES \<and> list_all (\<lambda>l. length l < TEXT_LINE_MAX) lines"
  shows "\<exists>line' lines'. alias_entry_lines c as line lines = Some (line', lines')
     \<and> length lines' \<le> COMMANDS_ALIAS_LINES \<and> list_all (\<lambda>l. length l < TEXT_LINE_MAX) lines'"
  using assms
proof (induction as arbitrary: line lines)
  case Nil
  then show ?case by (subst alias_entry_lines.simps) simp
next
  case (Cons a as)
  have ret: "\<exists>line' lines'. alias_entry_lines c (a # as) l ls = Some (line', lines')
      \<and> length lines' \<le> COMMANDS_ALIAS_LINES \<and> list_all (\<lambda>l. length l < TEXT_LINE_MAX) lines'"
    if "length (alias_text c l a) < TEXT_LINE_MAX - length l"
      "length ls \<le> COMMANDS_ALIAS_LINES \<and> list_all (\<lambda>l. length l < TEXT_LINE_MAX) ls" for l ls
    using Cons.IH [of ls "l @ alias_text c l a"] Cons.prems(1) that
    by (subst alias_entry_lines.simps) simp
  show ?case
  proof (cases "length (alias_text c line a) < TEXT_LINE_MAX - length line")
    case True
    then show ?thesis using ret Cons.prems(2) by blast
  next
    case False
    let ?ls = "push_alias_line (c_snprintf TEXT_LINE_MAX (line @ alias_text c line a)) lines"
    have "alias_entry_lines c (a # as) line lines = alias_entry_lines c (a # as) [] ?ls"
      using False by (subst alias_entry_lines.simps) simp
    moreover have "length (alias_text c [] a) < TEXT_LINE_MAX - length ([] :: string)" using Cons.prems(1) by simp
    ultimately show ?thesis using ret push_alias_line_bounds [OF Cons.prems(2)] by metis
  qed
qed

lemma alias_lines_loop_return:
  "list_all alias_ok es \<Longrightarrow> length lines \<le> COMMANDS_ALIAS_LINES \<and> list_all (\<lambda>l. length l < TEXT_LINE_MAX) lines \<Longrightarrow>
   \<exists>lines'. alias_lines_loop es lines = Some lines'
     \<and> length lines' \<le> COMMANDS_ALIAS_LINES \<and> list_all (\<lambda>l. length l < TEXT_LINE_MAX) lines'"
proof (induction es arbitrary: lines)
  case (Cons e es)
  obtain line' lines' where a: "alias_entry_lines (ae_canonical e) (ae_aliases e) [] lines = Some (line', lines')"
    "length lines' \<le> COMMANDS_ALIAS_LINES \<and> list_all (\<lambda>l. length l < TEXT_LINE_MAX) lines'"
    using alias_entry_lines_return [OF alias_text_fits Cons.prems(2)] Cons.prems(1) by fastforce
  then show ?case
    using Cons.IH [of "if line' \<noteq> [] then push_alias_line line' lines' else lines'"] Cons.prems push_alias_line_bounds [OF a(2)]
    by auto
qed auto

lemma load_either_ok:
  assumes "P reg" and "load_either files parse_fn reg = Some (rc, reg')"
    and "\<And>f r rc r'. P r \<Longrightarrow> parse_fn f r = Some (rc, r') \<Longrightarrow> P r'"
  shows "P reg'"
proof -
  have l: "P r \<Longrightarrow> load_yaml_file f parse_fn r = Some (rc, r') \<Longrightarrow> P r'" for f r rc r'
    using assms(3) by (fastforce simp: load_yaml_file_def split: option.splits if_splits prod.splits)
  obtain rc1 reg1 where 1: "load_yaml_file (fst files) parse_fn reg = Some (rc1, reg1)"
    using assms(2) by (auto simp: load_either_def split: option.splits)
  with l assms(1) have "P reg1" by blast
  with 1 assms(2) l show ?thesis by (auto simp: load_either_def split: if_splits)
qed

lemma registry_zero_ok: "registry_ok registry_zero"
  by (simp add: registry_ok_def rights_ok_def areas_ok_def verbs_ok_def registry_zero_def registry_consts)

lemma build_alias_lines_ok:
  assumes "registry_ok reg"
  shows "\<exists>ls. build_alias_lines reg = Some (reg\<lparr>cr_alias_lines := ls\<rparr>) \<and> length ls \<le> COMMANDS_ALIAS_LINES
     \<and> list_all (\<lambda>l. length l < TEXT_LINE_MAX) ls"
  using alias_lines_loop_return [of "cr_aliases reg" "[]"] assms
  by (auto simp: build_alias_lines_def registry_ok_def verbs_ok_def)

definition loaded_ok :: "commands_registry \<Rightarrow> bool" where
  "loaded_ok reg \<longleftrightarrow> registry_ok reg \<and> length (cr_alias_lines reg) \<le> COMMANDS_ALIAS_LINES
     \<and> list_all (\<lambda>l. length l < TEXT_LINE_MAX) (cr_alias_lines reg)"

lemma registry_ok_update [simp]:
  "registry_ok (reg\<lparr>cr_loaded := b\<rparr>) = registry_ok reg" "registry_ok (reg\<lparr>cr_alias_lines := ls\<rparr>) = registry_ok reg"
  by (simp_all add: registry_ok_def rights_ok_def areas_ok_def verbs_ok_def)

section \<open>Loading comes to an end\<close>

text \<open>A file with no white space but blanks and line ends.\<close>

definition no_tabs :: "string option \<Rightarrow> bool" where
  "no_tabs file \<longleftrightarrow> (case file of None \<Rightarrow> True
     | Some contents \<Rightarrow> list_all (\<lambda>c. c_isspace c \<longrightarrow> c = CHR '' '' \<or> c = CHR 0x0A) contents)"

lemma fgets_lines_chars:
  "l \<in> set (fgets_lines tx) \<Longrightarrow> set l \<subseteq> set tx \<and> CHR 0x0A \<notin> set (butlast l)"
proof (induction tx rule: fgets_lines.induct)
  case (1 tx)
  let ?n = "length (takeWhile (\<lambda>c. c \<noteq> CHR 0x0A) tx)"
  let ?m = "min 511 (?n + 1)"
  have fg: "fst (c_fgets CONFIG_LINE_MAX tx) = take ?m tx" "snd (c_fgets CONFIG_LINE_MAX tx) = drop ?m tx"
    by (simp_all add: c_fgets_def CONFIG_LINE_MAX_def Let_def)
  have ne: "tx \<noteq> []" using "1.prems" by (auto simp: fgets_lines.simps)
  from "1.prems" consider "l = take ?m tx" | "l \<in> set (fgets_lines (drop ?m tx))"
    by (subst (asm) fgets_lines.simps) (auto simp only: ne fg if_False list.set insert_iff)
  then show ?case
  proof cases
    case 1
    have "butlast l = take (length l - 1) tx" unfolding 1 butlast_conv_take by simp
    also have "\<dots> = take (length l - 1) (takeWhile (\<lambda>c. c \<noteq> CHR 0x0A) tx)"
    proof -
      have "length l \<le> ?n + 1" using 1 by simp
      then have "length l - 1 \<le> ?n" by arith
      then show ?thesis by (metis min.absorb2 min.commute take_take takeWhile_eq_take)
    qed
    finally have b: "butlast l = take (length l - 1) (takeWhile (\<lambda>c. c \<noteq> CHR 0x0A) tx)" .
    have "CHR 0x0A \<notin> set (butlast l)" unfolding b by (auto dest!: in_set_takeD set_takeWhileD)
    moreover have "set l \<subseteq> set tx" unfolding 1 by (rule set_take_subset)
    ultimately show ?thesis by blast
  next
    case 2
    from "1.IH" [OF ne] 2 show ?thesis unfolding fg using set_drop_subset by fast
  qed
qed

lemma trim_inplace_set: "set (trim_inplace s) \<subseteq> set s"
  unfolding trim_inplace_def by (auto dest!: set_dropWhileD)

lemma no_tabs_line:
  assumes "no_tabs (Some tx)" and "l \<in> set (fgets_lines tx)"
  shows "spaces_only (trim_inplace l)"
proof -
  note f = fgets_lines_chars [OF assms(2)]
  have c: "\<And>c. c \<in> set l \<Longrightarrow> c_isspace c \<Longrightarrow> c = CHR '' '' \<or> c = CHR 0x0A"
    using assms(1) f by (auto simp: no_tabs_def list_all_iff)
  show ?thesis
  proof (cases "l = []")
    case False
    then have l: "l = butlast l @ [List.last l]" by simp
    show ?thesis
    proof (cases "c_isspace (List.last l)")
      case True
      then have "trim_inplace l = trim_inplace (butlast l)" by (metis l trim_snoc_space)
      then show ?thesis
        using c f trim_inplace_set [of "butlast l"] in_set_butlastD unfolding spaces_only_def list_all_iff by fastforce
    next
      case no: False
      have "List.last l \<noteq> CHR 0x0A" using no by (auto simp: c_isspace_def)
      then have "CHR 0x0A \<notin> set l" using f by (subst l) auto
      then show ?thesis
        using c trim_inplace_set [of l] unfolding spaces_only_def list_all_iff by fastforce
    qed
  qed (simp add: trim_inplace_def spaces_only_def)
qed

lemma spaces_only_subset: "set b \<subseteq> set a \<Longrightarrow> spaces_only a \<Longrightarrow> spaces_only b"
  by (auto simp: spaces_only_def list_all_iff)

lemma yaml_strip_quotes_set: "set (yaml_strip_quotes s) \<subseteq> set s"
proof -
  have "set (tl (butlast u)) \<subseteq> set u" for u :: string
  proof -
    have "set (tl b) \<subseteq> set b" for b :: string by (cases b) auto
    then show ?thesis using in_set_butlastD [of _ u] by fast
  qed
  then show ?thesis
    unfolding yaml_strip_quotes_def strip_quotes_def using trim_inplace_set [of s] by (simp, blast)
qed

lemma key_and_text_set: "key_and_text line = Some (key, t) \<Longrightarrow> set t \<subseteq> set line"
  unfolding key_and_text_def
  using yaml_strip_quotes_set [of "tl (dropWhile (\<lambda>c. c \<noteq> CHR '':'') line)"]
  by (auto split: if_splits) (metis list.sel(2) list.set_sel(2) set_dropWhileD subsetD)

lemma parse_bracket_list_total: "spaces_only t \<Longrightarrow> parse_bracket_list cap t \<noteq> None"
  using bracket_list_terminates_fact [of t cap] by auto

lemma parse_level_list_total: "spaces_only t \<Longrightarrow> parse_level_list cap t old \<noteq> None"
  using parse_bracket_list_total [of t cap] by (auto simp: parse_level_list_def)

lemma area_field_total:
  assumes "spaces_only line"
  shows "area_field i line st \<noteq> None"
proof -
  have "key_and_text line = Some (key, t) \<Longrightarrow> parse_bracket_list COMMANDS_VERBS_PER_GROUP t \<noteq> None" for key t
    using spaces_only_subset [OF key_and_text_set assms] parse_bracket_list_total by blast
  then show ?thesis by (fastforce simp: area_field_def split: option.splits)
qed

lemma areas_area_line_total:
  assumes "spaces_only line"
  shows "areas_area_line indent line st \<noteq> None"
proof -
  have "set (trim_inplace (tl line)) \<subseteq> set line"
    using trim_inplace_set [of "tl line"] by (cases line) auto
  then have t: "area_field i (trim_inplace (tl line)) s \<noteq> None" "area_field i line s \<noteq> None" for i s
    using assms area_field_total spaces_only_subset by blast+
  have b: "key_and_text line = Some (key, u) \<Longrightarrow> parse_bracket_list COMMANDS_VERBS_PER_GROUP u \<noteq> None" for key u
    using spaces_only_subset [OF key_and_text_set assms] parse_bracket_list_total by blast
  show ?thesis
    unfolding areas_area_line_def Let_def using t b by (auto simp del: not_None_eq split: option.splits prod.splits)
qed

lemma areas_line_total: "spaces_only (trim_inplace buf) \<Longrightarrow> areas_line buf st \<noteq> None"
  using areas_area_line_total unfolding areas_line_def Let_def by simp

lemma rights_line_total:
  assumes "spaces_only line"
  shows "rights_line indent line st \<noteq> None"
proof -
  have b: "key_and_text line = Some (key, u) \<Longrightarrow> parse_level_list cap u old \<noteq> None" for key u cap old
    using spaces_only_subset [OF key_and_text_set assms] parse_level_list_total by blast
  have f: "key_and_text line = Some (key, u) \<Longrightarrow> target_field p key u reg \<noteq> None"
    "key_and_text line = Some (key, u) \<Longrightarrow> promote_field i key u reg \<noteq> None"
    "key_and_text line = Some (key, u) \<Longrightarrow> demote_field i key u reg \<noteq> None" for key u p i reg
    using b unfolding target_field_def promote_field_def demote_field_def Let_def
    by (auto simp del: not_None_eq split: option.splits)
  show ?thesis
    unfolding rights_line_def with_reg_def using f by (auto simp del: not_None_eq split: option.splits)
qed

lemma commands_yaml_line_total: "spaces_only (trim_inplace buf) \<Longrightarrow> commands_yaml_line buf st \<noteq> None"
  using rights_line_total unfolding commands_yaml_line_def Let_def by (simp split: commands_section.split)

lemma fold_option_total: "(\<And>x s. x \<in> set xs \<Longrightarrow> f x s \<noteq> None) \<Longrightarrow> fold_option f xs s \<noteq> None"
proof (induction xs arbitrary: s)
  case (Cons x xs)
  then show ?case by (cases "f x s") (auto simp del: not_None_eq)
qed simp

lemma parse_yaml_total:
  assumes "no_tabs f"
  shows "parse_areas_yaml f reg \<noteq> None" and "parse_commands_yaml f reg \<noteq> None"
proof -
  have "f = Some tx \<Longrightarrow> fold_option areas_line (fgets_lines tx) s \<noteq> None" for tx s
    using assms no_tabs_line areas_line_total by (intro fold_option_total) blast
  then show "parse_areas_yaml f reg \<noteq> None"
    by (auto simp: parse_areas_yaml_def Let_def simp del: not_None_eq split: option.splits)
  have "f = Some tx \<Longrightarrow> fold_option commands_yaml_line (fgets_lines tx) s \<noteq> None" for tx s
    using assms no_tabs_line commands_yaml_line_total by (intro fold_option_total) blast
  then show "parse_commands_yaml f reg \<noteq> None"
    by (auto simp: parse_commands_yaml_def simp del: not_None_eq split: option.splits)
qed

lemma load_either_total:
  assumes "\<And>reg. parse_fn (fst files) reg \<noteq> None" and "\<And>reg. parse_fn (snd files) reg \<noteq> None"
  shows "load_either files parse_fn reg \<noteq> None"
proof -
  have "load_yaml_file (fst files) parse_fn r \<noteq> None" "load_yaml_file (snd files) parse_fn r \<noteq> None" for r
    using assms by (auto simp: load_yaml_file_def simp del: not_None_eq split: option.splits)
  then show ?thesis unfolding load_either_def by (auto simp del: not_None_eq split: option.split)
qed

text \<open>
  C35. Whatever the two files hold, a registry that comes out of loading fits its arrays: no table has more
  rows than its array, no string is longer than its field, and at most eight alias lines are built, each
  narrower than the terminal.
\<close>

theorem registry_bounds:
  assumes "hybbx_commands_registry_init areas commands = Some (rc, reg)"
  shows "loaded_ok reg"
proof -
  let ?P = "\<lambda>r. registry_ok r \<and> cr_alias_lines r = []"
  have z: "?P registry_zero" using registry_zero_ok by (simp add: registry_zero_def)
  have step: "?P r \<Longrightarrow> parse_areas_yaml f r = Some (rc', r') \<Longrightarrow> ?P r'" for f r rc' r'
    using parse_areas_registry_ok [of r f rc' r'] arg_cong [OF without_areas_parse [of f r rc' r'], of cr_alias_lines]
    by (simp add: without_areas_def)
  obtain rc1 reg1 where 1: "load_either areas parse_areas_yaml registry_zero = Some (rc1, reg1)"
    using assms by (auto simp: hybbx_commands_registry_init_def hybbx_commands_registry_shutdown_def split: option.splits)
  have ok1: "?P reg1" by (rule load_either_ok [where P = ?P, OF z 1 step])
  show ?thesis
  proof (cases "rc1 = HYBBX_OK")
    case False
    then show ?thesis
      using assms 1 ok1 by (auto simp: hybbx_commands_registry_init_def hybbx_commands_registry_shutdown_def loaded_ok_def)
  next
    case True
    then obtain rc2 reg2 where 2: "load_either commands parse_commands_yaml reg1 = Some (rc2, reg2)"
      using assms 1 by (auto simp: hybbx_commands_registry_init_def hybbx_commands_registry_shutdown_def split: option.splits)
    have ok2: "registry_ok reg2" by (rule load_either_ok [where P = registry_ok, OF conjunct1 [OF ok1] 2 parse_commands_yaml_ok])
    obtain ls where 3: "build_alias_lines reg2 = Some (reg2\<lparr>cr_alias_lines := ls\<rparr>)"
      "length ls \<le> COMMANDS_ALIAS_LINES" "list_all (\<lambda>l. length l < TEXT_LINE_MAX) ls"
      using build_alias_lines_ok [OF ok2] by blast
    show ?thesis
      using assms 1 2 3 True ok2 z
      by (auto simp: hybbx_commands_registry_init_def hybbx_commands_registry_shutdown_def loaded_ok_def
          split: if_splits)
  qed
qed

text \<open>
  C34. Loading comes to an end for all files whose white space is blanks and line ends, with a result:
  neither the lists nor the alias lines can loop for ever.
\<close>

theorem registry_load_terminates:
  assumes "no_tabs (fst areas)" and "no_tabs (snd areas)" and "no_tabs (fst commands)" and "no_tabs (snd commands)"
  shows "\<exists>rc reg. hybbx_commands_registry_init areas commands = Some (rc, reg)"
proof -
  obtain rc1 reg1 where 1: "load_either areas parse_areas_yaml registry_zero = Some (rc1, reg1)"
    using load_either_total [of parse_areas_yaml areas registry_zero] parse_yaml_total(1) assms(1,2) by fastforce
  have ok1: "registry_ok reg1" by (rule load_either_ok [where P = registry_ok, OF registry_zero_ok 1 parse_areas_registry_ok])
  obtain rc2 reg2 where 2: "load_either commands parse_commands_yaml reg1 = Some (rc2, reg2)"
    using load_either_total [of parse_commands_yaml commands reg1] parse_yaml_total(2) assms(3,4) by fastforce
  have ok2: "registry_ok reg2" by (rule load_either_ok [where P = registry_ok, OF ok1 2 parse_commands_yaml_ok])
  then obtain ls where 3: "build_alias_lines reg2 = Some (reg2\<lparr>cr_alias_lines := ls\<rparr>)"
    using build_alias_lines_ok by blast
  show ?thesis
    using 1 2 3 by (cases "rc1 = HYBBX_OK"; cases "rc2 = HYBBX_OK")
      (simp_all add: hybbx_commands_registry_init_def hybbx_commands_registry_shutdown_def)
qed

definition small_areas :: string where
  "small_areas = ''meta:'' @ [CHR 0x0A] @ ''  menu_header: M'' @ [CHR 0x0A] @ ''  index_header: I'' @ [CHR 0x0A]
     @ ''areas:'' @ [CHR 0x0A] @ ''  - label: General'' @ [CHR 0x0A] @ ''    commands: [help, exit]'' @ [CHR 0x0A]"

definition small_commands :: string where
  "small_commands = ''aliases:'' @ [CHR 0x0A] @ ''  exit:'' @ [CHR 0x0A] @ ''    - bye'' @ [CHR 0x0A]
     @ ''commands:'' @ [CHR 0x0A] @ ''  exit:'' @ [CHR 0x0A] @ ''    min: Guest'' @ [CHR 0x0A]"

theorem registry_load_terminates_witness:
  "\<exists>rc reg. hybbx_commands_registry_init (None, Some small_areas) (Some small_commands, None) = Some (rc, reg)"
  by (rule registry_load_terminates) (simp_all add: no_tabs_def small_areas_def small_commands_def c_isspace_def)

theorem registry_bounds_witness:
  "\<exists>rc reg. hybbx_commands_registry_init (None, Some small_areas) (Some small_commands, None) = Some (rc, reg) \<and> loaded_ok reg"
proof -
  have "hybbx_commands_registry_init (None, Some small_areas) (Some small_commands, None) \<noteq> None"
    by code_simp
  then show ?thesis using registry_bounds by fastforce
qed

end
