(* ===== verification/User_Files.thy ===== *)
theory User_Files imports Config Password begin

text \<open>
  The files of the flat-file storage, \<^verbatim>\<open>src/core/storage_flatfile.c\<close>: up to fifty users in an INI
  file, written as text and read back through the configuration reader, counters and nicknames.
  The central fact is that a file of clean records reads back as the records that were written.
\<close>

definition USERS_PER_FILE :: nat where "USERS_PER_FILE = 50"
definition USER_INI_SECTION_PREFIX :: string where "USER_INI_SECTION_PREFIX = ''user.''"

section \<open>Numbers in files\<close>

definition dec_of_int :: "int \<Rightarrow> string" where
  "dec_of_int i = (if i < 0 then CHR ''-'' # dec_of_nat (nat (- i)) else dec_of_nat (nat i))"

text \<open>\<^verbatim>\<open>strtoll(s, NULL, 10)\<close>, saturating.\<close>

definition c_strtoll :: "string \<Rightarrow> int" where
  "c_strtoll s =
     (let t = dropWhile c_isspace s;
          neg = (t \<noteq> [] \<and> hd t = CHR ''-'');
          u = (if t \<noteq> [] \<and> (hd t = CHR ''-'' \<or> hd t = CHR ''+'') then tl t else t);
          v = int (digits_val (takeWhile c_isdigit u))
      in if neg then max (- (2 ^ 63)) (- v) else min (2 ^ 63 - 1) v)"

section \<open>A user's section\<close>

definition hybbx_config_foreach :: "(string \<Rightarrow> string \<Rightarrow> string \<Rightarrow> 's \<Rightarrow> 's) \<Rightarrow> config \<Rightarrow> 's \<Rightarrow> 's" where
  "hybbx_config_foreach fn config ctx =
     foldl (\<lambda>ctx e. fn (ce_section e) (ce_key e) (ce_value e) ctx) ctx (cf_entries config)"

definition hybbx_config_foreach_section :: "(string \<Rightarrow> 's \<Rightarrow> 's) \<Rightarrow> config \<Rightarrow> 's \<Rightarrow> 's" where
  "hybbx_config_foreach_section fn config ctx =
     foldl (\<lambda>ctx i. let section = ce_section (cf_entries config ! i) in
              if list_ex (\<lambda>j. ce_section (cf_entries config ! j) = section) [0..<i] then ctx else fn section ctx)
       ctx [0..<length (cf_entries config)]"

definition user_section_name :: "nat \<Rightarrow> string" where
  "user_section_name uid = USER_INI_SECTION_PREFIX @ dec_of_nat uid"

text \<open>A field that is absent stays empty; one that is there is cut to its array.\<close>

definition user_field :: "config \<Rightarrow> string \<Rightarrow> nat \<Rightarrow> string \<Rightarrow> string" where
  "user_field cfg section cap key =
     (case hybbx_config_get cfg section key None of None \<Rightarrow> [] | Some v \<Rightarrow> str_store cap v)"

definition user_time :: "config \<Rightarrow> string \<Rightarrow> string \<Rightarrow> int" where
  "user_time cfg section key =
     (case hybbx_config_get cfg section key None of
        None \<Rightarrow> 0 | Some v \<Rightarrow> if v = [] then 0 else c_strtoll v)"

definition parse_user_section :: "config \<Rightarrow> string \<Rightarrow> user_record option" where
  "parse_user_section cfg section =
     (if take 5 section \<noteq> USER_INI_SECTION_PREFIX then None
      else case hybbx_config_get cfg section ''id'' None of
        None \<Rightarrow> None
      | Some v \<Rightarrow>
          if v = [] \<or> fst (c_strtoul v) = 0 then None
          else case hybbx_config_get cfg section ''username'' None of
            None \<Rightarrow> None
          | Some name \<Rightarrow>
              if name = [] then None
              else Some
                \<lparr>ur_id = fst (c_strtoul v),
                 ur_username = hybbx_username_normalize (str_store USER_NAME_MAX name),
                 ur_nickname = user_field cfg section USER_NICKNAME_MAX ''nickname'',
                 ur_level = hybbx_user_level_parse (the (hybbx_config_get cfg section ''level'' (Some ''user''))),
                 ur_active = hybbx_config_get_bool cfg section ''active'' 0 \<noteq> 0,
                 ur_created_at = user_time cfg section ''created'',
                 ur_full_name = user_field cfg section USER_FULL_NAME_MAX ''fullname'',
                 ur_country = user_field cfg section USER_COUNTRY_MAX ''country'',
                 ur_location = user_field cfg section USER_LOCATION_MAX ''location'',
                 ur_email = user_field cfg section USER_EMAIL_MAX ''email'',
                 ur_password = user_field cfg section USER_PASSWORD_MAX ''password'',
                 ur_last_login_at = user_time cfg section ''last_login''\<rparr>)"

definition section_list_collect :: "string \<Rightarrow> string \<Rightarrow> string \<Rightarrow> string list \<Rightarrow> string list" where
  "section_list_collect section key v names =
     (if take 5 section \<noteq> USER_INI_SECTION_PREFIX then names
      else if list_ex (\<lambda>n. n = section) names then names
      else if length names \<ge> USERS_PER_FILE then names
      else names @ [str_store CONFIG_SECTION_MAX section])"

text \<open>The users of a file; the number of sections bounds theirs.\<close>

fun collect_users :: "config \<Rightarrow> string list \<Rightarrow> user_record list \<Rightarrow> hybbx_result \<times> user_record list" where
  "collect_users cfg [] users = (HYBBX_OK, users)"
| "collect_users cfg (s # ss) users =
     (case parse_user_section cfg s of
        None \<Rightarrow> collect_users cfg ss users
      | Some u \<Rightarrow>
          if length users \<ge> USERS_PER_FILE then (HYBBX_ERR_IO, users)
          else collect_users cfg ss (users @ [u]))"

definition load_user_shard :: "string option \<Rightarrow> hybbx_result \<times> user_record list" where
  "load_user_shard file =
     (case hybbx_config_load (\<lambda>_. True) file of (rc, cfg) \<Rightarrow>
        if rc \<noteq> HYBBX_OK then (rc, [])
        else collect_users cfg (hybbx_config_foreach section_list_collect cfg []) [])"

text \<open>What is written.\<close>

definition user_fields :: "user_record \<Rightarrow> (string \<times> string) list" where
  "user_fields u =
     [(''id'', dec_of_nat (ur_id u)), (''username'', ur_username u), (''nickname'', ur_nickname u),
      (''level'', hybbx_user_level_name (ur_level u)), (''active'', hybbx_bool_to_string (if ur_active u then 1 else 0)),
      (''created'', dec_of_int (ur_created_at u)), (''fullname'', ur_full_name u), (''country'', ur_country u),
      (''location'', ur_location u), (''email'', ur_email u), (''password'', ur_password u),
      (''last_login'', dec_of_int (ur_last_login_at u))]"

definition field_line :: "string \<times> string \<Rightarrow> string" where
  "field_line kv = fst kv @ '' = '' @ snd kv @ [CHR 0x0A]"

definition user_text :: "user_record \<Rightarrow> string" where
  "user_text u = ''['' @ user_section_name (ur_id u) @ '']'' @ [CHR 0x0A] @ concat (map field_line (user_fields u))"

definition shard_text :: "nat \<Rightarrow> user_record list \<Rightarrow> string" where
  "shard_text shard_index users =
     ''; HyBBX user file (max '' @ dec_of_nat USERS_PER_FILE @ '' users)'' @ [CHR 0x0A]
     @ ''; shard '' @ dec_of_nat shard_index @ [CHR 0x0A, CHR 0x0A] @ concat (map user_text users)"

section \<open>Reading back\<close>

text \<open>A value that the reader takes as it is written.\<close>

definition clean_value :: "string \<Rightarrow> bool" where
  "clean_value v \<longleftrightarrow> clean_text v \<and> reload_value v = v"

definition clean_user :: "user_record \<Rightarrow> bool" where
  "clean_user u \<longleftrightarrow>
     0 < ur_id u \<and> ur_id u < 2 ^ 64 \<and> ur_username u \<noteq> [] \<and> hybbx_username_normalize (ur_username u) = ur_username u
     \<and> ur_level u \<noteq> LEVEL_NONE
     \<and> - (2 ^ 63) \<le> ur_created_at u \<and> ur_created_at u < 2 ^ 63
     \<and> - (2 ^ 63) \<le> ur_last_login_at u \<and> ur_last_login_at u < 2 ^ 63
     \<and> clean_value (ur_username u) \<and> length (ur_username u) < USER_NAME_MAX
     \<and> clean_value (ur_nickname u) \<and> length (ur_nickname u) < USER_NICKNAME_MAX
     \<and> clean_value (ur_full_name u) \<and> length (ur_full_name u) < USER_FULL_NAME_MAX
     \<and> clean_value (ur_country u) \<and> length (ur_country u) < USER_COUNTRY_MAX
     \<and> clean_value (ur_location u) \<and> length (ur_location u) < USER_LOCATION_MAX
     \<and> clean_value (ur_email u) \<and> length (ur_email u) < USER_EMAIL_MAX
     \<and> clean_value (ur_password u) \<and> length (ur_password u) < USER_PASSWORD_MAX"

lemma dec_of_nat_plain: "c \<in> set (dec_of_nat n) \<Longrightarrow> c_isdigit c"
  using dec_of_nat_digits [of n] by blast

lemma dec_of_nat_inject [simp]: "dec_of_nat m = dec_of_nat n \<longleftrightarrow> m = n"
  using dec_of_nat_val by metis

lemma trimmed_no_space: "\<forall>c \<in> set s. \<not> c_isspace c \<Longrightarrow> trimmed s"
  by (cases s) (auto simp: trimmed_def)

lemma plain_chars_clean:
  assumes "\<forall>c \<in> set s. ini_plain_char c \<and> \<not> c_isspace c \<and> c \<noteq> CHR 0x27"
  shows "clean_value s"
proof -
  have t: "trimmed s" using assms by (intro trimmed_no_space) blast
  have c: "clean_text s" using t assms by (auto simp: clean_text_def ini_plain_char_def)
  have "strip_comment_scan False False s = s"
    using assms by (intro strip_comment_scan_id) (auto simp: ini_plain_char_def)
  then have "strip_inline_comment_inplace s = s"
    using t by (auto simp: strip_inline_comment_inplace_def trimmed_def rstrip_id)
  moreover have "strip_quotes s = s"
    using assms by (cases s) (auto simp: strip_quotes_def ini_plain_char_def)
  ultimately show ?thesis using c by (simp add: clean_value_def reload_value_def)
qed

lemma digit_plain: "c_isdigit c \<Longrightarrow> ini_plain_char c \<and> \<not> c_isspace c \<and> c \<noteq> CHR 0x27 \<and> c \<noteq> CHR '']''"
  using char_classes_plain(3) by (auto simp: c_isdigit_not_space c_isdigit_def)

lemma clean_dec: "clean_value (dec_of_nat n)" "clean_value (dec_of_int i)"
proof -
  have "ini_plain_char CHR ''-''" "\<not> c_isspace CHR ''-''" by (simp_all add: ini_plain_char_def c_isspace_def)
  then show "clean_value (dec_of_nat n)" "clean_value (dec_of_int i)"
    by (intro plain_chars_clean; auto simp: dec_of_int_def dest!: dec_of_nat_plain digit_plain)+
qed

lemma dec_of_nat_length_64: "n < 2 ^ 64 \<Longrightarrow> length (dec_of_nat n) \<le> 20"
  by (rule dec_of_nat_length) simp_all

lemma c_strtoll_dec: "- (2 ^ 63) \<le> i \<Longrightarrow> i < 2 ^ 63 \<Longrightarrow> c_strtoll (dec_of_int i) = i"
proof -
  assume i: "- (2 ^ 63) \<le> i" "i < 2 ^ 63"
  have d: "takeWhile c_isdigit (dec_of_nat n) = dec_of_nat n" "dropWhile c_isspace (dec_of_nat n) = dec_of_nat n"
    "dec_of_nat n \<noteq> []" "hd (dec_of_nat n) \<noteq> CHR ''-''" "hd (dec_of_nat n) \<noteq> CHR ''+''" "digits_val (dec_of_nat n) = n" for n
  proof -
    note dig = dec_of_nat_digits [of n]
    show "takeWhile c_isdigit (dec_of_nat n) = dec_of_nat n" "dec_of_nat n \<noteq> []" "digits_val (dec_of_nat n) = n"
      using dig by simp_all
    then obtain x xs where x: "dec_of_nat n = x # xs" "c_isdigit x" using dig by (cases "dec_of_nat n") auto
    then show "dropWhile c_isspace (dec_of_nat n) = dec_of_nat n" "hd (dec_of_nat n) \<noteq> CHR ''-''" "hd (dec_of_nat n) \<noteq> CHR ''+''"
      using c_isdigit_not_space c_isdigit_not_sign by auto
  qed
  show ?thesis
  proof (cases "i < 0")
    case True
    have "dropWhile c_isspace (CHR ''-'' # dec_of_nat (nat (- i))) = CHR ''-'' # dec_of_nat (nat (- i))"
      by (simp add: c_isspace_def)
    then show ?thesis using True i by (simp add: c_strtoll_def dec_of_int_def Let_def c_isspace_def d)
  next
    case False
    then show ?thesis using i by (simp add: c_strtoll_def dec_of_int_def Let_def d)
  qed
qed

lemma take_prefix_user [simp]: "take 5 (user_section_name n) = USER_INI_SECTION_PREFIX"
  by (simp add: user_section_name_def USER_INI_SECTION_PREFIX_def)

lemma user_section_name_inject [simp]: "user_section_name m = user_section_name n \<longleftrightarrow> m = n"
  by (simp add: user_section_name_def)

definition user_entries :: "user_record \<Rightarrow> config_entry list" where
  "user_entries u = map (\<lambda>(k, v). \<lparr>ce_section = user_section_name (ur_id u), ce_key = k, ce_value = v\<rparr>) (user_fields u)"

lemma clean_user_fields:
  assumes "clean_user u" and "(k, v) \<in> set (user_fields u)"
  shows "clean_value v \<and> length v < 128"
proof -
  have "\<forall>c \<in> set (hybbx_user_level_name (ur_level u)). c_islower c"
    by (cases "ur_level u") (simp_all add: c_islower_def)
  then have l: "clean_value (hybbx_user_level_name (ur_level u))"
    by (intro plain_chars_clean) (auto simp: char_classes_plain c_islower_def c_isspace_def)
  have b: "clean_value (hybbx_bool_to_string b)" for b
    by (intro plain_chars_clean) (auto simp: hybbx_bool_to_string_def ini_plain_char_def c_isspace_def)
  have ll: "length (hybbx_user_level_name (ur_level u)) < 128" "length (hybbx_bool_to_string b) < 128" for b
    by (cases "ur_level u", auto simp: hybbx_bool_to_string_def)
  have n: "length (dec_of_nat (ur_id u)) < 128"
    using assms(1) dec_of_nat_length_64 [of "ur_id u"] by (simp add: clean_user_def)
  have i: "length (dec_of_int i) < 128" if "- (2 ^ 63) \<le> i" "i < 2 ^ 63" for i
  proof -
    have "nat (- i) < 2 ^ 64" "nat i < 2 ^ 64" using that by simp_all
    then show ?thesis using dec_of_nat_length_64 [of "nat (- i)"] dec_of_nat_length_64 [of "nat i"] by (auto simp: dec_of_int_def)
  qed
  show ?thesis
    using assms l b ll n i clean_dec
    by (auto simp: user_fields_def clean_user_def auth_consts split: if_splits)
qed

lemma user_entry_clean:
  assumes "clean_user u" and "(k, v) \<in> set (user_fields u)"
  shows "clean_entry \<lparr>ce_section = user_section_name (ur_id u), ce_key = k, ce_value = v\<rparr>"
proof -
  have v: "clean_text v" "length v < 128" using clean_user_fields [OF assms] by (simp_all add: clean_value_def)
  have "clean_value (user_section_name (ur_id u)) \<and> CHR '']'' \<notin> set (user_section_name (ur_id u))"
    unfolding user_section_name_def USER_INI_SECTION_PREFIX_def
    by (intro conjI plain_chars_clean) (auto simp: ini_plain_char_def c_isspace_def dest!: dec_of_nat_plain digit_plain)
  moreover have "length (user_section_name (ur_id u)) < 128"
    using dec_of_nat_length_64 [of "ur_id u"] assms(1) by (simp add: user_section_name_def USER_INI_SECTION_PREFIX_def clean_user_def)
  moreover have "user_section_name (ur_id u) \<noteq> []" by (simp add: user_section_name_def USER_INI_SECTION_PREFIX_def)
  moreover have "clean_text k \<and> k \<noteq> [] \<and> CHR ''='' \<notin> set k \<and> hd k \<noteq> CHR ''['' \<and> hd k \<noteq> CHR '';'' \<and> hd k \<noteq> CHR ''#'' \<and> length k < 20"
    using assms(2) by (auto simp: user_fields_def clean_text_def trimmed_def c_isspace_def)
  ultimately show ?thesis
    using v by (simp add: clean_entry_def clean_value_def config_consts)
qed

lemma load_fields:
  assumes "\<And>k v. (k, v) \<in> set fs \<Longrightarrow> clean_entry \<lparr>ce_section = sec, ce_key = k, ce_value = v\<rparr> \<and> reload_value v = v \<and> length v < CONFIG_VALUE_MAX"
  shows "\<exists>config' k'. config_load_loop (\<lambda>_. True) (sec, config, k) (concat (map field_line fs) @ rest)
        = config_load_loop (\<lambda>_. True) (sec, config', k') rest
     \<and> cf_entries config' = cf_entries config @ map (\<lambda>(k, v). \<lparr>ce_section = sec, ce_key = k, ce_value = v\<rparr>) fs"
  using assms
proof (induction fs arbitrary: config k)
  case (Cons f fs)
  obtain key v where f: "f = (key, v)" by (cases f)
  let ?e = "\<lparr>ce_section = sec, ce_key = key, ce_value = v\<rparr>"
  have e: "clean_entry ?e" "reload_value v = v" "length v < CONFIG_VALUE_MAX" using Cons.prems f by auto
  obtain c1 k1 where 1: "config_load_loop (\<lambda>_. True) (sec, config, k) (key @ '' = '' @ v @ CHR 0x0A # concat (map field_line fs) @ rest)
      = config_load_loop (\<lambda>_. True) (sec, c1, k1) (concat (map field_line fs) @ rest)"
    "cf_entries c1 = cf_entries config @ [?e]"
    using config_load_entry [OF e(1), of config k "concat (map field_line fs) @ rest"] e(2,3) by auto
  obtain c2 k2 where 2: "config_load_loop (\<lambda>_. True) (sec, c1, k1) (concat (map field_line fs) @ rest)
      = config_load_loop (\<lambda>_. True) (sec, c2, k2) rest"
    "cf_entries c2 = cf_entries c1 @ map (\<lambda>(k, v). \<lparr>ce_section = sec, ce_key = k, ce_value = v\<rparr>) fs"
    using Cons.IH [of c1 k1] Cons.prems by (meson list.set_intros(2))
  show ?case using 1 2 f by (intro exI [of _ c2] exI [of _ k2]) (simp add: field_line_def [of "(key, v)"])
qed auto

lemma load_user:
  assumes "clean_user u"
  shows "\<exists>config' k'. config_load_loop (\<lambda>_. True) (cur, config, k) (user_text u @ rest)
        = config_load_loop (\<lambda>_. True) (user_section_name (ur_id u), config', k') rest
     \<and> cf_entries config' = cf_entries config @ user_entries u"
proof -
  let ?sec = "user_section_name (ur_id u)"
  have "(''id'', dec_of_nat (ur_id u)) \<in> set (user_fields u)" by (simp add: user_fields_def)
  from config_load_section [OF user_entry_clean [OF assms this], of "\<lambda>_. True" cur config k "concat (map field_line (user_fields u)) @ rest"]
  have "config_load_loop (\<lambda>_. True) (cur, config, k) (user_text u @ rest)
      = config_load_loop (\<lambda>_. True) (?sec, config, k) (concat (map field_line (user_fields u)) @ rest)"
    by (simp add: user_text_def)
  moreover have "clean_entry \<lparr>ce_section = ?sec, ce_key = key, ce_value = v\<rparr> \<and> reload_value v = v \<and> length v < CONFIG_VALUE_MAX"
    if "(key, v) \<in> set (user_fields u)" for key v
    using that user_entry_clean [OF assms that] clean_user_fields [OF assms that] by (simp add: clean_value_def config_consts)
  ultimately show ?thesis
    using load_fields [of "user_fields u" ?sec config k rest] by (simp add: user_entries_def)
qed

lemma load_users:
  "list_all clean_user us \<Longrightarrow>
   \<exists>cur' config' k'. config_load_loop (\<lambda>_. True) (cur, config, k) (concat (map user_text us)) = Inr (cur', config', k')
     \<and> cf_entries config' = cf_entries config @ concat (map user_entries us)"
proof (induction us arbitrary: cur config k)
  case Nil
  then show ?case by (auto simp: config_load_loop_Nil)
next
  case (Cons u us)
  obtain c1 k1 where 1: "config_load_loop (\<lambda>_. True) (cur, config, k) (user_text u @ concat (map user_text us))
        = config_load_loop (\<lambda>_. True) (user_section_name (ur_id u), c1, k1) (concat (map user_text us))"
     "cf_entries c1 = cf_entries config @ user_entries u"
    using load_user [of u cur config k "concat (map user_text us)"] Cons.prems by auto
  from Cons.IH [of "user_section_name (ur_id u)" c1 k1] Cons.prems 1 show ?case by force
qed

lemma config_load_comment:
  assumes "CHR 0x0A \<notin> set l" and "CHR 0x00 \<notin> set l" and "length l < 510" and "trimmed (CHR '';'' # l)"
  shows "config_load_loop mal st ((CHR '';'' # l) @ CHR 0x0A # rest) = config_load_loop mal st rest"
proof -
  have "config_line mal st ((CHR '';'' # l) @ [CHR 0x0A]) = Inr st"
    by (cases st) (simp only: config_line_def prod.case Let_def trim_line [OF assms(4)], simp add: is_comment_line_def c_isspace_def)
  with config_load_line [of "CHR '';'' # l" mal st rest] assms(1-3) show ?thesis by simp
qed

lemma load_shard_config:
  assumes "list_all clean_user us" and "idx < 10000"
  shows "\<exists>config. hybbx_config_load (\<lambda>_. True) (Some (shard_text idx us)) = (HYBBX_OK, config)
     \<and> cf_entries config = concat (map user_entries us)"
proof -
  let ?a = "'' HyBBX user file (max '' @ dec_of_nat USERS_PER_FILE @ '' users)''" and ?b = "'' shard '' @ dec_of_nat idx"
  let ?st = "([], config_empty, 0) :: load_state"
  have d: "c \<noteq> CHR 0x0A \<and> c \<noteq> CHR 0x00" if "c \<in> set (dec_of_nat n)" for c n
    using digit_plain [OF dec_of_nat_plain [OF that]] by (auto simp: ini_plain_char_def)
  have l: "length (dec_of_nat n) \<le> 5" if "n < 10 ^ 5" for n using dec_of_nat_length [of 5 n] that by simp
  have lastd: "\<not> c_isspace (List.last (dec_of_nat n))" for n
    using dec_of_nat_plain c_isdigit_not_space by (metis dec_of_nat_not_Nil last_in_set)
  obtain cur' c' k' where u: "config_load_loop (\<lambda>_. True) ?st (concat (map user_text us)) = Inr (cur', c', k')"
    "cf_entries c' = concat (map user_entries us)"
    using load_users [OF assms(1), of "[]" config_empty 0] by (auto simp: config_empty_def)
  have "config_load_loop (\<lambda>_. True) ?st (shard_text idx us)
      = config_load_loop (\<lambda>_. True) ?st ((CHR '';'' # ?a) @ CHR 0x0A # (CHR '';'' # ?b) @ CHR 0x0A # CHR 0x0A # concat (map user_text us))"
    by (simp add: shard_text_def)
  also have "\<dots> = config_load_loop (\<lambda>_. True) ?st ((CHR '';'' # ?b) @ CHR 0x0A # CHR 0x0A # concat (map user_text us))"
    by (rule config_load_comment) (use d l [of USERS_PER_FILE] in \<open>auto simp: USERS_PER_FILE_def trimmed_def c_isspace_def\<close>)
  also have "\<dots> = config_load_loop (\<lambda>_. True) ?st (CHR 0x0A # concat (map user_text us))"
    by (rule config_load_comment) (use d l [of idx] lastd assms(2) in \<open>auto simp: trimmed_def c_isspace_def\<close>)
  also have "\<dots> = Inr (cur', c', k')" unfolding config_load_blank u(1) ..
  finally show ?thesis using u(2) by (simp add: hybbx_config_load_def)
qed

lemma config_get_map_of:
  "hybbx_config_get c s k None = map_of (map (\<lambda>e. ((ce_section e, ce_key e), ce_value e)) (cf_entries c)) (s, k)"
proof -
  have "(case find_slot (config_matches s k) es of None \<Rightarrow> None | Some i \<Rightarrow> Some (ce_value (es ! i)))
      = map_of (map (\<lambda>e. ((ce_section e, ce_key e), ce_value e)) es) (s, k)" for es
    by (induction es) (auto simp: config_matches_def split: option.splits)
  then show ?thesis by (simp add: hybbx_config_get_def)
qed

definition entry_pairs :: "user_record \<Rightarrow> ((string \<times> string) \<times> string) list" where
  "entry_pairs u = map (\<lambda>(k, v). ((user_section_name (ur_id u), k), v)) (user_fields u)"

lemma entry_pairs_other: "ur_id u \<noteq> n \<Longrightarrow> map_of (entry_pairs u) (user_section_name n, k) = None"
  by (auto simp: entry_pairs_def map_of_eq_None_iff)

lemma entry_pairs_same: "map_of (entry_pairs u) (user_section_name (ur_id u), k) = map_of (user_fields u) k"
proof -
  have "map_of (map (\<lambda>(k, v). ((s, k), v)) fs) (s, k) = map_of fs k" for s :: string and fs :: "(string \<times> string) list"
    by (induction fs) auto
  then show ?thesis by (simp add: entry_pairs_def)
qed

lemma shard_get:
  assumes "cf_entries config = concat (map user_entries us)" and "distinct (map ur_id us)" and "u \<in> set us"
  shows "hybbx_config_get config (user_section_name (ur_id u)) k None = map_of (user_fields u) k"
proof -
  have e: "map (\<lambda>e. ((ce_section e, ce_key e), ce_value e)) (cf_entries config) = concat (map entry_pairs us)"
    by (simp add: assms(1) map_concat user_entries_def entry_pairs_def split_def comp_def cong: map_cong)
  have "map_of (concat (map entry_pairs us)) (user_section_name (ur_id u), k) = map_of (user_fields u) k"
    using assms(2,3)
  proof (induction us)
    case (Cons w us)
    have rest: "map_of (concat (map entry_pairs us)) (user_section_name n, k) = None" if "n \<notin> ur_id ` set us" for n
      using that by (induction us) (auto simp: entry_pairs_other map_add_def)
    have "u \<noteq> w \<Longrightarrow> u \<in> set us \<and> ur_id w \<noteq> ur_id u" using Cons.prems by auto
    with Cons show ?case
      by (cases "u = w") (auto simp: entry_pairs_same entry_pairs_other rest map_add_def split: option.splits)
  qed simp
  then show ?thesis by (simp add: config_get_map_of e)
qed

lemma config_get_default: "hybbx_config_get c s k None = Some v \<Longrightarrow> hybbx_config_get c s k d = Some v"
  by (simp add: hybbx_config_get_def split: option.splits)

lemma parse_user_written:
  assumes "cf_entries config = concat (map user_entries us)" and "distinct (map ur_id us)" and "u \<in> set us" and "clean_user u"
  shows "parse_user_section config (user_section_name (ur_id u)) = Some u"
proof -
  note get = shard_get [OF assms(1-3)]
  have lvl: "hybbx_config_get config (user_section_name (ur_id u)) ''level'' (Some ''user'') = Some (hybbx_user_level_name (ur_level u))"
    by (rule config_get_default) (simp add: get user_fields_def)
  have nn: "dec_of_nat n \<noteq> []" "dec_of_int i \<noteq> []" for n i by (simp_all add: dec_of_int_def)
  have b: "hybbx_parse_bool (Some (hybbx_bool_to_string (if x then 1 else 0))) 0 \<noteq> 0 \<longleftrightarrow> x" for x
  proof -
    have "hybbx_parse_bool (Some (hybbx_bool_to_string 1)) 0 \<noteq> 0" "hybbx_parse_bool (Some (hybbx_bool_to_string 0)) 0 = 0"
      by code_simp+
    then show ?thesis by (cases x) simp_all
  qed
  have f: "user_field config (user_section_name (ur_id u)) cap k = v" if "map_of (user_fields u) k = Some v" "length v < cap" for k v cap
    using that by (simp add: user_field_def get)
  have t: "user_time config (user_section_name (ur_id u)) k = i"
    if "map_of (user_fields u) k = Some (dec_of_int i)" "- (2 ^ 63) \<le> i" "i < 2 ^ 63" for k i
    using that nn by (simp add: user_time_def get c_strtoll_dec)
  note c = assms(4) [unfolded clean_user_def]
  have id: "c_strtoul (dec_of_nat (ur_id u)) = (ur_id u, [])" using c by (intro c_strtoul_dec_of_nat) (simp add: c_ulong_max_def)
  have map: "map_of (user_fields u) ''id'' = Some (dec_of_nat (ur_id u))" "map_of (user_fields u) ''username'' = Some (ur_username u)"
    "map_of (user_fields u) ''nickname'' = Some (ur_nickname u)"
    "map_of (user_fields u) ''active'' = Some (hybbx_bool_to_string (if ur_active u then 1 else 0))"
    "map_of (user_fields u) ''created'' = Some (dec_of_int (ur_created_at u))" "map_of (user_fields u) ''fullname'' = Some (ur_full_name u)"
    "map_of (user_fields u) ''country'' = Some (ur_country u)" "map_of (user_fields u) ''location'' = Some (ur_location u)"
    "map_of (user_fields u) ''email'' = Some (ur_email u)" "map_of (user_fields u) ''password'' = Some (ur_password u)"
    "map_of (user_fields u) ''last_login'' = Some (dec_of_int (ur_last_login_at u))"
    by (simp_all add: user_fields_def)
  have act: "hybbx_config_get_bool config (user_section_name (ur_id u)) ''active'' 0 \<noteq> 0 \<longleftrightarrow> ur_active u"
    using b by (simp add: hybbx_config_get_bool_def get map)
  have "parse_user_section config (user_section_name (ur_id u)) = Some
     \<lparr>ur_id = ur_id u, ur_username = ur_username u, ur_nickname = ur_nickname u, ur_level = ur_level u,
      ur_active = ur_active u, ur_created_at = ur_created_at u, ur_full_name = ur_full_name u,
      ur_country = ur_country u, ur_location = ur_location u, ur_email = ur_email u,
      ur_password = ur_password u, ur_last_login_at = ur_last_login_at u\<rparr>"
    using c by (simp add: parse_user_section_def get map id nn lvl act
        f [OF map(3)] f [OF map(6)] f [OF map(7)] f [OF map(8)] f [OF map(9)] f [OF map(10)] t [OF map(5)] t [OF map(11)])
  then show ?thesis by simp
qed

text \<open>The sections are found in the order of the users.\<close>

lemma collect_sections_user:
  assumes "clean_user u" and "user_section_name (ur_id u) \<notin> set names" and "length names < USERS_PER_FILE"
  shows "foldl (\<lambda>ctx e. section_list_collect (ce_section e) (ce_key e) (ce_value e) ctx) names (user_entries u)
       = names @ [user_section_name (ur_id u)]"
proof -
  let ?s = "user_section_name (ur_id u)"
  have len: "length ?s < CONFIG_SECTION_MAX"
    using assms(1) dec_of_nat_length_64 [of "ur_id u"]
    by (simp add: user_section_name_def USER_INI_SECTION_PREFIX_def clean_user_def CONFIG_SECTION_MAX_def)
  have first: "section_list_collect ?s k v names = names @ [?s]" for k v
    using assms(2,3) len by (auto simp: section_list_collect_def list_ex_iff)
  have again: "section_list_collect ?s k v (names @ [?s]) = names @ [?s]" for k v
    by (simp add: section_list_collect_def)
  have "foldl (\<lambda>ctx e. section_list_collect (ce_section e) (ce_key e) (ce_value e) ctx) (names @ [?s])
      (map (\<lambda>(k, v). \<lparr>ce_section = ?s, ce_key = k, ce_value = v\<rparr>) fs) = names @ [?s]" for fs
    by (induction fs) (auto simp: again)
  then show ?thesis by (simp add: user_entries_def user_fields_def first again)
qed

lemma collect_sections:
  "list_all clean_user us \<Longrightarrow> distinct (map ur_id us) \<Longrightarrow> length names + length us \<le> USERS_PER_FILE \<Longrightarrow>
   set names \<inter> user_section_name ` ur_id ` set us = {} \<Longrightarrow>
   foldl (\<lambda>ctx e. section_list_collect (ce_section e) (ce_key e) (ce_value e) ctx) names (concat (map user_entries us))
     = names @ map (\<lambda>u. user_section_name (ur_id u)) us"
proof (induction us arbitrary: names)
  case (Cons u us)
  have "foldl (\<lambda>ctx e. section_list_collect (ce_section e) (ce_key e) (ce_value e) ctx) names (user_entries u)
      = names @ [user_section_name (ur_id u)]"
    using Cons.prems by (intro collect_sections_user) auto
  then show ?case using Cons.IH [of "names @ [user_section_name (ur_id u)]"] Cons.prems by (auto simp: image_iff)
qed simp

lemma collect_users_written:
  assumes "cf_entries config = concat (map user_entries us)" and "distinct (map ur_id us)" and "list_all clean_user us"
  shows "us = pre @ post \<Longrightarrow> length us \<le> USERS_PER_FILE \<Longrightarrow>
     collect_users config (map (\<lambda>u. user_section_name (ur_id u)) post) pre = (HYBBX_OK, us)"
proof (induction post arbitrary: pre)
  case (Cons u post)
  have "parse_user_section config (user_section_name (ur_id u)) = Some u"
    using assms Cons.prems(1) by (intro parse_user_written [OF assms(1,2)]) (auto simp: list_all_iff)
  then show ?case using Cons.IH [of "pre @ [u]"] Cons.prems by simp
qed simp

lemma load_shard_written:
  assumes "list_all clean_user us" and "distinct (map ur_id us)" and "length us \<le> USERS_PER_FILE" and "idx < 10000"
  shows "load_user_shard (Some (shard_text idx us)) = (HYBBX_OK, us)"
proof -
  obtain config where c: "hybbx_config_load (\<lambda>_. True) (Some (shard_text idx us)) = (HYBBX_OK, config)"
    "cf_entries config = concat (map user_entries us)"
    using load_shard_config [OF assms(1,4)] by blast
  have "hybbx_config_foreach section_list_collect config [] = map (\<lambda>u. user_section_name (ur_id u)) us"
    using collect_sections [OF assms(1,2), of "[]"] assms(3) c(2) by (simp add: hybbx_config_foreach_def)
  then show ?thesis
    using c(1) collect_users_written [OF c(2) assms(2,1), of "[]" us] assms(3) by (simp add: load_user_shard_def)
qed

section \<open>Properties\<close>

text \<open>
  C22. A file of up to fifty clean records with different numbers reads back, through the
  configuration reader, as exactly the records that were written, in their order.
\<close>

theorem user_file_roundtrip:
  assumes "list_all clean_user us" and "distinct (map ur_id us)" and "length us \<le> USERS_PER_FILE" and "idx < 10000"
  shows "load_user_shard (Some (shard_text idx us)) = (HYBBX_OK, us)"
  by (rule load_shard_written [OF assms])

definition user_example :: user_record where
  "user_example = user_zero\<lparr>ur_id := 7, ur_username := ''karl'', ur_nickname := ''Karl'', ur_level := LEVEL_MOD, ur_active := True,
     ur_full_name := ''Karl Meier, Dr.'', ur_email := ''karl@example.org'', ur_created_at := 1700000000\<rparr>"

theorem user_file_roundtrip_witness:
  "load_user_shard (Some (shard_text 2 [user_example, user_example\<lparr>ur_id := 9\<rparr>]))
     = (HYBBX_OK, [user_example, user_example\<lparr>ur_id := 9\<rparr>])"
proof -
  have "clean_value ''karl'' \<and> clean_value ''Karl'' \<and> clean_value ''Karl Meier, Dr.'' \<and> clean_value ''karl@example.org'' \<and> clean_value []
      \<and> hybbx_username_normalize ''karl'' = ''karl''" by code_simp
  then have "list_all clean_user [user_example, user_example\<lparr>ur_id := 9\<rparr>] \<and> distinct (map ur_id [user_example, user_example\<lparr>ur_id := 9\<rparr>])"
    by (simp add: clean_user_def user_example_def user_zero_def auth_consts)
  then show ?thesis using user_file_roundtrip [of "[user_example, user_example\<lparr>ur_id := 9\<rparr>]" 2] by (simp add: USERS_PER_FILE_def)
qed

text \<open>
  Not every valid record is clean: a profile text in single quotes passes the validity check and comes
  back from the file without them.
\<close>

theorem quoted_profile_text_lost:
  "profile_text_valid (CHR 0x27 # ''Ann'' @ [CHR 0x27]) 2 USER_FULL_NAME_MAX
     \<and> reload_value (CHR 0x27 # ''Ann'' @ [CHR 0x27]) = ''Ann''"
  by code_simp

end
