(* ===== verification/Storage_Flatfile.thy ===== *)
theory Storage_Flatfile imports User_Files begin

text \<open>
  The flat-file storage, \<^verbatim>\<open>src/core/storage_flatfile.c\<close>: files of fifty users each, a file per
  nickname, two counters and the session log.  The disk is the map of its regular files with the
  paths that can be opened for writing and how much each takes; every operation is a function of the disk.  The abstract
  view is one list of users and the counter, and every operation refines its list operation.
\<close>

section \<open>The disk\<close>

record disk =
  dk_files :: "string \<Rightarrow> string option"
  dk_writable :: "string \<Rightarrow> bool"
  dk_room :: "string \<Rightarrow> nat option"

text \<open>
  What becomes of the text written to a file until it is closed: the disk takes as many characters as it has room
  for it (None: all of them).  Opened for writing the file loses its old contents, opened for appending it keeps them,
  and only closing it tells that something was lost.
\<close>

definition fs_clip :: "disk \<Rightarrow> string \<Rightarrow> string \<Rightarrow> string" where
  "fs_clip d path body = (case dk_room d path of None \<Rightarrow> body | Some n \<Rightarrow> take n body)"

definition fs_put :: "string \<Rightarrow> string \<Rightarrow> disk \<Rightarrow> disk" where
  "fs_put path body d = d\<lparr>dk_files := (dk_files d)(path \<mapsto> fs_clip d path body)\<rparr>"

definition fs_append :: "string \<Rightarrow> string \<Rightarrow> disk \<Rightarrow> disk" where
  "fs_append path text d =
     d\<lparr>dk_files := (dk_files d)(path \<mapsto> (case dk_files d path of None \<Rightarrow> [] | Some body \<Rightarrow> body) @ fs_clip d path text)\<rparr>"

definition fs_close :: "disk \<Rightarrow> string \<Rightarrow> string \<Rightarrow> hybbx_result" where
  "fs_close d path body = (if fs_clip d path body = body then HYBBX_OK else HYBBX_ERR_IO)"

definition fs_rename :: "string \<Rightarrow> string \<Rightarrow> disk \<Rightarrow> disk" where
  "fs_rename old new d = d\<lparr>dk_files := (dk_files d)(old := None, new := dk_files d old)\<rparr>"

definition fs_remove :: "string \<Rightarrow> disk \<Rightarrow> disk" where
  "fs_remove path d = d\<lparr>dk_files := (dk_files d)(path := None)\<rparr>"

definition file_exists :: "disk \<Rightarrow> string \<Rightarrow> bool" where
  "file_exists d path \<longleftrightarrow> dk_files d path \<noteq> None"

text \<open>A counter file holds a decimal number; a file that is missing counts as 0.\<close>

definition read_counter :: "disk \<Rightarrow> string \<Rightarrow> hybbx_result \<times> nat" where
  "read_counter d path =
     (case dk_files d path of
        None \<Rightarrow> (HYBBX_OK, 0)
      | Some body \<Rightarrow> (case c_strtoul body of (n, rest) \<Rightarrow>
          if rest = body then (HYBBX_ERR_IO, 0) else (HYBBX_OK, n)))"

definition write_counter :: "disk \<Rightarrow> string \<Rightarrow> nat \<Rightarrow> hybbx_result \<times> disk" where
  "write_counter d path n =
     (if \<not> dk_writable d path then (HYBBX_ERR_IO, d)
      else (HYBBX_OK, fs_put path (dec_of_nat n @ [CHR 0x0A]) d))"

definition bump_counter :: "disk \<Rightarrow> string \<Rightarrow> hybbx_result \<times> nat \<times> disk" where
  "bump_counter d path =
     (case read_counter d path of (rc, n) \<Rightarrow>
        if rc \<noteq> HYBBX_OK then (rc, n, d)
        else let n' = (n + 1) mod 2 ^ 64 in
          case write_counter d path n' of (rc, d') \<Rightarrow> (rc, n', d'))"

definition append_line :: "disk \<Rightarrow> string \<Rightarrow> string \<Rightarrow> hybbx_result \<times> disk" where
  "append_line d path line =
     (if \<not> dk_writable d path then (HYBBX_ERR_IO, d)
      else (HYBBX_OK, fs_append path (line @ [CHR 0x0A]) d))"

section \<open>The files of the backend\<close>

record flatfile_state =
  ff_users_dir :: string
  ff_legacy_users_path :: string
  ff_sessions_path :: string
  ff_session_next_path :: string
  ff_user_next_path :: string

definition USER_NICK_SUFFIX :: string where "USER_NICK_SUFFIX = ''.nick''"

definition user_nickname_path :: "flatfile_state \<Rightarrow> string \<Rightarrow> hybbx_result \<times> string" where
  "user_nickname_path state username =
     (if username = [] then (HYBBX_ERR_INVALID, [])
      else if length username + length USER_NICK_SUFFIX \<ge> USER_NAME_MAX + 8 then (HYBBX_ERR_INVALID, [])
      else hybbx_path_join [] HYBBX_PATH_MAX (Some (ff_users_dir state)) (Some (username @ USER_NICK_SUFFIX)))"

definition read_nickname_file :: "flatfile_state \<Rightarrow> disk \<Rightarrow> string \<Rightarrow> hybbx_result \<times> string" where
  "read_nickname_file state d username =
     (case user_nickname_path state username of (rc, path) \<Rightarrow>
        if rc \<noteq> HYBBX_OK then (rc, [])
        else case dk_files d path of
          None \<Rightarrow> (HYBBX_ERR_NOT_FOUND, [])
        | Some body \<Rightarrow>
            if body = [] then (HYBBX_ERR_IO, [])
            else let line = takeWhile (\<lambda>c. c \<noteq> CHR 0x0D)
                       (takeWhile (\<lambda>c. c \<noteq> CHR 0x0A \<and> c \<noteq> CHR 0x00) (fst (c_fgets USER_NICKNAME_MAX body)))
                 in if line = [] then (HYBBX_ERR_NOT_FOUND, []) else (HYBBX_OK, line))"

definition write_nickname_file :: "flatfile_state \<Rightarrow> disk \<Rightarrow> string \<Rightarrow> string \<Rightarrow> hybbx_result \<times> disk" where
  "write_nickname_file state d username nickname =
     (if username = [] \<or> nickname = [] then (HYBBX_ERR_INVALID, d)
      else case user_nickname_path state username of (rc, path) \<Rightarrow>
        if rc \<noteq> HYBBX_OK then (rc, d)
        else if \<not> dk_writable d path then (HYBBX_ERR_IO, d)
        else (fs_close d path (nickname @ [CHR 0x0A]), fs_put path (nickname @ [CHR 0x0A]) d))"

definition remove_nickname_file :: "flatfile_state \<Rightarrow> disk \<Rightarrow> string \<Rightarrow> disk" where
  "remove_nickname_file state d username =
     (if username = [] then d
      else case user_nickname_path state username of (rc, path) \<Rightarrow>
        if rc = HYBBX_OK then fs_remove path d else d)"

definition shard_name :: "nat \<Rightarrow> string" where
  "shard_name shard_index =
     (if shard_index = 1 then ''users.ini'' else ''users'' @ dec_of_nat shard_index @ ''.ini'')"

definition user_shard_path :: "flatfile_state \<Rightarrow> nat \<Rightarrow> hybbx_result \<times> string" where
  "user_shard_path state shard_index =
     (if shard_index = 0 then (HYBBX_ERR_INVALID, [])
      else if length (shard_name shard_index) \<ge> 32 then (HYBBX_ERR_INVALID, [])
      else hybbx_path_join [] HYBBX_PATH_MAX (Some (ff_users_dir state)) (Some (shard_name shard_index)))"

text \<open>The first index, from \<open>index\<close> on, that has no file; \<open>n\<close> more indices are tried.\<close>

fun first_gap :: "flatfile_state \<Rightarrow> disk \<Rightarrow> nat \<Rightarrow> nat \<Rightarrow> nat" where
  "first_gap state d 0 index = index"
| "first_gap state d (Suc n) index =
     (case user_shard_path state index of (rc, path) \<Rightarrow>
        if rc \<noteq> HYBBX_OK then index
        else if \<not> file_exists d path then index
        else first_gap state d n (index + 1))"

definition last_user_shard_index :: "flatfile_state \<Rightarrow> disk \<Rightarrow> nat" where
  "last_user_shard_index state d =
     (let index = first_gap state d 9999 1 in if index = 1 then 0 else index - 1)"

definition save_user_shard :: "flatfile_state \<Rightarrow> disk \<Rightarrow> nat \<Rightarrow> user_record list \<Rightarrow> hybbx_result \<times> disk" where
  "save_user_shard state d shard_index users =
     (if length users > USERS_PER_FILE then (HYBBX_ERR_INVALID, d)
      else case user_shard_path state shard_index of (rc, path) \<Rightarrow>
        if rc \<noteq> HYBBX_OK then (rc, d)
        else if \<not> dk_writable d path then (HYBBX_ERR_IO, d)
        else (fs_close d path (shard_text shard_index users),
          foldl (\<lambda>d u. if ur_nickname u \<noteq> [] then snd (write_nickname_file state d (ur_username u) (ur_nickname u)) else d)
            (fs_put path (shard_text shard_index users) d) users))"

fun find_shard_from :: "flatfile_state \<Rightarrow> disk \<Rightarrow> nat \<Rightarrow> nat \<Rightarrow> nat \<Rightarrow> hybbx_result \<times> nat \<times> nat" where
  "find_shard_from state d user_id 0 shard = (HYBBX_ERR_NOT_FOUND, 0, 0)"
| "find_shard_from state d user_id (Suc n) shard =
     (case user_shard_path state shard of (rc, path) \<Rightarrow>
        if rc \<noteq> HYBBX_OK then find_shard_from state d user_id n (shard + 1)
        else if \<not> file_exists d path then find_shard_from state d user_id n (shard + 1)
        else case load_user_shard (dk_files d path) of (rc, loaded) \<Rightarrow>
          if rc \<noteq> HYBBX_OK then (rc, 0, 0)
          else case find_slot (\<lambda>u. ur_id u = user_id) loaded of
            Some i \<Rightarrow> (HYBBX_OK, shard, i)
          | None \<Rightarrow> find_shard_from state d user_id n (shard + 1))"

definition find_user_shard :: "flatfile_state \<Rightarrow> disk \<Rightarrow> nat \<Rightarrow> hybbx_result \<times> nat \<times> nat" where
  "find_user_shard state d user_id =
     (if user_id = 0 then (HYBBX_ERR_INVALID, 0, 0)
      else find_shard_from state d user_id (last_user_shard_index state d) 1)"

definition append_user_record :: "flatfile_state \<Rightarrow> disk \<Rightarrow> user_record \<Rightarrow> hybbx_result \<times> disk" where
  "append_user_record state d user =
     (let last = last_user_shard_index state d in
      if last = 0 then save_user_shard state d 1 [user]
      else case user_shard_path state last of (rc, path) \<Rightarrow>
        if rc \<noteq> HYBBX_OK then (rc, d)
        else case load_user_shard (dk_files d path) of (rc, loaded) \<Rightarrow>
          if rc \<noteq> HYBBX_OK then (rc, d)
          else if length loaded \<ge> USERS_PER_FILE then save_user_shard state d (last + 1) [user]
          else save_user_shard state d last (loaded @ [user]))"

section \<open>Visiting the users\<close>

text \<open>The callback may change the disk; it works on the users of a file as they were loaded.\<close>

type_synonym 'c user_fn = "user_record \<Rightarrow> disk \<times> 'c \<Rightarrow> hybbx_result \<times> disk \<times> 'c"

fun foreach_loaded :: "'c user_fn \<Rightarrow> user_record list \<Rightarrow> disk \<times> 'c \<Rightarrow> hybbx_result \<times> disk \<times> 'c" where
  "foreach_loaded fn [] dc = (HYBBX_OK, dc)"
| "foreach_loaded fn (u # us) dc =
     (case fn u dc of (rc, dc') \<Rightarrow> if rc \<noteq> HYBBX_OK then (rc, dc') else foreach_loaded fn us dc')"

fun foreach_from :: "flatfile_state \<Rightarrow> 'c user_fn \<Rightarrow> nat \<Rightarrow> nat \<Rightarrow> disk \<times> 'c \<Rightarrow> hybbx_result \<times> disk \<times> 'c" where
  "foreach_from state fn 0 shard dc = (HYBBX_OK, dc)"
| "foreach_from state fn (Suc n) shard dc =
     (case user_shard_path state shard of (rc, path) \<Rightarrow>
        if rc \<noteq> HYBBX_OK then (rc, dc)
        else case load_user_shard (dk_files (fst dc) path) of (rc, loaded) \<Rightarrow>
          if rc \<noteq> HYBBX_OK then (rc, dc)
          else case foreach_loaded fn loaded dc of (rc, dc') \<Rightarrow>
            if rc \<noteq> HYBBX_OK then (rc, dc') else foreach_from state fn n (shard + 1) dc')"

definition foreach_user :: "flatfile_state \<Rightarrow> 'c user_fn \<Rightarrow> disk \<times> 'c \<Rightarrow> hybbx_result \<times> disk \<times> 'c" where
  "foreach_user state fn dc = foreach_from state fn (last_user_shard_index state (fst dc)) 1 dc"

definition find_user_cb :: "string \<Rightarrow> user_record option user_fn" where
  "find_user_cb username user dc =
     (if str_ieq (ur_username user) username then (HYBBX_ERR_BUSY, fst dc, Some user) else (HYBBX_OK, dc))"

definition find_nickname_cb :: "string \<Rightarrow> user_record option user_fn" where
  "find_nickname_cb nickname user dc =
     (if ur_nickname user \<noteq> [] \<and> str_ieq (ur_nickname user) nickname then (HYBBX_ERR_BUSY, fst dc, Some user)
      else (HYBBX_OK, dc))"

definition same_identity :: "string \<Rightarrow> string \<Rightarrow> user_record \<Rightarrow> bool" where
  "same_identity username nickname user \<longleftrightarrow>
     str_ieq (ur_username user) username \<or> str_ieq (ur_username user) nickname
     \<or> (ur_nickname user \<noteq> [] \<and> (str_ieq (ur_nickname user) nickname \<or> str_ieq (ur_nickname user) username))"

definition identity_taken_cb :: "string \<Rightarrow> string \<Rightarrow> bool user_fn" where
  "identity_taken_cb username nickname user dc =
     (if same_identity username nickname user then (HYBBX_ERR_BUSY, fst dc, True) else (HYBBX_OK, dc))"

definition count_level_cb :: "user_level \<Rightarrow> nat user_fn" where
  "count_level_cb level user dc =
     (HYBBX_OK, fst dc, if ur_level user = level then snd dc + 1 else snd dc)"

section \<open>The operations\<close>

definition flatfile_find_user :: "flatfile_state \<Rightarrow> disk \<Rightarrow> string \<Rightarrow> hybbx_result \<times> user_record option" where
  "flatfile_find_user state d username =
     (case foreach_user state (find_user_cb username) (d, None) of (rc, _, out) \<Rightarrow>
        if rc = HYBBX_ERR_BUSY then (HYBBX_OK, out)
        else if rc \<noteq> HYBBX_OK then (rc, None) else (HYBBX_ERR_NOT_FOUND, None))"

definition flatfile_resolve_user :: "flatfile_state \<Rightarrow> disk \<Rightarrow> string \<Rightarrow> hybbx_result \<times> user_record option" where
  "flatfile_resolve_user state d name =
     (if name = [] then (HYBBX_ERR_INVALID, None)
      else case flatfile_find_user state d (hybbx_username_normalize (str_store USER_NAME_MAX name)) of (rc, out) \<Rightarrow>
        if rc = HYBBX_OK then (HYBBX_OK, out)
        else if rc \<noteq> HYBBX_ERR_NOT_FOUND then (rc, None)
        else case foreach_user state (find_nickname_cb name) (d, None) of (rc, _, out) \<Rightarrow>
          if rc = HYBBX_ERR_BUSY then (HYBBX_OK, out)
          else if rc \<noteq> HYBBX_OK then (rc, None) else (HYBBX_ERR_NOT_FOUND, None))"

definition flatfile_count_level :: "flatfile_state \<Rightarrow> disk \<Rightarrow> user_level \<Rightarrow> hybbx_result \<times> nat" where
  "flatfile_count_level state d level =
     (case foreach_user state (count_level_cb level) (d, 0) of (rc, _, n) \<Rightarrow>
        if rc \<noteq> HYBBX_OK then (rc, 0) else (HYBBX_OK, n))"

definition registered_record :: "nat \<Rightarrow> user_registration \<Rightarrow> int \<Rightarrow> string \<Rightarrow> user_record" where
  "registered_record user_id reg now password =
     user_zero\<lparr>ur_id := user_id,
       ur_username := hybbx_username_normalize (str_store USER_NAME_MAX (rg_username reg)),
       ur_nickname := str_store USER_NICKNAME_MAX (rg_nickname reg),
       ur_level := LEVEL_USER, ur_active := False, ur_created_at := now,
       ur_full_name := str_store USER_FULL_NAME_MAX (rg_full_name reg),
       ur_country := str_store USER_COUNTRY_MAX (rg_country reg),
       ur_location := str_store USER_LOCATION_MAX (rg_location reg),
       ur_email := str_store USER_EMAIL_MAX (rg_email reg), ur_password := password\<rparr>"

definition flatfile_register_user ::
    "(string \<Rightarrow> string) \<Rightarrow> string \<Rightarrow> flatfile_state \<Rightarrow> disk \<Rightarrow> user_registration \<Rightarrow> int
     \<Rightarrow> hybbx_result \<times> disk \<times> user_record option" where
  "flatfile_register_user sha256_hex guest_prefix state d reg now =
     (if \<not> hybbx_registration_valid reg guest_prefix then (HYBBX_ERR_INVALID, d, None)
      else case flatfile_find_user state d (rg_username reg) of (rc, _) \<Rightarrow>
        if rc = HYBBX_OK then (HYBBX_ERR_BUSY, d, None)
        else if rc \<noteq> HYBBX_ERR_NOT_FOUND then (rc, d, None)
        else case foreach_user state (identity_taken_cb (rg_username reg) (rg_nickname reg)) (d, False) of (rc, _, taken) \<Rightarrow>
          if rc = HYBBX_ERR_BUSY \<or> taken then (HYBBX_ERR_BUSY, d, None)
          else if rc \<noteq> HYBBX_OK then (rc, d, None)
          else case bump_counter d (ff_user_next_path state) of (rc, user_id, d1) \<Rightarrow>
            if rc \<noteq> HYBBX_OK then (rc, d1, None)
            else if rg_password reg \<noteq> [] \<and> \<not> hybbx_password_plain_valid (rg_password reg)
            then (HYBBX_ERR_INVALID, d1, Some (registered_record user_id reg now []))
            else case (if rg_password reg = [] then (HYBBX_OK, Some [])
                       else hybbx_password_hash sha256_hex (rg_password reg) USER_PASSWORD_MAX) of (rc, password) \<Rightarrow>
              if rc \<noteq> HYBBX_OK then (rc, d1, Some (registered_record user_id reg now []))
              else let user = registered_record user_id reg now (the password) in
                case append_user_record state d1 user of (rc, d2) \<Rightarrow> (rc, d2, Some user))"

definition flatfile_update_user :: "flatfile_state \<Rightarrow> disk \<Rightarrow> user_record \<Rightarrow> hybbx_result \<times> disk" where
  "flatfile_update_user state d user =
     (if ur_id user = 0 then (HYBBX_ERR_INVALID, d)
      else case find_user_shard state d (ur_id user) of (rc, shard_index, slot_index) \<Rightarrow>
        if rc \<noteq> HYBBX_OK then (rc, d)
        else case user_shard_path state shard_index of (rc, path) \<Rightarrow>
          if rc \<noteq> HYBBX_OK then (rc, d)
          else case load_user_shard (dk_files d path) of (rc, shard) \<Rightarrow>
            if rc \<noteq> HYBBX_OK then (rc, d)
            else if slot_index \<ge> length shard then (HYBBX_ERR_NOT_FOUND, d)
            else save_user_shard state d shard_index
                   (shard[slot_index := user\<lparr>ur_username := hybbx_username_normalize (ur_username user)\<rparr>]))"

definition flatfile_delete_user :: "flatfile_state \<Rightarrow> disk \<Rightarrow> nat \<Rightarrow> hybbx_result \<times> disk" where
  "flatfile_delete_user state d user_id =
     (if user_id = 0 then (HYBBX_ERR_INVALID, d)
      else case find_user_shard state d user_id of (rc, shard_index, slot_index) \<Rightarrow>
        if rc \<noteq> HYBBX_OK then (rc, d)
        else case user_shard_path state shard_index of (rc, path) \<Rightarrow>
          if rc \<noteq> HYBBX_OK then (rc, d)
          else case load_user_shard (dk_files d path) of (rc, shard) \<Rightarrow>
            if rc \<noteq> HYBBX_OK then (rc, d)
            else if slot_index \<ge> length shard then (HYBBX_ERR_NOT_FOUND, d)
            else save_user_shard state (remove_nickname_file state d (ur_username (shard ! slot_index))) shard_index
                   (take slot_index shard @ drop (slot_index + 1) shard))"

text \<open>A line of the sessions' log.\<close>

record session_record =
  sr_session_id :: nat
  sr_user_id :: nat
  sr_username :: string
  sr_transport :: string
  sr_remote :: string
  sr_connected_at :: int
  sr_disconnected_at :: int
  sr_active :: bool

definition TRANSPORT_NAME_MAX :: nat where "TRANSPORT_NAME_MAX = 32"

definition flatfile_session_begin ::
    "flatfile_state \<Rightarrow> disk \<Rightarrow> user_record \<Rightarrow> string \<Rightarrow> int \<Rightarrow> hybbx_result \<times> disk \<times> session_record option" where
  "flatfile_session_begin state d user transport now =
     (case bump_counter d (ff_session_next_path state) of (rc, session_id, d1) \<Rightarrow>
        if rc \<noteq> HYBBX_OK then (rc, d1, None)
        else let name = str_store USER_NAME_MAX (ur_username user); tr = str_store TRANSPORT_NAME_MAX transport;
                 line = c_snprintf 384 (dec_of_nat session_id @ ''|'' @ dec_of_nat (ur_id user) @ ''|'' @ name @ ''|'' @ tr
                          @ ''|'' @ dec_of_int now @ ''|0|1'');
                 out = \<lparr>sr_session_id = session_id, sr_user_id = ur_id user, sr_username = name, sr_transport = tr,
                        sr_remote = [], sr_connected_at = now, sr_disconnected_at = 0, sr_active = True\<rparr>
             in case append_line d1 (ff_sessions_path state) line of (rc, d2) \<Rightarrow> (rc, d2, Some out))"

definition flatfile_session_end :: "flatfile_state \<Rightarrow> disk \<Rightarrow> nat \<Rightarrow> int \<Rightarrow> hybbx_result \<times> disk" where
  "flatfile_session_end state d session_id now =
     (if session_id = 0 then (HYBBX_ERR_INVALID, d)
      else append_line d (ff_sessions_path state)
             (c_snprintf 384 (dec_of_nat session_id @ ''|0|_|_|0|'' @ dec_of_int now @ ''|0'')))"

section \<open>Opening\<close>

text \<open>The conversions of \<^verbatim>\<open>sscanf\<close> that a legacy line is read with.\<close>

definition scan_llu :: "string \<Rightarrow> (nat \<times> string) option" where
  "scan_llu s = (case c_strtoul s of (n, rest) \<Rightarrow> if rest = s then None else Some (n, rest))"

definition scan_lld :: "string \<Rightarrow> (int \<times> string) option" where
  "scan_lld s = (case c_strtoul s of (n, rest) \<Rightarrow> if rest = s then None else Some (c_strtoll s, rest))"

definition scan_bar :: "string \<Rightarrow> string option" where
  "scan_bar s = (case s of [] \<Rightarrow> None | c # r \<Rightarrow> if c = CHR ''|'' then Some r else None)"

definition scan_field :: "nat \<Rightarrow> string \<Rightarrow> (string \<times> string) option" where
  "scan_field width s =
     (let t = take width (takeWhile (\<lambda>c. c \<noteq> CHR ''|'') s) in if t = [] then None else Some (t, drop (length t) s))"

fun scan_fields :: "nat list \<Rightarrow> string \<Rightarrow> string list" where
  "scan_fields [] s = []"
| "scan_fields (w # ws) s =
     (case Option.bind (scan_bar s) (scan_field w) of None \<Rightarrow> [] | Some (t, rest) \<Rightarrow> t # scan_fields ws rest)"

definition parse_legacy_user_line :: "string \<Rightarrow> user_record option" where
  "parse_legacy_user_line line =
     Option.bind (scan_llu line) (\<lambda>(uid, s).
     Option.bind (Option.bind (scan_bar s) (scan_field 63)) (\<lambda>(username, s).
     Option.bind (Option.bind (scan_bar s) (scan_field 31)) (\<lambda>(level_name, s).
     Option.bind (Option.bind (scan_bar s) scan_llu) (\<lambda>(active, s).
     Option.bind (Option.bind (scan_bar s) scan_lld) (\<lambda>(created, s).
       let texts = scan_fields [127, 63, 127, 127, 95] s; fields = 5 + length texts in
       Some (user_zero\<lparr>ur_id := uid, ur_username := str_store USER_NAME_MAX username,
         ur_level := hybbx_user_level_parse level_name, ur_active := active mod 2 ^ 32 \<noteq> 0, ur_created_at := created,
         ur_full_name := (if fields \<ge> 9 then str_store USER_FULL_NAME_MAX (texts ! 0) else []),
         ur_country := (if fields \<ge> 9 then str_store USER_COUNTRY_MAX (texts ! 1) else []),
         ur_location := (if fields \<ge> 9 then str_store USER_LOCATION_MAX (texts ! 2) else []),
         ur_email := (if fields \<ge> 9 then str_store USER_EMAIL_MAX (texts ! 3) else []),
         ur_password := (if fields \<ge> 10 then str_store USER_PASSWORD_MAX (texts ! 4) else [])\<rparr>))))))"

text \<open>The lines of the legacy file as the reading loop sees them.\<close>

function legacy_lines :: "string \<Rightarrow> string list" where
  "legacy_lines [] = []"
| "legacy_lines (c # cs) =
     (case c_fgets CONFIG_LINE_MAX (c # cs) of (line, rest) \<Rightarrow>
        takeWhile (\<lambda>c. c \<noteq> CHR 0x0A \<and> c \<noteq> CHR 0x00) line #
          (if length rest < length (c # cs) then legacy_lines rest else []))"
  by pat_completeness auto
termination by (relation "measure length") auto

fun legacy_users :: "flatfile_state \<Rightarrow> string list \<Rightarrow> disk \<Rightarrow> nat \<Rightarrow> user_record list
    \<Rightarrow> hybbx_result \<times> disk \<times> nat \<times> user_record list" where
  "legacy_users state [] d shard_index shard = (HYBBX_OK, d, shard_index, shard)"
| "legacy_users state (l # ls) d shard_index shard =
     (case parse_legacy_user_line l of
        None \<Rightarrow> legacy_users state ls d shard_index shard
      | Some user \<Rightarrow>
          if length shard \<ge> USERS_PER_FILE then
            case save_user_shard state d shard_index shard of (rc, d') \<Rightarrow>
              if rc \<noteq> HYBBX_OK then (rc, d', shard_index, shard)
              else legacy_users state ls d' (shard_index + 1) [user]
          else legacy_users state ls d shard_index (shard @ [user]))"

definition migrate_legacy_users_dat :: "string \<Rightarrow> flatfile_state \<Rightarrow> disk \<Rightarrow> hybbx_result \<times> disk" where
  "migrate_legacy_users_dat storage_path state d =
     (case dk_files d (ff_legacy_users_path state) of
        None \<Rightarrow> (HYBBX_OK, d)
      | Some body \<Rightarrow>
          if last_user_shard_index state d > 0 then (HYBBX_OK, d)
          else case legacy_users state (legacy_lines body) d 1 [] of (rc, d1, shard_index, shard) \<Rightarrow>
            if rc \<noteq> HYBBX_OK then (rc, d1)
            else case (if shard \<noteq> [] then save_user_shard state d1 shard_index shard else (HYBBX_OK, d1)) of (rc, d2) \<Rightarrow>
              if rc \<noteq> HYBBX_OK then (rc, d2)
              else case hybbx_path_join [] HYBBX_PATH_MAX (Some storage_path) (Some ''users.dat.migrated'') of (rc, backup) \<Rightarrow>
                (HYBBX_OK, if rc = HYBBX_OK \<and> dk_writable d2 backup
                           then fs_rename (ff_legacy_users_path state) backup d2 else d2))"

definition SYSOP_INIT_PASSWORD_MIN :: nat where "SYSOP_INIT_PASSWORD_MIN = 10"
definition SYSOP_INIT_PASSWORD_MAX :: nat where "SYSOP_INIT_PASSWORD_MAX = 14"

definition default_sysop :: "nat \<Rightarrow> int \<Rightarrow> string \<Rightarrow> user_record" where
  "default_sysop user_id now password =
     user_zero\<lparr>ur_id := user_id, ur_username := ''sysop'', ur_nickname := str_store USER_NICKNAME_MAX DEFAULT_SYSOP_USERNAME,
       ur_level := LEVEL_SYSOP, ur_active := True, ur_created_at := now, ur_full_name := ''System Operator'',
       ur_password := password\<rparr>"

definition ensure_default_sysop ::
    "(string \<Rightarrow> string) \<Rightarrow> bytes option list \<Rightarrow> flatfile_state \<Rightarrow> disk \<Rightarrow> int \<Rightarrow> hybbx_result \<times> disk" where
  "ensure_default_sysop sha256_hex script state d now =
     (case flatfile_count_level state d LEVEL_SYSOP of (rc, sysop_count) \<Rightarrow>
        if rc \<noteq> HYBBX_OK then (rc, d)
        else if sysop_count > 0 then (HYBBX_OK, d)
        else case bump_counter d (ff_user_next_path state) of (rc, user_id, d1) \<Rightarrow>
          if rc \<noteq> HYBBX_OK then (rc, d1)
          else case hybbx_password_generate_alnum script (PASSWORD_MAX_LEN + 1) SYSOP_INIT_PASSWORD_MIN SYSOP_INIT_PASSWORD_MAX of (rc, plain) \<Rightarrow>
            if rc \<noteq> HYBBX_OK then (HYBBX_ERR_IO, d1)
            else case hybbx_password_hash sha256_hex plain USER_PASSWORD_MAX of (rc, password) \<Rightarrow>
              if rc \<noteq> HYBBX_OK then (HYBBX_ERR_IO, d1)
              else append_user_record state d1 (default_sysop user_id now (the password)))"

definition migrate_passwords_cb :: "(string \<Rightarrow> string) \<Rightarrow> flatfile_state \<Rightarrow> unit user_fn" where
  "migrate_passwords_cb sha256_hex state user dc =
     (if \<not> hybbx_password_is_plain (ur_password user) then (HYBBX_OK, dc)
      else case hybbx_password_hash sha256_hex (ur_password user) USER_PASSWORD_MAX of (rc, password) \<Rightarrow>
        if rc \<noteq> HYBBX_OK then (rc, dc)
        else case flatfile_update_user state (fst dc) (user\<lparr>ur_password := the password\<rparr>) of (rc, d) \<Rightarrow> (rc, d, ()))"

definition migrate_identities_cb :: "flatfile_state \<Rightarrow> unit user_fn" where
  "migrate_identities_cb state user dc =
     (let stored_username = str_store USER_NAME_MAX (ur_username user);
          updated = user\<lparr>ur_username := hybbx_username_normalize (ur_username user)\<rparr>;
          renamed = \<not> str_ieq stored_username (ur_username updated);
          (nick, filled) =
            (if ur_nickname updated = [] then
               (case read_nickname_file state (fst dc) (ur_username updated) of (rc, nickname) \<Rightarrow>
                  if rc = HYBBX_OK then nickname else hybbx_nickname_infer stored_username USER_NICKNAME_MAX, True)
             else (ur_nickname updated, False));
          updated = updated\<lparr>ur_nickname := nick\<rparr>
      in if \<not> (renamed \<or> filled) then (HYBBX_OK, snd (write_nickname_file state (fst dc) (ur_username updated) (ur_nickname updated)), ())
         else case flatfile_update_user state (fst dc) updated of (rc, d) \<Rightarrow> (rc, d, ()))"

definition migrate_user_identities :: "flatfile_state \<Rightarrow> disk \<Rightarrow> hybbx_result \<times> disk" where
  "migrate_user_identities state d =
     (case foreach_user state (migrate_identities_cb state) (d, ()) of (rc, d', _) \<Rightarrow> (rc, d'))"

definition migrate_plain_passwords :: "(string \<Rightarrow> string) \<Rightarrow> flatfile_state \<Rightarrow> disk \<Rightarrow> hybbx_result \<times> disk" where
  "migrate_plain_passwords sha256_hex state d =
     (case foreach_user state (migrate_passwords_cb sha256_hex state) (d, ()) of (rc, d', _) \<Rightarrow> (rc, d'))"

text \<open>The paths under the storage's directory; None when one does not fit.\<close>

definition flatfile_paths :: "string \<Rightarrow> flatfile_state option" where
  "flatfile_paths storage_path =
     (let join = (\<lambda>name. hybbx_path_join [] HYBBX_PATH_MAX (Some storage_path) (Some name));
          names = [''users'', ''users.dat'', ''sessions.dat'', ''session.next'', ''user.next'']
      in if list_ex (\<lambda>name. fst (join name) \<noteq> HYBBX_OK) names then None
         else Some \<lparr>ff_users_dir = snd (join ''users''), ff_legacy_users_path = snd (join ''users.dat''),
                    ff_sessions_path = snd (join ''sessions.dat''), ff_session_next_path = snd (join ''session.next''),
                    ff_user_next_path = snd (join ''user.next'')\<rparr>)"

text \<open>Both directories could be made, or were there; a step that fails closes the storage again.\<close>

definition flatfile_open ::
    "(string \<Rightarrow> string) \<Rightarrow> bytes option list \<Rightarrow> bool \<Rightarrow> string \<Rightarrow> disk \<Rightarrow> int \<Rightarrow> hybbx_result \<times> flatfile_state option \<times> disk" where
  "flatfile_open sha256_hex script directories_ok storage_path d now =
     (if \<not> directories_ok then (HYBBX_ERR_IO, None, d)
      else case flatfile_paths storage_path of
        None \<Rightarrow> (HYBBX_ERR_INVALID, None, d)
      | Some state \<Rightarrow>
          case migrate_legacy_users_dat storage_path state d of (rc, d1) \<Rightarrow>
          if rc \<noteq> HYBBX_OK then (rc, None, d1)
          else case ensure_default_sysop sha256_hex script state d1 now of (rc, d2) \<Rightarrow>
          if rc \<noteq> HYBBX_OK then (rc, None, d2)
          else case migrate_user_identities state d2 of (rc, d3) \<Rightarrow>
          if rc \<noteq> HYBBX_OK then (rc, None, d3)
          else case migrate_plain_passwords sha256_hex state d3 of (rc, d4) \<Rightarrow>
          if rc \<noteq> HYBBX_OK then (rc, None, d4)
          else (HYBBX_OK, Some state, d4))"

section \<open>The abstract view\<close>

abbreviation shard_file :: "flatfile_state \<Rightarrow> nat \<Rightarrow> string" where
  "shard_file state i \<equiv> snd (user_shard_path state i)"

definition ends_in :: "string \<Rightarrow> string \<Rightarrow> bool" where
  "ends_in s e \<longleftrightarrow> length e \<le> length s \<and> drop (length s - length e) s = e"

lemma ends_in_append [simp]: "ends_in (a @ e) e"
  by (simp add: ends_in_def)

definition paths_ok :: "flatfile_state \<Rightarrow> bool" where
  "paths_ok state \<longleftrightarrow>
     length (ff_users_dir state) + 80 < HYBBX_PATH_MAX
     \<and> \<not> ends_in (ff_user_next_path state) ''.ini'' \<and> \<not> ends_in (ff_user_next_path state) ''.nick''
     \<and> \<not> ends_in (ff_session_next_path state) ''.ini'' \<and> \<not> ends_in (ff_sessions_path state) ''.ini''
     \<and> ff_user_next_path state \<noteq> ff_session_next_path state \<and> ff_user_next_path state \<noteq> ff_sessions_path state"

text \<open>
  The files hold the users \<open>concat uss\<close>, file by file, and the counter \<open>n\<close> that no identifier exceeds.
\<close>

definition stored :: "flatfile_state \<Rightarrow> disk \<Rightarrow> user_record list list \<Rightarrow> nat \<Rightarrow> bool" where
  "stored state d uss n \<longleftrightarrow>
     paths_ok state \<and> dk_room d = (\<lambda>_. None) \<and> length uss < 9999
     \<and> (\<forall>i < length uss. dk_files d (shard_file state (i + 1)) = Some (shard_text (i + 1) (uss ! i)))
     \<and> (\<forall>i. length uss \<le> i \<and> i < 9999 \<longrightarrow> dk_files d (shard_file state (i + 1)) = None)
     \<and> (\<forall>us \<in> set uss. list_all clean_user us \<and> length us \<le> USERS_PER_FILE)
     \<and> distinct (map ur_id (concat uss))
     \<and> read_counter d (ff_user_next_path state) = (HYBBX_OK, n)
     \<and> (\<forall>u \<in> set (concat uss). ur_id u \<le> n)"

lemma storedD:
  assumes "stored state d uss n"
  shows "paths_ok state" "length uss < 9999"
    "i < length uss \<Longrightarrow> dk_files d (shard_file state (i + 1)) = Some (shard_text (i + 1) (uss ! i))"
    "length uss \<le> i \<Longrightarrow> i < 9999 \<Longrightarrow> dk_files d (shard_file state (i + 1)) = None"
    "us \<in> set uss \<Longrightarrow> list_all clean_user us" "us \<in> set uss \<Longrightarrow> length us \<le> USERS_PER_FILE"
    "distinct (map ur_id (concat uss))" "read_counter d (ff_user_next_path state) = (HYBBX_OK, n)"
    "u \<in> set (concat uss) \<Longrightarrow> ur_id u \<le> n" "dk_room d = (\<lambda>_. None)"
  using assms by (auto simp: stored_def)

text \<open>Paths.\<close>

lemma dec_of_nat_chars_plain: "CHR ''/'' \<notin> set (dec_of_nat n)" "CHR 0x5C \<notin> set (dec_of_nat n)" "CHR ''.'' \<notin> set (dec_of_nat n)"
  by (auto dest!: dec_of_nat_plain simp: c_isdigit_def)

lemma join_dir:
  assumes "length dir + length name + 2 < HYBBX_PATH_MAX" and "path_component_valid name"
  shows "\<exists>sep. hybbx_path_join [] HYBBX_PATH_MAX (Some dir) (Some name) = (HYBBX_OK, (dir @ sep) @ name)
     \<and> (\<forall>name'. length dir + length name' + 2 < HYBBX_PATH_MAX \<longrightarrow> path_component_valid name' \<longrightarrow>
          hybbx_path_join [] HYBBX_PATH_MAX (Some dir) (Some name') = (HYBBX_OK, (dir @ sep) @ name'))"
  using assms
  by (intro exI [of _ "if dir \<noteq> [] \<and> dir ! (length dir - 1) \<noteq> CHR ''/'' then ''/'' else []"])
     (auto simp: hybbx_path_join_def hybbx_size_ok_def HYBBX_ALLOC_MAX_def HYBBX_PATH_MAX_def c_snprintf_def Let_def)

lemma shard_name_facts:
  assumes "0 < i" and "i < 10000"
  shows "path_component_valid (shard_name i)" "length (shard_name i) < 20" "ends_in (shard_name i) ''.ini''"
proof -
  have l: "length (dec_of_nat i) \<le> 5" using dec_of_nat_length [of 5 i] assms by simp
  show "length (shard_name i) < 20" "ends_in (shard_name i) ''.ini''" using l by (auto simp: shard_name_def ends_in_def)
  show "path_component_valid (shard_name i)"
    using dec_of_nat_chars_plain [of i] by (auto simp: shard_name_def path_component_valid_def)
qed

lemma shard_name_not_first: "''users.ini'' \<noteq> ''users'' @ dec_of_nat k @ ''.ini''"
proof
  assume "''users.ini'' = ''users'' @ dec_of_nat k @ ''.ini''"
  then have "''.ini'' = dec_of_nat k @ ''.ini''" by simp
  then have "length (dec_of_nat k) = 0" by (metis add_0 add_right_cancel length_append)
  then show False by simp
qed

lemma shard_name_inject: "shard_name i = shard_name j \<longleftrightarrow> i = j"
  using shard_name_not_first [of i] shard_name_not_first [of j]
  by (simp only: shard_name_def split: if_split) (auto simp: eq_commute [of "''users.ini''"])

lemma paths:
  assumes "paths_ok state"
  obtains base where "\<And>i. 0 < i \<Longrightarrow> i < 10000 \<Longrightarrow> user_shard_path state i = (HYBBX_OK, base @ shard_name i)"
    and "\<And>name. fst (user_nickname_path state name) = HYBBX_OK \<Longrightarrow> snd (user_nickname_path state name) = base @ name @ ''.nick''"
proof -
  have dir: "length (ff_users_dir state) + 80 < HYBBX_PATH_MAX" using assms by (simp add: paths_ok_def)
  obtain sep where sep: "\<forall>name'. length (ff_users_dir state) + length name' + 2 < HYBBX_PATH_MAX \<longrightarrow> path_component_valid name' \<longrightarrow>
      hybbx_path_join [] HYBBX_PATH_MAX (Some (ff_users_dir state)) (Some name') = (HYBBX_OK, (ff_users_dir state @ sep) @ name')"
    using join_dir [of "ff_users_dir state" "''users.ini''"] dir by (auto simp: path_component_valid_def)
  show thesis
  proof (rule that [of "ff_users_dir state @ sep"])
    fix i :: nat assume i: "0 < i" "i < 10000"
    then show "user_shard_path state i = (HYBBX_OK, (ff_users_dir state @ sep) @ shard_name i)"
      using sep shard_name_facts [OF i] dir by (simp add: user_shard_path_def)
  next
    fix name assume n: "fst (user_nickname_path state name) = HYBBX_OK"
    then have "length name + 5 < 72"
      by (auto simp: user_nickname_path_def USER_NICK_SUFFIX_def auth_consts split: if_splits)
    moreover from n have "path_component_valid (name @ USER_NICK_SUFFIX)"
      by (auto simp: user_nickname_path_def hybbx_path_join_def split: if_splits)
    ultimately show "snd (user_nickname_path state name) = (ff_users_dir state @ sep) @ name @ ''.nick''"
      using sep dir n by (auto simp: user_nickname_path_def USER_NICK_SUFFIX_def split: if_splits)
  qed
qed

lemma ends_in_app: "ends_in (a @ b) e" if "ends_in b e"
  using that by (auto simp: ends_in_def)

lemma path_facts:
  assumes "paths_ok state" and "0 < i" and "i < 10000"
  shows "fst (user_shard_path state i) = HYBBX_OK"
    and "0 < j \<Longrightarrow> j < 10000 \<Longrightarrow> shard_file state i = shard_file state j \<longleftrightarrow> i = j"
    and "fst (user_nickname_path state name) = HYBBX_OK \<Longrightarrow> snd (user_nickname_path state name) \<noteq> shard_file state i"
    and "shard_file state i \<noteq> ff_user_next_path state" "shard_file state i \<noteq> ff_session_next_path state"
      "shard_file state i \<noteq> ff_sessions_path state"
    and "fst (user_nickname_path state name) = HYBBX_OK \<Longrightarrow> snd (user_nickname_path state name) \<noteq> ff_user_next_path state"
proof -
  obtain base where b: "\<And>i. 0 < i \<Longrightarrow> i < 10000 \<Longrightarrow> user_shard_path state i = (HYBBX_OK, base @ shard_name i)"
    "\<And>name. fst (user_nickname_path state name) = HYBBX_OK \<Longrightarrow> snd (user_nickname_path state name) = base @ name @ ''.nick''"
    using paths [OF assms(1)] by blast
  note bi = b(1) [OF assms(2,3)]
  have e: "ends_in (shard_file state i) ''.ini''" using bi shard_name_facts(3) [OF assms(2,3)] ends_in_app by simp
  show "fst (user_shard_path state i) = HYBBX_OK" using bi by simp
  show "0 < j \<Longrightarrow> j < 10000 \<Longrightarrow> shard_file state i = shard_file state j \<longleftrightarrow> i = j"
    using bi b(1) [of j] shard_name_inject by simp
  show "shard_file state i \<noteq> ff_user_next_path state" "shard_file state i \<noteq> ff_session_next_path state"
      "shard_file state i \<noteq> ff_sessions_path state"
    using e assms(1) unfolding paths_ok_def by metis+
  assume n: "fst (user_nickname_path state name) = HYBBX_OK"
  have en: "ends_in (snd (user_nickname_path state name)) ''.nick''"
    unfolding b(2) [OF n] append_assoc [symmetric] by (rule ends_in_append)
  then show "snd (user_nickname_path state name) \<noteq> ff_user_next_path state" using assms(1) unfolding paths_ok_def by metis
  have "ends_in s ''.nick'' \<Longrightarrow> \<not> ends_in s ''.ini''" for s
  proof
    assume "ends_in s ''.nick''" "ends_in s ''.ini''"
    then obtain a c where "s = a @ ''.nick''" "s = c @ ''.ini''" unfolding ends_in_def by (metis append_take_drop_id)
    then have "List.last s = CHR ''k''" "List.last s = CHR ''i''" by simp_all
    then show False by simp
  qed
  with e en show "snd (user_nickname_path state name) \<noteq> shard_file state i" by metis
qed

section \<open>Reading\<close>

lemma first_gap_stored:
  assumes "stored state d uss n"
  shows "k + m = 9999 \<Longrightarrow> k \<le> length uss \<Longrightarrow> first_gap state d m (k + 1) = length uss + 1"
proof (induction m arbitrary: k)
  case 0
  then show ?case using storedD(2) [OF assms] by simp
next
  case (Suc m)
  obtain path where p: "user_shard_path state (k + 1) = (HYBBX_OK, path)"
    using path_facts(1) [OF storedD(1) [OF assms], of "k + 1"] Suc.prems by (cases "user_shard_path state (k + 1)") auto
  show ?case
  proof (cases "k < length uss")
    case True
    then have "first_gap state d m (k + 1 + 1) = length uss + 1" using Suc.IH [of "k + 1"] Suc.prems by simp
    then show ?thesis using p storedD(3) [OF assms True] by (simp add: file_exists_def)
  next
    case False
    then have "dk_files d path = None" using p storedD(4) [OF assms, of k] Suc.prems by simp
    then show ?thesis using p False Suc.prems by (simp add: file_exists_def)
  qed
qed

lemma last_shard_stored: "stored state d uss n \<Longrightarrow> last_user_shard_index state d = length uss"
  using first_gap_stored [of state d uss n 0 9999] by (simp add: last_user_shard_index_def)

lemma distinct_shard: "distinct (map ur_id (concat uss)) \<Longrightarrow> us \<in> set uss \<Longrightarrow> distinct (map ur_id us)"
  by (induction uss) auto

lemma load_stored:
  assumes "stored state d uss n" and "i < length uss"
  shows "load_user_shard (dk_files d (shard_file state (i + 1))) = (HYBBX_OK, uss ! i)"
  unfolding storedD(3) [OF assms]
  using storedD(2,5,6,7) [OF assms(1)] assms(2) distinct_shard [of uss "uss ! i"] by (intro load_shard_written) auto

lemma foreach_loaded_append:
  "foreach_loaded fn (a @ b) dc =
     (case foreach_loaded fn a dc of (rc, dc') \<Rightarrow> if rc \<noteq> HYBBX_OK then (rc, dc') else foreach_loaded fn b dc')"
  by (induction a arbitrary: dc) (auto split: prod.splits)

definition reads_only :: "'c user_fn \<Rightarrow> bool" where
  "reads_only fn \<longleftrightarrow> (\<forall>u d c. fst (snd (fn u (d, c))) = d)"

lemma foreach_loaded_reads: "reads_only fn \<Longrightarrow> fst (snd (foreach_loaded fn us (d, c))) = d"
proof (induction us arbitrary: c)
  case (Cons u us)
  then have "fst (snd (fn u (d, c))) = d" by (simp add: reads_only_def)
  with Cons show ?case by (cases "fn u (d, c)") auto
qed simp

lemma foreach_loads:
  assumes "paths_ok state" and "length uss < 9999" and "last_user_shard_index state d = length uss"
    and loads: "\<And>k. k < length uss \<Longrightarrow> load_user_shard (dk_files d (shard_file state (k + 1))) = (HYBBX_OK, uss ! k)"
    and "reads_only fn"
  shows "foreach_user state fn (d, c) = foreach_loaded fn (concat uss) (d, c)"
proof -
  have "k + m = length uss \<Longrightarrow> foreach_from state fn m (k + 1) (d, c) = foreach_loaded fn (concat (drop k uss)) (d, c)" for k m c
  proof (induction m arbitrary: k c)
    case (Suc m)
    then have k: "k < length uss" by simp
    obtain path where p: "user_shard_path state (k + 1) = (HYBBX_OK, path)"
      using path_facts(1) [OF assms(1), of "k + 1"] k assms(2)
      by (cases "user_shard_path state (k + 1)") auto
    have l: "load_user_shard (dk_files d path) = (HYBBX_OK, uss ! k)" using loads [OF k] p by simp
    have dr: "drop k uss = uss ! k # drop (k + 1) uss" using k by (simp add: Cons_nth_drop_Suc)
    obtain rc d' c' where f: "foreach_loaded fn (uss ! k) (d, c) = (rc, d', c')" by (metis prod_cases3)
    then have "d' = d" using foreach_loaded_reads [OF assms(5), of "uss ! k" d c] by simp
    then show ?case using p l f Suc.IH [of "k + 1" c'] Suc.prems by (simp add: dr foreach_loaded_append)
  qed simp
  from this [of 0 "length uss" c] show ?thesis
    by (simp add: foreach_user_def assms(3))
qed

lemma foreach_stored:
  assumes "stored state d uss n" and "reads_only fn"
  shows "foreach_user state fn (d, c) = foreach_loaded fn (concat uss) (d, c)"
  by (rule foreach_loads [OF storedD(1,2) [OF assms(1)] last_shard_stored [OF assms(1)] load_stored [OF assms(1)] assms(2)])

lemma reads_only_cbs:
  "reads_only (find_user_cb name)" "reads_only (find_nickname_cb name)" "reads_only (identity_taken_cb name nick)"
  "reads_only (count_level_cb level)"
  by (simp_all add: reads_only_def find_user_cb_def find_nickname_cb_def identity_taken_cb_def count_level_cb_def)

lemma foreach_find:
  assumes "\<And>u d c. fn u (d, c) = (if P u then (HYBBX_ERR_BUSY, d, g u) else (HYBBX_OK, d, c))"
  shows "foreach_loaded fn us (d, c) =
     (case List.find P us of None \<Rightarrow> (HYBBX_OK, d, c) | Some u \<Rightarrow> (HYBBX_ERR_BUSY, d, g u))"
  by (induction us) (simp_all add: assms)

definition lookup_result :: "user_record option \<Rightarrow> hybbx_result \<times> user_record option" where
  "lookup_result r = (if r = None then HYBBX_ERR_NOT_FOUND else HYBBX_OK, r)"

lemma find_user_loaded:
  assumes "\<And>c. foreach_user state (find_user_cb name) (d, c) = foreach_loaded (find_user_cb name) (concat uss) (d, c)"
  shows "flatfile_find_user state d name = lookup_result (List.find (\<lambda>u. str_ieq (ur_username u) name) (concat uss))"
proof -
  have "foreach_loaded (find_user_cb name) (concat uss) (d, None) =
     (case List.find (\<lambda>u. str_ieq (ur_username u) name) (concat uss) of None \<Rightarrow> (HYBBX_OK, d, None) | Some u \<Rightarrow> (HYBBX_ERR_BUSY, d, Some u))"
    by (rule foreach_find) (simp add: find_user_cb_def)
  then show ?thesis
    by (auto simp: flatfile_find_user_def lookup_result_def assms split: option.splits)
qed

lemma find_user_stored:
  assumes "stored state d uss n"
  shows "flatfile_find_user state d name = lookup_result (List.find (\<lambda>u. str_ieq (ur_username u) name) (concat uss))"
  by (rule find_user_loaded [OF foreach_stored [OF assms reads_only_cbs(1)]])

definition list_resolve :: "user_record list \<Rightarrow> string \<Rightarrow> user_record option" where
  "list_resolve us name =
     (case List.find (\<lambda>u. str_ieq (ur_username u) (hybbx_username_normalize (str_store USER_NAME_MAX name))) us of
        Some u \<Rightarrow> Some u
      | None \<Rightarrow> List.find (\<lambda>u. ur_nickname u \<noteq> [] \<and> str_ieq (ur_nickname u) name) us)"

lemma resolve_user_stored:
  assumes "stored state d uss n" and "name \<noteq> []"
  shows "flatfile_resolve_user state d name = lookup_result (list_resolve (concat uss) name)"
proof -
  have "foreach_loaded (find_nickname_cb name) (concat uss) (d, None) =
     (case List.find (\<lambda>u. ur_nickname u \<noteq> [] \<and> str_ieq (ur_nickname u) name) (concat uss) of
        None \<Rightarrow> (HYBBX_OK, d, None) | Some u \<Rightarrow> (HYBBX_ERR_BUSY, d, Some u))"
    by (rule foreach_find) (simp add: find_nickname_cb_def)
  then show ?thesis
    using assms(2)
    by (auto simp: flatfile_resolve_user_def list_resolve_def lookup_result_def find_user_stored [OF assms(1)]
        foreach_stored [OF assms(1) reads_only_cbs(2)] split: option.splits)
qed

lemma count_level_loaded:
  assumes "\<And>c. foreach_user state (count_level_cb level) (d, c) = foreach_loaded (count_level_cb level) (concat uss) (d, c)"
  shows "flatfile_count_level state d level = (HYBBX_OK, length (List.filter (\<lambda>u. ur_level u = level) (concat uss)))"
proof -
  have "foreach_loaded (count_level_cb level) us (d, c) = (HYBBX_OK, d, c + length (List.filter (\<lambda>u. ur_level u = level) us))" for us c
    by (induction us arbitrary: c) (simp_all add: count_level_cb_def)
  then show ?thesis by (simp add: flatfile_count_level_def assms)
qed

lemma count_level_stored:
  assumes "stored state d uss n"
  shows "flatfile_count_level state d level = (HYBBX_OK, length (List.filter (\<lambda>u. ur_level u = level) (concat uss)))"
  by (rule count_level_loaded [OF foreach_stored [OF assms reads_only_cbs(4)]])

lemma taken_stored:
  assumes "stored state d uss n"
  shows "foreach_user state (identity_taken_cb name nick) (d, False) =
     (if list_ex (same_identity name nick) (concat uss) then (HYBBX_ERR_BUSY, d, True) else (HYBBX_OK, d, False))"
proof -
  have "foreach_loaded (identity_taken_cb name nick) us (d, False) =
     (if list_ex (same_identity name nick) us then (HYBBX_ERR_BUSY, d, True) else (HYBBX_OK, d, False))" for us
    by (induction us) (simp_all add: identity_taken_cb_def)
  then show ?thesis unfolding foreach_stored [OF assms reads_only_cbs(3)] .
qed

lemma find_shard_stored:
  assumes "stored state d uss n" and "uid \<noteq> 0"
  shows "find_user_shard state d uid =
     (case find_slot (\<lambda>us. list_ex (\<lambda>u. ur_id u = uid) us) uss of
        None \<Rightarrow> (HYBBX_ERR_NOT_FOUND, 0, 0)
      | Some i \<Rightarrow> (HYBBX_OK, i + 1, the (find_slot (\<lambda>u. ur_id u = uid) (uss ! i))))"
proof -
  let ?P = "\<lambda>us. list_ex (\<lambda>u. ur_id u = uid) us"
  have ex: "?P us \<longleftrightarrow> find_slot (\<lambda>u. ur_id u = uid) us \<noteq> None" for us
    by (auto simp: find_slot_None_iff list_ex_iff)
  have "k + m = length uss \<Longrightarrow> find_shard_from state d uid m (k + 1) =
     (case find_slot ?P (drop k uss) of
        None \<Rightarrow> (HYBBX_ERR_NOT_FOUND, 0, 0)
      | Some i \<Rightarrow> (HYBBX_OK, k + i + 1, the (find_slot (\<lambda>u. ur_id u = uid) (uss ! (k + i)))))" for k m
  proof (induction m arbitrary: k)
    case (Suc m)
    then have k: "k < length uss" by simp
    obtain path where p: "user_shard_path state (k + 1) = (HYBBX_OK, path)"
      using path_facts(1) [OF storedD(1) [OF assms(1)], of "k + 1"] k storedD(2) [OF assms(1)]
      by (cases "user_shard_path state (k + 1)") auto
    have fe: "file_exists d path" using storedD(3) [OF assms(1) k] p by (simp add: file_exists_def)
    have l: "load_user_shard (dk_files d path) = (HYBBX_OK, uss ! k)" using load_stored [OF assms(1) k] p by simp
    have dr: "drop k uss = uss ! k # drop (k + 1) uss" using k by (simp add: Cons_nth_drop_Suc)
    show ?case
      using p fe l Suc.IH [of "k + 1"] Suc.prems ex [of "uss ! k"]
      by (auto simp: dr split: option.splits)
  qed simp
  from this [of 0 "length uss"] show ?thesis
    using assms(2) by (auto simp: find_user_shard_def last_shard_stored [OF assms(1)] split: option.split)
qed

section \<open>Writing\<close>

lemma fs_put_simps [simp]:
  "dk_writable (fs_put p s d) = dk_writable d" "dk_files (fs_put p s d) q = (if q = p then Some (fs_clip d p s) else dk_files d q)"
  "dk_writable (fs_remove p d) = dk_writable d" "dk_files (fs_remove p d) q = (if q = p then None else dk_files d q)"
  "dk_room (fs_put p s d) = dk_room d" "dk_room (fs_remove p d) = dk_room d"
  by (simp_all add: fs_put_def fs_remove_def)

lemma fs_append_simps [simp]:
  "dk_writable (fs_append p s d) = dk_writable d" "dk_room (fs_append p s d) = dk_room d"
  "p \<noteq> q \<Longrightarrow> dk_files (fs_append p s d) q = dk_files d q"
  by (simp_all add: fs_append_def)

lemma roomy [simp]:
  "dk_room d = (\<lambda>_. None) \<Longrightarrow> fs_clip d p s = s" "dk_room d = (\<lambda>_. None) \<Longrightarrow> fs_close d p s = HYBBX_OK"
  by (simp_all add: fs_clip_def fs_close_def)

text \<open>The files that the users live in, and the counter: a nickname's file is none of them.\<close>

definition same_store :: "flatfile_state \<Rightarrow> disk \<Rightarrow> disk \<Rightarrow> bool" where
  "same_store state d d' \<longleftrightarrow>
     dk_writable d' = dk_writable d \<and> dk_room d' = dk_room d
     \<and> (\<forall>i. 0 < i \<and> i < 10000 \<longrightarrow> dk_files d' (shard_file state i) = dk_files d (shard_file state i))
     \<and> dk_files d' (ff_user_next_path state) = dk_files d (ff_user_next_path state)"

lemma same_store_trans: "same_store state a b \<Longrightarrow> same_store state b c \<Longrightarrow> same_store state a c"
  by (simp add: same_store_def)

lemma same_store_refl [simp]: "same_store state d d"
  by (simp add: same_store_def)

lemma same_store_stored: "same_store state d d' \<Longrightarrow> stored state d' uss n \<longleftrightarrow> stored state d uss n"
  by (auto simp: same_store_def stored_def read_counter_def)

lemma nickname_file_same_store:
  assumes "paths_ok state"
  shows "same_store state d (snd (write_nickname_file state d username nickname))"
    "same_store state d (remove_nickname_file state d username)"
proof -
  show "same_store state d (snd (write_nickname_file state d username nickname))"
    using path_facts(3,7) [OF assms] path_facts(7) [OF assms, of 1]
    by (auto simp: write_nickname_file_def same_store_def split: prod.splits) (metis fst_conv snd_conv)+
  show "same_store state d (remove_nickname_file state d username)"
    using path_facts(3,7) [OF assms] path_facts(7) [OF assms, of 1]
    by (auto simp: remove_nickname_file_def same_store_def split: prod.splits) (metis fst_conv snd_conv)+
qed

lemma nickname_writes_same_store:
  assumes "paths_ok state"
  shows "same_store state d
    (foldl (\<lambda>d u. if ur_nickname u \<noteq> [] then snd (write_nickname_file state d (ur_username u) (ur_nickname u)) else d) d us)"
proof (induction us arbitrary: d)
  case (Cons u us)
  have "same_store state d (if ur_nickname u \<noteq> [] then snd (write_nickname_file state d (ur_username u) (ur_nickname u)) else d)"
    using nickname_file_same_store(1) [OF assms] by simp
  with Cons show ?case by (simp only: foldl_Cons) (rule same_store_trans)
qed simp

text \<open>Writing file \<open>i + 1\<close>, an old one or the next new one.\<close>

definition put_shard :: "nat \<Rightarrow> user_record list \<Rightarrow> user_record list list \<Rightarrow> user_record list list" where
  "put_shard i us uss = (if i < length uss then uss[i := us] else uss @ [us])"

lemma nth_put_shard: "i \<le> length uss \<Longrightarrow> j < length (put_shard i us uss) \<Longrightarrow> put_shard i us uss ! j = (if j = i then us else uss ! j)"
  by (auto simp: put_shard_def nth_append nth_list_update)

lemma length_put_shard: "i \<le> length uss \<Longrightarrow> length (put_shard i us uss) = max (i + 1) (length uss)"
  by (auto simp: put_shard_def)

lemma set_put_shard: "set (put_shard i us uss) \<subseteq> insert us (set uss)"
  by (auto simp: put_shard_def dest: set_update_subset_insert [THEN subsetD])

lemma save_stored:
  assumes st: "stored state d uss n" and i: "i \<le> length uss" "i < 9998"
    and us: "list_all clean_user us" "length us \<le> USERS_PER_FILE"
    and ids: "distinct (map ur_id (concat (put_shard i us uss)))" "\<forall>u \<in> set us. ur_id u \<le> n"
  shows "if dk_writable d (shard_file state (i + 1))
     then fst (save_user_shard state d (i + 1) us) = HYBBX_OK
        \<and> dk_writable (snd (save_user_shard state d (i + 1) us)) = dk_writable d
        \<and> stored state (snd (save_user_shard state d (i + 1) us)) (put_shard i us uss) n
     else save_user_shard state d (i + 1) us = (HYBBX_ERR_IO, d)"
proof -
  note P = storedD(1) [OF st]
  obtain path where p: "user_shard_path state (i + 1) = (HYBBX_OK, path)"
    using path_facts(1) [OF P, of "i + 1"] i(2) by (cases "user_shard_path state (i + 1)") auto
  let ?d1 = "fs_put path (shard_text (i + 1) us) d"
  let ?d2 = "foldl (\<lambda>d u. if ur_nickname u \<noteq> [] then snd (write_nickname_file state d (ur_username u) (ur_nickname u)) else d) ?d1 us"
  have s: "save_user_shard state d (i + 1) us = (if \<not> dk_writable d path then (HYBBX_ERR_IO, d) else (HYBBX_OK, ?d2))"
    using us(2) p storedD(10) [OF st] by (simp add: save_user_shard_def)
  have other: "dk_files ?d1 (shard_file state (j + 1)) = (if j = i then Some (shard_text (i + 1) us) else dk_files d (shard_file state (j + 1)))"
    if "j < 9999" for j
    using path_facts(2) [OF P, of "i + 1" "j + 1"] that i(2) p storedD(10) [OF st] by auto
  have cnt: "dk_files ?d1 (ff_user_next_path state) = dk_files d (ff_user_next_path state)"
    using path_facts(4) [OF P, of "i + 1"] i(2) p by auto
  have "stored state ?d1 (put_shard i us uss) n"
    unfolding stored_def
  proof (intro conjI)
    show "paths_ok state" by (rule P)
    show "dk_room ?d1 = (\<lambda>_. None)" using storedD(10) [OF st] by simp
    show "length (put_shard i us uss) < 9999" using i storedD(2) [OF st] by (simp add: length_put_shard)
    show "\<forall>j < length (put_shard i us uss). dk_files ?d1 (shard_file state (j + 1)) = Some (shard_text (j + 1) (put_shard i us uss ! j))"
    proof (intro allI impI)
      fix j assume j: "j < length (put_shard i us uss)"
      then have "j < 9999" "j \<noteq> i \<Longrightarrow> j < length uss" using i storedD(2) [OF st] by (auto simp: length_put_shard)
      then show "dk_files ?d1 (shard_file state (j + 1)) = Some (shard_text (j + 1) (put_shard i us uss ! j))"
        unfolding other [OF \<open>j < 9999\<close>] nth_put_shard [OF i(1) j] using storedD(3) [OF st, of j] by simp
    qed
    show "\<forall>j. length (put_shard i us uss) \<le> j \<and> j < 9999 \<longrightarrow> dk_files ?d1 (shard_file state (j + 1)) = None"
      using other storedD(4) [OF st] i by (auto simp: length_put_shard)
    show "\<forall>us \<in> set (put_shard i us uss). list_all clean_user us \<and> length us \<le> USERS_PER_FILE"
      using set_put_shard [of i us uss] us storedD(5,6) [OF st] by blast
    show "distinct (map ur_id (concat (put_shard i us uss)))" by (rule ids(1))
    show "read_counter ?d1 (ff_user_next_path state) = (HYBBX_OK, n)"
      using storedD(8) [OF st] cnt by (simp only: read_counter_def)
    show "\<forall>u \<in> set (concat (put_shard i us uss)). ur_id u \<le> n"
      using set_put_shard [of i us uss] ids(2) storedD(9) [OF st] by fastforce
  qed
  with same_store_stored [OF nickname_writes_same_store [OF P, of ?d1 us]] have "stored state ?d2 (put_shard i us uss) n" by simp
  moreover have "dk_writable ?d2 = dk_writable d"
    using nickname_writes_same_store [OF P, of ?d1 us] by (simp add: same_store_def)
  ultimately show ?thesis using s p by simp
qed

section \<open>The list that the files refine\<close>

text \<open>The users in the order of the files, the counter, and how many files there are.\<close>

definition holds :: "flatfile_state \<Rightarrow> disk \<Rightarrow> user_record list \<Rightarrow> nat \<Rightarrow> nat \<Rightarrow> bool" where
  "holds state d us n k \<longleftrightarrow> (\<exists>uss. us = concat uss \<and> length uss = k \<and> stored state d uss n)"

definition can_write :: "flatfile_state \<Rightarrow> disk \<Rightarrow> bool" where
  "can_write state d \<longleftrightarrow> (\<forall>i. dk_writable d (shard_file state i)) \<and> dk_writable d (ff_user_next_path state)"

lemma holdsI: "stored state d uss n \<Longrightarrow> holds state d (concat uss) n (length uss)"
  by (auto simp: holds_def)

lemma concat_update_last: "uss \<noteq> [] \<Longrightarrow> concat (uss[length uss - 1 := List.last uss @ [u]]) = concat uss @ [u]"
  by (induction uss rule: rev_induct) (simp_all add: list_update_append)

lemma append_stored:
  assumes st: "stored state d uss n" and k: "length uss < 9998" and u: "clean_user u"
    and new: "ur_id u \<notin> ur_id ` set (concat uss)" "ur_id u \<le> n"
  shows "\<exists>rc d' k'. append_user_record state d u = (rc, d') \<and> dk_writable d' = dk_writable d
     \<and> rc \<in> {HYBBX_OK, HYBBX_ERR_IO} \<and> (can_write state d \<longrightarrow> rc = HYBBX_OK)
     \<and> holds state d' (if rc = HYBBX_OK then concat uss @ [u] else concat uss) n k' \<and> k' \<le> length uss + 1"
proof -
  let ?last = "List.last uss"
  have saved: ?thesis
    if a: "append_user_record state d u = save_user_shard state d (i + 1) us" and i: "i \<le> length uss" "i < 9998"
      and us: "list_all clean_user us" "length us \<le> USERS_PER_FILE"
      and c: "concat (put_shard i us uss) = concat uss @ [u]" and le: "\<forall>v \<in> set us. ur_id v \<le> n" for i us
  proof -
    have "distinct (map ur_id (concat (put_shard i us uss)))" unfolding c using storedD(7) [OF st] new(1) by simp
    note s = save_stored [OF st i us this le]
    show ?thesis
    proof (cases "dk_writable d (shard_file state (i + 1))")
      case True
      with s have "fst (save_user_shard state d (i + 1) us) = HYBBX_OK"
        "dk_writable (snd (save_user_shard state d (i + 1) us)) = dk_writable d"
        "stored state (snd (save_user_shard state d (i + 1) us)) (put_shard i us uss) n" by simp_all
      then show ?thesis unfolding a holds_def c [symmetric]
        using i(1) by (intro exI [of _ HYBBX_OK] exI [of _ "snd (save_user_shard state d (i + 1) us)"] exI [of _ "length (put_shard i us uss)"])
          (auto simp: length_put_shard prod_eq_iff)
    next
      case False
      with s have "save_user_shard state d (i + 1) us = (HYBBX_ERR_IO, d)" by simp
      then show ?thesis unfolding a holds_def
        using st False by (intro exI [of _ HYBBX_ERR_IO] exI [of _ d] exI [of _ "length uss"]) (auto simp: can_write_def)
    qed
  qed
  show ?thesis
  proof (cases "uss = []")
    case True
    then show ?thesis
      using u new by (intro saved [of 0 "[u]"]) (auto simp: append_user_record_def last_shard_stored [OF st] put_shard_def USERS_PER_FILE_def)
  next
    case False
    let ?i = "length uss - 1"
    have i: "?i < length uss" "?i + 1 = length uss" "uss ! ?i = ?last" using False by (simp_all add: last_conv_nth)
    obtain path where p: "user_shard_path state (length uss) = (HYBBX_OK, path)"
      using path_facts(1) [OF storedD(1) [OF st], of "length uss"] k False by (cases "user_shard_path state (length uss)") auto
    have l: "load_user_shard (dk_files d path) = (HYBBX_OK, ?last)"
      using load_stored [OF st i(1)] p unfolding i(2,3) by simp
    have a: "append_user_record state d u =
       (if length ?last \<ge> USERS_PER_FILE then save_user_shard state d (length uss + 1) [u]
        else save_user_shard state d (length uss) (?last @ [u]))"
      using False p l by (simp add: append_user_record_def last_shard_stored [OF st])
    have lin: "?last \<in> set uss" using False by simp
    show ?thesis
    proof (cases "length ?last \<ge> USERS_PER_FILE")
      case True
      then show ?thesis
        using u new k a by (intro saved [of "length uss" "[u]"]) (auto simp: put_shard_def USERS_PER_FILE_def)
    next
      case False
      have "\<forall>v \<in> set (?last @ [u]). ur_id v \<le> n" using storedD(9) [OF st] new lin by auto
      then show ?thesis
        using False u k a i storedD(5) [OF st lin] concat_update_last [of uss u] \<open>uss \<noteq> []\<close>
        by (intro saved [of ?i "?last @ [u]"]) (auto simp: put_shard_def)
    qed
  qed
qed

lemma distinct_map_split:
  assumes "distinct (map f (A @ (B @ y # C) @ D))" and "w \<in> set A \<union> set B \<union> set C \<union> set D"
  shows "f w \<noteq> f y"
proof -
  have "f y \<notin> f ` set A" "f y \<notin> f ` set B" "f y \<notin> f ` set C" "f y \<notin> f ` set D" using assms(1) by auto
  with assms(2) show ?thesis by (metis Un_iff imageI)
qed

lemma concat_index:
  assumes "find_slot (\<lambda>us. list_ex P us) uss = Some i" and "distinct (map f (concat uss))" and "\<And>u. P u \<longleftrightarrow> f u = x"
  shows "i < length uss \<and> (\<exists>j. find_slot P (uss ! i) = Some j \<and> j < length (uss ! i)
     \<and> (\<forall>v. concat (uss[i := (uss ! i)[j := v]]) = map (\<lambda>u. if P u then v else u) (concat uss))
     \<and> concat (uss[i := take j (uss ! i) @ drop (j + 1) (uss ! i)]) = List.filter (\<lambda>u. \<not> P u) (concat uss))"
proof -
  note f = find_slot_Some [OF assms(1)]
  obtain j where j: "find_slot P (uss ! i) = Some j"
    using f by (cases "find_slot P (uss ! i)") (auto simp: find_slot_None_iff list_ex_iff)
  note g = find_slot_Some [OF j]
  let ?us = "uss ! i" and ?a = "concat (take i uss)" and ?b = "concat (drop (Suc i) uss)"
  have u: "uss = take i uss @ ?us # drop (Suc i) uss" using f by (simp add: id_take_nth_drop)
  have us: "?us = take j ?us @ ?us ! j # drop (Suc j) ?us" using g by (simp add: id_take_nth_drop)
  have c: "concat uss = ?a @ (take j ?us @ ?us ! j # drop (Suc j) ?us) @ ?b"
    using arg_cong [OF u, of concat] us by simp
  have d: "distinct (map f (?a @ (take j ?us @ ?us ! j # drop (Suc j) ?us) @ ?b))" using assms(2) unfolding c .
  have x: "f (?us ! j) = x" using g assms(3) by blast
  have no: "\<not> P w" if "w \<in> set ?a \<union> set (take j ?us) \<union> set (drop (Suc j) ?us) \<union> set ?b" for w
    unfolding assms(3) x [symmetric] by (rule distinct_map_split [OF d that])
  have same: "map (\<lambda>u. if P u then v else u) xs = xs" if "\<forall>w \<in> set xs. \<not> P w" for v xs
    using that by (induction xs) auto
  have "concat (uss[i := zs]) = ?a @ zs @ ?b" for zs
    using f by (simp add: upd_conv_take_nth_drop)
  moreover have "map (\<lambda>u. if P u then v else u) (concat uss) = ?a @ (take j ?us @ v # drop (Suc j) ?us) @ ?b" for v
    unfolding c using no g by (simp add: same)
  moreover have "List.filter (\<lambda>u. \<not> P u) (concat uss) = ?a @ (take j ?us @ drop (Suc j) ?us) @ ?b"
    unfolding c using no g by (simp add: filter_id_conv)
  ultimately show ?thesis
    using f g j by (intro conjI exI [of _ j]) (simp_all add: upd_conv_take_nth_drop)
qed

lemma stored_owner:
  assumes "stored state d uss n" and "uid \<in> ur_id ` set (concat uss)" and "uid \<noteq> 0"
  obtains i j where "find_user_shard state d uid = (HYBBX_OK, i + 1, j)" "i < length uss" "j < length (uss ! i)"
    "\<And>v. concat (uss[i := (uss ! i)[j := v]]) = map (\<lambda>u. if ur_id u = uid then v else u) (concat uss)"
    "concat (uss[i := take j (uss ! i) @ drop (j + 1) (uss ! i)]) = List.filter (\<lambda>u. ur_id u \<noteq> uid) (concat uss)"
proof -
  let ?P = "\<lambda>u. ur_id u = uid"
  obtain i where i: "find_slot (\<lambda>us. list_ex ?P us) uss = Some i"
    using assms(2) by (cases "find_slot (\<lambda>us. list_ex ?P us) uss") (auto simp: find_slot_None_iff list_ex_iff)
  from concat_index [OF i storedD(7) [OF assms(1)]] obtain j where
    "i < length uss" "find_slot ?P (uss ! i) = Some j" "j < length (uss ! i)"
    "\<And>v. concat (uss[i := (uss ! i)[j := v]]) = map (\<lambda>u. if ?P u then v else u) (concat uss)"
    "concat (uss[i := take j (uss ! i) @ drop (j + 1) (uss ! i)]) = List.filter (\<lambda>u. \<not> ?P u) (concat uss)" by blast
  then show thesis using find_shard_stored [OF assms(1,3)] i by (intro that [of i j]) simp_all
qed

text \<open>A valid registration whose profile texts survive a file gives a record that does.\<close>

definition tidy_registration :: "user_registration \<Rightarrow> bool" where
  "tidy_registration reg \<longleftrightarrow>
     clean_value (rg_full_name reg) \<and> clean_value (rg_country reg) \<and> clean_value (rg_location reg)"

lemma name_chars_clean:
  "list_all username_char_ok s \<Longrightarrow> clean_value s" "list_all username_char_ok s \<Longrightarrow> clean_value (map c_tolower s)"
  "list_all email_char_ok s \<Longrightarrow> clean_value s"
proof -
  have c: "ini_plain_char c \<and> \<not> c_isspace c \<and> c \<noteq> CHR 0x27" if "username_char_ok c \<or> email_char_ok c" for c
  proof -
    have "list_all (\<lambda>x. \<not> username_char_ok x \<and> \<not> email_char_ok x) [CHR 0x20, CHR 0x09, CHR 0x0A, CHR 0x0B, CHR 0x0C, CHR 0x0D, CHR 0x27]"
      by code_simp
    then show ?thesis using that valid_text_plain(1,3) [of c] by (auto simp: c_isspace_def)
  qed
  have low: "username_char_ok (c_tolower c)" if "username_char_ok c" for c
    using that by (auto simp: username_char_ok_def c_tolower_def c_isupper_def c_islower_def of_char_of)
  show "list_all username_char_ok s \<Longrightarrow> clean_value s" "list_all email_char_ok s \<Longrightarrow> clean_value s"
    "list_all username_char_ok s \<Longrightarrow> clean_value (map c_tolower s)"
    by (intro plain_chars_clean; use c low in \<open>auto simp: list_all_iff\<close>)+
qed

lemma digest_clean: "hex_digest s \<Longrightarrow> clean_value (PASSWORD_SHA256_PREFIX @ s)"
proof -
  have "list_all (\<lambda>c. ini_plain_char c \<and> \<not> c_isspace c \<and> c \<noteq> CHR 0x27) (''0123456789abcdef'' @ PASSWORD_SHA256_PREFIX)"
    by code_simp
  then show "hex_digest s \<Longrightarrow> clean_value (PASSWORD_SHA256_PREFIX @ s)"
    unfolding list_all_append by (intro plain_chars_clean) (auto simp only: hex_digest_def list_all_iff set_append Un_iff)
qed

lemma registered_clean:
  assumes "hybbx_registration_valid reg gp" and "tidy_registration reg" and "0 < uid" and "uid < 2 ^ 64"
    and "0 \<le> now" and "now < 2 ^ 63" and "pw = [] \<or> (\<exists>h. pw = PASSWORD_SHA256_PREFIX @ h \<and> hex_digest h)"
  shows "clean_user (registered_record uid reg now pw)"
proof -
  have u: "4 \<le> length (rg_username reg)" "length (rg_username reg) \<le> 12" "list_all username_char_ok (rg_username reg)"
    "length (rg_nickname reg) \<le> 12" "list_all username_char_ok (rg_nickname reg)"
    using assms(1) by (simp_all add: hybbx_registration_valid_def hybbx_username_valid_def USERNAME_MAX_LEN_def USERNAME_MIN_LEN_def)
  have p: "length (rg_full_name reg) < USER_FULL_NAME_MAX" "length (rg_country reg) < USER_COUNTRY_MAX"
    "length (rg_location reg) < USER_LOCATION_MAX" "length (rg_email reg) < USER_EMAIL_MAX" "list_all email_char_ok (rg_email reg)"
    using assms(1) by (simp_all add: hybbx_registration_valid_def hybbx_user_profile_valid_def profile_text_valid_def email_valid_def)
  have pw: "clean_value pw \<and> length pw < USER_PASSWORD_MAX"
    using assms(7) digest_clean plain_chars_clean [of "[]"]
    by (auto simp: hex_digest_def PASSWORD_SHA256_PREFIX_def USER_PASSWORD_MAX_def)
  have "map c_tolower (rg_username reg) \<noteq> []" using u(1) by auto
  then show ?thesis
    using assms(2-6) u p pw name_chars_clean
    by (simp add: clean_user_def registered_record_def user_zero_def hybbx_username_normalize_def tidy_registration_def
        USER_NAME_MAX_def USER_NICKNAME_MAX_def str_store_fits comp_def)
qed

lemma bump_stored:
  assumes "stored state d uss n" and "n + 1 < 2 ^ 64"
  shows "bump_counter d (ff_user_next_path state) =
     (if dk_writable d (ff_user_next_path state)
      then (HYBBX_OK, n + 1, fs_put (ff_user_next_path state) (dec_of_nat (n + 1) @ [CHR 0x0A]) d) else (HYBBX_ERR_IO, n + 1, d))"
    and "stored state (fs_put (ff_user_next_path state) (dec_of_nat (n + 1) @ [CHR 0x0A]) d) uss (n + 1)"
proof -
  show "bump_counter d (ff_user_next_path state) =
     (if dk_writable d (ff_user_next_path state)
      then (HYBBX_OK, n + 1, fs_put (ff_user_next_path state) (dec_of_nat (n + 1) @ [CHR 0x0A]) d) else (HYBBX_ERR_IO, n + 1, d))"
    using assms(2) by (simp add: bump_counter_def storedD(8) [OF assms(1)] write_counter_def Let_def)
  let ?d = "fs_put (ff_user_next_path state) (dec_of_nat (n + 1) @ [CHR 0x0A]) d"
  have s: "dk_files ?d (shard_file state (i + 1)) = dk_files d (shard_file state (i + 1))" if "i < 9999" for i
    using path_facts(4) [OF storedD(1) [OF assms(1)], of "i + 1"] that by simp
  have "c_strtoul (dec_of_nat (n + 1) @ [CHR 0x0A]) = (n + 1, [CHR 0x0A])"
  proof -
    obtain x xs where x: "dec_of_nat (n + 1) = x # xs" by (cases "dec_of_nat (n + 1)") auto
    then have "c_isdigit x" using dec_of_nat_plain [of x "n + 1"] by simp
    then have "\<not> c_isspace x" "x \<noteq> CHR ''-''" "x \<noteq> CHR ''+''" using c_isdigit_not_space c_isdigit_not_sign by auto
    moreover have "takeWhile c_isdigit (dec_of_nat (n + 1) @ [CHR 0x0A]) = dec_of_nat (n + 1)"
      "dropWhile c_isdigit (dec_of_nat (n + 1) @ [CHR 0x0A]) = [CHR 0x0A]"
      using dec_of_nat_plain [of _ "n + 1"] by (simp_all add: takeWhile_append2 dropWhile_append2 c_isdigit_def)
    moreover have "digits_val (x # xs) = n + 1" unfolding x [symmetric] by (rule dec_of_nat_val)
    ultimately show ?thesis using x assms(2) by (simp add: c_strtoul_def Let_def c_ulong_max_def)
  qed
  then have "read_counter ?d (ff_user_next_path state) = (HYBBX_OK, n + 1)"
    by (simp add: read_counter_def storedD(10) [OF assms(1)])
  moreover have "\<forall>u \<in> set (concat uss). ur_id u \<le> n + 1" using storedD(9) [OF assms(1)] by fastforce
  ultimately show "stored state ?d uss (n + 1)"
    using storedD(1,2,5,6,7) [OF assms(1)] storedD(3,4) [OF assms(1)] s fs_put_simps(5) [of "ff_user_next_path state" _ d]
      storedD(10) [OF assms(1)]
    unfolding stored_def by (auto simp del: fs_put_simps)
qed

section \<open>Every operation is its list operation\<close>

text \<open>
  The new record has the next number, the level of a user, and waits for its activation.  When a file
  cannot be written the users are as they were, though the number may be used up.
\<close>

definition new_user :: "(string \<Rightarrow> string) \<Rightarrow> nat \<Rightarrow> user_registration \<Rightarrow> int \<Rightarrow> user_record" where
  "new_user sha n reg now =
     registered_record (n + 1) reg now (if rg_password reg = [] then [] else PASSWORD_SHA256_PREFIX @ sha (rg_password reg))"

lemma register_holds:
  assumes "holds state d us n k" and "k < 9998" and "n + 1 < 2 ^ 64"
    and "hybbx_registration_valid reg gp" and "tidy_registration reg"
    and "rg_password reg = [] \<or> hybbx_password_plain_valid (rg_password reg)" and "\<And>p. hex_digest (sha p)"
    and "0 \<le> now" and "now < 2 ^ 63"
  shows "if list_ex (same_identity (rg_username reg) (rg_nickname reg)) us
     then flatfile_register_user sha gp state d reg now = (HYBBX_ERR_BUSY, d, None)
     else \<exists>rc d' out n' k'. flatfile_register_user sha gp state d reg now = (rc, d', out)
       \<and> dk_writable d' = dk_writable d \<and> rc \<in> {HYBBX_OK, HYBBX_ERR_IO} \<and> (can_write state d \<longrightarrow> rc = HYBBX_OK)
       \<and> (rc = HYBBX_OK \<longrightarrow> out = Some (new_user sha n reg now) \<and> n' = n + 1)
       \<and> holds state d' (if rc = HYBBX_OK then us @ [new_user sha n reg now] else us) n' k'
       \<and> n \<le> n' \<and> n' \<le> n + 1 \<and> k' \<le> k + 1"
proof -
  obtain uss where us: "us = concat uss" "length uss = k" and st: "stored state d uss n" using assms(1) by (auto simp: holds_def)
  let ?taken = "list_ex (same_identity (rg_username reg) (rg_nickname reg)) us"
  have find: "flatfile_find_user state d (rg_username reg) = lookup_result (List.find (\<lambda>u. str_ieq (ur_username u) (rg_username reg)) us)"
    using find_user_stored [OF st] us(1) by simp
  have fnone: "\<not> ?taken \<Longrightarrow> List.find (\<lambda>u. str_ieq (ur_username u) (rg_username reg)) us = None"
    by (auto simp: find_None_iff list_ex_iff same_identity_def)
  note taken = taken_stored [OF st, of "rg_username reg" "rg_nickname reg", folded us(1)]
  show ?thesis
  proof (cases ?taken)
    case True
    then show ?thesis using assms(4) taken
      by (simp add: flatfile_register_user_def find lookup_result_def)
  next
    case False
    let ?res = "flatfile_register_user sha gp state d reg now"
    define pw where "pw = (if rg_password reg = [] then [] else PASSWORD_SHA256_PREFIX @ sha (rg_password reg))"
    define u where "u = registered_record (n + 1) reg now pw"
    let ?d1 = "fs_put (ff_user_next_path state) (dec_of_nat (n + 1) @ [CHR 0x0A]) d"
    have u: "u = new_user sha n reg now" by (simp add: u_def new_user_def pw_def)
    have pre: "?res = (case bump_counter d (ff_user_next_path state) of (rc, user_id, d1) \<Rightarrow>
            if rc \<noteq> HYBBX_OK then (rc, d1, None)
            else if rg_password reg \<noteq> [] \<and> \<not> hybbx_password_plain_valid (rg_password reg)
            then (HYBBX_ERR_INVALID, d1, Some (registered_record user_id reg now []))
            else case (if rg_password reg = [] then (HYBBX_OK, Some [])
                       else hybbx_password_hash sha (rg_password reg) USER_PASSWORD_MAX) of (rc, password) \<Rightarrow>
              if rc \<noteq> HYBBX_OK then (rc, d1, Some (registered_record user_id reg now []))
              else let user = registered_record user_id reg now (the password) in
                case append_user_record state d1 user of (rc, d2) \<Rightarrow> (rc, d2, Some user))"
      using assms(4) False taken fnone by (simp add: flatfile_register_user_def find lookup_result_def)
    show ?thesis
    proof (cases "dk_writable d (ff_user_next_path state)")
      case bad: False
      have "?res = (HYBBX_ERR_IO, d, None)" unfolding pre using bump_stored(1) [OF st assms(3)] bad by simp
      then show ?thesis
        using False assms(1) bad
        by (simp add: can_write_def) (intro exI [of _ n] exI [of _ k], simp)
    next
      case ok: True
      have l: "length (sha (rg_password reg)) = 64" using assms(7) by (simp add: hex_digest_def)
      have bump: "bump_counter d (ff_user_next_path state) = (HYBBX_OK, n + 1, ?d1)" "stored state ?d1 uss (n + 1)"
        using bump_stored [OF st assms(3)] ok by simp_all
      have hash: "(if rg_password reg = [] then (HYBBX_OK, Some []) else hybbx_password_hash sha (rg_password reg) USER_PASSWORD_MAX) = (HYBBX_OK, Some pw)"
        using l by (simp add: pw_def hybbx_password_hash_def hybbx_password_hash_sha256_def USER_PASSWORD_MAX_def PASSWORD_SHA256_PREFIX_def c_snprintf_def)
      have "clean_user u" unfolding u_def using registered_clean [OF assms(4,5), of "n + 1" now pw] assms(3,7,8,9) by (auto simp: pw_def)
      moreover have "ur_id u = n + 1" by (simp add: u_def registered_record_def)
      moreover from this have "ur_id u \<notin> ur_id ` set (concat uss)" "ur_id u \<le> n + 1" using storedD(9) [OF st] by fastforce+
      ultimately obtain rc d' k' where a: "append_user_record state ?d1 u = (rc, d')" "dk_writable d' = dk_writable d"
        "rc \<in> {HYBBX_OK, HYBBX_ERR_IO}" "can_write state ?d1 \<longrightarrow> rc = HYBBX_OK"
        "holds state d' (if rc = HYBBX_OK then concat uss @ [u] else concat uss) (n + 1) k'" "k' \<le> length uss + 1"
        using append_stored [OF bump(2), of u] assms(2) us(2) unfolding fs_put_simps(1) by auto
      have "(rg_password reg \<noteq> [] \<and> \<not> hybbx_password_plain_valid (rg_password reg)) = False" using assms(6) by blast
      then have "?res = (rc, d', Some u)"
        unfolding pre bump(1) hash prod.case by (simp only: if_False simp_thms prod.case Let_def option.sel u_def [symmetric] a(1))
      moreover have "can_write state ?d1 = can_write state d" by (simp add: can_write_def)
      ultimately have "?res = (rc, d', Some u) \<and> dk_writable d' = dk_writable d \<and> rc \<in> {HYBBX_OK, HYBBX_ERR_IO} \<and> (can_write state d \<longrightarrow> rc = HYBBX_OK)
         \<and> (rc = HYBBX_OK \<longrightarrow> Some u = Some (new_user sha n reg now) \<and> n + 1 = n + 1)
         \<and> holds state d' (if rc = HYBBX_OK then us @ [new_user sha n reg now] else us) (n + 1) k'
         \<and> n \<le> n + 1 \<and> n + 1 \<le> n + 1 \<and> k' \<le> k + 1"
        using a us u by (simp split: if_splits)
      then show ?thesis using False by (simp only: if_False) blast
    qed
  qed
qed

lemma update_holds:
  assumes "holds state d us n k" and "k < 9998" and "ur_id u \<in> ur_id ` set us" and "clean_user u"
  shows "\<exists>rc d'. flatfile_update_user state d u = (rc, d') \<and> dk_writable d' = dk_writable d
     \<and> rc \<in> {HYBBX_OK, HYBBX_ERR_IO} \<and> (can_write state d \<longrightarrow> rc = HYBBX_OK)
     \<and> holds state d' (if rc = HYBBX_OK then map (\<lambda>v. if ur_id v = ur_id u then u else v) us else us) n k"
proof -
  obtain uss where us: "us = concat uss" "length uss = k" and st: "stored state d uss n" using assms(1) by (auto simp: holds_def)
  have u0: "ur_id u \<noteq> 0" using assms(4) by (simp add: clean_user_def)
  obtain i j where f: "find_user_shard state d (ur_id u) = (HYBBX_OK, i + 1, j)" "i < length uss" "j < length (uss ! i)"
    and c: "\<And>v. concat (uss[i := (uss ! i)[j := v]]) = map (\<lambda>w. if ur_id w = ur_id u then v else w) (concat uss)"
    by (rule stored_owner [OF st _ u0]) (use assms(3) us(1) in auto)
  obtain path where p: "user_shard_path state (i + 1) = (HYBBX_OK, path)"
    using path_facts(1) [OF storedD(1) [OF st], of "i + 1"] f(2) us(2) assms(2) by (cases "user_shard_path state (i + 1)") auto
  have l: "load_user_shard (dk_files d path) = (HYBBX_OK, uss ! i)" using load_stored [OF st f(2)] p by simp
  have u': "u\<lparr>ur_username := hybbx_username_normalize (ur_username u)\<rparr> = u" using assms(4) by (simp add: clean_user_def)
  let ?us = "(uss ! i)[j := u]"
  have lin: "uss ! i \<in> set uss" using f(2) by simp
  have clean: "list_all clean_user ?us" using storedD(5) [OF st lin] assms(4) f(3) by (auto simp: list_all_length nth_list_update)
  have len: "length ?us \<le> USERS_PER_FILE" using storedD(6) [OF st lin] by simp
  have put: "concat (put_shard i ?us uss) = map (\<lambda>w. if ur_id w = ur_id u then u else w) (concat uss)"
    using c f(2) by (simp add: put_shard_def)
  have ids: "map ur_id (concat (put_shard i ?us uss)) = map ur_id (concat uss)" unfolding put by simp
  have le: "\<forall>v \<in> set ?us. ur_id v \<le> n"
  proof -
    have "\<forall>v \<in> set us. ur_id v \<le> n" using storedD(9) [OF st] us(1) by blast
    moreover have "set (uss ! i) \<subseteq> set us" using us(1) lin by auto
    ultimately show ?thesis using assms(3) by (auto dest!: set_update_subset_insert [THEN subsetD])
  qed
  have s: "if dk_writable d (shard_file state (i + 1))
     then fst (save_user_shard state d (i + 1) ?us) = HYBBX_OK
        \<and> dk_writable (snd (save_user_shard state d (i + 1) ?us)) = dk_writable d
        \<and> stored state (snd (save_user_shard state d (i + 1) ?us)) (put_shard i ?us uss) n
     else save_user_shard state d (i + 1) ?us = (HYBBX_ERR_IO, d)"
    by (rule save_stored [OF st _ _ clean len _ le]) (use f(2) us(2) assms(2) ids storedD(7) [OF st] in auto)
  have "flatfile_update_user state d u = save_user_shard state d (i + 1) ?us"
    using u0 f p l by (simp add: flatfile_update_user_def u')
  moreover have "length (put_shard i ?us uss) = k" using f(2) us(2) by (simp add: put_shard_def)
  moreover have "dk_writable d (shard_file state (i + 1))" if "can_write state d" using that by (simp add: can_write_def)
  ultimately show ?thesis
    using s put us st holdsI [of state "snd (save_user_shard state d (i + 1) ?us)" "put_shard i ?us uss" n] holdsI [of state d uss n]
    by (cases "dk_writable d (shard_file state (i + 1))"; cases "save_user_shard state d (i + 1) ?us") auto
qed

lemma remove_nick_stored: "stored state d uss n \<Longrightarrow> stored state (remove_nickname_file state d name) uss n"
  using same_store_stored [OF nickname_file_same_store(2)] storedD(1) by metis

lemma remove_nick_writable [simp]: "dk_writable (remove_nickname_file state d name) = dk_writable d"
  by (simp add: remove_nickname_file_def split: prod.split)

lemma delete_holds:
  assumes "holds state d us n k" and "k < 9998" and "uid \<in> ur_id ` set us" and "uid \<noteq> 0"
  shows "\<exists>rc d'. flatfile_delete_user state d uid = (rc, d') \<and> dk_writable d' = dk_writable d
     \<and> rc \<in> {HYBBX_OK, HYBBX_ERR_IO} \<and> (can_write state d \<longrightarrow> rc = HYBBX_OK)
     \<and> holds state d' (if rc = HYBBX_OK then List.filter (\<lambda>v. ur_id v \<noteq> uid) us else us) n k"
proof -
  obtain uss where us: "us = concat uss" "length uss = k" and st: "stored state d uss n" using assms(1) by (auto simp: holds_def)
  obtain i j where f: "find_user_shard state d uid = (HYBBX_OK, i + 1, j)" "i < length uss" "j < length (uss ! i)"
    and c: "concat (uss[i := take j (uss ! i) @ drop (j + 1) (uss ! i)]) = List.filter (\<lambda>u. ur_id u \<noteq> uid) (concat uss)"
    by (rule stored_owner [OF st _ assms(4)]) (use assms(3) us(1) in auto)
  obtain path where p: "user_shard_path state (i + 1) = (HYBBX_OK, path)"
    using path_facts(1) [OF storedD(1) [OF st], of "i + 1"] f(2) us(2) assms(2) by (cases "user_shard_path state (i + 1)") auto
  have l: "load_user_shard (dk_files d path) = (HYBBX_OK, uss ! i)" using load_stored [OF st f(2)] p by simp
  let ?us = "take j (uss ! i) @ drop (j + 1) (uss ! i)"
  let ?d = "remove_nickname_file state d (ur_username (uss ! i ! j))"
  have lin: "uss ! i \<in> set uss" using f(2) by simp
  have sub: "set ?us \<subseteq> set (uss ! i)" using set_take_subset [of j "uss ! i"] set_drop_subset [of "j + 1" "uss ! i"] by simp
  have clean: "list_all clean_user ?us" using storedD(5) [OF st lin] sub unfolding list_all_iff by blast
  have len: "length ?us \<le> USERS_PER_FILE" using storedD(6) [OF st lin] by simp
  have put: "concat (put_shard i ?us uss) = List.filter (\<lambda>u. ur_id u \<noteq> uid) (concat uss)"
    using c f(2) by (simp add: put_shard_def)
  have ids: "distinct (map ur_id (concat (put_shard i ?us uss)))" unfolding put by (rule distinct_map_filter) (rule storedD(7) [OF st])
  have le: "\<forall>v \<in> set ?us. ur_id v \<le> n" using storedD(9) [OF st] sub lin by auto
  have s: "if dk_writable ?d (shard_file state (i + 1))
     then fst (save_user_shard state ?d (i + 1) ?us) = HYBBX_OK
        \<and> dk_writable (snd (save_user_shard state ?d (i + 1) ?us)) = dk_writable ?d
        \<and> stored state (snd (save_user_shard state ?d (i + 1) ?us)) (put_shard i ?us uss) n
     else save_user_shard state ?d (i + 1) ?us = (HYBBX_ERR_IO, ?d)"
    by (rule save_stored [OF remove_nick_stored [OF st] _ _ clean len ids le]) (use f(2) us(2) assms(2) in auto)
  have "flatfile_delete_user state d uid = save_user_shard state ?d (i + 1) ?us"
    using assms(4) f p l by (simp add: flatfile_delete_user_def)
  moreover have "length (put_shard i ?us uss) = k" using f(2) us(2) by (simp add: put_shard_def)
  moreover have "dk_writable d (shard_file state (i + 1))" if "can_write state d" using that by (simp add: can_write_def)
  moreover have "stored state ?d uss n" by (rule remove_nick_stored [OF st])
  ultimately show ?thesis
    using s put us holdsI [of state "snd (save_user_shard state ?d (i + 1) ?us)" "put_shard i ?us uss" n] holdsI [of state ?d uss n]
    by (cases "dk_writable d (shard_file state (i + 1))"; cases "save_user_shard state ?d (i + 1) ?us") auto
qed

section \<open>The contract of a user store\<close>

text \<open>
  What the account commands rely on.  \<open>R d us\<close> says that the store \<open>d\<close> holds the users \<open>us\<close>; a
  change that is refused leaves them.
\<close>

locale user_store =
  fixes R :: "'d \<Rightarrow> user_record list \<Rightarrow> bool"
    and resolve :: "'d \<Rightarrow> string \<Rightarrow> hybbx_result \<times> user_record option"
    and update :: "'d \<Rightarrow> user_record \<Rightarrow> hybbx_result \<times> 'd"
    and delete :: "'d \<Rightarrow> nat \<Rightarrow> hybbx_result \<times> 'd"
  assumes resolve_law: "R d us \<Longrightarrow> name \<noteq> [] \<Longrightarrow> resolve d name = lookup_result (list_resolve us name)"
    and update_law: "R d us \<Longrightarrow> ur_id u \<in> ur_id ` set us \<Longrightarrow> clean_user u \<Longrightarrow>
      \<exists>rc d'. update d u = (rc, d') \<and> R d' (if rc = HYBBX_OK then map (\<lambda>v. if ur_id v = ur_id u then u else v) us else us)"
    and delete_law: "R d us \<Longrightarrow> uid \<in> ur_id ` set us \<Longrightarrow> uid \<noteq> 0 \<Longrightarrow>
      \<exists>rc d'. delete d uid = (rc, d') \<and> R d' (if rc = HYBBX_OK then List.filter (\<lambda>v. ur_id v \<noteq> uid) us else us)"
    and good_law: "R d us \<Longrightarrow> distinct (map ur_id us) \<and> list_all clean_user us"
begin

lemma resolved_in: "list_resolve us name = Some u \<Longrightarrow> u \<in> set us"
  by (auto simp: list_resolve_def find_Some_iff split: option.splits)

lemma same_id: "R d us \<Longrightarrow> u \<in> set us \<Longrightarrow> v \<in> set us \<Longrightarrow> ur_id v = ur_id u \<longleftrightarrow> v = u"
  using good_law by (auto simp: distinct_map inj_on_def)

lemma modify_resolved:
  assumes "R d us" and "resolve d name = (HYBBX_OK, Some u)" and "name \<noteq> []" and "ur_id u' = ur_id u" and "clean_user u'"
  shows "\<exists>rc d'. update d u' = (rc, d') \<and> u \<in> set us
    \<and> R d' (if rc = HYBBX_OK then map (\<lambda>v. if v = u then u' else v) us else us)"
proof -
  have u: "u \<in> set us"
    using resolve_law [OF assms(1,3)] assms(2) resolved_in by (auto simp: lookup_result_def split: if_splits)
  have eq: "map (\<lambda>v. if ur_id v = ur_id u' then u' else v) us = map (\<lambda>v. if v = u then u' else v) us"
    using same_id [OF assms(1) u] assms(4) by (intro map_cong) simp_all
  have "ur_id u' \<in> ur_id ` set us" using u assms(4) by simp
  from update_law [OF assms(1) this assms(5)] u show ?thesis unfolding eq by blast
qed

lemma remove_resolved:
  assumes "R d us" and "resolve d name = (HYBBX_OK, Some u)" and "name \<noteq> []"
  shows "\<exists>rc d'. delete d (ur_id u) = (rc, d') \<and> u \<in> set us
    \<and> R d' (if rc = HYBBX_OK then List.filter (\<lambda>v. v \<noteq> u) us else us)"
proof -
  have u: "u \<in> set us"
    using resolve_law [OF assms(1,3)] assms(2) resolved_in by (auto simp: lookup_result_def split: if_splits)
  then have nz: "ur_id u \<noteq> 0" using good_law [OF assms(1)] by (auto simp: list_all_iff clean_user_def)
  have eq: "List.filter (\<lambda>v. ur_id v \<noteq> ur_id u) us = List.filter (\<lambda>v. v \<noteq> u) us"
    using same_id [OF assms(1) u] by (intro filter_cong) simp_all
  from delete_law [OF assms(1) imageI [OF u] nz] u show ?thesis unfolding eq by blast
qed

end

definition store_holds :: "flatfile_state \<Rightarrow> disk \<Rightarrow> user_record list \<Rightarrow> bool" where
  "store_holds state d us \<longleftrightarrow> (\<exists>n k. holds state d us n k \<and> k < 9998)"

interpretation ff: user_store "store_holds state" "flatfile_resolve_user state" "flatfile_update_user state" "flatfile_delete_user state"
  for state
proof (unfold_locales, goal_cases)
  case (1 d us name)
  then show ?case using resolve_user_stored by (auto simp: store_holds_def holds_def)
next
  case (2 d us u)
  then show ?case unfolding store_holds_def using update_holds by blast
next
  case (3 d us uid)
  then show ?case unfolding store_holds_def using delete_holds by blast
next
  case (4 d us)
  then obtain uss n where "us = concat uss" "stored state d uss n" by (auto simp: store_holds_def holds_def)
  then show ?case using storedD(5,7) by (auto simp: list_all_iff)
qed

section \<open>Nobody shares a name\<close>

definition unique_identities :: "user_record list \<Rightarrow> bool" where
  "unique_identities us \<longleftrightarrow> sorted_wrt (\<lambda>u v. \<not> same_identity (ur_username u) (ur_nickname u) v) us"

lemma same_identity_new:
  assumes "hybbx_registration_valid reg gp"
  shows "same_identity (ur_username v) (ur_nickname v) (registered_record uid reg now pw)
     \<longleftrightarrow> same_identity (rg_username reg) (rg_nickname reg) v"
proof -
  have l: "4 \<le> length (rg_username reg)" "length (rg_username reg) \<le> 12" "4 \<le> length (rg_nickname reg)" "length (rg_nickname reg) \<le> 12"
    using assms by (simp_all add: hybbx_registration_valid_def hybbx_username_valid_def USERNAME_MAX_LEN_def USERNAME_MIN_LEN_def)
  then have "rg_username reg \<noteq> []" "rg_nickname reg \<noteq> []" by auto
  with l show ?thesis
    by (auto simp: same_identity_def registered_record_def str_ieq_iff hybbx_username_normalize_def comp_def
        USER_NAME_MAX_def USER_NICKNAME_MAX_def)
qed

text \<open>A name that somebody has leads to him.\<close>

lemma find_only: "List.filter P us = [u] \<Longrightarrow> (\<And>x. Q x \<Longrightarrow> P x) \<Longrightarrow> Q u \<Longrightarrow> List.find Q us = Some u"
  by (induction us) (auto split: if_splits dest: filter_eq_ConsD)

lemma only_bearer:
  assumes "unique_identities us" and "u \<in> set us" and "name \<noteq> []"
    and "str_ieq (ur_username u) name \<or> str_ieq (ur_nickname u) name"
  shows "List.filter (\<lambda>v. str_ieq (ur_username v) name \<or> str_ieq (ur_nickname v) name) us = [u]"
proof -
  let ?P = "\<lambda>v. str_ieq (ur_username v) name \<or> str_ieq (ur_nickname v) name"
  have clash: "same_identity (ur_username v) (ur_nickname v) w" if "?P v" "?P w" for v w
    using that assms(3) by (auto simp: same_identity_def str_ieq_iff)
  show ?thesis using assms(1,2,4)
  proof (induction us)
    case (Cons v us)
    have later: "\<forall>w \<in> set us. \<not> same_identity (ur_username v) (ur_nickname v) w" "unique_identities us"
      using Cons.prems(1) by (simp_all add: unique_identities_def)
    show ?case
    proof (cases "?P v")
      case True
      then have none: "\<forall>w \<in> set us. \<not> ?P w" using later(1) clash by blast
      then have "u = v" using Cons.prems(2,3) by auto
      moreover have "List.filter ?P us = []" using none by (simp add: filter_empty_conv)
      ultimately show ?thesis using True by simp
    next
      case False
      then show ?thesis using Cons.IH [OF later(2)] Cons.prems(2,3) by auto
    qed
  qed simp
qed

lemma str_ieq_normalize: "str_ieq x (hybbx_username_normalize y) = str_ieq x y"
  unfolding str_ieq_iff hybbx_username_normalize_def map_map by (simp add: comp_def)

lemma list_resolve_bearer:
  assumes "List.filter (\<lambda>v. str_ieq (ur_username v) name \<or> str_ieq (ur_nickname v) name) us = [u]"
    and "name \<noteq> []" and "length name < USER_NAME_MAX"
  shows "list_resolve us name = Some u"
proof -
  let ?P = "\<lambda>v. str_ieq (ur_username v) name \<or> str_ieq (ur_nickname v) name"
  have "{v \<in> set us. ?P v} = {u}" using arg_cong [where f = set, OF assms(1)] by simp
  then have u: "?P u" and only: "\<And>v. v \<in> set us \<Longrightarrow> str_ieq (ur_username v) name \<Longrightarrow> v = u" by blast+
  have name: "str_ieq x (hybbx_username_normalize (str_store USER_NAME_MAX name)) = str_ieq x name" for x
    unfolding str_ieq_normalize str_store_fits [OF assms(3)] ..
  show ?thesis
  proof (cases "str_ieq (ur_username u) name")
    case True
    have "List.find (\<lambda>v. str_ieq (ur_username v) name) us = Some u" by (rule find_only [OF assms(1)]) (use True in blast)+
    then show ?thesis unfolding list_resolve_def name by (simp only: option.case)
  next
    case False
    then have nick: "str_ieq (ur_nickname u) name" using u by blast
    then have "ur_nickname u \<noteq> []" using assms(2) by (metis str_ieq_Nil(2))
    have "\<forall>v \<in> set us. \<not> str_ieq (ur_username v) name" using only False by blast
    then have n: "List.find (\<lambda>v. str_ieq (ur_username v) name) us = None" unfolding find_None_iff by blast
    have "List.find (\<lambda>v. ur_nickname v \<noteq> [] \<and> str_ieq (ur_nickname v) name) us = Some u"
      by (rule find_only [OF assms(1)]) (use nick \<open>ur_nickname u \<noteq> []\<close> in blast)+
    then show ?thesis unfolding list_resolve_def name n by (simp only: option.case)
  qed
qed

lemma resolved_by_name:
  assumes "holds state d us n k" and "unique_identities us" and "u \<in> set us" and "name \<noteq> []"
    and "str_ieq (ur_username u) name \<or> str_ieq (ur_nickname u) name"
  shows "flatfile_resolve_user state d name = (HYBBX_OK, Some u)
     \<and> List.filter (\<lambda>v. str_ieq (ur_username v) name \<or> str_ieq (ur_nickname v) name) us = [u]"
proof -
  obtain uss where us: "us = concat uss" "stored state d uss n" using assms(1) by (auto simp: holds_def)
  then have "clean_user u" using storedD(5) [OF us(2)] assms(3) by (auto simp: list_all_iff)
  moreover have "length name = length (ur_username u) \<or> length name = length (ur_nickname u)"
    using assms(5) by (auto simp: str_ieq_iff dest: map_eq_imp_length_eq)
  ultimately have l: "length name < USER_NAME_MAX"
    by (auto simp: clean_user_def USER_NAME_MAX_def USER_NICKNAME_MAX_def)
  note f = only_bearer [OF assms(2,3,4,5)]
  show ?thesis
    using resolve_user_stored [OF us(2) assms(4)] list_resolve_bearer [OF f assms(4) l] f us(1)
    by (simp add: lookup_result_def)
qed

text \<open>The operations on the store, and changes of what may be written, in any order.\<close>

inductive storage_step :: "(string \<Rightarrow> string) \<Rightarrow> string \<Rightarrow> flatfile_state \<Rightarrow> disk \<Rightarrow> disk \<Rightarrow> bool"
  for sha gp state where
  register: "flatfile_register_user sha gp state d reg now = (rc, d', out) \<Longrightarrow> hybbx_registration_valid reg gp \<Longrightarrow>
    tidy_registration reg \<Longrightarrow> rg_password reg = [] \<or> hybbx_password_plain_valid (rg_password reg) \<Longrightarrow>
    0 \<le> now \<Longrightarrow> now < 2 ^ 63 \<Longrightarrow> last_user_shard_index state d < 9998 \<Longrightarrow>
    snd (read_counter d (ff_user_next_path state)) + 1 < 2 ^ 64 \<Longrightarrow> storage_step sha gp state d d'"
| update: "flatfile_resolve_user state d name = (HYBBX_OK, Some u) \<Longrightarrow> name \<noteq> [] \<Longrightarrow> last_user_shard_index state d < 9998 \<Longrightarrow>
    ur_id u' = ur_id u \<Longrightarrow> ur_username u' = ur_username u \<Longrightarrow> ur_nickname u' = ur_nickname u \<Longrightarrow> clean_user u' \<Longrightarrow>
    flatfile_update_user state d u' = (rc, d') \<Longrightarrow> storage_step sha gp state d d'"
| delete: "flatfile_resolve_user state d name = (HYBBX_OK, Some u) \<Longrightarrow> name \<noteq> [] \<Longrightarrow> last_user_shard_index state d < 9998 \<Longrightarrow>
    flatfile_delete_user state d (ur_id u) = (rc, d') \<Longrightarrow> storage_step sha gp state d d'"
| permissions: "storage_step sha gp state d (d\<lparr>dk_writable := w\<rparr>)"

inductive storage_run :: "(string \<Rightarrow> string) \<Rightarrow> string \<Rightarrow> flatfile_state \<Rightarrow> disk \<Rightarrow> disk \<Rightarrow> bool"
  for sha gp state where
  start: "storage_run sha gp state d d"
| more: "storage_run sha gp state d d' \<Longrightarrow> storage_step sha gp state d' d'' \<Longrightarrow> storage_run sha gp state d d''"

definition store_inv :: "flatfile_state \<Rightarrow> disk \<Rightarrow> bool" where
  "store_inv state d \<longleftrightarrow> (\<exists>us n k. holds state d us n k \<and> unique_identities us)"

lemma holds_last: "holds state d us n k \<Longrightarrow> last_user_shard_index state d = k"
  using last_shard_stored by (auto simp: holds_def)

lemma holds_counter: "holds state d us n k \<Longrightarrow> read_counter d (ff_user_next_path state) = (HYBBX_OK, n)"
  using storedD(8) by (auto simp: holds_def)

lemma store_holds_last: "holds state d us n k \<Longrightarrow> last_user_shard_index state d < 9998 \<Longrightarrow> store_holds state d us"
  using holds_last by (auto simp: store_holds_def)

lemma storage_step_inv:
  assumes "storage_step sha gp state d d'" and "\<And>p. hex_digest (sha p)" and "store_inv state d"
  shows "store_inv state d'"
  using assms(1,3)
proof (induction rule: storage_step.induct)
  case (register d reg now rc d' out)
  then obtain us n k where h: "holds state d us n k" "unique_identities us" by (auto simp: store_inv_def)
  have k: "k < 9998" "n + 1 < 2 ^ 64" using register holds_last [OF h(1)] holds_counter [OF h(1)] by auto
  note r = register_holds [where sha = sha, OF h(1) k register(2,3,4) assms(2) register(5,6)]
  show ?case
  proof (cases "list_ex (same_identity (rg_username reg) (rg_nickname reg)) us")
    case True
    with r register(1) h show ?thesis by (auto simp: store_inv_def)
  next
    case False
    with r register(1) obtain n' k' where
      "holds state d' (if rc = HYBBX_OK then us @ [new_user sha n reg now] else us) n' k'" by auto
    moreover have "unique_identities (us @ [new_user sha n reg now])"
      using h(2) False same_identity_new [OF register(2)]
      by (auto simp: unique_identities_def sorted_wrt_append new_user_def list_ex_iff)
    ultimately show ?thesis using h(2) unfolding store_inv_def by (cases "rc = HYBBX_OK") auto
  qed
next
  case (update d name u u' rc d')
  then obtain us n k where h: "holds state d us n k" "unique_identities us" by (auto simp: store_inv_def)
  from ff.modify_resolved [OF store_holds_last [OF h(1) update(3)] update(1,2,4,7)] update(8)
  have "store_holds state d' (if rc = HYBBX_OK then map (\<lambda>v. if v = u then u' else v) us else us)" by auto
  moreover have "unique_identities (map (\<lambda>v. if v = u then u' else v) us)"
  proof -
    have "same_identity (ur_username (if x = u then u' else x)) (ur_nickname (if x = u then u' else x)) (if y = u then u' else y)
        = same_identity (ur_username x) (ur_nickname x) y" for x y
      using update(5,6) by (auto simp: same_identity_def)
    then show ?thesis using h(2) by (simp add: unique_identities_def sorted_wrt_map)
  qed
  ultimately show ?case using h(2) unfolding store_inv_def store_holds_def by (cases "rc = HYBBX_OK") auto
next
  case (delete d name u rc d')
  then obtain us n k where h: "holds state d us n k" "unique_identities us" by (auto simp: store_inv_def)
  from ff.remove_resolved [OF store_holds_last [OF h(1) delete(3)] delete(1,2)] delete(4)
  have "store_holds state d' (if rc = HYBBX_OK then List.filter (\<lambda>v. v \<noteq> u) us else us)" by auto
  moreover have "unique_identities (List.filter (\<lambda>v. v \<noteq> u) us)"
    using h(2) unfolding unique_identities_def by (rule sorted_wrt_filter)
  ultimately show ?case using h(2) unfolding store_inv_def store_holds_def by (cases "rc = HYBBX_OK") auto
next
  case (permissions d w)
  then show ?case by (auto simp: store_inv_def holds_def stored_def read_counter_def)
qed

lemma storage_run_inv:
  assumes "storage_run sha gp state d d'" and "\<And>p. hex_digest (sha p)" and "store_inv state d"
  shows "store_inv state d'"
  using assms(1,3) by (induction rule: storage_run.induct) (auto intro: storage_step_inv [OF _ assms(2)])

section \<open>A full disk\<close>

text \<open>What is found depends on the files only, not on what may be written to them.\<close>

lemma first_gap_files: "dk_files d' = dk_files d \<Longrightarrow> first_gap state d' m k = first_gap state d m k"
  by (induction m arbitrary: k) (auto simp: file_exists_def split: prod.splits)

lemma find_shard_files:
  assumes "dk_files d' = dk_files d"
  shows "find_user_shard state d' uid = find_user_shard state d uid"
proof -
  have "find_shard_from state d' uid m k = find_shard_from state d uid m k" for m k
    using assms by (induction m arbitrary: k) (simp_all add: file_exists_def split: prod.splits option.splits)
  then show ?thesis by (simp add: find_user_shard_def last_user_shard_index_def first_gap_files [OF assms])
qed

lemma first_gap_last:
  assumes "paths_ok state" and "L < 9999"
    and "\<And>i. i < 9999 \<Longrightarrow> dk_files d (shard_file state (i + 1)) = None \<longleftrightarrow> L \<le> i"
  shows "last_user_shard_index state d = L"
proof -
  have "k + m = 9999 \<Longrightarrow> k \<le> L \<Longrightarrow> first_gap state d m (k + 1) = L + 1" for k m
  proof (induction m arbitrary: k)
    case 0
    then show ?case using assms(2) by simp
  next
    case (Suc m)
    obtain path where p: "user_shard_path state (k + 1) = (HYBBX_OK, path)"
      using path_facts(1) [OF assms(1), of "k + 1"] Suc.prems by (cases "user_shard_path state (k + 1)") auto
    have f: "dk_files d path = None \<longleftrightarrow> L \<le> k" using assms(3) [of k] p Suc.prems by simp
    show ?case
    proof (cases "k < L")
      case True
      then have "first_gap state d m (k + 1 + 1) = L + 1" using Suc.IH [of "k + 1"] Suc.prems by simp
      then show ?thesis using p f True by (simp add: file_exists_def)
    next
      case False
      then show ?thesis using p f Suc.prems by (simp add: file_exists_def)
    qed
  qed
  from this [of 0 9999] show ?thesis by (simp add: last_user_shard_index_def)
qed

lemma shard_text_nonempty [simp]: "shard_text i us \<noteq> []"
  by (simp add: shard_text_def)

lemma load_nothing: "load_user_shard (Some []) = (HYBBX_OK, [])"
  by code_simp

lemma full_disk_save:
  assumes st: "stored state d uss n" and i: "i < length uss" and w: "dk_writable d = dk_writable d0"
    and f: "dk_files d = dk_files d0" and r: "dk_room d0 = (\<lambda>_. Some 0)"
    and "dk_writable d0 (shard_file state (i + 1))" and "length us \<le> USERS_PER_FILE"
  shows "\<exists>d'. save_user_shard state d0 (i + 1) us = (HYBBX_ERR_IO, d') \<and> last_user_shard_index state d' = length uss
     \<and> (\<forall>k < length uss. load_user_shard (dk_files d' (shard_file state (k + 1))) = (HYBBX_OK, (uss[i := []]) ! k))"
proof -
  note P = storedD(1) [OF st]
  have i9: "i + 1 < 10000" using i storedD(2) [OF st] by simp
  obtain path where p: "user_shard_path state (i + 1) = (HYBBX_OK, path)"
    using path_facts(1) [OF P, of "i + 1"] i9 by (cases "user_shard_path state (i + 1)") auto
  let ?d1 = "fs_put path (shard_text (i + 1) us) d0"
  define d2 where "d2 = foldl (\<lambda>d u. if ur_nickname u \<noteq> [] then snd (write_nickname_file state d (ur_username u) (ur_nickname u)) else d) ?d1 us"
  have clip: "fs_clip d0 path (shard_text (i + 1) us) = []" "fs_close d0 path (shard_text (i + 1) us) = HYBBX_ERR_IO"
    using r by (simp_all add: fs_clip_def fs_close_def eq_sym_conv [of "[]"])
  have s: "save_user_shard state d0 (i + 1) us = (HYBBX_ERR_IO, d2)"
    using assms(6,7) p clip by (simp add: save_user_shard_def d2_def)
  have files: "dk_files d2 (shard_file state (k + 1)) = (if k = i then Some [] else dk_files d (shard_file state (k + 1)))"
    if "k < 9999" for k
  proof -
    have "dk_files d2 (shard_file state (k + 1)) = dk_files ?d1 (shard_file state (k + 1))"
      using nickname_writes_same_store [OF P, of ?d1 us] that by (simp add: same_store_def d2_def)
    then show ?thesis using path_facts(2) [OF P, of "i + 1" "k + 1"] that i9 p clip f by auto
  qed
  have "last_user_shard_index state d2 = length uss"
  proof (rule first_gap_last [OF P storedD(2) [OF st]])
    fix k :: nat assume k: "k < 9999"
    show "dk_files d2 (shard_file state (k + 1)) = None \<longleftrightarrow> length uss \<le> k"
      unfolding files [OF k] using storedD(3) [OF st, of k] storedD(4) [OF st, of k] k i
      by (cases "k < length uss") auto
  qed
  moreover have "load_user_shard (dk_files d2 (shard_file state (k + 1))) = (HYBBX_OK, (uss[i := []]) ! k)" if "k < length uss" for k
    using files [of k] that storedD(2) [OF st] load_stored [OF st that] load_nothing by (auto simp: nth_list_update)
  ultimately show ?thesis using s by blast
qed

section \<open>A new store\<close>

lemma ends_in_last: "ends_in s e \<Longrightarrow> e \<noteq> [] \<Longrightarrow> List.last s = List.last e"
  by (metis append_take_drop_id ends_in_def last_appendR)

lemma flatfile_paths_ok:
  assumes "length root + 100 < HYBBX_PATH_MAX"
  shows "\<exists>state. flatfile_paths root = Some state \<and> paths_ok state"
proof -
  obtain sep where j: "\<forall>name'. length root + length name' + 2 < HYBBX_PATH_MAX \<longrightarrow> path_component_valid name' \<longrightarrow>
          hybbx_path_join [] HYBBX_PATH_MAX (Some root) (Some name') = (HYBBX_OK, (root @ sep) @ name')"
     and users: "hybbx_path_join [] HYBBX_PATH_MAX (Some root) (Some ''users'') = (HYBBX_OK, (root @ sep) @ ''users'')"
    using join_dir [of root "''users''"] assms by (auto simp: path_component_valid_def)
  have sep: "length sep \<le> 1" using users by (auto simp: hybbx_path_join_def Let_def c_snprintf_def split: if_splits)
  have names: "hybbx_path_join [] HYBBX_PATH_MAX (Some root) (Some ''users.dat'') = (HYBBX_OK, (root @ sep) @ ''users.dat'')"
    "hybbx_path_join [] HYBBX_PATH_MAX (Some root) (Some ''sessions.dat'') = (HYBBX_OK, (root @ sep) @ ''sessions.dat'')"
    "hybbx_path_join [] HYBBX_PATH_MAX (Some root) (Some ''session.next'') = (HYBBX_OK, (root @ sep) @ ''session.next'')"
    "hybbx_path_join [] HYBBX_PATH_MAX (Some root) (Some ''user.next'') = (HYBBX_OK, (root @ sep) @ ''user.next'')"
    by (rule j [rule_format]; use assms in \<open>simp add: path_component_valid_def\<close>)+
  have no: "\<not> ends_in (p @ ''user.next'') ''.ini''" "\<not> ends_in (p @ ''user.next'') ''.nick''"
    "\<not> ends_in (p @ ''session.next'') ''.ini''" "\<not> ends_in (p @ ''sessions.dat'') ''.ini''" for p
    by (auto dest!: ends_in_last)
  show ?thesis
    using no [of "root @ sep"] sep assms by (simp add: flatfile_paths_def Let_def users names paths_ok_def)
qed

lemma holds_empty: "paths_ok state \<Longrightarrow> dk_files d = (\<lambda>_. None) \<Longrightarrow> dk_room d = (\<lambda>_. None) \<Longrightarrow> holds state d [] 0 0"
  using holdsI [of state d "[]" 0] by (simp add: stored_def read_counter_def)

lemma foreach_one:
  assumes "stored state d [[u]] n"
  shows "foreach_user state fn (d, c) = fn u (d, c)"
proof -
  obtain path where p: "user_shard_path state 1 = (HYBBX_OK, path)"
    using path_facts(1) [OF storedD(1) [OF assms], of 1] by (cases "user_shard_path state 1") auto
  have "load_user_shard (dk_files d path) = (HYBBX_OK, [u])" using load_stored [OF assms, of 0] p by simp
  then show ?thesis using p by (simp add: foreach_user_def last_shard_stored [OF assms] split: prod.split)
qed

lemma sysop_clean:
  assumes "0 \<le> now" and "now < 2 ^ 63" and "hex_digest h"
  shows "clean_user (default_sysop 1 now (PASSWORD_SHA256_PREFIX @ h))"
proof -
  have n: "clean_value ''sysop'' \<and> clean_value ''Sysop'' \<and> clean_value ''System Operator'' \<and> clean_value []
      \<and> hybbx_username_normalize ''sysop'' = ''sysop''" by code_simp
  have "length (PASSWORD_SHA256_PREFIX @ h) < USER_PASSWORD_MAX"
    using assms(3) by (simp add: hex_digest_def PASSWORD_SHA256_PREFIX_def USER_PASSWORD_MAX_def)
  then show ?thesis
    using n assms(1,2) digest_clean [OF assms(3)]
    by (simp add: clean_user_def default_sysop_def user_zero_def DEFAULT_SYSOP_USERNAME_def auth_consts str_store_fits)
qed

lemma holds_one: "holds state d [u] n k \<Longrightarrow> k \<le> 1 \<Longrightarrow> stored state d [[u]] n"
  by (auto simp: holds_def le_Suc_eq length_Suc_conv)

lemma first_open_fact:
  assumes "length root + 100 < HYBBX_PATH_MAX" and "dk_files d = (\<lambda>_. None)" and "dk_writable d = (\<lambda>_. True)"
    and "dk_room d = (\<lambda>_. None)"
    and "random_ok script" and "2 \<le> length script" and "\<And>p. hex_digest (sha p)" and "0 \<le> now" and "now < 2 ^ 63"
  shows "\<exists>state d' pw. flatfile_open sha script True root d now = (HYBBX_OK, Some state, d')
     \<and> hybbx_password_generate_alnum script (PASSWORD_MAX_LEN + 1) SYSOP_INIT_PASSWORD_MIN SYSOP_INIT_PASSWORD_MAX = (HYBBX_OK, pw)
     \<and> SYSOP_INIT_PASSWORD_MIN \<le> length pw \<and> length pw \<le> SYSOP_INIT_PASSWORD_MAX
     \<and> holds state d' [default_sysop 1 now (PASSWORD_SHA256_PREFIX @ sha pw)] 1 1"
proof -
  obtain state where P: "flatfile_paths root = Some state" "paths_ok state" using flatfile_paths_ok [OF assms(1)] by blast
  have st: "stored state d [] 0" using holds_empty [OF P(2) assms(2,4)] by (simp add: holds_def)
  obtain pw where pw: "hybbx_password_generate_alnum script (PASSWORD_MAX_LEN + 1) SYSOP_INIT_PASSWORD_MIN SYSOP_INIT_PASSWORD_MAX = (HYBBX_OK, pw)"
    "SYSOP_INIT_PASSWORD_MIN \<le> length pw" "length pw \<le> SYSOP_INIT_PASSWORD_MAX"
    using generated_password_shape [of SYSOP_INIT_PASSWORD_MIN SYSOP_INIT_PASSWORD_MAX "PASSWORD_MAX_LEN + 1" script] assms(5,6)
    by (auto simp: SYSOP_INIT_PASSWORD_MIN_def SYSOP_INIT_PASSWORD_MAX_def PASSWORD_MAX_LEN_def)
  let ?p = "PASSWORD_SHA256_PREFIX @ sha pw" and ?d1 = "fs_put (ff_user_next_path state) (dec_of_nat (0 + 1) @ [CHR 0x0A]) d"
  let ?u = "default_sysop 1 now ?p"
  have l: "length (sha pw) = 64" using assms(7) by (simp add: hex_digest_def)
  have hash: "hybbx_password_hash sha pw USER_PASSWORD_MAX = (HYBBX_OK, Some ?p)"
    using l by (simp add: hybbx_password_hash_def hybbx_password_hash_sha256_def USER_PASSWORD_MAX_def PASSWORD_SHA256_PREFIX_def c_snprintf_def)
  have bump: "bump_counter d (ff_user_next_path state) = (HYBBX_OK, 1, ?d1)" "stored state ?d1 [] 1"
    using bump_stored [OF st] assms(3) by simp_all
  have uid: "ur_id ?u = 1" by (simp add: default_sysop_def)
  have "can_write state ?d1" using assms(3) by (simp add: can_write_def)
  then obtain d2 k where a: "append_user_record state ?d1 ?u = (HYBBX_OK, d2)" "holds state d2 [?u] 1 k" "k \<le> 1"
    using append_stored [OF bump(2), of ?u] sysop_clean [OF assms(8,9), of "sha pw"] assms(7) uid by auto
  have 2: "stored state d2 [[?u]] 1" by (rule holds_one [OF a(2,3)])
  have sysop: "ensure_default_sysop sha script state d now = (HYBBX_OK, d2)"
    using count_level_stored [OF st, of LEVEL_SYSOP]
    by (simp only: ensure_default_sysop_def prod.case bump(1) pw(1) hash option.sel a(1)) simp
  let ?d3 = "snd (write_nickname_file state d2 (ur_username ?u) (ur_nickname ?u))"
  have u: "ur_username ?u = ''sysop''" "ur_nickname ?u = ''Sysop''" "ur_password ?u = ?p"
    by (simp_all add: default_sysop_def DEFAULT_SYSOP_USERNAME_def USER_NICKNAME_MAX_def)
  have "hybbx_username_normalize ''sysop'' = ''sysop''" "str_store USER_NAME_MAX ''sysop'' = ''sysop''" by code_simp+
  moreover have "?u\<lparr>ur_username := ''sysop'', ur_nickname := ''Sysop''\<rparr> = ?u" using u(1,2) by simp
  ultimately have ids: "migrate_user_identities state d2 = (HYBBX_OK, ?d3)"
    using u(1,2) by (simp add: migrate_user_identities_def foreach_one [OF 2] migrate_identities_cb_def Let_def)
  have 3: "stored state ?d3 [[?u]] 1" using 2 same_store_stored [OF nickname_file_same_store(1) [OF P(2)]] by blast
  have "\<not> hybbx_password_is_plain ?p"
    using hex_string_valid_digest [OF assms(7), of pw]
    by (simp add: hybbx_password_is_plain_def hybbx_password_is_hashed_def PASSWORD_SHA256_PREFIX_def has_prefix_def)
  then have "migrate_plain_passwords sha state ?d3 = (HYBBX_OK, ?d3)"
    using u(3) unfolding migrate_plain_passwords_def foreach_one [OF 3] by (simp add: migrate_passwords_cb_def)
  moreover have "migrate_legacy_users_dat root state d = (HYBBX_OK, d)" by (simp add: migrate_legacy_users_dat_def assms(2))
  ultimately have "flatfile_open sha script True root d now = (HYBBX_OK, Some state, ?d3)"
    by (simp add: flatfile_open_def P(1) sysop ids)
  moreover have "holds state ?d3 [?u] 1 1" using holdsI [OF 3] by simp
  ultimately show ?thesis using pw by blast
qed

section \<open>Properties\<close>

definition root_example :: string where "root_example = ''/var/bbs''"
definition state_example :: flatfile_state where "state_example = the (flatfile_paths root_example)"
definition disk_example :: disk where "disk_example = \<lparr>dk_files = (\<lambda>_. None), dk_writable = (\<lambda>_. True), dk_room = (\<lambda>_. None)\<rparr>"
definition reg_example :: user_registration where
  "reg_example = \<lparr>rg_username = ''Karl'', rg_nickname = ''DL1ABC'', rg_full_name = ''Karl Meier'', rg_country = ''Germany'',
     rg_location = ''Bonn'', rg_email = ''karl@example.org'', rg_password = ''geheim-42''\<rparr>"
definition sha_example :: "string \<Rightarrow> string" where "sha_example p = replicate 64 (hex_char (length p mod 16))"

lemma sha_example_digest: "hex_digest (sha_example p)"
proof -
  have "list_all (\<lambda>n. hex_char n \<in> set ''0123456789abcdef'') [0..<16]" by code_simp
  then show ?thesis by (simp add: sha_example_def hex_digest_def list_all_iff)
qed

lemma state_example_ok: "paths_ok state_example" "flatfile_paths root_example = Some state_example"
  using flatfile_paths_ok [of root_example] by (auto simp: state_example_def root_example_def HYBBX_PATH_MAX_def)

lemma disk_example_holds: "holds state_example disk_example [] 0 0" "can_write state_example disk_example"
  by (simp_all add: holds_empty state_example_ok disk_example_def can_write_def)

lemma reg_example_ok: "hybbx_registration_valid reg_example ''Guest'' \<and> tidy_registration reg_example \<and> hybbx_password_plain_valid (rg_password reg_example)"
  by code_simp

text \<open>
  C23. While the disk takes what is written to the files that it lets open, and fewer than 9998 users' files are
  in use, registering a user against the files refines adding him to the list of users.  A name or nickname
  that anyone has as name or nickname, in any letter case, is refused and nothing is written;
  otherwise the new record has the counter's next number, waits inactive at the level of a user with
  the hashed password, and is read back with all the others, if his texts are ones that the files give back
  (no enclosing pair of quotes, no blanks at an edge).  If the counter's or the users' file cannot be opened for
  writing the call fails and the users are as they were.
\<close>

theorem register_refines_list:
  assumes "holds state d us n k" and "k < 9998" and "n + 1 < 2 ^ 64"
    and "hybbx_registration_valid reg gp" and "tidy_registration reg"
    and "rg_password reg = [] \<or> hybbx_password_plain_valid (rg_password reg)" and "\<And>p. hex_digest (sha p)"
    and "0 \<le> now" and "now < 2 ^ 63"
  shows "if list_ex (same_identity (rg_username reg) (rg_nickname reg)) us
     then flatfile_register_user sha gp state d reg now = (HYBBX_ERR_BUSY, d, None)
     else \<exists>rc d' out n' k'. flatfile_register_user sha gp state d reg now = (rc, d', out)
       \<and> dk_writable d' = dk_writable d \<and> rc \<in> {HYBBX_OK, HYBBX_ERR_IO} \<and> (can_write state d \<longrightarrow> rc = HYBBX_OK)
       \<and> (rc = HYBBX_OK \<longrightarrow> out = Some (new_user sha n reg now) \<and> n' = n + 1)
       \<and> holds state d' (if rc = HYBBX_OK then us @ [new_user sha n reg now] else us) n' k'
       \<and> n \<le> n' \<and> n' \<le> n + 1 \<and> k' \<le> k + 1"
  by (rule register_holds [OF assms])

theorem register_refines_list_witness:
  "fst (flatfile_register_user sha_example ''Guest'' state_example disk_example reg_example 1700000000) = HYBBX_OK"
  using register_refines_list [where sha = sha_example and now = 1700000000, OF disk_example_holds(1), of reg_example "''Guest''"]
    reg_example_ok disk_example_holds(2) sha_example_digest by auto



text \<open>
  C26. However registrations, changes of level, activity and password, deletions and changes of the
  files' permissions follow each other from an empty store, the records' numbers stay different, no two
  users share a name or nickname, and a name or nickname (in any letter case) is resolved to the only
  user that has it.  The texts of the registrations are ones that the files give back (without an enclosing pair
  of quotes or blanks at an edge), fewer than 9998 files are in use when an operation starts, and the disk takes
  what is written to a file that it lets open.
\<close>

theorem accounts_stay_distinct:
  assumes "storage_run sha gp state d d'" and "\<And>p. hex_digest (sha p)" and "paths_ok state" and "dk_files d = (\<lambda>_. None)"
    and "dk_room d = (\<lambda>_. None)"
  shows "\<exists>us n k. holds state d' us n k \<and> distinct (map ur_id us) \<and> unique_identities us
     \<and> (\<forall>u \<in> set us. \<forall>name. name \<noteq> [] \<and> (str_ieq (ur_username u) name \<or> str_ieq (ur_nickname u) name)
          \<longrightarrow> flatfile_resolve_user state d' name = (HYBBX_OK, Some u)
            \<and> List.filter (\<lambda>v. str_ieq (ur_username v) name \<or> str_ieq (ur_nickname v) name) us = [u])"
proof -
  have "store_inv state d" unfolding store_inv_def
    by (intro exI [of _ "[]"] exI [of _ 0] conjI holds_empty [OF assms(3,4,5)]) (simp add: unique_identities_def)
  from storage_run_inv [OF assms(1,2) this] obtain us n k where h: "holds state d' us n k" "unique_identities us"
    by (auto simp: store_inv_def)
  then have "distinct (map ur_id us)" using storedD(7) by (auto simp: holds_def)
  with h resolved_by_name [OF h] show ?thesis by blast
qed

theorem accounts_stay_distinct_witness:
  "\<exists>us n k. holds state_example (fst (snd (flatfile_register_user sha_example ''Guest'' state_example disk_example reg_example 1700000000))) us n k
     \<and> distinct (map ur_id us) \<and> unique_identities us"
proof -
  obtain rc d' out where r: "flatfile_register_user sha_example ''Guest'' state_example disk_example reg_example 1700000000 = (rc, d', out)"
    by (metis prod_cases3)
  have "storage_step sha_example ''Guest'' state_example disk_example d'"
    by (rule storage_step.register [OF r])
      (use reg_example_ok holds_last [OF disk_example_holds(1)] holds_counter [OF disk_example_holds(1)] in auto)
  then have "storage_run sha_example ''Guest'' state_example disk_example d'"
    by (rule storage_run.more [OF storage_run.start])
  from accounts_stay_distinct [OF this sha_example_digest state_example_ok(1)] show ?thesis unfolding r by (auto simp: disk_example_def)
qed

text \<open>
  C33. Opening a new, empty store, when every file can be opened for writing, the disk takes what is written and
  the random source delivers both of its draws, succeeds and leaves exactly one user, the active Sysop of number 1.
  His password is the one that the generator draws, ten to fourteen characters long; the record holds its
  tagged SHA-256 digest and not the password, and the password logs him in.
\<close>

theorem first_open_creates_sysop:
  assumes "length root + 100 < HYBBX_PATH_MAX" and "dk_files d = (\<lambda>_. None)" and "dk_writable d = (\<lambda>_. True)"
    and "dk_room d = (\<lambda>_. None)"
    and "random_ok script" and "2 \<le> length script" and "\<And>p. hex_digest (sha p)" and "0 \<le> now" and "now < 2 ^ 63"
  shows "\<exists>state d' pw u. flatfile_open sha script True root d now = (HYBBX_OK, Some state, d')
     \<and> hybbx_password_generate_alnum script (PASSWORD_MAX_LEN + 1) SYSOP_INIT_PASSWORD_MIN SYSOP_INIT_PASSWORD_MAX = (HYBBX_OK, pw)
     \<and> SYSOP_INIT_PASSWORD_MIN \<le> length pw \<and> length pw \<le> SYSOP_INIT_PASSWORD_MAX
     \<and> holds state d' [u] 1 1 \<and> ur_id u = 1 \<and> ur_level u = LEVEL_SYSOP \<and> ur_active u \<and> ur_username u = ''sysop''
     \<and> ur_password u = PASSWORD_SHA256_PREFIX @ sha pw \<and> \<not> hybbx_password_is_plain (ur_password u)
     \<and> hybbx_password_match sha md5_buffer (ur_password u) pw"
proof -
  obtain state d' pw where o: "flatfile_open sha script True root d now = (HYBBX_OK, Some state, d')"
    "hybbx_password_generate_alnum script (PASSWORD_MAX_LEN + 1) SYSOP_INIT_PASSWORD_MIN SYSOP_INIT_PASSWORD_MAX = (HYBBX_OK, pw)"
    "SYSOP_INIT_PASSWORD_MIN \<le> length pw" "length pw \<le> SYSOP_INIT_PASSWORD_MAX"
    "holds state d' [default_sysop 1 now (PASSWORD_SHA256_PREFIX @ sha pw)] 1 1"
    using first_open_fact [where sha = sha, OF assms] by blast
  have m: "hybbx_password_match sha md5_buffer (PASSWORD_SHA256_PREFIX @ sha pw) pw"
    using o(3) hex_string_eq_digests [OF assms(7,7), of pw pw]
    by (auto simp: hybbx_password_match_def PASSWORD_SHA256_PREFIX_def has_prefix_def SYSOP_INIT_PASSWORD_MIN_def)
  let ?u = "default_sysop 1 now (PASSWORD_SHA256_PREFIX @ sha pw)"
  have p: "\<not> hybbx_password_is_plain (PASSWORD_SHA256_PREFIX @ sha pw)"
    using hex_string_valid_digest [OF assms(7), of pw]
    by (simp add: hybbx_password_is_plain_def hybbx_password_is_hashed_def PASSWORD_SHA256_PREFIX_def has_prefix_def)
  have "ur_id ?u = 1" "ur_level ?u = LEVEL_SYSOP" "ur_active ?u" "ur_username ?u = ''sysop''"
    "ur_password ?u = PASSWORD_SHA256_PREFIX @ sha pw"
    by (simp_all add: default_sysop_def)
  with o m p show ?thesis by (metis (no_types, lifting))
qed

theorem first_open_creates_sysop_witness:
  "\<exists>state d'. flatfile_open sha_example (replicate 2 (Some (replicate 32 7))) True root_example disk_example 1700000000
     = (HYBBX_OK, Some state, d')"
  using first_open_creates_sysop [of root_example disk_example "replicate 2 (Some (replicate 32 7))" sha_example 1700000000 "[]"]
    sha_example_digest
  by (auto simp: root_example_def disk_example_def random_ok_def list_all_iff HYBBX_PATH_MAX_def)

text \<open>
  C25. When the disk is full, changing any user's record loses users.  The users' file is emptied by the opening,
  nothing of the new text gets in, and only closing it fails: the call reports an input or output
  error, and every user of that one file is gone, the users of the other files are found and counted as before.
\<close>

theorem full_disk_loses_users:
  assumes "stored state d uss n" and "ur_id u \<in> ur_id ` set (concat uss)" and "ur_id u \<noteq> 0" and "can_write state d"
  shows "\<exists>i d'. i < length uss \<and> ur_id u \<in> ur_id ` set (uss ! i)
     \<and> flatfile_update_user state (d\<lparr>dk_room := \<lambda>_. Some 0\<rparr>) u = (HYBBX_ERR_IO, d')
     \<and> (\<forall>name. flatfile_find_user state d' name = lookup_result (List.find (\<lambda>v. str_ieq (ur_username v) name) (concat (uss[i := []]))))
     \<and> (\<forall>level. flatfile_count_level state d' level
          = (HYBBX_OK, length (List.filter (\<lambda>v. ur_level v = level) (concat (uss[i := []])))))"
proof -
  note P = storedD(1) [OF assms(1)]
  let ?d0 = "d\<lparr>dk_room := \<lambda>_. Some 0\<rparr>" and ?P = "\<lambda>v. ur_id v = ur_id u"
  obtain us v where us: "us \<in> set uss" "v \<in> set us" "ur_id v = ur_id u" using assms(2) by (metis UN_E image_iff set_concat)
  then have "find_slot (\<lambda>us. list_ex ?P us) uss \<noteq> None" unfolding find_slot_None_iff list_ex_iff by blast
  then obtain i where f: "find_slot (\<lambda>us. list_ex ?P us) uss = Some i" by blast
  note i = find_slot_Some [OF f]
  obtain j where g: "find_slot ?P (uss ! i) = Some j"
    using i by (cases "find_slot ?P (uss ! i)") (auto simp: find_slot_None_iff list_ex_iff)
  note j = find_slot_Some [OF g]
  have find: "find_user_shard state ?d0 (ur_id u) = (HYBBX_OK, i + 1, j)"
    using find_shard_files [of ?d0 d] find_shard_stored [OF assms(1,3)] f g by simp
  obtain path where p: "user_shard_path state (i + 1) = (HYBBX_OK, path)"
    using path_facts(1) [OF P, of "i + 1"] i storedD(2) [OF assms(1)] by (cases "user_shard_path state (i + 1)") auto
  let ?us = "(uss ! i)[j := u\<lparr>ur_username := hybbx_username_normalize (ur_username u)\<rparr>]"
  have l: "load_user_shard (dk_files ?d0 path) = (HYBBX_OK, uss ! i)" using load_stored [OF assms(1), of i] i p by simp
  have up: "flatfile_update_user state ?d0 u = save_user_shard state ?d0 (i + 1) ?us"
    using assms(3) find p l j by (simp add: flatfile_update_user_def)
  obtain d' where d': "save_user_shard state ?d0 (i + 1) ?us = (HYBBX_ERR_IO, d')" "last_user_shard_index state d' = length uss"
    "\<And>k. k < length uss \<Longrightarrow> load_user_shard (dk_files d' (shard_file state (k + 1))) = (HYBBX_OK, (uss[i := []]) ! k)"
    using full_disk_save [OF assms(1), of i ?d0 ?us] i assms(4) storedD(6) [OF assms(1), of "uss ! i"]
    by (auto simp: can_write_def)
  have len: "length (uss[i := []]) < 9999" "last_user_shard_index state d' = length (uss[i := []])"
    using storedD(2) [OF assms(1)] d'(2) by simp_all
  have visit: "foreach_user state fn (d', c) = foreach_loaded fn (concat (uss[i := []])) (d', c)" if "reads_only fn" for fn :: "'c user_fn" and c
    by (rule foreach_loads [OF P len _ that]) (use d'(3) in simp)
  have "flatfile_find_user state d' name = lookup_result (List.find (\<lambda>v. str_ieq (ur_username v) name) (concat (uss[i := []])))" for name
    by (rule find_user_loaded [OF visit [OF reads_only_cbs(1)]])
  moreover have "flatfile_count_level state d' level = (HYBBX_OK, length (List.filter (\<lambda>v. ur_level v = level) (concat (uss[i := []]))))" for level
    by (rule count_level_loaded [OF visit [OF reads_only_cbs(4)]])
  moreover have "ur_id u \<in> ur_id ` set (uss ! i)" using j by (metis image_eqI nth_mem)
  ultimately show ?thesis using up d'(1) i by auto
qed

theorem full_disk_loses_users_witness:
  "\<exists>d u d'. flatfile_find_user state_example d ''karl'' = (HYBBX_OK, Some u)
     \<and> flatfile_update_user state_example (d\<lparr>dk_room := \<lambda>_. Some 0\<rparr>) u = (HYBBX_ERR_IO, d')
     \<and> flatfile_find_user state_example d' ''karl'' = (HYBBX_ERR_NOT_FOUND, None)"
proof -
  let ?u = "new_user sha_example 0 reg_example 1700000000"
  obtain d n k where d: "dk_writable d = dk_writable disk_example" "holds state_example d [?u] n k" "k \<le> 1"
    using register_holds [where sha = sha_example and now = 1700000000, OF disk_example_holds(1), of reg_example "''Guest''"]
      reg_example_ok disk_example_holds(2) sha_example_digest by auto
  have st: "stored state_example d [[?u]] n" by (rule holds_one [OF d(2,3)])
  have w: "can_write state_example d" using d(1) disk_example_holds(2) by (simp add: can_write_def)
  have id: "ur_id ?u = 1" by (simp add: new_user_def registered_record_def)
  have k: "str_ieq (ur_username ?u) ''karl''" by (simp add: new_user_def registered_record_def) code_simp
  have "flatfile_find_user state_example d ''karl'' = (HYBBX_OK, Some ?u)"
    using find_user_stored [OF st, of "''karl''"] k by (simp add: lookup_result_def)
  moreover obtain i d' where i: "i < length [[?u]]"
    "flatfile_update_user state_example (d\<lparr>dk_room := \<lambda>_. Some 0\<rparr>) ?u = (HYBBX_ERR_IO, d')"
    "flatfile_find_user state_example d' ''karl'' = lookup_result (List.find (\<lambda>v. str_ieq (ur_username v) ''karl'') (concat ([[?u]][i := []])))"
    using full_disk_loses_users [OF st, of ?u] w id by auto
  then have "flatfile_find_user state_example d' ''karl'' = (HYBBX_ERR_NOT_FOUND, None)" by (simp add: lookup_result_def)
  ultimately show ?thesis using i(2) by blast
qed

text \<open>
  A counter's file is emptied in the same way, but there the closing is not looked at: the number is given out, and
  from then on, also when the disk has room again, every reading of that counter fails.
\<close>

theorem full_disk_breaks_counter:
  assumes "dk_writable d path" and "dk_room d path = Some 0" and "read_counter d path = (HYBBX_OK, n)"
  shows "\<exists>d'. bump_counter d path = (HYBBX_OK, (n + 1) mod 2 ^ 64, d')
     \<and> bump_counter (d'\<lparr>dk_room := \<lambda>_. None\<rparr>) path = (HYBBX_ERR_IO, 0, d'\<lparr>dk_room := \<lambda>_. None\<rparr>)"
proof -
  have e: "c_strtoul [] = (0, [])" by code_simp
  show ?thesis
    using assms by (simp add: bump_counter_def write_counter_def fs_put_def fs_clip_def Let_def) (simp add: read_counter_def e)
qed

end
