(* ===== verification/Account_Commands.thy ===== *)
theory Account_Commands imports Storage_Flatfile Registry_Bounds Command_Parse begin

text \<open>
  The commands on accounts, \<^verbatim>\<open>src/core/command.c\<close>: who may use a verb, logging in, registering,
  changing, promoting, demoting and deleting, on the file storage and the command registry; with the
  user's part of a session (\<^verbatim>\<open>src/core/session.c\<close>).  A handler takes the arguments behind the verb
  and the state, and gives the C result and the new state with the lines written so far.
\<close>

section \<open>The session's user\<close>

record user_session =
  us_user :: user_record
  us_record :: session_record
  us_logged_in :: bool
  us_login_prompt :: bool
  us_guest_slot :: nat
  us_input_echo :: bool

definition hybbx_session_user_level :: "user_session \<Rightarrow> user_level" where
  "hybbx_session_user_level s = ur_level (us_user s)"

definition hybbx_session_is_guest :: "user_session \<Rightarrow> bool" where
  "hybbx_session_is_guest s = hybbx_user_level_is_guest (hybbx_session_user_level s)"

definition hybbx_session_username :: "user_session \<Rightarrow> string" where
  "hybbx_session_username s = sr_username (us_record s)"

definition hybbx_session_display_name :: "user_session \<Rightarrow> string" where
  "hybbx_session_display_name s = hybbx_user_display_name (us_user s)"

text \<open>
  What a command finds around it: the registry, the storage's paths, the digest, what MD5's buffer
  holds, the time, the guests' prefix, the transport of the session, the other sessions, and what is
  written on a login.
\<close>

record command_env =
  en_registry :: commands_registry
  en_state :: flatfile_state
  en_sha256_hex :: "string \<Rightarrow> string"
  en_md5_buffer :: bytes
  en_now :: int
  en_guest_prefix :: string
  en_auto_login :: bool
  en_mail_enabled :: bool
  en_transport_name :: string
  en_others :: "user_session list"
  en_login_texts :: "int \<Rightarrow> string list"

text \<open>The state, with the lines written, the failures reported to the bans and the staff's notices.\<close>

record account_state =
  ac_disk :: disk
  ac_session :: user_session
  ac_lines :: "string list"
  ac_login_fails :: "(string \<times> string) list"
  ac_released_slots :: "nat list"
  ac_staff_mails :: "user_record list"

definition write_line :: "string \<Rightarrow> account_state \<Rightarrow> account_state" where
  "write_line text st = st\<lparr>ac_lines := ac_lines st @ [text]\<rparr>"

definition write_lines :: "string list \<Rightarrow> account_state \<Rightarrow> account_state" where
  "write_lines texts st = st\<lparr>ac_lines := ac_lines st @ texts\<rparr>"

type_synonym handler = "command_env \<Rightarrow> string list \<Rightarrow> account_state \<Rightarrow> hybbx_result \<times> account_state"

abbreviation actor_level :: "account_state \<Rightarrow> user_level" where
  "actor_level st \<equiv> hybbx_session_user_level (ac_session st)"

abbreviation arg :: "string list \<Rightarrow> nat \<Rightarrow> string" where
  "arg argv i \<equiv> (if i < length argv then argv ! i else [])"

text \<open>The switch to a registered user; what is not copied into the new record is gone.\<close>

definition hybbx_session_switch_user :: "command_env \<Rightarrow> user_record \<Rightarrow> account_state \<Rightarrow> hybbx_result \<times> account_state" where
  "hybbx_session_switch_user env user st =
     (if hybbx_user_level_is_guest (ur_level user) then (HYBBX_ERR_INVALID, st)
      else
        let s = ac_session st;
            st = (if us_guest_slot s \<noteq> 0
                  then st\<lparr>ac_released_slots := ac_released_slots st @ [us_guest_slot s], ac_session := s\<lparr>us_guest_slot := 0\<rparr>\<rparr>
                  else st);
            s = ac_session st;
            transport_name = (if sr_transport (us_record s) = [] then en_transport_name env else sr_transport (us_record s))
        in if transport_name = [] then (HYBBX_ERR_INVALID, st)
           else
             let d = (if sr_session_id (us_record s) \<noteq> 0
                      then snd (flatfile_session_end (en_state env) (ac_disk st) (sr_session_id (us_record s)) (en_now env))
                      else ac_disk st)
             in case flatfile_session_begin (en_state env) d user transport_name (en_now env) of (rc, d', new_record) \<Rightarrow>
                  if rc \<noteq> HYBBX_OK then (rc, st\<lparr>ac_disk := d'\<rparr>)
                  else (HYBBX_OK, st\<lparr>ac_disk := d', ac_session := s\<lparr>us_user := user, us_record := the new_record,
                          us_logged_in := True, us_login_prompt := False\<rparr>\<rparr>))"

text \<open>Another session in which the user is logged in.\<close>

definition hybbx_service_find_registered_session :: "user_session list \<Rightarrow> nat \<Rightarrow> user_session option" where
  "hybbx_service_find_registered_session others user_id =
     (if user_id = 0 then None
      else List.find (\<lambda>s. us_logged_in s \<and> \<not> hybbx_session_is_guest s \<and> sr_user_id (us_record s) = user_id) others)"

section \<open>Who may use a verb\<close>

definition cmd_help_unknown :: "user_session \<Rightarrow> string" where
  "cmd_help_unknown s =
     (if hybbx_session_is_guest s \<or> (us_login_prompt s \<and> \<not> us_logged_in s)
      then ''Unknown command. Try /help.'' else ''Unknown command. /help for list.'')"

definition cmd_verb_allowed_login_prompt :: "commands_registry \<Rightarrow> string \<Rightarrow> bool" where
  "cmd_verb_allowed_login_prompt reg verb \<longleftrightarrow>
     verb = [] \<or> hybbx_commands_registry_verb_allowed reg LEVEL_GUEST verb
     \<or> str_ieq verb ''exit'' \<or> str_ieq verb ''logout'' \<or> str_ieq verb ''bye'' \<or> str_ieq verb ''quit''"

definition cmd_check_access :: "command_env \<Rightarrow> string \<Rightarrow> account_state \<Rightarrow> hybbx_result \<times> account_state" where
  "cmd_check_access env verb st =
     (let s = ac_session st; level = hybbx_session_user_level s in
      if \<not> us_logged_in s \<and> us_login_prompt s then
        (if cmd_verb_allowed_login_prompt (en_registry env) verb then (HYBBX_OK, st)
         else (HYBBX_ERR_DENIED, write_line ''Log in with /login or use /register.'' st))
      else if hybbx_commands_registry_verb_allowed (en_registry env) level verb then (HYBBX_OK, st)
      else (HYBBX_ERR_DENIED, write_line
             (if level = LEVEL_GUEST then ''Not available to guests. Try /help.''
              else if str_ieq verb ''register'' then ''Only guests may self-register with /register.''
              else if str_ieq verb ''changeme'' then ''Only registered users may use /changeme.''
              else ''Insufficient privileges.'') st))"

section \<open>Arguments\<close>

text \<open>The full name is the words from \<open>name_start\<close> on but the last, joined; None when it is too long.\<close>

fun join_name :: "string list \<Rightarrow> string \<Rightarrow> string option" where
  "join_name [] acc = Some acc"
| "join_name (part # parts) acc =
     (if acc \<noteq> [] \<and> length acc + 1 \<ge> USER_FULL_NAME_MAX then None
      else let acc' = (if acc \<noteq> [] then acc @ '' '' else acc) in
        if length acc' + length part \<ge> USER_FULL_NAME_MAX then None
        else join_name parts (acc' @ part))"

definition parse_profile_fields :: "string list \<Rightarrow> nat \<Rightarrow> nat \<Rightarrow> user_registration \<Rightarrow> user_registration option" where
  "parse_profile_fields argv name_start tail_extra reg =
     (let argc = length argv; suffix = 3 + tail_extra in
      if argc < name_start + suffix then None
      else case join_name (take (argc - suffix - name_start) (drop name_start argv)) [] of
        None \<Rightarrow> None
      | Some name \<Rightarrow> Some (reg\<lparr>rg_email := str_store USER_EMAIL_MAX (argv ! (argc - 1 - tail_extra)),
          rg_location := str_store USER_LOCATION_MAX (argv ! (argc - 2 - tail_extra)),
          rg_country := str_store USER_COUNTRY_MAX (argv ! (argc - 3 - tail_extra)), rg_full_name := name\<rparr>))"

definition reg_zero :: user_registration where
  "reg_zero = \<lparr>rg_username = [], rg_nickname = [], rg_full_name = [], rg_country = [], rg_location = [], rg_email = [], rg_password = []\<rparr>"

definition parse_registration :: "string list \<Rightarrow> bool \<Rightarrow> user_registration option" where
  "parse_registration argv with_password =
     (if length argv < (if with_password then 6 else 5) then None
      else parse_profile_fields argv 1 (if with_password then 1 else 0)
        (reg_zero\<lparr>rg_nickname := str_store USER_NICKNAME_MAX (argv ! 0),
           rg_username := hybbx_username_normalize (str_store USER_NAME_MAX (argv ! 0)),
           rg_password := (if with_password then str_store USER_PASSWORD_MAX (List.last argv) else [])\<rparr>))"

definition parse_changeme :: "string list \<Rightarrow> string \<Rightarrow> (user_registration \<times> string \<times> string) option" where
  "parse_changeme argv username =
     (if length argv < 6 then None
      else map_option (\<lambda>reg. (reg, argv ! 0, argv ! 1))
        (parse_profile_fields argv 2 0 (reg_zero\<lparr>rg_username := hybbx_username_normalize (str_store USER_NAME_MAX username)\<rparr>)))"

definition parse_userchange :: "string list \<Rightarrow> (user_registration \<times> string) option" where
  "parse_userchange argv =
     (if length argv < 7 then None
      else map_option (\<lambda>reg. (reg, argv ! 1))
        (parse_profile_fields argv 2 0 (reg_zero\<lparr>rg_username := hybbx_username_normalize (str_store USER_NAME_MAX (argv ! 0))\<rparr>)))"

definition cmd_lookup_user :: "command_env \<Rightarrow> account_state \<Rightarrow> string \<Rightarrow> hybbx_result \<times> user_record option" where
  "cmd_lookup_user env st username =
     (if username = [] then (HYBBX_ERR_INVALID, None) else flatfile_resolve_user (en_state env) (ac_disk st) username)"

definition cmd_deny_privilege :: "account_state \<Rightarrow> account_state" where
  "cmd_deny_privilege st = write_line ''Insufficient privileges.'' st"

text \<open>Storing a changed record, and deleting one, in the state.\<close>

definition store_user :: "command_env \<Rightarrow> user_record \<Rightarrow> account_state \<Rightarrow> hybbx_result \<times> account_state" where
  "store_user env user st =
     (case flatfile_update_user (en_state env) (ac_disk st) user of (rc, d) \<Rightarrow> (rc, st\<lparr>ac_disk := d\<rparr>))"

definition drop_user :: "command_env \<Rightarrow> nat \<Rightarrow> account_state \<Rightarrow> hybbx_result \<times> account_state" where
  "drop_user env user_id st =
     (case flatfile_delete_user (en_state env) (ac_disk st) user_id of (rc, d) \<Rightarrow> (rc, st\<lparr>ac_disk := d\<rparr>))"

section \<open>The handlers\<close>

text \<open>The steps that end a handler: a line and the result.\<close>

abbreviation says :: "string \<Rightarrow> hybbx_result \<Rightarrow> account_state \<Rightarrow> hybbx_result \<times> account_state" where
  "says text rc st \<equiv> (rc, write_line text st)"

definition cmd_activate :: handler where
  "cmd_activate env argv st =
     (if arg argv 0 = [] then says ''Usage: /activate <username>'' HYBBX_OK st
      else if \<not> hybbx_commands_registry_verb_allowed (en_registry env) (actor_level st) ''activate''
      then (HYBBX_ERR_DENIED, cmd_deny_privilege st)
      else case cmd_lookup_user env st (arg argv 0) of (rc, found) \<Rightarrow>
        if rc = HYBBX_ERR_NOT_FOUND then says ''Unknown user.'' HYBBX_OK st
        else if rc \<noteq> HYBBX_OK then (rc, st)
        else let target = the found in
          if ur_level target \<noteq> LEVEL_USER then says ''Only pending registered user accounts can be activated.'' HYBBX_OK st
          else if ur_active target then says ''Account is already active.'' HYBBX_OK st
          else case store_user env (target\<lparr>ur_active := True\<rparr>) st of (rc, st) \<Rightarrow>
            if rc \<noteq> HYBBX_OK then (rc, st)
            else says (c_snprintf 128 (''Activated '' @ [CHR 0x27] @ hybbx_user_display_name target @ [CHR 0x27] @ ''.'')) HYBBX_OK st)"

definition quoted :: "string \<Rightarrow> string" where
  "quoted s = [CHR 0x27] @ s @ [CHR 0x27]"

definition cmd_promote :: handler where
  "cmd_promote env argv st =
     (if length argv < 2 \<or> arg argv 0 = [] \<or> arg argv 1 = [] then says ''Usage: /promote <username> admin|mod'' HYBBX_OK st
      else let actor = actor_level st; new_level = hybbx_user_level_parse (argv ! 1) in
        if new_level \<noteq> LEVEL_ADMIN \<and> new_level \<noteq> LEVEL_MOD then says ''Level must be admin or mod.'' HYBBX_OK st
        else case cmd_lookup_user env st (argv ! 0) of (rc, found) \<Rightarrow>
          if rc = HYBBX_ERR_NOT_FOUND then says ''Unknown user.'' HYBBX_OK st
          else if rc \<noteq> HYBBX_OK then (rc, st)
          else let target = the found in
            if \<not> hybbx_commands_registry_may_promote (en_registry env) actor (ur_level target) (ur_active target) new_level
            then (HYBBX_ERR_DENIED,
              if actor = LEVEL_MOD \<or> actor = LEVEL_USER then cmd_deny_privilege st
              else if new_level = LEVEL_ADMIN then write_line ''Only the Sysop may add Admins.'' st
              else write_line ''Only Sysop or Admin may add Mods.'' st)
            else if ur_level target = new_level
            then says (c_snprintf 128 (quoted (hybbx_user_display_name target) @ '' is already '' @ hybbx_user_level_name new_level @ ''.'')) HYBBX_OK st
            else case store_user env (target\<lparr>ur_level := new_level\<rparr>) st of (rc, st) \<Rightarrow>
              if rc \<noteq> HYBBX_OK then (rc, st)
              else says (c_snprintf 128 (''Promoted '' @ quoted (hybbx_user_display_name target) @ '' to ''
                     @ hybbx_user_level_name new_level @ ''.'')) HYBBX_OK st)"

definition cmd_demote :: handler where
  "cmd_demote env argv st =
     (if arg argv 0 = [] then says ''Usage: /demote <username>'' HYBBX_OK st
      else let actor = actor_level st in
        case cmd_lookup_user env st (arg argv 0) of (rc, found) \<Rightarrow>
          if rc = HYBBX_ERR_NOT_FOUND then says ''Unknown user.'' HYBBX_OK st
          else if rc \<noteq> HYBBX_OK then (rc, st)
          else let target = the found in
            if str_ieq (ur_username target) (hybbx_session_username (ac_session st))
            then says ''You cannot demote your own account.'' HYBBX_OK st
            else if \<not> hybbx_commands_registry_may_demote (en_registry env) actor (ur_level target)
            then (HYBBX_ERR_DENIED,
              if actor = LEVEL_MOD \<or> actor = LEVEL_USER then cmd_deny_privilege st
              else if ur_level target = LEVEL_ADMIN then write_line ''Only the Sysop may remove Admins.'' st
              else if ur_level target = LEVEL_MOD then write_line ''Only Sysop or Admin may remove Mods.'' st
              else write_line ''That account is not an Admin or Mod.'' st)
            else case store_user env (target\<lparr>ur_level := LEVEL_USER\<rparr>) st of (rc, st) \<Rightarrow>
              if rc \<noteq> HYBBX_OK then (rc, st)
              else says (c_snprintf 128 (''Demoted '' @ quoted (hybbx_user_display_name target) @ '' from ''
                     @ hybbx_user_level_name (ur_level target) @ '' to user.'')) HYBBX_OK st)"

definition cmd_delete :: handler where
  "cmd_delete env argv st =
     (if arg argv 0 = [] then says ''Usage: /delete <username>'' HYBBX_OK st
      else let actor = actor_level st in
        case cmd_lookup_user env st (arg argv 0) of (rc, found) \<Rightarrow>
          if rc = HYBBX_ERR_NOT_FOUND then says ''Unknown user.'' HYBBX_OK st
          else if rc \<noteq> HYBBX_OK then (rc, st)
          else let target = the found in
            if str_ieq (ur_username target) (hybbx_session_username (ac_session st))
            then says ''You cannot delete your own account.'' HYBBX_OK st
            else if hybbx_user_level_is_sysop (ur_level target)
            then says ''The Sysop account is permanent and cannot be deleted.'' HYBBX_OK st
            else if \<not> hybbx_commands_registry_may_delete (en_registry env) actor (ur_level target)
            then (HYBBX_ERR_DENIED,
              if actor = LEVEL_MOD \<or> actor = LEVEL_USER then cmd_deny_privilege st
              else if ur_level target = LEVEL_ADMIN then write_line ''Admins cannot delete other Admins.'' st
              else cmd_deny_privilege st)
            else case drop_user env (ur_id target) st of (rc, st) \<Rightarrow>
              if rc \<noteq> HYBBX_OK then (rc, st)
              else says (c_snprintf 128 (''Deleted account '' @ quoted (hybbx_user_display_name target) @ ''.'')) HYBBX_OK st)"

definition cmd_userdelete :: handler where
  "cmd_userdelete env argv st =
     (if \<not> hybbx_user_level_is_sysop (actor_level st) then (HYBBX_ERR_DENIED, cmd_deny_privilege st)
      else if arg argv 0 = [] then says ''Usage: /deleteuser <username>'' HYBBX_OK st
      else case cmd_lookup_user env st (arg argv 0) of (rc, found) \<Rightarrow>
        if rc = HYBBX_ERR_NOT_FOUND then says ''Unknown user.'' HYBBX_OK st
        else if rc \<noteq> HYBBX_OK then (rc, st)
        else let target = the found in
          if str_ieq (ur_username target) (hybbx_session_username (ac_session st))
          then says ''You cannot delete your own account.'' HYBBX_OK st
          else if \<not> hybbx_commands_registry_may_userdelete (en_registry env) (actor_level st) (ur_level target)
          then says ''The Sysop account is permanent and cannot be deleted.'' HYBBX_OK st
          else case drop_user env (ur_id target) st of (rc, st) \<Rightarrow>
            if rc \<noteq> HYBBX_OK then (rc, st)
            else says (c_snprintf 128 (''Deleted account '' @ quoted (hybbx_user_display_name target) @ ''.'')) HYBBX_OK st)"

definition cmd_deleteme_confirmed :: "string option \<Rightarrow> bool" where
  "cmd_deleteme_confirmed a \<longleftrightarrow> a \<noteq> None \<and> hybbx_bool_is_true a"

definition cmd_deleteme :: handler where
  "cmd_deleteme env argv st =
     (let a = (if argv = [] then None else Some (argv ! 0)); uid = sr_user_id (us_record (ac_session st)) in
      if hybbx_user_level_is_sysop (actor_level st)
      then says ''The Sysop account is permanent and cannot be deleted.'' HYBBX_OK st
      else if a \<noteq> None \<and> hybbx_bool_is_false a then says ''Account deletion cancelled.'' HYBBX_OK st
      else if \<not> cmd_deleteme_confirmed a then says ''Usage: /deleteme yes|no'' HYBBX_OK st
      else if uid = 0 then (HYBBX_ERR_INVALID, st)
      else case drop_user env uid st of (rc, st) \<Rightarrow>
        if rc = HYBBX_ERR_NOT_FOUND then says ''Account not found.'' HYBBX_OK st
        else if rc \<noteq> HYBBX_OK then (rc, st)
        else says ''Account deleted. Goodbye.'' HYBBX_SESSION_END st)"

definition cmd_register_user :: "bool \<Rightarrow> handler" where
  "cmd_register_user staff_created env argv st =
     (if staff_created \<and> length argv < 5
      then says ''Usage: /usercreate <username> <full-name> <country> <location> <email>'' HYBBX_OK st
      else if \<not> staff_created \<and> length argv < 6
      then says ''Usage: /register <username> <full-name> <country> <location> <email> <password>'' HYBBX_OK st
      else case parse_registration argv (\<not> staff_created) of
        None \<Rightarrow> says ''Registration fields too long.'' HYBBX_OK st
      | Some reg \<Rightarrow>
          if \<not> staff_created \<and> \<not> hybbx_password_plain_valid (rg_password reg)
          then says ''Password must be 8-24 characters (- not allowed).'' HYBBX_OK st
          else case flatfile_register_user (en_sha256_hex env) (en_guest_prefix env) (en_state env) (ac_disk st) reg (en_now env) of
            (rc, d, out) \<Rightarrow>
              let st = st\<lparr>ac_disk := d\<rparr>; user = the out in
              if rc = HYBBX_ERR_BUSY then says ''Username or nickname already taken.'' HYBBX_OK st
              else if rc = HYBBX_ERR_INVALID
              then says ''Invalid username (4-12 chars, one _ or one -, max 4 digits) or bad profile.'' HYBBX_OK st
              else if rc \<noteq> HYBBX_OK then (rc, st)
              else
                let name = quoted (hybbx_user_display_name user); cap = USER_FULL_NAME_MAX + 64;
                    st = write_line (c_snprintf cap (if staff_created then ''User '' @ name @ '' created.''
                           else ''Registration received for '' @ name @ ''.'')) st;
                    st = write_line (c_snprintf cap (''Name: '' @ ur_full_name user)) st
                in if staff_created
                   then says ''Account is inactive. Use /activate before the user can log in.'' HYBBX_OK st
                   else
                     let st = write_line ''A Sysop or Admin must activate your account before you can log in.''
                                (st\<lparr>ac_staff_mails := ac_staff_mails st @ [user]\<rparr>)
                     in (HYBBX_OK, if en_mail_enabled env then write_line ''Sysop and Admin were notified by mail.'' st else st))"

definition cmd_register :: handler where
  "cmd_register env argv st =
     (if \<not> hybbx_commands_registry_verb_allowed (en_registry env) (actor_level st) ''register''
         \<and> \<not> (us_login_prompt (ac_session st) \<and> \<not> us_logged_in (ac_session st))
      then says ''Only guests or login-prompt sessions may self-register with /register.'' HYBBX_ERR_DENIED st
      else cmd_register_user False env argv st)"

definition cmd_createuser :: handler where
  "cmd_createuser env argv st = cmd_register_user True env argv st"

definition with_profile :: "user_registration \<Rightarrow> user_record \<Rightarrow> user_record" where
  "with_profile reg user =
     user\<lparr>ur_full_name := str_store USER_FULL_NAME_MAX (rg_full_name reg), ur_country := str_store USER_COUNTRY_MAX (rg_country reg),
       ur_location := str_store USER_LOCATION_MAX (rg_location reg), ur_email := str_store USER_EMAIL_MAX (rg_email reg)\<rparr>"

definition cmd_changeme :: handler where
  "cmd_changeme env argv st =
     (if hybbx_session_is_guest (ac_session st) then says ''Only registered users may use /changeme.'' HYBBX_ERR_DENIED st
      else if length argv < 6 then says ''Usage: /changeme <oldpass> <newpass> <full-name> <country> <location> <email>'' HYBBX_OK st
      else let username = hybbx_session_username (ac_session st) in
        if username = [] then (HYBBX_ERR_INVALID, st)
        else case parse_changeme argv username of
          None \<Rightarrow> says ''Profile fields too long.'' HYBBX_OK st
        | Some (reg, old_password, new_password) \<Rightarrow>
            if \<not> hybbx_password_plain_valid new_password
            then says ''New password must be 8-24 characters (- not allowed).'' HYBBX_OK st
            else case flatfile_find_user (en_state env) (ac_disk st) (rg_username reg) of (rc, found) \<Rightarrow>
              if rc = HYBBX_ERR_NOT_FOUND then says ''Account not found.'' HYBBX_OK st
              else if rc \<noteq> HYBBX_OK then (rc, st)
              else let user = the found in
                if ur_id user \<noteq> sr_user_id (us_record (ac_session st)) then says ''You can only change your own account.'' HYBBX_OK st
                else if \<not> hybbx_user_profile_valid reg then says ''Invalid profile (check name, country, location, email).'' HYBBX_OK st
                else if ur_password user = [] then says ''Account has no password. Ask Sysop or Admin to set one.'' HYBBX_OK st
                else if \<not> hybbx_password_match (en_sha256_hex env) (en_md5_buffer env) (ur_password user) old_password
                then says ''Old password incorrect.'' HYBBX_OK st
                else case hybbx_password_hash (en_sha256_hex env) new_password USER_PASSWORD_MAX of (rc, password) \<Rightarrow>
                  if rc \<noteq> HYBBX_OK then says ''Could not store new password.'' rc st
                  else case store_user env (with_profile reg user\<lparr>ur_password := the password\<rparr>) st of (rc, st) \<Rightarrow>
                    if rc \<noteq> HYBBX_OK then (rc, st) else says ''Account updated.'' HYBBX_OK st)"

definition cmd_userchange :: handler where
  "cmd_userchange env argv st =
     (if \<not> hybbx_user_level_is_sysop_or_admin (actor_level st) then (HYBBX_ERR_DENIED, cmd_deny_privilege st)
      else if length argv < 7 then says ''Usage: /changeuser <user> <newpass> <full-name> <country> <location> <email>'' HYBBX_OK st
      else case parse_userchange argv of
        None \<Rightarrow> says ''Profile fields too long.'' HYBBX_OK st
      | Some (reg, new_password) \<Rightarrow>
          if \<not> hybbx_password_plain_valid new_password
          then says ''New password must be 8-24 characters (- not allowed).'' HYBBX_OK st
          else if \<not> hybbx_user_profile_valid reg then says ''Invalid profile (check name, country, location, email).'' HYBBX_OK st
          else case flatfile_find_user (en_state env) (ac_disk st) (rg_username reg) of (rc, found) \<Rightarrow>
            if rc = HYBBX_ERR_NOT_FOUND then says ''Unknown user.'' HYBBX_OK st
            else if rc \<noteq> HYBBX_OK then (rc, st)
            else let user = the found in
              if str_ieq (ur_username user) (hybbx_session_username (ac_session st))
              then says ''Use /changeme to update your own account.'' HYBBX_OK st
              else if hybbx_user_level_is_sysop (ur_level user)
              then says ''The Sysop account cannot be changed with /changeuser.'' HYBBX_OK st
              else if \<not> hybbx_commands_registry_may_userchange (en_registry env) (actor_level st) (ur_level user)
              then (HYBBX_ERR_DENIED,
                if actor_level st = LEVEL_ADMIN \<and> ur_level user = LEVEL_ADMIN
                then write_line ''Admins cannot change other Admins. Sysop only.'' st else cmd_deny_privilege st)
              else case hybbx_password_hash (en_sha256_hex env) new_password USER_PASSWORD_MAX of (rc, password) \<Rightarrow>
                if rc \<noteq> HYBBX_OK then says ''Could not store new password.'' rc st
                else case store_user env (with_profile reg user\<lparr>ur_password := the password\<rparr>) st of (rc, st) \<Rightarrow>
                  if rc \<noteq> HYBBX_OK then (rc, st)
                  else says (c_snprintf 160 (''Updated account '' @ quoted (hybbx_user_display_name user) @ ''.'')) HYBBX_OK st)"

text \<open>
  Logging in.  The message of the day and the announcement of mail are \<open>en_login_texts\<close>, given what the last
  login's time was; the security log's line, the reading of staff mail that the announcement may note, and the prompt
  written at the end are left out.
\<close>

definition cmd_login :: handler where
  "cmd_login env argv st =
     (if arg argv 0 = [] then says ''Usage: /login <username> <password>'' HYBBX_OK st
      else
        let username = hybbx_username_normalize (str_store USER_NAME_MAX (arg argv 0)) in
        if hybbx_guest_slot_from_username (en_guest_prefix env) username \<noteq> None
        then says (if en_auto_login env
                   then ''Guest access is automatic on connect (auto_login). /login is for registered accounts only.''
                   else ''/login is for registered accounts only.'') HYBBX_OK st
        else if arg argv 1 = [] then says ''Usage: /login <username> <password>'' HYBBX_OK st
        else case flatfile_find_user (en_state env) (ac_disk st) username of (rc, found) \<Rightarrow>
          if rc = HYBBX_ERR_NOT_FOUND then says ''Unknown user.'' HYBBX_OK st
          else if rc \<noteq> HYBBX_OK then (rc, st)
          else let user = the found in
            if hybbx_user_level_is_guest (ur_level user)
            then says ''Guests are ephemeral and use auto-login on connect.'' HYBBX_OK st
            else if \<not> ur_active user then says ''Account pending activation by Sysop or Admin.'' HYBBX_OK st
            else if ur_password user = [] then says ''Account has no password. Contact Sysop or Admin.'' HYBBX_OK st
            else if \<not> hybbx_password_match (en_sha256_hex env) (en_md5_buffer env) (ur_password user) (argv ! 1)
            then
              let rec = us_record (ac_session st);
                  st = (if sr_remote rec \<noteq> [] then st\<lparr>ac_login_fails := ac_login_fails st @ [(sr_remote rec, sr_transport rec)]\<rparr> else st)
              in says ''Invalid password.'' HYBBX_OK st
            else if hybbx_service_find_registered_session (en_others env) (ur_id user) \<noteq> None
            then says ''That account is already logged in elsewhere.'' HYBBX_OK st
            else case hybbx_session_switch_user env user st of (rc, st) \<Rightarrow>
              if rc \<noteq> HYBBX_OK then says ''Login failed.'' rc st
              else (HYBBX_OK, snd (store_user env (user\<lparr>ur_last_login_at := en_now env\<rparr>)
                     (write_lines (en_login_texts env (ur_last_login_at user)) st))))"

section \<open>Help, the lists and the echo\<close>

definition cmd_help_topic :: "command_env \<Rightarrow> string \<Rightarrow> account_state \<Rightarrow> hybbx_result \<times> account_state" where
  "cmd_help_topic env topic st =
     (let reg = en_registry env; level = actor_level st in
      if topic = [] then (HYBBX_OK, write_lines (hybbx_commands_registry_show_menu reg level) st)
      else let canonical = hybbx_commands_registry_canonical reg topic in
        if \<not> hybbx_commands_registry_help_allowed reg level canonical
        then says (cmd_help_unknown (ac_session st)) HYBBX_ERR_NOT_FOUND st
        else case hybbx_commands_registry_find reg canonical of
          None \<Rightarrow> says (cmd_help_unknown (ac_session st)) HYBBX_ERR_NOT_FOUND st
        | Some def \<Rightarrow>
            if cd_line1 def = [] then says (cmd_help_unknown (ac_session st)) HYBBX_ERR_NOT_FOUND st
            else (HYBBX_OK, write_lines (hybbx_commands_registry_show_help reg canonical) st))"

definition cmd_help :: handler where
  "cmd_help env argv st =
     (if argv = [] then (HYBBX_OK, write_lines (hybbx_commands_registry_show_menu (en_registry env) (actor_level st)) st)
      else cmd_help_topic env (argv ! 0) st)"

definition cmd_menu :: handler where
  "cmd_menu env argv st =
     (if argv = [] then (HYBBX_OK, write_lines (hybbx_commands_registry_show_menu (en_registry env) (actor_level st)) st)
      else cmd_help_topic env (argv ! 0) st)"

definition cmd_index :: handler where
  "cmd_index env argv st =
     (if argv = [] then (HYBBX_OK, write_lines (hybbx_commands_registry_show_index (en_registry env)) st)
      else cmd_help_topic env (argv ! 0) st)"

definition cmd_alias :: handler where
  "cmd_alias env argv st =
     (if argv = [] then (HYBBX_OK, write_lines (hybbx_commands_registry_show_aliases (en_registry env)) st)
      else cmd_help_topic env (argv ! 0) st)"

definition who_transport_label :: "string \<Rightarrow> string" where
  "who_transport_label transport =
     (if transport = [] then ''unknown''
      else if str_ieq transport ''packet_radio'' then ''ax25''
      else if str_ieq transport ''telnet'' then ''telnet''
      else if str_ieq transport ''circuit'' then ''circuit''
      else if str_ieq transport ''ssh'' then ''ssh''
      else if str_ieq transport ''websocket'' then ''websocket''
      else transport)"

text \<open>The counts of the four levels of registered users, and their sum.\<close>

definition users_stats_cb :: "(nat list \<times> nat) user_fn" where
  "users_stats_cb user dc =
     (if ur_level user < LEVEL_SYSOP \<or> ur_level user > LEVEL_USER then (HYBBX_OK, dc)
      else case dc of (d, by_level, n) \<Rightarrow>
        let l = level_number (ur_level user) in (HYBBX_OK, d, by_level[l := by_level ! l + 1], n + 1))"

text \<open>The percents so far, their sum, the largest remainder of a tenth and the level it is at.\<close>

type_synonym percents_state = "nat list \<times> nat \<times> nat \<times> nat"

definition percents_step :: "nat list \<Rightarrow> nat \<Rightarrow> percents_state \<Rightarrow> nat \<Rightarrow> percents_state" where
  "percents_step counts num st level =
     (case st of (percents, s, max_remainder, adjust_level) \<Rightarrow>
        let scaled = (counts ! level * 1000 mod 2 ^ 64) div num; r = scaled mod 10 in
        (percents[level := scaled div 10], s + scaled div 10,
         if r > max_remainder then r else max_remainder, if r > max_remainder then level else adjust_level))"

definition users_compute_percents :: "nat list \<Rightarrow> nat \<Rightarrow> nat list" where
  "users_compute_percents counts num =
     (if num = 0 then replicate 6 0
      else case foldl (percents_step counts num) (replicate 6 0, 0, 0, 1) [1..<5] of (percents, s, _, adjust_level) \<Rightarrow>
        if s < 100 then percents[adjust_level := percents ! adjust_level + (100 - s)] else percents)"

definition level_of_number :: "nat \<Rightarrow> user_level" where
  "level_of_number n = [LEVEL_NONE, LEVEL_SYSOP, LEVEL_ADMIN, LEVEL_MOD, LEVEL_USER, LEVEL_GUEST] ! n"

definition pad_left :: "nat \<Rightarrow> string \<Rightarrow> string" where
  "pad_left n s = replicate (n - length s) CHR '' '' @ s"

definition pad_right :: "nat \<Rightarrow> string \<Rightarrow> string" where
  "pad_right n s = s @ replicate (n - length s) CHR '' ''"

definition users_lines :: "nat list \<Rightarrow> nat \<Rightarrow> string list" where
  "users_lines by_level num =
     (if num = 0 then [''  (none)'']
      else map (\<lambda>l. c_snprintf 48 (''  '' @ pad_right 8 (hybbx_user_level_name (level_of_number l)) @ '' ''
                       @ pad_left 3 (dec_of_nat (users_compute_percents by_level num ! l)) @ [CHR 0x25]))
             (List.filter (\<lambda>l. by_level ! l \<noteq> 0) [1..<5]))
     @ [c_snprintf 40 (''Total users: '' @ dec_of_nat num)]"

definition cmd_users :: handler where
  "cmd_users env argv st =
     (case foreach_user (en_state env) users_stats_cb (ac_disk st, replicate 6 0, 0) of (rc, _, by_level, num) \<Rightarrow>
        if rc \<noteq> HYBBX_OK then says ''Could not read user database.'' rc st
        else (HYBBX_OK, write_lines (''Registered users:'' # users_lines by_level num) st))"

definition cmd_session :: handler where
  "cmd_session env argv st =
     (let s = ac_session st in
      (HYBBX_OK, write_lines
         [c_snprintf 128 (''User: '' @ hybbx_session_display_name s),
          c_snprintf 128 (''Level: '' @ hybbx_user_level_name (hybbx_session_user_level s)),
          c_snprintf 128 (''Session: '' @ dec_of_nat (sr_session_id (us_record s))),
          c_snprintf 128 (''Transport: '' @ sr_transport (us_record s))] st))"

definition hybbx_session_set_input_echo :: "bool \<Rightarrow> account_state \<Rightarrow> hybbx_result \<times> account_state" where
  "hybbx_session_set_input_echo enabled st =
     (let s = ac_session st in
      if \<not> (us_logged_in s \<or> us_login_prompt s) then (HYBBX_ERR_INVALID, st)
      else (HYBBX_OK, st\<lparr>ac_session := s\<lparr>us_input_echo := enabled\<rparr>\<rparr>))"

definition cmd_echo :: handler where
  "cmd_echo env argv st =
     (if length argv < 2
      then says (c_snprintf 48 (''Input echo is '' @ hybbx_bool_to_string (if us_input_echo (ac_session st) then 1 else 0) @ ''.'')) HYBBX_OK st
      else if hybbx_bool_is_true (Some (argv ! 1)) then hybbx_session_set_input_echo True st
      else if hybbx_bool_is_false (Some (argv ! 1)) then hybbx_session_set_input_echo False st
      else says ''Usage: /echo yes|no'' HYBBX_ERR_INVALID st)"

section \<open>The dispatcher\<close>

text \<open>
  The verbs with their handlers, in the order of the comparisons.  The handlers that are not modelled here
  (texts, chat, conference, mail, the proxies, the broadcast, leaving and the service's control) are an
  argument.
\<close>

definition verb_is :: "string \<Rightarrow> string list \<Rightarrow> bool" where
  "verb_is verb names \<longleftrightarrow> list_ex (str_ieq verb) names"

definition dispatch_verb :: "(string \<Rightarrow> handler option) \<Rightarrow> string \<Rightarrow> handler" where
  "dispatch_verb others verb env argv st =
     (if verb_is verb [''users''] then cmd_users env argv st
      else if verb_is verb [''session'', ''info''] then cmd_session env argv st
      else if verb_is verb [''menu''] then cmd_menu env argv st
      else if verb_is verb [''index''] then cmd_index env argv st
      else if verb_is verb [''alias''] then cmd_alias env argv st
      else if verb_is verb [''echo''] then cmd_echo env argv st
      else if verb_is verb [''login''] then cmd_login env argv st
      else if verb_is verb [''register''] then cmd_register env argv st
      else if verb_is verb [''changeme''] then cmd_changeme env argv st
      else if verb_is verb [''changeuser'', ''userchange''] then cmd_userchange env argv st
      else if verb_is verb [''deleteuser'', ''userdelete''] then cmd_userdelete env argv st
      else if verb_is verb [''usercreate'', ''createuser''] then cmd_createuser env argv st
      else if verb_is verb [''activate''] then cmd_activate env argv st
      else if verb_is verb [''promote''] then cmd_promote env argv st
      else if verb_is verb [''demote''] then cmd_demote env argv st
      else if verb_is verb [''delete'', ''del''] then cmd_delete env argv st
      else if verb_is verb [''deleteme''] then cmd_deleteme env argv st
      else case others verb of
        Some h \<Rightarrow> h env argv st
      | None \<Rightarrow> says (cmd_help_unknown (ac_session st)) HYBBX_ERR_NOT_FOUND st)"

definition hybbx_command_dispatch :: "(string \<Rightarrow> handler option) \<Rightarrow> command_scope \<Rightarrow> string \<Rightarrow> handler" where
  "hybbx_command_dispatch others scope verb env argv st =
     (if scope \<noteq> CMD_SCOPE_HYBBX then (HYBBX_ERR_INVALID, st)
      else let st = write_line [] st in
        if verb = [] \<or> verb_is verb [''help'', ''?''] then cmd_help env argv st
        else case cmd_check_access env verb st of (access, st) \<Rightarrow>
          if access \<noteq> HYBBX_OK then (access, st) else dispatch_verb others verb env argv st)"

section \<open>Records that survive\<close>

text \<open>
  The words of a command line are not empty and have no blanks; an apostrophe at the start of a
  text is what a file may not keep, when another ends it.
\<close>

definition plain_words :: "string list \<Rightarrow> bool" where
  "plain_words argv \<longleftrightarrow> list_all (\<lambda>a. a \<noteq> [] \<and> hd a \<noteq> CHR 0x27 \<and> (\<forall>c \<in> set a. \<not> c_isspace c)) argv"

lemma strip_comment_scan_plain: "\<forall>c \<in> set s. ini_plain_char c \<Longrightarrow> strip_comment_scan q r s = s"
  by (induction s arbitrary: q r) (auto simp: ini_plain_char_def)

lemma plain_text_clean:
  assumes "trimmed s" and "\<forall>c \<in> set s. ini_plain_char c" and "s = [] \<or> hd s \<noteq> CHR 0x27"
  shows "clean_value s"
proof -
  have c: "clean_text s" using assms by (auto simp: clean_text_def ini_plain_char_def)
  have "strip_comment_scan False False s = s"
    using assms(2) by (rule strip_comment_scan_plain)
  then have "strip_inline_comment_inplace s = s"
    using assms(1) by (auto simp: strip_inline_comment_inplace_def trimmed_def rstrip_id)
  moreover have "strip_quotes s = s"
    using assms by (cases s) (auto simp: strip_quotes_def ini_plain_char_def)
  ultimately show ?thesis using c by (simp add: clean_value_def reload_value_def)
qed

lemma join_name_clean:
  "join_name parts acc = Some name \<Longrightarrow> plain_words parts \<Longrightarrow> trimmed acc \<Longrightarrow> acc = [] \<or> hd acc \<noteq> CHR 0x27 \<Longrightarrow>
   trimmed name \<and> (name = [] \<or> hd name \<noteq> CHR 0x27)"
proof (induction parts acc rule: join_name.induct)
  case (2 part parts acc)
  let ?acc = "(if acc \<noteq> [] then acc @ '' '' else acc) @ part"
  have p: "part \<noteq> []" "hd part \<noteq> CHR 0x27" "\<forall>c \<in> set part. \<not> c_isspace c" "plain_words parts"
    using "2.prems"(2) by (simp_all add: plain_words_def)
  have "hd part \<in> set part" "List.last part \<in> set part" using p(1) by simp_all
  then have h: "\<not> c_isspace (hd part)" "\<not> c_isspace (List.last part)" using p(3) by blast+
  have j: "join_name parts ?acc = Some name" using "2.prems"(1) by (auto simp: Let_def split: if_splits)
  have "trimmed ?acc" using "2.prems"(3) h p(1) by (auto simp: trimmed_def hd_append)
  moreover have "?acc = [] \<or> hd ?acc \<noteq> CHR 0x27" using "2.prems"(4) p(1,2) by (auto simp: hd_append)
  ultimately show ?case
    using "2.IH" "2.prems"(1) p(4) j by (auto simp: Let_def split: if_splits)
qed auto

lemma word_fields_clean:
  assumes "a \<noteq> []" and "hd a \<noteq> CHR 0x27" and "\<forall>c \<in> set a. \<not> c_isspace c"
    and "list_all ok (str_store n a)" and "\<And>c. ok c \<Longrightarrow> ini_plain_char c"
  shows "clean_value (str_store n a)"
proof (rule plain_text_clean)
  show "trimmed (str_store n a)"
    using assms(3) by (intro trimmed_no_space) (auto simp: str_store_def dest: in_set_takeD)
  show "\<forall>c \<in> set (str_store n a). ini_plain_char c" using assms(4,5) by (auto simp: list_all_iff)
  show "str_store n a = [] \<or> hd (str_store n a) \<noteq> CHR 0x27"
    using assms(1,2) by (cases "n - 1") (auto simp: str_store_def hd_take)
qed

lemma parse_profile_tidy:
  assumes "parse_profile_fields argv k e reg0 = Some reg" and "plain_words argv" and "hybbx_user_profile_valid reg"
  shows "tidy_registration reg \<and> clean_value (rg_email reg) \<and> rg_username reg = rg_username reg0
     \<and> rg_nickname reg = rg_nickname reg0 \<and> rg_password reg = rg_password reg0"
proof -
  let ?n = "length argv"
  obtain name where j: "join_name (take (?n - (3 + e) - k) (drop k argv)) [] = Some name"
    and l: "k + (3 + e) \<le> ?n"
    and reg: "reg = reg0\<lparr>rg_email := str_store USER_EMAIL_MAX (argv ! (?n - 1 - e)),
          rg_location := str_store USER_LOCATION_MAX (argv ! (?n - 2 - e)),
          rg_country := str_store USER_COUNTRY_MAX (argv ! (?n - 3 - e)), rg_full_name := name\<rparr>"
    using assms(1) by (auto simp: parse_profile_fields_def Let_def split: if_splits option.splits)
  have w: "argv ! i \<noteq> [] \<and> hd (argv ! i) \<noteq> CHR 0x27 \<and> (\<forall>c \<in> set (argv ! i). \<not> c_isspace c)" if "i < ?n" for i
    using assms(2) that by (auto simp: plain_words_def list_all_length)
  have "plain_words (take (?n - (3 + e) - k) (drop k argv))"
    using assms(2) by (auto simp: plain_words_def list_all_iff dest: in_set_takeD in_set_dropD)
  then have name: "trimmed name \<and> (name = [] \<or> hd name \<noteq> CHR 0x27)"
    using join_name_clean [OF j] by (simp add: trimmed_def)
  have v: "list_all profile_text_char_ok name" "list_all profile_text_char_ok (rg_country reg)"
    "list_all profile_text_char_ok (rg_location reg)" "list_all email_char_ok (rg_email reg)"
    using assms(3) reg by (simp_all add: hybbx_user_profile_valid_def profile_text_valid_def email_valid_def)
  have "clean_value name"
    using name v(1) valid_text_plain(2) by (intro plain_text_clean) (auto simp: list_all_iff)
  note cn = this
  have field: "clean_value (str_store m (argv ! i))"
    if "i < ?n" "list_all ok (str_store m (argv ! i))" "\<And>c. ok c \<Longrightarrow> ini_plain_char c" for i m ok
    using w [OF that(1)] that(2,3) by (intro word_fields_clean [where ok = ok]) simp_all
  have "?n - 3 - e < ?n" "?n - 2 - e < ?n" "?n - 1 - e < ?n" using l by auto
  then have "clean_value (rg_country reg)" "clean_value (rg_location reg)" "clean_value (rg_email reg)"
    using field [where ok = profile_text_char_ok] field [where ok = email_char_ok] v(2-4) valid_text_plain(2,3) unfolding reg by simp_all
  then show ?thesis using reg cn by (simp add: tidy_registration_def)
qed

lemma hash_clean:
  fixes sha :: "string \<Rightarrow> string"
  assumes "\<And>p. hex_digest (sha p)"
  shows "hybbx_password_hash sha pw USER_PASSWORD_MAX = (HYBBX_OK, Some (PASSWORD_SHA256_PREFIX @ sha pw))"
    and "clean_value (PASSWORD_SHA256_PREFIX @ sha pw)" and "length (PASSWORD_SHA256_PREFIX @ sha pw) < USER_PASSWORD_MAX"
proof -
  have l: "length (sha pw) = 64" using assms by (simp add: hex_digest_def)
  then show "hybbx_password_hash sha pw USER_PASSWORD_MAX = (HYBBX_OK, Some (PASSWORD_SHA256_PREFIX @ sha pw))"
    "length (PASSWORD_SHA256_PREFIX @ sha pw) < USER_PASSWORD_MAX"
    by (simp_all add: hybbx_password_hash_def hybbx_password_hash_sha256_def USER_PASSWORD_MAX_def PASSWORD_SHA256_PREFIX_def c_snprintf_def)
  show "clean_value (PASSWORD_SHA256_PREFIX @ sha pw)" by (rule digest_clean [OF assms])
qed

lemma changed_record_clean:
  fixes sha :: "string \<Rightarrow> string"
  assumes "clean_user u" and "tidy_registration reg" and "clean_value (rg_email reg)" and "hybbx_user_profile_valid reg"
    and "\<And>p. hex_digest (sha p)"
  shows "clean_user (with_profile reg u\<lparr>ur_password := PASSWORD_SHA256_PREFIX @ sha pw\<rparr>)"
proof -
  have "length (rg_full_name reg) < USER_FULL_NAME_MAX" "length (rg_country reg) < USER_COUNTRY_MAX"
    "length (rg_location reg) < USER_LOCATION_MAX" "length (rg_email reg) < USER_EMAIL_MAX"
    using assms(4) by (simp_all add: hybbx_user_profile_valid_def profile_text_valid_def email_valid_def)
  then show ?thesis
    using assms(1-3) hash_clean(2,3) [of sha pw, OF assms(5)]
    by (simp add: clean_user_def with_profile_def tidy_registration_def)
qed

section \<open>What a command may do to the accounts\<close>

definition replace_user :: "user_record \<Rightarrow> user_record \<Rightarrow> user_record list \<Rightarrow> user_record list" where
  "replace_user u u' us = map (\<lambda>v. if v = u then u' else v) us"

text \<open>
  What may become of an account, by the verb, the words behind it and who gives them: an inactive user that the
  first word names is activated; one that it names is promoted to the level of the second word or
  demoted, with the registry's right; the session's own account gets a profile and the second word as password,
  the first one matching the old; another account, not the Sysop's, gets them from a Sysop or an Admin with the
  right to it; or the account that logs in, with its password, gets the time.
\<close>

definition may_change :: "command_env \<Rightarrow> user_session \<Rightarrow> string \<Rightarrow> string list \<Rightarrow> user_record list \<Rightarrow> user_record \<Rightarrow> user_record \<Rightarrow> bool" where
  "may_change env s verb argv us u u' \<longleftrightarrow>
     (let reg = en_registry env; level = hybbx_session_user_level s;
          matches = hybbx_password_match (en_sha256_hex env) (en_md5_buffer env) (ur_password u);
          changed = (\<lambda>new. with_profile new u\<lparr>ur_password := PASSWORD_SHA256_PREFIX @ en_sha256_hex env (argv ! 1)\<rparr>);
          named = (str_ieq (ur_username u) (hybbx_username_normalize (str_store USER_NAME_MAX (argv ! 0)))) in
      (verb_is verb [''activate''] \<and> u' = u\<lparr>ur_active := True\<rparr> \<and> list_resolve us (argv ! 0) = Some u
         \<and> ur_level u = LEVEL_USER \<and> \<not> ur_active u \<and> hybbx_commands_registry_verb_allowed reg level ''activate'')
      \<or> (verb_is verb [''promote''] \<and> hybbx_user_level_parse (argv ! 1) \<in> {LEVEL_ADMIN, LEVEL_MOD}
           \<and> u' = u\<lparr>ur_level := hybbx_user_level_parse (argv ! 1)\<rparr> \<and> list_resolve us (argv ! 0) = Some u
           \<and> hybbx_commands_registry_may_promote reg level (ur_level u) (ur_active u) (hybbx_user_level_parse (argv ! 1)))
      \<or> (verb_is verb [''demote''] \<and> u' = u\<lparr>ur_level := LEVEL_USER\<rparr> \<and> list_resolve us (argv ! 0) = Some u
           \<and> hybbx_commands_registry_may_demote reg level (ur_level u)
           \<and> \<not> str_ieq (ur_username u) (hybbx_session_username s))
      \<or> (verb_is verb [''changeme''] \<and> (\<exists>new. u' = changed new \<and> hybbx_user_profile_valid new)
           \<and> hybbx_password_plain_valid (argv ! 1)
           \<and> ur_id u = sr_user_id (us_record s) \<and> \<not> hybbx_session_is_guest s \<and> matches (argv ! 0))
      \<or> (verb_is verb [''changeuser'', ''userchange''] \<and> (\<exists>new. u' = changed new \<and> hybbx_user_profile_valid new)
           \<and> hybbx_password_plain_valid (argv ! 1) \<and> named
           \<and> hybbx_user_level_is_sysop_or_admin level \<and> ur_level u \<noteq> LEVEL_SYSOP
           \<and> hybbx_commands_registry_may_userchange reg level (ur_level u)
           \<and> \<not> str_ieq (ur_username u) (hybbx_session_username s))
      \<or> (verb_is verb [''login''] \<and> u' = u\<lparr>ur_last_login_at := en_now env\<rparr> \<and> named \<and> ur_active u \<and> matches (argv ! 1)))"

definition may_remove :: "command_env \<Rightarrow> user_session \<Rightarrow> string \<Rightarrow> string list \<Rightarrow> user_record list \<Rightarrow> user_record \<Rightarrow> bool" where
  "may_remove env s verb argv us u \<longleftrightarrow>
     (let reg = en_registry env; level = hybbx_session_user_level s in
      (verb_is verb [''delete'', ''del''] \<and> list_resolve us (argv ! 0) = Some u
         \<and> hybbx_commands_registry_may_delete reg level (ur_level u) \<and> ur_level u \<noteq> LEVEL_SYSOP
         \<and> \<not> str_ieq (ur_username u) (hybbx_session_username s))
      \<or> (verb_is verb [''deleteuser'', ''userdelete''] \<and> list_resolve us (argv ! 0) = Some u
         \<and> level = LEVEL_SYSOP \<and> hybbx_commands_registry_may_userdelete reg level (ur_level u)
         \<and> \<not> str_ieq (ur_username u) (hybbx_session_username s))
      \<or> (verb_is verb [''deleteme''] \<and> ur_id u = sr_user_id (us_record s) \<and> level \<noteq> LEVEL_SYSOP
         \<and> argv \<noteq> [] \<and> hybbx_bool_is_true (Some (argv ! 0))))"

text \<open>What a command may do to the list of the users.\<close>

inductive account_effect ::
    "command_env \<Rightarrow> user_session \<Rightarrow> string \<Rightarrow> string list \<Rightarrow> user_record list \<Rightarrow> user_record list \<Rightarrow> bool"
  for env s verb argv where
  nothing: "account_effect env s verb argv us us"
| registers: "verb_is verb [''register'', ''usercreate'', ''createuser''] \<Longrightarrow> ur_level v = LEVEL_USER \<Longrightarrow> \<not> ur_active v \<Longrightarrow>
    ur_id v \<notin> ur_id ` set us \<Longrightarrow> account_effect env s verb argv us (us @ [v])"
| changes: "u \<in> set us \<Longrightarrow> may_change env s verb argv us u u' \<Longrightarrow> account_effect env s verb argv us (replace_user u u' us)"
| removes: "u \<in> set us \<Longrightarrow> may_remove env s verb argv us u \<Longrightarrow> account_effect env s verb argv us (List.filter (\<lambda>v. v \<noteq> u) us)"

text \<open>The users of a state, and that the storage has room for one more.\<close>

definition users_now :: "command_env \<Rightarrow> account_state \<Rightarrow> user_record list \<Rightarrow> bool" where
  "users_now env st us \<longleftrightarrow> (\<exists>n k. holds (en_state env) (ac_disk st) us n k)"

definition has_room :: "command_env \<Rightarrow> account_state \<Rightarrow> bool" where
  "has_room env st \<longleftrightarrow> last_user_shard_index (en_state env) (ac_disk st) < 9998
     \<and> snd (read_counter (ac_disk st) (ff_user_next_path (en_state env))) + 1 < 2 ^ 64"

definition sound_env :: "command_env \<Rightarrow> bool" where
  "sound_env env \<longleftrightarrow> (\<forall>p. hex_digest (en_sha256_hex env p)) \<and> 0 \<le> en_now env \<and> en_now env < 2 ^ 63"

lemma users_now_write [simp]:
  "users_now env (write_line t st) = users_now env st" "users_now env (write_lines ts st) = users_now env st"
  "ac_session (write_line t st) = ac_session st" "ac_session (write_lines ts st) = ac_session st"
  "ac_disk (write_line t st) = ac_disk st" "ac_disk (write_lines ts st) = ac_disk st"
  by (simp_all add: users_now_def [abs_def] write_line_def write_lines_def)

lemma users_store_holds: "users_now env st us \<Longrightarrow> has_room env st \<Longrightarrow> store_holds (en_state env) (ac_disk st) us"
  using store_holds_last by (auto simp: users_now_def has_room_def)

lemma store_holds_users: "store_holds (en_state env) d us \<Longrightarrow> users_now env (st\<lparr>ac_disk := d\<rparr>) us"
  by (auto simp: users_now_def store_holds_def)

lemma lookup_found:
  assumes "users_now env st us" and "has_room env st" and "cmd_lookup_user env st name = (HYBBX_OK, found)"
  shows "\<exists>u. found = Some u \<and> u \<in> set us \<and> clean_user u \<and> list_resolve us name = Some u"
proof -
  have n: "name \<noteq> []" using assms(3) by (auto simp: cmd_lookup_user_def)
  note h = users_store_holds [OF assms(1,2)]
  have "lookup_result (list_resolve us name) = (HYBBX_OK, found)"
    using assms(3) n ff.resolve_law [OF h n] by (simp add: cmd_lookup_user_def)
  then have "list_resolve us name = found" "found \<noteq> None" by (auto simp: lookup_result_def split: if_splits)
  then obtain u where u: "found = Some u" "list_resolve us name = Some u" by auto
  have "u \<in> set us" by (rule ff.resolved_in [OF u(2)])
  then show ?thesis using u ff.good_law [OF h] by (auto simp: list_all_iff)
qed

lemma find_found:
  assumes "users_now env st us" and "has_room env st" and "flatfile_find_user (en_state env) (ac_disk st) name = (HYBBX_OK, found)"
  shows "\<exists>u. found = Some u \<and> u \<in> set us \<and> clean_user u \<and> str_ieq (ur_username u) name"
proof -
  obtain uss n where us: "us = concat uss" "stored (en_state env) (ac_disk st) uss n"
    using assms(1) by (auto simp: users_now_def holds_def)
  have "List.find (\<lambda>u. str_ieq (ur_username u) name) us = found" "found \<noteq> None"
    using assms(3) find_user_stored [OF us(2)] us(1) by (auto simp: lookup_result_def split: if_splits)
  then obtain u where "found = Some u" "u \<in> set us" "str_ieq (ur_username u) name"
    by (cases found) (auto simp: find_Some_iff)
  then show ?thesis using ff.good_law [OF users_store_holds [OF assms(1,2)]] by (auto simp: list_all_iff)
qed

lemma store_user_effect:
  assumes "users_now env st us" and "has_room env st" and "u \<in> set us" and "ur_id u' = ur_id u" and "clean_user u'"
    and "may_change env s verb argv us u u'"
  shows "\<exists>rc d us'. store_user env u' st = (rc, st\<lparr>ac_disk := d\<rparr>) \<and> users_now env (st\<lparr>ac_disk := d\<rparr>) us' \<and> account_effect env s verb argv us us'"
proof -
  note h = users_store_holds [OF assms(1,2)]
  have eq: "map (\<lambda>v. if ur_id v = ur_id u' then u' else v) us = replace_user u u' us"
    unfolding replace_user_def using ff.same_id [OF h assms(3)] assms(4) by (intro map_cong) simp_all
  have "ur_id u' \<in> ur_id ` set us" using assms(3,4) by simp
  from ff.update_law [OF h this assms(5)] obtain rc d where
    "flatfile_update_user (en_state env) (ac_disk st) u' = (rc, d)"
    "store_holds (en_state env) d (if rc = HYBBX_OK then replace_user u u' us else us)" unfolding eq by blast
  then have "store_user env u' st = (rc, st\<lparr>ac_disk := d\<rparr>)" "users_now env (st\<lparr>ac_disk := d\<rparr>) (if rc = HYBBX_OK then replace_user u u' us else us)"
    using store_holds_users by (simp_all add: store_user_def)
  moreover have "account_effect env s verb argv us (if rc = HYBBX_OK then replace_user u u' us else us)"
    using account_effect.changes [OF assms(3,6)] account_effect.nothing by (cases "rc = HYBBX_OK") simp_all
  ultimately show ?thesis by blast
qed

lemma drop_user_effect:
  assumes "users_now env st us" and "has_room env st" and "u \<in> set us" and "may_remove env s verb argv us u"
  shows "\<exists>rc d us'. drop_user env (ur_id u) st = (rc, st\<lparr>ac_disk := d\<rparr>) \<and> users_now env (st\<lparr>ac_disk := d\<rparr>) us' \<and> account_effect env s verb argv us us'"
proof -
  note h = users_store_holds [OF assms(1,2)]
  have eq: "List.filter (\<lambda>v. ur_id v \<noteq> ur_id u) us = List.filter (\<lambda>v. v \<noteq> u) us"
    using ff.same_id [OF h assms(3)] by (intro filter_cong) simp_all
  have "ur_id u \<noteq> 0" using ff.good_law [OF h] assms(3) by (auto simp: list_all_iff clean_user_def)
  from ff.delete_law [OF h imageI [OF assms(3)] this] obtain rc d where
    "flatfile_delete_user (en_state env) (ac_disk st) (ur_id u) = (rc, d)"
    "store_holds (en_state env) d (if rc = HYBBX_OK then List.filter (\<lambda>v. v \<noteq> u) us else us)" unfolding eq by blast
  then have "drop_user env (ur_id u) st = (rc, st\<lparr>ac_disk := d\<rparr>)"
    "users_now env (st\<lparr>ac_disk := d\<rparr>) (if rc = HYBBX_OK then List.filter (\<lambda>v. v \<noteq> u) us else us)"
    using store_holds_users by (simp_all add: drop_user_def)
  moreover have "account_effect env s verb argv us (if rc = HYBBX_OK then List.filter (\<lambda>v. v \<noteq> u) us else us)"
    using account_effect.removes [OF assms(3,4)] account_effect.nothing by (cases "rc = HYBBX_OK") simp_all
  ultimately show ?thesis by blast
qed

text \<open>What each handler leaves: users that the old ones may become.\<close>

definition allowed_result :: "command_env \<Rightarrow> string \<Rightarrow> string list \<Rightarrow> account_state \<Rightarrow> user_record list \<Rightarrow> hybbx_result \<times> account_state \<Rightarrow> bool" where
  "allowed_result env verb argv st us r \<longleftrightarrow> (\<exists>us'. users_now env (snd r) us' \<and> account_effect env (ac_session st) verb argv us us')"

lemma allowed_same: "users_now env st us \<Longrightarrow> users_now env st' us \<Longrightarrow> allowed_result env verb argv st us (rc, st')"
  by (auto simp: allowed_result_def intro: account_effect.nothing)

lemma allowed_store:
  assumes "users_now env st us" and "has_room env st" and "u \<in> set us" and "ur_id u' = ur_id u" and "clean_user u'"
    and "may_change env (ac_session st) verb argv us u u'"
    and "\<And>rc st'. users_now env (snd (f rc st')) = users_now env st'"
  shows "allowed_result env verb argv st us (case store_user env u' st of (rc, st') \<Rightarrow> f rc st')"
proof -
  obtain rc d us' where s: "store_user env u' st = (rc, st\<lparr>ac_disk := d\<rparr>)" "users_now env (st\<lparr>ac_disk := d\<rparr>) us'"
    "account_effect env (ac_session st) verb argv us us'"
    using store_user_effect [OF assms(1-6)] by blast
  then show ?thesis by (auto simp: allowed_result_def assms(7))
qed

lemma allowed_drop:
  assumes "users_now env st us" and "has_room env st" and "u \<in> set us" and "may_remove env (ac_session st) verb argv us u"
    and "\<And>rc st'. users_now env (snd (f rc st')) = users_now env st'"
  shows "allowed_result env verb argv st us (case drop_user env (ur_id u) st of (rc, st') \<Rightarrow> f rc st')"
proof -
  obtain rc d us' where s: "drop_user env (ur_id u) st = (rc, st\<lparr>ac_disk := d\<rparr>)" "users_now env (st\<lparr>ac_disk := d\<rparr>) us'"
    "account_effect env (ac_session st) verb argv us us'"
    using drop_user_effect [OF assms(1-4)] by blast
  then show ?thesis by (auto simp: allowed_result_def assms(5))
qed

lemma allowed_lookup:
  assumes "users_now env st us" and "has_room env st"
    and "\<And>u. u \<in> set us \<Longrightarrow> clean_user u \<Longrightarrow> list_resolve us name = Some u \<Longrightarrow> allowed_result env verb argv st us (f u)"
  shows "allowed_result env verb argv st us
     (case cmd_lookup_user env st name of (rc, found) \<Rightarrow>
        if rc = HYBBX_ERR_NOT_FOUND then says ''Unknown user.'' HYBBX_OK st
        else if rc \<noteq> HYBBX_OK then (rc, st) else f (the found))"
proof (cases "cmd_lookup_user env st name")
  case (Pair rc found)
  show ?thesis
  proof (cases "rc = HYBBX_OK")
    case True
    with lookup_found [OF assms(1,2)] Pair obtain u where "found = Some u" "u \<in> set us" "clean_user u" "list_resolve us name = Some u" by blast
    then show ?thesis using Pair True assms(3) by simp
  next
    case False
    then show ?thesis using Pair assms(1) by (auto intro: allowed_same)
  qed
qed

lemma allowed_if:
  "(P \<Longrightarrow> allowed_result env verb argv st us a) \<Longrightarrow> (\<not> P \<Longrightarrow> allowed_result env verb argv st us b) \<Longrightarrow> allowed_result env verb argv st us (if P then a else b)"
  by simp

lemma allowed_out:
  "users_now env st us \<Longrightarrow> allowed_result env verb argv st us (rc, st)"
  "users_now env st us \<Longrightarrow> allowed_result env verb argv st us (rc, write_line t st)"
  "users_now env st us \<Longrightarrow> allowed_result env verb argv st us (rc, cmd_deny_privilege st)"
  by (simp_all add: allowed_same cmd_deny_privilege_def)

lemma allowed_out_if:
  "allowed_result env verb argv st us (rc, a) \<Longrightarrow> allowed_result env verb argv st us (rc, b) \<Longrightarrow> allowed_result env verb argv st us (rc, if P then a else b)"
  by simp

lemmas allowed_intros = allowed_if allowed_lookup allowed_out allowed_out_if

lemma may_changeI:
  "verb_is verb [''activate''] \<Longrightarrow> list_resolve us (argv ! 0) = Some u \<Longrightarrow> ur_level u = LEVEL_USER \<Longrightarrow> \<not> ur_active u \<Longrightarrow>
     hybbx_commands_registry_verb_allowed (en_registry env) (hybbx_session_user_level s) ''activate'' \<Longrightarrow>
     may_change env s verb argv us u (u\<lparr>ur_active := True\<rparr>)"
  "verb_is verb [''promote''] \<Longrightarrow> list_resolve us (argv ! 0) = Some u \<Longrightarrow> l = hybbx_user_level_parse (argv ! 1) \<Longrightarrow>
     l \<in> {LEVEL_ADMIN, LEVEL_MOD} \<Longrightarrow>
     hybbx_commands_registry_may_promote (en_registry env) (hybbx_session_user_level s) (ur_level u) (ur_active u) l \<Longrightarrow>
     may_change env s verb argv us u (u\<lparr>ur_level := l\<rparr>)"
  "verb_is verb [''demote''] \<Longrightarrow> list_resolve us (argv ! 0) = Some u \<Longrightarrow>
     hybbx_commands_registry_may_demote (en_registry env) (hybbx_session_user_level s) (ur_level u) \<Longrightarrow>
     \<not> str_ieq (ur_username u) (hybbx_session_username s) \<Longrightarrow> may_change env s verb argv us u (u\<lparr>ur_level := LEVEL_USER\<rparr>)"
  "verb_is verb [''changeme''] \<Longrightarrow> hybbx_user_profile_valid new \<Longrightarrow> hybbx_password_plain_valid (argv ! 1) \<Longrightarrow>
     ur_id u = sr_user_id (us_record s) \<Longrightarrow> \<not> hybbx_session_is_guest s \<Longrightarrow>
     hybbx_password_match (en_sha256_hex env) (en_md5_buffer env) (ur_password u) (argv ! 0) \<Longrightarrow>
     may_change env s verb argv us u (with_profile new u\<lparr>ur_password := PASSWORD_SHA256_PREFIX @ en_sha256_hex env (argv ! 1)\<rparr>)"
  "verb_is verb [''changeuser'', ''userchange''] \<Longrightarrow> hybbx_user_profile_valid new \<Longrightarrow> hybbx_password_plain_valid (argv ! 1) \<Longrightarrow>
     str_ieq (ur_username u) (hybbx_username_normalize (str_store USER_NAME_MAX (argv ! 0))) \<Longrightarrow>
     hybbx_user_level_is_sysop_or_admin (hybbx_session_user_level s) \<Longrightarrow> ur_level u \<noteq> LEVEL_SYSOP \<Longrightarrow>
     hybbx_commands_registry_may_userchange (en_registry env) (hybbx_session_user_level s) (ur_level u) \<Longrightarrow>
     \<not> str_ieq (ur_username u) (hybbx_session_username s) \<Longrightarrow>
     may_change env s verb argv us u (with_profile new u\<lparr>ur_password := PASSWORD_SHA256_PREFIX @ en_sha256_hex env (argv ! 1)\<rparr>)"
  "verb_is verb [''login''] \<Longrightarrow> str_ieq (ur_username u) (hybbx_username_normalize (str_store USER_NAME_MAX (argv ! 0))) \<Longrightarrow>
     ur_active u \<Longrightarrow> hybbx_password_match (en_sha256_hex env) (en_md5_buffer env) (ur_password u) (argv ! 1) \<Longrightarrow>
     may_change env s verb argv us u (u\<lparr>ur_last_login_at := en_now env\<rparr>)"
  unfolding may_change_def Let_def by blast+

lemma activate_allowed:
  assumes "users_now env st us" and "has_room env st" and v: "verb_is verb [''activate'']"
  shows "allowed_result env verb argv st us (cmd_activate env argv st)"
  unfolding cmd_activate_def Let_def
proof (intro allowed_intros assms(1,2), goal_cases)
  case (1 u)
  then show ?case using v by (intro allowed_store [OF assms(1,2) 1(3)] may_changeI(1)) (auto simp: clean_user_def split: if_splits)
qed

lemma promote_allowed:
  assumes "users_now env st us" and "has_room env st" and v: "verb_is verb [''promote'']"
  shows "allowed_result env verb argv st us (cmd_promote env argv st)"
  unfolding cmd_promote_def Let_def
proof (intro allowed_intros assms(1,2), goal_cases)
  case (1 u)
  let ?l = "hybbx_user_level_parse (argv ! 1)"
  have "may_change env (ac_session st) verb argv us u (u\<lparr>ur_level := ?l\<rparr>)" using 1 v by (intro may_changeI(2)) auto
  then show ?case using 1 by (intro allowed_store [OF assms(1,2) 1(3)]) (auto simp: clean_user_def)
qed

lemma demote_allowed:
  assumes "users_now env st us" and "has_room env st" and v: "verb_is verb [''demote'']"
  shows "allowed_result env verb argv st us (cmd_demote env argv st)"
  unfolding cmd_demote_def Let_def
proof (intro allowed_intros assms(1,2), goal_cases)
  case (1 u)
  then show ?case using v by (intro allowed_store [OF assms(1,2) 1(2)] may_changeI(3)) (auto simp: clean_user_def split: if_splits)
qed

lemma delete_allowed:
  assumes "users_now env st us" and "has_room env st" and v: "verb_is verb [''delete'', ''del'']"
  shows "allowed_result env verb argv st us (cmd_delete env argv st)"
  unfolding cmd_delete_def Let_def
proof (intro allowed_intros assms(1,2), goal_cases)
  case (1 u)
  then show ?case using v by (intro allowed_drop [OF assms(1,2) 1(2)]) (auto split: if_splits simp: may_remove_def Let_def hybbx_user_level_is_sysop_def)
qed

lemma userdelete_allowed:
  assumes "users_now env st us" and "has_room env st" and v: "verb_is verb [''deleteuser'', ''userdelete'']"
  shows "allowed_result env verb argv st us (cmd_userdelete env argv st)"
  unfolding cmd_userdelete_def Let_def
proof (intro allowed_intros assms(1,2), goal_cases)
  case (1 u)
  then show ?case using v by (intro allowed_drop [OF assms(1,2) 1(3)]) (auto split: if_splits simp: may_remove_def Let_def hybbx_user_level_is_sysop_def)
qed

lemma drop_absent:
  assumes "users_now env st us" and "uid \<notin> ur_id ` set us" and "uid \<noteq> 0"
  shows "drop_user env uid st = (HYBBX_ERR_NOT_FOUND, st)"
proof -
  obtain uss n where us: "us = concat uss" "stored (en_state env) (ac_disk st) uss n"
    using assms(1) by (auto simp: users_now_def holds_def)
  have "find_slot (\<lambda>us. list_ex (\<lambda>u. ur_id u = uid) us) uss = None"
    using assms(2) us(1) by (auto simp: find_slot_None_iff list_ex_iff)
  then have "flatfile_delete_user (en_state env) (ac_disk st) uid = (HYBBX_ERR_NOT_FOUND, ac_disk st)"
    using find_shard_stored [OF us(2) assms(3)] assms(3) by (simp add: flatfile_delete_user_def)
  then show ?thesis by (simp add: drop_user_def)
qed

lemma deleteme_allowed:
  assumes "users_now env st us" and "has_room env st" and v: "verb_is verb [''deleteme'']"
  shows "allowed_result env verb argv st us (cmd_deleteme env argv st)"
  unfolding cmd_deleteme_def Let_def
proof (intro allowed_intros assms(1,2), goal_cases)
  case 1
  let ?uid = "sr_user_id (us_record (ac_session st))"
  show ?case
  proof (cases "?uid \<in> ur_id ` set us")
    case False
    have "drop_user env ?uid st = (HYBBX_ERR_NOT_FOUND, st)" using drop_absent [OF assms(1) False] 1 by simp
    then show ?thesis using assms(1) by (simp add: allowed_out)
  next
    case True
    then obtain u where u: "u \<in> set us" "?uid = ur_id u" by auto
    have "may_remove env (ac_session st) verb argv us u" using u(2) 1 v
      by (auto simp: may_remove_def Let_def hybbx_user_level_is_sysop_def cmd_deleteme_confirmed_def split: if_splits)
    then show ?thesis unfolding u(2) using u(1) by (intro allowed_drop [OF assms(1,2)]) auto
  qed
qed

lemma holds_fresh: "holds state d us n k \<Longrightarrow> n + 1 \<notin> ur_id ` set us"
  using storedD(9) by (fastforce simp: holds_def)

lemma register_user_allowed:
  assumes "users_now env st us" and "has_room env st" and "sound_env env" and "plain_words argv"
    and v: "verb_is verb [''register'', ''usercreate'', ''createuser'']"
  shows "allowed_result env verb argv st us (cmd_register_user staff env argv st)"
proof (cases "parse_registration argv (\<not> staff)")
  case None
  then show ?thesis using assms(1) by (auto simp: cmd_register_user_def intro: allowed_out)
next
  case (Some reg)
  obtain n k where h: "holds (en_state env) (ac_disk st) us n k" using assms(1) by (auto simp: users_now_def)
  have k: "k < 9998" "n + 1 < 2 ^ 64"
    using assms(2) holds_last [OF h] holds_counter [OF h] by (simp_all add: has_room_def)
  obtain rc d out where r: "flatfile_register_user (en_sha256_hex env) (en_guest_prefix env) (en_state env) (ac_disk st) reg (en_now env) = (rc, d, out)"
    by (metis prod_cases3)
  have key: "\<exists>us'. users_now env (st\<lparr>ac_disk := d\<rparr>) us' \<and> account_effect env (ac_session st) verb argv us us'"
    if pw: "staff \<or> hybbx_password_plain_valid (rg_password reg)"
  proof (cases "hybbx_registration_valid reg (en_guest_prefix env)")
    case False
    then have "d = ac_disk st" using r by (simp add: flatfile_register_user_def)
    then show ?thesis using assms(1) account_effect.nothing by auto
  next
    case True
    have prof: "hybbx_user_profile_valid reg" using True by (simp add: hybbx_registration_valid_def)
    obtain reg0 where p: "parse_profile_fields argv 1 (if staff then 0 else 1) reg0 = Some reg" "staff \<longrightarrow> rg_password reg0 = []"
      using Some by (auto simp: parse_registration_def reg_zero_def split: if_splits)
    note tidy = parse_profile_tidy [OF p(1) assms(4) prof]
    have pw': "rg_password reg = [] \<or> hybbx_password_plain_valid (rg_password reg)" using tidy p(2) pw by auto
    have sha: "\<And>p. hex_digest (en_sha256_hex env p)" and now: "0 \<le> en_now env" "en_now env < 2 ^ 63"
      using assms(3) by (simp_all add: sound_env_def)
    note R = register_holds [where sha = "en_sha256_hex env", OF h k True conjunct1 [OF tidy] pw' sha now]
    show ?thesis
    proof (cases "list_ex (same_identity (rg_username reg) (rg_nickname reg)) us")
      case True
      then have "d = ac_disk st" using R r by simp
      then show ?thesis using assms(1) account_effect.nothing by auto
    next
      case False
      then obtain n' k' where "holds (en_state env) d (if rc = HYBBX_OK then us @ [new_user (en_sha256_hex env) n reg (en_now env)] else us) n' k'"
        using R r by auto
      moreover have "account_effect env (ac_session st) verb argv us (us @ [new_user (en_sha256_hex env) n reg (en_now env)])"
        using v holds_fresh [OF h] by (intro account_effect.registers) (simp_all add: new_user_def registered_record_def)
      ultimately show ?thesis
        by (cases "rc = HYBBX_OK") (auto simp: users_now_def intro: account_effect.nothing)
    qed
  qed
  have staff_mail: "users_now env (s\<lparr>ac_staff_mails := m\<rparr>) = users_now env s" for s m by (simp add: users_now_def [abs_def])
  show ?thesis
    using key assms(1)
    by (auto simp: cmd_register_user_def Some r Let_def allowed_result_def staff_mail intro: account_effect.nothing)
qed

lemma find_handler:
  assumes "users_now env st us" and "has_room env st"
    and "\<And>u. u \<in> set us \<Longrightarrow> clean_user u \<Longrightarrow> str_ieq (ur_username u) name \<Longrightarrow> allowed_result env verb argv st us (f u)"
  shows "allowed_result env verb argv st us
     (case flatfile_find_user (en_state env) (ac_disk st) name of (rc, found) \<Rightarrow>
        if rc = HYBBX_ERR_NOT_FOUND then says text HYBBX_OK st
        else if rc \<noteq> HYBBX_OK then (rc, st) else f (the found))"
proof (cases "flatfile_find_user (en_state env) (ac_disk st) name")
  case (Pair rc found)
  show ?thesis
  proof (cases "rc = HYBBX_OK")
    case True
    with find_found [OF assms(1,2)] Pair obtain u where "found = Some u" "u \<in> set us" "clean_user u" "str_ieq (ur_username u) name" by blast
    then show ?thesis using Pair True assms(3) by simp
  next
    case False
    then show ?thesis using Pair assms(1) by (auto intro: allowed_out)
  qed
qed

lemma changeme_allowed:
  assumes "users_now env st us" and "has_room env st" and "sound_env env" and "plain_words argv" and v: "verb_is verb [''changeme'']"
  shows "allowed_result env verb argv st us (cmd_changeme env argv st)"
proof (cases "parse_changeme argv (hybbx_session_username (ac_session st))")
  case None
  then show ?thesis using assms(1) by (auto simp: cmd_changeme_def Let_def intro: allowed_out)
next
  case (Some r)
  obtain reg old new where r: "r = (reg, old, new)" by (cases r)
  obtain reg0 where p: "parse_profile_fields argv 2 0 reg0 = Some reg" and w: "old = argv ! 0" "new = argv ! 1"
    using Some r by (auto simp: parse_changeme_def split: if_splits)
  have sha: "\<And>p. hex_digest (en_sha256_hex env p)" using assms(3) by (simp add: sound_env_def)
  note hash = hash_clean(1) [of "en_sha256_hex env", OF sha]
  show ?thesis
    unfolding cmd_changeme_def Let_def Some r option.case prod.case hash
  proof (intro allowed_intros find_handler assms(1-4), goal_cases)
    case (1 u)
    note tidy = parse_profile_tidy [OF p assms(4)]
    have "clean_user (with_profile reg u\<lparr>ur_password := PASSWORD_SHA256_PREFIX @ en_sha256_hex env new\<rparr>)"
      using 1 tidy by (intro changed_record_clean sha) auto
    moreover have "may_change env (ac_session st) verb argv us u (with_profile reg u\<lparr>ur_password := PASSWORD_SHA256_PREFIX @ en_sha256_hex env new\<rparr>)"
      using 1 v w unfolding w(2) by (intro may_changeI(4)) auto
    ultimately show ?case using 1
      by (simp only: option.sel prod.case simp_thms if_False refl)
        (intro allowed_store [OF assms(1,2) 1(5)], simp_all add: with_profile_def)
  qed
qed

lemma userchange_allowed:
  assumes "users_now env st us" and "has_room env st" and "sound_env env" and "plain_words argv"
    and v: "verb_is verb [''changeuser'', ''userchange'']"
  shows "allowed_result env verb argv st us (cmd_userchange env argv st)"
proof (cases "parse_userchange argv")
  case None
  then show ?thesis using assms(1) by (auto simp: cmd_userchange_def Let_def intro: allowed_out)
next
  case (Some r)
  obtain reg new where r: "r = (reg, new)" by (cases r)
  obtain reg0 where p: "parse_profile_fields argv 2 0 reg0 = Some reg" and w: "new = argv ! 1"
    and n: "rg_username reg0 = hybbx_username_normalize (str_store USER_NAME_MAX (argv ! 0))"
    using Some r by (auto simp: parse_userchange_def split: if_splits)
  have sha: "\<And>p. hex_digest (en_sha256_hex env p)" using assms(3) by (simp add: sound_env_def)
  note hash = hash_clean(1) [of "en_sha256_hex env", OF sha]
  show ?thesis
    unfolding cmd_userchange_def Let_def Some r option.case prod.case hash
  proof (intro allowed_intros find_handler assms(1-4), goal_cases)
    case (1 u)
    note tidy = parse_profile_tidy [OF p assms(4)]
    have "clean_user (with_profile reg u\<lparr>ur_password := PASSWORD_SHA256_PREFIX @ en_sha256_hex env new\<rparr>)"
      using 1 tidy by (intro changed_record_clean sha) auto
    moreover have "may_change env (ac_session st) verb argv us u (with_profile reg u\<lparr>ur_password := PASSWORD_SHA256_PREFIX @ en_sha256_hex env new\<rparr>)"
      using 1 v w n tidy unfolding w by (intro may_changeI(5)) (auto simp: hybbx_user_level_is_sysop_def)
    ultimately show ?case using 1
      by (simp only: option.sel prod.case simp_thms if_False refl)
        (intro allowed_store [OF assms(1,2) 1(5)], simp_all add: with_profile_def)
  qed
qed

text \<open>The session log shares no file with the users.\<close>

lemma put_same_store:
  assumes "paths_ok state" and "path = ff_sessions_path state \<or> path = ff_session_next_path state"
  shows "same_store state d (fs_put path body d)" and "same_store state d (fs_append path body d)"
  using assms path_facts(5,6) [OF assms(1)] by (auto simp: same_store_def paths_ok_def fs_append_def)

lemma session_log_same_store:
  assumes "paths_ok state"
  shows "same_store state d (snd (flatfile_session_end state d sid now))"
    and "same_store state d (fst (snd (flatfile_session_begin state d u tr now)))"
proof -
  have a: "same_store state d (snd (append_line d (ff_sessions_path state) l))" for d l
    using put_same_store [OF assms] by (simp add: append_line_def)
  then show "same_store state d (snd (flatfile_session_end state d sid now))" by (simp add: flatfile_session_end_def)
  have b: "same_store state d (snd (snd (bump_counter d (ff_session_next_path state))))"
    using put_same_store [OF assms] by (auto simp: bump_counter_def write_counter_def Let_def split: prod.split)
  show "same_store state d (fst (snd (flatfile_session_begin state d u tr now)))"
  proof (cases "bump_counter d (ff_session_next_path state)")
    case (fields rc n d1)
    then have 1: "same_store state d d1" using b by simp
    have "same_store state d (snd (append_line d1 (ff_sessions_path state) l))" for l
      by (rule same_store_trans [OF 1 a])
    then show ?thesis using fields 1 by (simp add: flatfile_session_begin_def Let_def split_def)
  qed
qed

lemma switch_user_effect:
  assumes "users_now env st us"
  shows "users_now env (snd (hybbx_session_switch_user env u st)) us
    \<and> (ac_login_fails (snd (hybbx_session_switch_user env u st)) = ac_login_fails st)
    \<and> same_store (en_state env) (ac_disk st) (ac_disk (snd (hybbx_session_switch_user env u st)))
    \<and> (fst (hybbx_session_switch_user env u st) = HYBBX_OK \<longrightarrow>
        (let s = ac_session (snd (hybbx_session_switch_user env u st)) in
         us_user s = u \<and> us_logged_in s \<and> \<not> us_login_prompt s \<and> sr_remote (us_record s) = [] \<and> sr_user_id (us_record s) = ur_id u))
    \<and> (fst (hybbx_session_switch_user env u st) \<noteq> HYBBX_OK \<longrightarrow>
        ac_session (snd (hybbx_session_switch_user env u st)) \<in> {ac_session st, (ac_session st)\<lparr>us_guest_slot := 0\<rparr>})"
proof -
  obtain n k where h: "holds (en_state env) (ac_disk st) us n k" using assms by (auto simp: users_now_def)
  then have P: "paths_ok (en_state env)" using storedD(1) by (auto simp: holds_def)
  have same: "same_store (en_state env) (ac_disk st) d \<Longrightarrow> users_now env (st'\<lparr>ac_disk := d\<rparr>) us" for d st'
    using h same_store_stored unfolding users_now_def holds_def by auto
  let ?state = "en_state env"
  have end_same: "same_store ?state d (if b then snd (flatfile_session_end ?state d sid now) else d)" for d b sid now
    using session_log_same_store(1) [OF P] by simp
  have began: "flatfile_session_begin ?state d v tr now = (rc, d', out) \<Longrightarrow>
     same_store ?state d d' \<and> (rc = HYBBX_OK \<longrightarrow> out \<noteq> None \<and> sr_remote (the out) = [] \<and> sr_user_id (the out) = ur_id v)"
    for d v tr now rc d' out
    using session_log_same_store(2) [OF P, of d v tr now]
    by (auto simp: flatfile_session_begin_def Let_def split: prod.splits if_splits)
  define st1 where "st1 = (if us_guest_slot (ac_session st) \<noteq> 0
     then st\<lparr>ac_released_slots := ac_released_slots st @ [us_guest_slot (ac_session st)], ac_session := (ac_session st)\<lparr>us_guest_slot := 0\<rparr>\<rparr>
     else st)"
  define tn where "tn = (if sr_transport (us_record (ac_session st1)) = [] then en_transport_name env else sr_transport (us_record (ac_session st1)))"
  define d1 where "d1 = (if sr_session_id (us_record (ac_session st1)) \<noteq> 0
     then snd (flatfile_session_end ?state (ac_disk st1) (sr_session_id (us_record (ac_session st1))) (en_now env)) else ac_disk st1)"
  obtain rc d2 out where beg: "flatfile_session_begin ?state d1 u tn (en_now env) = (rc, d2, out)" by (metis prod_cases3)
  have sw: "hybbx_session_switch_user env u st =
     (if hybbx_user_level_is_guest (ur_level u) then (HYBBX_ERR_INVALID, st)
      else if tn = [] then (HYBBX_ERR_INVALID, st1)
      else if rc \<noteq> HYBBX_OK then (rc, st1\<lparr>ac_disk := d2\<rparr>)
      else (HYBBX_OK, st1\<lparr>ac_disk := d2, ac_session := (ac_session st1)\<lparr>us_user := u, us_record := the out,
                us_logged_in := True, us_login_prompt := False\<rparr>\<rparr>))"
    unfolding hybbx_session_switch_user_def Let_def st1_def [symmetric] tn_def [symmetric] d1_def [symmetric] beg prod.case ..
  have 1: "ac_disk st1 = ac_disk st" "ac_login_fails st1 = ac_login_fails st" "users_now env st1 us"
    "ac_session st1 \<in> {ac_session st, (ac_session st)\<lparr>us_guest_slot := 0\<rparr>}"
    using assms by (simp_all add: st1_def users_now_def)
  have 2: "same_store ?state (ac_disk st) d2"
    using began [OF beg] end_same [of "ac_disk st1"] same_store_trans unfolding d1_def 1(1) by blast
  have 3: "users_now env (st1\<lparr>ac_disk := d2, ac_session := s\<rparr>) us" for s using same [OF 2] by (simp add: users_now_def)
  show ?thesis
    unfolding sw using began [OF beg] 1 2 3 same [OF 2] assms by (auto simp: Let_def)
qed

lemma same_store_room:
  assumes "users_now env st us" and "same_store (en_state env) (ac_disk st) (ac_disk st')" and "has_room env st"
  shows "has_room env st'"
proof -
  obtain n k where h: "holds (en_state env) (ac_disk st) us n k" using assms(1) by (auto simp: users_now_def)
  then have "holds (en_state env) (ac_disk st') us n k" using same_store_stored [OF assms(2)] by (simp add: holds_def)
  then show ?thesis
    using assms(3) holds_last holds_counter h by (simp add: has_room_def)
qed

lemma login_allowed:
  assumes "users_now env st us" and "has_room env st" and "sound_env env" and v: "verb_is verb [''login'']"
  shows "allowed_result env verb argv st us (cmd_login env argv st)"
  unfolding cmd_login_def Let_def
proof (intro allowed_intros find_handler assms(1,2), goal_cases)
  case (1 u)
  then show ?case using assms(1) by (auto simp: allowed_result_def users_now_def intro: account_effect.nothing)
next
  case (2 u)
  obtain rc st2 where sw: "hybbx_session_switch_user env u st = (rc, st2)" by (cases "hybbx_session_switch_user env u st")
  note e = switch_user_effect [OF assms(1), of u, unfolded sw]
  have now: "users_now env st2 us" and room: "has_room env st2"
    using e same_store_room [OF assms(1) _ assms(2)] by simp_all
  let ?st3 = "write_lines (en_login_texts env (ur_last_login_at u)) st2"
  have clean: "clean_user (u\<lparr>ur_last_login_at := en_now env\<rparr>)"
    using 2 assms(3) by (simp add: clean_user_def sound_env_def)
  have r3: "users_now env ?st3 us" "has_room env ?st3" using now room by (simp_all add: has_room_def)
  have "may_change env (ac_session st) verb argv us u (u\<lparr>ur_last_login_at := en_now env\<rparr>)" using 2 v by (intro may_changeI(6)) (auto split: if_splits)
  from store_user_effect [OF r3 _ _ clean this] 2 obtain rc' d us' where
    "store_user env (u\<lparr>ur_last_login_at := en_now env\<rparr>) ?st3 = (rc', ?st3\<lparr>ac_disk := d\<rparr>)"
    "users_now env (?st3\<lparr>ac_disk := d\<rparr>) us'" "account_effect env (ac_session st) verb argv us us'" by auto
  then show ?case using now sw by (auto simp: allowed_result_def intro: account_effect.nothing)
qed

text \<open>The dispatcher, when what it does not model leaves the users alone.\<close>

definition leaves_users :: "(string \<Rightarrow> handler option) \<Rightarrow> bool" where
  "leaves_users others \<longleftrightarrow>
     (\<forall>verb h env argv st us. others verb = Some h \<longrightarrow> users_now env st us \<longrightarrow> users_now env (snd (h env argv st)) us)"

lemma topic_same: "users_now env st us \<Longrightarrow> users_now env (snd (cmd_help_topic env topic st)) us"
  by (simp add: cmd_help_topic_def Let_def split: option.split)

lemma listing_same:
  "users_now env st us \<Longrightarrow> users_now env (snd (cmd_help env argv st)) us"
  "users_now env st us \<Longrightarrow> users_now env (snd (cmd_menu env argv st)) us"
  "users_now env st us \<Longrightarrow> users_now env (snd (cmd_index env argv st)) us"
  "users_now env st us \<Longrightarrow> users_now env (snd (cmd_alias env argv st)) us"
  "users_now env st us \<Longrightarrow> users_now env (snd (cmd_users env argv st)) us"
  "users_now env st us \<Longrightarrow> users_now env (snd (cmd_session env argv st)) us"
  "users_now env st us \<Longrightarrow> users_now env (snd (cmd_echo env argv st)) us"
  using topic_same
  by (auto simp: cmd_help_def cmd_menu_def cmd_index_def cmd_alias_def cmd_users_def cmd_session_def cmd_echo_def
      hybbx_session_set_input_echo_def Let_def users_now_def write_line_def split: prod.split)

lemma allowed_sameI: "users_now env (snd r) us \<Longrightarrow> allowed_result env verb argv st us r"
  by (auto simp: allowed_result_def intro: account_effect.nothing)

lemma dispatch_verb_allowed:
  assumes "users_now env st us" and "has_room env st" and "sound_env env" and "plain_words argv" and "leaves_users others"
  shows "allowed_result env verb argv st us (dispatch_verb others verb env argv st)"
  unfolding dispatch_verb_def cmd_register_def cmd_createuser_def
  by (intro allowed_if allowed_sameI [OF listing_same(2) [OF assms(1)]] allowed_sameI [OF listing_same(3) [OF assms(1)]]
      allowed_sameI [OF listing_same(4) [OF assms(1)]] allowed_sameI [OF listing_same(5) [OF assms(1)]]
      allowed_sameI [OF listing_same(6) [OF assms(1)]] allowed_sameI [OF listing_same(7) [OF assms(1)]]
      login_allowed [OF assms(1-3)] register_user_allowed [OF assms(1-4)] changeme_allowed [OF assms(1-4)]
      userchange_allowed [OF assms(1-4)] userdelete_allowed [OF assms(1,2)] activate_allowed [OF assms(1,2)]
      promote_allowed [OF assms(1,2)] demote_allowed [OF assms(1,2)] delete_allowed [OF assms(1,2)]
      deleteme_allowed [OF assms(1,2)] allowed_out(2) [OF assms(1)])
    (use assms(1,5) in \<open>auto simp: leaves_users_def verb_is_def intro!: allowed_sameI split: option.split\<close>)

text \<open>That a session may use a verb at all: as a level, or at the login prompt.\<close>

definition may_use :: "command_env \<Rightarrow> user_session \<Rightarrow> string \<Rightarrow> bool" where
  "may_use env s verb \<longleftrightarrow>
     (if \<not> us_logged_in s \<and> us_login_prompt s then cmd_verb_allowed_login_prompt (en_registry env) verb
      else hybbx_commands_registry_verb_allowed (en_registry env) (hybbx_session_user_level s) verb)"

lemma dispatch_allowed:
  assumes "users_now env st us" and "has_room env st" and "sound_env env" and "plain_words argv" and "leaves_users others"
    and "hybbx_command_dispatch others scope verb env argv st = (rc, st')"
  shows "\<exists>us'. users_now env st' us' \<and> account_effect env (ac_session st) verb argv us us'
     \<and> (us' \<noteq> us \<longrightarrow> scope = CMD_SCOPE_HYBBX \<and> may_use env (ac_session st) verb)"
proof -
  let ?st = "write_line [] st"
  have 1: "users_now env ?st us" "has_room env ?st" using assms(1,2) by (simp_all add: has_room_def)
  have s: "ac_session ?st = ac_session st" by simp
  obtain a st2 where acc: "cmd_check_access env verb ?st = (a, st2)" by (cases "cmd_check_access env verb ?st")
  have ok: "a = HYBBX_OK \<Longrightarrow> st2 = ?st \<and> may_use env (ac_session st) verb" and now: "users_now env st2 us"
    using acc 1(1) by (auto simp: cmd_check_access_def may_use_def Let_def split: if_splits)
  have same: "users_now env st' us \<Longrightarrow> ?thesis" by (auto intro: account_effect.nothing)
  consider "scope \<noteq> CMD_SCOPE_HYBBX" | "scope = CMD_SCOPE_HYBBX" "verb = [] \<or> verb_is verb [''help'', ''?'']"
    | "scope = CMD_SCOPE_HYBBX" "verb \<noteq> []" "\<not> verb_is verb [''help'', ''?'']" by blast
  then show ?thesis
  proof cases
    case 1
    then show ?thesis using assms(1,6) same by (simp add: hybbx_command_dispatch_def)
  next
    case 2
    then show ?thesis using assms(6) same listing_same(1) [OF 1(1), of argv] by (simp add: hybbx_command_dispatch_def)
  next
    case 3
    show ?thesis
    proof (cases "a = HYBBX_OK")
      case True
      then have "dispatch_verb others verb env argv ?st = (rc, st')"
        using 3 assms(6) acc ok by (simp add: hybbx_command_dispatch_def)
      then show ?thesis
        using dispatch_verb_allowed [OF 1 assms(3-5), of verb] ok [OF True] 3(1) by (auto simp: allowed_result_def)
    next
      case False
      then have "st' = st2" using 3 assms(6) acc by (simp add: hybbx_command_dispatch_def)
      then show ?thesis using now same by simp
    qed
  qed
qed

section \<open>What follows from the policy\<close>

definition session_sound :: "user_session \<Rightarrow> user_record list \<Rightarrow> bool" where
  "session_sound s us \<longleftrightarrow>
     (\<forall>u \<in> set us. ur_id u = sr_user_id (us_record s) \<and> ur_level u = LEVEL_SYSOP \<longrightarrow> hybbx_session_user_level s = LEVEL_SYSOP)"

lemma with_profile_simps [simp]:
  "ur_id (with_profile reg u) = ur_id u" "ur_level (with_profile reg u) = ur_level u" "ur_active (with_profile reg u) = ur_active u"
  "ur_username (with_profile reg u) = ur_username u" "ur_nickname (with_profile reg u) = ur_nickname u"
  "ur_password (with_profile reg u) = ur_password u"
  by (simp_all add: with_profile_def)

lemma may_change_id: "may_change env s verb argv us u u' \<Longrightarrow> ur_id u' = ur_id u \<and> ur_username u' = ur_username u \<and> ur_nickname u' = ur_nickname u"
  unfolding may_change_def Let_def by auto

lemma may_change_level:
  "may_change env s verb argv us u u' \<Longrightarrow> ur_level u' \<noteq> ur_level u \<Longrightarrow>
     (ur_level u' \<in> {LEVEL_ADMIN, LEVEL_MOD}
        \<and> hybbx_commands_registry_may_promote (en_registry env) (hybbx_session_user_level s) (ur_level u) (ur_active u) (ur_level u'))
     \<or> (ur_level u' = LEVEL_USER \<and> hybbx_commands_registry_may_demote (en_registry env) (hybbx_session_user_level s) (ur_level u))"
  unfolding may_change_def Let_def by auto

lemma may_change_sysop:
  assumes "may_change env s verb argv us u u'" and "ur_level u = LEVEL_SYSOP"
    and "\<not> hybbx_commands_registry_may_demote (en_registry env) (hybbx_session_user_level s) LEVEL_SYSOP"
  shows "ur_level u' = LEVEL_SYSOP \<and> (ur_active u \<longrightarrow> ur_active u')
     \<and> (ur_id u \<noteq> sr_user_id (us_record s) \<longrightarrow> ur_password u' = ur_password u)"
  using assms unfolding may_change_def Let_def
  by (auto simp: hybbx_commands_registry_may_promote_def)

lemma may_remove_not_sysop:
  assumes "may_remove env s verb argv us u" and "u \<in> set us" and "session_sound s us"
  shows "ur_level u \<noteq> LEVEL_SYSOP"
  using assms by (auto simp: may_remove_def Let_def session_sound_def hybbx_commands_registry_may_userdelete_def hybbx_user_level_is_sysop_def)

lemma effect_keeps_sysop:
  assumes "account_effect env s verb argv us us'" and "session_sound s us"
    and "\<not> hybbx_commands_registry_may_demote (en_registry env) (hybbx_session_user_level s) LEVEL_SYSOP"
    and "v \<in> set us" and "ur_level v = LEVEL_SYSOP"
  shows "\<exists>v' \<in> set us'. ur_id v' = ur_id v \<and> ur_username v' = ur_username v \<and> ur_level v' = LEVEL_SYSOP \<and> (ur_active v \<longrightarrow> ur_active v')
     \<and> (ur_id v \<noteq> sr_user_id (us_record s) \<longrightarrow> ur_password v' = ur_password v)"
  using assms(1,2,4)
proof (cases rule: account_effect.cases)
  case (changes u u')
  show ?thesis
  proof (cases "v = u")
    case True
    then have "u' \<in> set us'" using changes by (auto simp: replace_user_def)
    then show ?thesis using may_change_sysop [OF changes(3) _ assms(3)] may_change_id [OF changes(3)] True assms(5) by blast
  next
    case False
    then have "v \<in> set us'" using changes(1) assms(4) by (force simp: replace_user_def)
    then show ?thesis using assms(5) by blast
  qed
next
  case (removes u)
  then have "v \<noteq> u" using may_remove_not_sysop assms(2,5) by blast
  then show ?thesis using removes(1) assms(4,5) by (intro bexI [of _ v]) auto
qed (use assms(4,5) in auto)

lemma effect_levels:
  assumes "account_effect env s verb argv us us'" and "v' \<in> set us'" and "distinct (map ur_id us)"
  shows "(\<exists>v \<in> set us. ur_id v = ur_id v' \<and> (ur_level v' = ur_level v
        \<or> (ur_level v' \<in> {LEVEL_ADMIN, LEVEL_MOD}
            \<and> hybbx_commands_registry_may_promote (en_registry env) (hybbx_session_user_level s) (ur_level v) (ur_active v) (ur_level v'))
        \<or> (ur_level v' = LEVEL_USER \<and> hybbx_commands_registry_may_demote (en_registry env) (hybbx_session_user_level s) (ur_level v))))
     \<or> (ur_id v' \<notin> ur_id ` set us \<and> ur_level v' = LEVEL_USER \<and> \<not> ur_active v')"
  using assms(1,2)
proof (cases rule: account_effect.cases)
  case (changes u u')
  show ?thesis
  proof (cases "v' \<in> set us")
    case False
    then have "v' = u'" using changes(1) assms(2) by (auto simp: replace_user_def split: if_splits)
    then show ?thesis using may_change_level [OF changes(3)] may_change_id [OF changes(3)] changes(2) by metis
  qed blast
qed auto

lemma session_begin_remote:
  "flatfile_session_begin state d u tr now = (HYBBX_OK, d', out) \<Longrightarrow> sr_remote (the out) = []"
  by (auto simp: flatfile_session_begin_def Let_def split: prod.splits if_splits)

lemma switch_user_remote:
  "hybbx_session_switch_user env u st = (rc, st') \<Longrightarrow>
   ac_login_fails st' = ac_login_fails st
   \<and> (if rc = HYBBX_OK then sr_remote (us_record (ac_session st')) = []
      else sr_remote (us_record (ac_session st')) = sr_remote (us_record (ac_session st)))"
  by (auto simp: hybbx_session_switch_user_def Let_def dest: session_begin_remote split: prod.splits if_splits)

definition login_attempts :: "(command_env \<times> string list) list \<Rightarrow> account_state \<Rightarrow> account_state" where
  "login_attempts attempts st = foldl (\<lambda>st a. snd (cmd_login (fst a) (snd a) st)) st attempts"

lemma store_user_keeps [simp]:
  "ac_login_fails (snd (store_user env u st)) = ac_login_fails st" "ac_session (snd (store_user env u st)) = ac_session st"
  by (simp_all add: store_user_def split: prod.split)

lemma write_keeps [simp]:
  "ac_login_fails (write_line t st) = ac_login_fails st" "ac_login_fails (write_lines ts st) = ac_login_fails st"
  by (simp_all add: write_line_def write_lines_def)

lemma login_silent:
  assumes "sr_remote (us_record (ac_session st)) = []"
  shows "ac_login_fails (snd (cmd_login env argv st)) = ac_login_fails st
     \<and> sr_remote (us_record (ac_session (snd (cmd_login env argv st)))) = []"
  using assms by (auto simp: cmd_login_def Let_def dest: switch_user_remote split: prod.split if_splits)

lemma attempts_silent:
  "sr_remote (us_record (ac_session st)) = [] \<Longrightarrow> ac_login_fails (login_attempts attempts st) = ac_login_fails st"
  unfolding login_attempts_def
proof (induction attempts arbitrary: st)
  case (Cons a attempts)
  note s = login_silent [OF Cons.prems, of "fst a" "snd a"]
  show ?case using Cons.IH [OF s [THEN conjunct2]] s by simp
qed simp

text \<open>The fold over the four levels: the percents rounded down, their sum, and the first largest remainder.\<close>

lemma percents_fold:
  fixes counts :: "nat list" and num :: nat
  defines "q l \<equiv> counts ! l * 1000 mod 2 ^ 64 div num"
  shows "\<exists>m a. foldl (percents_step counts num) (replicate 6 0, 0, 0, 1) [1, 2, 3, 4]
       = ([0, q 1 div 10, q 2 div 10, q 3 div 10, q 4 div 10, 0], q 1 div 10 + q 2 div 10 + q 3 div 10 + q 4 div 10, m, a)
     \<and> a \<in> {1, 2, 3, 4} \<and> (\<forall>l \<in> {1, 2, 3, 4}. q l mod 10 \<le> q a mod 10 \<and> (l < a \<longrightarrow> q l mod 10 < q a mod 10))"
proof -
  define p r where "p l = q l div 10" and "r l = q l mod 10" for l
  have step: "percents_step counts num (ps, s, m, a) l = (ps[l := p l], s + p l, if r l > m then r l else m, if r l > m then l else a)" for ps s m a l
    by (simp only: percents_step_def prod.case Let_def q_def p_def r_def)
  have z: "replicate 6 0 = [0, 0, 0, 0, 0, 0 :: nat]" by code_simp
  have ps: "[0, 0, 0, 0, 0, 0][1 := a, 2 := b, 3 := c, 4 := d] = [0, a, b, c, d, 0]" for a b c d :: nat
    by (simp add: numeral_eq_Suc)
  let ?m1 = "if r 1 > 0 then r 1 else 0" and ?a1 = "if r 1 > 0 then 1 else 1 :: nat"
  let ?m2 = "if r 2 > ?m1 then r 2 else ?m1" and ?a2 = "if r 2 > ?m1 then 2 else ?a1"
  let ?m3 = "if r 3 > ?m2 then r 3 else ?m2" and ?a3 = "if r 3 > ?m2 then 3 else ?a2"
  let ?m4 = "if r 4 > ?m3 then r 4 else ?m3" and ?a4 = "if r 4 > ?m3 then 4 else ?a3"
  have "foldl (percents_step counts num) (replicate 6 0, 0, 0, 1) [1, 2, 3, 4]
       = ([0, 0, 0, 0, 0, 0][1 := p 1, 2 := p 2, 3 := p 3, 4 := p 4], 0 + p 1 + p 2 + p 3 + p 4, ?m4, ?a4)"
    unfolding z foldl_Cons foldl_Nil step ..
  moreover have "?a4 \<in> {1, 2, 3, 4} \<and> (\<forall>l \<in> {1, 2, 3, 4}. r l \<le> r ?a4 \<and> (l < ?a4 \<longrightarrow> r l < r ?a4))"
    by (cases "r 2 > r 1"; cases "r 3 > r 2"; cases "r 3 > r 1"; cases "r 4 > r 3"; cases "r 4 > r 2"; cases "r 4 > r 1") simp_all
  ultimately show ?thesis unfolding ps p_def r_def by (simp only: add_0) blast
qed

lemma scaled_down: "0 < (n :: nat) \<Longrightarrow> c * 1000 div n div 10 = c * 100 div n"
proof -
  have "c * 1000 div n div 10 = (10 * (c * 100)) div (10 * n)" by (simp add: div_mult2_eq [symmetric] mult.commute)
  also have "\<dots> = c * 100 div n" by (simp only: div_mult_mult1_if) simp
  finally show ?thesis .
qed

lemma percents_at:
  assumes "a \<in> {1, 2, 3, 4}" and "l \<in> {1, 2, 3, 4}"
  shows "[0, f 1, f 2, f 3, f 4, 0] ! l = (f l :: nat)"
    and "[0, f 1, f 2, f 3, f 4, 0][a := [0, f 1, f 2, f 3, f 4, 0] ! a + e] ! l = f l + (if l = a then e else 0)"
proof -
  show "[0, f 1, f 2, f 3, f 4, 0] ! l = f l" using assms(2) by auto
  show "[0, f 1, f 2, f 3, f 4, 0][a := [0, f 1, f 2, f 3, f 4, 0] ! a + e] ! l = f l + (if l = a then e else 0)"
    using assms by (auto simp: nth_list_update)
qed

lemma percents_floor_le:
  assumes "num = a + b + c + (d :: nat)" and "0 < num"
  shows "a * 100 div num + b * 100 div num + c * 100 div num + d * 100 div num \<le> 100"
proof -
  have "x * 100 div num * num \<le> x * 100" for x by (rule div_times_less_eq_dividend)
  from add_mono [OF add_mono [OF this [of a] this [of b]] add_mono [OF this [of c] this [of d]]]
  have "(a * 100 div num + b * 100 div num + c * 100 div num + d * 100 div num) * num \<le> 100 * num"
    unfolding assms(1) by (simp add: algebra_simps)
  then show ?thesis using assms(2) by simp
qed

section \<open>Properties\<close>

definition sysop_example :: user_record where
  "sysop_example = user_zero\<lparr>ur_id := 1, ur_username := ''sysop'', ur_level := LEVEL_SYSOP, ur_active := True,
     ur_password := PASSWORD_SHA256_PREFIX @ sha_example ''geheim-42''\<rparr>"

definition disk_sysop :: disk where
  "disk_sysop = fs_put (shard_file state_example 1) (shard_text 1 [sysop_example])
     (fs_put (ff_user_next_path state_example) (dec_of_nat 1 @ [CHR 0x0A]) disk_example)"

definition session_example :: user_session where
  "session_example = \<lparr>us_user = user_zero\<lparr>ur_level := LEVEL_GUEST\<rparr>,
     us_record = \<lparr>sr_session_id = 0, sr_user_id = 0, sr_username = [], sr_transport = ''telnet'', sr_remote = ''192.0.2.7'',
        sr_connected_at = 0, sr_disconnected_at = 0, sr_active = False\<rparr>,
     us_logged_in = False, us_login_prompt = True, us_guest_slot = 0, us_input_echo = True\<rparr>"

definition env_example :: command_env where
  "env_example = \<lparr>en_registry = registry_zero, en_state = state_example, en_sha256_hex = sha_example, en_md5_buffer = [],
     en_now = 1700000000, en_guest_prefix = ''Guest'', en_auto_login = False, en_mail_enabled = False,
     en_transport_name = ''telnet'', en_others = [], en_login_texts = (\<lambda>_. [])\<rparr>"

definition account_example :: account_state where
  "account_example = \<lparr>ac_disk = disk_sysop, ac_session = session_example, ac_lines = [], ac_login_fails = [],
     ac_released_slots = [], ac_staff_mails = []\<rparr>"

lemma sysop_example_clean: "clean_user sysop_example"
proof -
  have n: "clean_value ''sysop'' \<and> clean_value [] \<and> hybbx_username_normalize ''sysop'' = ''sysop''" by code_simp
  have "length (PASSWORD_SHA256_PREFIX @ sha_example ''geheim-42'') < USER_PASSWORD_MAX"
    by (simp add: sha_example_def PASSWORD_SHA256_PREFIX_def USER_PASSWORD_MAX_def)
  then show ?thesis
    using n digest_clean [OF sha_example_digest, of "''geheim-42''"]
    by (simp add: clean_user_def sysop_example_def user_zero_def auth_consts)
qed

lemma disk_sysop_stored: "stored state_example disk_sysop [[sysop_example]] 1"
proof -
  have "stored state_example disk_example [] 0" using disk_example_holds(1) by (simp add: holds_def)
  from bump_stored(2) [OF this] have "stored state_example (fs_put (ff_user_next_path state_example) (dec_of_nat 1 @ [CHR 0x0A]) disk_example) [] 1"
    by simp
  from save_stored [OF this, of 0 "[sysop_example]"] sysop_example_clean
  have "stored state_example (snd (save_user_shard state_example
      (fs_put (ff_user_next_path state_example) (dec_of_nat 1 @ [CHR 0x0A]) disk_example) (0 + 1) [sysop_example])) [[sysop_example]] 1"
    by (simp add: put_shard_def USERS_PER_FILE_def disk_example_def sysop_example_def)
  moreover have "save_user_shard state_example d 1 [sysop_example] = (HYBBX_OK, fs_put (shard_file state_example 1) (shard_text 1 [sysop_example]) d)"
    if "dk_writable d = (\<lambda>_. True)" "dk_room d = (\<lambda>_. None)" for d
  proof -
    obtain path where p: "user_shard_path state_example 1 = (HYBBX_OK, path)"
      using path_facts(1) [OF state_example_ok(1), of 1] by (cases "user_shard_path state_example 1") auto
    have "ur_nickname sysop_example = []" by (simp add: sysop_example_def user_zero_def)
    then show ?thesis unfolding save_user_shard_def p by (simp add: USERS_PER_FILE_def that)
  qed
  ultimately show ?thesis
    by (simp add: disk_sysop_def disk_example_def)
qed

lemma account_example_ok:
  "users_now env_example account_example [sysop_example]" "has_room env_example account_example" "sound_env env_example"
proof -
  have h: "holds state_example disk_sysop [sysop_example] 1 1" using holdsI [OF disk_sysop_stored] by simp
  then show "users_now env_example account_example [sysop_example]"
    by (auto simp: users_now_def env_example_def account_example_def)
  show "has_room env_example account_example"
    using holds_last [OF h] holds_counter [OF h] by (simp add: has_room_def env_example_def account_example_def)
  show "sound_env env_example" using sha_example_digest by (simp add: sound_env_def env_example_def)
qed

text \<open>
  C27. Every command does to the accounts at most what the policy allows: nothing, one inactive account of
  the lowest level with a new number more, one account changed as \<open>may_change\<close> says for this verb and these words (the account that
  the first word names activated, promoted or demoted with the registry's right; the session's own, when the
  first word matches its old password, or another's with the right to it, given the second word as password and
  a valid profile; or the login time of the account whose password was given), or one account less as \<open>may_remove\<close> says.
  Anything but nothing needs the right to the verb.  This is while the disk takes what is written to the files that it lets
  open, there is room for one more user and one more number, no word begins with an apostrophe (words of the parser are
  not empty and without blanks), and for the verbs that are not modelled here the handlers given leave the users alone.
\<close>

theorem commands_follow_policy:
  assumes "users_now env st us" and "has_room env st" and "sound_env env" and "plain_words argv" and "leaves_users others"
    and "hybbx_command_dispatch others scope verb env argv st = (rc, st')"
  shows "\<exists>us'. users_now env st' us' \<and> account_effect env (ac_session st) verb argv us us'
     \<and> (us' \<noteq> us \<longrightarrow> scope = CMD_SCOPE_HYBBX \<and> may_use env (ac_session st) verb)"
  by (rule dispatch_allowed [OF assms])

theorem commands_follow_policy_witness:
  "\<exists>us'. users_now env_example (snd (hybbx_command_dispatch (\<lambda>_. None) CMD_SCOPE_HYBBX ''login'' env_example [''sysop'', ''geheim-42''] account_example)) us'
     \<and> account_effect env_example session_example ''login'' [''sysop'', ''geheim-42''] [sysop_example] us'"
  using commands_follow_policy [OF account_example_ok, of "[''sysop'', ''geheim-42'']" "\<lambda>_. None" CMD_SCOPE_HYBBX "''login''"]
  by (cases "hybbx_command_dispatch (\<lambda>_. None) CMD_SCOPE_HYBBX ''login'' env_example [''sysop'', ''geheim-42''] account_example")
    (auto simp: plain_words_def c_isspace_def leaves_users_def account_example_def)

text \<open>
  C28. The Sysop's account is permanent: after any command of the accounts every account of the Sysop's
  level is there, has kept its level and its activity, and its password against everyone but its owner,
  as long as no demotion rule names the Sysop and the session of a Sysop's account has his level.  As before the disk
  takes what is written, there is room for one more user, no word begins with an apostrophe, and
  the handlers given for the verbs that are not modelled leave the users alone.
\<close>

theorem sysop_account_permanent:
  assumes "users_now env st us" and "has_room env st" and "sound_env env" and "plain_words argv" and "leaves_users others"
    and "hybbx_command_dispatch others scope verb env argv st = (rc, st')"
    and "session_sound (ac_session st) us"
    and "\<not> hybbx_commands_registry_may_demote (en_registry env) (hybbx_session_user_level (ac_session st)) LEVEL_SYSOP"
    and "v \<in> set us" and "ur_level v = LEVEL_SYSOP"
  shows "\<exists>us'. users_now env st' us' \<and> (\<exists>v' \<in> set us'. ur_id v' = ur_id v \<and> ur_username v' = ur_username v \<and> ur_level v' = LEVEL_SYSOP
     \<and> (ur_active v \<longrightarrow> ur_active v') \<and> (ur_id v \<noteq> sr_user_id (us_record (ac_session st)) \<longrightarrow> ur_password v' = ur_password v))"
proof -
  obtain us' where "users_now env st' us'" "account_effect env (ac_session st) verb argv us us'"
    using dispatch_allowed [OF assms(1-6)] by blast
  then show ?thesis using effect_keeps_sysop [OF _ assms(7-10)] by blast
qed

theorem sysop_account_permanent_witness:
  "\<exists>us'. users_now env_example (snd (hybbx_command_dispatch (\<lambda>_. None) CMD_SCOPE_HYBBX ''delete'' env_example [''sysop''] account_example)) us'
     \<and> (\<exists>v' \<in> set us'. ur_id v' = 1 \<and> ur_level v' = LEVEL_SYSOP \<and> ur_password v' = ur_password sysop_example)"
  using sysop_account_permanent [OF account_example_ok, of "[''sysop'']" "\<lambda>_. None" CMD_SCOPE_HYBBX "''delete''" _ _ sysop_example]
  by (cases "hybbx_command_dispatch (\<lambda>_. None) CMD_SCOPE_HYBBX ''delete'' env_example [''sysop''] account_example")
    (auto simp: plain_words_def c_isspace_def leaves_users_def account_example_def session_sound_def session_example_def
      sysop_example_def env_example_def hybbx_commands_registry_may_demote_def registry_zero_def)

text \<open>
  C29. Nobody gets privileges that were not given: after any command of the accounts every account has the level it had
  before, or one that the registry lets the acting session promote or demote it to, or its number is a new one,
  it has the user's level, and is inactive.  As before the disk takes what is written, there is room for one
  more user, no word begins with an apostrophe, and the handlers given for the verbs that are not modelled leave the users alone.
\<close>

theorem no_privilege_from_nowhere:
  assumes "users_now env st us" and "has_room env st" and "sound_env env" and "plain_words argv" and "leaves_users others"
    and "hybbx_command_dispatch others scope verb env argv st = (rc, st')"
  shows "\<exists>us'. users_now env st' us' \<and> (\<forall>v' \<in> set us'.
     (\<exists>v \<in> set us. ur_id v = ur_id v' \<and> (ur_level v' = ur_level v
        \<or> (ur_level v' \<in> {LEVEL_ADMIN, LEVEL_MOD}
            \<and> hybbx_commands_registry_may_promote (en_registry env) (hybbx_session_user_level (ac_session st)) (ur_level v) (ur_active v) (ur_level v'))
        \<or> (ur_level v' = LEVEL_USER
            \<and> hybbx_commands_registry_may_demote (en_registry env) (hybbx_session_user_level (ac_session st)) (ur_level v))))
     \<or> (ur_id v' \<notin> ur_id ` set us \<and> ur_level v' = LEVEL_USER \<and> \<not> ur_active v'))"
proof -
  obtain us' where e: "users_now env st' us'" "account_effect env (ac_session st) verb argv us us'"
    using dispatch_allowed [OF assms] by blast
  have "distinct (map ur_id us)" using ff.good_law [OF users_store_holds [OF assms(1,2)]] by blast
  then show ?thesis using e effect_levels [OF e(2)] by blast
qed

theorem no_privilege_from_nowhere_witness:
  "\<exists>us'. users_now env_example (snd (hybbx_command_dispatch (\<lambda>_. None) CMD_SCOPE_HYBBX ''promote'' env_example [''sysop'', ''mod''] account_example)) us'"
  using no_privilege_from_nowhere [OF account_example_ok, of "[''sysop'', ''mod'']" "\<lambda>_. None" CMD_SCOPE_HYBBX "''promote''"]
  by (cases "hybbx_command_dispatch (\<lambda>_. None) CMD_SCOPE_HYBBX ''promote'' env_example [''sysop'', ''mod''] account_example")
    (auto simp: plain_words_def c_isspace_def leaves_users_def)

text \<open>
  C30. Only the holder of an active account logs in: when \<open>/login\<close> changes the session, the store holds an
  active account of that name that is no guest's, the password matched its stored one, no other session is
  logged in to it, and the session now has that account's level.
\<close>

theorem login_needs_active_account:
  assumes "users_now env st us" and "has_room env st" and "cmd_login env argv st = (rc, st')"
    and "ac_session st' \<noteq> ac_session st" and "ac_session st' \<noteq> (ac_session st)\<lparr>us_guest_slot := 0\<rparr>"
  shows "\<exists>u \<in> set us. str_ieq (ur_username u) (hybbx_username_normalize (str_store USER_NAME_MAX (argv ! 0)))
     \<and> ur_active u \<and> \<not> hybbx_user_level_is_guest (ur_level u)
     \<and> hybbx_password_match (en_sha256_hex env) (en_md5_buffer env) (ur_password u) (argv ! 1)
     \<and> hybbx_service_find_registered_session (en_others env) (ur_id u) = None
     \<and> us_user (ac_session st') = u \<and> us_logged_in (ac_session st') \<and> hybbx_session_user_level (ac_session st') = ur_level u"
proof -
  let ?name = "hybbx_username_normalize (str_store USER_NAME_MAX (argv ! 0))"
  have a: "argv \<noteq> []" "arg argv 1 \<noteq> []" using assms(3-5) by (auto simp: cmd_login_def Let_def split: if_splits)
  have "fst (flatfile_find_user (en_state env) (ac_disk st) ?name) = HYBBX_OK"
    using assms(3,4) a(1) by (auto simp: cmd_login_def Let_def split: if_splits prod.splits)
  then obtain found where f: "flatfile_find_user (en_state env) (ac_disk st) ?name = (HYBBX_OK, found)"
    by (cases "flatfile_find_user (en_state env) (ac_disk st) ?name") auto
  from find_found [OF assms(1,2) f] obtain u where u: "found = Some u" "u \<in> set us" "str_ieq (ur_username u) ?name" by blast
  obtain rc2 st2 where sw: "hybbx_session_switch_user env u st = (rc2, st2)" by (cases "hybbx_session_switch_user env u st")
  note e = switch_user_effect [OF assms(1), of u, unfolded sw]
  have "ur_active u \<and> \<not> hybbx_user_level_is_guest (ur_level u)
     \<and> hybbx_password_match (en_sha256_hex env) (en_md5_buffer env) (ur_password u) (argv ! 1)
     \<and> hybbx_service_find_registered_session (en_others env) (ur_id u) = None \<and> rc2 = HYBBX_OK \<and> ac_session st' = ac_session st2"
    using assms(3-5) e a(1) by (cases "rc2 = HYBBX_OK") (auto simp: cmd_login_def Let_def f u(1) sw split: if_splits)
  with e u(2,3) a(1) show ?thesis by (intro bexI [of _ u]) (simp_all add: Let_def hybbx_session_user_level_def)
qed

text \<open>Words of a login that name an active account with a password, and another one than its own.\<close>

definition wrong_password :: "command_env \<Rightarrow> string list \<Rightarrow> account_state \<Rightarrow> bool" where
  "wrong_password env argv st \<longleftrightarrow>
     (let name = hybbx_username_normalize (str_store USER_NAME_MAX (argv ! 0)) in
      2 \<le> length argv \<and> argv ! 0 \<noteq> [] \<and> argv ! 1 \<noteq> [] \<and> hybbx_guest_slot_from_username (en_guest_prefix env) name = None
      \<and> (\<exists>u. flatfile_find_user (en_state env) (ac_disk st) name = (HYBBX_OK, Some u)
           \<and> \<not> hybbx_user_level_is_guest (ur_level u) \<and> ur_active u \<and> ur_password u \<noteq> []
           \<and> \<not> hybbx_password_match (en_sha256_hex env) (en_md5_buffer env) (ur_password u) (argv ! 1)))"

lemma login_example:
  "fst (cmd_login env_example [''sysop'', ''geheim-42''] account_example) = HYBBX_OK
   \<and> us_logged_in (ac_session (snd (cmd_login env_example [''sysop'', ''geheim-42''] account_example)))"
proof -
  let ?st = state_example
  have find: "flatfile_find_user ?st disk_sysop ''sysop'' = (HYBBX_OK, Some sysop_example)"
    using find_user_stored [OF disk_sysop_stored, of "''sysop''"] by (simp add: lookup_result_def sysop_example_def)
  have name: "hybbx_username_normalize (str_store USER_NAME_MAX ''sysop'') = ''sysop''"
    "hybbx_guest_slot_from_username ''Guest'' ''sysop'' = None" by code_simp+
  have pw: "hybbx_password_match sha_example [] (ur_password sysop_example) ''geheim-42''"
    using hex_string_eq_digests [OF sha_example_digest sha_example_digest, of "''geheim-42''" "''geheim-42''"]
    by (simp add: hybbx_password_match_def sysop_example_def PASSWORD_SHA256_PREFIX_def has_prefix_def)
  have nx: "dk_files disk_sysop (ff_session_next_path ?st) = None"
    using path_facts(5) [OF state_example_ok(1), of 1] state_example_ok(1)
    by (auto simp: disk_sysop_def disk_example_def paths_ok_def)
  have bump: "\<exists>d. bump_counter disk_sysop (ff_session_next_path ?st) = (HYBBX_OK, 1, d) \<and> dk_writable d = (\<lambda>_. True)"
    using nx by (simp add: bump_counter_def read_counter_def write_counter_def Let_def disk_sysop_def disk_example_def)
  have sess: "\<exists>d r. flatfile_session_begin ?st disk_sysop sysop_example ''telnet'' 1700000000 = (HYBBX_OK, d, r)"
    using bump by (auto simp: flatfile_session_begin_def append_line_def Let_def)
  have lv: "ur_level sysop_example = LEVEL_SYSOP" "ur_active sysop_example" "ur_password sysop_example \<noteq> []"
    by (simp_all add: sysop_example_def PASSWORD_SHA256_PREFIX_def)
  show ?thesis
    using find name pw sess lv
    by (auto simp: cmd_login_def env_example_def account_example_def session_example_def Let_def
        hybbx_user_level_is_guest_def hybbx_service_find_registered_session_def hybbx_session_switch_user_def)
qed

lemma wrong_example: "wrong_password env_example [''sysop'', ''falsch-1''] account_example"
proof -
  have find: "flatfile_find_user state_example disk_sysop ''sysop'' = (HYBBX_OK, Some sysop_example)"
    using find_user_stored [OF disk_sysop_stored, of "''sysop''"] by (simp add: lookup_result_def sysop_example_def)
  have name: "hybbx_username_normalize (str_store USER_NAME_MAX ''sysop'') = ''sysop''"
    "hybbx_guest_slot_from_username ''Guest'' ''sysop'' = None" by code_simp+
  have "sha_example ''geheim-42'' \<noteq> sha_example ''falsch-1''" by code_simp
  then have pw: "\<not> hybbx_password_match sha_example [] (ur_password sysop_example) ''falsch-1''"
    using hex_string_eq_digests [OF sha_example_digest sha_example_digest, of "''falsch-1''" "''geheim-42''"]
      hex_string_eq_digests [OF sha_example_digest sha_example_digest, of "''geheim-42''" "''falsch-1''"]
    by (auto simp: hybbx_password_match_def sysop_example_def PASSWORD_SHA256_PREFIX_def has_prefix_def)
  have lv: "ur_level sysop_example = LEVEL_SYSOP" "ur_active sysop_example" "ur_password sysop_example \<noteq> []"
    by (simp_all add: sysop_example_def PASSWORD_SHA256_PREFIX_def)
  show ?thesis
    using find name pw lv
    by (auto simp: wrong_password_def env_example_def account_example_def Let_def hybbx_user_level_is_guest_def)
qed

theorem login_needs_active_account_witness:
  "us_user (ac_session (snd (cmd_login env_example [''sysop'', ''geheim-42''] account_example))) = sysop_example"
proof -
  let ?r = "cmd_login env_example [''sysop'', ''geheim-42''] account_example"
  have ch: "ac_session (snd ?r) \<noteq> ac_session account_example" "ac_session (snd ?r) \<noteq> (ac_session account_example)\<lparr>us_guest_slot := 0\<rparr>"
    using login_example by (auto simp: account_example_def session_example_def)
  from login_needs_active_account [OF account_example_ok(1,2), of "[''sysop'', ''geheim-42'']" "fst ?r" "snd ?r"] ch
  show ?thesis by auto
qed

text \<open>
  C31. After one successful login the bans see no more of this connection.  On a connection whose address is known a
  wrong password for an active account is reported, once and with the address, and changes nothing else; but a
  login replaces the session's record by one without the address, without a report, and from then on no number of attempts at any
  accounts' passwords is reported.
\<close>

theorem logged_in_guessing_unseen:
  assumes "cmd_login env argv st = (HYBBX_OK, st1)"
    and "us_logged_in (ac_session st1)" and "\<not> us_logged_in (ac_session st)"
    and "sr_remote (us_record (ac_session st)) \<noteq> []"
    and "wrong_password env guess st"
  shows "cmd_login env guess st = (HYBBX_OK, write_line ''Invalid password.''
       (st\<lparr>ac_login_fails := ac_login_fails st @ [(sr_remote (us_record (ac_session st)), sr_transport (us_record (ac_session st)))]\<rparr>))
     \<and> sr_remote (us_record (ac_session st1)) = []
     \<and> ac_login_fails (login_attempts attempts st1) = ac_login_fails st"
proof -
  have s: "sr_remote (us_record (ac_session st1)) = [] \<and> ac_login_fails st1 = ac_login_fails st"
    using assms(1-3)
    by (auto simp: cmd_login_def Let_def write_line_def dest!: switch_user_remote split: prod.splits if_splits)
  obtain u where u: "2 \<le> length guess" "guess ! 0 \<noteq> []" "guess ! 1 \<noteq> []"
    "hybbx_guest_slot_from_username (en_guest_prefix env) (hybbx_username_normalize (str_store USER_NAME_MAX (guess ! 0))) = None"
    "flatfile_find_user (en_state env) (ac_disk st) (hybbx_username_normalize (str_store USER_NAME_MAX (guess ! 0))) = (HYBBX_OK, Some u)"
    "\<not> hybbx_user_level_is_guest (ur_level u)" "ur_active u" "ur_password u \<noteq> []"
    "\<not> hybbx_password_match (en_sha256_hex env) (en_md5_buffer env) (ur_password u) (guess ! 1)"
    using assms(5) by (auto simp: wrong_password_def Let_def)
  have "cmd_login env guess st = (HYBBX_OK, write_line ''Invalid password.''
       (st\<lparr>ac_login_fails := ac_login_fails st @ [(sr_remote (us_record (ac_session st)), sr_transport (us_record (ac_session st)))]\<rparr>))"
    using u assms(4) by (auto simp: cmd_login_def Let_def)
  then show ?thesis using s attempts_silent by simp
qed

theorem logged_in_guessing_unseen_witness:
  "ac_login_fails (snd (cmd_login env_example [''sysop'', ''falsch-1''] account_example)) = [(''192.0.2.7'', ''telnet'')]
   \<and> ac_login_fails (login_attempts (replicate 1000 (env_example, [''sysop'', ''falsch-1''])) (snd (cmd_login env_example [''sysop'', ''geheim-42''] account_example))) = []"
  using logged_in_guessing_unseen [of env_example "[''sysop'', ''geheim-42'']" account_example
      "snd (cmd_login env_example [''sysop'', ''geheim-42''] account_example)" "[''sysop'', ''falsch-1'']"] login_example wrong_example
  by (cases "cmd_login env_example [''sysop'', ''geheim-42''] account_example")
    (simp add: account_example_def session_example_def write_line_def)

text \<open>
  C32. The percentages of the user list, of one registered user or more (and fewer than 2^64 / 1000), add up to 100:
  each level's is its share rounded down, and what the rounding loses goes to one level, the first of
  those with the largest remainder in tenths of a percent.
\<close>

theorem users_percents_add_up:
  assumes "length counts = 6" and "num = counts ! 1 + counts ! 2 + counts ! 3 + counts ! 4" and "0 < num" and "num * 1000 < 2 ^ 64"
  shows "\<exists>a \<in> {1, 2, 3, 4}.
     (\<forall>l \<in> {1, 2, 3, 4}. (counts ! l * 1000 div num) mod 10 \<le> (counts ! a * 1000 div num) mod 10
        \<and> (l < a \<longrightarrow> (counts ! l * 1000 div num) mod 10 < (counts ! a * 1000 div num) mod 10))
     \<and> (\<forall>l \<in> {1, 2, 3, 4}. users_compute_percents counts num ! l = counts ! l * 100 div num
          + (if l = a then 100 - (\<Sum>k \<leftarrow> [1, 2, 3, 4]. counts ! k * 100 div num) else 0))
     \<and> (\<Sum>l \<leftarrow> [1, 2, 3, 4]. users_compute_percents counts num ! l) = 100"
proof -
  let ?p = "\<lambda>l. counts ! l * 100 div num" and ?q = "\<lambda>l. counts ! l * 1000 mod 2 ^ 64 div num"
  have l5: "[1..<5] = [1, 2, 3, 4 :: nat]" by (simp add: upt_rec)
  have q: "?q l = counts ! l * 1000 div num" if "l \<in> {1, 2, 3, 4}" for l
    using that assms(2,4) by auto
  then have p: "?q l div 10 = ?p l" if "l \<in> {1, 2, 3, 4}" for l
    using that scaled_down [OF assms(3)] by simp
  have p4: "?q 1 div 10 = ?p 1" "?q 2 div 10 = ?p 2" "?q 3 div 10 = ?p 3" "?q 4 div 10 = ?p 4" by (rule p, simp)+
  obtain m a where f: "foldl (percents_step counts num) (replicate 6 0, 0, 0, 1) [1, 2, 3, 4]
      = ([0, ?p 1, ?p 2, ?p 3, ?p 4, 0], ?p 1 + ?p 2 + ?p 3 + ?p 4, m, a)"
    and a: "a \<in> {1, 2, 3, 4}" and r: "\<forall>l \<in> {1, 2, 3, 4}. ?q l mod 10 \<le> ?q a mod 10 \<and> (l < a \<longrightarrow> ?q l mod 10 < ?q a mod 10)"
    using percents_fold [of counts num, unfolded p4] by blast
  have r: "counts ! l * 1000 div num mod 10 \<le> counts ! a * 1000 div num mod 10
      \<and> (l < a \<longrightarrow> counts ! l * 1000 div num mod 10 < counts ! a * 1000 div num mod 10)" if l: "l \<in> {1, 2, 3, 4}" for l
    using bspec [OF r l] unfolding q [OF l] q [OF a] .
  have le: "?p 1 + ?p 2 + ?p 3 + ?p 4 \<le> 100" by (rule percents_floor_le [OF assms(2,3)])
  have res: "users_compute_percents counts num =
      (if ?p 1 + ?p 2 + ?p 3 + ?p 4 < 100
       then [0, ?p 1, ?p 2, ?p 3, ?p 4, 0][a := [0, ?p 1, ?p 2, ?p 3, ?p 4, 0] ! a + (100 - (?p 1 + ?p 2 + ?p 3 + ?p 4))]
       else [0, ?p 1, ?p 2, ?p 3, ?p 4, 0])"
    unfolding users_compute_percents_def l5 f using assms(3) by simp
  have v: "users_compute_percents counts num ! l = ?p l + (if l = a then 100 - (?p 1 + ?p 2 + ?p 3 + ?p 4) else 0)"
    if "l \<in> {1, 2, 3, 4}" for l
    unfolding res if_distrib [of "\<lambda>xs. xs ! l"] percents_at [OF a that, where f = ?p] using le by (cases "l = a") simp_all
  have s: "(\<Sum>k \<leftarrow> [1, 2, 3, 4]. f k) = f 1 + f 2 + f 3 + f 4" for f :: "nat \<Rightarrow> nat" by simp
  have "(\<Sum>l \<leftarrow> [1, 2, 3, 4]. users_compute_percents counts num ! l) = 100"
    unfolding s using v [of 1] v [of 2] v [of 3] v [of 4] a le by (elim insertE emptyE) simp_all
  then show ?thesis unfolding s using r v by (intro bexI [OF _ a] conjI ballI) simp_all
qed

theorem users_percents_add_up_witness:
  "(\<Sum>l \<leftarrow> [1, 2, 3, 4]. users_compute_percents [0, 1, 2, 1, 3, 0] 7 ! l) = 100"
  using users_percents_add_up [of "[0, 1, 2, 1, 3, 0]" 7] by auto

text \<open>
  The documented \<^verbatim>\<open>/echo yes|no\<close> changes nothing: the handler looks for its argument in the second place.
\<close>

theorem echo_argument_ignored:
  "ac_session (snd (cmd_echo env [a] st)) = ac_session st \<and> fst (cmd_echo env [a] st) = HYBBX_OK"
  by (simp add: cmd_echo_def)

end
