(* ===== verification/Spec2Isabelle.thy ===== *)
theory Spec2Isabelle
  imports Kiss Ax25 Sixpack Telnet_Proto Circuit Util Config Link_Auth Command_Parse Traffic Circuit_Balance
    Bandwidth_Policy
    Security_Ban Websocket Line_Editor Password Registry_Bounds Storage_Flatfile Account_Commands
begin

text \<open>
  hyBBX is a bulletin board and packet radio node written in C.  Users reach a session over telnet,
  SSH, WebSocket or a radio link; \<^verbatim>\<open>src/core\<close> holds the sessions, the configuration, the bans and
  the links between nodes, \<^verbatim>\<open>plugins\<close> the transports, \<^verbatim>\<open>src/clients\<close> the terminals.  This
  development models the parts of it that are protocol, parser, queue or state machine, and proves what
  makes each of them correct.

  How the parts meet.  Bytes from a TNC pass \<^verbatim>\<open>kiss.c\<close> or \<^verbatim>\<open>sixpack.c\<close> and then
  \<^verbatim>\<open>ax25.c\<close>; bytes between nodes are frames of \<^verbatim>\<open>circuit.c\<close>, the first of them the
  announcement of \<^verbatim>\<open>link_auth.c\<close>; what leaves a node over a circuit is queued by
  \<^verbatim>\<open>circuit_balance.c\<close>, which asks \<^verbatim>\<open>bandwidth_policy.c\<close> for sacrifices when a queue grows.
  A telnet connection passes \<^verbatim>\<open>telnet_proto.c\<close>, a browser \<^verbatim>\<open>ws_proto.c\<close>; a new connection is
  first put before \<^verbatim>\<open>security_ban.c\<close>.  The bytes of a user reach the line editor of
  \<^verbatim>\<open>session.c\<close>, the submitted line \<^verbatim>\<open>command_parse.c\<close>, and the text of an answer goes out
  through \<^verbatim>\<open>traffic.c\<close>.  \<^verbatim>\<open>config.c\<close> and \<^verbatim>\<open>util.c\<close> serve all of them.

  Theories, in the order of their imports, and the code they model.

  \<^item> \<open>Prelude\<close>: result codes (\<^verbatim>\<open>types.h\<close>), the C library's character and string functions, streams
    (\<open>run_stream\<close>: a decoder is a step function from a state and a byte to a state and the frames
    delivered) and the interfaces \<open>framed_codec\<close> (a decoder whose encoder's frames come out as they went
    in, in any concatenation) and \<open>bounded_fifo\<close> (a ring of bounded size that is a queue).
  \<^item> \<open>Kiss\<close>, \<open>Sixpack\<close>, \<open>Circuit\<close>: the three byte codecs.  Each decoder's state is the C structure, its
    step the body of its byte loop; each is an interpretation of \<open>framed_codec\<close>.  \<open>Kiss\<close> also proves the
    decoder to refine a description of the stream without state, \<open>Circuit\<close> that after any garbage a
    frame is found again.
  \<^item> \<open>Ax25\<close>: addresses, the check sequence and UI frames, with the frame's round trip and the detection
    of a changed byte.
  \<^item> \<open>Telnet_Proto\<close>: the option filter, against the list of the stream's tokens.
  \<^item> \<open>Ws_Sha1\<close>, \<open>Websocket\<close>: the hash of the handshake against the standard's definition, the
    handshake, the frames and the buffer they are read through.
  \<^item> \<open>Link_Auth\<close>: the announcement's text, written and read back, and over a circuit.
  \<^item> \<open>Util\<close>: strings, booleans, result names, paths.
  \<^item> \<open>Config\<close>: the INI parser and writer and the typed accessors; the store is an interpretation of
    \<open>keyed_store\<close>.
  \<^item> \<open>Command_Parse\<close>: tokens, aliases, the parsed command.
  \<^item> \<open>Traffic\<close>: wrapping, filtering and pacing of text.
  \<^item> \<open>Line_Editor\<close>: the line buffer, the echo, escape sequences and the history of a session; the echo is
    proved to keep the terminal's row equal to the line.
  \<^item> \<open>Circuit_Balance\<close>: a link's queue, its profile, its escalation and its budget; the ring is an
    interpretation of \<open>bounded_fifo\<close>.
  \<^item> \<open>Bandwidth_Policy\<close>: who is paused or disconnected when a link is overloaded.
  \<^item> \<open>Block_Hash\<close>: what SHA-1 and MD5 share.
  \<^item> \<open>Auth\<close>: levels, user records, guest names and the rules of what may be registered; a guest's name
    is proved never to be registrable.
  \<^item> \<open>Password\<close>: stored passwords; the file's MD5 is proved to be the standard's.
  \<^item> \<open>Commands_Registry\<close>: the readers of the two command files, the questions about verbs and rights and the
    menus; \<open>Registry_Access\<close>: what they decide; \<open>Registry_Bounds\<close>: that the registry fits its arrays and
    loading ends.
  \<^item> \<open>User_Files\<close>: a file of users, written and read back through the configuration reader;
    \<open>Storage_Flatfile\<close>: the disk, the operations on it and the start of a store, which refine a list of
    users while the disk takes what is written to a file that it lets open; when it does not, the rewriting in
    place loses a file's users, which is proved too.  \<open>user_store\<close> is the contract the account commands rest on.
  \<^item> \<open>Account_Commands\<close>: the dispatcher of \<^verbatim>\<open>command.c\<close> with its access check and the handlers that
    read or change accounts, and the switch of a session's user; every command is proved to do to the
    accounts at most what \<open>account_effect\<close> allows for its verb and words, which is stated without the code.  The
    handlers of the other verbs are an argument, assumed to leave the users' files alone.
  \<^item> \<open>Slot_Table\<close>, \<open>Security_Ban\<close>: fixed tables of keyed slots (an interpretation of \<open>key_table\<close>) and the
    bans, failures and rates kept in them.

  Conventions.  A C string is a \<open>string\<close> without its terminator, a byte buffer a list, a structure a
  record, an \<open>hybbx_result_t\<close> a \<open>hybbx_result\<close>.  A pointer that may be NULL where the code looks at it is
  an option; NULL guards that only protect against a caller's error are left out.  Undefined
  behaviour (a read or write outside an array) is \<open>None\<close> where the code can reach it.  What the
  environment decides (the outcome of a send, what a receive finds, the time, a failing allocation)
  is an argument, mostly a script of outcomes consumed call by call, and the theorems hold for every
  script unless they say otherwise.  \<^verbatim>\<open>double\<close> arithmetic is over the rationals with a rounding
  function as an argument; \<^verbatim>\<open>strtod\<close> is an argument.

  Bounds and fuel.  No definition is cut off by fuel: loops are structural recursions or functions with
  a measure; the cursor loops of the line editor count the columns left, and the reading loops recurse
  on the script of receives.

  Not modelled: sockets, serial ports, threads and their locks (each operation is one step of its
  model, as the lock makes it), process control and plugin loading, the SQL back ends, the wrappers of
  libsodium and OpenSSL, the terminal clients' consoles, and third party code.  The manifest lists every
  part with its status.
\<close>

end
